(* ===== verification/Prelude.thy ===== *)
theory Prelude
  imports Main "HOL-Library.Char_ord" "HOL-Library.List_Lexorder" "HOL-Library.Multiset"
begin

text \<open>
  Shared vocabulary of the development: Go's error values with their wrapping chain, Go maps
  as total functions with a default, and the generic facts on lists, folds and finite sets that
  the components use. Strings are byte lists ordered lexicographically, as in Go.
\<close>

section \<open>Error values\<close>

text \<open>
  A Go error is a sentinel made by \<open>errors.New\<close>, identified by its name, or a formatted
  error made by \<open>fmt.Errorf\<close>: the format, the arguments, and the error wrapped by
  the verb \<open>w\<close> when the format has one.
\<close>

datatype fmt_arg = AStr string | AInt int

datatype go_error =
    ErrNew string
  | Errorf string "fmt_arg list" "go_error option"

fun errors_is :: "go_error \<Rightarrow> go_error \<Rightarrow> bool" where
  "errors_is (ErrNew n) t = (ErrNew n = t)"
| "errors_is (Errorf f as None) t = (Errorf f as None = t)"
| "errors_is (Errorf f as (Some e)) t = (Errorf f as (Some e) = t \<or> errors_is e t)"

lemma errors_is_refl [simp]: "errors_is e e"
  by (cases "(e, e)" rule: errors_is.cases) auto

text \<open>The two errors a Go context reports once it is done.\<close>

definition Canceled :: go_error where
  "Canceled = ErrNew ''context.Canceled''"

definition DeadlineExceeded :: go_error where
  "DeadlineExceeded = ErrNew ''context.DeadlineExceeded''"

section \<open>Collections of facts\<close>

named_theorems frame_simps "fields an operation leaves alone"

section \<open>Lists\<close>

definition remove_nth :: "nat \<Rightarrow> 'a list \<Rightarrow> 'a list" where
  "remove_nth i xs = take i xs @ drop (Suc i) xs"

text \<open>The value of a Go loop that looks for the first element with a property.\<close>

fun find_first :: "('a \<Rightarrow> bool) \<Rightarrow> 'a list \<Rightarrow> 'a option" where
  "find_first p [] = None"
| "find_first p (x # xs) = (if p x then Some x else find_first p xs)"

lemma find_first_None: "find_first p xs = None \<longleftrightarrow> (\<forall>x\<in>set xs. \<not> p x)"
  by (induction xs) auto

lemma find_first_Some: "find_first p xs = Some x \<Longrightarrow> x \<in> set xs \<and> p x"
  by (induction xs) (auto split: if_splits)

lemma filter_append_split:
  "filter P l = as @ x # bs \<Longrightarrow>
   \<exists>us vs. l = us @ x # vs \<and> as = filter P us \<and> bs = filter P vs"
proof (induction l arbitrary: as)
  case (Cons y l)
  show ?case
  proof (cases "P y \<and> as = []")
    case True
    then have "y # l = [] @ x # l \<and> as = filter P [] \<and> bs = filter P l" using Cons.prems by simp
    then show ?thesis by blast
  next
    case False
    then obtain as' where "filter P l = as' @ x # bs" "as = (if P y then y # as' else as')"
      using Cons.prems by (cases as) (auto split: if_splits)
    with Cons.IH obtain us vs where "l = us @ x # vs" "as' = filter P us" "bs = filter P vs" by blast
    then have "y # l = (y # us) @ x # vs \<and> as = filter P (y # us) \<and> bs = filter P vs"
      using \<open>as = _\<close> by simp
    then show ?thesis by blast
  qed
qed simp

lemma distinct_singleton_set: "distinct xs \<Longrightarrow> set xs = {k} \<Longrightarrow> xs = [k]"
  by (cases xs; cases "tl xs") auto

lemma sort_mset_eq: "mset xs = mset ys \<Longrightarrow> sort xs = sort ys"
  by (metis properties_for_sort sorted_sort mset_sort)

lemma map_of_mset_eq:
  assumes "distinct (map fst xs)" and "mset xs = mset ys"
  shows "map_of xs = map_of ys"
proof -
  have d: "distinct (map fst ys)"
    using assms by (metis mset_map mset_eq_imp_distinct_iff)
  have "set xs = set ys" using assms(2) by (rule mset_eq_setD)
  then show ?thesis using assms(1) d by (metis map_of_eq_Some_iff not_None_eq ext)
qed

section \<open>Relations on finite carriers\<close>

text \<open>In a finite set where every element has a predecessor in the set, there is a cycle.\<close>

lemma finite_pred_cycle:
  assumes "finite A" and "A \<noteq> {}" and "\<forall>x\<in>A. \<exists>y\<in>A. (y, x) \<in> r"
  shows "\<not> acyclic r"
proof
  assume "acyclic r"
  let ?r = "r \<inter> A \<times> A"
  have "acyclic ?r" using \<open>acyclic r\<close> by (rule acyclic_subset) auto
  moreover have "finite ?r" using assms(1) by simp
  ultimately have "wf ?r" by (rule finite_acyclic_wf [rotated])
  with assms(2) obtain z where "z \<in> A" "\<forall>y. (y, z) \<in> ?r \<longrightarrow> y \<notin> A"
    by (metis all_not_in_conv wfE_min)
  with assms(3) show False by blast
qed

lemma acyclic_extend_source:
  assumes "acyclic r" and "\<And>x y. (x, y) \<in> r \<Longrightarrow> y \<noteq> a"
    and "\<And>x y. (x, y) \<in> s \<Longrightarrow> x = a \<and> y \<noteq> a"
  shows "acyclic (r \<union> s)"
proof -
  have target: "y \<noteq> a" if "(x, y) \<in> (r \<union> s)\<^sup>+" for x y
    using that assms(2,3) by (induction rule: trancl_induct) blast+
  have "(x, y) \<in> r\<^sup>+" if "(x, y) \<in> (r \<union> s)\<^sup>+" and "x \<noteq> a" for x y
    using that
  proof (induction rule: trancl_induct)
    case (base y)
    then show ?case using assms(3) by blast
  next
    case (step y z)
    then have "(y, z) \<in> r" using assms(3) target by blast
    with step show ?case by (meson trancl_into_trancl)
  qed
  then show ?thesis
    using assms(1) target unfolding acyclic_def by blast
qed

end
