(* ===== verification/Schema.thy ===== *)
theory Schema
  imports Prelude
begin

text \<open>
  The values of the external contract package \<open>largemodel/schema\<close> that the repository reads and
  writes, as records of the fields it uses. Messages, usage counters, options and metadata are
  opaque (type variables); nil pointers are \<open>None\<close>. \<open>r_interrupted\<close> is what the external method
  \<open>IsInterrupted\<close> answers for the response; responses the repository builds itself from a
  composite literal do not suspend.
\<close>

record ('m, 'u, 'd) run_response =
  r_messages :: "'m list"
  r_sessionID :: string
  r_usage :: "'u option"
  r_metadata :: "'d option"
  r_interrupted :: bool

record ('m, 'o, 'd) run_request =
  q_messages :: "'m list"
  q_sessionID :: string
  q_options :: "'o option"
  q_metadata :: "'d option"

definition empty_response :: "('m, 'u, 'd) run_response" where
  "empty_response =
     \<lparr>r_messages = [], r_sessionID = '''', r_usage = None, r_metadata = None, r_interrupted = False\<rparr>"

text \<open>\<open>&schema.RunResponse{Messages: ms, SessionID: s}\<close>.\<close>

definition reply_with :: "'m list \<Rightarrow> string \<Rightarrow> ('m, 'u, 'd) run_response" where
  "reply_with ms s = empty_response\<lparr>r_messages := ms, r_sessionID := s\<rparr>"

definition is_interrupted :: "('m, 'u, 'd) run_response option \<Rightarrow> bool" where
  "is_interrupted r = (case r of None \<Rightarrow> False | Some x \<Rightarrow> r_interrupted x)"

lemma is_interrupted_simps [simp]:
  "is_interrupted None = False" "is_interrupted (Some x) = r_interrupted x"
  by (simp_all add: is_interrupted_def)

end
