(* ===== verification/Graph.thy ===== *)
theory Graph
  imports Prelude
begin

text \<open>
  The graph algorithms of the two schedulers (\<open>orchestrate/dag.go\<close>, \<open>orchestrate.go\<close>,
  \<open>topo.go\<close>; \<open>workflow/graph.go\<close> repeats the first three word for word): adjacency maps,
  three-colour cycle detection, breadth-first connectivity and Kahn's topological order. A
  graph is the list of its nodes in declaration order, each an identifier with the list of
  identifiers it depends on. Go maps from identifiers are functions with the zero value as
  default. The loops carry fuel, and each has a lemma that the fuel used is enough.
\<close>

type_synonym gnode = "string \<times> string list"

abbreviation node_ids :: "gnode list \<Rightarrow> string list" where
  "node_ids g \<equiv> map fst g"

section \<open>Adjacency\<close>

text \<open>\<open>downstream[dep] = append(downstream[dep], n.ID)\<close> for every dependency of every node.\<close>

fun add_deps :: "string \<Rightarrow> string list \<Rightarrow> (string \<Rightarrow> string list) \<Rightarrow> (string \<Rightarrow> string list)" where
  "add_deps i [] m = m"
| "add_deps i (d # ds) m = add_deps i ds (m(d := m d @ [i]))"

fun build_downstream :: "gnode list \<Rightarrow> (string \<Rightarrow> string list) \<Rightarrow> (string \<Rightarrow> string list)" where
  "build_downstream [] m = m"
| "build_downstream ((i, ds) # g) m = build_downstream g (add_deps i ds m)"

definition downstream_of :: "gnode list \<Rightarrow> string \<Rightarrow> string list" where
  "downstream_of g = build_downstream g (\<lambda>_. [])"

fun build_in_degree :: "gnode list \<Rightarrow> (string \<Rightarrow> int) \<Rightarrow> (string \<Rightarrow> int)" where
  "build_in_degree [] m = m"
| "build_in_degree ((i, ds) # g) m = build_in_degree g (m(i := int (length ds)))"

definition in_degree_of :: "gnode list \<Rightarrow> string \<Rightarrow> int" where
  "in_degree_of g = build_in_degree g (\<lambda>_. 0)"

definition buildDAGMaps :: "gnode list \<Rightarrow> (string \<Rightarrow> string list) \<times> (string \<Rightarrow> int)" where
  "buildDAGMaps g = (downstream_of g, in_degree_of g)"

text \<open>The dependency relation: \<open>(d, i)\<close> when node \<open>i\<close> names \<open>d\<close> among its dependencies.\<close>

definition dep_edges :: "gnode list \<Rightarrow> (string \<times> string) set" where
  "dep_edges g = {(d, i). \<exists>ds. (i, ds) \<in> set g \<and> d \<in> set ds}"

lemma count_add_deps:
  "count_list (add_deps i ds m x) y =
     count_list (m x) y + (if y = i then count_list ds x else 0)"
  by (induction ds arbitrary: m) auto

lemma count_build_downstream:
  "count_list (build_downstream g m x) y =
     count_list (m x) y + sum_list (map (\<lambda>(i, ds). if i = y then count_list ds x else 0) g)"
  by (induction g m rule: build_downstream.induct) (auto simp: count_add_deps)

lemma count_downstream:
  "count_list (downstream_of g x) y =
     sum_list (map (\<lambda>(i, ds). if i = y then count_list ds x else 0) g)"
  by (simp add: downstream_of_def count_build_downstream)

lemma set_add_deps:
  "set (add_deps i ds m x) = set (m x) \<union> (if x \<in> set ds then {i} else {})"
  by (induction ds arbitrary: m) auto

lemma set_build_downstream:
  "set (build_downstream g m x) = set (m x) \<union> {i. (x, i) \<in> dep_edges g}"
  by (induction g m rule: build_downstream.induct) (auto simp: set_add_deps dep_edges_def)

lemma set_downstream: "set (downstream_of g x) = {i. (x, i) \<in> dep_edges g}"
  by (simp add: downstream_of_def set_build_downstream)

lemma dep_edges_target: "(d, i) \<in> dep_edges g \<Longrightarrow> i \<in> set (node_ids g)"
  by (force simp: dep_edges_def)

lemma build_in_degree_distinct:
  "distinct (node_ids g) \<Longrightarrow>
   build_in_degree g m x = (case map_of g x of None \<Rightarrow> m x | Some ds \<Rightarrow> int (length ds))"
  by (induction g m rule: build_in_degree.induct) (force split: option.splits dest: map_of_SomeD)+

lemma in_degree_of_node:
  "distinct (node_ids g) \<Longrightarrow> (i, ds) \<in> set g \<Longrightarrow> in_degree_of g i = int (length ds)"
  by (simp add: in_degree_of_def build_in_degree_distinct)

definition deps_known :: "gnode list \<Rightarrow> bool" where
  "deps_known g \<longleftrightarrow> (\<forall>(i, ds)\<in>set g. set ds \<subseteq> set (node_ids g))"

lemma dep_edges_source: "deps_known g \<Longrightarrow> (d, i) \<in> dep_edges g \<Longrightarrow> d \<in> set (node_ids g)"
  by (force simp: deps_known_def dep_edges_def)

section \<open>Cycle detection\<close>

datatype color = White | Gray | Black

text \<open>
  The recursive closure \<open>visit\<close> and its loop over the successors. A successor found gray is
  the identifier the error names (\<open>Inl\<close>); otherwise the recoloured map comes back. The depth
  of the recursion is the fuel.
\<close>

fun visit :: "nat \<Rightarrow> (string \<Rightarrow> string list) \<Rightarrow> string \<Rightarrow> (string \<Rightarrow> color)
      \<Rightarrow> (string + (string \<Rightarrow> color)) option"
  and visit_next :: "nat \<Rightarrow> (string \<Rightarrow> string list) \<Rightarrow> string list \<Rightarrow> (string \<Rightarrow> color)
      \<Rightarrow> (string + (string \<Rightarrow> color)) option" where
  "visit 0 adj i c = None"
| "visit (Suc k) adj i c =
     (case visit_next k adj (adj i) (c(i := Gray)) of
        None \<Rightarrow> None
      | Some (Inl e) \<Rightarrow> Some (Inl e)
      | Some (Inr c') \<Rightarrow> Some (Inr (c'(i := Black))))"
| "visit_next k adj [] c = Some (Inr c)"
| "visit_next k adj (x # xs) c =
     (case c x of
        Gray \<Rightarrow> Some (Inl x)
      | Black \<Rightarrow> visit_next k adj xs c
      | White \<Rightarrow>
          (case visit k adj x c of
             None \<Rightarrow> None
           | Some (Inl e) \<Rightarrow> Some (Inl e)
           | Some (Inr c') \<Rightarrow> visit_next k adj xs c'))"

fun visit_roots :: "nat \<Rightarrow> (string \<Rightarrow> string list) \<Rightarrow> string list \<Rightarrow> (string \<Rightarrow> color)
      \<Rightarrow> (string + (string \<Rightarrow> color)) option" where
  "visit_roots k adj [] c = Some (Inr c)"
| "visit_roots k adj (x # xs) c =
     (if c x = White then
        (case visit k adj x c of
           None \<Rightarrow> None
         | Some (Inl e) \<Rightarrow> Some (Inl e)
         | Some (Inr c') \<Rightarrow> visit_roots k adj xs c')
      else visit_roots k adj xs c)"

definition detect_cycle :: "gnode list \<Rightarrow> (string + unit) option" where
  "detect_cycle g =
     (case visit_roots (Suc (length g)) (downstream_of g) (node_ids g) (\<lambda>_. White) of
        None \<Rightarrow> None
      | Some (Inl e) \<Rightarrow> Some (Inl e)
      | Some (Inr _) \<Rightarrow> Some (Inr ()))"

text \<open>Case rules of the loop bodies.\<close>

lemma visit_next_Cons_Inr:
  assumes "visit_next k adj (x # xs) c = Some (Inr c')"
  obtains "c x = Black" "visit_next k adj xs c = Some (Inr c')"
  | d where "c x = White" "visit k adj x c = Some (Inr d)" "visit_next k adj xs d = Some (Inr c')"
  using assms by (cases "c x"; cases "visit k adj x c") (auto split: sum.splits)

lemma visit_next_Cons_Inl:
  assumes "visit_next k adj (x # xs) c = Some (Inl e)"
  obtains "c x = Gray" "e = x"
  | "c x = Black" "visit_next k adj xs c = Some (Inl e)"
  | "c x = White" "visit k adj x c = Some (Inl e)"
  | d where "c x = White" "visit k adj x c = Some (Inr d)" "visit_next k adj xs d = Some (Inl e)"
  using assms by (cases "c x"; cases "visit k adj x c") (auto split: sum.splits)

lemma visit_roots_Cons_Inr:
  assumes "visit_roots k adj (x # xs) c = Some (Inr c')"
  obtains "c x \<noteq> White" "visit_roots k adj xs c = Some (Inr c')"
  | d where "c x = White" "visit k adj x c = Some (Inr d)" "visit_roots k adj xs d = Some (Inr c')"
  using assms by (cases "c x"; cases "visit k adj x c") (auto split: sum.splits)

lemma visit_roots_Cons_Inl:
  assumes "visit_roots k adj (x # xs) c = Some (Inl e)"
  obtains "c x \<noteq> White" "visit_roots k adj xs c = Some (Inl e)"
  | "c x = White" "visit k adj x c = Some (Inl e)"
  | d where "c x = White" "visit k adj x c = Some (Inr d)" "visit_roots k adj xs d = Some (Inl e)"
  using assms by (cases "c x"; cases "visit k adj x c") (auto split: sum.splits)

subsection \<open>The colour invariant\<close>

definition succ_rel :: "(string \<Rightarrow> string list) \<Rightarrow> (string \<times> string) set" where
  "succ_rel adj = {(x, y). y \<in> set (adj x)}"

definition black_rel :: "(string \<Rightarrow> string list) \<Rightarrow> (string \<Rightarrow> color) \<Rightarrow> (string \<times> string) set" where
  "black_rel adj c = {(x, y). c x = Black \<and> y \<in> set (adj x)}"

definition color_inv :: "(string \<Rightarrow> string list) \<Rightarrow> (string \<Rightarrow> color) \<Rightarrow> bool" where
  "color_inv adj c \<longleftrightarrow>
     (\<forall>x y. c x = Black \<longrightarrow> y \<in> set (adj x) \<longrightarrow> c y = Black) \<and> acyclic (black_rel adj c)"

text \<open>What one call of \<open>visit\<close> may do to the colours.\<close>

definition color_step :: "(string \<Rightarrow> color) \<Rightarrow> (string \<Rightarrow> color) \<Rightarrow> bool" where
  "color_step c c' \<longleftrightarrow>
     (\<forall>x. (c' x = Gray \<longleftrightarrow> c x = Gray) \<and> (c x = Black \<longrightarrow> c' x = Black))"

lemma color_step_refl [simp]: "color_step c c"
  by (simp add: color_step_def)

lemma color_step_trans: "color_step c c' \<Longrightarrow> color_step c' c'' \<Longrightarrow> color_step c c''"
  by (auto simp: color_step_def)

lemma color_inv_gray:
  assumes "color_inv adj c" and "c i = White"
  shows "color_inv adj (c(i := Gray))"
proof -
  have "black_rel adj (c(i := Gray)) = black_rel adj c"
    using assms(2) by (auto simp: black_rel_def split: if_splits)
  then show ?thesis using assms by (auto simp: color_inv_def)
qed

lemma color_inv_black:
  assumes "color_inv adj c" and "c i = Gray" and "\<forall>y\<in>set (adj i). c y = Black"
  shows "color_inv adj (c(i := Black))"
proof -
  have "black_rel adj (c(i := Black)) = black_rel adj c \<union> {(x, y). x = i \<and> y \<in> set (adj i)}"
    using assms(2) by (auto simp: black_rel_def split: if_splits)
  moreover have "acyclic (black_rel adj c \<union> {(x, y). x = i \<and> y \<in> set (adj i)})"
  proof (rule acyclic_extend_source)
    show "acyclic (black_rel adj c)" using assms(1) by (simp add: color_inv_def)
    show "y \<noteq> i" if "(x, y) \<in> black_rel adj c" for x y
      using that assms(1,2) by (auto simp: black_rel_def color_inv_def)
    show "x = i \<and> y \<noteq> i" if "(x, y) \<in> {(x, y). x = i \<and> y \<in> set (adj i)}" for x y
      using that assms(2,3) by auto
  qed
  ultimately show ?thesis using assms by (auto simp: color_inv_def)
qed

lemma visit_color_step:
  "visit k adj i c = Some (Inr c') \<Longrightarrow> c i = White \<Longrightarrow> color_step c c' \<and> c' i = Black"
  "visit_next k adj xs c = Some (Inr c') \<Longrightarrow>
     color_step c c' \<and> (\<forall>x\<in>set xs. c' x = Black)"
proof (induction k adj i c and k adj xs c arbitrary: c' and c' rule: visit_visit_next.induct)
  case (2 k adj i c)
  then obtain d where d: "visit_next k adj (adj i) (c(i := Gray)) = Some (Inr d)"
    and c': "c' = d(i := Black)"
    by (auto split: option.splits sum.splits)
  from "2.IH" [folded fun_upd_def, OF d] have "color_step (c(i := Gray)) d"
    by (simp add: fun_upd_def)
  with \<open>c i = White\<close> c' show ?case by (auto simp: color_step_def)
next
  case (4 k adj x xs c)
  from "4.prems" show ?case
  proof (rule visit_next_Cons_Inr)
    assume "c x = Black" "visit_next k adj xs c = Some (Inr c')"
    with "4.IH"(3) show ?thesis by (auto simp: color_step_def)
  next
    fix d assume d: "c x = White" "visit k adj x c = Some (Inr d)"
      "visit_next k adj xs d = Some (Inr c')"
    from "4.IH"(1) [OF d(1,2,1)] have "color_step c d" "d x = Black" by simp_all
    moreover from "4.IH"(2) [OF d(1,2) refl d(3)]
    have "color_step d c'" "\<forall>x\<in>set xs. c' x = Black" by simp_all
    ultimately show ?thesis by (auto simp: color_step_def)
  qed
qed auto

lemma visit_color_inv:
  "visit k adj i c = Some (Inr c') \<Longrightarrow> c i = White \<Longrightarrow> color_inv adj c \<Longrightarrow> color_inv adj c'"
  "visit_next k adj xs c = Some (Inr c') \<Longrightarrow> color_inv adj c \<Longrightarrow> color_inv adj c'"
proof (induction k adj i c and k adj xs c arbitrary: c' and c' rule: visit_visit_next.induct)
  case (2 k adj i c)
  then obtain d where d: "visit_next k adj (adj i) (c(i := Gray)) = Some (Inr d)"
    and c': "c' = d(i := Black)"
    by (auto split: option.splits sum.splits)
  have "color_inv adj d"
    by (rule "2.IH" [folded fun_upd_def, OF d]) (rule color_inv_gray [OF 2(4) 2(3)])
  moreover have "d i = Gray" and "\<forall>y\<in>set (adj i). d y = Black"
    using visit_color_step(2) [OF d] by (auto simp: color_step_def)
  ultimately show ?case unfolding c' by (intro color_inv_black) auto
next
  case (4 k adj x xs c)
  from "4.prems"(1) show ?case
    by (rule visit_next_Cons_Inr) (use "4.IH" "4.prems"(2) in auto)
qed auto

text \<open>A gray identifier found among the successors closes a cycle of the graph.\<close>

lemma visit_cycle:
  "visit k adj i c = Some (Inl e) \<Longrightarrow> c i = White \<Longrightarrow>
     (\<forall>g. c g = Gray \<longrightarrow> (g, i) \<in> (succ_rel adj)\<^sup>+) \<Longrightarrow> (e, e) \<in> (succ_rel adj)\<^sup>+"
  "visit_next k adj xs c = Some (Inl e) \<Longrightarrow>
     (\<forall>g. c g = Gray \<longrightarrow> (\<forall>x\<in>set xs. (g, x) \<in> (succ_rel adj)\<^sup>+)) \<Longrightarrow>
     (e, e) \<in> (succ_rel adj)\<^sup>+"
proof (induction k adj i c and k adj xs c rule: visit_visit_next.induct)
  case (2 k adj i c)
  then have e: "visit_next k adj (adj i) (c(i := Gray)) = Some (Inl e)"
    by (auto split: option.splits sum.splits)
  have "(g, x) \<in> (succ_rel adj)\<^sup>+" if "(c(i := Gray)) g = Gray" and "x \<in> set (adj i)" for g x
    using that "2.prems"(3) by (auto simp: succ_rel_def split: if_splits intro: trancl_into_trancl)
  with "2.IH" [folded fun_upd_def, OF e] show ?case by blast
next
  case (4 k adj x xs c)
  from "4.prems"(1) show ?case
  proof (rule visit_next_Cons_Inl)
    fix d assume d: "c x = White" "visit k adj x c = Some (Inr d)"
      "visit_next k adj xs d = Some (Inl e)"
    then have "color_step c d" using visit_color_step(1) by blast
    then show ?thesis
      using "4.IH"(2) [OF d(1,2) refl d(3)] "4.prems"(2) by (simp add: color_step_def)
  qed (use 4 in auto)
qed auto

subsection \<open>The fuel is enough\<close>

definition whites :: "string set \<Rightarrow> (string \<Rightarrow> color) \<Rightarrow> string set" where
  "whites V c = {x \<in> V. c x = White}"

lemma whites_step: "color_step c c' \<Longrightarrow> finite V \<Longrightarrow> card (whites V c') \<le> card (whites V c)"
proof -
  assume "color_step c c'" and "finite V"
  then have "whites V c' \<subseteq> whites V c"
    by (auto simp: whites_def color_step_def) (metis color.exhaust)
  with \<open>finite V\<close> show ?thesis by (auto intro: card_mono simp: whites_def)
qed

lemma whites_gray:
  assumes "c i = White" and "i \<in> V" and "finite V"
  shows "card (whites V (c(i := Gray))) < card (whites V c)"
proof -
  have "whites V (c(i := Gray)) = whites V c - {i}" by (auto simp: whites_def)
  moreover have "i \<in> whites V c" using assms by (simp add: whites_def)
  moreover have "finite (whites V c)" using assms(3) by (simp add: whites_def)
  ultimately show ?thesis by (metis card_Diff1_less)
qed

lemma visit_enough_fuel:
  "c i = White \<Longrightarrow> i \<in> V \<Longrightarrow> finite V \<Longrightarrow> (\<forall>x. set (adj x) \<subseteq> V) \<Longrightarrow>
     card (whites V c) \<le> k \<Longrightarrow> visit k adj i c \<noteq> None"
  "set xs \<subseteq> V \<Longrightarrow> finite V \<Longrightarrow> (\<forall>x. set (adj x) \<subseteq> V) \<Longrightarrow>
     card (whites V c) \<le> k \<Longrightarrow> visit_next k adj xs c \<noteq> None"
proof (induction k adj i c and k adj xs c rule: visit_visit_next.induct)
  case (1 adj i c)
  then show ?case using whites_gray [of c i V] by auto
next
  case (2 k adj i c)
  then have "card (whites V (c(i := Gray))) \<le> k" using whites_gray [of c i V] by simp
  then have "visit_next k adj (adj i) (c(i := Gray)) \<noteq> None"
    using "2.IH" [folded fun_upd_def] "2.prems" by blast
  then show ?case by (auto split: option.splits sum.splits)
next
  case (4 k adj x xs c)
  have "visit_next k adj xs d \<noteq> None" if "visit k adj x c = Some (Inr d)" "c x = White" for d
  proof -
    from that have "color_step c d" using visit_color_step(1) by blast
    then have "card (whites V d) \<le> k" using whites_step [of c d V] 4 by linarith
    with 4 that show ?thesis by simp
  qed
  with 4 show ?case by (auto split: color.splits option.splits sum.splits)
qed auto

lemma visit_roots_enough_fuel:
  "set xs \<subseteq> V \<Longrightarrow> finite V \<Longrightarrow> (\<forall>x. set (adj x) \<subseteq> V) \<Longrightarrow> card V \<le> k \<Longrightarrow>
     visit_roots k adj xs c \<noteq> None"
proof (induction k adj xs c rule: visit_roots.induct)
  case (2 k adj x xs c)
  have "card (whites V c) \<le> card V" using "2.prems" by (auto intro: card_mono simp: whites_def)
  then have "c x = White \<Longrightarrow> visit k adj x c \<noteq> None"
    using "2.prems" by (intro visit_enough_fuel(1)) auto
  with 2 show ?case by (auto split: option.splits sum.splits)
qed simp

subsection \<open>Cycle detection decides acyclicity\<close>

lemma visit_roots_inv:
  "visit_roots k adj xs c = Some (Inr c') \<Longrightarrow> color_inv adj c \<Longrightarrow> \<forall>x. c x \<noteq> Gray \<Longrightarrow>
     color_inv adj c' \<and> (\<forall>x. c' x \<noteq> Gray) \<and> (\<forall>x\<in>set xs. c' x = Black) \<and>
     (\<forall>x. c x = Black \<longrightarrow> c' x = Black)"
proof (induction k adj xs c rule: visit_roots.induct)
  case (2 k adj x xs c)
  from "2.prems"(1) show ?case
  proof (rule visit_roots_Cons_Inr)
    assume r: "c x \<noteq> White" "visit_roots k adj xs c = Some (Inr c')"
    then have "c x = Black" using "2.prems"(3) by (metis color.exhaust)
    with "2.IH"(2) [OF r "2.prems"(2,3)] show ?thesis by simp
  next
    fix d assume d: "c x = White" "visit k adj x c = Some (Inr d)"
      "visit_roots k adj xs d = Some (Inr c')"
    have st: "color_step c d" "d x = Black" using visit_color_step(1) [OF d(2,1)] by auto
    have "color_inv adj d" using visit_color_inv(1) [OF d(2,1)] "2.prems"(2) by simp
    moreover have "\<forall>x. d x \<noteq> Gray" using st(1) "2.prems"(3) by (simp add: color_step_def)
    ultimately show ?thesis
      using "2.IH"(1) [OF d(1,2) refl d(3)] st by (simp add: color_step_def)
  qed
qed simp

lemma visit_roots_cycle:
  "visit_roots k adj xs c = Some (Inl e) \<Longrightarrow> \<forall>x. c x \<noteq> Gray \<Longrightarrow> (e, e) \<in> (succ_rel adj)\<^sup>+"
proof (induction k adj xs c rule: visit_roots.induct)
  case (2 k adj x xs c)
  from "2.prems"(1) show ?case
  proof (rule visit_roots_Cons_Inl)
    fix d assume d: "c x = White" "visit k adj x c = Some (Inr d)"
      "visit_roots k adj xs d = Some (Inl e)"
    then have "color_step c d" using visit_color_step(1) by blast
    then show ?thesis
      using "2.IH"(1) [OF d(1,2) refl d(3)] "2.prems"(2) by (simp add: color_step_def)
  qed (use 2 visit_cycle(1) in auto)
qed simp

lemma succ_rel_downstream: "succ_rel (downstream_of g) = dep_edges g"
  by (auto simp: succ_rel_def set_downstream)

lemma downstream_in_ids: "set (downstream_of g x) \<subseteq> set (node_ids g)"
  using dep_edges_target by (auto simp: set_downstream)

theorem detect_cycle_terminates: "detect_cycle g \<noteq> None"
proof -
  have "visit_roots (Suc (length g)) (downstream_of g) (node_ids g) (\<lambda>_. White) \<noteq> None"
  proof (rule visit_roots_enough_fuel)
    show "card (set (node_ids g)) \<le> Suc (length g)"
      by (metis card_length le_SucI length_map)
    show "\<forall>x. set (downstream_of g x) \<subseteq> set (node_ids g)" by (simp only: downstream_in_ids) simp
  qed simp_all
  then show ?thesis by (auto simp: detect_cycle_def split: option.splits sum.splits)
qed

theorem detect_cycle_error: "detect_cycle g = Some (Inl e) \<Longrightarrow> (e, e) \<in> (dep_edges g)\<^sup>+"
  unfolding detect_cycle_def
  by (auto split: option.splits sum.splits dest!: visit_roots_cycle simp: succ_rel_downstream)

theorem detect_cycle_ok:
  assumes "detect_cycle g = Some (Inr ())"
  shows "acyclic (dep_edges g)"
proof -
  let ?adj = "downstream_of g"
  obtain c where "visit_roots (Suc (length g)) ?adj (node_ids g) (\<lambda>_. White) = Some (Inr c)"
    using assms by (auto simp: detect_cycle_def split: option.splits sum.splits)
  moreover have "color_inv ?adj (\<lambda>_. White)"
    by (simp add: color_inv_def black_rel_def acyclic_def)
  ultimately have c: "color_inv ?adj c" "\<forall>x\<in>set (node_ids g). c x = Black"
    using visit_roots_inv by fastforce+
  have "(x, y) \<in> (black_rel ?adj c)\<^sup>+ \<and> c y = Black"
    if "(x, y) \<in> (dep_edges g)\<^sup>+" and "c x = Black" for x y
    using that
  proof (induction rule: trancl_induct)
    case (base y)
    then show ?case
      using c(2) dep_edges_target [of x y g] by (auto simp: black_rel_def set_downstream)
  next
    case (step y z)
    then have "(y, z) \<in> black_rel ?adj c" "c z = Black"
      using c(2) dep_edges_target [of y z g] by (auto simp: black_rel_def set_downstream)
    with step show ?case by (meson trancl_into_trancl)
  qed
  moreover have "c x = Black" if "(x, x) \<in> (dep_edges g)\<^sup>+" for x
    using that c(2) by (metis dep_edges_target tranclE)
  ultimately show ?thesis
    using c(1) unfolding acyclic_def color_inv_def by blast
qed

lemma detect_cycle_iff: "detect_cycle g = Some (Inr ()) \<longleftrightarrow> acyclic (dep_edges g)"
proof (cases "detect_cycle g")
  case None
  then show ?thesis using detect_cycle_terminates by blast
next
  case (Some r)
  then show ?thesis
    using detect_cycle_ok [of g] detect_cycle_error [of g] by (cases r) (auto simp: acyclic_def)
qed

section \<open>Connectivity\<close>

text \<open>The undirected adjacency lists of \<open>checkConnected\<close>.\<close>

fun add_undirected :: "string \<Rightarrow> string list \<Rightarrow> (string \<Rightarrow> string list) \<Rightarrow> (string \<Rightarrow> string list)" where
  "add_undirected i [] m = m"
| "add_undirected i (d # ds) m =
     (let m1 = m(i := m i @ [d]); m2 = m1(d := m1 d @ [i]) in add_undirected i ds m2)"

fun build_undirected :: "gnode list \<Rightarrow> (string \<Rightarrow> string list) \<Rightarrow> (string \<Rightarrow> string list)" where
  "build_undirected [] m = m"
| "build_undirected ((i, ds) # g) m = build_undirected g (add_undirected i ds m)"

text \<open>
  The breadth-first loop. The Go map \<open>visited\<close> only ever gains keys, so it is the list of
  its keys in insertion order.
\<close>

fun bfs_relax :: "string list \<Rightarrow> string list \<Rightarrow> string list \<Rightarrow> string list \<times> string list" where
  "bfs_relax [] visited queue = (visited, queue)"
| "bfs_relax (x # xs) visited queue =
     (if x \<in> set visited then bfs_relax xs visited queue
      else bfs_relax xs (visited @ [x]) (queue @ [x]))"

fun bfs :: "nat \<Rightarrow> (string \<Rightarrow> string list) \<Rightarrow> string list \<Rightarrow> string list \<Rightarrow> string list option" where
  "bfs k adj visited [] = Some visited"
| "bfs 0 adj visited (x # queue) = None"
| "bfs (Suc k) adj visited (x # queue) =
     (case bfs_relax (adj x) visited queue of (visited', queue') \<Rightarrow> bfs k adj visited' queue')"

definition check_connected :: "gnode list \<Rightarrow> (string + unit) option" where
  "check_connected g =
     (if length g \<le> 1 then Some (Inr ())
      else
        (let start = fst (hd g) in
         case bfs (Suc (length g + sum_list (map (length \<circ> snd) g)))
                  (build_undirected g (\<lambda>_. [])) [start] [start] of
           None \<Rightarrow> None
         | Some visited \<Rightarrow>
             (if length visited \<noteq> length g then
                (case find_first (\<lambda>i. i \<notin> set visited) (node_ids g) of
                   Some i \<Rightarrow> Some (Inl i)
                 | None \<Rightarrow> Some (Inr ()))
              else Some (Inr ()))))"

definition undirected :: "gnode list \<Rightarrow> (string \<times> string) set" where
  "undirected g = dep_edges g \<union> (dep_edges g)\<inverse>"

lemma set_add_undirected:
  "set (add_undirected i ds m x) =
     set (m x) \<union> (if x = i then set ds else {}) \<union> (if x \<in> set ds then {i} else {})"
  by (induction ds arbitrary: m) (auto simp: Let_def)

lemma set_build_undirected:
  "set (build_undirected g m x) = set (m x) \<union> {y. (x, y) \<in> undirected g}"
  by (induction g m rule: build_undirected.induct)
    (auto simp: set_add_undirected undirected_def dep_edges_def split: if_splits)

lemma bfs_relax_props:
  "bfs_relax xs v q = (v', q') \<Longrightarrow>
     set v' = set v \<union> set xs \<and> (\<exists>new. v' = v @ new \<and> q' = q @ new) \<and> (distinct v \<longrightarrow> distinct v')"
  by (induction xs v q rule: bfs_relax.induct) (auto split: if_splits)

definition bfs_inv :: "(string \<Rightarrow> string list) \<Rightarrow> string \<Rightarrow> string list \<Rightarrow> string list \<Rightarrow> bool" where
  "bfs_inv adj s v q \<longleftrightarrow> s \<in> set v \<and> set q \<subseteq> set v \<and> distinct v \<and>
     (\<forall>x\<in>set v. (s, x) \<in> (succ_rel adj)\<^sup>*) \<and> (\<forall>x\<in>set v - set q. set (adj x) \<subseteq> set v)"

lemma bfs_inv_step:
  assumes "bfs_inv adj s v (x # q)" and "bfs_relax (adj x) v q = (v', q')"
  shows "bfs_inv adj s v' q'"
proof -
  obtain new where new: "v' = v @ new" "q' = q @ new" and v': "set v' = set v \<union> set (adj x)"
    and "distinct v \<longrightarrow> distinct v'"
    using bfs_relax_props [OF assms(2)] by auto
  moreover have "(s, y) \<in> (succ_rel adj)\<^sup>*" if "y \<in> set (adj x)" for y
  proof -
    have "(s, x) \<in> (succ_rel adj)\<^sup>*" using assms(1) by (simp add: bfs_inv_def)
    moreover have "(x, y) \<in> succ_rel adj" using that by (simp add: succ_rel_def)
    ultimately show ?thesis by (rule rtrancl_into_rtrancl)
  qed
  moreover have "set (adj y) \<subseteq> set v'" if "y \<in> set v' - set q'" for y
    using that assms(1) new v' by (cases "y = x") (auto simp: bfs_inv_def)
  ultimately show ?thesis using assms(1) by (auto simp: bfs_inv_def)
qed

lemma bfs_reach:
  "bfs k adj v q = Some w \<Longrightarrow> bfs_inv adj s v q \<Longrightarrow>
     distinct w \<and> set w = {x. (s, x) \<in> (succ_rel adj)\<^sup>*}"
proof (induction k adj v q rule: bfs.induct)
  case (1 k adj v)
  have "x \<in> set v" if "(s, x) \<in> (succ_rel adj)\<^sup>*" for x
    using that
  proof (induction rule: rtrancl_induct)
    case base
    then show ?case using "1.prems" by (simp add: bfs_inv_def)
  next
    case (step y z)
    then show ?case using "1.prems" by (auto simp: bfs_inv_def succ_rel_def)
  qed
  then show ?case using 1 by (auto simp: bfs_inv_def)
next
  case (3 k adj v x q)
  then show ?case by (cases "bfs_relax (adj x) v q") (auto intro: bfs_inv_step)
qed simp

lemma bfs_enough_fuel:
  "finite U \<Longrightarrow> \<forall>x. set (adj x) \<subseteq> U \<Longrightarrow> set v \<subseteq> U \<Longrightarrow> distinct v \<Longrightarrow>
     card U - length v + length q \<le> k \<Longrightarrow> bfs k adj v q \<noteq> None"
proof (induction k adj v q rule: bfs.induct)
  case (3 k adj v x q)
  obtain v' q' where r: "bfs_relax (adj x) v q = (v', q')" by fastforce
  obtain new where new: "v' = v @ new" "q' = q @ new" and v': "set v' = set v \<union> set (adj x)"
    "distinct v'"
    using bfs_relax_props [OF r] "3.prems"(4) by auto
  have "set v' \<subseteq> U" using v' "3.prems" by auto
  moreover have "length v' \<le> card U"
    using v' \<open>set v' \<subseteq> U\<close> "3.prems"(1) by (metis card_mono distinct_card)
  then have "card U - length v' + length q' \<le> k" using new "3.prems"(5) by simp
  ultimately show ?case using 3 r v' by simp
qed auto

lemma check_connected_terminates: "check_connected g \<noteq> None"
proof (cases "length g \<le> 1")
  case False
  define U where "U = set (node_ids g) \<union> (\<Union>(i, ds)\<in>set g. set ds)"
  let ?adj = "build_undirected g (\<lambda>_. [])" and ?s = "fst (hd g)"
  let ?k = "Suc (length g + sum_list (map (length \<circ> snd) g))"
  have fin: "finite U" by (auto simp: U_def)
  have "card (\<Union>(i, ds)\<in>set g. set ds) \<le> sum_list (map (length \<circ> snd) g)"
  proof (induction g)
    case (Cons n g)
    have "card (\<Union>(i, ds)\<in>set (n # g). set ds)
        \<le> card (set (snd n)) + card (\<Union>(i, ds)\<in>set g. set ds)"
      by (cases n) (auto intro: card_Un_le)
    also have "\<dots> \<le> length (snd n) + sum_list (map (length \<circ> snd) g)"
      using Cons card_length [of "snd n"] by linarith
    finally show ?case by (simp add: comp_def)
  qed simp
  moreover have "card (set (node_ids g)) \<le> length g" by (metis card_length length_map)
  ultimately have "card U \<le> length g + sum_list (map (length \<circ> snd) g)"
    unfolding U_def by (meson add_mono card_Un_le le_trans)
  moreover have "\<forall>x. set (?adj x) \<subseteq> U"
    by (force simp: set_build_undirected undirected_def dep_edges_def U_def)
  moreover have "?s \<in> U" using False by (cases g) (auto simp: U_def)
  ultimately have "bfs ?k ?adj [?s] [?s] \<noteq> None" using fin by (intro bfs_enough_fuel) auto
  then show ?thesis using False
    by (auto simp: check_connected_def Let_def split: option.splits)
qed (simp add: check_connected_def)

text \<open>
  On a graph with distinct identifiers and known dependencies, no error means that every node
  is reachable from the first one along dependencies taken in either direction.
\<close>

lemma check_connected_ok:
  assumes "distinct (node_ids g)" and "deps_known g" and "g \<noteq> []"
  shows "check_connected g = Some (Inr ()) \<longleftrightarrow>
    (\<forall>i\<in>set (node_ids g). (fst (hd g), i) \<in> (undirected g)\<^sup>*)"
proof (cases "length g \<le> 1")
  case True
  then obtain n where "g = [n]" using assms(3) by (cases g) auto
  then show ?thesis by (simp add: check_connected_def)
next
  case False
  let ?adj = "build_undirected g (\<lambda>_. [])" and ?s = "fst (hd g)"
  let ?k = "Suc (length g + sum_list (map (length \<circ> snd) g))"
  obtain w where w: "bfs ?k ?adj [?s] [?s] = Some w"
    using check_connected_terminates [of g] False
    by (auto simp: check_connected_def Let_def split: option.splits)
  have adj: "succ_rel ?adj = undirected g" by (auto simp: succ_rel_def set_build_undirected)
  have reach: "distinct w" "set w = {x. (?s, x) \<in> (undirected g)\<^sup>*}"
    using bfs_reach [OF w, of ?s] by (auto simp: bfs_inv_def adj)
  have s: "?s \<in> set (node_ids g)" using assms(3) by (cases g) auto
  have "x \<in> set (node_ids g)" if "(?s, x) \<in> (undirected g)\<^sup>*" for x
    using that s
    by (induction rule: rtrancl_induct)
      (auto simp: undirected_def simp del: set_map
        dest: dep_edges_target dep_edges_source [OF assms(2)])
  then have sub: "set w \<subseteq> set (node_ids g)" using reach by auto
  have len: "length w = length g \<longleftrightarrow> set (node_ids g) \<subseteq> set w"
    using sub reach(1) assms(1)
    by (metis List.finite_set card_subset_eq distinct_card length_map order.refl subset_antisym)
  then show ?thesis
    using w False reach sub
    by (auto simp: check_connected_def Let_def find_first_None split: option.splits)
qed

section \<open>Topological order\<close>

text \<open>
  Kahn's algorithm. The inner loop decrements the in-degree of each successor and appends it to
  the queue when its in-degree reaches zero; the outer loop pops the queue.
\<close>

fun kahn_relax :: "string list \<Rightarrow> (string \<Rightarrow> int) \<Rightarrow> string list \<Rightarrow> (string \<Rightarrow> int) \<times> string list" where
  "kahn_relax [] m queue = (m, queue)"
| "kahn_relax (d # ds) m queue =
     (let m' = m(d := m d - 1)
      in kahn_relax ds m' (if m' d = 0 then queue @ [d] else queue))"

fun kahn :: "nat \<Rightarrow> (string \<Rightarrow> string list) \<Rightarrow> (string \<Rightarrow> int) \<Rightarrow> string list \<Rightarrow> string list
      \<Rightarrow> string list option" where
  "kahn k down m [] order = Some order"
| "kahn 0 down m (x # queue) order = None"
| "kahn (Suc k) down m (x # queue) order =
     (case kahn_relax (down x) m queue of (m', queue') \<Rightarrow> kahn k down m' queue' (order @ [x]))"

definition topologicalSort :: "gnode list \<Rightarrow> string list option" where
  "topologicalSort g =
     kahn (length g) (downstream_of g) (in_degree_of g)
       (filter (\<lambda>i. in_degree_of g i = 0) (node_ids g)) []"

text \<open>A graph that passed the validation: distinct identifiers, known dependencies, no cycle.\<close>

definition valid_graph :: "gnode list \<Rightarrow> bool" where
  "valid_graph g \<longleftrightarrow> distinct (node_ids g) \<and> deps_known g \<and> acyclic (dep_edges g)"

lemma kahn_relax_props:
  "kahn_relax ds m q = (m', q') \<Longrightarrow> \<forall>x\<in>set ds. int (count_list ds x) \<le> m x \<Longrightarrow> distinct q \<Longrightarrow>
     set q \<inter> set ds = {} \<Longrightarrow>
     m' = (\<lambda>x. m x - int (count_list ds x)) \<and> distinct q' \<and>
     set q' = set q \<union> {x \<in> set ds. m' x = 0}"
proof (induction ds m q rule: kahn_relax.induct)
  case (2 d ds m q)
  let ?m = "m(d := m d - 1)"
  let ?q = "if ?m d = 0 then q @ [d] else q"
  have r: "kahn_relax ds ?m ?q = (m', q')" using "2.prems"(1) by (simp add: Let_def)
  have bound: "\<forall>x\<in>set ds. int (count_list ds x) \<le> ?m x"
    using "2.prems"(2) by (auto split: if_splits)
  have "d \<in> set ds \<Longrightarrow> ?m d \<noteq> 0"
    using bound by (metis count_notin count_list_0_iff not_le of_nat_0_less_iff neq0_conv)
  then have "set ?q \<inter> set ds = {}" and "distinct ?q" using "2.prems"(3,4) by auto
  from "2.IH" [OF refl r bound this(2,1)] have
    m': "m' = (\<lambda>x. ?m x - int (count_list ds x))" and q': "distinct q'"
      "set q' = set ?q \<union> {x \<in> set ds. m' x = 0}" by auto
  moreover have "m' = (\<lambda>x. m x - int (count_list (d # ds) x))"
    by (auto simp: m')
  moreover have "set q' = set q \<union> {x \<in> set (d # ds). m' x = 0}"
  proof (cases "d \<in> set ds")
    case True
    then have "?q = q" using \<open>d \<in> set ds \<Longrightarrow> ?m d \<noteq> 0\<close> by simp
    with q'(2) True show ?thesis by auto
  next
    case False
    then have "m' d = ?m d" by (simp add: m')
    with q'(2) show ?thesis by auto
  qed
  ultimately show ?case using q'(1) by blast
qed auto


lemma count_deps_absent:
  "i \<notin> set (node_ids g) \<Longrightarrow>
   sum_list (map (\<lambda>(j, es). if j = i then count_list es d else 0) g) = 0"
  by (induction g) auto

lemma count_downstream_deps:
  assumes "distinct (node_ids g)" and "(i, ds) \<in> set g"
  shows "count_list (downstream_of g d) i = count_list ds d"
proof -
  have "sum_list (map (\<lambda>(j, es). if j = i then count_list es d else 0) g) = count_list ds d"
    using assms
  proof (induction g)
    case (Cons n g)
    obtain j es where n: "n = (j, es)" by fastforce
    show ?case
    proof (cases "j = i")
      case True
      then have "i \<notin> set (node_ids g)" and "es = ds"
        using Cons.prems n by (auto simp: image_iff)
      then show ?thesis using True n count_deps_absent [of i g d] by simp
    next
      case False
      then show ?thesis using Cons n by auto
    qed
  qed simp
  then show ?thesis by (simp add: count_downstream)
qed

text \<open>The number of dependencies of a node, with multiplicity, that are not yet in a set.\<close>

definition open_deps :: "string set \<Rightarrow> string list \<Rightarrow> int" where
  "open_deps S ds = int (length (filter (\<lambda>d. d \<notin> S) ds))"

lemma open_deps_empty [simp]: "open_deps {} ds = int (length ds)"
  by (simp add: open_deps_def)

lemma open_deps_zero: "open_deps S ds = 0 \<longleftrightarrow> set ds \<subseteq> S"
  by (auto simp: open_deps_def filter_empty_conv)

lemma open_deps_nonneg [simp]: "0 \<le> open_deps S ds"
  by (simp add: open_deps_def)

lemma open_deps_insert:
  "x \<notin> S \<Longrightarrow> open_deps (insert x S) ds = open_deps S ds - int (count_list ds x)"
  by (induction ds) (auto simp: open_deps_def)

text \<open>In a topological prefix the dependencies of every element come before it.\<close>

definition topo_prefix :: "gnode list \<Rightarrow> string list \<Rightarrow> bool" where
  "topo_prefix g order \<longleftrightarrow>
     (\<forall>ys x zs. order = ys @ x # zs \<longrightarrow> (\<forall>ds. (x, ds) \<in> set g \<longrightarrow> set ds \<subseteq> set ys))"

lemma topo_prefix_Nil [simp]: "topo_prefix g []"
  by (simp add: topo_prefix_def)

lemma topo_prefix_snoc:
  assumes "topo_prefix g order" and "\<And>ds. (x, ds) \<in> set g \<Longrightarrow> set ds \<subseteq> set order"
  shows "topo_prefix g (order @ [x])"
  unfolding topo_prefix_def
proof (intro allI impI)
  fix ys y zs ds
  assume e: "order @ [x] = ys @ y # zs" and d: "(y, ds) \<in> set g"
  show "set ds \<subseteq> set ys"
  proof (cases zs rule: rev_cases)
    case Nil
    then show ?thesis using e d assms(2) by simp
  next
    case (snoc zs' z)
    then have "order = ys @ y # zs'" using e by simp
    then show ?thesis using assms(1) d by (auto simp: topo_prefix_def)
  qed
qed

definition kahn_inv :: "gnode list \<Rightarrow> (string \<Rightarrow> int) \<Rightarrow> string list \<Rightarrow> string list \<Rightarrow> bool" where
  "kahn_inv g m queue order \<longleftrightarrow>
     (\<forall>(i, ds)\<in>set g. m i = open_deps (set order) ds) \<and>
     distinct (order @ queue) \<and> set (order @ queue) = {i \<in> set (node_ids g). m i = 0} \<and>
     topo_prefix g order"

lemma kahn_inv_init:
  assumes "valid_graph g"
  shows "kahn_inv g (in_degree_of g) (filter (\<lambda>i. in_degree_of g i = 0) (node_ids g)) []"
  using assms by (auto simp: kahn_inv_def valid_graph_def in_degree_of_node)

lemma kahn_inv_step:
  assumes v: "valid_graph g" and inv: "kahn_inv g m (x # queue) order"
    and r: "kahn_relax (downstream_of g x) m queue = (m', queue')"
  shows "kahn_inv g m' queue' (order @ [x])"
proof -
  let ?ds = "downstream_of g x"
  have dist: "distinct (node_ids g)" and x: "x \<notin> set order" "x \<notin> set queue"
    using v inv by (auto simp: valid_graph_def kahn_inv_def)
  have m: "m i = open_deps (set order) ds" if "(i, ds) \<in> set g" for i ds
    using that inv by (auto simp: kahn_inv_def)
  have new: "open_deps (set (order @ [x])) ds = m i - int (count_list ?ds i)"
    if "(i, ds) \<in> set g" for i ds
    using that m x by (simp add: open_deps_insert count_downstream_deps [OF dist])
  have mem: "\<exists>ds. (i, ds) \<in> set g" if "i \<in> set (node_ids g)" for i using that by auto
  have down: "set ?ds \<subseteq> set (node_ids g)" by (rule downstream_in_ids)
  have ge: "int (count_list ?ds i) \<le> m i" if "i \<in> set (node_ids g)" for i
    using mem [OF that] new open_deps_nonneg by (metis diff_ge_0_iff_ge)
  have pos: "m i \<noteq> 0" if "i \<in> set ?ds" for i
    using that ge down by (metis count_list_0_iff in_mono le_zero_eq of_nat_0 of_nat_le_iff)
  have disj: "set queue \<inter> set ?ds = {}" "set order \<inter> set ?ds = {}" "x \<notin> set ?ds"
    using inv pos by (auto simp: kahn_inv_def)
  moreover have "\<forall>y\<in>set ?ds. int (count_list ?ds y) \<le> m y" using ge down by blast
  moreover have "distinct queue" using inv by (simp add: kahn_inv_def)
  ultimately have m': "m' = (\<lambda>i. m i - int (count_list ?ds i))" and q': "distinct queue'"
    "set queue' = set queue \<union> {i \<in> set ?ds. m' i = 0}"
    using kahn_relax_props [OF r] by blast+
  have "\<forall>(i, ds)\<in>set g. m' i = open_deps (set (order @ [x])) ds"
    using new m' by auto
  moreover have "distinct ((order @ [x]) @ queue')"
    using q' inv disj by (auto simp: kahn_inv_def)
  moreover have "set ((order @ [x]) @ queue') = {i \<in> set (node_ids g). m' i = 0}"
  proof -
    have "m' i = 0 \<longleftrightarrow> m i = 0 \<or> i \<in> set ?ds \<and> m' i = 0" if "i \<in> set (node_ids g)" for i
      using pos ge [OF that] by (cases "i \<in> set ?ds") (auto simp: m' count_notin)
    then have "{i \<in> set (node_ids g). m' i = 0} =
        {i \<in> set (node_ids g). m i = 0} \<union> {i \<in> set ?ds. m' i = 0}"
      using down by blast
    with inv q'(2) show ?thesis by (auto simp: kahn_inv_def simp del: set_map)
  qed
  moreover have "topo_prefix g (order @ [x])"
  proof (rule topo_prefix_snoc)
    show "topo_prefix g order" using inv by (simp add: kahn_inv_def)
    fix ds assume "(x, ds) \<in> set g"
    moreover have "m x = 0" using inv by (auto simp: kahn_inv_def)
    ultimately show "set ds \<subseteq> set order" using m open_deps_zero by metis
  qed
  ultimately show ?thesis by (simp add: kahn_inv_def)
qed

text \<open>When the queue runs empty the order is complete, because the graph has no cycle.\<close>

lemma kahn_inv_final:
  assumes v: "valid_graph g" and inv: "kahn_inv g m [] order"
  shows "set order = set (node_ids g)"
proof (rule ccontr)
  let ?R = "set (node_ids g) - set order"
  assume "set order \<noteq> set (node_ids g)"
  moreover have "set order \<subseteq> set (node_ids g)" using inv by (auto simp: kahn_inv_def)
  ultimately have "?R \<noteq> {}" by blast
  moreover have "\<exists>d\<in>?R. (d, i) \<in> dep_edges g" if i: "i \<in> ?R" for i
  proof -
    obtain ds where ds: "(i, ds) \<in> set g" using i by auto
    then have "m i = open_deps (set order) ds" and "m i \<noteq> 0"
      using i inv by (auto simp: kahn_inv_def)
    then obtain d where d: "d \<in> set ds" "d \<notin> set order" by (auto simp: open_deps_zero)
    then have "(d, i) \<in> dep_edges g" using ds by (auto simp: dep_edges_def)
    then show ?thesis
      using d v dep_edges_source by (auto simp: valid_graph_def simp del: set_map)
  qed
  ultimately have "\<not> acyclic (dep_edges g)" by (intro finite_pred_cycle [of ?R]) auto
  with v show False by (simp add: valid_graph_def)
qed

lemma kahn_complete:
  "valid_graph g \<Longrightarrow> kahn_inv g m queue order \<Longrightarrow> length g \<le> length order + k \<Longrightarrow>
   \<exists>res. kahn k (downstream_of g) m queue order = Some res \<and> distinct res \<and>
     set res = set (node_ids g) \<and> topo_prefix g res"
proof (induction k "downstream_of g" m queue order rule: kahn.induct)
  case (1 k m order)
  have "distinct order" and "topo_prefix g order" using "1.prems"(2) by (simp_all add: kahn_inv_def)
  then show ?case using kahn_inv_final [OF "1.prems"(1,2)] by simp
next
  case (2 m x queue order)
  have d: "distinct (order @ x # queue)" and "set (order @ x # queue) \<subseteq> set (node_ids g)"
    using "2.prems"(2) by (auto simp: kahn_inv_def)
  then have "card (set (order @ x # queue)) \<le> card (set (node_ids g))" by (simp only: card_mono List.finite_set)
  also have "\<dots> \<le> length g" by (metis card_length length_map)
  finally have "length (order @ x # queue) \<le> length g" using d by (simp only: distinct_card)
  with "2.prems"(3) show ?case by simp
next
  case (3 k m x queue order)
  obtain m' q' where r: "kahn_relax (downstream_of g x) m queue = (m', q')" by fastforce
  then show ?case
    using "3.hyps" [OF r [symmetric]] kahn_inv_step [OF "3.prems"(1,2) r] "3.prems" by simp
qed

theorem topologicalSort_correct:
  assumes "valid_graph g"
  shows "\<exists>order. topologicalSort g = Some order \<and> distinct order \<and>
     set order = set (node_ids g) \<and> topo_prefix g order"
  unfolding topologicalSort_def
  using assms by (intro kahn_complete kahn_inv_init) auto

end
