(* ===== verification/Orchestrate.thy ===== *)
theory Orchestrate
  imports Schema Graph
begin

text \<open>
  The data model of package \<open>orchestrate\<close> (\<open>orchestrate.go\<close>) and the checks a graph passes
  before it is executed: \<open>ValidateDAG\<close> and \<open>BuildDAG\<close>. Also the small pieces every boundary
  of the engine shares: \<open>rejectInterrupted\<close> (\<open>interrupt.go\<close>) and \<open>buildNodeInput\<close>
  (\<open>dag.go\<close>).
\<close>

section \<open>Data\<close>

datatype error_strategy = Abort | Skip | Compensate

datatype node_status =
  NodePending | NodeRunning | NodeDone | NodeFailed | NodeSkipped | NodeCompensated

text \<open>
  What the engine finds out about a node's \<open>Runner\<close> without running it: whether it is nil,
  whether it can be compensated, and then whether it says that compensating is idempotent.
\<close>

datatype runner_kind = NoRunner | PlainRunner | CompensatableRunner bool

text \<open>A Go map from identifiers to response pointers that the code builds for a callback.\<close>

type_synonym ('m, 'u, 'd) upstream = "string \<rightharpoonup> ('m, 'u, 'd) run_response option"

record ('m, 'u, 'o, 'd) node =
  n_ID :: string
  n_Runner :: runner_kind
  n_Deps :: "string list"
  n_InputMapper ::
    "(('m, 'u, 'd) upstream \<Rightarrow> go_error + ('m, 'o, 'd) run_request option) option"
  n_Optional :: bool
  n_Condition :: "(('m, 'u, 'd) upstream \<Rightarrow> bool) option"
  n_Timeout :: int
  n_Retries :: int
  n_ResourceTags :: "string list"
  n_Priority :: int

record edge =
  e_From :: string
  e_To :: string

definition graph_of :: "('m, 'u, 'o, 'd) node list \<Rightarrow> gnode list" where
  "graph_of nodes = map (\<lambda>n. (n_ID n, n_Deps n)) nodes"

lemma node_ids_graph_of [simp]: "node_ids (graph_of nodes) = map n_ID nodes"
  by (simp add: graph_of_def)

lemma length_graph_of [simp]: "length (graph_of nodes) = length nodes"
  by (simp add: graph_of_def)

lemma graph_of_mem: "n \<in> set nodes \<Longrightarrow> (n_ID n, n_Deps n) \<in> set (graph_of nodes)"
  by (auto simp: graph_of_def)

section \<open>Validation\<close>

text \<open>\<open>ErrCycle\<close> and the other validation errors carry the source's format strings.\<close>

definition detectCycle :: "('m, 'u, 'o, 'd) node list \<Rightarrow> go_error option" where
  "detectCycle nodes =
     (case detect_cycle (graph_of nodes) of
        Some (Inl i) \<Rightarrow> Some (Errorf ''orchestrate: cycle detected involving node %q'' [AStr i] None)
      | _ \<Rightarrow> None)"

definition checkConnected :: "('m, 'u, 'o, 'd) node list \<Rightarrow> go_error option" where
  "checkConnected nodes =
     (case check_connected (graph_of nodes) of
        Some (Inl i) \<Rightarrow>
          Some (Errorf ''orchestrate: node %q is disconnected from the rest of the graph'' [AStr i] None)
      | _ \<Rightarrow> None)"

fun first_duplicate :: "string list \<Rightarrow> string list \<Rightarrow> string option" where
  "first_duplicate seen [] = None"
| "first_duplicate seen (i # is) = (if i \<in> set seen then Some i else first_duplicate (i # seen) is)"

fun first_unknown_dep :: "string list \<Rightarrow> gnode list \<Rightarrow> (string \<times> string) option" where
  "first_unknown_dep known [] = None"
| "first_unknown_dep known ((i, ds) # g) =
     (case find_first (\<lambda>d. d \<notin> set known) ds of
        Some d \<Rightarrow> Some (i, d)
      | None \<Rightarrow> first_unknown_dep known g)"

definition ValidateDAG :: "('m, 'u, 'o, 'd) node list \<Rightarrow> go_error option" where
  "ValidateDAG nodes =
     (case first_duplicate [] (map n_ID nodes) of
        Some i \<Rightarrow> Some (Errorf ''orchestrate: duplicate node ID %q'' [AStr i] None)
      | None \<Rightarrow>
     (case first_unknown_dep (map n_ID nodes) (graph_of nodes) of
        Some (i, d) \<Rightarrow>
          Some (Errorf ''orchestrate: node %q depends on unknown node %q'' [AStr i, AStr d] None)
      | None \<Rightarrow>
     (case detectCycle nodes of
        Some e \<Rightarrow> Some e
      | None \<Rightarrow> checkConnected nodes)))"

lemma first_duplicate_None:
  "first_duplicate seen xs = None \<longleftrightarrow> distinct xs \<and> set seen \<inter> set xs = {}"
  by (induction seen xs rule: first_duplicate.induct) auto

lemma first_duplicate_Some:
  "first_duplicate seen xs = Some i \<Longrightarrow> i \<in> set xs \<and> (i \<in> set seen \<or> \<not> distinct xs)"
  by (induction seen xs rule: first_duplicate.induct) (auto split: if_splits)

lemma first_unknown_dep_None:
  "first_unknown_dep known g = None \<longleftrightarrow> (\<forall>(i, ds)\<in>set g. set ds \<subseteq> set known)"
proof (induction known g rule: first_unknown_dep.induct)
  case (2 known i ds g)
  show ?case
  proof (cases "find_first (\<lambda>d. d \<notin> set known) ds")
    case (Some d)
    then have "d \<in> set ds \<and> d \<notin> set known" by (rule find_first_Some)
    with Some show ?thesis by auto
  next
    case None
    then have "set ds \<subseteq> set known" by (auto simp: find_first_None)
    with None 2 show ?thesis by simp
  qed
qed simp

lemma detectCycle_None: "detectCycle nodes = None \<longleftrightarrow> acyclic (dep_edges (graph_of nodes))"
  using detect_cycle_iff [of "graph_of nodes"] detect_cycle_terminates [of "graph_of nodes"]
  by (auto simp: detectCycle_def split: option.splits sum.splits)

definition connected_graph :: "gnode list \<Rightarrow> bool" where
  "connected_graph g \<longleftrightarrow>
     (\<forall>x\<in>set (node_ids g). \<forall>y\<in>set (node_ids g). (x, y) \<in> (undirected g)\<^sup>*)"

lemma undirected_sym: "sym ((undirected g)\<^sup>*)"
  by (intro sym_rtrancl) (auto simp: undirected_def sym_def)

lemma connected_from_first:
  assumes "g \<noteq> []"
  shows "connected_graph g \<longleftrightarrow>
    (\<forall>i\<in>set (node_ids g). (fst (hd g), i) \<in> (undirected g)\<^sup>*)"
proof -
  have "fst (hd g) \<in> set (node_ids g)" using assms by (cases g) auto
  then show ?thesis
    unfolding connected_graph_def by (meson rtrancl_trans symE undirected_sym)
qed

lemma ValidateDAG_None:
  assumes "nodes \<noteq> []"
  shows "ValidateDAG nodes = None \<longleftrightarrow>
    valid_graph (graph_of nodes) \<and> connected_graph (graph_of nodes)"
proof (cases "distinct (map n_ID nodes) \<and> deps_known (graph_of nodes)")
  case True
  let ?g = "graph_of nodes"
  have "?g \<noteq> []" using assms by (simp add: graph_of_def)
  then have "check_connected ?g = Some (Inr ()) \<longleftrightarrow> connected_graph ?g"
    using check_connected_ok [of ?g] connected_from_first [of ?g] True by auto
  then have "checkConnected nodes = None \<longleftrightarrow> connected_graph ?g"
    using check_connected_terminates [of ?g]
    by (auto simp: checkConnected_def split: option.splits sum.splits)
  moreover have "first_duplicate [] (map n_ID nodes) = None"
    and "first_unknown_dep (map n_ID nodes) ?g = None"
    using True by (auto simp: first_duplicate_None first_unknown_dep_None deps_known_def)
  ultimately show ?thesis
    using True detectCycle_None [of nodes]
    by (cases "detectCycle nodes") (auto simp: ValidateDAG_def valid_graph_def)
next
  case False
  have "first_duplicate [] (map n_ID nodes) = None \<Longrightarrow>
    first_unknown_dep (map n_ID nodes) (graph_of nodes) \<noteq> None"
    using False by (auto simp: first_duplicate_None first_unknown_dep_None deps_known_def)
  then show ?thesis
    using False by (auto simp: ValidateDAG_def valid_graph_def split: option.splits)
qed

lemma ValidateDAG_valid: "ValidateDAG nodes = None \<Longrightarrow> valid_graph (graph_of nodes)"
proof (cases "nodes = []")
  case True
  then show ?thesis by (simp add: graph_of_def valid_graph_def deps_known_def dep_edges_def acyclic_def)
qed (simp add: ValidateDAG_None)

section \<open>Building a graph from edges\<close>

fun check_edge_nodes :: "string list \<Rightarrow> ('m, 'u, 'o, 'd) node list \<Rightarrow> go_error option" where
  "check_edge_nodes seen [] = None"
| "check_edge_nodes seen (n # ns) =
     (if n_ID n \<in> set seen then
        Some (Errorf ''orchestrate: duplicate node ID %q'' [AStr (n_ID n)] None)
      else if n_Deps n \<noteq> [] then
        Some (Errorf ''orchestrate: node %q has Deps set; cannot mix Deps and Edge styles''
               [AStr (n_ID n)] None)
      else check_edge_nodes (n_ID n # seen) ns)"

fun edge_deps :: "string list \<Rightarrow> edge list \<Rightarrow> (string \<rightharpoonup> string list)
      \<Rightarrow> go_error + (string \<rightharpoonup> string list)" where
  "edge_deps known [] m = Inr m"
| "edge_deps known (e # es) m =
     (if e_From e \<notin> set known then
        Inl (Errorf ''orchestrate: edge references unknown node %q (From)'' [AStr (e_From e)] None)
      else if e_To e \<notin> set known then
        Inl (Errorf ''orchestrate: edge references unknown node %q (To)'' [AStr (e_To e)] None)
      else edge_deps known es
             (m(e_To e \<mapsto> (case m (e_To e) of None \<Rightarrow> [] | Some ds \<Rightarrow> ds) @ [e_From e])))"

definition fill_deps :: "(string \<rightharpoonup> string list) \<Rightarrow> ('m, 'u, 'o, 'd) node \<Rightarrow> ('m, 'u, 'o, 'd) node" where
  "fill_deps m n = (case m (n_ID n) of Some ds \<Rightarrow> n\<lparr>n_Deps := ds\<rparr> | None \<Rightarrow> n)"

definition BuildDAG :: "('m, 'u, 'o, 'd) node list \<Rightarrow> edge list
      \<Rightarrow> go_error + ('m, 'u, 'o, 'd) node list" where
  "BuildDAG nodes edges =
     (case check_edge_nodes [] nodes of
        Some e \<Rightarrow> Inl e
      | None \<Rightarrow>
     (case edge_deps (map n_ID nodes) edges (\<lambda>_. None) of
        Inl e \<Rightarrow> Inl e
      | Inr m \<Rightarrow>
         (let result = map (fill_deps m) nodes in
          case ValidateDAG result of Some e \<Rightarrow> Inl e | None \<Rightarrow> Inr result)))"

lemma check_edge_nodes_None:
  "check_edge_nodes seen ns = None \<longleftrightarrow>
     distinct (map n_ID ns) \<and> set seen \<inter> n_ID ` set ns = {} \<and> (\<forall>n\<in>set ns. n_Deps n = [])"
  by (induction seen ns rule: check_edge_nodes.induct) auto

lemma edge_deps_Inr:
  "edge_deps known es m = Inr m' \<Longrightarrow>
     (\<forall>e\<in>set es. e_From e \<in> set known \<and> e_To e \<in> set known) \<and>
     (\<forall>i. set (case m' i of None \<Rightarrow> [] | Some ds \<Rightarrow> ds) =
            set (case m i of None \<Rightarrow> [] | Some ds \<Rightarrow> ds) \<union> {e_From e |e. e \<in> set es \<and> e_To e = i})"
  by (induction known es m rule: edge_deps.induct) (auto split: if_splits option.splits)

lemma fill_deps_ID [simp]: "n_ID (fill_deps m n) = n_ID n"
  by (simp add: fill_deps_def split: option.splits)

lemma BuildDAG_Inr:
  assumes "BuildDAG nodes edges = Inr result"
  shows "map n_ID result = map n_ID nodes" and "ValidateDAG result = None"
    and "dep_edges (graph_of result) = {(e_From e, e_To e) |e. e \<in> set edges}"
proof -
  obtain m where c: "check_edge_nodes [] nodes = None"
    and m: "edge_deps (map n_ID nodes) edges (\<lambda>_. None) = Inr m"
    and res: "result = map (fill_deps m) nodes" and v: "ValidateDAG result = None"
    using assms by (auto simp: BuildDAG_def Let_def split: option.splits sum.splits)
  show "map n_ID result = map n_ID nodes" using res by simp
  show "ValidateDAG result = None" by (rule v)
  have deps: "set (n_Deps (fill_deps m n)) = {e_From e |e. e \<in> set edges \<and> e_To e = n_ID n}"
    if "n \<in> set nodes" for n
  proof -
    note eq = edge_deps_Inr [OF m, THEN conjunct2, THEN spec, of "n_ID n"]
    have "n_Deps n = []" using c that by (simp add: check_edge_nodes_None)
    then show ?thesis using eq by (cases "m (n_ID n)") (simp_all add: fill_deps_def)
  qed
  show "dep_edges (graph_of result) = {(e_From e, e_To e) |e. e \<in> set edges}"
  proof (intro set_eqI iffI)
    fix p assume "p \<in> dep_edges (graph_of result)"
    then obtain n where "n \<in> set nodes" "fst p \<in> set (n_Deps (fill_deps m n))" "snd p = n_ID n"
      by (auto simp: res dep_edges_def graph_of_def)
    then show "p \<in> {(e_From e, e_To e) |e. e \<in> set edges}" using deps by (cases p) auto
  next
    fix p assume "p \<in> {(e_From e, e_To e) |e. e \<in> set edges}"
    then obtain e where e: "e \<in> set edges" "p = (e_From e, e_To e)" by blast
    then obtain n where n: "n \<in> set nodes" "n_ID n = e_To e"
      using edge_deps_Inr [OF m] by force
    then have "e_From e \<in> set (n_Deps (fill_deps m n))" using deps e by auto
    then show "p \<in> dep_edges (graph_of result)"
      using e n graph_of_mem [of "fill_deps m n" result] by (auto simp: res dep_edges_def)
  qed
qed

section \<open>Boundaries\<close>

definition ErrInterruptedRunner :: go_error where
  "ErrInterruptedRunner = ErrNew ''orchestrate.ErrInterruptedRunner''"

definition rejectInterrupted :: "fmt_arg list \<Rightarrow> ('m, 'u, 'd) run_response option \<Rightarrow> go_error option" where
  "rejectInterrupted loc resp =
     (if \<not> is_interrupted resp then None
      else Some (Errorf ''orchestrate: %s: %w'' loc (Some ErrInterruptedRunner)))"

lemma rejectInterrupted_None [simp]: "rejectInterrupted w r = None \<longleftrightarrow> \<not> is_interrupted r"
  by (simp add: rejectInterrupted_def)

lemma rejectInterrupted_is: "rejectInterrupted w r = Some e \<Longrightarrow> errors_is e ErrInterruptedRunner"
  by (auto simp: rejectInterrupted_def split: if_splits)

text \<open>
  \<open>NodeResults\<close> is only ever read by key, where an absent key and a nil pointer read alike: it
  is a function to an optional response.
\<close>

type_synonym ('m, 'u, 'd) results = "string \<Rightarrow> ('m, 'u, 'd) run_response option"

definition upstream_of :: "string list \<Rightarrow> ('m, 'u, 'd) results \<Rightarrow> ('m, 'u, 'd) upstream" where
  "upstream_of deps results = (\<lambda>k. if k \<in> set deps then Some (results k) else None)"

definition buildNodeInput :: "('m, 'u, 'o, 'd) node \<Rightarrow> ('m, 'o, 'd) run_request \<Rightarrow> ('m, 'u, 'd) results
      \<Rightarrow> go_error + ('m, 'o, 'd) run_request option" where
  "buildNodeInput node originalReq results =
     (case n_InputMapper node of
        Some mapper \<Rightarrow>
          (case mapper (upstream_of (n_Deps node) results) of
             Inl e \<Rightarrow> Inl (Errorf ''orchestrate: InputMapper for node %q: %w'' [AStr (n_ID node)] (Some e))
           | Inr mapped \<Rightarrow> Inr mapped)
      | None \<Rightarrow>
          (case n_Deps node of
             [] \<Rightarrow> Inr (Some originalReq)
           | [d] \<Rightarrow>
               (case results d of
                  Some r \<Rightarrow> Inr (Some (originalReq\<lparr>q_messages := r_messages r\<rparr>))
                | None \<Rightarrow> Inr (Some originalReq))
           | ds \<Rightarrow>
               Inr (Some (originalReq\<lparr>q_messages :=
                 concat (map (\<lambda>d. case results d of Some r \<Rightarrow> r_messages r | None \<Rightarrow> []) ds)\<rparr>))))"

section \<open>What validation guarantees\<close>

definition diamond_nodes :: "(unit, unit, unit, unit) node list" where
  "diamond_nodes = map (\<lambda>i. \<lparr>n_ID = i, n_Runner = PlainRunner, n_Deps = [], n_InputMapper = None,
     n_Optional = False, n_Condition = None, n_Timeout = 0, n_Retries = 0, n_ResourceTags = [], n_Priority = 0\<rparr>)
     [''a'', ''b'', ''c'', ''d'']"

definition diamond_edges :: "edge list" where
  "diamond_edges = [\<lparr>e_From = ''a'', e_To = ''b''\<rparr>, \<lparr>e_From = ''a'', e_To = ''c''\<rparr>,
     \<lparr>e_From = ''b'', e_To = ''d''\<rparr>, \<lparr>e_From = ''c'', e_To = ''d''\<rparr>]"

text \<open>
  Validation is exact: a non-empty node list is accepted if and only if its identifiers are
  distinct, every dependency names a node, the dependencies have no cycle, and the graph they span
  is connected when edges are read in both directions.
\<close>

theorem validation_exact:
  assumes "nodes \<noteq> []"
  shows "ValidateDAG nodes = None \<longleftrightarrow>
    distinct (map n_ID nodes) \<and> deps_known (graph_of nodes) \<and>
    acyclic (dep_edges (graph_of nodes)) \<and> connected_graph (graph_of nodes)"
  using ValidateDAG_None [OF assms] by (simp add: valid_graph_def)

theorem validation_exact_witness:
  "ValidateDAG [(hd diamond_nodes)\<lparr>n_Deps := [''a'']\<rparr>] \<noteq> None \<and>
   \<not> acyclic (dep_edges (graph_of [(hd diamond_nodes)\<lparr>n_Deps := [''a'']\<rparr>]))"
proof -
  let ?n = "(hd diamond_nodes)\<lparr>n_Deps := [''a'']\<rparr>"
  have "(''a'', ''a'') \<in> dep_edges (graph_of [?n])"
    by (simp add: dep_edges_def graph_of_def diamond_nodes_def)
  then have "\<not> acyclic (dep_edges (graph_of [?n]))" unfolding acyclic_def by blast
  then show ?thesis using validation_exact [of "[?n]"] by simp
qed

text \<open>
  Building a graph from edges: when \<open>BuildDAG\<close> succeeds the nodes are the given ones in the given
  order, the dependencies are exactly the given edges, and the result passes validation.
\<close>

theorem build_exact:
  assumes "BuildDAG nodes edges = Inr result"
  shows "map n_ID result = map n_ID nodes \<and> ValidateDAG result = None \<and>
    dep_edges (graph_of result) = {(e_From e, e_To e) |e. e \<in> set edges}"
  using BuildDAG_Inr [OF assms] by simp

definition diamond_built :: "(unit, unit, unit, unit) node list" where
  "diamond_built = [diamond_nodes ! 0, (diamond_nodes ! 1)\<lparr>n_Deps := [''a'']\<rparr>,
     (diamond_nodes ! 2)\<lparr>n_Deps := [''a'']\<rparr>, (diamond_nodes ! 3)\<lparr>n_Deps := [''b'', ''c'']\<rparr>]"

lemma diamond_builds: "BuildDAG diamond_nodes diamond_edges = Inr diamond_built"
proof -
  have c: "check_edge_nodes [] diamond_nodes = None" by (simp add: diamond_nodes_def)
  have m: "edge_deps (map n_ID diamond_nodes) diamond_edges (\<lambda>_. None) =
      Inr [''b'' \<mapsto> [''a''], ''c'' \<mapsto> [''a''], ''d'' \<mapsto> [''b'', ''c'']]"
    by (simp add: diamond_nodes_def diamond_edges_def fun_upd_twist)
  have r: "map (fill_deps [''b'' \<mapsto> [''a''], ''c'' \<mapsto> [''a''], ''d'' \<mapsto> [''b'', ''c'']]) diamond_nodes =
      diamond_built"
    by (simp add: diamond_nodes_def diamond_built_def fill_deps_def)
  have "ValidateDAG diamond_built = None" by code_simp
  then show ?thesis unfolding BuildDAG_def c m option.case sum.case r by simp
qed

theorem build_exact_witness:
  "dep_edges (graph_of diamond_built) = {(e_From e, e_To e) |e. e \<in> set diamond_edges}"
  using build_exact [OF diamond_builds] by blast


end
