(* ===== verification/GoInt.thy ===== *)
theory GoInt
  imports Main "HOL-Library.Word"
begin

text \<open>
  Go's \<open>int\<close> on a 64-bit platform: the result of an operation on counters, wrapped around to the range of a
  signed 64-bit word. Shared by the theories in which a count from the configuration is added to or multiplied.
\<close>

definition int64 :: "int \<Rightarrow> int" where
  "int64 x = sint (word_of_int x :: 64 word)"

lemma sint_small: "0 \<le> x \<Longrightarrow> x < 2 ^ 63 \<Longrightarrow> sint (word_of_int x :: 64 word) = x"
  by (simp add: sint_sbintrunc' signed_take_bit_int_eq_self)

lemma int64_id: "- (2 ^ 63) \<le> x \<Longrightarrow> x < 2 ^ 63 \<Longrightarrow> int64 x = x"
  by (simp add: int64_def sint_sbintrunc' signed_take_bit_int_eq_self)

lemma int64_max: "int64 (2 ^ 63) = - (2 ^ 63)"
  by (simp add: int64_def)

end
