(* ===== verification/Attempts.thy ===== *)
theory Attempts
  imports Orchestrate GoInt
begin

text \<open>
  The retry loops of package \<open>orchestrate\<close>: a node's attempts inside the goroutine that
  \<open>launchNodeAdvanced\<close> starts (\<open>dag.go\<close>), forward recovery and the compensation of one node,
  and the backward compensation of a whole run (\<open>compensate.go\<close>). What the runner answers at
  its \<open>k\<close>-th call, and whether the wait after the \<open>k\<close>-th attempt ends because the context is
  done, is up to the environment: both are functions of the attempt.
\<close>

section \<open>One call of a runner\<close>

text \<open>The answer of a runner: an error, or a response pointer that may be nil.\<close>

type_synonym ('m, 'u, 'd) answer = "go_error + ('m, 'u, 'd) run_response option"

record ('m, 'u, 'd) attempt_env =
  ae_run :: "nat \<Rightarrow> ('m, 'u, 'd) answer"
  ae_ctx :: "nat \<Rightarrow> go_error option"

definition runRunnerWithTimeout :: "fmt_arg list \<Rightarrow> ('m, 'u, 'd) answer \<Rightarrow> ('m, 'u, 'd) answer" where
  "runRunnerWithTimeout loc answer =
     (case answer of
        Inl err \<Rightarrow> Inl err
      | Inr resp \<Rightarrow> (case rejectInterrupted loc resp of Some e \<Rightarrow> Inl e | None \<Rightarrow> Inr resp))"

text \<open>
  \<open>time.Duration(1<<uint(attempt)) * 100 * time.Millisecond\<close>: a 64-bit signed product.
\<close>

definition backoff :: "nat \<Rightarrow> 64 word" where
  "backoff attempt = push_bit attempt 1 * 100 * 1000000"

section \<open>The attempts of a node\<close>

record ('m, 'u, 'd) completion =
  nc_nodeID :: string
  nc_resp :: "('m, 'u, 'd) run_response option"
  nc_err :: "go_error option"

definition failed :: "string \<Rightarrow> go_error \<Rightarrow> ('m, 'u, 'd) completion" where
  "failed i e = \<lparr>nc_nodeID = i, nc_resp = None, nc_err = Some e\<rparr>"

text \<open>
  The loop \<open>for attempt := range maxAttempts\<close> with \<open>r\<close> attempts left. It returns the
  completion the goroutine posts and the number of times the runner was called.
\<close>

fun attempt_loop :: "string \<Rightarrow> ('m, 'u, 'd) attempt_env \<Rightarrow> nat \<Rightarrow> nat \<Rightarrow> go_error option
      \<Rightarrow> ('m, 'u, 'd) completion \<times> nat" where
  "attempt_loop i env 0 attempt lastErr =
     (\<lparr>nc_nodeID = i, nc_resp = None, nc_err = lastErr\<rparr>, attempt)"
| "attempt_loop i env (Suc r) attempt lastErr =
     (case runRunnerWithTimeout [AStr i] (ae_run env attempt) of
        Inr (Some resp) \<Rightarrow> (\<lparr>nc_nodeID = i, nc_resp = Some resp, nc_err = None\<rparr>, Suc attempt)
      | Inr None \<Rightarrow>
          (let e = Errorf ''nil response from node %q'' [AStr i] None in
           if r = 0 then (failed i e, Suc attempt)
           else (case ae_ctx env attempt of
                   Some c \<Rightarrow> (failed i c, Suc attempt)
                 | None \<Rightarrow> attempt_loop i env r (Suc attempt) (Some e)))
      | Inl e \<Rightarrow>
          (if errors_is e ErrInterruptedRunner then (failed i e, Suc attempt)
           else if r = 0 then (failed i e, Suc attempt)
           else (case ae_ctx env attempt of
                   Some c \<Rightarrow> (failed i c, Suc attempt)
                 | None \<Rightarrow> attempt_loop i env r (Suc attempt) (Some e))))"

definition max_attempts :: "int \<Rightarrow> nat" where
  "max_attempts retries = nat (max (int64 (retries + 1)) 1)"

definition node_attempts :: "('m, 'u, 'o, 'd) node \<Rightarrow> ('m, 'u, 'd) attempt_env
      \<Rightarrow> ('m, 'u, 'd) completion \<times> nat" where
  "node_attempts node env = attempt_loop (n_ID node) env (max_attempts (n_Retries node)) 0 None"

lemma max_attempts_pos [simp]: "0 < max_attempts r"
  by (simp add: max_attempts_def)

lemma runRunner_Inr:
  "runRunnerWithTimeout loc a = Inr r \<longleftrightarrow> a = Inr r \<and> \<not> is_interrupted r"
  by (auto simp: runRunnerWithTimeout_def rejectInterrupted_def split: sum.splits option.splits)

lemma runRunner_interrupted:
  "a = Inr r \<Longrightarrow> is_interrupted r \<Longrightarrow>
   \<exists>e. runRunnerWithTimeout loc a = Inl e \<and> errors_is e ErrInterruptedRunner"
  by (auto simp: runRunnerWithTimeout_def rejectInterrupted_def)

lemma attempt_loop_props:
  "attempt_loop i env r a le = (c, n) \<Longrightarrow> 0 < r \<Longrightarrow>
     nc_nodeID c = i \<and> a < n \<and> n \<le> a + r \<and>
     (nc_err c = None \<longrightarrow> nc_resp c \<noteq> None \<and> ae_run env (n - 1) = Inr (nc_resp c) \<and>
        \<not> is_interrupted (nc_resp c)) \<and>
     (\<forall>k. a \<le> k \<and> k < n - 1 \<longrightarrow>
        (case runRunnerWithTimeout [AStr i] (ae_run env k) of
           Inl e \<Rightarrow> \<not> errors_is e ErrInterruptedRunner | Inr resp \<Rightarrow> resp = None))"
proof (induction i env r a le rule: attempt_loop.induct)
  case (2 i env r a le)
  let ?out = "runRunnerWithTimeout [AStr i] (ae_run env a)"
  have step: ?case if nx: "attempt_loop i env r (Suc a) le' = (c, n)" "0 < r"
    and IH: "attempt_loop i env r (Suc a) le' = (c, n) \<Longrightarrow> 0 < r \<Longrightarrow>
     nc_nodeID c = i \<and> Suc a < n \<and> n \<le> Suc a + r \<and>
     (nc_err c = None \<longrightarrow> nc_resp c \<noteq> None \<and> ae_run env (n - 1) = Inr (nc_resp c) \<and>
        \<not> is_interrupted (nc_resp c)) \<and>
     (\<forall>k. Suc a \<le> k \<and> k < n - 1 \<longrightarrow>
        (case runRunnerWithTimeout [AStr i] (ae_run env k) of
           Inl e \<Rightarrow> \<not> errors_is e ErrInterruptedRunner | Inr resp \<Rightarrow> resp = None))"
    and out: "case ?out of Inl e \<Rightarrow> \<not> errors_is e ErrInterruptedRunner | Inr resp \<Rightarrow> resp = None"
    for le'
  proof -
    have "k = a \<or> Suc a \<le> k" if "a \<le> k" for k using that by arith
    then show ?thesis using IH [OF nx] out by auto
  qed
  have fin: ?case if "\<exists>x. (failed i x, Suc a) = (c, n)" using that by (auto simp: failed_def)
  show ?case
  proof (cases ?out)
    case (Inl e)
    show ?thesis
    proof (cases "errors_is e ErrInterruptedRunner \<or> r = 0 \<or> ae_ctx env a \<noteq> None")
      case True
      then show ?thesis using 2(3) Inl by (intro fin) (auto split: if_splits)
    next
      case False
      then show ?thesis using step [OF _ _ "2.IH"(1)] Inl 2(3) by simp
    qed
  next
    case (Inr resp)
    show ?thesis
    proof (cases resp)
      case None
      show ?thesis
      proof (cases "r = 0 \<or> ae_ctx env a \<noteq> None")
        case True
        then show ?thesis using 2(3) Inr None by (intro fin) (auto simp: Let_def split: if_splits)
      next
        case False
        then show ?thesis using step [OF _ _ "2.IH"(2)] Inr None 2(3) by (simp add: Let_def)
      qed
    next
      case (Some x)
      then show ?thesis using 2(3) Inr by (auto simp: runRunner_Inr)
    qed
  qed
qed simp


text \<open>
  A node's goroutine calls its runner at least once and at most \<open>max(Retries+1, 1)\<close> times,
  where the sum wraps around.
  It reports success only with a non-nil response that the last call returned and that did not
  suspend, and every earlier call ended in a retryable failure: a suspended runner is never run
  again.
\<close>

theorem node_attempts_bounded:
  assumes "node_attempts node env = (c, n)"
  shows "nc_nodeID c = n_ID node \<and> 1 \<le> n \<and> int n \<le> max (int64 (n_Retries node + 1)) 1 \<and>
    (nc_err c = None \<longrightarrow> (\<exists>r. nc_resp c = Some r \<and> ae_run env (n - 1) = Inr (Some r) \<and>
        \<not> r_interrupted r)) \<and>
    (\<forall>k < n - 1. ae_run env k = Inr None \<or>
       (\<exists>e. ae_run env k = Inl e \<and> \<not> errors_is e ErrInterruptedRunner))"
proof -
  note p = attempt_loop_props [OF assms [unfolded node_attempts_def] max_attempts_pos]
  have "ae_run env k = Inr None \<or> (\<exists>e. ae_run env k = Inl e \<and> \<not> errors_is e ErrInterruptedRunner)"
    if "k < n - 1" for k
  proof -
    have o: "case runRunnerWithTimeout [AStr (n_ID node)] (ae_run env k) of
        Inl e \<Rightarrow> \<not> errors_is e ErrInterruptedRunner | Inr resp \<Rightarrow> resp = None"
      using p that by simp
    show ?thesis
    proof (cases "ae_run env k")
      case (Inl e)
      then show ?thesis using o by (simp add: runRunnerWithTimeout_def)
    next
      case (Inr r)
      have "\<not> is_interrupted r"
        using o runRunner_interrupted [OF Inr, of "[AStr (n_ID node)]"] by auto
      then show ?thesis using o Inr by (simp add: runRunnerWithTimeout_def rejectInterrupted_def)
    qed
  qed
  moreover have "int n \<le> max (int64 (n_Retries node + 1)) 1" using p by (auto simp: max_attempts_def)
  moreover have "1 \<le> n" using p by linarith
  ultimately show ?thesis using p by auto
qed

definition sample_node :: "string \<Rightarrow> string list \<Rightarrow> (nat, nat, unit, unit) node" where
  "sample_node i ds =
     \<lparr>n_ID = i, n_Runner = PlainRunner, n_Deps = ds, n_InputMapper = None, n_Optional = False,
      n_Condition = None, n_Timeout = 0, n_Retries = 2, n_ResourceTags = [], n_Priority = 0\<rparr>"

theorem node_attempts_bounded_witness:
  "node_attempts (sample_node ''a'' [])
     \<lparr>ae_run = (\<lambda>k. if k = 0 then Inl (ErrNew ''boom'') else Inr (Some (reply_with [7] ''s''))),
      ae_ctx = (\<lambda>_. None)\<rparr> =
     (\<lparr>nc_nodeID = ''a'', nc_resp = Some (reply_with [7] ''s''), nc_err = None\<rparr>, 2) \<and>
   (1::nat) \<le> 2 \<and> int 2 \<le> max (int64 (n_Retries (sample_node ''a'' []) + 1)) 1"
proof -
  let ?env = "\<lparr>ae_run = (\<lambda>k. if k = 0 then Inl (ErrNew ''boom'') else Inr (Some (reply_with [7] ''s''))),
      ae_ctx = (\<lambda>_. None)\<rparr> :: (nat, nat, unit) attempt_env"
  have run: "node_attempts (sample_node ''a'' []) ?env =
     (\<lparr>nc_nodeID = ''a'', nc_resp = Some (reply_with [7] ''s''), nc_err = None\<rparr>, 2)"
    by (simp add: node_attempts_def sample_node_def max_attempts_def int64_def numeral_eq_Suc
        runRunnerWithTimeout_def rejectInterrupted_def ErrInterruptedRunner_def reply_with_def
        empty_response_def)
  show ?thesis using node_attempts_bounded [OF run] run by simp
qed

section \<open>Waiting between attempts\<close>

text \<open>
  The wait before the next attempt doubles from 100ms as long as the product fits in 64 bits,
  which is up to attempt 36; one attempt later the signed duration is negative, so that the loop
  no longer waits at all.
\<close>

theorem backoff_doubles_then_wraps:
  "(attempt \<le> 36 \<longrightarrow> sint (backoff attempt) = 2 ^ attempt * 100000000) \<and> sint (backoff 37) < 0"
proof -
  have eq: "backoff a = word_of_int (2 ^ a * 100000000)" for a
    by (simp add: backoff_def push_bit_eq_mult)
  have "sint (backoff attempt) = 2 ^ attempt * 100000000" if "attempt \<le> 36"
  proof -
    have "(2::int) ^ attempt \<le> 2 ^ 36" using power_increasing [OF that, of "2::int"] by simp
    then have "(2::int) ^ attempt * 100000000 < 2 ^ 63" by simp
    then have "0 \<le> (2::int) ^ attempt * 100000000" "(2::int) ^ attempt * 100000000 < 2 ^ 63" by simp_all
    then show ?thesis unfolding eq by (rule sint_small)
  qed
  moreover have "sint (backoff 37) < 0" by (simp add: eq)
  ultimately show ?thesis by blast
qed

theorem backoff_doubles_then_wraps_witness: "sint (backoff 3) = 800000000"
  using backoff_doubles_then_wraps [of 3] by simp

section \<open>Forward recovery\<close>

datatype compensate_strategy = BackwardCompensate | ForwardRecovery

record compensate_config =
  cc_Strategy :: compensate_strategy
  cc_Timeout :: int
  cc_MaxRetries :: int

fun forward_loop :: "string \<Rightarrow> ('m, 'u, 'd) attempt_env \<Rightarrow> int \<Rightarrow> nat \<Rightarrow> nat \<Rightarrow> go_error option
      \<Rightarrow> go_error + ('m, 'u, 'd) run_response" where
  "forward_loop i env maxAttempts 0 attempt lastErr =
     Inl (Errorf ''orchestrate: forward recovery for node %q failed after %d attempts: %w''
           [AStr i, AInt maxAttempts] lastErr)"
| "forward_loop i env maxAttempts (Suc r) attempt lastErr =
     (case runRunnerWithTimeout [AStr ''forward recovery for node'', AStr i] (ae_run env attempt) of
        Inr (Some resp) \<Rightarrow> Inr resp
      | Inl e \<Rightarrow>
          (if errors_is e ErrInterruptedRunner then Inl e
           else if r = 0 then forward_loop i env maxAttempts r (Suc attempt) (Some e)
           else (case ae_ctx env attempt of
                   Some c \<Rightarrow> Inl c
                 | None \<Rightarrow> forward_loop i env maxAttempts r (Suc attempt) (Some e)))
      | Inr None \<Rightarrow>
          (let e = Errorf ''nil response'' [] None in
           if r = 0 then forward_loop i env maxAttempts r (Suc attempt) (Some e)
           else (case ae_ctx env attempt of
                   Some c \<Rightarrow> Inl c
                 | None \<Rightarrow> forward_loop i env maxAttempts r (Suc attempt) (Some e))))"

text \<open>The bound of the loop wraps around when the largest \<open>int\<close> is configured; then it is one.\<close>

definition executeForwardRecovery :: "compensate_config \<Rightarrow> ('m, 'u, 'o, 'd) node
      \<Rightarrow> ('m, 'u, 'd) attempt_env \<Rightarrow> go_error + ('m, 'u, 'd) run_response" where
  "executeForwardRecovery cfg node env =
     (let m = int64 (cc_MaxRetries cfg + 1);
          maxAttempts = (if m \<le> 0 then 1 else m) in
      forward_loop (n_ID node) env maxAttempts (nat maxAttempts) 0 None)"

lemma forward_loop_Inr:
  "forward_loop i env m r a le = Inr resp \<Longrightarrow>
   \<exists>k. a \<le> k \<and> k < a + r \<and> ae_run env k = Inr (Some resp) \<and> \<not> r_interrupted resp"
proof (induction i env m r a le rule: forward_loop.induct)
  case (2 i env m r a le)
  have IH: ?case if "\<exists>k\<ge>Suc a. k < Suc a + r \<and> ae_run env k = Inr (Some resp) \<and> \<not> r_interrupted resp"
    using that by (auto intro: Suc_leD)
  show ?case
  proof (cases "runRunnerWithTimeout [AStr ''forward recovery for node'', AStr i] (ae_run env a)")
    case (Inl e)
    have "forward_loop i env m r (Suc a) (Some e) = Inr resp"
      and "r \<noteq> 0" and "\<not> errors_is e ErrInterruptedRunner" and "ae_ctx env a = None"
      using "2.prems" Inl by (auto split: if_splits option.splits)
    then show ?thesis using "2.IH"(2) Inl by (intro IH) simp
  next
    case (Inr x)
    show ?thesis
    proof (cases x)
      case None
      have "forward_loop i env m r (Suc a) (Some (Errorf ''nil response'' [] None)) = Inr resp"
        and "r \<noteq> 0" and "ae_ctx env a = None"
        using "2.prems" Inr None by (auto simp: Let_def split: if_splits option.splits)
      then show ?thesis using "2.IH"(4) Inr None by (intro IH) simp
    next
      case (Some y)
      then show ?thesis using "2.prems" Inr by (auto simp: runRunner_Inr intro!: exI [of _ a])
    qed
  qed
qed simp

section \<open>Compensating one node\<close>

record comp_env =
  ce_run :: "nat \<Rightarrow> go_error option"
  ce_ctx :: "nat \<Rightarrow> go_error option"

text \<open>Beside its error the loop returns how often \<open>Compensate\<close> was called.\<close>

fun compensation_loop :: "string \<Rightarrow> comp_env \<Rightarrow> int \<Rightarrow> nat \<Rightarrow> nat \<Rightarrow> go_error option
      \<Rightarrow> go_error option \<times> nat" where
  "compensation_loop i env maxAttempts 0 attempt lastErr =
     (Some (Errorf ''orchestrate: compensation for node %q failed after %d attempts: %w''
            [AStr i, AInt maxAttempts] lastErr), attempt)"
| "compensation_loop i env maxAttempts (Suc r) attempt lastErr =
     (case ce_run env attempt of
        None \<Rightarrow> (None, Suc attempt)
      | Some e \<Rightarrow>
          (if r = 0 then compensation_loop i env maxAttempts r (Suc attempt) (Some e)
           else (case ce_ctx env attempt of
                   Some c \<Rightarrow> (Some c, Suc attempt)
                 | None \<Rightarrow> compensation_loop i env maxAttempts r (Suc attempt) (Some e))))"

text \<open>
  A bound that wrapped around leaves no attempt at all: the loop is not entered and the node counts as failed.
\<close>

definition executeNodeCompensation :: "compensate_config \<Rightarrow> string \<Rightarrow> bool \<Rightarrow> comp_env
      \<Rightarrow> go_error option \<times> nat" where
  "executeNodeCompensation cfg nodeID idempotent env =
     (let maxAttempts =
        (if idempotent \<and> cc_MaxRetries cfg > 0 then int64 (cc_MaxRetries cfg + 1) else 1) in
      compensation_loop nodeID env maxAttempts (nat maxAttempts) 0 None)"

text \<open>How often the compensation of a node may be called.\<close>

definition compensations_allowed :: "compensate_config \<Rightarrow> bool \<Rightarrow> nat" where
  "compensations_allowed cfg idempotent =
     (if \<not> idempotent \<or> cc_MaxRetries cfg \<le> 0 then 1
      else if cc_MaxRetries cfg = 2 ^ 63 - 1 then 0 else nat (cc_MaxRetries cfg + 1))"

lemma compensation_loop_props:
  "compensation_loop i env m r a le = (err, n) \<Longrightarrow>
     a \<le> n \<and> n \<le> a + r \<and> (\<forall>k. a \<le> k \<and> k < n - 1 \<longrightarrow> ce_run env k \<noteq> None \<and> ce_ctx env k = None) \<and>
     (err = None \<longleftrightarrow> a < n \<and> ce_run env (n - 1) = None) \<and>
     (n < a + r \<longrightarrow> a < n \<and> (ce_run env (n - 1) = None \<or> ce_ctx env (n - 1) \<noteq> None))"
proof (induction i env m r a le rule: compensation_loop.induct)
  case (2 i env m r a le)
  show ?case
  proof (cases "ce_run env a")
    case None
    then show ?thesis using "2.prems" by auto
  next
    case (Some e)
    show ?thesis
    proof (cases "r = 0 \<or> ce_ctx env a = None")
      case True
      then have go: "compensation_loop i env m r (Suc a) (Some e) = (err, n)" using "2.prems" Some by (auto split: if_splits)
      have IH: "Suc a \<le> n \<and> n \<le> Suc a + r \<and> (\<forall>k. Suc a \<le> k \<and> k < n - 1 \<longrightarrow> ce_run env k \<noteq> None \<and> ce_ctx env k = None) \<and>
          (err = None \<longleftrightarrow> Suc a < n \<and> ce_run env (n - 1) = None) \<and>
          (n < Suc a + r \<longrightarrow> Suc a < n \<and> (ce_run env (n - 1) = None \<or> ce_ctx env (n - 1) \<noteq> None))"
        using "2.IH" Some True go by (cases "r = 0") auto
      have n: "n = Suc a \<or> Suc a < n" using IH by arith
      have mid: "ce_run env k \<noteq> None \<and> ce_ctx env k = None" if "a \<le> k" "k < n - 1" for k
      proof (cases "k = a")
        case True
        then have "r \<noteq> 0" using IH that by auto
        then show ?thesis using Some True \<open>r = 0 \<or> ce_ctx env a = None\<close> by simp
      next
        case False
        then show ?thesis using IH that by auto
      qed
      show ?thesis using IH n mid Some by auto
    next
      case False
      then show ?thesis using "2.prems" Some by auto
    qed
  qed
qed auto

text \<open>
  The calls of one node's compensation: all but the last failed and were followed by the whole wait; it stops
  early only with a success or with its context, and succeeds exactly when the last call did.
\<close>

definition attempts_exact :: "compensate_config \<Rightarrow> bool \<Rightarrow> comp_env \<Rightarrow> nat \<Rightarrow> bool" where
  "attempts_exact cfg idempotent env n \<longleftrightarrow> n \<le> compensations_allowed cfg idempotent \<and>
     (\<forall>k < n - 1. ce_run env k \<noteq> None \<and> ce_ctx env k = None) \<and>
     (n < compensations_allowed cfg idempotent \<longrightarrow> 0 < n \<and> (ce_run env (n - 1) = None \<or> ce_ctx env (n - 1) \<noteq> None))"

lemma node_compensation_exact:
  assumes "executeNodeCompensation cfg i idempotent env = (err, n)" and "cc_MaxRetries cfg < 2 ^ 63"
  shows "attempts_exact cfg idempotent env n \<and> (err = None \<longleftrightarrow> 0 < n \<and> ce_run env (n - 1) = None)"
proof -
  have "nat (if idempotent \<and> cc_MaxRetries cfg > 0 then int64 (cc_MaxRetries cfg + 1) else 1) = compensations_allowed cfg idempotent"
  proof (cases "idempotent \<and> cc_MaxRetries cfg > 0")
    case True
    show ?thesis
    proof (cases "cc_MaxRetries cfg = 2 ^ 63 - 1")
      case True
      then show ?thesis using int64_max by (simp add: compensations_allowed_def)
    next
      case False
      then have "int64 (cc_MaxRetries cfg + 1) = cc_MaxRetries cfg + 1" using True assms(2) by (intro int64_id) auto
      then show ?thesis using True False by (auto simp: compensations_allowed_def)
    qed
  qed (auto simp: compensations_allowed_def)
  then show ?thesis
    using compensation_loop_props [OF assms(1) [unfolded executeNodeCompensation_def Let_def]]
    by (simp add: attempts_exact_def)
qed

section \<open>Backward compensation\<close>

text \<open>\<open>nodeMap[id]\<close>; a repeated identifier keeps its last node.\<close>

definition node_of :: "('m, 'u, 'o, 'd) node list \<Rightarrow> string \<Rightarrow> ('m, 'u, 'o, 'd) node option" where
  "node_of nodes i = find_first (\<lambda>n. n_ID n = i) (rev nodes)"

definition completed_reverse :: "('m, 'u, 'o, 'd) node list \<Rightarrow> (string \<Rightarrow> node_status)
      \<Rightarrow> string list option" where
  "completed_reverse nodes status =
     map_option (\<lambda>order. filter (\<lambda>i. status i = NodeDone) (rev order))
       (topologicalSort (graph_of nodes))"

text \<open>
  The loop over the completed nodes. Beside the errors and the statuses it returns the nodes
  whose compensation was tried, in their order, and how often \<open>Compensate\<close> was called on each.
\<close>

fun compensate_each :: "compensate_config \<Rightarrow> ('m, 'u, 'o, 'd) node list \<Rightarrow> ('m, 'u, 'd) results
      \<Rightarrow> (string \<Rightarrow> comp_env) \<Rightarrow> string list \<Rightarrow> (string \<Rightarrow> node_status)
      \<Rightarrow> string list \<times> (string \<Rightarrow> node_status) \<times> (string \<times> nat) list" where
  "compensate_each cfg nodes results env [] status = ([], status, [])"
| "compensate_each cfg nodes results env (i # is) status =
     (case (node_of nodes i, results i) of
        (Some n, Some resp) \<Rightarrow>
          (case n_Runner n of
             CompensatableRunner idempotent \<Rightarrow>
               (case executeNodeCompensation cfg i idempotent (env i) of
                  (Some e, k) \<Rightarrow>
                    (case compensate_each cfg nodes results env is status of
                       (errs, status', calls) \<Rightarrow> (i # errs, status', (i, k) # calls))
                | (None, k) \<Rightarrow>
                    (case compensate_each cfg nodes results env is (status(i := NodeCompensated)) of
                       (errs, status', calls) \<Rightarrow> (errs, status', (i, k) # calls)))
           | _ \<Rightarrow> compensate_each cfg nodes results env is status)
      | _ \<Rightarrow> compensate_each cfg nodes results env is status)"

definition executeBackwardCompensation :: "compensate_config \<Rightarrow> ('m, 'u, 'o, 'd) node list
      \<Rightarrow> ('m, 'u, 'd) results \<Rightarrow> (string \<Rightarrow> comp_env) \<Rightarrow> (string \<Rightarrow> node_status)
      \<Rightarrow> (go_error option \<times> (string \<Rightarrow> node_status) \<times> (string \<times> nat) list) option" where
  "executeBackwardCompensation cfg nodes results env status =
     (case completed_reverse nodes status of
        None \<Rightarrow> None
      | Some is \<Rightarrow>
         (case compensate_each cfg nodes results env is status of
            (errs, status', calls) \<Rightarrow>
              Some (if errs \<noteq> [] then Some (Errorf ''orchestrate: compensation errors: %v'' (map AStr errs) None)
                    else None, status', calls)))"

text \<open>The nodes a rollback applies to, and what it makes of one.\<close>

definition can_compensate :: "('m, 'u, 'o, 'd) node list \<Rightarrow> ('m, 'u, 'd) results \<Rightarrow> string \<Rightarrow> bool" where
  "can_compensate nodes results i =
     (case (node_of nodes i, results i) of
        (Some n, Some resp) \<Rightarrow> (case n_Runner n of CompensatableRunner b \<Rightarrow> True | _ \<Rightarrow> False)
      | _ \<Rightarrow> False)"

definition comp_outcome :: "compensate_config \<Rightarrow> ('m, 'u, 'o, 'd) node list \<Rightarrow> (string \<Rightarrow> comp_env) \<Rightarrow> string
      \<Rightarrow> go_error option \<times> nat" where
  "comp_outcome cfg nodes env i =
     (case node_of nodes i of None \<Rightarrow> (None, 0)
      | Some n \<Rightarrow> (case n_Runner n of CompensatableRunner b \<Rightarrow> executeNodeCompensation cfg i b (env i) | _ \<Rightarrow> (None, 0)))"

lemma compensate_each_step:
  "compensate_each cfg nodes results env (i # is) status =
     (if can_compensate nodes results i
      then (case comp_outcome cfg nodes env i of
              (err, k) \<Rightarrow>
                (case compensate_each cfg nodes results env is (if err = None then status(i := NodeCompensated) else status) of
                   (errs, status', calls) \<Rightarrow> (if err = None then errs else i # errs, status', (i, k) # calls)))
      else compensate_each cfg nodes results env is status)"
  by (auto simp: can_compensate_def comp_outcome_def split: option.splits runner_kind.splits prod.splits)

lemma compensate_each_props:
  "compensate_each cfg nodes results env is status = (errs, status', calls) \<Longrightarrow>
     calls = map (\<lambda>i. (i, snd (comp_outcome cfg nodes env i))) (filter (can_compensate nodes results) is) \<and>
     status' = (\<lambda>i. if i \<in> set is \<and> can_compensate nodes results i \<and> fst (comp_outcome cfg nodes env i) = None
                    then NodeCompensated else status i) \<and>
     errs = filter (\<lambda>i. fst (comp_outcome cfg nodes env i) \<noteq> None) (filter (can_compensate nodes results) is)"
proof (induction "is" arbitrary: status errs status' calls)
  case (Cons i "is")
  show ?case
  proof (cases "can_compensate nodes results i")
    case True
    obtain err k where o: "comp_outcome cfg nodes env i = (err, k)" by (rule prod.exhaust)
    obtain errs2 calls2 where rec:
      "compensate_each cfg nodes results env is (if err = None then status(i := NodeCompensated) else status) = (errs2, status', calls2)"
      and eq: "errs = (if err = None then errs2 else i # errs2)" "calls = (i, k) # calls2"
      using Cons.prems True o by (auto simp: compensate_each_step simp del: compensate_each.simps split: prod.splits)
    from Cons.IH [OF rec] show ?thesis using True o eq by (auto simp: fun_eq_iff)
  next
    case False
    then have "compensate_each cfg nodes results env is status = (errs, status', calls)"
      using Cons.prems by (simp add: compensate_each_step del: compensate_each.simps)
    from Cons.IH [OF this] show ?thesis using False by (auto simp: fun_eq_iff)
  qed
qed simp

lemma reverse_topo:
  assumes "topo_prefix g order" and "distinct order"
    and "filter P (rev order) = xs @ i # ys" and "d \<in> set ys"
  shows "(i, d) \<notin> dep_edges g"
proof
  assume "(i, d) \<in> dep_edges g"
  then obtain ds where ds: "(d, ds) \<in> set g" "i \<in> set ds" by (auto simp: dep_edges_def)
  obtain us vs where "rev order = us @ i # vs" and "ys = filter P vs"
    using filter_append_split [OF assms(3)] by blast
  then have order: "order = rev vs @ i # rev us" and "d \<in> set (rev vs)"
    using assms(4) by (auto simp: rev_swap)
  then obtain as bs where vs: "rev vs = as @ d # bs" by (meson split_list)
  then have "order = as @ d # (bs @ i # rev us)" using order by simp
  then have "i \<in> set as" using assms(1) ds unfolding topo_prefix_def by blast
  then show False using assms(2) order vs by auto
qed

lemma backward_total:
  assumes "valid_graph (graph_of nodes)"
  shows "\<exists>err status' calls.
    executeBackwardCompensation cfg nodes results env status = Some (err, status', calls) \<and>
    (\<forall>i. status' i = status i \<or> status i = NodeDone \<and> status' i = NodeCompensated)"
proof -
  obtain order where "topologicalSort (graph_of nodes) = Some order"
    using topologicalSort_correct [OF assms] by blast
  moreover obtain errs status' calls where
    "compensate_each cfg nodes results env (filter (\<lambda>i. status i = NodeDone) (rev order)) status =
      (errs, status', calls)"
    by (rule prod_cases3)
  ultimately show ?thesis using compensate_each_props
    by (fastforce simp: executeBackwardCompensation_def completed_reverse_def)
qed

text \<open>
  C18. Backward compensation of a valid graph always finishes. It compensates exactly the completed nodes that
  have a result and a compensatable runner, each in one turn, a node before everything it depends on. A node
  whose compensation is not idempotent has \<open>Compensate\<close> called exactly once, an idempotent one at most once
  more than the retries configured: called again only after a failed call and a wait that ran to its end, given
  up before the last allowed call only with a success or an ended context. (The largest \<open>int\<close> as retry count
  wraps around and allows no call at all.) A node ends compensated exactly when its last call succeeded, all
  other statuses stay, and the step reports an error iff some node was tried and not compensated.
\<close>

theorem backward_compensation_saga:
  assumes "valid_graph (graph_of nodes)" and "cc_MaxRetries cfg < 2 ^ 63"
  shows "\<exists>err status' calls.
    executeBackwardCompensation cfg nodes results env status = Some (err, status', calls) \<and>
    distinct (map fst calls) \<and>
    fst ` set calls = {i \<in> n_ID ` set nodes. status i = NodeDone \<and> can_compensate nodes results i} \<and>
    (\<forall>xs i ys. map fst calls = xs @ i # ys \<longrightarrow> (\<forall>d\<in>set ys. (i, d) \<notin> dep_edges (graph_of nodes))) \<and>
    (\<forall>(i, n) \<in> set calls. \<exists>node idempotent.
        node_of nodes i = Some node \<and> n_Runner node = CompensatableRunner idempotent \<and>
        (\<not> idempotent \<longrightarrow> n = 1) \<and> attempts_exact cfg idempotent (env i) n) \<and>
    (\<forall>i. status' i = (if \<exists>n. (i, n) \<in> set calls \<and> 0 < n \<and> ce_run (env i) (n - 1) = None then NodeCompensated else status i)) \<and>
    (err = None \<longleftrightarrow> (\<forall>(i, n) \<in> set calls. 0 < n \<and> ce_run (env i) (n - 1) = None))"
proof -
  obtain order where o: "topologicalSort (graph_of nodes) = Some order" "distinct order"
    "set order = set (node_ids (graph_of nodes))" "topo_prefix (graph_of nodes) order"
    using topologicalSort_correct [OF assms(1)] by blast
  let ?is = "filter (\<lambda>i. status i = NodeDone) (rev order)"
  let ?P = "\<lambda>i. can_compensate nodes results i \<and> status i = NodeDone"
  let ?out = "comp_outcome cfg nodes env"
  obtain errs status' calls where each:
    "compensate_each cfg nodes results env ?is status = (errs, status', calls)"
    by (rule prod_cases3)
  note p = compensate_each_props [OF each]
  have calls: "calls = map (\<lambda>i. (i, snd (?out i))) (filter ?P (rev order))"
    using p by (simp add: conj_commute)
  then have ids: "map fst calls = filter ?P (rev order)" by (simp add: comp_def)
  have one: "\<exists>node b. node_of nodes i = Some node \<and> n_Runner node = CompensatableRunner b \<and> (\<not> b \<longrightarrow> snd (?out i) = 1) \<and>
      attempts_exact cfg b (env i) (snd (?out i)) \<and>
      (fst (?out i) = None \<longleftrightarrow> 0 < snd (?out i) \<and> ce_run (env i) (snd (?out i) - 1) = None)"
    if c: "can_compensate nodes results i" for i
  proof -
    obtain node b where n: "node_of nodes i = Some node" "n_Runner node = CompensatableRunner b"
      using c by (auto simp: can_compensate_def split: option.splits runner_kind.splits)
    then have "?out i = executeNodeCompensation cfg i b (env i)" by (simp add: comp_outcome_def)
    then have ex: "executeNodeCompensation cfg i b (env i) = (fst (?out i), snd (?out i))" by simp
    note all = node_compensation_exact [OF ex assms(2)]
    moreover have "snd (?out i) = 1" if "\<not> b" using all that by (auto simp: attempts_exact_def compensations_allowed_def)
    ultimately show ?thesis using n by (intro exI [of _ node] exI [of _ b]) simp
  qed
  have succeeded: "fst (?out i) = None \<longleftrightarrow> 0 < snd (?out i) \<and> ce_run (env i) (snd (?out i) - 1) = None"
    if c: "can_compensate nodes results i" for i
    using one [OF c] by (elim exE conjE)
  have mem: "(i, n) \<in> set calls \<longleftrightarrow> i \<in> set order \<and> ?P i \<and> n = snd (?out i)" for i n using calls by auto
  show ?thesis
  proof (intro exI conjI)
    show "executeBackwardCompensation cfg nodes results env status =
      Some (if errs \<noteq> [] then Some (Errorf ''orchestrate: compensation errors: %v'' (map AStr errs) None)
                    else None, status', calls)"
      using o each by (simp add: executeBackwardCompensation_def completed_reverse_def)
    show "distinct (map fst calls)" using ids o(2) by simp
    show "fst ` set calls = {i \<in> n_ID ` set nodes. status i = NodeDone \<and> can_compensate nodes results i}"
      using arg_cong [OF ids, of set] o(3) by auto
    show "\<forall>xs i ys. map fst calls = xs @ i # ys \<longrightarrow> (\<forall>d\<in>set ys. (i, d) \<notin> dep_edges (graph_of nodes))"
      using reverse_topo [OF o(4,2)] ids by metis
    show "\<forall>(i, n) \<in> set calls. \<exists>node idempotent. node_of nodes i = Some node \<and> n_Runner node = CompensatableRunner idempotent \<and>
        (\<not> idempotent \<longrightarrow> n = 1) \<and> attempts_exact cfg idempotent (env i) n"
    proof clarify
      fix i n assume "(i, n) \<in> set calls"
      then have c: "can_compensate nodes results i" "n = snd (?out i)" using mem by simp_all
      obtain node b where "node_of nodes i = Some node" "n_Runner node = CompensatableRunner b" "\<not> b \<longrightarrow> n = 1"
        "attempts_exact cfg b (env i) n" using one [OF c(1)] unfolding c(2) by (elim exE conjE)
      then show "\<exists>node idempotent. node_of nodes i = Some node \<and> n_Runner node = CompensatableRunner idempotent \<and>
        (\<not> idempotent \<longrightarrow> n = 1) \<and> attempts_exact cfg idempotent (env i) n"
        by (intro exI [of _ node] exI [of _ b]) simp
    qed
    show "\<forall>i. status' i = (if \<exists>n. (i, n) \<in> set calls \<and> 0 < n \<and> ce_run (env i) (n - 1) = None then NodeCompensated else status i)"
    proof
      fix i
      have s: "status' i = (if i \<in> set ?is \<and> can_compensate nodes results i \<and> fst (?out i) = None then NodeCompensated else status i)"
        using p by simp
      have "(i \<in> set ?is \<and> can_compensate nodes results i \<and> fst (?out i) = None) \<longleftrightarrow>
          (\<exists>n. (i, n) \<in> set calls \<and> 0 < n \<and> ce_run (env i) (n - 1) = None)"
        using mem [of i] succeeded [of i] by auto
      then show "status' i = (if \<exists>n. (i, n) \<in> set calls \<and> 0 < n \<and> ce_run (env i) (n - 1) = None then NodeCompensated else status i)"
        unfolding s by presburger
    qed
    have "errs = [] \<longleftrightarrow> (\<forall>i\<in>set order. ?P i \<longrightarrow> fst (?out i) = None)" using p by (auto simp: filter_empty_conv)
    also have "\<dots> \<longleftrightarrow> (\<forall>i\<in>set order. ?P i \<longrightarrow> 0 < snd (?out i) \<and> ce_run (env i) (snd (?out i) - 1) = None)"
      using succeeded by blast
    also have "\<dots> \<longleftrightarrow> (\<forall>(i, n) \<in> set calls. 0 < n \<and> ce_run (env i) (n - 1) = None)" unfolding calls by auto
    finally show "((if errs \<noteq> [] then Some (Errorf ''orchestrate: compensation errors: %v'' (map AStr errs) None)
                    else None) = None) \<longleftrightarrow> (\<forall>(i, n) \<in> set calls. 0 < n \<and> ce_run (env i) (n - 1) = None)" by simp
  qed
qed

text \<open>Two nodes, the first rolled back at its second call, the other once and in vain.\<close>

definition sample_saga :: "(nat, nat, unit, unit) node list" where
  "sample_saga = [(sample_node ''a'' [])\<lparr>n_Runner := CompensatableRunner False\<rparr>,
     (sample_node ''b'' [''a''])\<lparr>n_Runner := CompensatableRunner True\<rparr>]"

lemma sample_saga_valid: "valid_graph (graph_of sample_saga)"
  by (rule ValidateDAG_valid) code_simp

definition sample_rollback :: "(go_error option \<times> (string \<Rightarrow> node_status) \<times> (string \<times> nat) list) option" where
  "sample_rollback = executeBackwardCompensation \<lparr>cc_Strategy = BackwardCompensate, cc_Timeout = 0, cc_MaxRetries = 3\<rparr>
      sample_saga (\<lambda>_. Some (reply_with [] ''s''))
      (\<lambda>i. \<lparr>ce_run = (\<lambda>k. if i = ''b'' \<and> k = 1 then None else Some Canceled), ce_ctx = (\<lambda>_. None)\<rparr>) (\<lambda>_. NodeDone)"

theorem backward_compensation_saga_witness:
  "\<exists>err status' calls. sample_rollback = Some (err, status', calls) \<and> calls = [(''b'', 2), (''a'', 1)] \<and>
    fst ` set calls = {''a'', ''b''} \<and> err \<noteq> None \<and> status' ''b'' = NodeCompensated \<and> status' ''a'' = NodeDone"
proof -
  let ?cfg = "\<lparr>cc_Strategy = BackwardCompensate, cc_Timeout = 0, cc_MaxRetries = 3\<rparr>"
  have can: "{i \<in> n_ID ` set sample_saga.
      can_compensate sample_saga (\<lambda>_. Some (reply_with [] ''s'')) i} = {''a'', ''b''}"
    by (auto simp: sample_saga_def can_compensate_def node_of_def sample_node_def)
  have calls: "map_option (\<lambda>(err, status', calls). (err = None, status' ''b'', status' ''a'', calls)) sample_rollback =
      Some (False, NodeCompensated, NodeDone, [(''b'', 2), (''a'', 1)])"
    by code_simp
  have "cc_MaxRetries ?cfg < 2 ^ 63" by simp
  from backward_compensation_saga [OF sample_saga_valid this,
      where results = "\<lambda>_. Some (reply_with [] ''s'')" and status = "\<lambda>_. NodeDone"
        and env = "\<lambda>i. \<lparr>ce_run = (\<lambda>k. if i = ''b'' \<and> k = 1 then None else Some Canceled), ce_ctx = (\<lambda>_. None)\<rparr>"]
  obtain err status' calls where r: "sample_rollback = Some (err, status', calls)" "fst ` set calls = {''a'', ''b''}"
    using can unfolding sample_rollback_def simp_thms by metis
  then show ?thesis using calls by auto
qed

end
