(* ===== verification/Aggregate.thy ===== *)
theory Aggregate
  imports Orchestrate
begin

text \<open>
  The aggregators (\<open>orchestrate/aggregator.go\<close>). The argument is a Go map from node identifiers
  to response pointers; ranging over it visits the entries in an arbitrary order, so it is given
  as the list of its entries in some order. The locale \<open>aggregator\<close> states what the engine
  needs: that this order does not show in the result.
\<close>

type_synonym ('m, 'u, 'd) entries = "(string \<times> ('m, 'u, 'd) run_response option) list"

type_synonym ('m, 'u, 'd) agg_fun =
  "('m, 'u, 'd) entries \<Rightarrow> go_error + ('m, 'u, 'd) run_response option"

definition entry :: "('m, 'u, 'd) entries \<Rightarrow> string \<Rightarrow> ('m, 'u, 'd) run_response option" where
  "entry results k = (case map_of results k of Some v \<Rightarrow> v | None \<Rightarrow> None)"

definition lastResultAggregate :: "('m, 'u, 'd) agg_fun" where
  "lastResultAggregate results =
     (if length results = 0 then Inr (Some empty_response)
      else (let keys = sort (map fst results) in Inr (entry results (keys ! (length keys - 1)))))"

fun concat_step :: "('m, 'u, 'd) run_response \<Rightarrow> ('m, 'u, 'd) run_response option
      \<Rightarrow> ('m, 'u, 'd) run_response" where
  "concat_step resp None = resp"
| "concat_step resp (Some v) =
     (let resp' = resp\<lparr>r_messages := r_messages resp @ r_messages v\<rparr> in
      if r_sessionID resp' = '''' then resp'\<lparr>r_sessionID := r_sessionID v, r_metadata := r_metadata v\<rparr>
      else resp')"

definition concatMessagesAggregate :: "('m, 'u, 'd) agg_fun" where
  "concatMessagesAggregate results =
     (let keys = sort (map fst results) in
      Inr (Some (foldl (\<lambda>resp k. concat_step resp (entry results k)) empty_response keys)))"

locale aggregator =
  fixes agg :: "('m, 'u, 'd) agg_fun"
  assumes order_irrelevant:
    "distinct (map fst xs) \<Longrightarrow> mset xs = mset ys \<Longrightarrow> agg xs = agg ys"
begin

text \<open>Collecting the entries of a result map by node identifier, in any order of the nodes.\<close>

lemma collect_any_order:
  assumes "distinct ks" and "mset ks = mset ls"
  shows "agg (map (\<lambda>k. (k, f k)) ks) = agg (map (\<lambda>k. (k, f k)) ls)"
proof (rule order_irrelevant)
  show "distinct (map fst (map (\<lambda>k. (k, f k)) ks))" using assms(1) by (simp add: comp_def)
  show "mset (map (\<lambda>k. (k, f k)) ks) = mset (map (\<lambda>k. (k, f k)) ls)"
    using assms(2) by simp
qed

end

lemma entry_mset_eq:
  "distinct (map fst xs) \<Longrightarrow> mset xs = mset ys \<Longrightarrow> entry xs = entry ys"
  using map_of_mset_eq by (fastforce simp: entry_def)

lemma sort_keys_mset_eq: "mset xs = mset ys \<Longrightarrow> sort (map fst xs) = sort (map fst ys)"
  by (rule sort_mset_eq) simp

interpretation lastagg: aggregator lastResultAggregate
proof unfold_locales
  fix xs ys :: "('m, 'u, 'd) entries"
  assume d: "distinct (map fst xs)" and m: "mset xs = mset ys"
  have "length xs = length ys" using m by (rule mset_eq_length)
  then show "lastResultAggregate xs = lastResultAggregate ys"
    unfolding lastResultAggregate_def entry_mset_eq [OF d m] sort_keys_mset_eq [OF m] by simp
qed

interpretation concatagg: aggregator concatMessagesAggregate
proof unfold_locales
  fix xs ys :: "('m, 'u, 'd) entries"
  assume d: "distinct (map fst xs)" and m: "mset xs = mset ys"
  show "concatMessagesAggregate xs = concatMessagesAggregate ys"
    unfolding concatMessagesAggregate_def entry_mset_eq [OF d m] sort_keys_mset_eq [OF m] ..
qed

text \<open>The concatenation holds the messages of every entry, by ascending identifier.\<close>

lemma concat_fold_messages:
  "r_messages (foldl (\<lambda>resp k. concat_step resp (f k)) resp ks) =
     r_messages resp @ concat (map (\<lambda>k. case f k of None \<Rightarrow> [] | Some v \<Rightarrow> r_messages v) ks)"
proof (induction ks arbitrary: resp)
  case (Cons k ks)
  have "r_messages (concat_step resp (f k)) =
      r_messages resp @ (case f k of None \<Rightarrow> [] | Some v \<Rightarrow> r_messages v)"
    by (cases "f k") (simp_all add: Let_def)
  with Cons show ?case by simp
qed simp

lemma concat_fold_session:
  "r_sessionID (foldl (\<lambda>resp k. concat_step resp (f k)) resp ks) =
     (if r_sessionID resp \<noteq> '''' then r_sessionID resp
      else (case find_first (\<lambda>s. s \<noteq> '''')
                  (map (\<lambda>k. case f k of None \<Rightarrow> '''' | Some v \<Rightarrow> r_sessionID v) ks) of
              Some s \<Rightarrow> s | None \<Rightarrow> ''''))"
proof (induction ks arbitrary: resp)
  case (Cons k ks)
  show ?case using Cons [of "concat_step resp (f k)"] by (cases "f k") (auto simp: Let_def)
qed simp

text \<open>
  The final output that the default aggregator builds does not depend on the order in which
  the Go map of terminal results is visited: the messages are those of every result by ascending
  node identifier, and the session is the first non-empty one in that order.
\<close>

theorem concat_aggregate_deterministic:
  assumes "distinct (map fst xs)" and "mset xs = mset ys"
  shows "concatMessagesAggregate xs = concatMessagesAggregate ys \<and>
    (\<exists>r. concatMessagesAggregate xs = Inr (Some r) \<and>
      r_messages r = concat (map (\<lambda>k. case entry ys k of None \<Rightarrow> [] | Some v \<Rightarrow> r_messages v)
                              (sort (map fst ys))) \<and>
      r_sessionID r =
        (case find_first (\<lambda>s. s \<noteq> '''')
               (map (\<lambda>k. case entry ys k of None \<Rightarrow> '''' | Some v \<Rightarrow> r_sessionID v)
                 (sort (map fst ys))) of Some s \<Rightarrow> s | None \<Rightarrow> ''''))"
  using concatagg.order_irrelevant [OF assms]
  by (simp add: concatMessagesAggregate_def Let_def concat_fold_messages concat_fold_session
      empty_response_def)

theorem concat_aggregate_deterministic_witness:
  "concatMessagesAggregate [(''b'', Some (reply_with [2::nat] ''s'')), (''a'', Some (reply_with [1] ''''))]
     = (concatMessagesAggregate
         [(''a'', Some (reply_with [1] '''')), (''b'', Some (reply_with [2] ''s''))]
       :: go_error + (nat, unit, unit) run_response option)"
  using concat_aggregate_deterministic
    [of "[(''b'', Some (reply_with [2::nat] ''s'' :: (nat, unit, unit) run_response)),
          (''a'', Some (reply_with [1] ''''))]"
        "[(''a'', Some (reply_with [1] '''')), (''b'', Some (reply_with [2] ''s''))]"]
  by (simp add: add_mset_commute)

end
