(* ===== verification/CriticalPath.thy ===== *)
theory CriticalPath
  imports Graph
begin

text \<open>
  \<open>ComputeCriticalPath\<close> (\<open>orchestrate/priority.go\<close>): the forward pass for the earliest start
  times, the project end, the backward pass for the latest start times, and the priorities.
  The result is shown to be the length of the longest dependency chain through each node.
\<close>

section \<open>The two passes\<close>

text \<open>\<open>nodeMap[id].Deps\<close>; a repeated identifier keeps its last node.\<close>

definition deps_of :: "gnode list \<Rightarrow> string \<Rightarrow> string list" where
  "deps_of g i = (case map_of (rev g) i of Some ds \<Rightarrow> ds | None \<Rightarrow> [])"

definition cp_weight :: "gnode list \<Rightarrow> string \<Rightarrow> int" where
  "cp_weight g i = (if i \<in> set (node_ids g) then 1 else 0)"

text \<open>A Go loop that keeps the greatest (least) value seen, starting from \<open>a\<close>.\<close>

definition max_loop :: "('a \<Rightarrow> int) \<Rightarrow> 'a list \<Rightarrow> int \<Rightarrow> int" where
  "max_loop f xs a = fold (\<lambda>x acc. let v = f x in if v > acc then v else acc) xs a"

definition min_loop :: "('a \<Rightarrow> int) \<Rightarrow> 'a list \<Rightarrow> int \<Rightarrow> int" where
  "min_loop f xs a = fold (\<lambda>x acc. if f x < acc then f x else acc) xs a"

definition est_at :: "gnode list \<Rightarrow> (string \<Rightarrow> int) \<Rightarrow> string \<Rightarrow> int" where
  "est_at g est i = max_loop (\<lambda>d. est d + cp_weight g d) (deps_of g i) 0"

definition lst_at :: "gnode list \<Rightarrow> int \<Rightarrow> (string \<Rightarrow> int) \<Rightarrow> string \<Rightarrow> int" where
  "lst_at g projectEnd lst i =
     (if length (downstream_of g i) = 0 then projectEnd - cp_weight g i
      else min_loop lst (downstream_of g i) projectEnd - cp_weight g i)"

definition ComputeCriticalPath :: "gnode list \<Rightarrow> (string \<rightharpoonup> int) option" where
  "ComputeCriticalPath g =
     (case topologicalSort g of
        None \<Rightarrow> None
      | Some topoOrder \<Rightarrow>
         (let est = fold (\<lambda>i est. est(i := est_at g est i)) topoOrder (\<lambda>_. 0);
              projectEnd = max_loop (\<lambda>i. est i + cp_weight g i) topoOrder 0;
              lst0 = (\<lambda>i. if i \<in> set (node_ids g) then projectEnd - cp_weight g i else 0);
              lst = fold (\<lambda>i lst. lst(i := lst_at g projectEnd lst i)) (rev topoOrder) lst0
          in Some (\<lambda>i. if i \<in> set (node_ids g)
                       then Some (projectEnd - (lst i - est i)) else None)))"

section \<open>The loops\<close>

lemma max_loop_props:
  "a \<le> max_loop f xs a" "x \<in> set xs \<Longrightarrow> f x \<le> max_loop f xs a"
  "max_loop f xs a = a \<or> (\<exists>x\<in>set xs. max_loop f xs a = f x)"
proof -
  have "a \<le> max_loop f xs a \<and> (\<forall>x\<in>set xs. f x \<le> max_loop f xs a) \<and>
      (max_loop f xs a = a \<or> (\<exists>x\<in>set xs. max_loop f xs a = f x))" for a
  proof (induction xs arbitrary: a)
    case (Cons y ys)
    have eq: "max_loop f (y # ys) a = max_loop f ys (if f y > a then f y else a)"
      by (simp add: max_loop_def Let_def)
    show ?case using Cons [of "if f y > a then f y else a"] unfolding eq by (auto split: if_splits)
  qed (simp add: max_loop_def)
  then show "a \<le> max_loop f xs a" "x \<in> set xs \<Longrightarrow> f x \<le> max_loop f xs a"
    "max_loop f xs a = a \<or> (\<exists>x\<in>set xs. max_loop f xs a = f x)" by auto
qed

lemma min_loop_props:
  "min_loop f xs a \<le> a" "x \<in> set xs \<Longrightarrow> min_loop f xs a \<le> f x"
  "min_loop f xs a = a \<or> (\<exists>x\<in>set xs. min_loop f xs a = f x)"
proof -
  have "min_loop f xs a \<le> a \<and> (\<forall>x\<in>set xs. min_loop f xs a \<le> f x) \<and>
      (min_loop f xs a = a \<or> (\<exists>x\<in>set xs. min_loop f xs a = f x))" for a
  proof (induction xs arbitrary: a)
    case (Cons y ys)
    have eq: "min_loop f (y # ys) a = min_loop f ys (if f y < a then f y else a)"
      by (simp add: min_loop_def)
    show ?case using Cons [of "if f y < a then f y else a"] unfolding eq by (auto split: if_splits)
  qed (simp add: min_loop_def)
  then show "min_loop f xs a \<le> a" "x \<in> set xs \<Longrightarrow> min_loop f xs a \<le> f x"
    "min_loop f xs a = a \<or> (\<exists>x\<in>set xs. min_loop f xs a = f x)" by auto
qed

lemma max_loop_cong: "(\<And>x. x \<in> set xs \<Longrightarrow> f x = h x) \<Longrightarrow> max_loop f xs a = max_loop h xs a"
  unfolding max_loop_def by (intro fold_cong) auto

lemma min_loop_cong: "(\<And>x. x \<in> set xs \<Longrightarrow> f x = h x) \<Longrightarrow> min_loop f xs a = min_loop h xs a"
  unfolding min_loop_def by (intro fold_cong) auto

text \<open>
  A pass over a list that visits what a value depends on before the value itself leaves every
  visited entry equal to its recomputation.
\<close>

lemma pass_fixpoint:
  assumes "distinct xs"
    and closed: "\<And>ys i zs. xs = ys @ i # zs \<Longrightarrow> S i \<subseteq> set ys"
    and local: "\<And>i m m'. (\<And>d. d \<in> S i \<Longrightarrow> m d = m' d) \<Longrightarrow> f m i = f m' i"
    and "i \<in> set xs"
  shows "fold (\<lambda>i m. m(i := f m i)) xs m0 i = f (fold (\<lambda>i m. m(i := f m i)) xs m0) i"
proof -
  define step where "step = (\<lambda>i m. m(i := f m i))"
  have step: "step i m i = f m i" "j \<noteq> i \<Longrightarrow> step i m j = m j" for i m j
    by (simp_all add: step_def)
  have "fold step xs m0 i = f (fold step xs m0) i"
    using assms(1,2,4)
  proof (induction xs arbitrary: i rule: rev_induct)
    case (snoc x xs)
    let ?m = "fold step xs m0"
    have x: "x \<notin> set xs" using snoc.prems(1) by simp
    have dx: "S x \<subseteq> set xs" using snoc.prems(2) [of xs x "[]"] by simp
    have cl: "S i \<subseteq> set ys" if "xs = ys @ i # zs" for ys i zs
      using snoc.prems(2) [of ys i "zs @ [x]"] that by simp
    have unch: "f ?m j = f (step x ?m) j" if "S j \<subseteq> set xs" for j
      using that x step(2) by (intro local) (metis in_mono)
    show ?case
    proof (cases "i = x")
      case True
      then show ?thesis using unch [OF dx] by (simp add: step)
    next
      case False
      then have i: "i \<in> set xs" using snoc.prems(3) by simp
      then obtain ys zs where "xs = ys @ i # zs" by (meson split_list)
      then have "S i \<subseteq> set xs" using cl by fastforce
      moreover have "?m i = f ?m i" using snoc.IH [OF _ _ i] snoc.prems(1) cl by simp
      ultimately show ?thesis using False unch by (simp add: step)
    qed
  qed simp
  then show ?thesis by (simp add: step_def)
qed

section \<open>Chains of dependencies\<close>

definition chain :: "gnode list \<Rightarrow> string list \<Rightarrow> bool" where
  "chain g xs \<longleftrightarrow>
     set xs \<subseteq> set (node_ids g) \<and> successively (\<lambda>x y. (x, y) \<in> dep_edges g) xs"

lemma deps_of_node:
  assumes "distinct (node_ids g)" and "(i, ds) \<in> set g"
  shows "deps_of g i = ds"
proof -
  have "distinct (map fst (rev g))" using assms(1) by (simp flip: rev_map)
  moreover have "(i, ds) \<in> set (rev g)" using assms(2) by simp
  ultimately have "map_of (rev g) i = Some ds" by (rule map_of_is_SomeI)
  then show ?thesis by (simp add: deps_of_def)
qed

lemma deps_of_absent: "i \<notin> set (node_ids g) \<Longrightarrow> deps_of g i = []"
proof -
  assume "i \<notin> set (node_ids g)"
  then have "map_of (rev g) i = None" by (simp add: map_of_eq_None_iff)
  then show ?thesis by (simp add: deps_of_def)
qed

lemma deps_of_edge:
  assumes "distinct (node_ids g)"
  shows "d \<in> set (deps_of g i) \<longleftrightarrow> (d, i) \<in> dep_edges g"
proof (cases "i \<in> set (node_ids g)")
  case True
  then obtain ds where "(i, ds) \<in> set g" by auto
  then show ?thesis using deps_of_node [OF assms] by (auto simp: dep_edges_def)
next
  case False
  then show ?thesis using deps_of_absent dep_edges_target by (metis empty_iff list.set(1))
qed

lemma topo_prefix_deps:
  assumes "distinct (node_ids g)" and "topo_prefix g order" and "order = ys @ i # zs"
  shows "set (deps_of g i) \<subseteq> set ys"
  using assms deps_of_edge [OF assms(1)] by (fastforce simp: topo_prefix_def dep_edges_def)

lemma topo_prefix_downstream:
  assumes "topo_prefix g order" and "distinct order" and "set order = set (node_ids g)"
    and "order = ys @ i # zs"
  shows "set (downstream_of g i) \<subseteq> set zs"
proof
  fix s assume "s \<in> set (downstream_of g i)"
  then obtain ds where ds: "(s, ds) \<in> set g" "i \<in> set ds"
    by (auto simp: set_downstream dep_edges_def)
  then have "s \<in> set order" using assms(3) by force
  then obtain us vs where split: "order = us @ s # vs" by (meson split_list)
  then have "set ds \<subseteq> set us" using assms(1) ds(1) by (auto simp: topo_prefix_def)
  then have "i \<in> set us" using ds(2) by blast
  then obtain as bs where "us = as @ i # bs" by (meson split_list)
  then have eq: "as @ i # (bs @ s # vs) = ys @ i # zs" using split assms(4) by simp
  have "distinct (ys @ i # zs)" using assms(2,4) by simp
  moreover from this have "distinct (as @ i # (bs @ s # vs))" by (simp only: eq)
  ultimately have "i \<notin> set as" and "i \<notin> set (bs @ s # vs)" by simp_all
  then have "zs = bs @ s # vs" using eq append_Cons_eq_iff by metis
  then show "s \<in> set zs" by simp
qed


section \<open>Earliest and latest start times\<close>

definition est_eq :: "gnode list \<Rightarrow> (string \<Rightarrow> int) \<Rightarrow> bool" where
  "est_eq g est \<longleftrightarrow> (\<forall>i\<in>set (node_ids g). est i = est_at g est i)"

definition lst_eq :: "gnode list \<Rightarrow> int \<Rightarrow> (string \<Rightarrow> int) \<Rightarrow> bool" where
  "lst_eq g pe lst \<longleftrightarrow> (\<forall>i\<in>set (node_ids g). lst i = lst_at g pe lst i)"

lemma est_at_props:
  assumes v: "valid_graph g"
  shows "0 \<le> est_at g est i" "(d, i) \<in> dep_edges g \<Longrightarrow> est d + 1 \<le> est_at g est i"
    "est_at g est i = 0 \<or> (\<exists>d. (d, i) \<in> dep_edges g \<and> est_at g est i = est d + 1)"
proof -
  have d: "distinct (node_ids g)" "deps_known g" using v by (auto simp: valid_graph_def)
  have w: "cp_weight g d = 1" if "d \<in> set (deps_of g i)" for d
    using that deps_of_edge [OF d(1)] dep_edges_source [OF d(2)] by (auto simp: cp_weight_def)
  show "0 \<le> est_at g est i" by (simp add: est_at_def max_loop_props)
  show "est d + 1 \<le> est_at g est i" if "(d, i) \<in> dep_edges g"
  proof -
    have "d \<in> set (deps_of g i)" using that deps_of_edge [OF d(1)] by simp
    then show ?thesis
      using max_loop_props(2) [of d "deps_of g i" "\<lambda>d. est d + cp_weight g d" 0] w
      by (simp add: est_at_def)
  qed
  show "est_at g est i = 0 \<or> (\<exists>d. (d, i) \<in> dep_edges g \<and> est_at g est i = est d + 1)"
    using max_loop_props(3) [of "\<lambda>d. est d + cp_weight g d" "deps_of g i" 0] w deps_of_edge [OF d(1)]
    by (fastforce simp: est_at_def)
qed

lemma lst_at_props:
  assumes i: "i \<in> set (node_ids g)"
  shows "lst_at g pe lst i \<le> pe - 1" "(i, s) \<in> dep_edges g \<Longrightarrow> lst_at g pe lst i \<le> lst s - 1"
    "lst_at g pe lst i = pe - 1 \<or> (\<exists>s. (i, s) \<in> dep_edges g \<and> lst_at g pe lst i = lst s - 1)"
proof -
  let ?ds = "downstream_of g i"
  have w: "cp_weight g i = 1" using i by (simp add: cp_weight_def)
  show "lst_at g pe lst i \<le> pe - 1"
    using min_loop_props(1) [of lst ?ds pe] by (simp add: lst_at_def w)
  show "lst_at g pe lst i \<le> lst s - 1" if "(i, s) \<in> dep_edges g"
    using that min_loop_props(2) [of s ?ds lst pe] set_downstream [of g i]
    by (auto simp: lst_at_def w)
  show "lst_at g pe lst i = pe - 1 \<or> (\<exists>s. (i, s) \<in> dep_edges g \<and> lst_at g pe lst i = lst s - 1)"
    using min_loop_props(3) [of lst ?ds pe] set_downstream [of g i]
    by (auto simp: lst_at_def w)
qed

lemma chain_ConsD: "chain g (i # s # zs) \<Longrightarrow> (i, s) \<in> dep_edges g \<and> chain g (s # zs)"
  by (simp add: chain_def)

lemma chain_snocD: "chain g (ys @ [d, i]) \<Longrightarrow> (d, i) \<in> dep_edges g \<and> chain g (ys @ [d])"
  by (auto simp: chain_def successively_append_iff)

lemma chain_append:
  "chain g (ys @ [i]) \<Longrightarrow> chain g (i # zs) \<Longrightarrow> chain g (ys @ i # zs)"
  by (auto simp: chain_def successively_append_iff)

lemma chain_splitD: "chain g (ys @ i # zs) \<Longrightarrow> chain g (ys @ [i]) \<and> chain g (i # zs)"
  by (auto simp: chain_def successively_append_iff)

lemma est_chain_bound:
  "valid_graph g \<Longrightarrow> est_eq g est \<Longrightarrow> chain g (ys @ [i]) \<Longrightarrow> int (length ys) \<le> est i"
proof (induction ys arbitrary: i rule: rev_induct)
  case Nil
  then have "i \<in> set (node_ids g)" by (simp add: chain_def)
  then have "est i = est_at g est i" using Nil.prems(2) unfolding est_eq_def by blast
  then show ?case using est_at_props(1) [OF Nil.prems(1), of est i] by simp
next
  case (snoc d ys)
  then have e: "(d, i) \<in> dep_edges g" "chain g (ys @ [d])" using chain_snocD by simp_all
  then have "int (length ys) \<le> est d" using snoc by simp
  moreover have "i \<in> set (node_ids g)" using snoc.prems(3) by (simp add: chain_def)
  then have "est i = est_at g est i" using snoc.prems(2) unfolding est_eq_def by blast
  ultimately show ?case using est_at_props(2) [OF snoc.prems(1) e(1), of est] by simp
qed

lemma est_chain_exists:
  assumes v: "valid_graph g" and e: "est_eq g est"
  shows "i \<in> set (node_ids g) \<Longrightarrow> nat (est i) = n \<Longrightarrow>
    \<exists>ys. chain g (ys @ [i]) \<and> int (length ys) = est i"
proof (induction n arbitrary: i rule: less_induct)
  case (less n)
  have est: "est j = est_at g est j" if "j \<in> set (node_ids g)" for j
    using that e unfolding est_eq_def by blast
  show ?case
  proof (cases "est i = 0")
    case True
    then have "chain g ([] @ [i]) \<and> int (length []) = est i"
      using less.prems by (simp add: chain_def)
    then show ?thesis by blast
  next
    case False
    then obtain d where d: "(d, i) \<in> dep_edges g" "est i = est d + 1"
      using est_at_props(3) [OF v, of est i] est [OF less.prems(1)] by auto
    have di: "d \<in> set (node_ids g)"
      using v d(1) dep_edges_source unfolding valid_graph_def by blast
    have "0 \<le> est d" using est [OF di] est_at_props(1) [OF v, of est d] by simp
    then have "nat (est d) < n" using d(2) less.prems(2) by simp
    from less.IH [OF this di refl] obtain ys where
      "chain g (ys @ [d])" "int (length ys) = est d" by blast
    then have "chain g ((ys @ [d]) @ [i]) \<and> int (length (ys @ [d])) = est i"
      using d less.prems(1) by (auto simp: chain_def successively_append_iff)
    then show ?thesis by blast
  qed
qed

lemma lst_chain_bound:
  "lst_eq g pe lst \<Longrightarrow> chain g (i # zs) \<Longrightarrow> int (length zs) \<le> pe - 1 - lst i"
proof (induction zs arbitrary: i)
  case Nil
  then have i: "i \<in> set (node_ids g)" by (simp add: chain_def)
  then have "lst i = lst_at g pe lst i" using Nil unfolding lst_eq_def by blast
  then show ?case using lst_at_props(1) [OF i, of pe lst] by simp
next
  case (Cons s zs)
  then have e: "(i, s) \<in> dep_edges g" "chain g (s # zs)" using chain_ConsD by simp_all
  have i: "i \<in> set (node_ids g)" using Cons.prems(2) by (simp add: chain_def)
  then have "lst i = lst_at g pe lst i" using Cons.prems unfolding lst_eq_def by blast
  then have "lst i \<le> lst s - 1" using lst_at_props(2) [OF i e(1), of pe lst] by simp
  moreover have "int (length zs) \<le> pe - 1 - lst s" using Cons e(2) by blast
  ultimately show ?case by simp
qed

lemma lst_chain_exists:
  assumes l: "lst_eq g pe lst"
  shows "i \<in> set (node_ids g) \<Longrightarrow> nat (pe - 1 - lst i) = n \<Longrightarrow>
    \<exists>zs. chain g (i # zs) \<and> int (length zs) = pe - 1 - lst i"
proof (induction n arbitrary: i rule: less_induct)
  case (less n)
  have lst: "lst j = lst_at g pe lst j" if "j \<in> set (node_ids g)" for j
    using that l unfolding lst_eq_def by blast
  show ?case
  proof (cases "lst i = pe - 1")
    case True
    then have "chain g [i] \<and> int (length []) = pe - 1 - lst i"
      using less.prems by (simp add: chain_def)
    then show ?thesis by blast
  next
    case False
    then obtain s where s: "(i, s) \<in> dep_edges g" "lst i = lst s - 1"
      using lst_at_props(3) [OF less.prems(1), of pe lst] lst [OF less.prems(1)] by auto
    have si: "s \<in> set (node_ids g)" using s(1) by (rule dep_edges_target)
    have "lst s \<le> pe - 1" using lst [OF si] lst_at_props(1) [OF si, of pe lst] by simp
    then have "nat (pe - 1 - lst s) < n" using s(2) less.prems(2) by simp
    from less.IH [OF this si refl] obtain zs where
      "chain g (s # zs)" "int (length zs) = pe - 1 - lst s" by blast
    then have "chain g (i # s # zs) \<and> int (length (s # zs)) = pe - 1 - lst i"
      using s less.prems(1) by (simp add: chain_def)
    then show ?thesis by blast
  qed
qed

section \<open>The priorities\<close>

text \<open>On a valid graph the passes satisfy their equations.\<close>

lemma ComputeCriticalPath_times:
  assumes v: "valid_graph g"
  obtains est pe lst where "est_eq g est" "lst_eq g pe lst"
    "ComputeCriticalPath g =
      Some (\<lambda>i. if i \<in> set (node_ids g) then Some (pe - (lst i - est i)) else None)"
proof -
  obtain order where o: "topologicalSort g = Some order" "distinct order"
    "set order = set (node_ids g)" "topo_prefix g order"
    using topologicalSort_correct [OF v] by blast
  have d: "distinct (node_ids g)" using v by (simp add: valid_graph_def)
  define est where "est = fold (\<lambda>i est. est(i := est_at g est i)) order (\<lambda>_. 0)"
  define pe where "pe = max_loop (\<lambda>i. est i + cp_weight g i) order 0"
  define lst0 where "lst0 = (\<lambda>i. if i \<in> set (node_ids g) then pe - cp_weight g i else 0)"
  define lst where "lst = fold (\<lambda>i lst. lst(i := lst_at g pe lst i)) (rev order) lst0"
  have "est i = est_at g est i" if "i \<in> set order" for i
    unfolding est_def
  proof (rule pass_fixpoint [where S = "\<lambda>i. set (deps_of g i)"])
    show "set (deps_of g j) \<subseteq> set ys" if "order = ys @ j # zs" for ys j zs
      using topo_prefix_deps [OF d o(4) that] .
    show "est_at g m j = est_at g m' j" if "\<And>d. d \<in> set (deps_of g j) \<Longrightarrow> m d = m' d" for j m m'
      using that unfolding est_at_def by (intro max_loop_cong) simp
  qed (use o that in auto)
  then have "est_eq g est" using o(3) by (simp add: est_eq_def)
  moreover have "lst i = lst_at g pe lst i" if "i \<in> set (rev order)" for i
    unfolding lst_def
  proof (rule pass_fixpoint [where S = "\<lambda>i. set (downstream_of g i)"])
    show "set (downstream_of g j) \<subseteq> set ys" if r: "rev order = ys @ j # zs" for ys j zs
    proof -
      have "order = rev zs @ j # rev ys" using arg_cong [OF r, of rev] by simp
      from topo_prefix_downstream [OF o(4,2,3) this] show ?thesis by simp
    qed
    show "lst_at g pe m j = lst_at g pe m' j"
      if "\<And>d. d \<in> set (downstream_of g j) \<Longrightarrow> m d = m' d" for j m m'
      using min_loop_cong [of "downstream_of g j" m m' pe] that by (simp add: lst_at_def)
  qed (use o that in auto)
  then have "lst_eq g pe lst" using o(3) by (simp add: lst_eq_def)
  moreover have "ComputeCriticalPath g =
      Some (\<lambda>i. if i \<in> set (node_ids g) then Some (pe - (lst i - est i)) else None)"
    unfolding ComputeCriticalPath_def o(1) option.case Let_def
      est_def [symmetric] pe_def [symmetric] lst0_def [symmetric] lst_def [symmetric] ..
  ultimately show thesis by (rule that)
qed

lemma priority_longest_chain:
  assumes v: "valid_graph g" and i: "i \<in> set (node_ids g)"
  shows "\<exists>prio p. ComputeCriticalPath g = Some prio \<and> prio i = Some p \<and>
    (\<forall>ys zs. chain g (ys @ i # zs) \<longrightarrow> int (length (ys @ i # zs)) \<le> p) \<and>
    (\<exists>ys zs. chain g (ys @ i # zs) \<and> int (length (ys @ i # zs)) = p)"
proof -
  obtain est pe lst where e: "est_eq g est" and l: "lst_eq g pe lst"
    and c: "ComputeCriticalPath g =
      Some (\<lambda>i. if i \<in> set (node_ids g) then Some (pe - (lst i - est i)) else None)"
    using ComputeCriticalPath_times [OF v] .
  have "int (length (ys @ i # zs)) \<le> pe - (lst i - est i)" if "chain g (ys @ i # zs)" for ys zs
    using est_chain_bound [OF v e] lst_chain_bound [OF l] chain_splitD [OF that] by fastforce
  moreover obtain ys where "chain g (ys @ [i])" "int (length ys) = est i"
    using est_chain_exists [OF v e i refl] by blast
  moreover obtain zs where "chain g (i # zs)" "int (length zs) = pe - 1 - lst i"
    using lst_chain_exists [OF l i refl] by blast
  ultimately have "chain g (ys @ i # zs) \<and> int (length (ys @ i # zs)) = pe - (lst i - est i)"
    using chain_append by simp
  then show ?thesis
    using c i \<open>\<And>zs ys. chain g (ys @ i # zs) \<Longrightarrow> int (length (ys @ i # zs)) \<le> pe - (lst i - est i)\<close>
    by auto
qed


text \<open>
  C24. Critical path priorities: on a valid graph \<open>ComputeCriticalPath\<close> gives every node, as its
  priority, exactly the number of nodes on a longest dependency chain through it.
\<close>

theorem critical_path_exact:
  assumes "valid_graph g" and "i \<in> set (node_ids g)"
  shows "\<exists>prio p. ComputeCriticalPath g = Some prio \<and> prio i = Some p \<and>
    (\<forall>ys zs. chain g (ys @ i # zs) \<longrightarrow> int (length (ys @ i # zs)) \<le> p) \<and>
    (\<exists>ys zs. chain g (ys @ i # zs) \<and> int (length (ys @ i # zs)) = p)"
  using priority_longest_chain [OF assms] .

definition fork :: "gnode list" where
  "fork = [(''a'', []), (''b'', [''a'']), (''c'', [''b'']), (''d'', [''a''])]"

lemma fork_valid: "valid_graph fork"
proof -
  have "detect_cycle fork = Some (Inr ())" by code_simp
  then have "acyclic (dep_edges fork)" by (simp add: detect_cycle_iff)
  then show ?thesis by (simp add: valid_graph_def fork_def deps_known_def)
qed

theorem critical_path_exact_witness:
  "\<exists>prio p. ComputeCriticalPath fork = Some prio \<and> prio ''d'' = Some p \<and>
     (\<exists>ys zs. chain fork (ys @ ''d'' # zs) \<and> int (length (ys @ ''d'' # zs)) = p)"
proof -
  have "''d'' \<in> set (node_ids fork)" by (simp add: fork_def)
  from critical_path_exact [OF fork_valid this] show ?thesis by blast
qed


end
