(* ===== verification/ReadyQueue.thy ===== *)
theory ReadyQueue
  imports Prelude "HOL-Library.Product_Lexorder"
begin

text \<open>
  The ready queue of the executor (\<open>orchestrate/priority.go\<close>): a binary heap of items driven by
  the standard library's \<open>container/heap\<close> (\<open>up\<close>, \<open>down\<close>, \<open>Push\<close>, \<open>Pop\<close>). The item field
  \<open>index\<close>, which the code writes and never reads, is left out. The interface the executor relies
  on is the locale \<open>ready_queue\<close>: a list ordered by descending priority, first in first out
  among equals. The heap is shown to implement it.
\<close>

section \<open>The heap\<close>

record priority_item =
  pi_nodeID :: string
  pi_priority :: int
  pi_order :: nat

record priority_queue =
  pq_items :: "priority_item list"
  pq_seq :: nat

definition newPriorityQueue :: priority_queue where
  "newPriorityQueue = \<lparr>pq_items = [], pq_seq = 0\<rparr>"

definition item_less :: "priority_item \<Rightarrow> priority_item \<Rightarrow> bool" where
  "item_less a b =
     (if pi_priority a \<noteq> pi_priority b then pi_priority a > pi_priority b
      else pi_order a < pi_order b)"

definition swap_items :: "'a list \<Rightarrow> nat \<Rightarrow> nat \<Rightarrow> 'a list" where
  "swap_items xs i j = xs[i := xs ! j, j := xs ! i]"

function heap_up :: "priority_item list \<Rightarrow> nat \<Rightarrow> priority_item list" where
  "heap_up xs j =
     (let i = (j - 1) div 2 in
      if i = j \<or> \<not> item_less (xs ! j) (xs ! i) then xs
      else heap_up (swap_items xs i j) i)"
  by pat_completeness auto
termination
  by (relation "measure snd") auto

function heap_down :: "priority_item list \<Rightarrow> nat \<Rightarrow> nat \<Rightarrow> priority_item list" where
  "heap_down xs i n =
     (let j1 = 2 * i + 1 in
      if j1 \<ge> n then xs
      else
        (let j2 = j1 + 1;
             j = (if j2 < n \<and> item_less (xs ! j2) (xs ! j1) then j2 else j1) in
         if \<not> item_less (xs ! j) (xs ! i) then xs
         else heap_down (swap_items xs i j) j n))"
  by pat_completeness auto
termination
  by (relation "measure (\<lambda>(xs, i, n). n - i)") (auto split: if_splits)

declare heap_up.simps [simp del] heap_down.simps [simp del]

definition pq_push :: "priority_queue \<Rightarrow> string \<Rightarrow> int \<Rightarrow> priority_queue" where
  "pq_push q nodeID priority =
     (let item = \<lparr>pi_nodeID = nodeID, pi_priority = priority, pi_order = pq_seq q\<rparr>;
          items = pq_items q @ [item] in
      \<lparr>pq_items = heap_up items (length items - 1), pq_seq = pq_seq q + 1\<rparr>)"

definition pq_pop :: "priority_queue \<Rightarrow> string \<times> priority_queue" where
  "pq_pop q =
     (let n = length (pq_items q) - 1;
          items = heap_down (swap_items (pq_items q) 0 n) 0 n in
      (pi_nodeID (items ! n), q\<lparr>pq_items := take n items\<rparr>))"

definition pq_empty :: "priority_queue \<Rightarrow> bool" where
  "pq_empty q = (length (pq_items q) = 0)"

section \<open>The heap order\<close>

text \<open>The order of the items as a linear order on keys, smaller keys first.\<close>

definition item_key :: "priority_item \<Rightarrow> int \<times> nat" where
  "item_key a = (- pi_priority a, pi_order a)"

lemma item_less_key: "item_less a b \<longleftrightarrow> item_key a < item_key b"
  by (auto simp: item_less_def item_key_def less_prod_def)

abbreviation parent :: "nat \<Rightarrow> nat" where
  "parent k \<equiv> (k - 1) div 2"

abbreviation key_at :: "priority_item list \<Rightarrow> nat \<Rightarrow> int \<times> nat" where
  "key_at xs k \<equiv> item_key (xs ! k)"

definition heap_upto :: "priority_item list \<Rightarrow> nat \<Rightarrow> bool" where
  "heap_upto xs n \<longleftrightarrow> (\<forall>k. 0 < k \<and> k < n \<longrightarrow> key_at xs (parent k) \<le> key_at xs k)"

lemma length_swap_items [simp]: "length (swap_items xs i j) = length xs"
  by (simp add: swap_items_def)

lemma mset_swap_items [simp]:
  "i < length xs \<Longrightarrow> j < length xs \<Longrightarrow> mset (swap_items xs i j) = mset xs"
  by (simp add: swap_items_def mset_swap)

lemma nth_swap_items:
  "i < length xs \<Longrightarrow> j < length xs \<Longrightarrow>
   swap_items xs i j ! k = (if k = j then xs ! i else if k = i then xs ! j else xs ! k)"
  by (simp add: swap_items_def nth_list_update)

text \<open>Sifting up: only the edge above \<open>j\<close> may be out of order.\<close>

definition up_inv :: "priority_item list \<Rightarrow> nat \<Rightarrow> bool" where
  "up_inv xs j \<longleftrightarrow> j < length xs \<and>
     (\<forall>k. 0 < k \<and> k < length xs \<and> k \<noteq> j \<longrightarrow> key_at xs (parent k) \<le> key_at xs k) \<and>
     (\<forall>k. 0 < k \<and> k < length xs \<and> parent k = j \<and> 0 < j \<longrightarrow> key_at xs (parent j) \<le> key_at xs k)"

lemma up_inv_step:
  assumes inv: "up_inv xs j" and i: "i = parent j" "i \<noteq> j" and l: "item_less (xs ! j) (xs ! i)"
  shows "up_inv (swap_items xs i j) i"
proof -
  let ?ys = "swap_items xs i j"
  have j: "0 < j" "j < length xs" "i < j" using inv i by (auto simp: up_inv_def)
  have key: "key_at ?ys k = (if k = j then key_at xs i else if k = i then key_at xs j else key_at xs k)" for k
    using j by (simp add: nth_swap_items)
  have less: "key_at xs j < key_at xs i" using l by (simp add: item_less_key)
  have other: "key_at xs (parent k) \<le> key_at xs k" if "0 < k" "k < length xs" "k \<noteq> j" for k
    using inv that by (simp add: up_inv_def)
  have child: "key_at xs i \<le> key_at xs k" if "0 < k" "k < length xs" "parent k = j" for k
    using inv that j i by (simp add: up_inv_def)
  have "key_at ?ys (parent k) \<le> key_at ?ys k" if k: "0 < k" "k < length xs" "k \<noteq> i" for k
  proof (cases "k = j")
    case True
    then have "parent k = i" using i by simp
    with True show ?thesis using less j by (simp add: key)
  next
    case False
    have "parent k \<noteq> k" using k(1) by arith
    consider "parent k = j" | "parent k = i" | "parent k \<noteq> j" "parent k \<noteq> i" by blast
    then show ?thesis
    proof cases
      case 1
      then show ?thesis using False k child by (simp add: key)
    next
      case 2
      then have "key_at xs i \<le> key_at xs k" using other [OF k(1,2) False] by simp
      then show ?thesis using 2 False k less j by (simp add: key)
    next
      case 3
      then show ?thesis using other [OF k(1,2) False] False k by (simp add: key)
    qed
  qed
  moreover have "key_at ?ys (parent i) \<le> key_at ?ys k"
    if k: "0 < k" "k < length xs" "parent k = i" "0 < i" for k
  proof -
    have p: "parent i < i" using k(4) by arith
    have up: "key_at xs (parent i) \<le> key_at xs i" using other [of i] k(4) j by simp
    show ?thesis
    proof (cases "k = j")
      case True
      then show ?thesis using up p j by (simp add: key)
    next
      case False
      moreover have "key_at xs i \<le> key_at xs k" using other [OF k(1,2) False] k(3) by simp
      moreover have "k \<noteq> i" using k(1,3) by arith
      ultimately show ?thesis using up p j by (simp add: key)
    qed
  qed
  ultimately show ?thesis using j by (auto simp: up_inv_def)
qed

lemma heap_up_correct:
  "up_inv xs j \<Longrightarrow> heap_upto (heap_up xs j) (length xs) \<and> mset (heap_up xs j) = mset xs"
proof (induction xs j rule: heap_up.induct)
  case (1 xs j)
  let ?i = "parent j"
  show ?case
  proof (cases "?i = j \<or> \<not> item_less (xs ! j) (xs ! ?i)")
    case True
    have "heap_upto xs (length xs)"
      unfolding heap_upto_def
    proof (intro allI impI)
      fix k assume k: "0 < k \<and> k < length xs"
      then show "key_at xs (parent k) \<le> key_at xs k"
        using True "1.prems" by (cases "k = j") (auto simp: up_inv_def item_less_key not_less)
    qed
    then show ?thesis using True by (simp add: heap_up.simps [of xs j] Let_def)
  next
    case False
    have "?i < length xs" "j < length xs" using "1.prems" by (auto simp: up_inv_def)
    moreover have "up_inv (swap_items xs ?i j) ?i"
      using up_inv_step [OF "1.prems" refl] False by simp
    ultimately show ?thesis
      using "1.IH" [OF refl False] False by (simp add: heap_up.simps [of xs j] Let_def)
  qed
qed

text \<open>Sifting down: only the edges below \<open>i\<close> may be out of order.\<close>

definition down_inv :: "priority_item list \<Rightarrow> nat \<Rightarrow> nat \<Rightarrow> bool" where
  "down_inv xs i n \<longleftrightarrow> n \<le> length xs \<and>
     (\<forall>k. 0 < k \<and> k < n \<and> parent k \<noteq> i \<longrightarrow> key_at xs (parent k) \<le> key_at xs k) \<and>
     (\<forall>k. 0 < k \<and> k < n \<and> parent k = i \<and> 0 < i \<longrightarrow> key_at xs (parent i) \<le> key_at xs k)"

lemma child_cases: "0 < k \<Longrightarrow> parent k = i \<Longrightarrow> k = 2 * i + 1 \<or> k = 2 * i + 2"
  by arith

lemma down_inv_step:
  assumes inv: "down_inv xs i n" and j: "parent j = i" "0 < j" "j < n"
    and small: "\<And>k. 0 < k \<Longrightarrow> k < n \<Longrightarrow> parent k = i \<Longrightarrow> key_at xs j \<le> key_at xs k"
    and less: "key_at xs j < key_at xs i"
  shows "down_inv (swap_items xs i j) j n"
proof -
  let ?ys = "swap_items xs i j"
  have ij: "i < j" "j < length xs" using j inv by (auto simp: down_inv_def)
  have key: "key_at ?ys k = (if k = j then key_at xs i else if k = i then key_at xs j else key_at xs k)" for k
    using ij by (simp add: nth_swap_items)
  have other: "key_at xs (parent k) \<le> key_at xs k" if "0 < k" "k < n" "parent k \<noteq> i" for k
    using inv that by (simp add: down_inv_def)
  have above: "key_at xs (parent i) \<le> key_at xs j" if "0 < i"
    using inv that j by (simp add: down_inv_def)
  have "key_at ?ys (parent k) \<le> key_at ?ys k" if k: "0 < k" "k < n" "parent k \<noteq> j" for k
  proof -
    have pk: "parent k < k" using k(1) by arith
    define p where "p = parent k"
    consider "k = i" | "k = j" | "k \<noteq> i" "k \<noteq> j" "p = i" | "k \<noteq> i" "k \<noteq> j" "p \<noteq> i" by blast
    then have "key_at ?ys p \<le> key_at ?ys k"
    proof cases
      case 1
      have "key_at xs p \<le> key_at xs j" using above 1 k(1) unfolding p_def by blast
      moreover have "p < i" using pk 1 unfolding p_def by blast
      ultimately show ?thesis using 1 ij by (simp add: key)
    next
      case 2
      then have "p = i" using j(1) by (simp add: p_def)
      then show ?thesis using 2 ij less by (simp add: key)
    next
      case 3
      then show ?thesis using small [OF k(1,2)] ij by (simp add: key p_def)
    next
      case 4
      then show ?thesis using other [OF k(1,2)] k(3) by (simp add: key p_def)
    qed
    then show ?thesis by (simp add: p_def)
  qed
  moreover have "key_at ?ys i \<le> key_at ?ys k" if k: "0 < k" "k < n" "parent k = j" for k
  proof -
    have "k \<noteq> j" "k \<noteq> i" using k(1,3) ij by arith+
    then show ?thesis using other [OF k(1,2)] k(3) ij by (simp add: key)
  qed
  ultimately show ?thesis using inv j(1) by (simp add: down_inv_def)
qed

lemma heap_down_correct:
  "down_inv xs i n \<Longrightarrow> heap_upto (heap_down xs i n) n \<and> mset (heap_down xs i n) = mset xs \<and>
     (\<forall>k\<ge>n. heap_down xs i n ! k = xs ! k)"
proof (induction xs i n rule: heap_down.induct)
  case (1 xs i n)
  define j1 where "j1 = 2 * i + 1"
  define j where "j = (if j1 + 1 < n \<and> item_less (xs ! (j1 + 1)) (xs ! j1) then j1 + 1 else j1)"
  have unfold: "heap_down xs i n =
    (if n \<le> j1 \<or> \<not> item_less (xs ! j) (xs ! i) then xs else heap_down (swap_items xs i j) j n)"
    by (subst heap_down.simps) (simp add: Let_def j1_def j_def)
  have par: "parent j = i" "0 < j" by (auto simp: j_def j1_def)
  have small: "key_at xs j \<le> key_at xs k" if "0 < k" "k < n" "parent k = i" for k
    using child_cases [OF that(1,3)] that(2) by (auto simp: j_def j1_def item_less_key)
  have lt: "j < n" if "\<not> n \<le> j1" using that by (auto simp: j_def)
  show ?case
  proof (cases "n \<le> j1 \<or> \<not> item_less (xs ! j) (xs ! i)")
    case True
    have "heap_upto xs n"
      unfolding heap_upto_def
    proof (intro allI impI)
      fix k assume k: "0 < k \<and> k < n"
      show "key_at xs (parent k) \<le> key_at xs k"
      proof (cases "parent k = i")
        case True
        then have "k = j1 \<or> k = j1 + 1" using child_cases k by (auto simp: j1_def)
        then have "key_at xs i \<le> key_at xs j"
          using k \<open>n \<le> j1 \<or> \<not> item_less (xs ! j) (xs ! i)\<close> by (auto simp: item_less_key)
        then show ?thesis using small [of k] k True by fastforce
      next
        case False
        then show ?thesis using "1.prems" k by (simp add: down_inv_def)
      qed
    qed
    then show ?thesis using True by (simp add: unfold)
  next
    case False
    then have inv: "down_inv (swap_items xs i j) j n"
      using down_inv_step [OF "1.prems" par] lt small by (simp add: item_less_key)
    have ij: "i < length xs" "j < length xs" "j < n" "i < n"
      using False lt par "1.prems" by (auto simp: down_inv_def)
    have "heap_upto (heap_down (swap_items xs i j) j n) n \<and>
        mset (heap_down (swap_items xs i j) j n) = mset (swap_items xs i j) \<and>
        (\<forall>k\<ge>n. heap_down (swap_items xs i j) j n ! k = swap_items xs i j ! k)"
      using "1.IH" [OF j1_def _ refl j_def] False inv by (simp add: j1_def)
    then show ?thesis using False ij by (simp add: unfold nth_swap_items)
  qed
qed

lemma heap_upto_take: "heap_upto xs n \<Longrightarrow> heap_upto (take n xs) n"
  unfolding heap_upto_def
proof (intro allI impI)
  fix k assume h: "\<forall>k. 0 < k \<and> k < n \<longrightarrow> key_at xs (parent k) \<le> key_at xs k" and k: "0 < k \<and> k < n"
  moreover from k have "parent k < n" by arith
  ultimately show "key_at (take n xs) (parent k) \<le> key_at (take n xs) k" by simp
qed

text \<open>The root of a heap has the least key.\<close>

lemma heap_root_least: "heap_upto xs n \<Longrightarrow> k < n \<Longrightarrow> key_at xs 0 \<le> key_at xs k"
proof (induction k rule: less_induct)
  case (less k)
  show ?case
  proof (cases "k = 0")
    case False
    then have "parent k < k" by arith
    with less False have "key_at xs 0 \<le> key_at xs (parent k)" by simp
    also have "\<dots> \<le> key_at xs k" using less.prems False by (simp add: heap_upto_def)
    finally show ?thesis .
  qed simp
qed

section \<open>The queue is a stably ordered list\<close>

text \<open>What a ready queue promises: its contents as a list in the order it pops them.\<close>

fun stable_insert :: "string \<Rightarrow> int \<Rightarrow> (string \<times> int) list \<Rightarrow> (string \<times> int) list" where
  "stable_insert i p [] = [(i, p)]"
| "stable_insert i p ((j, r) # xs) =
     (if p > r then (i, p) # (j, r) # xs else (j, r) # stable_insert i p xs)"

locale ready_queue =
  fixes q_empty :: "'q"
    and q_push :: "'q \<Rightarrow> string \<Rightarrow> int \<Rightarrow> 'q"
    and q_pop :: "'q \<Rightarrow> string \<times> 'q"
    and q_isempty :: "'q \<Rightarrow> bool"
    and q_list :: "'q \<Rightarrow> (string \<times> int) list"
    and q_inv :: "'q \<Rightarrow> bool"
  assumes inv_empty: "q_inv q_empty"
    and list_empty: "q_list q_empty = []"
    and isempty: "q_inv q \<Longrightarrow> q_isempty q \<longleftrightarrow> q_list q = []"
    and inv_push: "q_inv q \<Longrightarrow> q_inv (q_push q i p)"
    and list_push: "q_inv q \<Longrightarrow> q_list (q_push q i p) = stable_insert i p (q_list q)"
    and pop: "q_inv q \<Longrightarrow> q_list q \<noteq> [] \<Longrightarrow> q_pop q = (i, q') \<Longrightarrow>
      q_inv q' \<and> i = fst (hd (q_list q)) \<and> q_list q' = tl (q_list q)"
begin

lemma set_stable_insert: "set (stable_insert i p xs) = insert (i, p) (set xs)"
  by (induction i p xs rule: stable_insert.induct) auto

lemma length_push: "q_inv q \<Longrightarrow> length (q_list (q_push q i p)) = Suc (length (q_list q))"
proof -
  have "length (stable_insert i p xs) = Suc (length xs)" for xs
    by (induction i p xs rule: stable_insert.induct) auto
  then show "q_inv q \<Longrightarrow> ?thesis" by (simp add: list_push)
qed

lemma ids_push: "q_inv q \<Longrightarrow> fst ` set (q_list (q_push q i p)) = insert i (fst ` set (q_list q))"
  by (simp add: list_push set_stable_insert)

lemma distinct_push:
  assumes "q_inv q" and "distinct (map fst (q_list q))" and "i \<notin> fst ` set (q_list q)"
  shows "distinct (map fst (q_list (q_push q i p)))"
proof -
  have "distinct (map fst (stable_insert i p xs))"
    if "distinct (map fst xs)" "i \<notin> fst ` set xs" for xs
    using that by (induction i p xs rule: stable_insert.induct) (auto simp: set_stable_insert)
  then show ?thesis using assms by (simp add: list_push)
qed

lemma pop_ids:
  assumes "q_inv q" and "\<not> q_isempty q" and "q_pop q = (i, q')"
  shows "q_inv q'" and "fst ` set (q_list q) = insert i (fst ` set (q_list q'))"
    and "length (q_list q) = Suc (length (q_list q'))"
    and "distinct (map fst (q_list q)) \<Longrightarrow> distinct (map fst (q_list q')) \<and> i \<notin> fst ` set (q_list q')"
proof -
  have ne: "q_list q \<noteq> []" using assms(1,2) by (simp add: isempty)
  then obtain x xs where x: "q_list q = x # xs" by (cases "q_list q") auto
  from pop [OF assms(1) ne assms(3)] have "q_inv q'" "i = fst x" "q_list q' = xs" by (auto simp: x)
  then show "q_inv q'" and "fst ` set (q_list q) = insert i (fst ` set (q_list q'))"
    and "length (q_list q) = Suc (length (q_list q'))"
    and "distinct (map fst (q_list q)) \<Longrightarrow> distinct (map fst (q_list q')) \<and> i \<notin> fst ` set (q_list q')"
    by (auto simp: x)
qed

text \<open>The list stays ordered by descending priority.\<close>

lemma sorted_push:
  assumes "q_inv q" and "sorted_wrt (\<ge>) (map snd (q_list q))"
  shows "sorted_wrt (\<ge>) (map snd (q_list (q_push q i p)))"
proof -
  have "sorted_wrt (\<ge>) (map snd (stable_insert i p xs))" if "sorted_wrt (\<ge>) (map snd xs)" for xs
    using that by (induction i p xs rule: stable_insert.induct) (auto simp: set_stable_insert)
  then show ?thesis using assms by (simp add: list_push)
qed

end

definition pq_inv :: "priority_queue \<Rightarrow> bool" where
  "pq_inv q \<longleftrightarrow> heap_upto (pq_items q) (length (pq_items q)) \<and>
     distinct (map pi_order (pq_items q)) \<and> (\<forall>x\<in>set (pq_items q). pi_order x < pq_seq q)"

definition pq_list :: "priority_queue \<Rightarrow> (string \<times> int) list" where
  "pq_list q = map (\<lambda>x. (pi_nodeID x, pi_priority x)) (sort_key item_key (pq_items q))"

text \<open>A list of items with distinct orders has one ascending arrangement.\<close>

lemma sort_key_item_unique:
  assumes "mset ys = mset xs" and "distinct (map pi_order xs)" and "sorted (map item_key ys)"
  shows "sort_key item_key xs = ys"
proof (rule properties_for_sort_key [OF assms(1) _ assms(3)])
  have "inj_on pi_order (set xs)" using assms(2) by (simp add: distinct_map)
  then have inj: "inj_on item_key (set xs)" by (auto simp: inj_on_def item_key_def)
  have sets: "set ys = set xs" using assms(1) by (rule mset_eq_setD)
  have d: "distinct xs" "distinct ys"
    using assms(1,2) distinct_map mset_eq_imp_distinct_iff by blast+
  fix k assume "k \<in> set ys"
  have one: "filter (\<lambda>x. item_key k = item_key x) zs = [k]" if "distinct zs" "set zs = set xs" for zs
  proof -
    have "distinct (filter (\<lambda>x. item_key k = item_key x) zs)" using that by simp
    moreover have "set (filter (\<lambda>x. item_key k = item_key x) zs) = {k}"
      using that inj sets \<open>k \<in> set ys\<close> by (auto simp: inj_on_def)
    ultimately show ?thesis by (rule distinct_singleton_set)
  qed
  show "filter (\<lambda>x. item_key k = item_key x) ys = filter (\<lambda>x. item_key k = item_key x) xs"
    using one [OF d(1) refl] one [OF d(2) sets] by simp
qed

lemma insort_stable_insert:
  assumes "\<forall>y\<in>set ys. pi_order y < pi_order x"
  shows "map (\<lambda>y. (pi_nodeID y, pi_priority y)) (insort_key item_key x ys) =
    stable_insert (pi_nodeID x) (pi_priority x) (map (\<lambda>y. (pi_nodeID y, pi_priority y)) ys)"
  using assms by (induction ys) (auto simp: item_key_def less_eq_prod_def)

lemma pq_push_props:
  assumes "pq_inv q"
  shows "pq_inv (pq_push q i p)" and "pq_list (pq_push q i p) = stable_insert i p (pq_list q)"
proof -
  define x where "x = \<lparr>pi_nodeID = i, pi_priority = p, pi_order = pq_seq q\<rparr>"
  let ?xs = "pq_items q @ [x]"
  let ?ys = "heap_up ?xs (length (pq_items q))"
  have push: "pq_push q i p = \<lparr>pq_items = ?ys, pq_seq = pq_seq q + 1\<rparr>"
    by (simp add: pq_push_def Let_def x_def)
  have "up_inv ?xs (length (pq_items q))"
    unfolding up_inv_def
  proof (intro conjI allI impI)
    fix k assume "0 < k \<and> k < length ?xs \<and> k \<noteq> length (pq_items q)"
    then show "key_at ?xs (parent k) \<le> key_at ?xs k"
      using assms by (simp add: pq_inv_def heap_upto_def nth_append) arith
  next
    fix k assume "0 < k \<and> k < length ?xs \<and> parent k = length (pq_items q) \<and> 0 < length (pq_items q)"
    moreover from this have "parent k < k" by arith
    ultimately have False by simp
    then show "key_at ?xs (parent (length (pq_items q))) \<le> key_at ?xs k" ..
  qed simp
  then have ys: "heap_upto ?ys (length ?xs)" "mset ?ys = mset ?xs"
    using heap_up_correct by blast+
  have len: "length ?ys = length ?xs" and set: "set ?ys = set ?xs"
    using ys(2) by (metis size_mset, metis mset_eq_setD)
  have "pi_order x \<notin> pi_order ` set (pq_items q)" using assms by (auto simp: pq_inv_def x_def)
  then have dx: "distinct (map pi_order ?xs)" using assms by (auto simp: pq_inv_def)
  then have dy: "distinct (map pi_order ?ys)"
    using ys(2) by (metis mset_eq_imp_distinct_iff mset_map)
  show "pq_inv (pq_push q i p)"
    using ys(1) dy len set assms by (auto simp: push pq_inv_def x_def)
  have "sort_key item_key ?ys = insort_key item_key x (sort_key item_key (pq_items q))"
    using dy ys(2) by (intro sort_key_item_unique) (simp_all add: sorted_insort_key)
  then show "pq_list (pq_push q i p) = stable_insert i p (pq_list q)"
    using insort_stable_insert [of "sort_key item_key (pq_items q)" x] assms
    by (simp add: push pq_list_def pq_inv_def) (simp add: x_def)
qed

lemma pq_pop_props:
  assumes "pq_inv q" and "pq_items q \<noteq> []" and "pq_pop q = (i, q')"
  shows "pq_inv q'" and "\<exists>p. pq_list q = (i, p) # pq_list q'"
proof -
  define n where "n = length (pq_items q) - 1"
  let ?xs = "swap_items (pq_items q) 0 n"
  let ?ys = "heap_down ?xs 0 n"
  have len: "length (pq_items q) = Suc n" using assms(2) by (simp add: n_def)
  then have ln: "0 < length (pq_items q)" "n < length (pq_items q)" by simp_all
  have "down_inv ?xs 0 n"
    unfolding down_inv_def
  proof (intro conjI allI impI)
    fix k assume "0 < k \<and> k < n \<and> parent k \<noteq> 0"
    moreover from this have "0 < parent k" "parent k < k" by arith+
    ultimately show "key_at ?xs (parent k) \<le> key_at ?xs k"
      using assms(1) len by (simp add: nth_swap_items [OF ln] pq_inv_def heap_upto_def)
  qed (use len in auto)
  then have ys: "heap_upto ?ys n" "mset ?ys = mset (pq_items q)" "?ys ! n = pq_items q ! 0"
    using heap_down_correct [of ?xs 0 n] nth_swap_items [OF ln] mset_swap_items [OF ln] by auto
  let ?r = "pq_items q ! 0" and ?rest = "take n ?ys"
  have leny: "length ?ys = Suc n" using ys(2) len by (metis size_mset)
  then have "?ys = ?rest @ [?r]" using ys(3) take_Suc_conv_app_nth [of n ?ys] by simp
  then have "mset ?ys = mset (?rest @ [?r])" by (rule arg_cong)
  then have m: "mset (pq_items q) = mset (?r # ?rest)" using ys(2) by simp
  have q': "i = pi_nodeID ?r" "q' = q\<lparr>pq_items := ?rest\<rparr>"
    using assms(3) ys(3) by (auto simp: pq_pop_def Let_def n_def)
  have d: "distinct (map pi_order (?r # ?rest))"
  proof -
    have "mset (map pi_order (pq_items q)) = mset (map pi_order (?r # ?rest))"
      using m by (simp only: mset_map)
    moreover have "distinct (map pi_order (pq_items q))" using assms(1) by (simp add: pq_inv_def)
    ultimately show ?thesis using mset_eq_imp_distinct_iff by blast
  qed
  have sets: "set (pq_items q) = set (?r # ?rest)" using m by (rule mset_eq_setD)
  have "heap_upto ?rest n" using ys(1) by (rule heap_upto_take)
  moreover have "\<forall>x\<in>set ?rest. pi_order x < pq_seq q"
    using assms(1) unfolding pq_inv_def sets by simp
  ultimately show "pq_inv q'" using d leny by (simp add: q' pq_inv_def)
  have "key_at (pq_items q) 0 \<le> item_key y" if "y \<in> set ?rest" for y
  proof -
    have "y \<in> set (pq_items q)" using that unfolding sets by simp
    then obtain k where k: "k < length (pq_items q)" "pq_items q ! k = y"
      by (auto simp: in_set_conv_nth)
    have "heap_upto (pq_items q) (length (pq_items q))" using assms(1) by (simp add: pq_inv_def)
    from heap_root_least [OF this k(1)] show ?thesis unfolding k(2) .
  qed
  then have "sort_key item_key (pq_items q) = ?r # sort_key item_key ?rest"
    using m assms(1) by (intro sort_key_item_unique) (simp_all add: pq_inv_def)
  then show "\<exists>p. pq_list q = (i, p) # pq_list q'" by (simp add: pq_list_def q')
qed

lemma pq_list_Nil: "pq_list q = [] \<longleftrightarrow> pq_items q = []"
  by (metis (no_types) length_0_conv length_map length_sort pq_list_def)

lemma pq_new_props: "pq_inv newPriorityQueue" "pq_list newPriorityQueue = []"
  by (simp_all add: pq_inv_def pq_list_def newPriorityQueue_def heap_upto_def)

interpretation heapq: ready_queue newPriorityQueue pq_push pq_pop pq_empty pq_list pq_inv
proof unfold_locales
  fix q q' :: priority_queue and i :: string
  assume "pq_inv q" "pq_list q \<noteq> []" "pq_pop q = (i, q')"
  then show "pq_inv q' \<and> i = fst (hd (pq_list q)) \<and> pq_list q' = tl (pq_list q)"
    using pq_pop_props [of q i q'] by (auto simp: pq_list_Nil)
qed (simp_all add: pq_push_props pq_list_Nil pq_empty_def pq_new_props)

section \<open>The queue refines its specification\<close>

text \<open>The specification: a list kept in descending priority, first come first served.\<close>

datatype pq_op = Push string int | Pop

fun pq_exec :: "pq_op list \<Rightarrow> priority_queue \<Rightarrow> string list" where
  "pq_exec [] q = []"
| "pq_exec (Push i p # ops) q = pq_exec ops (pq_push q i p)"
| "pq_exec (Pop # ops) q =
     (if pq_empty q then pq_exec ops q else (case pq_pop q of (i, q') \<Rightarrow> i # pq_exec ops q'))"

fun spec_exec :: "pq_op list \<Rightarrow> (string \<times> int) list \<Rightarrow> string list" where
  "spec_exec [] xs = []"
| "spec_exec (Push i p # ops) xs = spec_exec ops (stable_insert i p xs)"
| "spec_exec (Pop # ops) [] = spec_exec ops []"
| "spec_exec (Pop # ops) (x # xs) = fst x # spec_exec ops xs"

lemma pq_exec_spec: "pq_inv q \<Longrightarrow> pq_exec ops q = spec_exec ops (pq_list q)"
proof (induction ops arbitrary: q)
  case (Cons a ops)
  show ?case
  proof (cases a)
    case (Push i p)
    then show ?thesis using Cons heapq.inv_push heapq.list_push by simp
  next
    case Pop
    obtain i q' where p: "pq_pop q = (i, q')" by (rule prod.exhaust)
    show ?thesis
    proof (cases "pq_list q")
      case Nil
      then have "pq_empty q" using heapq.isempty [OF Cons.prems] by simp
      then show ?thesis using Cons Pop Nil by simp
    next
      case (Cons x xs)
      then have "\<not> pq_empty q" using heapq.isempty [OF Cons.prems] by simp
      moreover have "pq_inv q' \<and> i = fst x \<and> pq_list q' = xs"
        using heapq.pop [OF Cons.prems _ p] Cons by simp
      ultimately show ?thesis using Cons.IH [of q'] Pop p Cons by simp
    qed
  qed
qed simp

text \<open>
  C23. The binary heap refines the queue the scheduler relies on: any sequence of pushes and pops on
  a new queue, popping when it is empty included, answers the nodes that a list kept in descending
  priority would answer, nodes of equal priority in the order they were pushed.
\<close>

theorem ready_queue_refines:
  "pq_exec ops newPriorityQueue = spec_exec ops []"
  using pq_exec_spec [of newPriorityQueue ops] by (simp add: pq_new_props)


end
