(* ===== verification/DagExec.thy ===== *)
theory DagExec
  imports Attempts Aggregate CriticalPath ReadyQueue "HOL-Library.Monad_Syntax"
begin

text \<open>
  The executor of \<open>orchestrate/dag.go\<close>. The main goroutine (\<open>run\<close>) and the goroutines of
  the nodes are the steps of one relation: they share the buffered channel \<open>doneCh\<close>, the slot
  semaphore and the context, and nothing else of the executor, which only the main goroutine
  writes. A handler that the main goroutine runs without waiting for the others is one function.
  Runners, conditions, mappers, aggregators, the checkpoint store and the event handler are
  parameters; the calls of the event handler and of the timeline are kept as logs.
\<close>

section \<open>Configuration\<close>

record ('m, 'u, 'd, 's) checkpoint_store =
  cs_Save :: "'s \<Rightarrow> string \<Rightarrow> string \<Rightarrow> ('m, 'u, 'd) run_response option \<Rightarrow> 's \<times> go_error option"
  cs_LoadAll :: "'s \<Rightarrow> string \<Rightarrow> go_error + ('m, 'u, 'd) entries"

record ('m, 'u, 'd, 's) dag_config =
  c_MaxConcurrency :: int
  c_ErrorStrategy :: error_strategy
  c_EarlyExitFunc :: "(string \<Rightarrow> ('m, 'u, 'd) run_response option \<Rightarrow> bool) option"
  c_Aggregator :: "('m, 'u, 'd) agg_fun option"
  c_CheckpointStore :: "('m, 'u, 'd, 's) checkpoint_store option"
  c_ReplayMode :: bool
  c_PriorityScheduling :: bool
  c_CriticalPathAuto :: bool
  c_Backpressure :: bool
  c_CompensateCfg :: "compensate_config option"
  c_EventHandler :: bool

text \<open>
  What an execution does not change: the configuration, the nodes, the request, and what the
  outside answers: the usage arithmetic, the behaviours a node's runner may show on a request,
  the re-run of a runner and the rollback of a node.
\<close>

record ('m, 'u, 'o, 'd, 's) dag_env =
  e_cfg :: "('m, 'u, 'd, 's) dag_config"
  e_nodes :: "('m, 'u, 'o, 'd) node list"
  e_req :: "('m, 'o, 'd) run_request"
  e_usage_zero :: 'u
  e_usage_add :: "'u \<Rightarrow> 'u \<Rightarrow> 'u"
  e_run :: "string \<Rightarrow> ('m, 'o, 'd) run_request option \<Rightarrow> ('m, 'u, 'd) attempt_env \<Rightarrow> bool"
  e_forward :: "string \<Rightarrow> ('m, 'o, 'd) run_request option \<Rightarrow> ('m, 'u, 'd) attempt_env"
  e_comp :: "string \<Rightarrow> comp_env"

definition ids_of :: "('m, 'u, 'o, 'd, 's) dag_env \<Rightarrow> string list" where
  "ids_of env = map n_ID (e_nodes env)"

definition downstream :: "('m, 'u, 'o, 'd, 's) dag_env \<Rightarrow> string \<Rightarrow> string list" where
  "downstream env = downstream_of (graph_of (e_nodes env))"

definition terminal :: "('m, 'u, 'o, 'd, 's) dag_env \<Rightarrow> string \<Rightarrow> bool" where
  "terminal env i \<longleftrightarrow> i \<in> set (ids_of env) \<and> length (downstream env i) = 0"

section \<open>State\<close>

record ('m, 'o, 'd) goroutine =
  g_id :: string
  g_req :: "('m, 'o, 'd) run_request option"
  g_acquired :: bool

datatype exec_event =
    OnNodeStart string
  | OnNodeComplete string node_status "go_error option"
  | OnCheckpointError string go_error

datatype timeline_call = RecordStart string | RecordEnd string node_status

datatype drain_goal =
    FailWith go_error
  | CompensateThenFail go_error
  | EarlyExit

text \<open>
  Where the main goroutine is: in its select loop, in \<open>drainDoneCh\<close> with a number of
  completions to go, or back from \<open>run\<close> with the error it returned.
\<close>

datatype main_pc = Looping | Draining nat drain_goal | Returned "go_error option"

record ('m, 'u, 'o, 'd, 's) exec =
  x_status :: "string \<Rightarrow> node_status"
  x_results :: "('m, 'u, 'd) results"
  x_inDegree :: "string \<Rightarrow> int"
  x_pending :: int
  x_pq :: "priority_queue option"
  x_activePQ :: int
  x_flight :: "('m, 'o, 'd) goroutine list"
  x_releasing :: nat
  x_doneCh :: "('m, 'u, 'd) completion list"
  x_ctx :: "go_error option"
  x_totalUsage :: "'u option"
  x_store :: 's
  x_events :: "exec_event list"
  x_timeline :: "timeline_call list"
  x_outUsage :: "'u option"
  x_finalOutput :: "('m, 'u, 'd) run_response option"
  x_pc :: main_pc

definition emit :: "('m, 'u, 'o, 'd, 's) dag_env \<Rightarrow> exec_event
      \<Rightarrow> ('m, 'u, 'o, 'd, 's) exec \<Rightarrow> ('m, 'u, 'o, 'd, 's) exec" where
  "emit env ev s =
     (if c_EventHandler (e_cfg env) then s\<lparr>x_events := x_events s @ [ev]\<rparr> else s)"

definition set_status :: "string \<Rightarrow> node_status
      \<Rightarrow> ('m, 'u, 'o, 'd, 's) exec \<Rightarrow> ('m, 'u, 'o, 'd, 's) exec" where
  "set_status i st s = s\<lparr>x_status := (x_status s)(i := st)\<rparr>"

definition record_call :: "timeline_call
      \<Rightarrow> ('m, 'u, 'o, 'd, 's) exec \<Rightarrow> ('m, 'u, 'o, 'd, 's) exec" where
  "record_call c s = s\<lparr>x_timeline := x_timeline s @ [c]\<rparr>"

definition saveCheckpoint :: "('m, 'u, 'o, 'd, 's) dag_env \<Rightarrow> string \<Rightarrow> ('m, 'u, 'd) run_response option
      \<Rightarrow> ('m, 'u, 'o, 'd, 's) exec \<Rightarrow> ('m, 'u, 'o, 'd, 's) exec" where
  "saveCheckpoint env i resp s =
     (case c_CheckpointStore (e_cfg env) of
        None \<Rightarrow> s
      | Some cs \<Rightarrow>
          (case cs_Save cs (x_store s) (q_sessionID (e_req env)) i resp of
             (store', err) \<Rightarrow>
               (let s' = s\<lparr>x_store := store'\<rparr> in
                case err of None \<Rightarrow> s' | Some e \<Rightarrow> emit env (OnCheckpointError i e) s')))"

definition countRunning :: "('m, 'u, 'o, 'd, 's) dag_env \<Rightarrow> ('m, 'u, 'o, 'd, 's) exec \<Rightarrow> nat" where
  "countRunning env s = length (filter (\<lambda>i. x_status s i = NodeRunning) (ids_of env))"

section \<open>Scheduling\<close>

definition launch :: "string \<Rightarrow> ('m, 'o, 'd) run_request option
      \<Rightarrow> ('m, 'u, 'o, 'd, 's) exec \<Rightarrow> ('m, 'u, 'o, 'd, 's) exec" where
  "launch i req s =
     (let s1 = record_call (RecordStart i) (set_status i NodeRunning s) in
      s1\<lparr>x_flight := x_flight s1 @ [\<lparr>g_id = i, g_req = req, g_acquired = False\<rparr>]\<rparr>)"

definition skip_node :: "string \<Rightarrow> ('m, 'u, 'o, 'd, 's) exec \<Rightarrow> ('m, 'u, 'o, 'd, 's) exec" where
  "skip_node i s =
     (let s1 = set_status i NodeSkipped s; s2 = s1\<lparr>x_pending := x_pending s1 - 1\<rparr> in
      record_call (RecordEnd i NodeSkipped) (record_call (RecordStart i) s2))"

definition condition_false :: "('m, 'u, 'o, 'd) node \<Rightarrow> ('m, 'u, 'd) results \<Rightarrow> bool" where
  "condition_false node results =
     (case n_Condition node of
        None \<Rightarrow> False | Some cond \<Rightarrow> \<not> cond (upstream_of (n_Deps node) results))"

text \<open>
  The three methods call each other; the fuel bounds the nesting of \<open>enqueueReady\<close>. The value
  \<open>None\<close> stands for running out of it, or for the nil dereference of an unknown node.
\<close>

function propagate :: "('m, 'u, 'o, 'd, 's) dag_env \<Rightarrow> nat \<Rightarrow> string list
      \<Rightarrow> ('m, 'u, 'o, 'd, 's) exec \<Rightarrow> ('m, 'u, 'o, 'd, 's) exec option"
  and scheduleReady :: "('m, 'u, 'o, 'd, 's) dag_env \<Rightarrow> nat \<Rightarrow> string
      \<Rightarrow> ('m, 'u, 'o, 'd, 's) exec \<Rightarrow> ('m, 'u, 'o, 'd, 's) exec option"
  and enqueueReady :: "('m, 'u, 'o, 'd, 's) dag_env \<Rightarrow> nat \<Rightarrow> string
      \<Rightarrow> ('m, 'u, 'o, 'd, 's) exec \<Rightarrow> ('m, 'u, 'o, 'd, 's) exec option" where
  "propagate env k [] s = Some s"
| "propagate env k (d # ds) s =
     (let s1 = s\<lparr>x_inDegree := (x_inDegree s)(d := x_inDegree s d - 1)\<rparr> in
      if x_inDegree s1 d = 0 \<and> x_status s1 d = NodePending
      then (case enqueueReady env k d s1 of None \<Rightarrow> None | Some s2 \<Rightarrow> propagate env k ds s2)
      else propagate env k ds s1)"
| "scheduleReady env k i s =
     (case node_of (e_nodes env) i of
        None \<Rightarrow> None
      | Some node \<Rightarrow>
          if c_ReplayMode (e_cfg env) \<and> c_CheckpointStore (e_cfg env) \<noteq> None \<and>
             x_status s i = NodeDone
          then propagate env k (downstream env i) (s\<lparr>x_pending := x_pending s - 1\<rparr>)
          else if condition_false node (x_results s)
          then propagate env k (downstream env i) (skip_node i s)
          else (case buildNodeInput node (e_req env) (x_results s) of
                  Inl err \<Rightarrow>
                    (let s1 = set_status i NodeRunning s in
                     Some (s1\<lparr>x_doneCh := x_doneCh s1 @ [failed i err]\<rparr>))
                | Inr nodeReq \<Rightarrow> Some (launch i nodeReq (emit env (OnNodeStart i) s))))"
| "enqueueReady env 0 i s = None"
| "enqueueReady env (Suc k) i s =
     (case x_pq s of
        Some q \<Rightarrow>
          (case node_of (e_nodes env) i of
             None \<Rightarrow> None
           | Some node \<Rightarrow> Some (s\<lparr>x_pq := Some (pq_push q i (n_Priority node))\<rparr>))
      | None \<Rightarrow> scheduleReady env k i s)"
  by pat_completeness auto
termination
  by (relation "measures
    [\<lambda>x. case x of Inl (env, k, ds, s) \<Rightarrow> k | Inr (Inl (env, k, i, s)) \<Rightarrow> k | Inr (Inr (env, k, i, s)) \<Rightarrow> k,
     \<lambda>x. case x of Inl (env, k, ds, s) \<Rightarrow> 1 | Inr (Inl (env, k, i, s)) \<Rightarrow> 2 | Inr (Inr (env, k, i, s)) \<Rightarrow> 0,
     \<lambda>x. case x of Inl (env, k, ds, s) \<Rightarrow> length ds | _ \<Rightarrow> 0]") auto

definition sched_fuel :: "('m, 'u, 'o, 'd, 's) dag_env \<Rightarrow> nat" where
  "sched_fuel env = length (e_nodes env)"

definition propagateDownstream :: "('m, 'u, 'o, 'd, 's) dag_env \<Rightarrow> string
      \<Rightarrow> ('m, 'u, 'o, 'd, 's) exec \<Rightarrow> ('m, 'u, 'o, 'd, 's) exec option" where
  "propagateDownstream env i s = propagate env (sched_fuel env) (downstream env i) s"

text \<open>The loop of \<open>drainPQ\<close>, with fuel for the number of nodes it takes off the queue.\<close>

definition may_launch :: "('m, 'u, 'o, 'd, 's) dag_env \<Rightarrow> ('m, 'u, 'o, 'd, 's) exec \<Rightarrow> bool" where
  "may_launch env s \<longleftrightarrow>
     (let maxActive = max (c_MaxConcurrency (e_cfg env)) 0 in
      \<not> (maxActive > 0 \<and> x_activePQ s \<ge> maxActive))"

fun drain_loop :: "('m, 'u, 'o, 'd, 's) dag_env \<Rightarrow> nat
      \<Rightarrow> ('m, 'u, 'o, 'd, 's) exec \<Rightarrow> ('m, 'u, 'o, 'd, 's) exec option" where
  "drain_loop env k s =
     (case x_pq s of
        None \<Rightarrow> Some s
      | Some q \<Rightarrow>
          if pq_empty q \<or> \<not> may_launch env s then Some s
          else (case k of
                  0 \<Rightarrow> None
                | Suc k' \<Rightarrow>
                    (case pq_pop q of (i, q') \<Rightarrow>
                       (case scheduleReady env (sched_fuel env) i (s\<lparr>x_pq := Some q'\<rparr>) of
                          None \<Rightarrow> None
                        | Some s1 \<Rightarrow>
                            drain_loop env k'
                              (if x_status s1 i = NodeRunning
                               then s1\<lparr>x_activePQ := x_activePQ s1 + 1\<rparr> else s1)))))"

declare drain_loop.simps [simp del]

definition drainPQ :: "('m, 'u, 'o, 'd, 's) dag_env
      \<Rightarrow> ('m, 'u, 'o, 'd, 's) exec \<Rightarrow> ('m, 'u, 'o, 'd, 's) exec option" where
  "drainPQ env s = drain_loop env (length (e_nodes env)) s"

section \<open>Handling a completion\<close>

definition add_usage :: "('m, 'u, 'o, 'd, 's) dag_env \<Rightarrow> ('m, 'u, 'd) run_response option
      \<Rightarrow> ('m, 'u, 'o, 'd, 's) exec \<Rightarrow> ('m, 'u, 'o, 'd, 's) exec" where
  "add_usage env resp s =
     (case resp of
        None \<Rightarrow> s
      | Some r \<Rightarrow>
          (case r_usage r of
             None \<Rightarrow> s
           | Some u \<Rightarrow>
               s\<lparr>x_totalUsage := Some (e_usage_add env
                  (case x_totalUsage s of None \<Rightarrow> e_usage_zero env | Some t \<Rightarrow> t) u)\<rparr>))"

definition set_result :: "string \<Rightarrow> ('m, 'u, 'd) run_response option
      \<Rightarrow> ('m, 'u, 'o, 'd, 's) exec \<Rightarrow> ('m, 'u, 'o, 'd, 's) exec" where
  "set_result i resp s = s\<lparr>x_results := (x_results s)(i := resp)\<rparr>"

text \<open>
  \<open>abort\<close> up to its first channel receive: the context is cancelled (cancelling again changes
  nothing) and the running completions are to be drained.
\<close>

definition cancel :: "('m, 'u, 'o, 'd, 's) exec \<Rightarrow> ('m, 'u, 'o, 'd, 's) exec" where
  "cancel s = (case x_ctx s of None \<Rightarrow> s\<lparr>x_ctx := Some Canceled\<rparr> | Some e \<Rightarrow> s)"

definition start_abort :: "nat \<Rightarrow> drain_goal
      \<Rightarrow> ('m, 'u, 'o, 'd, 's) exec \<Rightarrow> ('m, 'u, 'o, 'd, 's) exec" where
  "start_abort running goal s = (cancel s)\<lparr>x_pc := Draining running goal\<rparr>"

text \<open>The tail of every branch that goes on: downstream nodes, then the queue.\<close>

definition proceed :: "('m, 'u, 'o, 'd, 's) dag_env \<Rightarrow> string
      \<Rightarrow> ('m, 'u, 'o, 'd, 's) exec \<Rightarrow> ('m, 'u, 'o, 'd, 's) exec option" where
  "proceed env i s =
     (case propagateDownstream env i s of None \<Rightarrow> None | Some s1 \<Rightarrow> drainPQ env s1)"

definition node_failed :: "string \<Rightarrow> go_error option \<Rightarrow> go_error" where
  "node_failed i err = Errorf ''orchestrate: node %q failed: %w'' [AStr i] err"

text \<open>The forward recovery a failed node gets: its response, if there is one.\<close>

definition recover_node :: "('m, 'u, 'o, 'd, 's) dag_env \<Rightarrow> compensate_config \<Rightarrow> ('m, 'u, 'o, 'd) node
      \<Rightarrow> go_error \<Rightarrow> ('m, 'u, 'd) results \<Rightarrow> ('m, 'u, 'd) run_response option" where
  "recover_node env ccfg node err results =
     (if cc_Strategy ccfg = ForwardRecovery \<and> \<not> errors_is err ErrInterruptedRunner
      then (case buildNodeInput node (e_req env) results of
              Inl e \<Rightarrow> None
            | Inr nodeReq \<Rightarrow>
                (case executeForwardRecovery ccfg node (e_forward env (n_ID node) nodeReq) of
                   Inl e \<Rightarrow> None | Inr resp \<Rightarrow> Some resp))
      else None)"

definition handleNodeError :: "('m, 'u, 'o, 'd, 's) dag_env \<Rightarrow> string \<Rightarrow> go_error
      \<Rightarrow> ('m, 'u, 'o, 'd, 's) exec \<Rightarrow> ('m, 'u, 'o, 'd, 's) exec option" where
  "handleNodeError env i err s =
     (let s1 = emit env (OnNodeComplete i NodeFailed (Some err)) (set_status i NodeFailed s) in
      case node_of (e_nodes env) i of
        None \<Rightarrow> None
      | Some node \<Rightarrow>
          (case (c_ErrorStrategy (e_cfg env), c_CompensateCfg (e_cfg env)) of
             (Compensate, Some ccfg) \<Rightarrow>
               (case recover_node env ccfg node err (x_results s1) of
                  Some resp \<Rightarrow>
                    (let s2 = emit env (OnNodeComplete i NodeDone None)
                           (set_result i (Some resp) (set_status i NodeDone s1));
                         s3 = saveCheckpoint env i (Some resp) (add_usage env (Some resp) s2)
                     in proceed env i (record_call (RecordEnd i NodeDone) s3))
                | None \<Rightarrow>
                    Some (start_abort (countRunning env s1)
                            (CompensateThenFail (node_failed i (Some err))) s1))
           | _ \<Rightarrow>
               (if c_ErrorStrategy (e_cfg env) = Abort \<or> \<not> n_Optional node
                then Some (start_abort (countRunning env s1) (FailWith (node_failed i (Some err))) s1)
                else proceed env i (set_status i NodeSkipped s1))))"

definition handleNodeSuccess :: "('m, 'u, 'o, 'd, 's) dag_env \<Rightarrow> string \<Rightarrow> ('m, 'u, 'd) run_response option
      \<Rightarrow> ('m, 'u, 'o, 'd, 's) exec \<Rightarrow> ('m, 'u, 'o, 'd, 's) exec option" where
  "handleNodeSuccess env i resp s =
     (let s1 = emit env (OnNodeComplete i NodeDone None)
                 (set_result i resp (set_status i NodeDone s));
          s2 = saveCheckpoint env i resp (add_usage env resp s1) in
      if (case c_EarlyExitFunc (e_cfg env) of None \<Rightarrow> False | Some f \<Rightarrow> f i resp)
      then Some (start_abort (countRunning env s2) EarlyExit s2)
      else (case x_ctx s2 of
              Some e \<Rightarrow> Some (start_abort (countRunning env s2) (FailWith e) s2)
            | None \<Rightarrow> proceed env i s2))"

definition handleCompletion :: "('m, 'u, 'o, 'd, 's) dag_env \<Rightarrow> ('m, 'u, 'd) completion
      \<Rightarrow> ('m, 'u, 'o, 'd, 's) exec \<Rightarrow> ('m, 'u, 'o, 'd, 's) exec option" where
  "handleCompletion env c s =
     (let s1 = (if x_pq s \<noteq> None then s\<lparr>x_activePQ := x_activePQ s - 1\<rparr> else s) in
      case nc_err c of
        Some err \<Rightarrow> handleNodeError env (nc_nodeID c) err s1
      | None \<Rightarrow> handleNodeSuccess env (nc_nodeID c) (nc_resp c) s1)"

section \<open>The result\<close>

definition done_results :: "('m, 'u, 'o, 'd, 's) exec \<Rightarrow> string list \<Rightarrow> ('m, 'u, 'd) entries" where
  "done_results s is = map (\<lambda>i. (i, x_results s i)) (filter (\<lambda>i. x_status s i = NodeDone) is)"

definition term_results :: "('m, 'u, 'o, 'd, 's) dag_env \<Rightarrow> ('m, 'u, 'o, 'd, 's) exec
      \<Rightarrow> ('m, 'u, 'd) entries" where
  "term_results env s =
     (let rs = done_results s (filter (terminal env) (ids_of env)) in
      if length rs = 0 then done_results s (ids_of env) else rs)"

definition finalize :: "('m, 'u, 'o, 'd, 's) dag_env
      \<Rightarrow> ('m, 'u, 'o, 'd, 's) exec \<Rightarrow> ('m, 'u, 'o, 'd, 's) exec" where
  "finalize env s =
     (let s1 = s\<lparr>x_outUsage := x_totalUsage s\<rparr>;
          agg = (case c_Aggregator (e_cfg env) of None \<Rightarrow> concatMessagesAggregate | Some a \<Rightarrow> a) in
      case agg (term_results env s1) of
        Inl err \<Rightarrow>
          s1\<lparr>x_pc := Returned (Some (Errorf ''orchestrate: aggregation failed: %w'' [] (Some err)))\<rparr>
      | Inr out \<Rightarrow> s1\<lparr>x_finalOutput := out, x_pc := Returned None\<rparr>)"

text \<open>What is left of \<open>abort\<close>, and of the branch that called it, once the drain is over.\<close>

definition finish_abort :: "('m, 'u, 'o, 'd, 's) dag_env \<Rightarrow> drain_goal
      \<Rightarrow> ('m, 'u, 'o, 'd, 's) exec \<Rightarrow> ('m, 'u, 'o, 'd, 's) exec option" where
  "finish_abort env goal s =
     (case goal of
        FailWith e \<Rightarrow> Some (s\<lparr>x_outUsage := x_totalUsage s, x_pc := Returned (Some e)\<rparr>)
      | EarlyExit \<Rightarrow> Some (finalize env s)
      | CompensateThenFail e \<Rightarrow>
          (case c_CompensateCfg (e_cfg env) of
             None \<Rightarrow> None
           | Some ccfg \<Rightarrow>
               (case executeBackwardCompensation ccfg (e_nodes env) (x_results s) (e_comp env) (x_status s) of
                  None \<Rightarrow> None
                | Some (err, status', calls) \<Rightarrow>
                    Some (s\<lparr>x_status := status', x_outUsage := x_totalUsage s,
                            x_pc := Returned (Some e)\<rparr>))))"

section \<open>Starting an execution\<close>

text \<open>Nodes without a priority of their own get the one of the critical path.\<close>

definition with_priorities :: "('m, 'u, 'd, 's) dag_config \<Rightarrow> ('m, 'u, 'o, 'd) node list
      \<Rightarrow> ('m, 'u, 'o, 'd) node list option" where
  "with_priorities cfg nodes =
     (if c_PriorityScheduling cfg \<and> c_CriticalPathAuto cfg
      then map_option (\<lambda>cp. map (\<lambda>n. if n_Priority n = 0
                 then n\<lparr>n_Priority := (case cp (n_ID n) of None \<Rightarrow> 0 | Some p \<Rightarrow> p)\<rparr> else n) nodes)
             (ComputeCriticalPath (graph_of nodes))
      else Some nodes)"

text \<open>The checkpointed entries of known nodes are adopted; the others stay pending.\<close>

definition resumed :: "('m, 'u, 'o, 'd, 's) dag_env \<Rightarrow> ('m, 'u, 'd) entries \<Rightarrow> string \<Rightarrow> bool" where
  "resumed env data i \<longleftrightarrow> i \<in> set (ids_of env) \<and> i \<in> fst ` set data"

definition dec_all :: "string list \<Rightarrow> (string \<Rightarrow> int) \<Rightarrow> string \<Rightarrow> int" where
  "dec_all = fold (\<lambda>d m. m(d := m d - 1))"

definition initial :: "('m, 'u, 'o, 'd, 's) dag_env \<Rightarrow> ('m, 'u, 'd) entries \<Rightarrow> 's
      \<Rightarrow> ('m, 'u, 'o, 'd, 's) exec" where
  "initial env data store =
     (let is = ids_of env;
          status = (\<lambda>i. if resumed env data i then NodeDone else NodePending) in
      \<lparr>x_status = status,
       x_results = (\<lambda>i. if resumed env data i then entry data i else None),
       x_inDegree = fold (\<lambda>i m. if status i = NodeDone then dec_all (downstream env i) m else m) is
         (in_degree_of (graph_of (e_nodes env))),
       x_pending = int (length (filter (\<lambda>i. status i = NodePending) is)),
       x_pq = (if c_PriorityScheduling (e_cfg env) then Some newPriorityQueue else None),
       x_activePQ = 0, x_flight = [], x_releasing = 0, x_doneCh = [], x_ctx = None,
       x_totalUsage = None, x_store = store, x_events = [], x_timeline = [], x_outUsage = None,
       x_finalOutput = None, x_pc = Looping\<rparr>)"

definition newDagExecutor :: "('m, 'u, 'o, 'd, 's) dag_env \<Rightarrow> 's
      \<Rightarrow> (go_error + ('m, 'u, 'o, 'd, 's) dag_env \<times> ('m, 'u, 'o, 'd, 's) exec) option" where
  "newDagExecutor env store =
     (case ValidateDAG (e_nodes env) of
        Some e \<Rightarrow> Some (Inl e)
      | None \<Rightarrow>
     (case with_priorities (e_cfg env) (e_nodes env) of
        None \<Rightarrow> None
      | Some nodes \<Rightarrow>
          (let env' = env\<lparr>e_nodes := nodes\<rparr> in
           case c_CheckpointStore (e_cfg env) of
             None \<Rightarrow> Some (Inr (env', initial env' [] store))
           | Some cs \<Rightarrow>
               (case cs_LoadAll cs store (q_sessionID (e_req env)) of
                  Inl e \<Rightarrow> Some (Inl (Errorf ''orchestrate: failed to load checkpoints: %w'' [] (Some e)))
                | Inr data \<Rightarrow> Some (Inr (env', initial env' data store))))))"

text \<open>The first part of \<open>run\<close>, before its select loop.\<close>

fun start_ready :: "('m, 'u, 'o, 'd, 's) dag_env \<Rightarrow> string list
      \<Rightarrow> ('m, 'u, 'o, 'd, 's) exec \<Rightarrow> ('m, 'u, 'o, 'd, 's) exec option" where
  "start_ready env [] s = drainPQ env s"
| "start_ready env (i # is) s =
     (if x_inDegree s i = 0 \<and> x_status s i = NodePending
      then (case enqueueReady env (Suc (sched_fuel env)) i s of
              None \<Rightarrow> None | Some s1 \<Rightarrow> start_ready env is s1)
      else start_ready env is s)"

definition start_run :: "('m, 'u, 'o, 'd, 's) dag_env
      \<Rightarrow> ('m, 'u, 'o, 'd, 's) exec \<Rightarrow> ('m, 'u, 'o, 'd, 's) exec option" where
  "start_run env s = start_ready env (ids_of env) s"

end
