(* ===== verification/DagInv.thy ===== *)
theory DagInv
  imports DagExec
begin

text \<open>
  The invariant of the DAG executor while its main goroutine works. A call of
  \<open>propagateDownstream\<close> in progress still owes some decrements of in-degrees: the invariant is
  relative to the list \<open>todo\<close> of these, over all nested calls, and to the set \<open>fresh\<close> of the
  nodes that are ready and about to be enqueued.
\<close>

section \<open>Vocabulary\<close>

definition settled :: "('m, 'u, 'o, 'd, 's) exec \<Rightarrow> string set" where
  "settled s = {i. x_status s i = NodeDone \<or> x_status s i = NodeSkipped}"

definition queued :: "('m, 'u, 'o, 'd, 's) exec \<Rightarrow> string set" where
  "queued s = (case x_pq s of None \<Rightarrow> {} | Some q \<Rightarrow> fst ` set (pq_list q))"

definition queue_ok :: "('m, 'u, 'o, 'd, 's) exec \<Rightarrow> bool" where
  "queue_ok s = (case x_pq s of None \<Rightarrow> True | Some q \<Rightarrow> pq_inv q \<and> distinct (map fst (pq_list q)))"

definition started :: "('m, 'u, 'o, 'd, 's) exec \<Rightarrow> string list" where
  "started s = map g_id (x_flight s) @ map nc_nodeID (x_doneCh s)"

definition with_status :: "('m, 'u, 'o, 'd, 's) dag_env \<Rightarrow> node_status
      \<Rightarrow> ('m, 'u, 'o, 'd, 's) exec \<Rightarrow> string list" where
  "with_status env st s = filter (\<lambda>i. x_status s i = st) (ids_of env)"

definition ready_nodes :: "('m, 'u, 'o, 'd, 's) dag_env \<Rightarrow> ('m, 'u, 'o, 'd, 's) exec \<Rightarrow> string set" where
  "ready_nodes env s = {i \<in> set (ids_of env). x_status s i = NodePending \<and> x_inDegree s i = 0}"

definition valid_env :: "('m, 'u, 'o, 'd, 's) dag_env \<Rightarrow> bool" where
  "valid_env env \<longleftrightarrow> valid_graph (graph_of (e_nodes env))"

definition sched_inv :: "('m, 'u, 'o, 'd, 's) dag_env \<Rightarrow> string list \<Rightarrow> string set
      \<Rightarrow> ('m, 'u, 'o, 'd, 's) exec \<Rightarrow> bool" where
  "sched_inv env todo fresh s \<longleftrightarrow>
     (\<forall>i ds. (i, ds) \<in> set (graph_of (e_nodes env)) \<longrightarrow>
        x_inDegree s i = open_deps (settled s) ds + int (count_list todo i)) \<and>
     (\<forall>i\<in>set (ids_of env). x_status s i \<noteq> NodeFailed \<and> x_status s i \<noteq> NodeCompensated) \<and>
     x_pending s = int (length (with_status env NodePending s)) + int (length (with_status env NodeRunning s)) \<and>
     mset (started s) = mset (with_status env NodeRunning s) \<and>
     queue_ok s \<and> queued s \<inter> fresh = {} \<and> queued s \<union> fresh = ready_nodes env s \<and>
     (\<forall>i ds. (i, ds) \<in> set (graph_of (e_nodes env)) \<longrightarrow>
        x_status s i = NodeRunning \<longrightarrow> set ds \<subseteq> settled s)"

lemma countRunning_eq: "countRunning env s = length (with_status env NodeRunning s)"
  by (simp add: countRunning_def with_status_def)

lemma node_ids_env [simp]: "node_ids (graph_of (e_nodes env)) = ids_of env"
  by (simp add: ids_of_def)

lemma valid_env_distinct: "valid_env env \<Longrightarrow> distinct (ids_of env)"
  by (simp only: valid_env_def valid_graph_def node_ids_env)

lemma ids_graph: "i \<in> set (ids_of env) \<Longrightarrow> \<exists>ds. (i, ds) \<in> set (graph_of (e_nodes env))"
  by (auto simp: ids_of_def graph_of_def)

lemma graph_ids: "(i, ds) \<in> set (graph_of (e_nodes env)) \<Longrightarrow> i \<in> set (ids_of env)"
  by (auto simp: ids_of_def graph_of_def)

lemma downstream_ids: "set (downstream env i) \<subseteq> set (ids_of env)"
  using downstream_in_ids [of "graph_of (e_nodes env)" i] by (simp only: downstream_def node_ids_env)

lemma count_downstream_env:
  "valid_env env \<Longrightarrow> (i, ds) \<in> set (graph_of (e_nodes env)) \<Longrightarrow>
   count_list (downstream env d) i = count_list ds d"
  by (simp add: downstream_def count_downstream_deps valid_env_def valid_graph_def)

lemma node_of_Some: "node_of nodes i = Some n \<Longrightarrow> n \<in> set nodes \<and> n_ID n = i"
  using find_first_Some by (fastforce simp: node_of_def)

lemma node_of_ids: "i \<in> set (ids_of env) \<Longrightarrow> \<exists>n. node_of (e_nodes env) i = Some n"
  by (cases "node_of (e_nodes env) i") (auto simp: node_of_def find_first_None ids_of_def)

lemma mset_filter_split:
  "distinct xs \<Longrightarrow> i \<in> set xs \<Longrightarrow> P i \<Longrightarrow>
   mset (filter P xs) = add_mset i (mset (filter (\<lambda>j. P j \<and> j \<noteq> i) xs))"
proof (induction xs)
  case (Cons x xs)
  show ?case
  proof (cases "x = i")
    case True
    then have "filter (\<lambda>j. P j \<and> j \<noteq> i) xs = filter P xs" using Cons.prems by (auto intro: filter_cong)
    then show ?thesis using True Cons.prems by simp
  qed (use Cons in auto)
qed simp

text \<open>Moving one node from a status to another.\<close>

lemma with_status_move:
  assumes "distinct (ids_of env)" and "i \<in> set (ids_of env)" and "x_status s i = a" and "a \<noteq> b"
    and "x_status s' = (x_status s)(i := b)"
  shows "mset (with_status env a s) = add_mset i (mset (with_status env a s'))"
    and "mset (with_status env b s') = add_mset i (mset (with_status env b s))"
    and "c \<noteq> a \<Longrightarrow> c \<noteq> b \<Longrightarrow> with_status env c s' = with_status env c s"
proof -
  have "with_status env a s' = filter (\<lambda>j. x_status s j = a \<and> j \<noteq> i) (ids_of env)"
    using assms(4,5) by (auto simp: with_status_def intro!: filter_cong)
  then show "mset (with_status env a s) = add_mset i (mset (with_status env a s'))"
    using mset_filter_split [OF assms(1,2), of "\<lambda>j. x_status s j = a"] assms(3)
    by (simp add: with_status_def)
  have "with_status env b s = filter (\<lambda>j. x_status s' j = b \<and> j \<noteq> i) (ids_of env)"
    using assms(3,4,5) by (auto simp: with_status_def intro!: filter_cong)
  then show "mset (with_status env b s') = add_mset i (mset (with_status env b s))"
    using mset_filter_split [OF assms(1,2), of "\<lambda>j. x_status s' j = b"] assms(5)
    by (simp add: with_status_def)
  show "c \<noteq> a \<Longrightarrow> c \<noteq> b \<Longrightarrow> with_status env c s' = with_status env c s"
    using assms(3,5) by (auto simp: with_status_def intro!: filter_cong)
qed

lemmas with_status_length = with_status_move [THEN arg_cong [where f = size], simplified]

lemma sched_inv_cong:
  assumes "x_status s' = x_status s" and "x_inDegree s' = x_inDegree s" and "x_pending s' = x_pending s"
    and "mset (started s') = mset (started s)" and "x_pq s' = x_pq s"
  shows "sched_inv env todo fresh s' = sched_inv env todo fresh s"
  unfolding sched_inv_def settled_def queued_def queue_ok_def ready_nodes_def with_status_def
  by (simp only: assms)

section \<open>One step of the scheduler\<close>

lemma sched_inv_decrement:
  assumes inv: "sched_inv env (d # todo) fresh s" and d: "d \<in> set (ids_of env)"
    and s1: "s1 = s\<lparr>x_inDegree := (x_inDegree s)(d := x_inDegree s d - 1)\<rparr>"
  shows "x_inDegree s1 d = 0 \<and> x_status s1 d = NodePending \<Longrightarrow> sched_inv env todo (insert d fresh) s1"
    and "\<not> (x_inDegree s1 d = 0 \<and> x_status s1 d = NodePending) \<Longrightarrow> sched_inv env todo fresh s1"
    and "d \<notin> fresh"
proof -
  obtain ds where ds: "(d, ds) \<in> set (graph_of (e_nodes env))" using ids_graph [OF d] by blast
  have "x_inDegree s d = open_deps (settled s) ds + int (count_list (d # todo) d)"
    using inv ds unfolding sched_inv_def by fast
  then have "x_inDegree s d \<noteq> 0" using open_deps_nonneg [of "settled s" ds] by (simp del: open_deps_nonneg)
  then have dr: "d \<notin> ready_nodes env s" by (simp add: ready_nodes_def)
  then show "d \<notin> fresh" using inv by (auto simp: sched_inv_def)
  have same: "settled s1 = settled s" "queued s1 = queued s" "queue_ok s1 = queue_ok s"
    "started s1 = started s" "with_status env st s1 = with_status env st s" for st
    by (simp_all add: s1 settled_def queued_def queue_ok_def started_def with_status_def)
  have deg: "\<forall>i es. (i, es) \<in> set (graph_of (e_nodes env)) \<longrightarrow>
      x_inDegree s1 i = open_deps (settled s1) es + int (count_list todo i)"
    using inv unfolding sched_inv_def same by (auto simp: s1)
  have ready: "ready_nodes env s1 = ready_nodes env s \<union>
      (if x_inDegree s1 d = 0 \<and> x_status s1 d = NodePending then {d} else {})"
    using d dr by (auto simp: s1 ready_nodes_def)
  have rest: "\<forall>i\<in>set (ids_of env). x_status s1 i \<noteq> NodeFailed \<and> x_status s1 i \<noteq> NodeCompensated"
    "x_pending s1 = int (length (with_status env NodePending s)) + int (length (with_status env NodeRunning s))"
    "mset (started s) = mset (with_status env NodeRunning s)" "queue_ok s" "queued s \<inter> fresh = {}"
    "queued s \<union> fresh = ready_nodes env s"
    "\<forall>i ds. (i, ds) \<in> set (graph_of (e_nodes env)) \<longrightarrow> x_status s1 i = NodeRunning \<longrightarrow> set ds \<subseteq> settled s"
    using inv by (simp_all add: sched_inv_def s1)
  show "x_inDegree s1 d = 0 \<and> x_status s1 d = NodePending \<Longrightarrow> sched_inv env todo (insert d fresh) s1"
    unfolding sched_inv_def same using deg rest ready dr by (simp add: same) blast
  show "\<not> (x_inDegree s1 d = 0 \<and> x_status s1 d = NodePending) \<Longrightarrow> sched_inv env todo fresh s1"
    unfolding sched_inv_def same using deg rest ready by (simp add: same) blast
qed

text \<open>
  A node that leaves the pending status settles, or starts to run. In both cases it leaves the
  fresh nodes; when it settles, a decrement of each of its dependents is owed.
\<close>

lemma fresh_ready:
  assumes "sched_inv env todo fresh s" and "i \<in> fresh"
  shows "i \<in> set (ids_of env)" "x_status s i = NodePending" "x_inDegree s i = 0" "i \<notin> queued s"
  using assms by (auto simp: sched_inv_def ready_nodes_def)

lemma settle_open_deps:
  assumes v: "valid_env env" and "i \<notin> settled s" and "settled s' = insert i (settled s)"
    and "(j, ds) \<in> set (graph_of (e_nodes env))"
  shows "open_deps (settled s') ds + int (count_list (downstream env i) j) = open_deps (settled s) ds"
  using assms by (simp add: open_deps_insert count_downstream_env)

lemma sched_inv_skip:
  assumes v: "valid_env env" and inv: "sched_inv env todo fresh s" and i: "i \<in> fresh"
  shows "sched_inv env (downstream env i @ todo) (fresh - {i}) (skip_node i s)"
proof -
  let ?s = "skip_node i s"
  note d = valid_env_distinct [OF v] and f = fresh_ready [OF inv i]
  have st: "x_status ?s = (x_status s)(i := NodeSkipped)"
    and deg: "x_inDegree ?s = x_inDegree s" and pend: "x_pending ?s = x_pending s - 1"
    and same: "started ?s = started s" "queued ?s = queued s" "queue_ok ?s = queue_ok s"
    by (simp_all add: skip_node_def set_status_def record_call_def Let_def started_def queued_def queue_ok_def)
  have set: "settled ?s = insert i (settled s)" and ni: "i \<notin> settled s"
    using f by (auto simp: settled_def st)
  note mv = with_status_move [OF d f(1,2) _ st, simplified]
  have "length (with_status env NodePending s) = Suc (length (with_status env NodePending ?s))"
    using mv(1) [THEN arg_cong [where f = size]] by simp
  moreover have ru: "with_status env NodeRunning ?s = with_status env NodeRunning s" using mv(3) by simp
  moreover have "ready_nodes env ?s = ready_nodes env s - {i}"
    by (auto simp: ready_nodes_def st deg)
  moreover have "\<forall>j ds. (j, ds) \<in> set (graph_of (e_nodes env)) \<longrightarrow>
      x_inDegree ?s j = open_deps (settled ?s) ds + int (count_list (downstream env i @ todo) j)"
    using inv settle_open_deps [OF v ni set] by (fastforce simp: sched_inv_def deg)
  moreover have "\<forall>j ds. (j, ds) \<in> set (graph_of (e_nodes env)) \<longrightarrow> x_status ?s j = NodeRunning \<longrightarrow> set ds \<subseteq> settled ?s"
    using inv unfolding sched_inv_def by (simp add: st set) blast
  ultimately show ?thesis
    using inv f pend unfolding sched_inv_def same ru by (auto simp: st)
qed

lemma sched_inv_run:
  assumes v: "valid_env env" and inv: "sched_inv env todo fresh s" and i: "i \<in> fresh"
    and st: "x_status s' = (x_status s)(i := NodeRunning)"
    and same: "x_inDegree s' = x_inDegree s" "x_pending s' = x_pending s" "x_pq s' = x_pq s"
    and start: "mset (started s') = add_mset i (mset (started s))"
  shows "sched_inv env todo (fresh - {i}) s'"
proof -
  note d = valid_env_distinct [OF v] and f = fresh_ready [OF inv i]
  have q: "queued s' = queued s" "queue_ok s' = queue_ok s" by (simp_all add: queued_def queue_ok_def same)
  have set: "settled s' = settled s" using f by (auto simp: settled_def st)
  note mv = with_status_move [OF d f(1,2) _ st, simplified]
  have "length (with_status env NodePending s) = Suc (length (with_status env NodePending s'))"
    using mv(1) [THEN arg_cong [where f = size]] by simp
  moreover have "length (with_status env NodeRunning s') = Suc (length (with_status env NodeRunning s))"
    using mv(2) [THEN arg_cong [where f = size]] by simp
  moreover have "mset (started s') = mset (with_status env NodeRunning s')"
    using mv(2) start inv by (simp add: sched_inv_def)
  moreover have "ready_nodes env s' = ready_nodes env s - {i}"
    by (auto simp: ready_nodes_def st same)
  moreover have "set ds \<subseteq> settled s" if "(i, ds) \<in> set (graph_of (e_nodes env))" for ds
  proof -
    have "x_inDegree s i = open_deps (settled s) ds + int (count_list todo i)"
      using inv that unfolding sched_inv_def by fast
    then have "open_deps (settled s) ds = 0"
      using f open_deps_nonneg [of "settled s" ds] by (simp del: open_deps_nonneg)
    then show ?thesis by (simp add: open_deps_zero)
  qed
  moreover have "\<forall>j ds. (j, ds) \<in> set (graph_of (e_nodes env)) \<longrightarrow> x_status s' j = NodeRunning \<longrightarrow> set ds \<subseteq> settled s"
    using inv calculation(5) by (simp add: sched_inv_def st)
  ultimately show ?thesis
    using inv f unfolding sched_inv_def q set same by (auto simp: st)
qed

lemma sched_inv_push:
  assumes inv: "sched_inv env todo fresh s" and i: "i \<in> fresh" and q: "x_pq s = Some q"
  shows "sched_inv env todo (fresh - {i}) (s\<lparr>x_pq := Some (pq_push q i p)\<rparr>)"
proof -
  let ?s = "s\<lparr>x_pq := Some (pq_push q i p)\<rparr>"
  note f = fresh_ready [OF inv i]
  have qi: "pq_inv q" "distinct (map fst (pq_list q))" using inv q by (auto simp: sched_inv_def queue_ok_def)
  have nq: "i \<notin> fst ` set (pq_list q)" using f(4) q by (simp add: queued_def)
  have "queue_ok ?s" using heapq.inv_push [OF qi(1)] heapq.distinct_push [OF qi nq] by (simp add: queue_ok_def)
  moreover have "queued ?s = insert i (queued s)" using heapq.ids_push [OF qi(1)] q by (simp add: queued_def)
  moreover have "settled ?s = settled s" "started ?s = started s" "ready_nodes env ?s = ready_nodes env s"
    "with_status env st ?s = with_status env st s" for st
    by (simp_all add: settled_def started_def ready_nodes_def with_status_def)
  ultimately show ?thesis using inv i f(4) unfolding sched_inv_def by auto
qed

section \<open>What the scheduler leaves alone\<close>

text \<open>
  The work left: nodes to start, goroutines on their way, completions to read and slots to give
  back, weighted so that every step of the program uses some of it up.
\<close>

definition work :: "('m, 'u, 'o, 'd, 's) dag_env \<Rightarrow> ('m, 'u, 'o, 'd, 's) exec \<Rightarrow> nat" where
  "work env s =
     5 * length (with_status env NodePending s) +
     4 * length (filter (\<lambda>g. \<not> g_acquired g) (x_flight s)) +
     3 * length (filter g_acquired (x_flight s)) + length (x_doneCh s) + x_releasing s"

definition sched_frame :: "('m, 'u, 'o, 'd, 's) dag_env \<Rightarrow> ('m, 'u, 'o, 'd, 's) exec
      \<Rightarrow> ('m, 'u, 'o, 'd, 's) exec \<Rightarrow> bool" where
  "sched_frame env s s' \<longleftrightarrow>
     (\<forall>i. x_status s i \<noteq> NodePending \<longrightarrow> x_status s' i = x_status s i) \<and>
     (\<forall>i. x_status s i = NodePending \<longrightarrow> x_status s' i \<in> {NodePending, NodeRunning, NodeSkipped}) \<and>
     x_results s' = x_results s \<and> x_activePQ s' = x_activePQ s \<and> x_releasing s' = x_releasing s \<and>
     filter g_acquired (x_flight s') = filter g_acquired (x_flight s) \<and>
     x_ctx s' = x_ctx s \<and> x_totalUsage s' = x_totalUsage s \<and> x_store s' = x_store s \<and>
     x_outUsage s' = x_outUsage s \<and> x_finalOutput s' = x_finalOutput s \<and> x_pc s' = x_pc s \<and>
     (x_pq s' = None \<longleftrightarrow> x_pq s = None) \<and> work env s' \<le> work env s"

lemma sched_frame_refl [simp]: "sched_frame env s s"
  by (auto simp: sched_frame_def intro: node_status.exhaust)

lemma sched_frame_trans:
  assumes "sched_frame env s s'" and "sched_frame env s' s''" shows "sched_frame env s s''"
proof -
  have "x_status s'' i \<in> {NodePending, NodeRunning, NodeSkipped}" if "x_status s i = NodePending" for i
    using assms that by (cases "x_status s' i = NodePending") (auto simp: sched_frame_def)
  then show ?thesis using assms by (simp add: sched_frame_def)
qed

lemma pending_moves:
  assumes "distinct (ids_of env)" and "i \<in> set (ids_of env)" and "x_status s i = NodePending"
    and "x_status s' = (x_status s)(i := b)" and "b \<noteq> NodePending"
  shows "length (with_status env NodePending s) = Suc (length (with_status env NodePending s'))"
  using with_status_move(1) [OF assms(1,2,3) assms(5) [symmetric] assms(4), THEN arg_cong [where f = size]] by simp

lemma sched_frame_skip:
  assumes "valid_env env" and "i \<in> set (ids_of env)" and "x_status s i = NodePending"
  shows "sched_frame env s (skip_node i s)"
proof -
  have "x_status (skip_node i s) = (x_status s)(i := NodeSkipped)"
    by (simp add: skip_node_def set_status_def record_call_def Let_def)
  from pending_moves [OF valid_env_distinct [OF assms(1)] assms(2,3) this]
  have "work env (skip_node i s) \<le> work env s"
    by (simp add: work_def) (simp add: skip_node_def set_status_def record_call_def Let_def)
  then show ?thesis using assms(3)
    by (simp add: sched_frame_def) (simp add: skip_node_def set_status_def record_call_def Let_def)
qed

definition run_failed :: "string \<Rightarrow> go_error
      \<Rightarrow> ('m, 'u, 'o, 'd, 's) exec \<Rightarrow> ('m, 'u, 'o, 'd, 's) exec" where
  "run_failed i err s =
     (let s1 = set_status i NodeRunning s in s1\<lparr>x_doneCh := x_doneCh s1 @ [failed i err]\<rparr>)"

lemma sched_frame_run_failed:
  assumes "valid_env env" and "i \<in> set (ids_of env)" and "x_status s i = NodePending"
  shows "sched_frame env s (run_failed i err s)"
proof -
  have "x_status (run_failed i err s) = (x_status s)(i := NodeRunning)"
    by (simp add: run_failed_def set_status_def Let_def)
  from pending_moves [OF valid_env_distinct [OF assms(1)] assms(2,3) this]
  have "work env (run_failed i err s) \<le> work env s"
    by (simp add: work_def) (simp add: run_failed_def set_status_def Let_def)
  then show ?thesis using assms(3)
    by (simp add: sched_frame_def) (simp add: run_failed_def set_status_def Let_def)
qed

lemma sched_frame_launch:
  assumes "valid_env env" and "i \<in> set (ids_of env)" and "x_status s i = NodePending"
  shows "sched_frame env s (launch i req (emit env ev s))"
proof -
  let ?s = "launch i req (emit env ev s)"
  have "x_status ?s = (x_status s)(i := NodeRunning)"
    by (simp add: launch_def emit_def set_status_def record_call_def Let_def)
  from pending_moves [OF valid_env_distinct [OF assms(1)] assms(2,3) this]
  have "work env ?s \<le> work env s"
    by (simp add: work_def) (simp add: launch_def emit_def set_status_def record_call_def Let_def)
  then show ?thesis using assms(3)
    by (simp add: sched_frame_def) (simp add: launch_def emit_def set_status_def record_call_def Let_def)
qed

section \<open>The scheduler keeps the invariant\<close>

text \<open>The node itself, once scheduled, has left the pending status.\<close>

definition outcome_ok :: "('m, 'u, 'o, 'd, 's) dag_env \<Rightarrow> string list \<Rightarrow> string set
      \<Rightarrow> ('m, 'u, 'o, 'd, 's) exec \<Rightarrow> ('m, 'u, 'o, 'd, 's) exec option \<Rightarrow> bool" where
  "outcome_ok env todo fresh s r \<longleftrightarrow>
     (\<exists>s'. r = Some s' \<and> sched_inv env todo fresh s' \<and> sched_frame env s s')"

lemma frame_pending_le:
  assumes "sched_frame env s s'"
  shows "length (with_status env NodePending s') \<le> length (with_status env NodePending s)"
proof -
  have "set (with_status env NodePending s') \<subseteq> set (with_status env NodePending s)" 
    using assms by (auto simp: sched_frame_def with_status_def)
  have "with_status env NodePending s' = filter (\<lambda>i. x_status s' i = NodePending) (with_status env NodePending s)"
    using assms unfolding with_status_def filter_filter by (intro filter_cong) (auto simp: sched_frame_def)
  then show ?thesis by (metis length_filter_le)
qed

lemma scheduler_ok:
  "valid_env env \<Longrightarrow> sched_inv env (ds @ todo) fresh s \<Longrightarrow> set ds \<subseteq> set (ids_of env) \<Longrightarrow>
     length (with_status env NodePending s) \<le> k \<Longrightarrow> outcome_ok env todo fresh s (propagate env k ds s)"
  "valid_env env \<Longrightarrow> sched_inv env todo fresh s \<Longrightarrow> i \<in> fresh \<Longrightarrow>
     length (with_status env NodePending s) \<le> Suc k \<Longrightarrow>
     outcome_ok env todo (fresh - {i}) s (scheduleReady env k i s)"
  "valid_env env \<Longrightarrow> sched_inv env todo fresh s \<Longrightarrow> i \<in> fresh \<Longrightarrow>
     length (with_status env NodePending s) \<le> k \<Longrightarrow>
     outcome_ok env todo (fresh - {i}) s (enqueueReady env k i s)"
proof (induction env k ds s and env k i s and env k i s arbitrary: todo fresh and todo fresh and todo fresh
    rule: propagate_scheduleReady_enqueueReady.induct)
  case (1 env k s)
  then show ?case by (simp add: outcome_ok_def)
next
  case (2 env k d ds s)
  let ?s = "s\<lparr>x_inDegree := (x_inDegree s)(d := x_inDegree s d - 1)\<rparr>"
  have d: "d \<in> set (ids_of env)" and ds: "set ds \<subseteq> set (ids_of env)" using "2.prems"(3) by simp_all
  have inv: "sched_inv env (d # ds @ todo) fresh s" using "2.prems"(2) by simp
  have fr: "sched_frame env s ?s" and le: "length (with_status env NodePending ?s) \<le> k"
    using "2.prems"(4) sched_frame_refl [of env s] by (simp_all add: sched_frame_def work_def with_status_def)
  note dec = sched_inv_decrement [OF inv d refl]
  show ?case
  proof (cases "x_inDegree ?s d = 0 \<and> x_status ?s d = NodePending")
    case True
    from "2.IH"(1) [OF refl True "2.prems"(1) dec(1) [OF True] insertI1 le]
    obtain s2 where s2: "enqueueReady env k d ?s = Some s2"
      "sched_inv env (ds @ todo) (insert d fresh - {d}) s2" "sched_frame env ?s s2"
      unfolding outcome_ok_def by blast
    have "insert d fresh - {d} = fresh" using dec(3) by blast
    moreover have "length (with_status env NodePending s2) \<le> k" using frame_pending_le [OF s2(3)] le by simp
    ultimately have "outcome_ok env todo fresh s2 (propagate env k ds s2)"
      using "2.IH"(2) [OF refl True s2(1) "2.prems"(1)] s2(2) ds by simp
    moreover have "propagate env k (d # ds) s = propagate env k ds s2" using True s2(1) by simp
    ultimately show ?thesis
      using sched_frame_trans [OF fr] sched_frame_trans [OF s2(3)] unfolding outcome_ok_def by metis
  next
    case False
    moreover have "propagate env k (d # ds) s = propagate env k ds ?s"
      using False by (simp only: propagate.simps Let_def if_False)
    ultimately show ?thesis
      using "2.IH"(3) [OF refl False "2.prems"(1) dec(2) ds le] sched_frame_trans [OF fr]
      unfolding outcome_ok_def by metis
  qed
next
  case (3 env k i s)
  note f = fresh_ready [OF "3.prems"(2,3)]
  obtain node where n: "node_of (e_nodes env) i = Some node" using node_of_ids [OF f(1)] by blast
  have nd: "\<not> (c_ReplayMode (e_cfg env) \<and> c_CheckpointStore (e_cfg env) \<noteq> None \<and> x_status s i = NodeDone)"
    using f by simp
  show ?case
  proof (cases "condition_false node (x_results s)")
    case True
    note fr = sched_frame_skip [OF "3.prems"(1) f(1,2)]
    have "x_status (skip_node i s) = (x_status s)(i := NodeSkipped)"
      by (simp add: skip_node_def set_status_def record_call_def Let_def)
    from pending_moves [OF valid_env_distinct [OF "3.prems"(1)] f(1,2) this]
    have "length (with_status env NodePending (skip_node i s)) \<le> k" using "3.prems"(4) by simp
    from "3.IH"(2) [OF n nd True "3.prems"(1) sched_inv_skip [OF "3.prems"(1,2,3)] downstream_ids this]
    have "outcome_ok env todo (fresh - {i}) s (propagate env k (downstream env i) (skip_node i s))"
      using sched_frame_trans [OF fr] unfolding outcome_ok_def by blast
    moreover have "scheduleReady env k i s = propagate env k (downstream env i) (skip_node i s)"
      using n f(2) True by simp
    ultimately show ?thesis by simp
  next
    case False
    show ?thesis
    proof (cases "buildNodeInput node (e_req env) (x_results s)")
      case (Inl err)
      have "scheduleReady env k i s = Some (run_failed i err s)"
        using n f(2) False Inl by (simp add: run_failed_def Let_def)
      moreover have "sched_inv env todo (fresh - {i}) (run_failed i err s)"
        by (rule sched_inv_run [OF "3.prems"(1,2,3)])
          (simp_all add: run_failed_def set_status_def started_def failed_def)
      ultimately show ?thesis
        using sched_frame_run_failed [OF "3.prems"(1) f(1,2)] by (simp add: outcome_ok_def)
    next
      case (Inr req)
      have "scheduleReady env k i s = Some (launch i req (emit env (OnNodeStart i) s))"
        using n f(2) False Inr by simp
      moreover have "sched_inv env todo (fresh - {i}) (launch i req (emit env (OnNodeStart i) s))"
        by (rule sched_inv_run [OF "3.prems"(1,2,3)])
          (simp_all add: launch_def emit_def set_status_def record_call_def started_def Let_def)
      ultimately show ?thesis
        using sched_frame_launch [OF "3.prems"(1) f(1,2)] by (simp add: outcome_ok_def)
    qed
  qed
next
  case (4 env i s)
  note f = fresh_ready [OF "4.prems"(2,3)]
  have "i \<in> set (with_status env NodePending s)" using f by (simp add: with_status_def)
  then show ?case using "4.prems"(4) by auto
next
  case (5 env k i s)
  note f = fresh_ready [OF "5.prems"(2,3)]
  obtain node where n: "node_of (e_nodes env) i = Some node" using node_of_ids [OF f(1)] by blast
  show ?case
  proof (cases "x_pq s")
    case None
    then show ?thesis using "5.IH" [OF None "5.prems"(1,2,3,4)] by simp
  next
    case (Some q)
    let ?s = "s\<lparr>x_pq := Some (pq_push q i (n_Priority node))\<rparr>"
    have "sched_frame env s ?s"
      using sched_frame_refl [of env s] Some by (simp add: sched_frame_def work_def with_status_def)
    then show ?thesis
      using sched_inv_push [OF "5.prems"(2,3) Some, of "n_Priority node"] n Some by (simp add: outcome_ok_def)
  qed
qed

section \<open>Draining the queue\<close>

text \<open>With a priority queue, propagation only fills the queue.\<close>

lemma pq_propagate_status:
  "x_pq s \<noteq> None \<Longrightarrow> propagate env k ds s = Some s' \<Longrightarrow> x_status s' = x_status s \<and> x_pq s' \<noteq> None"
proof (induction ds arbitrary: s)
  case (Cons d ds)
  let ?s = "s\<lparr>x_inDegree := (x_inDegree s)(d := x_inDegree s d - 1)\<rparr>"
  obtain q where q: "x_pq s = Some q" using Cons.prems by blast
  show ?case
  proof (cases "x_inDegree ?s d = 0 \<and> x_status ?s d = NodePending")
    case True
    then obtain s2 where s2: "enqueueReady env k d ?s = Some s2" "propagate env k ds s2 = Some s'"
      using Cons.prems by (auto split: option.splits)
    then obtain k' where "k = Suc k'" by (cases k) auto
    then have "x_status s2 = x_status s \<and> x_pq s2 \<noteq> None"
      using s2(1) q by (auto split: option.splits)
    then show ?thesis using Cons.IH [OF _ s2(2)] by simp
  next
    case False
    then have "propagate env k ds ?s = Some s'"
      using Cons.prems by (simp only: propagate.simps Let_def if_False)
    from Cons.IH [OF _ this] show ?thesis using Cons.prems by simp
  qed
qed simp

lemma pq_schedule_status:
  assumes "x_pq s \<noteq> None" and "x_status s i = NodePending" and "scheduleReady env k i s = Some s'"
  shows "x_pq s' \<noteq> None \<and> (\<exists>b\<in>{NodeRunning, NodeSkipped}. x_status s' = (x_status s)(i := b))"
proof -
  obtain node where n: "node_of (e_nodes env) i = Some node" using assms(3) by (auto split: option.splits)
  show ?thesis
  proof (cases "condition_false node (x_results s)")
    case True
    then have "propagate env k (downstream env i) (skip_node i s) = Some s'" using assms n by simp
    from pq_propagate_status [OF _ this] show ?thesis
      using assms(1) by (auto simp: skip_node_def set_status_def record_call_def Let_def)
  next
    case False
    then show ?thesis using assms n
      by (auto simp: launch_def emit_def set_status_def record_call_def Let_def split: sum.splits)
  qed
qed

definition active_ok :: "('m, 'u, 'o, 'd, 's) dag_env \<Rightarrow> ('m, 'u, 'o, 'd, 's) exec \<Rightarrow> bool" where
  "active_ok env s \<longleftrightarrow> (x_pq s \<noteq> None \<longrightarrow>
     x_activePQ s = int (length (with_status env NodeRunning s)) \<and>
     (c_MaxConcurrency (e_cfg env) > 0 \<longrightarrow> x_activePQ s \<le> c_MaxConcurrency (e_cfg env)))"

definition drained :: "('m, 'u, 'o, 'd, 's) dag_env \<Rightarrow> ('m, 'u, 'o, 'd, 's) exec \<Rightarrow> bool" where
  "drained env s \<longleftrightarrow> (\<forall>q. x_pq s = Some q \<longrightarrow> pq_empty q \<or> \<not> may_launch env s)"

definition drain_frame :: "('m, 'u, 'o, 'd, 's) dag_env \<Rightarrow> ('m, 'u, 'o, 'd, 's) exec
      \<Rightarrow> ('m, 'u, 'o, 'd, 's) exec \<Rightarrow> bool" where
  "drain_frame env s s' \<longleftrightarrow> sched_frame env (s\<lparr>x_activePQ := x_activePQ s'\<rparr>) s'"

lemma work_active [simp]: "work env (s\<lparr>x_activePQ := n\<rparr>) = work env s"
  by (simp add: work_def with_status_def)

lemma work_pq [simp]: "work env (s\<lparr>x_pq := q\<rparr>) = work env s"
  by (simp add: work_def with_status_def)

lemma drain_frame_sched: "sched_frame env s s' \<Longrightarrow> drain_frame env s s'"
  by (simp add: drain_frame_def sched_frame_def)

lemma drain_frame_active: "drain_frame env s (s'\<lparr>x_activePQ := n\<rparr>) = drain_frame env s s'"
  by (simp add: drain_frame_def sched_frame_def)

lemma drain_frame_trans:
  assumes "drain_frame env s s'" and "drain_frame env s' s''" shows "drain_frame env s s''"
proof -
  have "sched_frame env (s\<lparr>x_activePQ := x_activePQ s''\<rparr>) (s'\<lparr>x_activePQ := x_activePQ s''\<rparr>)"
    using assms(1) by (simp add: drain_frame_def sched_frame_def)
  then show ?thesis using assms(2) sched_frame_trans unfolding drain_frame_def by blast
qed

lemma sched_inv_pop:
  assumes inv: "sched_inv env [] {} s" and q: "x_pq s = Some q" "\<not> pq_empty q"
    and pop: "pq_pop q = (i, q')"
  shows "sched_inv env [] {i} (s\<lparr>x_pq := Some q'\<rparr>)" and "i \<in> queued s"
proof -
  have qi: "pq_inv q" "distinct (map fst (pq_list q))" using inv q by (auto simp: sched_inv_def queue_ok_def)
  note p = heapq.pop_ids [OF qi(1) q(2) pop]
  have len: "length (pq_list q) = Suc (length (pq_list q'))" by (rule p)
  have ids: "fst ` set (pq_list q) = insert i (fst ` set (pq_list q'))" by (rule p)
  have card: "card (fst ` set (pq_list q)) = Suc (length (pq_list q'))"
    using distinct_card [OF qi(2)] len by simp
  have ni: "i \<notin> fst ` set (pq_list q')"
  proof
    assume "i \<in> fst ` set (pq_list q')"
    then have "card (fst ` set (pq_list q)) \<le> card (set (map fst (pq_list q')))"
      using ids by (simp add: insert_absorb)
    also have "\<dots> \<le> length (pq_list q')" using card_length [of "map fst (pq_list q')"] by simp
    finally show False using card by simp
  qed
  have "card (set (map fst (pq_list q'))) = length (map fst (pq_list q'))"
    using card ids ni by (simp add: card_insert_if)
  then have d: "distinct (map fst (pq_list q'))" by (rule card_distinct)
  show "i \<in> queued s" using ids q by (simp add: queued_def)
  let ?s = "s\<lparr>x_pq := Some q'\<rparr>"
  have "queue_ok ?s" using d p(1) by (simp add: queue_ok_def)
  moreover have "queued s = insert i (queued ?s)" and "i \<notin> queued ?s"
    using ids ni q by (simp_all add: queued_def)
  moreover have "settled ?s = settled s" "started ?s = started s" "ready_nodes env ?s = ready_nodes env s"
    "with_status env st ?s = with_status env st s" for st
    by (simp_all add: settled_def started_def ready_nodes_def with_status_def)
  ultimately show "sched_inv env [] {i} ?s" using inv unfolding sched_inv_def by auto
qed


text \<open>One round of the loop: a ready node leaves the queue and the pending status.\<close>

lemma drain_iteration:
  assumes v: "valid_env env" and inv0: "sched_inv env [] {} s" and act0: "active_ok env s"
    and nd: "\<not> drained env s"
  obtains i q' s1 t where "i \<in> set (ids_of env)" "x_status s i = NodePending" "x_inDegree s i = 0"
    "scheduleReady env (sched_fuel env) i (s\<lparr>x_pq := Some q'\<rparr>) = Some s1"
    "t = (if x_status s1 i = NodeRunning then s1\<lparr>x_activePQ := x_activePQ s1 + 1\<rparr> else s1)"
    "sched_inv env [] {} t" "active_ok env t"
    "length (with_status env NodePending s) = Suc (length (with_status env NodePending t))"
    "drain_frame env s t" "\<And>k. drain_loop env (Suc k) s = drain_loop env k t"
proof -
  obtain q where q: "x_pq s = Some q" "\<not> pq_empty q" "may_launch env s" using nd by (auto simp: drained_def)
  obtain i q' where pop: "pq_pop q = (i, q')" by (rule prod.exhaust)
  let ?s = "s\<lparr>x_pq := Some q'\<rparr>"
  have same: "with_status env st ?s = with_status env st s" for st by (simp add: with_status_def)
  note pp = sched_inv_pop [OF inv0 q(1,2) pop]
  note f = fresh_ready [OF pp(1) singletonI]
  have "length (with_status env NodePending s) \<le> length (e_nodes env)"
    using length_filter_le [of _ "ids_of env"] by (simp add: with_status_def ids_of_def)
  then have "outcome_ok env [] ({i} - {i}) ?s (scheduleReady env (sched_fuel env) i ?s)"
    by (intro scheduler_ok(2) [OF v pp(1)]) (auto simp: same sched_fuel_def)
  then obtain s1 where s1: "scheduleReady env (sched_fuel env) i ?s = Some s1"
    "sched_inv env [] {} s1" "sched_frame env ?s s1"
    unfolding outcome_ok_def by auto
  obtain b where b: "b = NodeRunning \<or> b = NodeSkipped" "x_status s1 = (x_status s)(i := b)" and pq1: "x_pq s1 \<noteq> None"
    using pq_schedule_status [OF _ f(2) s1(1)] by auto
  have act1: "x_activePQ s1 = x_activePQ s" using s1(3) by (simp add: sched_frame_def)
  let ?t = "if x_status s1 i = NodeRunning then s1\<lparr>x_activePQ := x_activePQ s1 + 1\<rparr> else s1"
  note d = valid_env_distinct [OF v]
  have pi: "x_status s i = NodePending" using f(2) by simp
  have len: "length (with_status env NodePending s) = Suc (length (with_status env NodePending s1))"
    using pending_moves [OF d f(1) pi b(2)] b(1) by auto
  have run: "length (with_status env NodeRunning s1) =
      length (with_status env NodeRunning s) + (if b = NodeRunning then 1 else 0)"
  proof (cases "b = NodeRunning")
    case True
    then show ?thesis
      using with_status_move(2) [OF d f(1) pi _ b(2), THEN arg_cong [where f = size]] by simp
  next
    case False
    then show ?thesis using with_status_move(3) [OF d f(1) pi _ b(2), of NodeRunning] b(1) by auto
  qed
  have tws: "with_status env st ?t = with_status env st s1" for st by (simp add: with_status_def)
  have inv: "sched_inv env [] {} ?t" using s1(2) by (auto intro: sched_inv_cong [THEN iffD2] simp: started_def)
  have act: "active_ok env ?t"
    using act0 q(1,3) run b act1 unfolding active_ok_def tws
    by (auto simp: may_launch_def Let_def)
  have fr: "drain_frame env s ?t"
  proof -
    have "sched_frame env s s1"
      using s1(3) q(1) by (simp add: sched_frame_def)
    then show ?thesis by (simp add: drain_frame_sched drain_frame_active)
  qed
  have "drain_loop env (Suc k) s = drain_loop env k ?t" for k
    using q pop s1(1) by (simp add: drain_loop.simps [of env "Suc k"])
  moreover have "x_inDegree s i = 0" using f(3) by simp
  moreover have "length (with_status env NodePending s) = Suc (length (with_status env NodePending ?t))"
    using len by (simp only: tws)
  ultimately show thesis using that [OF f(1) pi _ s1(1) refl inv act _ fr] by blast
qed

lemma drain_loop_ok:
  assumes "valid_env env"
  shows "sched_inv env [] {} s \<Longrightarrow> active_ok env s \<Longrightarrow> length (with_status env NodePending s) \<le> k \<Longrightarrow>
    \<exists>s'. drain_loop env k s = Some s' \<and> sched_inv env [] {} s' \<and> active_ok env s' \<and> drained env s' \<and>
      drain_frame env s s'"
proof (induction k arbitrary: s)
  case 0
  have "drained env s"
  proof (rule ccontr)
    assume "\<not> drained env s"
    from drain_iteration [OF assms 0(1,2) this] show False using 0(3) by (metis le_zero_eq nat.distinct(1))
  qed
  then show ?case using 0
    by (auto simp: drain_loop.simps [of env 0] drained_def drain_frame_sched split: option.splits)
next
  case (Suc k)
  show ?case
  proof (cases "drained env s")
    case True
    then show ?thesis using Suc.prems
      by (auto simp: drain_loop.simps [of env "Suc k"] drained_def drain_frame_sched split: option.splits)
  next
    case False
    obtain t where t: "sched_inv env [] {} t" "active_ok env t"
      "length (with_status env NodePending s) = Suc (length (with_status env NodePending t))"
      "drain_frame env s t" "drain_loop env (Suc k) s = drain_loop env k t"
      by (rule drain_iteration [OF assms Suc.prems(1,2) False]) blast
    have "length (with_status env NodePending t) \<le> k" using t(3) Suc.prems(3) by simp
    from Suc.IH [OF t(1,2) this] show ?thesis using t(5) drain_frame_trans [OF t(4)] by metis
  qed
qed

lemma drainPQ_ok:
  assumes "valid_env env" and "sched_inv env [] {} s" and "active_ok env s"
  shows "\<exists>s'. drainPQ env s = Some s' \<and> sched_inv env [] {} s' \<and> active_ok env s' \<and> drained env s' \<and>
      drain_frame env s s'"
  unfolding drainPQ_def
proof (rule drain_loop_ok [OF assms])
  show "length (with_status env NodePending s) \<le> length (e_nodes env)"
    using length_filter_le [of _ "ids_of env"] by (simp add: with_status_def ids_of_def)
qed


section \<open>Between two events\<close>

text \<open>The states in which the main goroutine waits: nothing is owed, and the queue was drained.\<close>

definition ready_state :: "('m, 'u, 'o, 'd, 's) dag_env \<Rightarrow> ('m, 'u, 'o, 'd, 's) exec \<Rightarrow> bool" where
  "ready_state env s \<longleftrightarrow> sched_inv env [] {} s \<and> active_ok env s \<and> drained env s"

lemma pending_le_fuel: "length (with_status env st s) \<le> sched_fuel env"
  using length_filter_le [of _ "ids_of env"] by (simp add: with_status_def ids_of_def sched_fuel_def)

lemma propagate_all_ok:
  assumes v: "valid_env env" and inv: "sched_inv env (downstream env i) {} s" and act: "active_ok env s"
  shows "\<exists>s'. propagateDownstream env i s = Some s' \<and> sched_inv env [] {} s' \<and> active_ok env s' \<and>
    sched_frame env s s'"
proof -
  have "outcome_ok env [] {} s (propagate env (sched_fuel env) (downstream env i) s)"
    using scheduler_ok(1) [OF v _ downstream_ids pending_le_fuel, of i "[]"] inv by simp
  then obtain s1 where s1: "propagate env (sched_fuel env) (downstream env i) s = Some s1"
    "sched_inv env [] {} s1" "sched_frame env s s1"
    unfolding outcome_ok_def by blast
  have "active_ok env s1"
  proof (cases "x_pq s")
    case None
    then show ?thesis using s1(3) by (simp add: active_ok_def sched_frame_def)
  next
    case (Some q)
    then have "x_status s1 = x_status s" using pq_propagate_status [OF _ s1(1)] by simp
    then show ?thesis using act s1(3) unfolding active_ok_def sched_frame_def with_status_def by metis
  qed
  then show ?thesis using s1 by (simp add: propagateDownstream_def)
qed

lemma proceed_ok:
  assumes v: "valid_env env" and inv: "sched_inv env (downstream env i) {} s" and act: "active_ok env s"
  shows "\<exists>s'. proceed env i s = Some s' \<and> ready_state env s' \<and> drain_frame env s s'"
proof -
  obtain s1 where s1: "propagateDownstream env i s = Some s1" "sched_inv env [] {} s1" "active_ok env s1"
    "sched_frame env s s1"
    using propagate_all_ok [OF assms] by blast
  from drainPQ_ok [OF v s1(2,3)] show ?thesis
    using s1(1) drain_frame_trans [OF drain_frame_sched [OF s1(4)]]
    unfolding proceed_def ready_state_def by auto
qed

text \<open>The loop also keeps every predicate \<open>P\<close> that enqueueing a ready node and draining keep.\<close>

lemma start_ready_ok:
  assumes v: "valid_env env"
    and p1: "\<And>i s s'. P s \<Longrightarrow> i \<in> set (ids_of env) \<Longrightarrow> x_inDegree s i = 0 \<and> x_status s i = NodePending \<Longrightarrow>
      enqueueReady env (Suc (sched_fuel env)) i s = Some s' \<Longrightarrow> P s'"
    and p2: "\<And>s s'. P s \<Longrightarrow> sched_inv env [] {} s \<Longrightarrow> active_ok env s \<Longrightarrow> drainPQ env s = Some s' \<Longrightarrow> P s'"
  shows "sched_inv env [] fresh s \<Longrightarrow> active_ok env s \<Longrightarrow> fresh \<subseteq> set is \<Longrightarrow> distinct is \<Longrightarrow>
    queued s \<inter> set is = {} \<Longrightarrow> set is \<subseteq> set (ids_of env) \<Longrightarrow>
    \<exists>s'. start_ready env is s = Some s' \<and> ready_state env s' \<and> drain_frame env s s' \<and> (P s \<longrightarrow> P s')"
proof (induction "is" arbitrary: fresh s)
  case Nil
  then have inv: "sched_inv env [] {} s" and act: "active_ok env s" by simp_all
  from drainPQ_ok [OF v this] show ?case using p2 [OF _ inv act] by (auto simp: ready_state_def)
next
  case (Cons i "is")
  show ?case
  proof (cases "x_inDegree s i = 0 \<and> x_status s i = NodePending")
    case True
    then have i: "i \<in> fresh"
      using Cons.prems(1,5,6) by (auto simp: sched_inv_def ready_nodes_def)
    have "outcome_ok env [] (fresh - {i}) s (enqueueReady env (Suc (sched_fuel env)) i s)"
      using scheduler_ok(3) [OF v Cons.prems(1) i] pending_le_fuel by (meson le_SucI)
    then obtain s1 where s1: "enqueueReady env (Suc (sched_fuel env)) i s = Some s1"
      "sched_inv env [] (fresh - {i}) s1" "sched_frame env s s1"
      unfolding outcome_ok_def by blast
    have "active_ok env s1 \<and> queued s1 \<inter> set is = {}"
    proof (cases "x_pq s")
      case None
      then show ?thesis using s1(3) by (simp add: active_ok_def sched_frame_def queued_def)
    next
      case (Some q)
      then obtain p where s1eq: "s1 = s\<lparr>x_pq := Some (pq_push q i p)\<rparr>"
        using s1(1) by (auto split: option.splits)
      have "pq_inv q" using Cons.prems(1) Some by (simp add: sched_inv_def queue_ok_def)
      from heapq.ids_push [OF this] have "queued s1 = insert i (queued s)"
        using Some by (simp add: queued_def s1eq)
      moreover have "active_ok env s1"
        using Cons.prems(2) Some by (auto simp: active_ok_def s1eq with_status_def)
      ultimately show ?thesis using Cons.prems(4,5) by auto
    qed
    then obtain s2 where s2: "start_ready env is s1 = Some s2" "ready_state env s2" "drain_frame env s1 s2"
        "P s1 \<longrightarrow> P s2"
      using Cons.IH [OF s1(2)] Cons.prems(3,4,6) by (metis Diff_subset_conv Un_insert_left distinct.simps(2)
        insert_subset list.simps(15) sup_bot_left)
    have "P s \<longrightarrow> P s1" using p1 [OF _ _ True s1(1)] Cons.prems(6) by simp
    then show ?thesis
      using True s1(1) s2 drain_frame_trans [OF drain_frame_sched [OF s1(3)] s2(3)] by simp
  next
    case False
    then have "i \<notin> fresh" using fresh_ready [OF Cons.prems(1)] by blast
    then have "fresh \<subseteq> set is" using Cons.prems(3) by auto
    with Cons.IH [OF Cons.prems(1,2)] Cons.prems(4,5,6) have
      "\<exists>s'. start_ready env is s = Some s' \<and> ready_state env s' \<and> drain_frame env s s' \<and> (P s \<longrightarrow> P s')" by auto
    moreover have "start_ready env (i # is) s = start_ready env is s" using False by (simp only: start_ready.simps if_False)
    ultimately show ?thesis by simp
  qed
qed

section \<open>The first state\<close>

lemma dec_all_eq: "dec_all ds m x = m x - int (count_list ds x)"
  by (induction ds arbitrary: m) (auto simp: dec_all_def)

lemma resume_degrees:
  assumes v: "valid_env env"
  shows "distinct xs \<Longrightarrow> A \<inter> set xs = {} \<Longrightarrow>
    \<forall>i ds. (i, ds) \<in> set (graph_of (e_nodes env)) \<longrightarrow> m i = open_deps A ds \<Longrightarrow>
    \<forall>i ds. (i, ds) \<in> set (graph_of (e_nodes env)) \<longrightarrow>
      fold (\<lambda>i m. if P i then dec_all (downstream env i) m else m) xs m i =
        open_deps (A \<union> {x \<in> set xs. P x}) ds"
proof (induction xs arbitrary: A m)
  case (Cons x xs)
  show ?case
  proof (cases "P x")
    case True
    let ?m = "dec_all (downstream env x) m"
    have "\<forall>i ds. (i, ds) \<in> set (graph_of (e_nodes env)) \<longrightarrow> ?m i = open_deps (insert x A) ds"
      using Cons.prems(2,3) by (simp add: dec_all_eq count_downstream_env [OF v] open_deps_insert)
    moreover have "insert x A \<inter> set xs = {}" using Cons.prems(1,2) by auto
    moreover have "insert x A \<union> {y \<in> set xs. P y} = A \<union> {y \<in> set (x # xs). P y}" using True by auto
    ultimately show ?thesis using Cons.IH [of "insert x A" ?m] Cons.prems(1) True by simp
  next
    case False
    then have "{y \<in> set (x # xs). P y} = {y \<in> set xs. P y}" by auto
    then show ?thesis using Cons.IH [of A m] Cons.prems False by simp
  qed
qed simp

lemma initial_inv:
  assumes v: "valid_env env"
  shows "sched_inv env [] (ready_nodes env (initial env data store)) (initial env data store)"
    and "active_ok env (initial env data store)" and "queued (initial env data store) = {}"
proof -
  let ?s = "initial env data store" and ?done = "\<lambda>i. resumed env data i"
  note d = valid_env_distinct [OF v]
  have st: "x_status ?s = (\<lambda>i. if ?done i then NodeDone else NodePending)"
    and fl: "x_flight ?s = []" "x_doneCh ?s = []" by (simp_all add: initial_def Let_def)
  have qu: "queued ?s = {}" "queue_ok ?s"
    using heapq.inv_empty heapq.list_empty by (simp_all add: initial_def Let_def queued_def queue_ok_def)
  then show "queued ?s = {}" by simp
  have run: "with_status env NodeRunning ?s = []" by (simp add: with_status_def st filter_empty_conv)
  then show "active_ok env ?s" by (simp add: active_ok_def) (simp add: initial_def Let_def)
  have set: "settled ?s = {x \<in> set (ids_of env). ?done x}"
    by (auto simp: settled_def st resumed_def)
  have "in_degree_of (graph_of (e_nodes env)) i = open_deps {} ds"
    if "(i, ds) \<in> set (graph_of (e_nodes env))" for i ds
    using in_degree_of_node [OF _ that] d by (simp add: ids_of_def)
  then have "\<forall>i ds. (i, ds) \<in> set (graph_of (e_nodes env)) \<longrightarrow>
      fold (\<lambda>i m. if ?done i then dec_all (downstream env i) m else m) (ids_of env)
        (in_degree_of (graph_of (e_nodes env))) i = open_deps ({} \<union> {x \<in> set (ids_of env). ?done x}) ds"
    by (intro resume_degrees [OF v d]) auto
  moreover have "(if ?done i then NodeDone else NodePending) = NodeDone \<longleftrightarrow> ?done i" for i by simp
  ultimately have "\<forall>i ds. (i, ds) \<in> set (graph_of (e_nodes env)) \<longrightarrow> x_inDegree ?s i = open_deps (settled ?s) ds"
    unfolding set by (simp add: initial_def Let_def)
  moreover have "x_pending ?s = int (length (with_status env NodePending ?s))"
    by (simp add: with_status_def st) (simp add: initial_def Let_def)
  ultimately show "sched_inv env [] (ready_nodes env ?s) ?s"
    unfolding sched_inv_def using qu run by (simp add: fl started_def) (auto simp: st)
qed

lemma start_run_keeps:
  assumes "valid_env env"
    and p1: "\<And>i s s'. P s \<Longrightarrow> i \<in> set (ids_of env) \<Longrightarrow> x_inDegree s i = 0 \<and> x_status s i = NodePending \<Longrightarrow>
      enqueueReady env (Suc (sched_fuel env)) i s = Some s' \<Longrightarrow> P s'"
    and p2: "\<And>s s'. P s \<Longrightarrow> sched_inv env [] {} s \<Longrightarrow> active_ok env s \<Longrightarrow> drainPQ env s = Some s' \<Longrightarrow> P s'"
  shows "\<exists>s. start_run env (initial env data store) = Some s \<and> ready_state env s \<and>
    drain_frame env (initial env data store) s \<and> (P (initial env data store) \<longrightarrow> P s)"
  unfolding start_run_def
  using valid_env_distinct [OF assms(1)] initial_inv [OF assms(1)]
  by (intro start_ready_ok [OF assms(1) p1 p2, where fresh = "ready_nodes env (initial env data store)"])
    (auto simp: ready_nodes_def)

lemma start_run_ok:
  assumes "valid_env env"
  shows "\<exists>s. start_run env (initial env data store) = Some s \<and> ready_state env s \<and>
    drain_frame env (initial env data store) s"
  using start_run_keeps [OF assms, of "\<lambda>_. True"] by blast

end
