(* ===== verification/DagSteps.thy ===== *)
theory DagSteps
  imports DagInv
begin

text \<open>
  The step relation of a DAG execution: the node goroutines of \<open>launchNodeAdvanced\<close>, the
  context, and the select loop, the drain and the returns of \<open>run\<close> and \<open>abort\<close>. Its
  invariant holds in every reachable state; from it follow the safety of the schedule, the
  concurrency limits, the absence of deadlocks and termination.
\<close>

section \<open>Slots\<close>

text \<open>The capacity of the channel \<open>sem\<close>, when there is one.\<close>

definition slot_limit :: "('m, 'u, 'o, 'd, 's) dag_env \<Rightarrow> nat option" where
  "slot_limit env =
     (if c_MaxConcurrency (e_cfg env) > 0 \<and> \<not> c_Backpressure (e_cfg env) \<and>
         \<not> c_PriorityScheduling (e_cfg env)
      then Some (nat (c_MaxConcurrency (e_cfg env))) else None)"

definition holders :: "('m, 'u, 'o, 'd, 's) exec \<Rightarrow> nat" where
  "holders s = length (filter g_acquired (x_flight s)) + x_releasing s"

definition slot_free :: "('m, 'u, 'o, 'd, 's) dag_env \<Rightarrow> ('m, 'u, 'o, 'd, 's) exec \<Rightarrow> bool" where
  "slot_free env s \<longleftrightarrow> (case slot_limit env of None \<Rightarrow> True | Some n \<Rightarrow> holders s < n)"

section \<open>Steps\<close>

text \<open>
  What the goroutine of a node posts once it has its slot: the outcome of its attempts, or the
  context's error when it was waiting for the resources of its tags.
\<close>

definition may_post :: "('m, 'u, 'o, 'd, 's) dag_env \<Rightarrow> go_error option \<Rightarrow> ('m, 'o, 'd) goroutine
      \<Rightarrow> ('m, 'u, 'd) completion \<Rightarrow> bool" where
  "may_post env ctx g c \<longleftrightarrow>
     (case node_of (e_nodes env) (g_id g) of
        None \<Rightarrow> False
      | Some node \<Rightarrow>
          (\<exists>ae. e_run env (g_id g) (g_req g) ae \<and> c = fst (node_attempts node ae)) \<or>
          (n_ResourceTags node \<noteq> [] \<and> (case ctx of None \<Rightarrow> False | Some e \<Rightarrow> c = failed (g_id g) e)))"

definition post :: "('m, 'u, 'd) completion \<Rightarrow> ('m, 'o, 'd) goroutine list
      \<Rightarrow> ('m, 'u, 'o, 'd, 's) exec \<Rightarrow> ('m, 'u, 'o, 'd, 's) exec" where
  "post c others s =
     (let s1 = record_call (RecordEnd (nc_nodeID c)
                 (if nc_err c = None then NodeDone else NodeFailed)) s in
      s1\<lparr>x_flight := others, x_doneCh := x_doneCh s1 @ [c]\<rparr>)"

inductive dag_step :: "('m, 'u, 'o, 'd, 's) dag_env \<Rightarrow> ('m, 'u, 'o, 'd, 's) exec
      \<Rightarrow> ('m, 'u, 'o, 'd, 's) exec \<Rightarrow> bool" for env where
  acquire: "x_flight s = gs1 @ g # gs2 \<Longrightarrow> \<not> g_acquired g \<Longrightarrow> slot_free env s \<Longrightarrow>
    dag_step env s (s\<lparr>x_flight := gs1 @ g\<lparr>g_acquired := True\<rparr> # gs2\<rparr>)"
| abandon: "x_flight s = gs1 @ g # gs2 \<Longrightarrow> \<not> g_acquired g \<Longrightarrow> x_ctx s = Some e \<Longrightarrow>
    length (x_doneCh s) < length (e_nodes env) \<Longrightarrow>
    dag_step env s (post (failed (g_id g) e) (gs1 @ gs2) s)"
| finish: "x_flight s = gs1 @ g # gs2 \<Longrightarrow> g_acquired g \<Longrightarrow> may_post env (x_ctx s) g c \<Longrightarrow>
    length (x_doneCh s) < length (e_nodes env) \<Longrightarrow>
    dag_step env s ((post c (gs1 @ gs2) s)\<lparr>x_releasing := x_releasing s + 1\<rparr>)"
| release: "x_releasing s = Suc n \<Longrightarrow> dag_step env s (s\<lparr>x_releasing := n\<rparr>)"
| ctx_done: "x_ctx s = None \<Longrightarrow> e = Canceled \<or> e = DeadlineExceeded \<Longrightarrow>
    dag_step env s (s\<lparr>x_ctx := Some e\<rparr>)"
| receive: "x_pc s = Looping \<Longrightarrow> x_pending s > 0 \<Longrightarrow> x_doneCh s = c # cs \<Longrightarrow>
    handleCompletion env c (s\<lparr>x_doneCh := cs, x_pending := x_pending s - 1\<rparr>) = Some s' \<Longrightarrow>
    dag_step env s s'"
| observe: "x_pc s = Looping \<Longrightarrow> x_pending s > 0 \<Longrightarrow> x_ctx s = Some e \<Longrightarrow>
    dag_step env s (start_abort (countRunning env s) (FailWith e) s)"
| complete: "x_pc s = Looping \<Longrightarrow> \<not> x_pending s > 0 \<Longrightarrow> dag_step env s (finalize env s)"
| drain: "x_pc s = Draining (Suc k) goal \<Longrightarrow> x_doneCh s = c # cs \<Longrightarrow>
    dag_step env s (s\<lparr>x_doneCh := cs, x_pc := Draining k goal\<rparr>)"
| drained: "x_pc s = Draining 0 goal \<Longrightarrow> finish_abort env goal s = Some s' \<Longrightarrow> dag_step env s s'"

inductive_cases dag_stepE: "dag_step env s s'"

text \<open>
  The states of the executions that \<open>ExecuteDAG\<close> starts; \<open>env\<close> has the nodes with the
  priorities they got.
\<close>

inductive reachable :: "('m, 'u, 'o, 'd, 's) dag_env \<Rightarrow> 's \<Rightarrow> ('m, 'u, 'o, 'd, 's) dag_env
      \<Rightarrow> ('m, 'u, 'o, 'd, 's) exec \<Rightarrow> bool" for env0 store env where
  start: "newDagExecutor env0 store = Some (Inr (env, s0)) \<Longrightarrow> start_run env s0 = Some s \<Longrightarrow>
    reachable env0 store env s"
| step: "reachable env0 store env s \<Longrightarrow> dag_step env s s' \<Longrightarrow> reachable env0 store env s'"

section \<open>The invariant\<close>

definition goal_ok :: "('m, 'u, 'o, 'd, 's) dag_env \<Rightarrow> drain_goal \<Rightarrow> bool" where
  "goal_ok env goal \<longleftrightarrow> (\<forall>e. goal = CompensateThenFail e \<longrightarrow> c_CompensateCfg (e_cfg env) \<noteq> None)"

definition started_ok :: "('m, 'u, 'o, 'd, 's) dag_env \<Rightarrow> ('m, 'u, 'o, 'd, 's) exec \<Rightarrow> bool" where
  "started_ok env s \<longleftrightarrow> distinct (started s) \<and>
     set (started s) \<subseteq> {i \<in> set (ids_of env). x_status s i = NodeRunning}"

definition pc_ok :: "('m, 'u, 'o, 'd, 's) dag_env \<Rightarrow> ('m, 'u, 'o, 'd, 's) exec \<Rightarrow> bool" where
  "pc_ok env s \<longleftrightarrow>
     (case x_pc s of
        Looping \<Rightarrow> ready_state env s
      | Draining k goal \<Rightarrow> length (started s) = k \<and> goal_ok env goal \<and> x_ctx s \<noteq> None
      | Returned r \<Rightarrow> started s = [])"

definition slots_ok :: "('m, 'u, 'o, 'd, 's) dag_env \<Rightarrow> ('m, 'u, 'o, 'd, 's) exec \<Rightarrow> bool" where
  "slots_ok env s \<longleftrightarrow> (\<forall>n. slot_limit env = Some n \<longrightarrow> holders s \<le> n)"

text \<open>With a priority queue the limit is on the nodes started and not yet handled.\<close>

definition limit_ok :: "('m, 'u, 'o, 'd, 's) dag_env \<Rightarrow> ('m, 'u, 'o, 'd, 's) exec \<Rightarrow> bool" where
  "limit_ok env s \<longleftrightarrow> (x_pq s \<noteq> None \<and> c_MaxConcurrency (e_cfg env) > 0 \<longrightarrow>
     int (length (started s)) \<le> c_MaxConcurrency (e_cfg env))"

definition dag_inv :: "('m, 'u, 'o, 'd, 's) dag_env \<Rightarrow> ('m, 'u, 'o, 'd, 's) exec \<Rightarrow> bool" where
  "dag_inv env s \<longleftrightarrow> started_ok env s \<and> pc_ok env s \<and> slots_ok env s \<and> limit_ok env s \<and>
     (x_pq s = None \<longleftrightarrow> \<not> c_PriorityScheduling (e_cfg env))"

lemma sched_inv_started: "valid_env env \<Longrightarrow> sched_inv env todo fresh s \<Longrightarrow> started_ok env s"
proof -
  assume v: "valid_env env" and inv: "sched_inv env todo fresh s"
  have m: "mset (started s) = mset (with_status env NodeRunning s)" using inv by (simp add: sched_inv_def)
  have "distinct (with_status env NodeRunning s)"
    using valid_env_distinct [OF v] by (simp add: with_status_def)
  then have "distinct (started s)" using m by (metis mset_eq_imp_distinct_iff)
  moreover have "set (started s) \<subseteq> {i \<in> set (ids_of env). x_status s i = NodeRunning}"
    using mset_eq_setD [OF m] by (auto simp: with_status_def)
  ultimately show ?thesis by (simp add: started_ok_def)
qed

text \<open>What the environment's steps may change while the main goroutine waits.\<close>

lemma started_capacity:
  assumes "started_ok env s" shows "length (x_flight s) + length (x_doneCh s) \<le> length (e_nodes env)"
proof -
  have "length (started s) = card (set (started s))" using assms by (simp add: started_ok_def distinct_card)
  also have "\<dots> \<le> card (set (ids_of env))" using assms by (intro card_mono) (auto simp: started_ok_def)
  also have "\<dots> \<le> length (e_nodes env)" using card_length [of "ids_of env"] by (simp add: ids_of_def)
  finally show ?thesis by (simp add: started_def)
qed

lemma dag_inv_env_step:
  assumes inv: "dag_inv env s"
    and same: "x_status s' = x_status s" "x_inDegree s' = x_inDegree s" "x_pending s' = x_pending s"
      "x_pq s' = x_pq s" "x_activePQ s' = x_activePQ s" "x_pc s' = x_pc s"
    and st: "mset (started s') = mset (started s)" and ctx: "x_ctx s \<noteq> None \<longrightarrow> x_ctx s' \<noteq> None"
    and sl: "slots_ok env s'"
  shows "dag_inv env s'"
proof -
  have "distinct (started s') = distinct (started s)" and "set (started s') = set (started s)"
    and len: "length (started s') = length (started s)"
    using st by (metis mset_eq_imp_distinct_iff, metis mset_eq_setD, metis mset_eq_length)
  then have "started_ok env s'" using inv same(1) by (simp add: dag_inv_def started_ok_def)
  moreover have "ready_state env s' = ready_state env s"
    unfolding ready_state_def active_ok_def drained_def may_launch_def with_status_def
      sched_inv_cong [OF same(1,2,3) st same(4)] same ..
  then have "pc_ok env s'"
    using inv len ctx same st by (auto simp: dag_inv_def pc_ok_def split: main_pc.splits)
  ultimately show ?thesis using inv sl same len by (auto simp: dag_inv_def limit_ok_def)
qed

lemma ready_state_limit: "ready_state env s \<Longrightarrow> limit_ok env s"
  using mset_eq_length [of "started s" "with_status env NodeRunning s"]
  by (auto simp: ready_state_def limit_ok_def active_ok_def sched_inv_def)


section \<open>Handling a completion\<close>

lemma emit_frame [frame_simps]:
  "x_status (emit env ev s) = x_status s"
  "x_inDegree (emit env ev s) = x_inDegree s"
  "x_pending (emit env ev s) = x_pending s"
  "x_pq (emit env ev s) = x_pq s"
  "x_activePQ (emit env ev s) = x_activePQ s"
  "x_flight (emit env ev s) = x_flight s"
  "x_releasing (emit env ev s) = x_releasing s"
  "x_doneCh (emit env ev s) = x_doneCh s"
  "x_ctx (emit env ev s) = x_ctx s"
  "x_pc (emit env ev s) = x_pc s"
  "x_results (emit env ev s) = x_results s"
  "x_totalUsage (emit env ev s) = x_totalUsage s"
  "x_store (emit env ev s) = x_store s"
  "x_timeline (emit env ev s) = x_timeline s"
  by (simp_all add: emit_def)

lemma save_frame [frame_simps]:
  "x_status (saveCheckpoint env i r s) = x_status s"
  "x_inDegree (saveCheckpoint env i r s) = x_inDegree s"
  "x_pending (saveCheckpoint env i r s) = x_pending s"
  "x_pq (saveCheckpoint env i r s) = x_pq s"
  "x_activePQ (saveCheckpoint env i r s) = x_activePQ s"
  "x_flight (saveCheckpoint env i r s) = x_flight s"
  "x_releasing (saveCheckpoint env i r s) = x_releasing s"
  "x_doneCh (saveCheckpoint env i r s) = x_doneCh s"
  "x_ctx (saveCheckpoint env i r s) = x_ctx s"
  "x_pc (saveCheckpoint env i r s) = x_pc s"
  "x_results (saveCheckpoint env i r s) = x_results s"
  "x_totalUsage (saveCheckpoint env i r s) = x_totalUsage s"
  by (auto simp: saveCheckpoint_def Let_def frame_simps split: option.splits prod.splits)

lemma usage_frame [frame_simps]:
  "x_status (add_usage env r s) = x_status s"
  "x_inDegree (add_usage env r s) = x_inDegree s"
  "x_pending (add_usage env r s) = x_pending s"
  "x_pq (add_usage env r s) = x_pq s"
  "x_activePQ (add_usage env r s) = x_activePQ s"
  "x_flight (add_usage env r s) = x_flight s"
  "x_releasing (add_usage env r s) = x_releasing s"
  "x_doneCh (add_usage env r s) = x_doneCh s"
  "x_ctx (add_usage env r s) = x_ctx s"
  "x_pc (add_usage env r s) = x_pc s"
  "x_results (add_usage env r s) = x_results s"
  "x_store (add_usage env r s) = x_store s"
  by (auto simp: add_usage_def split: option.splits)

lemma result_frame [frame_simps]:
  "x_status (set_result i r s) = x_status s"
  "x_inDegree (set_result i r s) = x_inDegree s"
  "x_pending (set_result i r s) = x_pending s"
  "x_pq (set_result i r s) = x_pq s"
  "x_activePQ (set_result i r s) = x_activePQ s"
  "x_flight (set_result i r s) = x_flight s"
  "x_releasing (set_result i r s) = x_releasing s"
  "x_doneCh (set_result i r s) = x_doneCh s"
  "x_ctx (set_result i r s) = x_ctx s"
  "x_pc (set_result i r s) = x_pc s"
  by (simp_all add: set_result_def)

lemma record_frame [frame_simps]:
  "x_status (record_call c s) = x_status s"
  "x_inDegree (record_call c s) = x_inDegree s"
  "x_pending (record_call c s) = x_pending s"
  "x_pq (record_call c s) = x_pq s"
  "x_activePQ (record_call c s) = x_activePQ s"
  "x_flight (record_call c s) = x_flight s"
  "x_releasing (record_call c s) = x_releasing s"
  "x_doneCh (record_call c s) = x_doneCh s"
  "x_ctx (record_call c s) = x_ctx s"
  "x_pc (record_call c s) = x_pc s"
  "x_results (record_call c s) = x_results s"
  "x_totalUsage (record_call c s) = x_totalUsage s"
  "x_store (record_call c s) = x_store s"
  by (simp_all add: record_call_def)

lemma status_frame [frame_simps]:
  "x_inDegree (set_status i st s) = x_inDegree s"
  "x_pending (set_status i st s) = x_pending s"
  "x_pq (set_status i st s) = x_pq s"
  "x_activePQ (set_status i st s) = x_activePQ s"
  "x_flight (set_status i st s) = x_flight s"
  "x_releasing (set_status i st s) = x_releasing s"
  "x_doneCh (set_status i st s) = x_doneCh s"
  "x_ctx (set_status i st s) = x_ctx s"
  "x_pc (set_status i st s) = x_pc s"
  "x_results (set_status i st s) = x_results s"
  "x_totalUsage (set_status i st s) = x_totalUsage s"
  "x_store (set_status i st s) = x_store s"
  by (simp_all add: set_status_def)

lemma set_status_status [frame_simps]: "x_status (set_status i st s) = (x_status s)(i := st)"
  by (simp add: set_status_def)

lemma settle_running:
  assumes v: "valid_env env" and inv: "sched_inv env [] {} s" and c: "x_doneCh s = c # cs"
    and i: "i = nc_nodeID c" and b: "b \<noteq> NodePending" "b \<noteq> NodeRunning"
    and s2: "x_status s2 = (x_status s)(i := b)" "x_inDegree s2 = x_inDegree s" "x_pending s2 = x_pending s - 1"
      "x_flight s2 = x_flight s" "x_doneCh s2 = cs" "x_pq s2 = x_pq s"
  shows "i \<in> set (ids_of env)"
    and "with_status env NodePending s2 = with_status env NodePending s"
    and "length (with_status env NodeRunning s) = Suc (length (with_status env NodeRunning s2))"
    and "length (started s2) = length (with_status env NodeRunning s2)"
    and "started_ok env s2"
    and "b = NodeDone \<or> b = NodeSkipped \<Longrightarrow> sched_inv env (downstream env i) {} s2"
proof -
  note d = valid_env_distinct [OF v]
  have m: "mset (started s) = mset (with_status env NodeRunning s)" using inv by (simp add: sched_inv_def)
  have st: "mset (started s) = add_mset i (mset (started s2))" using c i s2(4,5) by (simp add: started_def)
  then have "i \<in> set (with_status env NodeRunning s)" using mset_eq_setD [OF m] by (metis set_mset_mset union_single_eq_member)
  then have iids: "i \<in> set (ids_of env)" and run: "x_status s i = NodeRunning" by (auto simp: with_status_def)
  show "i \<in> set (ids_of env)" by (rule iids)
  note mv = with_status_move [OF d iids run _ s2(1)]
  show pend: "with_status env NodePending s2 = with_status env NodePending s" using mv(3) [of NodePending] b by auto
  have mr: "mset (with_status env NodeRunning s) = add_mset i (mset (with_status env NodeRunning s2))"
    using mv(1) b by metis
  then show len: "length (with_status env NodeRunning s) = Suc (length (with_status env NodeRunning s2))"
    by (metis size_add_mset size_mset)
  have m2: "mset (started s2) = mset (with_status env NodeRunning s2)" using m st mr by simp
  then show "length (started s2) = length (with_status env NodeRunning s2)" by (rule mset_eq_length)
  have "distinct (with_status env NodeRunning s2)" using d by (simp add: with_status_def)
  then show "started_ok env s2"
    using mset_eq_setD [OF m2] mset_eq_imp_distinct_iff [OF m2] by (auto simp: started_ok_def with_status_def)
  assume settle: "b = NodeDone \<or> b = NodeSkipped"
  have set: "settled s2 = insert i (settled s)" and ni: "i \<notin> settled s"
    using settle run by (auto simp: settled_def s2(1))
  have "ready_nodes env s2 = ready_nodes env s" using run b by (auto simp: ready_nodes_def s2)
  moreover have "queued s2 = queued s" "queue_ok s2 = queue_ok s" by (simp_all add: queued_def queue_ok_def s2)
  moreover have "\<forall>j ds. (j, ds) \<in> set (graph_of (e_nodes env)) \<longrightarrow>
      x_inDegree s2 j = open_deps (settled s2) ds + int (count_list (downstream env i) j)"
    using inv settle_open_deps [OF v ni set] unfolding sched_inv_def s2(2) by simp
  moreover have "\<forall>j ds. (j, ds) \<in> set (graph_of (e_nodes env)) \<longrightarrow> x_status s2 j = NodeRunning \<longrightarrow> set ds \<subseteq> settled s2"
  proof (intro allI impI)
    fix j ds assume "(j, ds) \<in> set (graph_of (e_nodes env))" and "x_status s2 j = NodeRunning"
    moreover from this(2) have "x_status s j = NodeRunning" using b by (auto simp: s2(1) split: if_splits)
    ultimately have "set ds \<subseteq> settled s" using inv unfolding sched_inv_def by blast
    then show "set ds \<subseteq> settled s2" using set by blast
  qed
  moreover have "\<forall>j\<in>set (ids_of env). x_status s2 j \<noteq> NodeFailed \<and> x_status s2 j \<noteq> NodeCompensated"
    using inv settle unfolding sched_inv_def s2(1) by auto
  ultimately show "sched_inv env (downstream env i) {} s2"
    using inv len pend m2 unfolding sched_inv_def by (simp add: s2(3))
qed

text \<open>What handling the head of \<open>doneCh\<close> does, on every branch.\<close>

definition handled :: "('m, 'u, 'o, 'd, 's) dag_env \<Rightarrow> ('m, 'u, 'o, 'd, 's) exec
      \<Rightarrow> ('m, 'u, 'o, 'd, 's) exec \<Rightarrow> bool" where
  "handled env s s' \<longleftrightarrow> started_ok env s' \<and> pc_ok env s' \<and> limit_ok env s' \<and>
     (case x_pc s' of Looping \<Rightarrow> x_ctx s' = x_ctx s | Draining k goal \<Rightarrow> True | Returned r \<Rightarrow> False) \<and>
     x_releasing s' = x_releasing s \<and> filter g_acquired (x_flight s') = filter g_acquired (x_flight s) \<and>
     (x_pq s' = None \<longleftrightarrow> x_pq s = None) \<and> work env s' < work env s"

lemma handled_proceed:
  assumes v: "valid_env env" and pc: "x_pc s = Looping"
    and s2: "sched_inv env (downstream env i) {} s2" "active_ok env s2"
    and same: "x_pc s2 = x_pc s" "x_ctx s2 = x_ctx s" "x_flight s2 = x_flight s" "x_releasing s2 = x_releasing s"
      "x_pq s2 = x_pq s" and w: "work env s2 < work env s"
  shows "\<exists>s'. proceed env i s2 = Some s' \<and> handled env s s'"
proof -
  obtain s' where s': "proceed env i s2 = Some s'" "ready_state env s'" "drain_frame env s2 s'"
    using proceed_ok [OF v s2] by blast
  have fr: "x_pc s' = x_pc s2" "x_ctx s' = x_ctx s2" "x_releasing s' = x_releasing s2"
    "filter g_acquired (x_flight s') = filter g_acquired (x_flight s2)"
    "x_pq s' = None \<longleftrightarrow> x_pq s2 = None" "work env s' \<le> work env s2"
    using s'(3) by (simp_all add: drain_frame_def sched_frame_def)
  have "started_ok env s'" using s'(2) sched_inv_started [OF v] by (auto simp: ready_state_def)
  then have "handled env s s'" using s'(2) fr same pc w ready_state_limit by (simp add: handled_def pc_ok_def)
  then show ?thesis using s'(1) by blast
qed

lemma handled_abort:
  assumes "started_ok env s2" and "length (started s2) = countRunning env s2" and "goal_ok env goal"
    and "limit_ok env s2"
    and "x_flight s2 = x_flight s" "x_releasing s2 = x_releasing s" "x_pq s2 = x_pq s"
    and w: "work env s2 < work env s"
  shows "handled env s (start_abort (countRunning env s2) goal s2)"
proof -
  let ?s = "start_abort (countRunning env s2) goal s2"
  have "x_status ?s = x_status s2" "started ?s = started s2" "x_pc ?s = Draining (countRunning env s2) goal" "x_ctx ?s \<noteq> None"
    "x_flight ?s = x_flight s2" "x_releasing ?s = x_releasing s2" "x_pq ?s = x_pq s2" "work env ?s = work env s2"
    by (auto simp: start_abort_def cancel_def started_def work_def with_status_def split: option.splits)
  then show ?thesis using assms by (simp add: handled_def started_ok_def pc_ok_def limit_ok_def)
qed

definition after_receive :: "('m, 'u, 'd) completion list \<Rightarrow> ('m, 'u, 'o, 'd, 's) exec
      \<Rightarrow> ('m, 'u, 'o, 'd, 's) exec" where
  "after_receive cs s =
     (let s1 = s\<lparr>x_doneCh := cs, x_pending := x_pending s - 1\<rparr> in
      if x_pq s1 \<noteq> None then s1\<lparr>x_activePQ := x_activePQ s1 - 1\<rparr> else s1)"

lemma after_receive_frame [frame_simps]:
  "x_status (after_receive cs s) = x_status s" "x_inDegree (after_receive cs s) = x_inDegree s"
  "x_pending (after_receive cs s) = x_pending s - 1" "x_pq (after_receive cs s) = x_pq s"
  "x_activePQ (after_receive cs s) = (if x_pq s \<noteq> None then x_activePQ s - 1 else x_activePQ s)"
  "x_flight (after_receive cs s) = x_flight s" "x_releasing (after_receive cs s) = x_releasing s"
  "x_doneCh (after_receive cs s) = cs" "x_ctx (after_receive cs s) = x_ctx s"
  "x_pc (after_receive cs s) = x_pc s" "x_results (after_receive cs s) = x_results s"
  by (simp_all add: after_receive_def Let_def)

text \<open>A state in which the received node has got its new status and the rest is as it was.\<close>

definition moved :: "string \<Rightarrow> node_status \<Rightarrow> ('m, 'u, 'd) completion list
      \<Rightarrow> ('m, 'u, 'o, 'd, 's) exec \<Rightarrow> ('m, 'u, 'o, 'd, 's) exec \<Rightarrow> bool" where
  "moved i b cs s s2 \<longleftrightarrow>
     x_status s2 = (x_status s)(i := b) \<and> x_inDegree s2 = x_inDegree s \<and> x_pending s2 = x_pending s - 1 \<and>
     x_flight s2 = x_flight s \<and> x_doneCh s2 = cs \<and> x_pq s2 = x_pq s \<and>
     x_activePQ s2 = (if x_pq s \<noteq> None then x_activePQ s - 1 else x_activePQ s) \<and>
     x_releasing s2 = x_releasing s \<and> x_ctx s2 = x_ctx s \<and> x_pc s2 = x_pc s"

lemma moved_ok:
  assumes v: "valid_env env" and r: "ready_state env s" and pc: "x_pc s = Looping"
    and c: "x_doneCh s = c # cs" and b: "b \<noteq> NodePending" "b \<noteq> NodeRunning"
    and m: "moved (nc_nodeID c) b cs s s2"
  shows "goal_ok env goal \<Longrightarrow> handled env s (start_abort (countRunning env s2) goal s2)"
    and "b = NodeDone \<or> b = NodeSkipped \<Longrightarrow>
      \<exists>s'. proceed env (nc_nodeID c) s2 = Some s' \<and> handled env s s'"
proof -
  have inv: "sched_inv env [] {} s" and act: "active_ok env s" using r by (simp_all add: ready_state_def)
  have s2: "x_status s2 = (x_status s)(nc_nodeID c := b)" "x_inDegree s2 = x_inDegree s"
    "x_pending s2 = x_pending s - 1" "x_flight s2 = x_flight s" "x_doneCh s2 = cs" "x_pq s2 = x_pq s"
    and rest: "x_activePQ s2 = (if x_pq s \<noteq> None then x_activePQ s - 1 else x_activePQ s)"
      "x_releasing s2 = x_releasing s" "x_ctx s2 = x_ctx s" "x_pc s2 = x_pc s"
    using m by (simp_all add: moved_def)
  note st = settle_running [OF v inv c refl b s2]
  have w: "work env s2 < work env s" using st(2) c by (simp add: work_def s2 rest)
  have "active_ok env s2" using act st(3) by (auto simp: active_ok_def s2(6) rest(1))
  then show "b = NodeDone \<or> b = NodeSkipped \<Longrightarrow>
      \<exists>s'. proceed env (nc_nodeID c) s2 = Some s' \<and> handled env s s'"
    using st(6) rest s2 w by (intro handled_proceed [OF v pc]) auto
  have "limit_ok env s2"
    using ready_state_limit [OF r] c s2 by (auto simp: limit_ok_def started_def)
  then show "goal_ok env goal \<Longrightarrow> handled env s (start_abort (countRunning env s2) goal s2)"
    using st(4,5) rest s2 w by (intro handled_abort) (auto simp: countRunning_eq)
qed

lemma handleNodeSuccess_ok:
  assumes v: "valid_env env" and r: "ready_state env s" and pc: "x_pc s = Looping"
    and c: "x_doneCh s = c # cs"
  shows "\<exists>s'. handleNodeSuccess env (nc_nodeID c) resp (after_receive cs s) = Some s' \<and> handled env s s'"
proof -
  let ?i = "nc_nodeID c"
  let ?s2 = "saveCheckpoint env ?i resp (add_usage env resp (emit env (OnNodeComplete ?i NodeDone None)
    (set_result ?i resp (set_status ?i NodeDone (after_receive cs s)))))"
  have "moved ?i NodeDone cs s ?s2" by (simp add: moved_def frame_simps)
  note ok = moved_ok [OF v r pc c _ _ this, simplified]
  have "goal_ok env EarlyExit" "goal_ok env (FailWith e)" for e by (simp_all add: goal_ok_def)
  then show ?thesis
    using ok by (auto simp: handleNodeSuccess_def Let_def split: option.splits if_splits)
qed

lemma handleNodeError_ok:
  assumes v: "valid_env env" and r: "ready_state env s" and pc: "x_pc s = Looping"
    and c: "x_doneCh s = c # cs"
  shows "\<exists>s'. handleNodeError env (nc_nodeID c) err (after_receive cs s) = Some s' \<and> handled env s s'"
proof -
  let ?i = "nc_nodeID c"
  let ?s1 = "emit env (OnNodeComplete ?i NodeFailed (Some err)) (set_status ?i NodeFailed (after_receive cs s))"
  have inv: "sched_inv env [] {} s" using r by (simp add: ready_state_def)
  have i: "?i \<in> set (ids_of env)"
    by (rule settle_running(1) [OF v inv c refl, of NodeDone "s\<lparr>x_status := (x_status s)(?i := NodeDone),
      x_pending := x_pending s - 1, x_doneCh := cs\<rparr>"]) simp_all
  then obtain node where n: "node_of (e_nodes env) ?i = Some node" using node_of_ids by blast
  have "moved ?i NodeFailed cs s ?s1" by (simp add: moved_def frame_simps)
  note abort = moved_ok(1) [OF v r pc c _ _ this, simplified]
  have "moved ?i NodeSkipped cs s (set_status ?i NodeSkipped ?s1)" by (simp add: moved_def frame_simps)
  note skip = moved_ok(2) [OF v r pc c _ _ this, simplified]
  have "moved ?i NodeDone cs s (record_call (RecordEnd ?i NodeDone) (saveCheckpoint env ?i (Some resp)
     (add_usage env (Some resp) (emit env (OnNodeComplete ?i NodeDone None)
        (set_result ?i (Some resp) (set_status ?i NodeDone ?s1))))))" for resp
    by (simp add: moved_def frame_simps)
  note recov = moved_ok(2) [OF v r pc c _ _ this, simplified]
  have other: "?thesis" if "\<not> (c_ErrorStrategy (e_cfg env) = Compensate \<and> c_CompensateCfg (e_cfg env) \<noteq> None)"
  proof -
    have "handleNodeError env ?i err (after_receive cs s) =
        (if c_ErrorStrategy (e_cfg env) = Abort \<or> \<not> n_Optional node
         then Some (start_abort (countRunning env ?s1) (FailWith (node_failed ?i (Some err))) ?s1)
         else proceed env ?i (set_status ?i NodeSkipped ?s1))"
      using that n by (auto simp: handleNodeError_def Let_def split: error_strategy.splits option.splits)
    then show ?thesis using abort skip by (simp add: goal_ok_def)
  qed
  show ?thesis
  proof (cases "c_ErrorStrategy (e_cfg env) = Compensate \<and> c_CompensateCfg (e_cfg env) \<noteq> None")
    case True
    then obtain ccfg where cc: "c_ErrorStrategy (e_cfg env) = Compensate" "c_CompensateCfg (e_cfg env) = Some ccfg"
      by blast
    have g: "goal_ok env (CompensateThenFail e)" for e using cc by (simp add: goal_ok_def)
    show ?thesis
      using recov abort [OF g] cc n by (auto simp: handleNodeError_def Let_def split: option.splits)
  qed (rule other)
qed

lemma handleCompletion_ok:
  assumes "valid_env env" and "ready_state env s" and "x_pc s = Looping" and "x_doneCh s = c # cs"
  shows "\<exists>s'. handleCompletion env c (s\<lparr>x_doneCh := cs, x_pending := x_pending s - 1\<rparr>) = Some s' \<and>
    handled env s s'"
proof -
  have "handleCompletion env c (s\<lparr>x_doneCh := cs, x_pending := x_pending s - 1\<rparr>) =
     (case nc_err c of
        Some err \<Rightarrow> handleNodeError env (nc_nodeID c) err (after_receive cs s)
      | None \<Rightarrow> handleNodeSuccess env (nc_nodeID c) (nc_resp c) (after_receive cs s))"
    unfolding handleCompletion_def after_receive_def Let_def ..
  then show ?thesis
    using handleNodeError_ok [OF assms] handleNodeSuccess_ok [OF assms] by (cases "nc_err c") auto
qed

section \<open>Every step keeps the invariant and uses up work\<close>

definition steps_left :: "('m, 'u, 'o, 'd, 's) dag_env \<Rightarrow> ('m, 'u, 'o, 'd, 's) exec \<Rightarrow> nat" where
  "steps_left env s = work env s + (if x_ctx s = None then 1 else 0) +
     (case x_pc s of Looping \<Rightarrow> 2 | Draining k goal \<Rightarrow> 1 | Returned r \<Rightarrow> 0)"

text \<open>The ends of the main goroutine.\<close>

lemma finalize_props:
  "x_status (finalize env s) = x_status s" "x_flight (finalize env s) = x_flight s"
  "x_doneCh (finalize env s) = x_doneCh s" "x_releasing (finalize env s) = x_releasing s"
  "x_ctx (finalize env s) = x_ctx s" "x_pq (finalize env s) = x_pq s"
  "\<exists>r. x_pc (finalize env s) = Returned r"
  by (auto simp: finalize_def Let_def split: sum.splits option.splits)

lemma finish_abort_props:
  assumes "valid_env env" and "goal_ok env goal"
  shows "\<exists>s'. finish_abort env goal s = Some s'"
    and "finish_abort env goal s = Some s' \<Longrightarrow>
      x_flight s' = x_flight s \<and> x_doneCh s' = x_doneCh s \<and> x_releasing s' = x_releasing s \<and>
      x_ctx s' = x_ctx s \<and> x_pq s' = x_pq s \<and> (\<exists>r. x_pc s' = Returned r) \<and>
      (\<forall>i. x_status s' i = x_status s i \<or> x_status s i = NodeDone \<and> x_status s' i = NodeCompensated)"
proof -
  have total: "\<exists>err status' calls. executeBackwardCompensation ccfg (e_nodes env) (x_results s) (e_comp env) (x_status s)
      = Some (err, status', calls) \<and>
      (\<forall>i. status' i = x_status s i \<or> x_status s i = NodeDone \<and> status' i = NodeCompensated)" for ccfg
    using assms(1) by (intro backward_total) (simp add: valid_env_def)
  show "\<exists>s'. finish_abort env goal s = Some s'"
  proof (cases goal)
    case (CompensateThenFail e)
    then obtain ccfg where cc: "c_CompensateCfg (e_cfg env) = Some ccfg" using assms(2) by (auto simp: goal_ok_def)
    obtain err status' calls where "executeBackwardCompensation ccfg (e_nodes env) (x_results s) (e_comp env)
        (x_status s) = Some (err, status', calls)" using total [of ccfg] by blast
    then show ?thesis by (simp add: finish_abort_def CompensateThenFail cc)
  qed (simp_all add: finish_abort_def)
  assume f: "finish_abort env goal s = Some s'"
  show "x_flight s' = x_flight s \<and> x_doneCh s' = x_doneCh s \<and> x_releasing s' = x_releasing s \<and>
      x_ctx s' = x_ctx s \<and> x_pq s' = x_pq s \<and> (\<exists>r. x_pc s' = Returned r) \<and>
      (\<forall>i. x_status s' i = x_status s i \<or> x_status s i = NodeDone \<and> x_status s' i = NodeCompensated)"
  proof (cases goal)
    case (CompensateThenFail e)
    then obtain ccfg where cc: "c_CompensateCfg (e_cfg env) = Some ccfg" using assms(2) by (auto simp: goal_ok_def)
    obtain err status' calls where e: "executeBackwardCompensation ccfg (e_nodes env) (x_results s) (e_comp env)
        (x_status s) = Some (err, status', calls)"
      "\<forall>i. status' i = x_status s i \<or> x_status s i = NodeDone \<and> status' i = NodeCompensated"
      using total [of ccfg] by blast
    have "s' = s\<lparr>x_status := status', x_outUsage := x_totalUsage s, x_pc := Returned (Some e)\<rparr>"
      using f e(1) by (simp add: finish_abort_def CompensateThenFail cc)
    then show ?thesis using e(2) by simp
  next
    case (FailWith e)
    then show ?thesis using f by (auto simp: finish_abort_def)
  next
    case EarlyExit
    then have "s' = finalize env s" using f by (simp add: finish_abort_def)
    then show ?thesis using finalize_props [of env s] by simp
  qed
qed

lemma work_status_le:
  assumes "\<forall>i. x_status s' i = x_status s i \<or> x_status s i = NodeDone \<and> x_status s' i = NodeCompensated"
    and "x_flight s' = x_flight s" "x_doneCh s' = x_doneCh s" "x_releasing s' = x_releasing s"
  shows "work env s' = work env s"
proof -
  have "with_status env NodePending s' = with_status env NodePending s"
    unfolding with_status_def
  proof (intro filter_cong refl)
    fix i show "(x_status s' i = NodePending) = (x_status s i = NodePending)"
      using assms(1) [THEN spec, of i] by auto
  qed
  then show ?thesis using assms by (simp add: work_def)
qed

lemma post_props:
  "x_status (post c gs s) = x_status s" "x_inDegree (post c gs s) = x_inDegree s"
  "x_pending (post c gs s) = x_pending s" "x_pq (post c gs s) = x_pq s"
  "x_activePQ (post c gs s) = x_activePQ s" "x_pc (post c gs s) = x_pc s"
  "x_ctx (post c gs s) = x_ctx s" "x_releasing (post c gs s) = x_releasing s"
  "x_flight (post c gs s) = gs" "x_doneCh (post c gs s) = x_doneCh s @ [c]"
  by (simp_all add: post_def record_call_def Let_def)

lemma may_post_id: "may_post env ctx g c \<Longrightarrow> nc_nodeID c = g_id g"
proof -
  assume m: "may_post env ctx g c"
  then obtain node where n: "node_of (e_nodes env) (g_id g) = Some node"
    by (auto simp: may_post_def split: option.splits)
  have "nc_nodeID (fst (node_attempts node ae)) = n_ID node" for ae
    using attempt_loop_props [OF surjective_pairing max_attempts_pos, of "n_ID node" ae "n_Retries node" 0 None]
    by (simp add: node_attempts_def)
  then show ?thesis using m n node_of_Some [OF n] by (auto simp: may_post_def failed_def split: option.splits)
qed

lemma drain_step_inv:
  assumes "dag_inv env s" and "x_pc s = Draining (Suc k) goal" and "x_doneCh s = c # cs"
  shows "dag_inv env (s\<lparr>x_doneCh := cs, x_pc := Draining k goal\<rparr>)"
  using assms by (auto simp: dag_inv_def started_ok_def started_def pc_ok_def slots_ok_def limit_ok_def holders_def)

lemma returned_inv:
  assumes "dag_inv env s" and "started s = []" and "x_flight s' = x_flight s" "x_doneCh s' = x_doneCh s"
    "x_releasing s' = x_releasing s" "x_pq s' = x_pq s" "x_pc s' = Returned r"
  shows "dag_inv env s'"
proof -
  have "started s' = []" using assms by (simp add: started_def)
  then show ?thesis using assms
    by (simp add: dag_inv_def started_ok_def pc_ok_def slots_ok_def limit_ok_def holders_def)
qed


lemma flight_lengths:
  "x_flight s = gs1 @ g # gs2 \<Longrightarrow>
   length (filter p (x_flight s)) = length (filter p (gs1 @ gs2)) + (if p g then 1 else 0)"
  by simp

lemma dag_step_keeps:
  assumes v: "valid_env env" and inv: "dag_inv env s" and step: "dag_step env s s'"
  shows "dag_inv env s' \<and> steps_left env s' < steps_left env s"
  using step
proof cases
  case (acquire gs1 g gs2)
  have sl: "slots_ok env s'"
    using acquire by (auto simp: slots_ok_def slot_free_def holders_def)
  have "dag_inv env s'"
    by (rule dag_inv_env_step [OF inv _ _ _ _ _ _ _ _ sl]) (simp_all add: acquire started_def)
  moreover have "work env s' < work env s" using acquire by (simp add: work_def with_status_def)
  ultimately show ?thesis using acquire by (simp add: steps_left_def)
next
  case (abandon gs1 g gs2 e)
  have sl: "slots_ok env s'" using abandon inv
    by (auto simp: slots_ok_def holders_def post_props dag_inv_def)
  have "dag_inv env s'"
    by (rule dag_inv_env_step [OF inv _ _ _ _ _ _ _ _ sl])
      (simp_all add: abandon started_def post_props failed_def)
  moreover have "work env s' < work env s"
    using abandon by (simp add: work_def with_status_def post_props)
  ultimately show ?thesis using abandon by (simp add: steps_left_def post_props)
next
  case (finish gs1 g gs2 c)
  have sl: "slots_ok env s'" using finish inv
    by (auto simp: slots_ok_def holders_def post_props dag_inv_def)
  have "dag_inv env s'"
    by (rule dag_inv_env_step [OF inv _ _ _ _ _ _ _ _ sl])
      (simp_all add: finish started_def post_props may_post_id [OF finish(4)])
  moreover have "work env s' < work env s"
    using finish by (simp add: work_def with_status_def post_props)
  ultimately show ?thesis using finish by (simp add: steps_left_def post_props)
next
  case (release n)
  have sl: "slots_ok env s'" using release inv by (auto simp: slots_ok_def holders_def dag_inv_def)
  have "dag_inv env s'"
    by (rule dag_inv_env_step [OF inv _ _ _ _ _ _ _ _ sl]) (simp_all add: release started_def)
  moreover have "work env s' < work env s" using release by (simp add: work_def with_status_def)
  ultimately show ?thesis using release by (simp add: steps_left_def)
next
  case (ctx_done e)
  have sl: "slots_ok env s'" using ctx_done inv by (auto simp: slots_ok_def holders_def dag_inv_def)
  have "dag_inv env s'"
    by (rule dag_inv_env_step [OF inv _ _ _ _ _ _ _ _ sl]) (simp_all add: ctx_done started_def)
  moreover have "work env s' = work env s" using ctx_done by (simp add: work_def with_status_def)
  ultimately show ?thesis using ctx_done by (simp add: steps_left_def)
next
  case (receive c cs)
  have r: "ready_state env s" using inv receive by (simp add: dag_inv_def pc_ok_def)
  have h: "handled env s s'" using handleCompletion_ok [OF v r receive(1,3)] receive(4) by simp
  have "dag_inv env s'" using h inv by (auto simp: dag_inv_def handled_def slots_ok_def holders_def)
  moreover have "steps_left env s' < steps_left env s"
    using h receive(1) unfolding steps_left_def handled_def pc_ok_def by (cases "x_pc s'") auto
  ultimately show ?thesis ..
next
  case (observe e)
  have r: "ready_state env s" using inv observe by (simp add: dag_inv_def pc_ok_def)
  then have m: "mset (started s) = mset (with_status env NodeRunning s)"
    by (simp add: ready_state_def sched_inv_def)
  have c: "cancel s = s" using observe by (simp add: cancel_def)
  have s': "s' = s\<lparr>x_pc := Draining (length (started s)) (FailWith e)\<rparr>"
    using observe c mset_eq_length [OF m] by (simp add: start_abort_def countRunning_eq)
  have "started s' = started s" by (simp add: s' started_def)
  then have "dag_inv env s'" using inv observe(2-4) s'
    by (auto simp: dag_inv_def started_ok_def pc_ok_def slots_ok_def limit_ok_def holders_def goal_ok_def)
  moreover have "work env s' = work env s" by (simp add: s' work_def with_status_def)
  ultimately show ?thesis using observe(2-4) by (simp add: steps_left_def s')
next
  case complete
  have r: "ready_state env s" using inv complete by (simp add: dag_inv_def pc_ok_def)
  then have "x_pending s = int (length (with_status env NodePending s)) + int (length (with_status env NodeRunning s))"
    by (simp add: ready_state_def sched_inv_def)
  then have "length (with_status env NodeRunning s) = 0" using complete(3) by linarith
  then have nil: "started s = []" using r by (simp add: ready_state_def sched_inv_def)
  obtain ret where ret: "x_pc s' = Returned ret" using finalize_props(7) complete(1) by metis
  have "dag_inv env s'"
    by (rule returned_inv [OF inv nil _ _ _ _ ret]) (simp_all add: complete finalize_props)
  moreover have "work env s' = work env s"
    by (rule work_status_le) (simp_all add: complete finalize_props)
  ultimately show ?thesis using complete ret by (simp add: steps_left_def finalize_props)
next
  case (drain k goal c cs)
  have "dag_inv env s'" using drain_step_inv [OF inv drain(2,3)] drain(1) by simp
  moreover have "work env s' < work env s" using drain by (simp add: work_def with_status_def)
  ultimately show ?thesis using drain by (simp add: steps_left_def)
next
  case (drained goal)
  have g: "goal_ok env goal" and nil: "started s = []"
    using inv drained(1) by (simp_all add: dag_inv_def pc_ok_def)
  note p = finish_abort_props(2) [OF v g drained(2)]
  obtain ret where ret: "x_pc s' = Returned ret" using p by blast
  have "dag_inv env s'" by (rule returned_inv [OF inv nil _ _ _ _ ret]) (simp_all add: p)
  moreover have "work env s' = work env s" by (rule work_status_le) (simp_all add: p)
  ultimately show ?thesis using drained ret p by (simp add: steps_left_def)
qed

lemma with_priorities_graph:
  "with_priorities cfg nodes = Some nodes' \<Longrightarrow> graph_of nodes' = graph_of nodes"
  by (auto simp: with_priorities_def graph_of_def split: if_splits)

lemma newDagExecutor_Inr:
  assumes "newDagExecutor env0 store = Some (Inr (env, s0))"
  shows "valid_env env \<and> e_cfg env = e_cfg env0 \<and> graph_of (e_nodes env) = graph_of (e_nodes env0) \<and>
    (\<exists>data. s0 = initial env data store)"
proof -
  obtain nodes where v: "ValidateDAG (e_nodes env0) = None"
    and n: "with_priorities (e_cfg env0) (e_nodes env0) = Some nodes"
    and e: "env = env0\<lparr>e_nodes := nodes\<rparr>" and s0: "\<exists>data. s0 = initial env data store"
    using assms by (auto simp: newDagExecutor_def Let_def split: option.splits sum.splits)
  show ?thesis using ValidateDAG_valid [OF v] with_priorities_graph [OF n] s0 by (simp add: e valid_env_def)
qed

lemma started_dag_inv:
  assumes "newDagExecutor env0 store = Some (Inr (env, s0))" and "start_run env s0 = Some s"
  shows "valid_env env" and "dag_inv env s" and "x_pc s = Looping"
    and "steps_left env s \<le> 5 * length (e_nodes env0) + 3"
proof -
  note p = newDagExecutor_Inr [OF assms(1)]
  show v: "valid_env env" using p by simp
  obtain data where s0: "s0 = initial env data store" using p by blast
  have r: "ready_state env s" and fr: "drain_frame env s0 s"
    using start_run_ok [OF v, of data store] assms(2) by (auto simp: s0)
  have i: "x_pc s0 = Looping" "x_flight s0 = []" "x_releasing s0 = 0" "x_doneCh s0 = []" "x_ctx s0 = None"
    "x_pq s0 = None \<longleftrightarrow> \<not> c_PriorityScheduling (e_cfg env)"
    by (simp_all add: s0 initial_def Let_def)
  have f: "x_pc s = Looping" "filter g_acquired (x_flight s) = []" "x_releasing s = 0" "x_ctx s = None"
    "x_pq s = None \<longleftrightarrow> \<not> c_PriorityScheduling (e_cfg env)" "work env s \<le> work env s0"
    using fr i by (simp_all add: drain_frame_def sched_frame_def)
  show "x_pc s = Looping" by (rule f)
  have "started_ok env s" using r sched_inv_started [OF v] by (auto simp: ready_state_def)
  then show "dag_inv env s"
    using r f ready_state_limit [OF r] by (simp add: dag_inv_def pc_ok_def slots_ok_def holders_def)
  have "length (e_nodes env) = length (e_nodes env0)"
    using p length_graph_of by metis
  moreover have "work env s0 \<le> 5 * length (e_nodes env)"
    using length_filter_le [of _ "ids_of env"] i by (simp add: work_def with_status_def ids_of_def)
  ultimately show "steps_left env s \<le> 5 * length (e_nodes env0) + 3"
    using f by (simp add: steps_left_def)
qed

lemma reachable_inv:
  "reachable env0 store env s \<Longrightarrow> valid_env env \<and> dag_inv env s"
proof (induction rule: reachable.induct)
  case (start s0 s)
  then show ?case using started_dag_inv(1,2) [OF start] by simp
next
  case (step s s')
  then show ?case using dag_step_keeps by metis
qed

end
