(* ===== verification/DagProps.thy ===== *)
theory DagProps
  imports DagSteps
begin

text \<open>
  What holds of every execution of a graph by \<open>ExecuteDAG\<close>, whatever the order in which its
  goroutines proceed: consequences of the invariant of theory \<open>DagSteps\<close>.
\<close>

section \<open>The waiting states\<close>

lemma ready_state_counts:
  assumes "ready_state env s"
  shows "x_pending s = int (length (with_status env NodePending s)) + int (length (with_status env NodeRunning s))"
    and "length (started s) = length (with_status env NodeRunning s)"
    and "\<forall>i\<in>set (ids_of env). x_status s i \<noteq> NodeFailed \<and> x_status s i \<noteq> NodeCompensated"
proof -
  show "x_pending s = int (length (with_status env NodePending s)) + int (length (with_status env NodeRunning s))"
    using assms by (simp add: ready_state_def sched_inv_def)
  show "length (started s) = length (with_status env NodeRunning s)"
    using assms by (intro mset_eq_length) (simp add: ready_state_def sched_inv_def)
  show "\<forall>i\<in>set (ids_of env). x_status s i \<noteq> NodeFailed \<and> x_status s i \<noteq> NodeCompensated"
    using assms by (simp add: ready_state_def sched_inv_def)
qed

lemma idle_queue_empty:
  assumes "ready_state env s" and "with_status env NodeRunning s = []"
  shows "queued s = {}"
proof (cases "x_pq s")
  case (Some q)
  have "x_activePQ s = 0" using assms Some by (simp add: ready_state_def active_ok_def)
  then have "may_launch env s" by (simp add: may_launch_def Let_def)
  then have "pq_empty q" using assms(1) Some by (auto simp: ready_state_def drained_def)
  moreover have "pq_inv q" using assms(1) Some by (simp add: ready_state_def sched_inv_def queue_ok_def)
  ultimately show ?thesis using heapq.isempty Some by (simp add: queued_def)
qed (simp add: queued_def)

text \<open>
  A node that waits while nothing runs has a dependency that waits too; following them leads into
  a cycle, and the graph has none.
\<close>

lemma waiting_runs:
  assumes v: "valid_env env" and r: "ready_state env s" and p: "x_pending s > 0"
  shows "started s \<noteq> []"
proof
  assume "started s = []"
  then have nr: "with_status env NodeRunning s = []" using ready_state_counts(2) [OF r] by simp
  let ?P = "set (with_status env NodePending s)"
  have ne: "?P \<noteq> {}" using ready_state_counts(1) [OF r] p nr by auto
  have "\<exists>d\<in>?P. (d, i) \<in> dep_edges (graph_of (e_nodes env))" if i: "i \<in> ?P" for i
  proof -
    have i2: "i \<in> set (ids_of env)" "x_status s i = NodePending" using i by (auto simp: with_status_def)
    then obtain ds where ds: "(i, ds) \<in> set (graph_of (e_nodes env))" using ids_graph by blast
    have "ready_nodes env s = {}" using idle_queue_empty [OF r nr] r by (simp add: ready_state_def sched_inv_def)
    then have "x_inDegree s i \<noteq> 0" using i2 by (auto simp: ready_nodes_def)
    moreover have "x_inDegree s i = open_deps (settled s) ds"
      using r ds by (auto simp: ready_state_def sched_inv_def)
    ultimately obtain d where d: "d \<in> set ds" "d \<notin> settled s" by (auto simp: open_deps_zero)
    have e: "(d, i) \<in> dep_edges (graph_of (e_nodes env))" using ds d by (auto simp: dep_edges_def)
    then have di: "d \<in> set (ids_of env)"
      using v dep_edges_source unfolding valid_env_def valid_graph_def by (metis node_ids_env)
    have "x_status s d \<noteq> NodeRunning" using nr di by (auto simp: with_status_def filter_empty_conv)
    then have "x_status s d = NodePending"
      using d(2) ready_state_counts(3) [OF r] di by (cases "x_status s d") (auto simp: settled_def)
    then show ?thesis using e di by (auto simp: with_status_def)
  qed
  then have "\<not> acyclic (dep_edges (graph_of (e_nodes env)))"
    using ne by (intro finite_pred_cycle [of ?P]) auto
  then show False using v by (simp add: valid_env_def valid_graph_def)
qed

text \<open>Somebody among the started goroutines can move, if every runner answers.\<close>

lemma goroutine_moves:
  assumes inv: "dag_inv env s" and ans: "\<forall>i req. \<exists>ae. e_run env i req ae"
    and fl: "x_flight s \<noteq> []"
  shows "\<exists>s'. dag_step env s s' \<and> x_ctx s' = x_ctx s"
proof (cases "\<exists>g\<in>set (x_flight s). g_acquired g")
  case True
  then obtain g gs1 gs2 where g: "x_flight s = gs1 @ g # gs2" "g_acquired g" by (meson split_list)
  have so: "started_ok env s" using inv by (simp add: dag_inv_def)
  have "g_id g \<in> set (ids_of env)" using so g by (auto simp: started_ok_def started_def)
  then obtain node where n: "node_of (e_nodes env) (g_id g) = Some node" using node_of_ids by blast
  obtain ae where "e_run env (g_id g) (g_req g) ae" using ans by blast
  then have post: "may_post env (x_ctx s) g (fst (node_attempts node ae))" using n by (auto simp: may_post_def)
  have "length (x_doneCh s) < length (e_nodes env)" using started_capacity [OF so] g by simp
  note dag_step.finish [OF g post this]
  moreover have "x_ctx ((post c gs s)\<lparr>x_releasing := n\<rparr>) = x_ctx s" for c gs n by (simp add: post_props)
  ultimately show ?thesis by blast
next
  case False
  then obtain g gs where g: "x_flight s = [] @ g # gs" "\<not> g_acquired g" using fl by (cases "x_flight s") auto
  show ?thesis
  proof (cases "x_releasing s")
    case 0
    have "holders s = 0" using False 0 by (auto simp: holders_def filter_empty_conv)
    then have "slot_free env s" by (auto simp: slot_free_def slot_limit_def split: option.splits)
    note dag_step.acquire [OF g this]
    moreover have "x_ctx (s\<lparr>x_flight := fl\<rparr>) = x_ctx s" for fl by simp
    ultimately show ?thesis by blast
  next
    case (Suc n)
    note dag_step.release [OF this]
    moreover have "x_ctx (s\<lparr>x_releasing := n\<rparr>) = x_ctx s" by simp
    ultimately show ?thesis by blast
  qed
qed

section \<open>A sample execution\<close>

definition sample_cfg :: "(nat, nat, unit, unit) dag_config" where
  "sample_cfg =
     \<lparr>c_MaxConcurrency = 1, c_ErrorStrategy = Abort, c_EarlyExitFunc = None, c_Aggregator = None,
      c_CheckpointStore = None, c_ReplayMode = False, c_PriorityScheduling = False,
      c_CriticalPathAuto = False, c_Backpressure = False, c_CompensateCfg = None,
      c_EventHandler = True\<rparr>"

definition sample_env :: "(nat, nat, unit, unit, unit) dag_env" where
  "sample_env =
     \<lparr>e_cfg = sample_cfg, e_nodes = [sample_node ''a'' [], sample_node ''b'' [''a'']],
      e_req = \<lparr>q_messages = [1], q_sessionID = ''s'', q_options = None, q_metadata = None\<rparr>,
      e_usage_zero = 0, e_usage_add = (+),
      e_run = (\<lambda>i req ae. ae_run ae 0 = Inr (Some (reply_with [2] ''s''))),
      e_forward = (\<lambda>_ _. \<lparr>ae_run = (\<lambda>_. Inl Canceled), ae_ctx = (\<lambda>_. None)\<rparr>),
      e_comp = (\<lambda>_. \<lparr>ce_run = (\<lambda>_. None), ce_ctx = (\<lambda>_. None)\<rparr>)\<rparr>"

lemma sample_executor:
  "newDagExecutor sample_env () = Some (Inr (sample_env, initial sample_env [] ()))"
proof -
  have "ValidateDAG (e_nodes sample_env) = None" by code_simp
  then show ?thesis
    by (simp add: newDagExecutor_def with_priorities_def) (simp add: sample_env_def sample_cfg_def Let_def)
qed

lemma sample_valid: "valid_env sample_env"
  using newDagExecutor_Inr [OF sample_executor] by simp

definition sample_state :: "(nat, nat, unit, unit, unit) exec" where
  "sample_state =
     (case start_run sample_env (initial sample_env [] ()) of
        Some s \<Rightarrow> s | None \<Rightarrow> initial sample_env [] ())"

lemma sample_start: "start_run sample_env (initial sample_env [] ()) = Some sample_state"
  using start_run_ok [OF sample_valid, of "[]" "()"] by (auto simp: sample_state_def)

lemma sample_reachable: "reachable sample_env () sample_env sample_state"
  by (rule reachable.start [OF sample_executor sample_start])

lemma sample_pc: "x_pc sample_state = Looping"
  by (rule started_dag_inv(3) [OF sample_executor sample_start])

lemma sample_running: "x_status sample_state ''a'' = NodeRunning"
  by code_simp

lemma sample_counts:
  "x_pending sample_state = 2" "countRunning sample_env sample_state = 1" "x_ctx sample_state = None"
  "length (x_flight sample_state) = 1" "length (x_doneCh sample_state) = 0"
  by code_simp+

text \<open>The same execution after the caller's context was cancelled and the main goroutine saw it.\<close>

definition sample_aborted :: "(nat, nat, unit, unit, unit) exec" where
  "sample_aborted = sample_state\<lparr>x_ctx := Some Canceled, x_pc := Draining 1 (FailWith Canceled)\<rparr>"

lemma sample_aborted_reachable: "reachable sample_env () sample_env sample_aborted"
proof -
  let ?t = "sample_state\<lparr>x_ctx := Some Canceled\<rparr>"
  have t: "reachable sample_env () sample_env ?t"
    by (rule reachable.step [OF sample_reachable dag_step.ctx_done]) (simp_all add: sample_counts)
  have "dag_step sample_env ?t (start_abort (countRunning sample_env ?t) (FailWith Canceled) ?t)"
    by (rule dag_step.observe) (simp_all add: sample_pc sample_counts)
  moreover have "countRunning sample_env ?t = 1" using sample_counts(2) by (simp add: countRunning_def)
  ultimately have "dag_step sample_env ?t sample_aborted"
    by (simp add: start_abort_def cancel_def sample_aborted_def)
  then show ?thesis by (rule reachable.step [OF t])
qed

section \<open>Properties of every execution\<close>

text \<open>
  C1. Dependencies first: while the main goroutine schedules, a node is only running when every
  node it depends on has finished or was skipped.
\<close>

theorem dag_dependencies_first:
  assumes "reachable env0 store env s" and "x_pc s = Looping"
    and "(i, ds) \<in> set (graph_of (e_nodes env))" and "x_status s i = NodeRunning"
  shows "\<forall>d\<in>set ds. x_status s d = NodeDone \<or> x_status s d = NodeSkipped"
proof -
  have "ready_state env s" using reachable_inv [OF assms(1)] assms(2) by (simp add: dag_inv_def pc_ok_def)
  then have "set ds \<subseteq> settled s" using assms(3,4) by (auto simp: ready_state_def sched_inv_def)
  then show ?thesis by (auto simp: settled_def)
qed

theorem dag_dependencies_first_witness:
  "\<exists>s. x_status s ''a'' = NodeRunning \<and> (\<exists>ds. (''a'', ds) \<in> set (graph_of (e_nodes sample_env)) \<and>
     (\<forall>d\<in>set ds. x_status (s :: (nat, nat, unit, unit, unit) exec) d = NodeDone \<or> x_status s d = NodeSkipped))"
proof -
  have "(''a'', []) \<in> set (graph_of (e_nodes sample_env))"
    by (simp add: sample_env_def graph_of_def sample_node_def)
  from dag_dependencies_first [OF sample_reachable sample_pc this sample_running] this sample_running
  show ?thesis by metis
qed



lemma steps_bounded:
  "(dag_step env ^^ n) s s' \<Longrightarrow> valid_env env \<Longrightarrow> dag_inv env s \<Longrightarrow> dag_inv env s' \<and> n + steps_left env s' \<le> steps_left env s"
proof (induction n arbitrary: s')
  case (Suc n)
  then obtain s1 where s1: "(dag_step env ^^ n) s s1" "dag_step env s1 s'" by auto
  have i: "dag_inv env s1" "n + steps_left env s1 \<le> steps_left env s" using Suc.IH [OF s1(1) Suc.prems(2,3)] by simp_all
  then show ?case using dag_step_keeps [OF Suc.prems(2) i(1) s1(2)] by simp
qed simp

text \<open>
  C8. Termination: an execution of \<open>n\<close> nodes takes at most \<open>5n + 3\<close> steps, whatever the
  scheduler does and whatever the runners answer. Together with the absence of deadlocks every
  execution returns.
\<close>

theorem dag_terminates:
  assumes "newDagExecutor env0 store = Some (Inr (env, s0))" and "start_run env s0 = Some s"
    and "(dag_step env ^^ n) s s'"
  shows "n \<le> 5 * length (e_nodes env0) + 3"
  using steps_bounded [OF assms(3) started_dag_inv(1,2) [OF assms(1,2)]] started_dag_inv(4) [OF assms(1,2)]
  by simp

theorem dag_terminates_witness:
  "\<exists>s n s'. (dag_step sample_env ^^ n) s s' \<and> n = 1 \<and>
     x_pending (s :: (nat, nat, unit, unit, unit) exec) = 2 \<and> n \<le> 5 * length (e_nodes sample_env) + 3"
proof -
  have "dag_step sample_env sample_state (sample_state\<lparr>x_ctx := Some Canceled\<rparr>)"
    by (rule dag_step.ctx_done [OF sample_counts(3)]) simp
  then have "(dag_step sample_env ^^ 1) sample_state (sample_state\<lparr>x_ctx := Some Canceled\<rparr>)"
    by (simp only: relpowp_1)
  from dag_terminates [OF sample_executor sample_start this] this sample_counts(1) show ?thesis by metis
qed


text \<open>
  C6. The channel of completions never blocks a sender and the drain after an abort is exact: at
  all times at most as many completions are posted as nodes exist, a drain still waits for just
  the goroutines that are on their way or have posted, and when the execution has returned, none
  is left.
\<close>

theorem dag_drain_exact:
  assumes "reachable env0 store env s"
  shows "length (x_doneCh s) \<le> length (e_nodes env) \<and>
    (\<forall>k goal. x_pc s = Draining k goal \<longrightarrow> k = length (x_flight s) + length (x_doneCh s)) \<and>
    (\<forall>ret. x_pc s = Returned ret \<longrightarrow> x_flight s = [] \<and> x_doneCh s = [])"
proof -
  have inv: "dag_inv env s" using reachable_inv [OF assms] by simp
  have "length (x_flight s) + length (x_doneCh s) \<le> length (e_nodes env)"
    using inv by (intro started_capacity) (simp add: dag_inv_def)
  then show ?thesis using inv by (auto simp: dag_inv_def pc_ok_def started_def)
qed

theorem dag_drain_exact_witness:
  "x_pc sample_aborted = Draining 1 (FailWith Canceled) \<and>
   1 = length (x_flight sample_aborted) + length (x_doneCh sample_aborted)"
proof -
  have "x_pc sample_aborted = Draining 1 (FailWith Canceled)" by (simp add: sample_aborted_def)
  then show ?thesis using dag_drain_exact [OF sample_aborted_reachable] by blast
qed




definition resumed_env :: "(nat, nat, unit, unit, unit) dag_env" where
  "resumed_env = sample_env\<lparr>e_cfg := sample_cfg\<lparr>c_CheckpointStore := Some
     \<lparr>cs_Save = (\<lambda>st _ _ _. (st, None)),
      cs_LoadAll = (\<lambda>_ _. Inr [(''a'', Some (reply_with [2] ''s'')), (''b'', Some (reply_with [3] ''s''))])\<rparr>\<rparr>\<rparr>"

lemma resumed_executor:
  "newDagExecutor resumed_env () = Some (Inr (resumed_env,
     initial resumed_env [(''a'', Some (reply_with [2] ''s'')), (''b'', Some (reply_with [3] ''s''))] ()))"
proof -
  have "ValidateDAG (e_nodes resumed_env) = None" by code_simp
  then show ?thesis
    by (simp add: newDagExecutor_def with_priorities_def) (simp add: resumed_env_def sample_env_def sample_cfg_def Let_def)
qed

definition resumed_state :: "(nat, nat, unit, unit, unit) exec" where
  "resumed_state = initial resumed_env [(''a'', Some (reply_with [2] ''s'')), (''b'', Some (reply_with [3] ''s''))] ()"

lemma resumed_reachable: "\<exists>s. reachable resumed_env () resumed_env s \<and> x_pc s = Looping \<and> x_pending s = 0"
proof -
  have v: "valid_env resumed_env" using newDagExecutor_Inr [OF resumed_executor] by simp
  obtain s where s: "start_run resumed_env resumed_state = Some s" "drain_frame resumed_env resumed_state s"
    "ready_state resumed_env s"
    using start_run_ok [OF v] unfolding resumed_state_def by metis
  note ex = resumed_executor [folded resumed_state_def]
  have "with_status resumed_env NodePending resumed_state = [] \<and> with_status resumed_env NodeRunning resumed_state = []"
    by code_simp
  moreover have "sched_frame resumed_env (resumed_state\<lparr>x_activePQ := x_activePQ s\<rparr>) s"
    using s(2) by (simp add: drain_frame_def)
  moreover have "x_status (resumed_state\<lparr>x_activePQ := x_activePQ s\<rparr>) i \<noteq> NodePending" if "i \<in> set (ids_of resumed_env)" for i
    using calculation(1) that by (auto simp: with_status_def filter_empty_conv)
  ultimately have "\<forall>i\<in>set (ids_of resumed_env). x_status s i = x_status resumed_state i"
    unfolding sched_frame_def by simp
  then have "with_status resumed_env st s = with_status resumed_env st resumed_state" for st
    unfolding with_status_def by (intro filter_cong) auto
  then have "x_pending s = 0"
    using ready_state_counts(1) [OF s(3)]
      \<open>with_status resumed_env NodePending resumed_state = [] \<and> with_status resumed_env NodeRunning resumed_state = []\<close>
    by simp
  then show ?thesis using reachable.start [OF ex s(1)] started_dag_inv(3) [OF ex s(1)] by metis
qed


text \<open>
  After an abort nothing starts any more: a step taken once the select loop was left changes
  the status of a node only from done to compensated, and the goroutines on their way get fewer.
\<close>

theorem dag_abort_quiesces:
  assumes "reachable env0 store env s" and "x_pc s \<noteq> Looping" and "dag_step env s s'"
  shows "x_pc s' \<noteq> Looping \<and> set (map g_id (x_flight s')) \<subseteq> set (map g_id (x_flight s)) \<and>
    (\<forall>i. x_status s' i = x_status s i \<or> x_status s i = NodeDone \<and> x_status s' i = NodeCompensated)"
proof -
  have v: "valid_env env" and inv: "dag_inv env s" using reachable_inv [OF assms(1)] by simp_all
  show ?thesis
    using assms(3)
  proof cases
    case (drained goal)
    then have "goal_ok env goal" using inv by (simp add: dag_inv_def pc_ok_def)
    from finish_abort_props(2) [OF v this drained(2)] show ?thesis by auto
  qed (use assms(2) in \<open>auto simp: post_props\<close>)
qed

theorem dag_abort_quiesces_witness:
  "\<exists>s'. dag_step sample_env sample_aborted s' \<and> x_pc s' \<noteq> Looping"
proof -
  have g: "x_flight sample_aborted = x_flight sample_state" by (simp add: sample_aborted_def)
  obtain g where fl: "x_flight sample_aborted = [] @ g # []"
    using sample_counts(4) g by (cases "x_flight sample_state") auto
  have "\<not> g_acquired g"
  proof -
    have "length (filter g_acquired (x_flight sample_state)) = 0" by code_simp
    then show ?thesis using fl g by (auto split: if_splits)
  qed
  moreover have "x_ctx sample_aborted = Some Canceled" by (simp add: sample_aborted_def)
  moreover have "length (x_doneCh sample_aborted) < length (e_nodes sample_env)"
    using sample_counts(5) by (simp add: sample_aborted_def sample_env_def)
  ultimately have st: "dag_step sample_env sample_aborted (post (failed (g_id g) Canceled) ([] @ []) sample_aborted)"
    by (rule dag_step.abandon [OF fl])
  have "x_pc sample_aborted \<noteq> Looping" by (simp add: sample_aborted_def)
  from dag_abort_quiesces [OF sample_aborted_reachable this st] st show ?thesis by blast
qed

section \<open>Replay mode\<close>

text \<open>
  The scheduler only looks at pending nodes, and a pending node has no checkpoint: the test of
  \<open>ReplayMode\<close> in \<open>scheduleReady\<close> never holds.
\<close>

definition no_replay :: "('m, 'u, 'o, 'd, 's) dag_env \<Rightarrow> ('m, 'u, 'o, 'd, 's) dag_env" where
  "no_replay env = env\<lparr>e_cfg := (e_cfg env)\<lparr>c_ReplayMode := False\<rparr>\<rparr>"

lemma no_replay_frame [simp]:
  "e_nodes (no_replay env) = e_nodes env" "downstream (no_replay env) = downstream env"
  "e_req (no_replay env) = e_req env" "emit (no_replay env) = emit env"
  "sched_fuel (no_replay env) = sched_fuel env"
  "c_CheckpointStore (e_cfg (no_replay env)) = c_CheckpointStore (e_cfg env)"
  "\<not> c_ReplayMode (e_cfg (no_replay env))"
  by (simp_all add: no_replay_def downstream_def emit_def fun_eq_iff sched_fuel_def)

lemma replay_irrelevant:
  "propagate env k ds s = propagate (no_replay env) k ds s"
  "x_status s i = NodePending \<Longrightarrow> scheduleReady env k i s = scheduleReady (no_replay env) k i s"
  "x_status s i = NodePending \<Longrightarrow> enqueueReady env k i s = enqueueReady (no_replay env) k i s"
proof (induction env k ds s and env k i s and env k i s rule: propagate_scheduleReady_enqueueReady.induct)
  case (2 env k d ds s)
  then show ?case by (auto simp: Let_def split: option.splits)
next
  case (3 env k i s)
  then show ?case by (auto split: option.splits sum.splits)
next
  case (5 env k i s)
  then show ?case by (auto split: option.splits)
qed simp_all

text \<open>
  Replay mode changes nothing: scheduling a pending node, and propagating the end of any node,
  do the same with and without it. In particular a pending node whose checkpoint is missing is
  launched and its runner is executed.
\<close>

theorem replay_mode_is_ignored:
  assumes "x_status s i = NodePending"
  shows "scheduleReady env k i s = scheduleReady (no_replay env) k i s \<and>
    propagateDownstream env j s = propagateDownstream (no_replay env) j s"
  using replay_irrelevant(2) [OF assms] replay_irrelevant(1) by (metis no_replay_frame(2,5) propagateDownstream_def)

theorem replay_mode_is_ignored_witness:
  "let env = resumed_env\<lparr>e_cfg := (e_cfg resumed_env)\<lparr>c_ReplayMode := True\<rparr>\<rparr>;
       s = initial env [] ()
   in x_status s ''a'' = NodePending \<and>
      scheduleReady env 2 ''a'' s = scheduleReady (no_replay env) 2 ''a'' s \<and>
      map_option (\<lambda>t. map g_id (x_flight t)) (scheduleReady env 2 ''a'' s) = Some [''a'']"
proof -
  let ?env = "resumed_env\<lparr>e_cfg := (e_cfg resumed_env)\<lparr>c_ReplayMode := True\<rparr>\<rparr>"
  have p: "x_status (initial ?env [] ()) ''a'' = NodePending" by code_simp
  moreover have "map_option (\<lambda>t. map g_id (x_flight t)) (scheduleReady ?env 2 ''a'' (initial ?env [] ())) = Some [''a'']"
    by code_simp
  ultimately show ?thesis using replay_mode_is_ignored [OF p, of ?env 2] by (simp only: Let_def)
qed

end
