(* ===== verification/DagOutcome.thy ===== *)
theory DagOutcome
  imports DagProps
begin

text \<open>
  The result of an execution as a function of the graph: \<open>node_outcome\<close> says how a node ends,
  from the results of its dependencies alone. Every execution whose runners are deterministic
  and which is not cut short agrees with it, so the interleaving of the goroutines, the
  concurrency limit and the priorities do not show in statuses and results.
\<close>

section \<open>The outcome of a node\<close>

text \<open>How a failed node ends when the execution goes on; \<open>None\<close> when it is aborted.\<close>

definition failure_outcome :: "('m, 'u, 'o, 'd, 's) dag_env \<Rightarrow> ('m, 'u, 'd) results
      \<Rightarrow> ('m, 'u, 'o, 'd) node \<Rightarrow> go_error \<Rightarrow> (node_status \<times> ('m, 'u, 'd) run_response option) option" where
  "failure_outcome env results n err =
     (case (c_ErrorStrategy (e_cfg env), c_CompensateCfg (e_cfg env)) of
        (Compensate, Some ccfg) \<Rightarrow>
          (case recover_node env ccfg n err results of
             Some resp \<Rightarrow> Some (NodeDone, Some resp) | None \<Rightarrow> None)
      | _ \<Rightarrow> (if c_ErrorStrategy (e_cfg env) = Abort \<or> \<not> n_Optional n then None
             else Some (NodeSkipped, None)))"

definition completion_outcome :: "('m, 'u, 'o, 'd, 's) dag_env \<Rightarrow> ('m, 'u, 'd) results
      \<Rightarrow> ('m, 'u, 'o, 'd) node \<Rightarrow> ('m, 'u, 'd) completion
      \<Rightarrow> (node_status \<times> ('m, 'u, 'd) run_response option) option" where
  "completion_outcome env results n c =
     (case nc_err c of
        Some err \<Rightarrow> failure_outcome env results n err
      | None \<Rightarrow> Some (NodeDone, nc_resp c))"

type_synonym ('m, 'u, 'o, 'd) runners =
  "string \<Rightarrow> ('m, 'o, 'd) run_request option \<Rightarrow> ('m, 'u, 'd) attempt_env"

text \<open>The completion of a node that is not skipped.\<close>

definition node_completion :: "('m, 'u, 'o, 'd, 's) dag_env \<Rightarrow> ('m, 'u, 'o, 'd) runners
      \<Rightarrow> ('m, 'u, 'd) results \<Rightarrow> ('m, 'u, 'o, 'd) node \<Rightarrow> ('m, 'u, 'd) completion" where
  "node_completion env run results n =
     (case buildNodeInput n (e_req env) results of
        Inl err \<Rightarrow> failed (n_ID n) err
      | Inr req \<Rightarrow> fst (node_attempts n (run (n_ID n) req)))"

definition node_outcome :: "('m, 'u, 'o, 'd, 's) dag_env \<Rightarrow> ('m, 'u, 'o, 'd) runners
      \<Rightarrow> ('m, 'u, 'd) results \<Rightarrow> ('m, 'u, 'o, 'd) node
      \<Rightarrow> (node_status \<times> ('m, 'u, 'd) run_response option) option" where
  "node_outcome env run results n =
     (if condition_false n results then Some (NodeSkipped, None)
      else completion_outcome env results n (node_completion env run results n))"

text \<open>It depends on the results of the node's dependencies only.\<close>

lemma buildNodeInput_cong:
  "\<forall>d\<in>set (n_Deps n). r d = r' d \<Longrightarrow> buildNodeInput n req r = buildNodeInput n req r'"
proof -
  assume a: "\<forall>d\<in>set (n_Deps n). r d = r' d"
  then have "upstream_of (n_Deps n) r = upstream_of (n_Deps n) r'" by (auto simp: upstream_of_def)
  moreover have "map (\<lambda>d. case r d of Some x \<Rightarrow> r_messages x | None \<Rightarrow> []) (n_Deps n) =
      map (\<lambda>d. case r' d of Some x \<Rightarrow> r_messages x | None \<Rightarrow> []) (n_Deps n)"
    using a by (auto intro: map_cong)
  ultimately show ?thesis using a
    by (cases "n_Deps n"; cases "tl (n_Deps n)")
      (auto simp: buildNodeInput_def split: option.splits cong: map_cong)
qed

lemma node_outcome_cong:
  assumes "\<forall>d\<in>set (n_Deps n). r d = r' d"
  shows "node_outcome env run r n = node_outcome env run r' n"
    and "condition_false n r = condition_false n r'"
    and "node_completion env run r n = node_completion env run r' n"
    and "completion_outcome env r n c = completion_outcome env r' n c"
proof -
  have "upstream_of (n_Deps n) r = upstream_of (n_Deps n) r'" using assms by (auto simp: upstream_of_def)
  then show c: "condition_false n r = condition_false n r'"
    by (cases "n_Condition n") (simp_all add: condition_false_def)
  note b = buildNodeInput_cong [OF assms, of "e_req env"]
  show m: "node_completion env run r n = node_completion env run r' n" by (simp add: node_completion_def b)
  have "recover_node env cc n e r = recover_node env cc n e r'" for cc e by (simp add: recover_node_def b)
  then have "failure_outcome env r n e = failure_outcome env r' n e" for e
    unfolding failure_outcome_def by (simp only:)
  then show o: "completion_outcome env r n c = completion_outcome env r' n c" for c
    by (cases "nc_err c") (simp_all add: completion_outcome_def)
  show "node_outcome env run r n = node_outcome env run r' n" by (simp add: node_outcome_def c m o)
qed

section \<open>States that agree with the outcomes\<close>

definition node_ok :: "('m, 'u, 'o, 'd, 's) dag_env \<Rightarrow> ('m, 'u, 'o, 'd) runners
      \<Rightarrow> ('m, 'u, 'o, 'd, 's) exec \<Rightarrow> ('m, 'u, 'o, 'd) node \<Rightarrow> bool" where
  "node_ok env run s n \<longleftrightarrow>
     (n_ID n \<in> settled s \<longrightarrow>
        node_outcome env run (x_results s) n = Some (x_status s (n_ID n), x_results s (n_ID n))) \<and>
     (x_status s (n_ID n) \<noteq> NodePending \<longrightarrow> x_inDegree s (n_ID n) \<le> 0) \<and>
     (n_ID n \<notin> settled s \<longrightarrow> x_results s (n_ID n) = None)"

definition flight_ok :: "('m, 'u, 'o, 'd, 's) dag_env \<Rightarrow> ('m, 'u, 'd) results
      \<Rightarrow> ('m, 'o, 'd) goroutine \<Rightarrow> bool" where
  "flight_ok env results g \<longleftrightarrow>
     (\<forall>n\<in>set (e_nodes env). n_ID n = g_id g \<longrightarrow>
        \<not> condition_false n results \<and> buildNodeInput n (e_req env) results = Inr (g_req g))"

definition done_ok :: "('m, 'u, 'o, 'd, 's) dag_env \<Rightarrow> ('m, 'u, 'o, 'd) runners \<Rightarrow> ('m, 'u, 'd) results
      \<Rightarrow> ('m, 'u, 'd) completion \<Rightarrow> bool" where
  "done_ok env run results c \<longleftrightarrow>
     (\<forall>n\<in>set (e_nodes env). n_ID n = nc_nodeID c \<longrightarrow>
        \<not> condition_false n results \<and> c = node_completion env run results n)"

definition explained :: "('m, 'u, 'o, 'd, 's) dag_env \<Rightarrow> ('m, 'u, 'o, 'd) runners
      \<Rightarrow> ('m, 'u, 'o, 'd, 's) exec \<Rightarrow> ('m, 'u, 'o, 'd, 's) exec \<Rightarrow> bool" where
  "explained env run s0 s \<longleftrightarrow>
     (\<forall>n\<in>set (e_nodes env). x_status s0 (n_ID n) \<noteq> NodeDone \<longrightarrow> node_ok env run s n) \<and>
     (\<forall>g\<in>set (x_flight s). flight_ok env (x_results s) g) \<and>
     (\<forall>c\<in>set (x_doneCh s). done_ok env run (x_results s) c) \<and>
     (\<forall>i. x_status s0 i = NodeDone \<longrightarrow> x_status s i = NodeDone \<and> x_results s i = x_results s0 i)"

lemma explained_cong:
  "x_status s' = x_status s \<Longrightarrow> x_results s' = x_results s \<Longrightarrow> x_inDegree s' = x_inDegree s \<Longrightarrow>
   x_flight s' = x_flight s \<Longrightarrow> x_doneCh s' = x_doneCh s \<Longrightarrow>
   explained env run s0 s' = explained env run s0 s"
  by (simp add: explained_def node_ok_def settled_def)

lemma explained_decrement:
  assumes "explained env run s0 s"
  shows "explained env run s0 (s\<lparr>x_inDegree := (x_inDegree s)(d := x_inDegree s d - 1)\<rparr>)" (is "explained _ _ _ ?s")
proof -
  have same: "x_status ?s = x_status s" "x_results ?s = x_results s" "x_flight ?s = x_flight s"
    "x_doneCh ?s = x_doneCh s" "settled ?s = settled s" by (simp_all add: settled_def)
  have "x_inDegree ?s i \<le> x_inDegree s i" for i by simp
  then show ?thesis using assms unfolding explained_def node_ok_def same by (meson order_trans)
qed

lemma same_node:
  "valid_env env \<Longrightarrow> n \<in> set (e_nodes env) \<Longrightarrow> m \<in> set (e_nodes env) \<Longrightarrow> n_ID n = n_ID m \<Longrightarrow> n = m"
proof -
  assume v: "valid_env env" and m: "n \<in> set (e_nodes env)" "m \<in> set (e_nodes env)" "n_ID n = n_ID m"
  have "distinct (map n_ID (e_nodes env))" using valid_env_distinct [OF v] by (simp add: ids_of_def)
  then show "n = m" using m by (metis distinct_map inj_onD)
qed


section \<open>The scheduler\<close>

text \<open>
  The state \<open>s0\<close> is the first one: the nodes it has done were resumed from a checkpoint.
\<close>

text \<open>What a node must satisfy to be scheduled.\<close>

definition may_schedule :: "('m, 'u, 'o, 'd, 's) dag_env \<Rightarrow> string \<Rightarrow> ('m, 'u, 'o, 'd, 's) exec \<Rightarrow> bool" where
  "may_schedule env i s \<longleftrightarrow> i \<in> set (ids_of env) \<and> x_status s i = NodePending \<and> x_inDegree s i \<le> 0"

lemma explained_move:
  assumes v: "valid_env env" and e: "explained env run s0 s" and m: "may_schedule env (n_ID n) s"
    and n: "n \<in> set (e_nodes env)"
    and same: "x_results s' = x_results s" "x_inDegree s' = x_inDegree s"
      "x_status s' = (x_status s)(n_ID n := b)" "b \<noteq> NodePending" "b \<noteq> NodeDone"
    and fl: "\<forall>g\<in>set (x_flight s') - set (x_flight s). flight_ok env (x_results s) g"
    and dc: "\<forall>c\<in>set (x_doneCh s') - set (x_doneCh s). done_ok env run (x_results s) c"
    and sk: "b = NodeSkipped \<longrightarrow> condition_false n (x_results s)"
  shows "explained env run s0 s'"
proof -
  have nr: "x_status s0 (n_ID n) \<noteq> NodeDone" using m e by (auto simp: may_schedule_def explained_def)
  have ni: "n_ID n \<notin> settled s" using m by (simp add: may_schedule_def settled_def)
  have "node_ok env run s' k" if k: "k \<in> set (e_nodes env)" "x_status s0 (n_ID k) \<noteq> NodeDone" for k
  proof (cases "n_ID k = n_ID n")
    case True
    then have "k = n" using same_node [OF v k(1) n] by simp
    moreover have "x_results s (n_ID n) = None" using e n nr ni by (auto simp: explained_def node_ok_def)
    moreover have "n_ID n \<in> settled s' \<longleftrightarrow> b = NodeSkipped" using same(4,5) by (auto simp: settled_def same(3))
    moreover have "x_inDegree s (n_ID n) \<le> 0" using m by (simp add: may_schedule_def)
    moreover have "x_status s' (n_ID n) = b" by (simp add: same(3))
    ultimately show ?thesis using sk unfolding node_ok_def same(1,2) by (simp add: node_outcome_def)
  next
    case False
    then have "x_status s' (n_ID k) = x_status s (n_ID k)" by (simp add: same(3))
    moreover from this have "n_ID k \<in> settled s' \<longleftrightarrow> n_ID k \<in> settled s" by (simp add: settled_def)
    moreover have "node_ok env run s k" using e k by (simp add: explained_def)
    ultimately show ?thesis unfolding node_ok_def same(1,2) by simp
  qed
  moreover have "\<forall>i. x_status s0 i = NodeDone \<longrightarrow> x_status s' i = NodeDone \<and> x_results s i = x_results s0 i"
    using e nr by (auto simp: explained_def same(3))
  ultimately show ?thesis using e fl dc unfolding explained_def same(1) by blast
qed

lemma explained_skip:
  assumes v: "valid_env env" and e: "explained env run s0 s" and m: "may_schedule env (n_ID n) s"
    and n: "n \<in> set (e_nodes env)" and c: "condition_false n (x_results s)"
  shows "explained env run s0 (skip_node (n_ID n) s)"
  by (rule explained_move [OF v e m n, where b = NodeSkipped])
    (simp_all add: skip_node_def set_status_def record_call_def Let_def c)

lemma explained_run_failed:
  assumes v: "valid_env env" and e: "explained env run s0 s" and m: "may_schedule env (n_ID n) s"
    and n: "n \<in> set (e_nodes env)" and c: "\<not> condition_false n (x_results s)"
    and b: "buildNodeInput n (e_req env) (x_results s) = Inl err"
  shows "explained env run s0 (run_failed (n_ID n) err s)"
proof -
  have "done_ok env run (x_results s) (failed (n_ID n) err)"
    unfolding done_ok_def
  proof (intro ballI impI)
    fix k assume "k \<in> set (e_nodes env)" and "n_ID k = nc_nodeID (failed (n_ID n) err)"
    then have "k = n" using same_node [OF v _ n] by (simp add: failed_def)
    then show "\<not> condition_false k (x_results s) \<and> failed (n_ID n) err = node_completion env run (x_results s) k"
      using c b by (simp add: node_completion_def)
  qed
  then show ?thesis
    by (intro explained_move [OF v e m n, where b = NodeRunning])
      (auto simp add: run_failed_def set_status_def Let_def)
qed

lemma explained_launch:
  assumes v: "valid_env env" and e: "explained env run s0 s" and m: "may_schedule env (n_ID n) s"
    and n: "n \<in> set (e_nodes env)" and c: "\<not> condition_false n (x_results s)"
    and b: "buildNodeInput n (e_req env) (x_results s) = Inr req"
  shows "explained env run s0 (launch (n_ID n) req (emit env ev s))"
proof -
  have "flight_ok env (x_results s) \<lparr>g_id = n_ID n, g_req = req, g_acquired = False\<rparr>"
    using same_node [OF v _ n] c b by (auto simp: flight_ok_def)
  then show ?thesis
    by (intro explained_move [OF v e m n, where b = NodeRunning])
      (auto simp add: launch_def emit_def set_status_def record_call_def Let_def)
qed

lemma explained_scheduler:
  "valid_env env \<Longrightarrow> explained env run s0 s \<Longrightarrow> set ds \<subseteq> set (ids_of env) \<Longrightarrow>
     propagate env k ds s = Some s' \<Longrightarrow> explained env run s0 s'"
  "valid_env env \<Longrightarrow> explained env run s0 s \<Longrightarrow> may_schedule env i s \<Longrightarrow>
     scheduleReady env k i s = Some s' \<Longrightarrow> explained env run s0 s'"
  "valid_env env \<Longrightarrow> explained env run s0 s \<Longrightarrow> may_schedule env i s \<Longrightarrow>
     enqueueReady env k i s = Some s' \<Longrightarrow> explained env run s0 s'"
proof (induction env k ds s and env k i s and env k i s arbitrary: s' and s' and s'
    rule: propagate_scheduleReady_enqueueReady.induct)
  case (2 env k d ds s)
  let ?s = "s\<lparr>x_inDegree := (x_inDegree s)(d := x_inDegree s d - 1)\<rparr>"
  have d: "d \<in> set (ids_of env)" and ds: "set ds \<subseteq> set (ids_of env)" using "2.prems"(3) by simp_all
  have e: "explained env run s0 ?s" by (rule explained_decrement [OF "2.prems"(2)])
  show ?case
  proof (cases "x_inDegree ?s d = 0 \<and> x_status ?s d = NodePending")
    case True
    then obtain s2 where s2: "enqueueReady env k d ?s = Some s2" "propagate env k ds s2 = Some s'"
      using "2.prems"(4) by (auto split: option.splits)
    have "may_schedule env d ?s" using True d by (simp add: may_schedule_def)
    from "2.IH"(1) [OF refl True "2.prems"(1) e this s2(1)] show ?thesis
      by (rule "2.IH"(2) [OF refl True s2(1) "2.prems"(1) _ ds s2(2)])
  next
    case False
    then have "propagate env k ds ?s = Some s'"
      using "2.prems"(4) by (simp only: propagate.simps Let_def if_False)
    then show ?thesis by (rule "2.IH"(3) [OF refl False "2.prems"(1) e ds])
  qed
next
  case (3 env k i s)
  have p: "x_status s i = NodePending" and ii: "i \<in> set (ids_of env)" using "3.prems"(3) by (auto simp: may_schedule_def)
  obtain n where n: "node_of (e_nodes env) i = Some n" using node_of_ids [OF ii] by blast
  then have mem: "n \<in> set (e_nodes env)" and id: "n_ID n = i" using node_of_Some by auto
  have nd: "\<not> (c_ReplayMode (e_cfg env) \<and> c_CheckpointStore (e_cfg env) \<noteq> None \<and> x_status s i = NodeDone)"
    using p by simp
  note m = "3.prems"(3) [folded id]
  show ?case
  proof (cases "condition_false n (x_results s)")
    case True
    have "explained env run s0 (skip_node i s)"
      using explained_skip [OF "3.prems"(1,2) m mem True] id by simp
    moreover have "propagate env k (downstream env i) (skip_node i s) = Some s'"
      using "3.prems"(4) n p True by simp
    ultimately show ?thesis by (rule "3.IH"(2) [OF n nd True "3.prems"(1) _ downstream_ids])
  next
    case False
    show ?thesis
    proof (cases "buildNodeInput n (e_req env) (x_results s)")
      case (Inl err)
      then have "s' = run_failed i err s"
        using "3.prems"(4) n p False by (simp add: run_failed_def Let_def)
      then show ?thesis using explained_run_failed [OF "3.prems"(1,2) m mem False Inl] id by simp
    next
      case (Inr req)
      then have "s' = launch i req (emit env (OnNodeStart i) s)" using "3.prems"(4) n p False by simp
      then show ?thesis using explained_launch [OF "3.prems"(1,2) m mem False Inr] id by simp
    qed
  qed
next
  case (5 env k i s)
  show ?case
  proof (cases "x_pq s")
    case None
    then show ?thesis using "5.IH" [OF None "5.prems"(1,2,3)] "5.prems"(4) by simp
  next
    case (Some q)
    obtain node where "node_of (e_nodes env) i = Some node"
      using "5.prems"(4) Some by (cases "node_of (e_nodes env) i") simp_all
    then have "s' = s\<lparr>x_pq := Some (pq_push q i (n_Priority node))\<rparr>" using "5.prems"(4) Some by simp
    then show ?thesis using "5.prems"(2) explained_cong [of s' s env run s0] by simp
  qed
qed simp_all

lemma explained_drain:
  assumes v: "valid_env env"
  shows "explained env run s0 s \<Longrightarrow> sched_inv env [] {} s \<Longrightarrow> active_ok env s \<Longrightarrow>
    drain_loop env k s = Some s' \<Longrightarrow> explained env run s0 s'"
proof (induction k arbitrary: s)
  case 0
  then show ?case by (auto simp: drain_loop.simps [of env 0] split: option.splits if_splits)
next
  case (Suc k)
  show ?case
  proof (cases "drained env s")
    case True
    then have "s' = s" using Suc.prems(4)
      by (auto simp: drain_loop.simps [of env "Suc k"] drained_def split: option.splits)
    then show ?thesis using Suc.prems(1) by simp
  next
    case False
    show ?thesis
    proof (rule drain_iteration [OF v Suc.prems(2,3) False])
      fix i q' s1 t
      assume i: "i \<in> set (ids_of env)" "x_status s i = NodePending" "x_inDegree s i = 0"
        and s1: "scheduleReady env (sched_fuel env) i (s\<lparr>x_pq := Some q'\<rparr>) = Some s1"
        and t: "t = (if x_status s1 i = NodeRunning then s1\<lparr>x_activePQ := x_activePQ s1 + 1\<rparr> else s1)"
          "sched_inv env [] {} t" "active_ok env t"
        and loop: "\<And>k. drain_loop env (Suc k) s = drain_loop env k t"
      have e: "explained env run s0 (s\<lparr>x_pq := Some q'\<rparr>)"
        using Suc.prems(1) explained_cong [of "s\<lparr>x_pq := Some q'\<rparr>" s env run s0] by simp
      have "may_schedule env i (s\<lparr>x_pq := Some q'\<rparr>)" using i by (simp add: may_schedule_def)
      from explained_scheduler(2) [OF v e this s1] have "explained env run s0 t"
        using explained_cong [of t s1 env run s0] t(1) by simp
      then show ?thesis using Suc.IH [OF _ t(2,3)] Suc.prems(4) loop by simp
    qed
  qed
qed


lemma explained_drainPQ:
  "valid_env env \<Longrightarrow> explained env run s0 s \<Longrightarrow> sched_inv env [] {} s \<Longrightarrow> active_ok env s \<Longrightarrow>
   drainPQ env s = Some s' \<Longrightarrow> explained env run s0 s'"
  unfolding drainPQ_def by (rule explained_drain)

lemma explained_proceed:
  assumes v: "valid_env env" and inv: "sched_inv env (downstream env i) {} s" and act: "active_ok env s"
    and e: "explained env run s0 s" and p: "proceed env i s = Some s'"
  shows "explained env run s0 s'"
proof -
  obtain s1 where s1: "propagateDownstream env i s = Some s1" "sched_inv env [] {} s1" "active_ok env s1"
    using propagate_all_ok [OF v inv act] by blast
  have "explained env run s0 s1"
    using explained_scheduler(1) [OF v e downstream_ids] s1(1) unfolding propagateDownstream_def by blast
  moreover have "drainPQ env s1 = Some s'" using p s1(1) by (simp add: proceed_def)
  ultimately show ?thesis using explained_drainPQ [OF v _ s1(2,3)] by blast
qed

section \<open>Completions\<close>

lemma degree_zero_deps:
  assumes "sched_inv env [] fresh s" and "n \<in> set (e_nodes env)" and "x_inDegree s (n_ID n) \<le> 0"
  shows "set (n_Deps n) \<subseteq> settled s"
proof -
  have "x_inDegree s (n_ID n) = open_deps (settled s) (n_Deps n)"
    using assms(1) graph_of_mem [OF assms(2)] by (simp add: sched_inv_def)
  then have "open_deps (settled s) (n_Deps n) = 0"
    using assms(3) open_deps_nonneg [of "settled s" "n_Deps n"] by (simp del: open_deps_nonneg)
  then show ?thesis by (simp add: open_deps_zero)
qed

lemma explained_settle:
  assumes v: "valid_env env" and inv: "sched_inv env [] {} s" and e: "explained env run s0 s"
    and n: "n \<in> set (e_nodes env)" and run: "x_status s (n_ID n) = NodeRunning"
    and others: "set (started s) \<subseteq> {i. x_status s i = NodeRunning}"
    and s2: "x_status s2 = (x_status s)(n_ID n := b)" "x_results s2 = (x_results s)(n_ID n := r)"
      "x_inDegree s2 = x_inDegree s" "x_flight s2 = x_flight s" "set (x_doneCh s2) \<subseteq> set (x_doneCh s)"
    and b: "b = NodeDone \<or> b = NodeSkipped"
    and out: "node_outcome env run (x_results s) n = Some (b, r)"
  shows "explained env run s0 s2"
proof -
  let ?i = "n_ID n"
  have ni: "?i \<notin> settled s" using run by (simp add: settled_def)
  have nr: "x_status s0 ?i \<noteq> NodeDone" using run e by (auto simp: explained_def)
  have set: "settled s2 = insert ?i (settled s)" using b by (auto simp: settled_def s2(1))
  have same: "\<forall>d\<in>set (n_Deps k). x_results s2 d = x_results s d"
    if "k \<in> set (e_nodes env)" "x_status s0 (n_ID k) \<noteq> NodeDone" "x_status s (n_ID k) \<noteq> NodePending" for k
  proof -
    have "x_inDegree s (n_ID k) \<le> 0" using e that by (simp add: explained_def node_ok_def)
    then have "set (n_Deps k) \<subseteq> settled s" using degree_zero_deps [OF inv that(1)] by simp
    then show ?thesis using ni by (auto simp: s2(2))
  qed
  have pend: "x_status s (n_ID k) \<noteq> NodePending" if "n_ID k \<in> settled s" for k
    using that by (auto simp: settled_def)
  have "node_ok env run s2 k" if k: "k \<in> set (e_nodes env)" "x_status s0 (n_ID k) \<noteq> NodeDone" for k
  proof (cases "n_ID k = ?i")
    case True
    then have kn: "k = n" using same_node [OF v k(1) n] by simp
    have "node_outcome env run (x_results s2) n = Some (b, r)"
      using node_outcome_cong(1) [OF same [OF n nr], of env run] run out by simp
    moreover have "x_inDegree s ?i \<le> 0" using e n nr run by (simp add: explained_def node_ok_def)
    ultimately show ?thesis unfolding kn node_ok_def set by (simp add: s2)
  next
    case False
    have ok: "node_ok env run s k" using e k by (simp add: explained_def)
    have "node_outcome env run (x_results s2) k = node_outcome env run (x_results s) k" if "n_ID k \<in> settled s"
      using node_outcome_cong(1) [OF same [OF k pend [OF that]], of env run] by simp
    then show ?thesis using ok False unfolding node_ok_def set by (simp add: s2)
  qed
  moreover have keep: "x_status s0 (n_ID k) \<noteq> NodeDone \<and> x_status s (n_ID k) = NodeRunning"
    if "n_ID k \<in> set (started s)" for k
    using that others e by (auto simp: explained_def)
  have "flight_ok env (x_results s2) g" if "g \<in> set (x_flight s)" for g
    unfolding flight_ok_def
  proof (intro ballI impI)
    fix k assume k: "k \<in> set (e_nodes env)" "n_ID k = g_id g"
    then have "n_ID k \<in> set (started s)" using that by (simp add: started_def)
    from keep [OF this] have d: "\<forall>d\<in>set (n_Deps k). x_results s2 d = x_results s d"
      using same [OF k(1)] by auto
    show "\<not> condition_false k (x_results s2) \<and> buildNodeInput k (e_req env) (x_results s2) = Inr (g_req g)"
      using e that k node_outcome_cong(2) [OF d] buildNodeInput_cong [OF d, of "e_req env"]
      by (simp add: explained_def flight_ok_def)
  qed
  moreover have "done_ok env run (x_results s2) c" if "c \<in> set (x_doneCh s)" for c
    unfolding done_ok_def
  proof (intro ballI impI)
    fix k assume k: "k \<in> set (e_nodes env)" "n_ID k = nc_nodeID c"
    then have "n_ID k \<in> set (started s)" using that by (simp add: started_def)
    from keep [OF this] have d: "\<forall>d\<in>set (n_Deps k). x_results s2 d = x_results s d"
      using same [OF k(1)] by auto
    show "\<not> condition_false k (x_results s2) \<and> c = node_completion env run (x_results s2) k"
      using e that k node_outcome_cong(2) [OF d] node_outcome_cong(3) [OF d, of env run] by (simp add: explained_def done_ok_def)
  qed
  moreover have "\<forall>i. x_status s0 i = NodeDone \<longrightarrow> x_status s2 i = NodeDone \<and> x_results s2 i = x_results s0 i"
    using e nr by (auto simp: explained_def s2)
  ultimately show ?thesis using s2(5) unfolding explained_def s2(4) by (intro conjI ballI) blast+
qed

lemma running_started:
  "sched_inv env [] {} s \<Longrightarrow> set (started s) \<subseteq> {i \<in> set (ids_of env). x_status s i = NodeRunning}"
proof -
  assume "sched_inv env [] {} s"
  then have "mset (started s) = mset (with_status env NodeRunning s)" by (simp add: sched_inv_def)
  from mset_eq_setD [OF this] show ?thesis by (auto simp: with_status_def)
qed

lemma handle_explained:
  assumes v: "valid_env env" and r: "ready_state env s" and pc: "x_pc s = Looping"
    and c: "x_doneCh s = c # cs" and e: "explained env run s0 s"
    and h: "handleCompletion env c (s\<lparr>x_doneCh := cs, x_pending := x_pending s - 1\<rparr>) = Some s'"
    and pc': "x_pc s' = Looping"
  shows "explained env run s0 s'"
proof -
  have inv: "sched_inv env [] {} s" and act: "active_ok env s" using r by (simp_all add: ready_state_def)
  let ?i = "nc_nodeID c"
  have "?i \<in> set (started s)" using c by (simp add: started_def)
  then have i: "?i \<in> set (ids_of env)" "x_status s ?i = NodeRunning" using running_started [OF inv] by auto
  obtain n where n: "node_of (e_nodes env) ?i = Some n" using node_of_ids [OF i(1)] by blast
  have mem: "n \<in> set (e_nodes env)" and id: "n_ID n = ?i" using node_of_Some [OF n] by auto
  have dn: "\<not> condition_false n (x_results s)" "c = node_completion env run (x_results s) n"
    using e c mem id by (auto simp: explained_def done_ok_def)
  then have out: "node_outcome env run (x_results s) n = completion_outcome env (x_results s) n c"
    by (simp add: node_outcome_def)
  have abort: "x_pc (start_abort k goal t) \<noteq> Looping" for k goal and t :: "('a, 'b, 'c, 'd, 'e) exec"
    by (simp add: start_abort_def)
  have fin: "explained env run s0 s'"
    if m: "moved ?i b cs s s2" and b: "b = NodeDone \<or> b = NodeSkipped"
      and rs: "x_results s2 = (x_results s)(?i := x)" and o: "completion_outcome env (x_results s) n c = Some (b, x)"
      and p: "proceed env ?i s2 = Some s'" for s2 b x
  proof -
    have s2: "x_status s2 = (x_status s)(?i := b)" "x_inDegree s2 = x_inDegree s" "x_pending s2 = x_pending s - 1"
      "x_flight s2 = x_flight s" "x_doneCh s2 = cs" "x_pq s2 = x_pq s"
      "x_activePQ s2 = (if x_pq s \<noteq> None then x_activePQ s - 1 else x_activePQ s)"
      using m by (simp_all add: moved_def)
    have b2: "b \<noteq> NodePending" "b \<noteq> NodeRunning" using b by auto
    note st = settle_running [OF v inv c refl b2 s2(1-6)]
    have "active_ok env s2" using act st(3) by (auto simp: active_ok_def s2(6,7))
    moreover have "explained env run s0 s2"
      using running_started [OF inv] c
      by (intro explained_settle [OF v inv e mem _ _ _ _ s2(2,4) _ b])
        (auto simp: id i out o s2 rs)
    ultimately show ?thesis using explained_proceed [OF v st(6) [OF b] _ _ p] by blast
  qed
  have h2: "(case nc_err c of
      Some err \<Rightarrow> handleNodeError env ?i err (after_receive cs s)
    | None \<Rightarrow> handleNodeSuccess env ?i (nc_resp c) (after_receive cs s)) = Some s'"
    using h unfolding handleCompletion_def after_receive_def Let_def .
  show ?thesis
  proof (cases "nc_err c")
    case None
    let ?s2 = "saveCheckpoint env ?i (nc_resp c) (add_usage env (nc_resp c) (emit env (OnNodeComplete ?i NodeDone None)
      (set_result ?i (nc_resp c) (set_status ?i NodeDone (after_receive cs s)))))"
    have "moved ?i NodeDone cs s ?s2" by (simp add: moved_def frame_simps)
    moreover have "x_results ?s2 = (x_results s)(?i := nc_resp c)" by (simp add: frame_simps set_result_def)
    moreover have "completion_outcome env (x_results s) n c = Some (NodeDone, nc_resp c)"
      using None by (simp add: completion_outcome_def)
    moreover have "proceed env ?i ?s2 = Some s'"
      using h2 None pc' abort by (auto simp: handleNodeSuccess_def Let_def split: if_splits option.splits)
    ultimately show ?thesis using fin by blast
  next
    case (Some err)
    let ?s1 = "emit env (OnNodeComplete ?i NodeFailed (Some err)) (set_status ?i NodeFailed (after_receive cs s))"
    have h3: "handleNodeError env ?i err (after_receive cs s) = Some s'" using h2 Some by simp
    have r1: "x_results ?s1 = x_results s" by (simp add: frame_simps)
    have co: "completion_outcome env (x_results s) n c = failure_outcome env (x_results s) n err"
      using Some by (simp add: completion_outcome_def)
    show ?thesis
    proof (cases "c_ErrorStrategy (e_cfg env) = Compensate \<and> c_CompensateCfg (e_cfg env) \<noteq> None")
      case True
      then obtain cc where cc: "c_ErrorStrategy (e_cfg env) = Compensate" "c_CompensateCfg (e_cfg env) = Some cc"
        by blast
      obtain resp where resp: "recover_node env cc n err (x_results s) = Some resp"
        using h3 n cc pc' abort r1 by (cases "recover_node env cc n err (x_results s)")
          (auto simp: handleNodeError_def Let_def)
      let ?s2 = "record_call (RecordEnd ?i NodeDone) (saveCheckpoint env ?i (Some resp) (add_usage env (Some resp)
        (emit env (OnNodeComplete ?i NodeDone None) (set_result ?i (Some resp) (set_status ?i NodeDone ?s1)))))"
      have "moved ?i NodeDone cs s ?s2" by (simp add: moved_def frame_simps)
      moreover have "x_results ?s2 = (x_results s)(?i := Some resp)" by (simp add: frame_simps set_result_def)
      moreover have "completion_outcome env (x_results s) n c = Some (NodeDone, Some resp)"
        using cc resp unfolding co by (simp add: failure_outcome_def)
      moreover have "proceed env ?i ?s2 = Some s'"
        using h3 n cc resp r1 by (simp add: handleNodeError_def Let_def)
      ultimately show ?thesis using fin by blast
    next
      case False
      then have h4: "handleNodeError env ?i err (after_receive cs s) =
          (if c_ErrorStrategy (e_cfg env) = Abort \<or> \<not> n_Optional n
           then Some (start_abort (countRunning env ?s1) (FailWith (node_failed ?i (Some err))) ?s1)
           else proceed env ?i (set_status ?i NodeSkipped ?s1))"
        using n by (auto simp: handleNodeError_def Let_def split: error_strategy.splits option.splits)
      then have opt: "\<not> (c_ErrorStrategy (e_cfg env) = Abort \<or> \<not> n_Optional n)"
        using h3 pc' abort by (auto split: if_splits)
      let ?s2 = "set_status ?i NodeSkipped ?s1"
      have "moved ?i NodeSkipped cs s ?s2" by (simp add: moved_def frame_simps)
      moreover have "x_results ?s2 = (x_results s)(?i := None)"
      proof -
        have "x_status s0 ?i \<noteq> NodeDone" using e i(2) by (auto simp: explained_def)
        then have "x_results s ?i = None" using e mem id i(2) by (auto simp: explained_def node_ok_def settled_def)
        then show ?thesis by (simp add: frame_simps fun_upd_idem)
      qed
      moreover have "completion_outcome env (x_results s) n c = Some (NodeSkipped, None)"
        using False opt unfolding co
        by (auto simp: failure_outcome_def split: error_strategy.splits option.splits)
      moreover have "proceed env ?i ?s2 = Some s'" using h3 h4 opt by simp
      ultimately show ?thesis using fin by blast
    qed
  qed
qed


section \<open>Executions that are not cut short\<close>

text \<open>
  All the behaviours a runner may show on a request make the goroutine of its node post the
  same completion.
\<close>

definition deterministic :: "('m, 'u, 'o, 'd, 's) dag_env \<Rightarrow> ('m, 'u, 'o, 'd) runners \<Rightarrow> bool" where
  "deterministic env run \<longleftrightarrow>
     (\<forall>n\<in>set (e_nodes env). \<forall>req ae. e_run env (n_ID n) req ae \<longrightarrow>
        fst (node_attempts n ae) = fst (node_attempts n (run (n_ID n) req)))"

definition undisturbed :: "('m, 'u, 'o, 'd, 's) exec \<Rightarrow> bool" where
  "undisturbed s \<longleftrightarrow> x_pc s = Looping \<and> x_ctx s = None"

lemma undisturbed_back:
  assumes v: "valid_env env" and inv: "dag_inv env s" and st: "dag_step env s s'" and u: "undisturbed s'"
  shows "undisturbed s"
  using st
proof cases
  case (receive c cs)
  then have "ready_state env s" using inv by (simp add: dag_inv_def pc_ok_def)
  then have "handled env s s'" using handleCompletion_ok [OF v _ receive(1,3)] receive(4) by simp
  then show ?thesis using u receive(1) by (simp add: handled_def undisturbed_def)
next
  case complete
  then show ?thesis using u finalize_props(7) [of env s] by (auto simp: undisturbed_def)
next
  case (drained goal)
  then have "goal_ok env goal" using inv by (simp add: dag_inv_def pc_ok_def)
  from finish_abort_props(2) [OF v this drained(2)] show ?thesis using u by (auto simp: undisturbed_def)
qed (use u in \<open>auto simp: undisturbed_def post_props start_abort_def cancel_def split: option.splits\<close>)

lemma undisturbed_step:
  assumes v: "valid_env env" and inv: "dag_inv env s" and det: "deterministic env run"
    and e: "explained env run s0 s" and st: "dag_step env s s'" and u: "undisturbed s'"
  shows "explained env run s0 s'"
proof -
  have us: "x_pc s = Looping" "x_ctx s = None"
    using undisturbed_back [OF v inv st u] by (simp_all add: undisturbed_def)
  show ?thesis
    using st
  proof cases
    case (acquire gs1 g gs2)
    then have "flight_ok env (x_results s) (g\<lparr>g_acquired := True\<rparr>)"
      using e by (simp add: explained_def flight_ok_def)
    then show ?thesis using e acquire by (simp add: explained_def node_ok_def settled_def)
  next
    case (abandon gs1 g gs2 e')
    then show ?thesis using us by simp
  next
    case (finish gs1 g gs2 c)
    obtain node where n: "node_of (e_nodes env) (g_id g) = Some node"
      using finish(4) by (auto simp: may_post_def split: option.splits)
    have nn: "n_ID node = g_id g" "node \<in> set (e_nodes env)" using node_of_Some [OF n] by simp_all
    then have "c = fst (node_attempts node (run (g_id g) (g_req g)))"
      using finish(4) n us det by (auto simp: may_post_def deterministic_def)
    moreover have id: "nc_nodeID c = g_id g" by (rule may_post_id [OF finish(4)])
    moreover have "flight_ok env (x_results s) g" using e finish(2) by (simp add: explained_def)
    moreover note nn
    moreover have "k = node" if "k \<in> set (e_nodes env)" "n_ID k = g_id g" for k
      using same_node [OF v that(1)] calculation that by simp
    ultimately have "done_ok env run (x_results s) c"
      unfolding done_ok_def flight_ok_def node_completion_def by (metis sum.case(2))
    then show ?thesis using e finish(1,2)
      by (auto simp: explained_def node_ok_def settled_def post_def record_call_def Let_def)
  next
    case (release n)
    then show ?thesis using e explained_cong [of s' s env run s0] by simp
  next
    case (ctx_done e')
    then show ?thesis using u by (simp add: undisturbed_def)
  next
    case (receive c cs)
    then have r: "ready_state env s" using inv by (simp add: dag_inv_def pc_ok_def)
    show ?thesis using handle_explained [OF v r receive(1,3) e receive(4)] u by (simp add: undisturbed_def)
  next
    case (observe e')
    then show ?thesis using us by simp
  next
    case complete
    then show ?thesis using u finalize_props(7) [of env s] by (auto simp: undisturbed_def)
  next
    case (drain k goal c cs)
    then show ?thesis using us by simp
  next
    case (drained goal)
    then show ?thesis using us by simp
  qed
qed

lemma explained_initial:
  assumes v: "valid_env env"
  shows "explained env run (initial env data store) (initial env data store)"
proof -
  let ?s = "initial env data store"
  have st: "x_status ?s = (\<lambda>i. if resumed env data i then NodeDone else NodePending)"
    and r: "x_results ?s = (\<lambda>i. if resumed env data i then entry data i else None)"
    and f: "x_flight ?s = []" "x_doneCh ?s = []" by (simp_all add: initial_def Let_def)
  show ?thesis by (simp add: explained_def node_ok_def settled_def st r f)
qed

lemma explained_start:
  assumes v: "valid_env env" and s: "start_run env (initial env data store) = Some s"
  shows "explained env run (initial env data store) s"
proof -
  let ?P = "explained env run (initial env data store)"
  have p1: "?P s'" if "?P s" "i \<in> set (ids_of env)" "x_inDegree s i = 0 \<and> x_status s i = NodePending"
    "enqueueReady env (Suc (sched_fuel env)) i s = Some s'" for i s s'
    using explained_scheduler(3) [OF v that(1) _ that(4)] that(2,3) by (simp add: may_schedule_def)
  have p2: "?P s'" if "?P s" "sched_inv env [] {} s" "active_ok env s" "drainPQ env s = Some s'" for s s'
    using explained_drainPQ [OF v that] .
  from start_run_keeps [of env ?P data store, OF v p1 p2] show ?thesis
    using explained_initial [OF v] s by auto
qed

lemma undisturbed_explained:
  assumes "reachable env0 store env s" and "newDagExecutor env0 store = Some (Inr (env, s0))"
    and "deterministic env run" and "undisturbed s"
  shows "explained env run s0 s"
  using assms(1,4)
proof (induction rule: reachable.induct)
  case (start s1 s)
  then have eq: "s1 = s0" using assms(2) by simp
  obtain data where "s0 = initial env data store" using newDagExecutor_Inr [OF assms(2)] by blast
  then show ?case
    using explained_start [OF started_dag_inv(1) [OF start(1,2)]] start(2) eq by simp
next
  case (step s s')
  have i: "valid_env env" "dag_inv env s" using reachable_inv [OF step(1)] by simp_all
  have "undisturbed s" by (rule undisturbed_back [OF i step(2,4)])
  then show ?case using undisturbed_step [OF i assms(3) step(3) step(2,4)] by simp
qed

lemma complete_settled:
  assumes "reachable env0 store env s" and "undisturbed s" and "x_pending s \<le> 0" and "i \<in> set (ids_of env)"
  shows "i \<in> settled s"
proof -
  have r: "ready_state env s"
    using reachable_inv [OF assms(1)] assms(2) by (simp add: dag_inv_def pc_ok_def undisturbed_def)
  have "length (with_status env NodePending s) = 0" "length (with_status env NodeRunning s) = 0"
    using ready_state_counts(1) [OF r] assms(3) by linarith+
  then have "x_status s i \<noteq> NodePending" "x_status s i \<noteq> NodeRunning"
    using assms(4) by (auto simp: with_status_def filter_empty_conv)
  then show ?thesis using ready_state_counts(3) [OF r] assms(4)
    by (cases "x_status s i") (auto simp: settled_def)
qed

section \<open>A sample execution to the end\<close>

text \<open>The first goroutine in flight gets its slot, runs, posts, and its completion is handled.\<close>

definition run_round :: "('m, 'u, 'o, 'd, 's) dag_env \<Rightarrow> ('m, 'u, 'o, 'd) runners
      \<Rightarrow> ('m, 'u, 'o, 'd, 's) exec \<Rightarrow> ('m, 'u, 'o, 'd, 's) exec option" where
  "run_round env run s =
     (case x_flight s of
        [] \<Rightarrow> None
      | g # gs \<Rightarrow>
          (case node_of (e_nodes env) (g_id g) of
             None \<Rightarrow> None
           | Some node \<Rightarrow>
               (let c = fst (node_attempts node (run (g_id g) (g_req g)));
                    s1 = s\<lparr>x_flight := g\<lparr>g_acquired := True\<rparr> # gs\<rparr>;
                    s2 = (post c gs s1)\<lparr>x_releasing := x_releasing s1 + 1\<rparr>;
                    s3 = s2\<lparr>x_releasing := x_releasing s1\<rparr>
                in if x_pc s = Looping \<and> x_pending s > 0 \<and> x_doneCh s = [] \<and> slot_free env s \<and>
                      \<not> g_acquired g \<and> e_nodes env \<noteq> [] \<and> e_run env (g_id g) (g_req g) (run (g_id g) (g_req g))
                   then handleCompletion env c (s3\<lparr>x_doneCh := [], x_pending := x_pending s3 - 1\<rparr>)
                   else None)))"

lemma run_round_reachable:
  assumes "reachable env0 store env s" and "run_round env run s = Some s'"
  shows "reachable env0 store env s'"
proof -
  obtain g gs where g: "x_flight s = [] @ g # gs" using assms(2) by (auto simp: run_round_def split: list.splits)
  obtain node where n: "node_of (e_nodes env) (g_id g) = Some node"
    using assms(2) g by (auto simp: run_round_def split: option.splits)
  let ?c = "fst (node_attempts node (run (g_id g) (g_req g)))"
  let ?s1 = "s\<lparr>x_flight := [] @ g\<lparr>g_acquired := True\<rparr> # gs\<rparr>"
  let ?s2 = "(post ?c ([] @ gs) ?s1)\<lparr>x_releasing := x_releasing ?s1 + 1\<rparr>"
  let ?s3 = "?s2\<lparr>x_releasing := x_releasing ?s1\<rparr>"
  have c: "x_pc s = Looping" "x_pending s > 0" "x_doneCh s = []" "slot_free env s" "\<not> g_acquired g"
    "e_nodes env \<noteq> []" "e_run env (g_id g) (g_req g) (run (g_id g) (g_req g))"
    and h: "handleCompletion env ?c (?s3\<lparr>x_doneCh := [], x_pending := x_pending ?s3 - 1\<rparr>) = Some s'"
    using assms(2) g n by (simp_all add: run_round_def Let_def split: if_splits)
  have "dag_step env s ?s1" by (rule dag_step.acquire [OF g c(5,4)])
  then have r1: "reachable env0 store env ?s1" by (rule reachable.step [OF assms(1)])
  have "may_post env (x_ctx ?s1) (g\<lparr>g_acquired := True\<rparr>) ?c" using n c(7) by (auto simp: may_post_def)
  then have "dag_step env ?s1 ?s2" using c(3,6) by (intro dag_step.finish [of ?s1 "[]"]) auto
  then have r2: "reachable env0 store env ?s2" by (rule reachable.step [OF r1])
  have "dag_step env ?s2 ?s3" by (rule dag_step.release) simp
  then have r3: "reachable env0 store env ?s3" by (rule reachable.step [OF r2])
  have "dag_step env ?s3 s'"
    by (rule dag_step.receive [OF _ _ _ h]) (simp_all add: post_props c)
  then show ?thesis by (rule reachable.step [OF r3])
qed

definition sample_run :: "(nat, nat, unit, unit) runners" where
  "sample_run i req = \<lparr>ae_run = (\<lambda>_. Inr (Some (reply_with [2] ''s''))), ae_ctx = (\<lambda>_. None)\<rparr>"

lemma sample_deterministic: "deterministic sample_env sample_run"
proof -
  have "attempt_loop i ae (Suc k) 0 None = (\<lparr>nc_nodeID = i, nc_resp = Some (reply_with [2] ''s''), nc_err = None\<rparr>, 1)"
    if "ae_run ae 0 = Inr (Some (reply_with [2] ''s''))" for i k and ae :: "(nat, nat, unit) attempt_env"
    using that by (simp add: runRunnerWithTimeout_def rejectInterrupted_def reply_with_def empty_response_def)
  moreover have "e_run sample_env i req (sample_run i req)" for i req by (simp add: sample_env_def sample_run_def)
  ultimately show ?thesis
    by (auto simp: deterministic_def node_attempts_def sample_env_def sample_node_def max_attempts_def int64_def
        numeral_eq_Suc simp del: attempt_loop.simps)
qed

definition sample_done :: "(nat, nat, unit, unit, unit) exec" where
  "sample_done =
     (case Option.bind (run_round sample_env sample_run sample_state) (run_round sample_env sample_run) of
        Some s \<Rightarrow> s | None \<Rightarrow> sample_state)"

lemma sample_done_reachable: "reachable sample_env () sample_env sample_done"
proof (cases "Option.bind (run_round sample_env sample_run sample_state) (run_round sample_env sample_run)")
  case None
  then show ?thesis by (simp add: sample_done_def sample_reachable)
next
  case (Some s)
  then obtain u where u: "run_round sample_env sample_run sample_state = Some u"
    "run_round sample_env sample_run u = Some s" by (auto simp: bind_eq_Some_conv)
  show ?thesis
    using run_round_reachable [OF run_round_reachable [OF sample_reachable u(1)] u(2)] Some
    by (simp add: sample_done_def)
qed

lemma sample_done_facts:
  "x_pc sample_done = Looping" "x_ctx sample_done = None" "x_pending sample_done = 0"
  by code_simp+

section \<open>Schedule independence\<close>




section \<open>Completions drained after an abort\<close>

text \<open>
  C31. A node whose completion is only drained leaves no trace: the drain drops the completion,
  be it a success, and the node stays running in the result. The backward compensation that
  follows looks for nodes that are done, so the effects of such a node are never rolled back.
\<close>

theorem drained_completion_is_lost:
  assumes "reachable env0 store env s" and "x_pc s = Draining (Suc k) goal" and "x_doneCh s = c # cs"
  shows "\<exists>s'. dag_step env s s' \<and> x_doneCh s' = cs \<and> x_status s' = x_status s \<and> x_results s' = x_results s \<and>
    x_status s' (nc_nodeID c) = NodeRunning \<and>
    (\<forall>order. completed_reverse (e_nodes env) (x_status s') = Some order \<longrightarrow> nc_nodeID c \<notin> set order)"
proof -
  have "set (started s) \<subseteq> {i \<in> set (ids_of env). x_status s i = NodeRunning}"
    using reachable_inv [OF assms(1)] by (simp add: dag_inv_def started_ok_def)
  then have run: "x_status s (nc_nodeID c) = NodeRunning" using assms(3) by (auto simp: started_def)
  let ?s = "s\<lparr>x_doneCh := cs, x_pc := Draining k goal\<rparr>"
  have "dag_step env s ?s" by (rule dag_step.drain [OF assms(2,3)])
  moreover have "nc_nodeID c \<notin> set order" if "completed_reverse (e_nodes env) (x_status s) = Some order" for order
    using that run by (auto simp: completed_reverse_def)
  ultimately show ?thesis using run by (intro exI [of _ ?s]) simp
qed

text \<open>The sample execution, cancelled when its first node has just succeeded.\<close>

definition sample_posted :: "(nat, nat, unit, unit, unit) exec" where
  "sample_posted =
     (post \<lparr>nc_nodeID = ''a'', nc_resp = Some (reply_with [2] ''s''), nc_err = None\<rparr> []
       (sample_state\<lparr>x_flight := map (\<lambda>g. g\<lparr>g_acquired := True\<rparr>) (x_flight sample_state)\<rparr>))
     \<lparr>x_releasing := 1\<rparr>"

lemma sample_posted_reachable: "reachable sample_env () sample_env sample_posted"
proof -
  obtain g where g: "x_flight sample_state = [] @ g # []"
    using sample_counts(4) by (cases "x_flight sample_state") auto
  have "map g_id (x_flight sample_state) = [''a''] \<and> map g_acquired (x_flight sample_state) = [False]"
    by code_simp
  then have gi: "g_id g = ''a''" "\<not> g_acquired g" using g by simp_all
  let ?s1 = "sample_state\<lparr>x_flight := [] @ g\<lparr>g_acquired := True\<rparr> # []\<rparr>"
  have "slot_free sample_env sample_state" by code_simp
  from dag_step.acquire [OF g gi(2) this] have r1: "reachable sample_env () sample_env ?s1"
    by (rule reachable.step [OF sample_reachable])
  let ?c = "\<lparr>nc_nodeID = ''a'', nc_resp = Some (reply_with [2] ''s''), nc_err = None\<rparr> :: (nat, nat, unit) completion"
  have "node_of (e_nodes sample_env) ''a'' = Some (sample_node ''a'' []) \<and>
      fst (node_attempts (sample_node ''a'' []) (sample_run ''a'' r)) = ?c" for r
    by (simp add: node_of_def sample_env_def sample_node_def node_attempts_def sample_run_def
        max_attempts_def int64_def numeral_eq_Suc runRunnerWithTimeout_def rejectInterrupted_def reply_with_def
        empty_response_def)
  moreover have "e_run sample_env i r (sample_run i r)" for i r by (simp add: sample_env_def sample_run_def)
  ultimately have "may_post sample_env (x_ctx ?s1) (g\<lparr>g_acquired := True\<rparr>) ?c"
    using gi unfolding may_post_def by (auto intro!: exI [of _ "sample_run ''a'' (g_req g)"])
  moreover have "length (x_doneCh ?s1) < length (e_nodes sample_env)"
    using sample_counts(5) by (simp add: sample_env_def)
  ultimately have "dag_step sample_env ?s1 ((post ?c ([] @ []) ?s1)\<lparr>x_releasing := x_releasing ?s1 + 1\<rparr>)"
    by (intro dag_step.finish [of ?s1 "[]" "g\<lparr>g_acquired := True\<rparr>" "[]"]) simp_all
  moreover have "x_releasing sample_state = 0" by code_simp
  ultimately have "dag_step sample_env ?s1 sample_posted" using g by (simp add: sample_posted_def)
  then show ?thesis by (rule reachable.step [OF r1])
qed

theorem drained_completion_is_lost_witness:
  "\<exists>s s'. nc_err (hd (x_doneCh (s :: (nat, nat, unit, unit, unit) exec))) = None \<and>
     dag_step sample_env s s' \<and> x_doneCh s' = [] \<and> x_status s' ''a'' = NodeRunning"
proof -
  let ?t = "sample_posted\<lparr>x_ctx := Some Canceled\<rparr>"
  have f: "x_pc sample_posted = Looping" "x_pending sample_posted > 0" "x_ctx sample_posted = None"
    "countRunning sample_env sample_posted = 1"
    by code_simp+
  have d: "x_doneCh sample_posted = [\<lparr>nc_nodeID = ''a'', nc_resp = Some (reply_with [2] ''s''), nc_err = None\<rparr>]"
    using sample_counts(5) by (simp add: sample_posted_def post_props)
  have t: "reachable sample_env () sample_env ?t"
    by (rule reachable.step [OF sample_posted_reachable dag_step.ctx_done]) (simp_all add: f)
  let ?u = "start_abort (countRunning sample_env ?t) (FailWith Canceled) ?t"
  have "dag_step sample_env ?t ?u" by (rule dag_step.observe) (simp_all add: f)
  then have u: "reachable sample_env () sample_env ?u" by (rule reachable.step [OF t])
  have "countRunning sample_env ?t = 1" using f(4) by (simp add: countRunning_def)
  then have "x_pc ?u = Draining (Suc 0) (FailWith Canceled)" by (simp add: start_abort_def)
  moreover have du: "x_doneCh ?u = [\<lparr>nc_nodeID = ''a'', nc_resp = Some (reply_with [2] ''s''), nc_err = None\<rparr>]"
    using d by (simp add: start_abort_def cancel_def)
  ultimately obtain s' where "dag_step sample_env ?u s'" "x_doneCh s' = []" "x_status s' ''a'' = NodeRunning"
    using drained_completion_is_lost [OF u] by (metis completion.select_convs(1))
  then show ?thesis using du by (intro exI [of _ ?u] exI [of _ s']) simp
qed

end
