(* ===== verification/Composites.thy ===== *)
theory Composites
  imports Aggregate DagExec
begin

text \<open>
  The other composites of package \<open>orchestrate\<close>: the loop (\<open>loop.go\<close>), the conditional node
  (\<open>conditional.go\<close>), the dynamic spawn (\<open>spawn.go\<close>) and the timeline of an execution
  (\<open>timeline.go\<close>). What a runner answers, and whether the context is done, are functions of
  the call; the order in which spawned children finish is a parameter.
\<close>

section \<open>Loops\<close>

record ('m, 'u, 'd) loop_node =
  lo_HasBody :: bool
  lo_Condition :: "(('m, 'u, 'd) run_response option \<Rightarrow> bool) option"
  lo_MaxIters :: int
  lo_ConvergenceFunc :: "(('m, 'u, 'd) run_response \<Rightarrow> ('m, 'u, 'd) run_response \<Rightarrow> bool) option"

record ('m, 'u, 'o, 'd) loop_env =
  le_body :: "nat \<Rightarrow> ('m, 'o, 'd) run_request \<Rightarrow> ('m, 'u, 'd) answer"
  le_ctx :: "nat \<Rightarrow> go_error option"
  le_usage_zero :: 'u
  le_usage_add :: "'u \<Rightarrow> 'u \<Rightarrow> 'u"

definition count_usage :: "('m, 'u, 'o, 'd) loop_env \<Rightarrow> 'u option \<Rightarrow> ('m, 'u, 'd) run_response \<Rightarrow> 'u option" where
  "count_usage env acc resp =
     (case r_usage resp of
        None \<Rightarrow> acc
      | Some u \<Rightarrow> Some (le_usage_add env (case acc of None \<Rightarrow> le_usage_zero env | Some t \<Rightarrow> t) u))"

text \<open>Whether the loop goes on after an iteration that answered \<open>resp\<close>.\<close>

definition loop_goes_on :: "('m, 'u, 'd) loop_node \<Rightarrow> ('m, 'u, 'd) run_response option
      \<Rightarrow> ('m, 'u, 'd) run_response \<Rightarrow> bool" where
  "loop_goes_on l prevResp resp \<longleftrightarrow>
     \<not> (case lo_Condition l of None \<Rightarrow> False | Some c \<Rightarrow> \<not> c (Some resp)) \<and>
     \<not> (case (lo_ConvergenceFunc l, prevResp) of (Some f, Some p) \<Rightarrow> f p resp | _ \<Rightarrow> False)"

text \<open>
  The loop with some fuel; the value \<open>None\<close> says that it was not enough. It returns the last
  response and the usage.
\<close>

fun loop_run :: "('m, 'u, 'd) loop_node \<Rightarrow> ('m, 'u, 'o, 'd) loop_env \<Rightarrow> ('m, 'o, 'd) run_request
      \<Rightarrow> nat \<Rightarrow> nat \<Rightarrow> ('m, 'o, 'd) run_request \<Rightarrow> ('m, 'u, 'd) run_response option \<Rightarrow> 'u option
      \<Rightarrow> (go_error + ('m, 'u, 'd) run_response option \<times> 'u option) option" where
  "loop_run l env req fuel iter currentReq prevResp usage =
     (if \<not> (lo_MaxIters l \<le> 0 \<or> int iter < lo_MaxIters l) then Some (Inr (prevResp, usage))
      else (case fuel of
        0 \<Rightarrow> None
      | Suc fuel' \<Rightarrow>
          (case le_ctx env iter of
             Some e \<Rightarrow> Some (Inl e)
           | None \<Rightarrow>
          (case le_body env iter currentReq of
             Inl err \<Rightarrow> Some (Inl (Errorf ''orchestrate: loop iteration %d: %w'' [AInt (int iter)] (Some err)))
           | Inr None \<Rightarrow>
               Some (Inl (Errorf ''orchestrate: loop iteration %d: nil response'' [AInt (int iter)] None))
           | Inr (Some resp) \<Rightarrow>
               (case rejectInterrupted [AStr ''loop iteration'', AInt (int iter)] (Some resp) of
                  Some e \<Rightarrow> Some (Inl e)
                | None \<Rightarrow>
                    (let usage' = count_usage env usage resp in
                     if loop_goes_on l prevResp resp
                     then loop_run l env req fuel' (Suc iter) (req\<lparr>q_messages := r_messages resp\<rparr>)
                            (Some resp) usage'
                     else Some (Inr (Some resp, usage'))))))))"

declare loop_run.simps [simp del]

definition ExecuteLoop :: "nat \<Rightarrow> ('m, 'u, 'd) loop_node \<Rightarrow> ('m, 'u, 'o, 'd) loop_env
      \<Rightarrow> ('m, 'o, 'd) run_request \<Rightarrow> (go_error + ('m, 'u, 'd) run_response) option" where
  "ExecuteLoop fuel l env req =
     (if \<not> lo_HasBody l then Some (Inl (Errorf ''orchestrate: loop body is nil'' [] None))
      else if (case lo_Condition l of None \<Rightarrow> False | Some c \<Rightarrow> \<not> c None)
      then Some (Inr (reply_with (q_messages req) (q_sessionID req)))
      else (case loop_run l env req fuel 0 req None None of
              None \<Rightarrow> None
            | Some (Inl e) \<Rightarrow> Some (Inl e)
            | Some (Inr (None, usage)) \<Rightarrow> Some (Inr (reply_with (q_messages req) (q_sessionID req)))
            | Some (Inr (Some lastResp, usage)) \<Rightarrow>
                Some (Inr ((reply_with (r_messages lastResp) (q_sessionID req))
                             \<lparr>r_metadata := r_metadata lastResp, r_usage := usage\<rparr>))))"

text \<open>
  A chain of iterations: each answers without suspending, and each after the first gets the
  messages of the one before.
\<close>

fun loop_chain :: "('m, 'u, 'd) loop_node \<Rightarrow> ('m, 'u, 'o, 'd) loop_env \<Rightarrow> ('m, 'o, 'd) run_request
      \<Rightarrow> nat \<Rightarrow> ('m, 'o, 'd) run_request \<Rightarrow> ('m, 'u, 'd) run_response option
      \<Rightarrow> ('m, 'u, 'd) run_response list \<Rightarrow> bool" where
  "loop_chain l env req iter currentReq prev [] = True"
| "loop_chain l env req iter currentReq prev (r # rs) =
     (le_body env iter currentReq = Inr (Some r) \<and> \<not> r_interrupted r \<and>
      (rs \<noteq> [] \<longrightarrow> loop_goes_on l prev r) \<and>
      loop_chain l env req (Suc iter) (req\<lparr>q_messages := r_messages r\<rparr>) (Some r) rs)"

lemma loop_run_enough:
  "0 < lo_MaxIters l \<Longrightarrow> nat (lo_MaxIters l) \<le> iter + fuel \<Longrightarrow>
   loop_run l env req fuel iter currentReq prev usage \<noteq> None"
proof (induction fuel arbitrary: iter currentReq prev usage)
  case 0
  then show ?case by (simp add: loop_run.simps nat_le_iff)
next
  case (Suc fuel)
  have "loop_run l env req fuel (Suc iter) r p u \<noteq> None" for r p u
    using Suc.IH [of "Suc iter"] Suc.prems by simp
  then show ?case
    by (subst loop_run.simps) (auto simp: Let_def split: option.splits sum.splits)
qed

lemma loop_run_chain:
  "loop_run l env req fuel iter currentReq prev usage = Some (Inr (res, u)) \<Longrightarrow>
   (\<forall>p. prev = Some p \<longrightarrow> \<not> r_interrupted p) \<Longrightarrow>
   \<exists>rs. loop_chain l env req iter currentReq prev rs \<and>
     res = (if rs = [] then prev else Some (last rs)) \<and> u = foldl (count_usage env) usage rs \<and>
     (0 < lo_MaxIters l \<longrightarrow> int iter \<le> lo_MaxIters l \<longrightarrow> int (iter + length rs) \<le> lo_MaxIters l) \<and>
     (rs = [] \<longrightarrow> 0 < lo_MaxIters l \<and> lo_MaxIters l \<le> int iter)"
proof (induction fuel arbitrary: iter currentReq prev usage)
  case 0
  then show ?case by (intro exI [of _ "[]"]) (auto simp: loop_run.simps split: if_splits)
next
  case (Suc fuel)
  show ?case
  proof (cases "lo_MaxIters l \<le> 0 \<or> int iter < lo_MaxIters l")
    case False
    then show ?thesis using Suc.prems(1)
      by (intro exI [of _ "[]"]) (auto simp: loop_run.simps [of l env req "Suc fuel"])
  next
    case True
    then obtain r where r: "le_body env iter currentReq = Inr (Some r)" "\<not> r_interrupted r"
      and rest: "(if loop_goes_on l prev r
          then loop_run l env req fuel (Suc iter) (req\<lparr>q_messages := r_messages r\<rparr>) (Some r) (count_usage env usage r)
          else Some (Inr (Some r, count_usage env usage r))) = Some (Inr (res, u))"
      using Suc.prems(1)
      by (subst (asm) loop_run.simps) (auto simp: Let_def split: option.splits sum.splits)
    show ?thesis
    proof (cases "loop_goes_on l prev r")
      case True
      then have "loop_run l env req fuel (Suc iter) (req\<lparr>q_messages := r_messages r\<rparr>) (Some r)
          (count_usage env usage r) = Some (Inr (res, u))" using rest by simp
      from Suc.IH [OF this] r(2) obtain rs where rs:
        "loop_chain l env req (Suc iter) (req\<lparr>q_messages := r_messages r\<rparr>) (Some r) rs"
        "res = (if rs = [] then Some r else Some (last rs))" "u = foldl (count_usage env) (count_usage env usage r) rs"
        "0 < lo_MaxIters l \<longrightarrow> int (Suc iter) \<le> lo_MaxIters l \<longrightarrow> int (Suc iter + length rs) \<le> lo_MaxIters l"
        by auto
      show ?thesis
        using rs r True \<open>lo_MaxIters l \<le> 0 \<or> int iter < lo_MaxIters l\<close>
        by (intro exI [of _ "r # rs"]) auto
    next
      case False
      then show ?thesis using rest r \<open>lo_MaxIters l \<le> 0 \<or> int iter < lo_MaxIters l\<close>
        by (intro exI [of _ "[r]"]) auto
    qed
  qed
qed

text \<open>
  A loop with a positive bound always returns, and when it returns a response, this is the
  last of a chain of at most \<open>MaxIters\<close> iterations, none of them suspended, each fed with the
  messages of the one before; it carries the request's session. The two ways to have no
  iteration answer with the request's own messages.
\<close>

theorem loop_returns_last_iteration:
  assumes "0 < lo_MaxIters l"
  shows "\<exists>r. ExecuteLoop (nat (lo_MaxIters l)) l env req = Some r \<and>
    (\<forall>resp. r = Inr resp \<longrightarrow> r_sessionID resp = q_sessionID req \<and>
       (r_messages resp = q_messages req \<and> (\<exists>c. lo_Condition l = Some c \<and> \<not> c None) \<or>
        (\<exists>rs. rs \<noteq> [] \<and> int (length rs) \<le> lo_MaxIters l \<and> loop_chain l env req 0 req None rs \<and>
           r_messages resp = r_messages (last rs) \<and>
           r_usage resp = foldl (count_usage env) None rs)))"
proof -
  have ne: "loop_run l env req (nat (lo_MaxIters l)) 0 req None None \<noteq> None"
    using assms by (intro loop_run_enough) simp_all
  then obtain out where out: "loop_run l env req (nat (lo_MaxIters l)) 0 req None None = Some out" by blast
  show ?thesis
  proof (cases "lo_HasBody l \<and> \<not> (case lo_Condition l of None \<Rightarrow> False | Some c \<Rightarrow> \<not> c None)")
    case False
    then show ?thesis by (auto simp: ExecuteLoop_def reply_with_def empty_response_def split: option.splits)
  next
    case True
    show ?thesis
    proof (cases out)
      case (Inl e)
      then show ?thesis using True out by (simp add: ExecuteLoop_def)
    next
      case (Inr p)
      obtain res u where p: "p = (res, u)" by (rule prod.exhaust)
      from loop_run_chain [OF out [unfolded Inr p]] assms obtain rs where rs: "rs \<noteq> []"
        "loop_chain l env req 0 req None rs" "res = Some (last rs)" "u = foldl (count_usage env) None rs"
        "int (length rs) \<le> lo_MaxIters l"
        by (auto split: if_splits)
      then show ?thesis using True out Inr p
        by (auto simp: ExecuteLoop_def reply_with_def empty_response_def intro!: exI [of _ rs])
    qed
  qed
qed


definition sample_loop :: "(nat, nat, unit) loop_node" where
  "sample_loop = \<lparr>lo_HasBody = True, lo_Condition = None, lo_MaxIters = 2, lo_ConvergenceFunc = None\<rparr>"

definition sample_loop_env :: "(nat, nat, unit, unit) loop_env" where
  "sample_loop_env =
     \<lparr>le_body = (\<lambda>k q. Inr (Some (reply_with (k # q_messages q) ''x''))), le_ctx = (\<lambda>_. None),
      le_usage_zero = 0, le_usage_add = (+)\<rparr>"

theorem loop_returns_last_iteration_witness:
  "ExecuteLoop 2 sample_loop sample_loop_env
     \<lparr>q_messages = [9], q_sessionID = ''s'', q_options = None, q_metadata = None\<rparr> =
     Some (Inr (reply_with [1, 0, 9] ''s'')) \<and>
   r_sessionID (reply_with [1 :: nat, 0, 9] ''s'' :: (nat, nat, unit) run_response) = ''s''"
proof -
  let ?q = "\<lparr>q_messages = [9], q_sessionID = ''s'', q_options = None, q_metadata = None\<rparr> :: (nat, unit, unit) run_request"
  have run: "ExecuteLoop 2 sample_loop sample_loop_env ?q = Some (Inr (reply_with [1, 0, 9] ''s''))"
    by (simp add: ExecuteLoop_def loop_run.simps sample_loop_def sample_loop_env_def numeral_eq_Suc
        rejectInterrupted_def reply_with_def empty_response_def loop_goes_on_def count_usage_def)
  have "0 < lo_MaxIters sample_loop" and n: "nat (lo_MaxIters sample_loop) = 2" by (simp_all add: sample_loop_def)
  from loop_returns_last_iteration [OF this(1), of sample_loop_env ?q] run n show ?thesis by simp
qed

section \<open>Conditional nodes\<close>

text \<open>A branch whose \<open>Condition\<close> is nil makes its evaluation panic.\<close>

record ('m, 'u, 'd) branch =
  b_Condition :: "(('m, 'u, 'd) upstream \<Rightarrow> bool) option"
  b_TargetID :: string

record ('m, 'u, 'd) conditional_node =
  cn_ID :: string
  cn_HasRunner :: bool
  cn_Branches :: "('m, 'u, 'd) branch list"
  cn_Default :: string
  cn_Exhaustive :: bool

fun validate_branches :: "string \<Rightarrow> int \<Rightarrow> ('m, 'u, 'd) branch list \<Rightarrow> go_error option" where
  "validate_branches i k [] = None"
| "validate_branches i k (b # bs) =
     (if b_Condition b = None then
        Some (Errorf ''orchestrate: ConditionalNode %q branch %d has nil Condition'' [AStr i, AInt k] None)
      else if b_TargetID b = '''' then
        Some (Errorf ''orchestrate: ConditionalNode %q branch %d has empty TargetID'' [AStr i, AInt k] None)
      else validate_branches i (k + 1) bs)"

definition ValidateConditionalNode :: "('m, 'u, 'd) conditional_node \<Rightarrow> go_error option" where
  "ValidateConditionalNode cn =
     (if cn_Exhaustive cn \<and> cn_Default cn = '''' then
        Some (Errorf ''orchestrate: ConditionalNode %q has Exhaustive=true but no Default branch'' [AStr (cn_ID cn)] None)
      else validate_branches (cn_ID cn) 0 (cn_Branches cn))"

text \<open>\<open>None\<close>: the call of a nil condition.\<close>

fun eval_branches :: "string \<Rightarrow> ('m, 'u, 'd) upstream \<Rightarrow> ('m, 'u, 'd) branch list \<Rightarrow> string option" where
  "eval_branches dflt up [] = Some dflt"
| "eval_branches dflt up (b # bs) =
     (case b_Condition b of
        None \<Rightarrow> None
      | Some c \<Rightarrow> if c up then Some (b_TargetID b) else eval_branches dflt up bs)"

definition EvaluateBranches :: "('m, 'u, 'd) conditional_node \<Rightarrow> ('m, 'u, 'd) upstream \<Rightarrow> string option" where
  "EvaluateBranches cn up = eval_branches (cn_Default cn) up (cn_Branches cn)"

definition ExecuteConditional :: "('m, 'u, 'd) conditional_node \<Rightarrow> ('m, 'u, 'd) answer \<Rightarrow> ('m, 'u, 'd) upstream
      \<Rightarrow> (go_error + ('m, 'u, 'd) run_response option \<times> string) option" where
  "ExecuteConditional cn answer up =
     (case ValidateConditionalNode cn of
        Some e \<Rightarrow> Some (Inl e)
      | None \<Rightarrow>
          (let ran = (if cn_HasRunner cn
             then (case answer of
                Inl err \<Rightarrow> Inl (Errorf ''orchestrate: ConditionalNode %q runner failed: %w'' [AStr (cn_ID cn)] (Some err))
              | Inr resp \<Rightarrow>
                  (case rejectInterrupted [AStr ''ConditionalNode'', AStr (cn_ID cn)] resp of
                     Some e \<Rightarrow> Inl e | None \<Rightarrow> Inr resp))
             else Inr None) in
           case ran of
             Inl e \<Rightarrow> Some (Inl e)
           | Inr resp \<Rightarrow>
               (case EvaluateBranches cn up of None \<Rightarrow> None | Some t \<Rightarrow> Some (Inr (resp, t)))))"

lemma validate_branches_None:
  "validate_branches i k bs = None \<longleftrightarrow> (\<forall>b\<in>set bs. b_Condition b \<noteq> None \<and> b_TargetID b \<noteq> [])"
  by (induction i k bs rule: validate_branches.induct) auto

lemma eval_branches_first:
  "\<forall>b\<in>set bs. b_Condition b \<noteq> None \<Longrightarrow>
   eval_branches dflt up bs =
     Some (case find_first (\<lambda>b. the (b_Condition b) up) bs of Some b \<Rightarrow> b_TargetID b | None \<Rightarrow> dflt)"
  by (induction bs) auto

text \<open>
  A conditional node that passes validation never panics, and when it succeeds it selects the
  target of the first branch whose condition holds of the upstream results, or the default
  when none does; the target of an exhaustive node is never empty, and a suspended runner never
  selects one.
\<close>

theorem conditional_first_match:
  assumes "ValidateConditionalNode cn = None"
  shows "\<exists>r. ExecuteConditional cn answer up = Some r \<and>
    (\<forall>resp t. r = Inr (resp, t) \<longrightarrow>
       t = (case find_first (\<lambda>b. the (b_Condition b) up) (cn_Branches cn) of
              Some b \<Rightarrow> b_TargetID b | None \<Rightarrow> cn_Default cn) \<and>
       (cn_Exhaustive cn \<longrightarrow> t \<noteq> '''') \<and> \<not> is_interrupted resp)"
proof -
  have b: "\<forall>b\<in>set (cn_Branches cn). b_Condition b \<noteq> None \<and> b_TargetID b \<noteq> []"
    and x: "cn_Exhaustive cn \<longrightarrow> cn_Default cn \<noteq> []"
    using assms by (auto simp: ValidateConditionalNode_def validate_branches_None split: if_splits)
  let ?t = "case find_first (\<lambda>b. the (b_Condition b) up) (cn_Branches cn) of
              Some b \<Rightarrow> b_TargetID b | None \<Rightarrow> cn_Default cn"
  have "\<forall>b\<in>set (cn_Branches cn). b_Condition b \<noteq> None" using b by blast
  from eval_branches_first [OF this] have e: "EvaluateBranches cn up = Some ?t"
    unfolding EvaluateBranches_def .
  have "cn_Exhaustive cn \<longrightarrow> ?t \<noteq> []"
    using b x find_first_Some by (fastforce split: option.splits)
  then show ?thesis
    using assms e by (auto simp: ExecuteConditional_def Let_def is_interrupted_def split: sum.splits option.splits)
qed

theorem conditional_first_match_witness:
  "\<exists>r. ExecuteConditional
     \<lparr>cn_ID = ''c'', cn_HasRunner = False,
      cn_Branches = [\<lparr>b_Condition = Some (\<lambda>_. False), b_TargetID = ''x''\<rparr>,
                     \<lparr>b_Condition = Some (\<lambda>_. True), b_TargetID = ''y''\<rparr>],
      cn_Default = ''d'', cn_Exhaustive = True\<rparr> (Inl Canceled)
      (\<lambda>_. None :: (nat, nat, unit) run_response option option) = Some (Inr (r, ''y''))"
proof -
  let ?cn = "\<lparr>cn_ID = ''c'', cn_HasRunner = False,
      cn_Branches = [\<lparr>b_Condition = Some (\<lambda>_. False), b_TargetID = ''x''\<rparr>,
                     \<lparr>b_Condition = Some (\<lambda>_. True), b_TargetID = ''y''\<rparr>],
      cn_Default = ''d'', cn_Exhaustive = True\<rparr> :: (nat, nat, unit) conditional_node"
  let ?up = "\<lambda>_. None :: (nat, nat, unit) run_response option option"
  have v: "ValidateConditionalNode ?cn = None" by (simp add: ValidateConditionalNode_def)
  obtain r where r: "ExecuteConditional ?cn (Inl Canceled) ?up = Some r"
    "\<forall>resp t. r = Inr (resp, t) \<longrightarrow> t = ''y''"
    using conditional_first_match [OF v, of "Inl Canceled" ?up] by auto
  have "\<exists>x. r = Inr x" using r(1) v by (auto simp: ExecuteConditional_def EvaluateBranches_def Let_def)
  then show ?thesis using r by auto
qed

section \<open>Dynamic spawn\<close>

text \<open>
  A spawned child, as far as the fan-out looks at it: its identifier and what its runner answers.
  The children run in parallel; \<open>arrivals\<close> is the order in which their answers arrive.
\<close>

type_synonym ('m, 'u, 'd) child = "string \<times> ('m, 'u, 'd) answer"

record ('m, 'u, 'd) spawn_node =
  sp_ID :: string
  sp_HasRunner :: bool
  sp_Spawner :: "(('m, 'u, 'd) run_response option \<Rightarrow> go_error + ('m, 'u, 'd) child list) option"
  sp_Aggregator :: "('m, 'u, 'd) agg_fun option"
  sp_MaxSpawnCount :: int
  sp_SpawnDepthLimit :: int

text \<open>The loop over the result channel: the first failure ends it.\<close>

fun collect_children :: "string \<Rightarrow> ('m, 'u, 'd) child list \<Rightarrow> (string \<rightharpoonup> ('m, 'u, 'd) run_response option)
      \<Rightarrow> go_error + (string \<rightharpoonup> ('m, 'u, 'd) run_response option)" where
  "collect_children i [] m = Inr m"
| "collect_children i ((c, answer) # rest) m =
     (case answer of
        Inl err \<Rightarrow> Inl (Errorf ''orchestrate: DynamicSpawnNode %q child %q failed: %w'' [AStr i, AStr c] (Some err))
      | Inr resp \<Rightarrow>
          (case rejectInterrupted [AStr ''DynamicSpawnNode'', AStr i, AStr ''child'', AStr c] resp of
             Some e \<Rightarrow> Inl e
           | None \<Rightarrow> collect_children i rest (m(c \<mapsto> resp))))"

text \<open>The entries of the result map, in the order of the children's identifiers.\<close>

definition map_entries :: "(string \<rightharpoonup> ('m, 'u, 'd) run_response option) \<Rightarrow> string list \<Rightarrow> ('m, 'u, 'd) entries" where
  "map_entries m ks = concat (map (\<lambda>k. case m k of None \<Rightarrow> [] | Some v \<Rightarrow> [(k, v)]) (sort (remdups ks)))"

text \<open>The part before the fan-out: the depth check, the node's own runner and the spawner.\<close>

definition spawn_children :: "('m, 'u, 'd) spawn_node \<Rightarrow> int \<Rightarrow> ('m, 'o, 'd) run_request
      \<Rightarrow> ('m, 'u, 'd) answer
      \<Rightarrow> go_error + ('m, 'u, 'd) run_response option \<times> ('m, 'u, 'd) child list" where
  "spawn_children dsn currentDepth req answer =
     (case sp_Spawner dsn of
        None \<Rightarrow> Inl (Errorf ''orchestrate: DynamicSpawnNode %q has nil Spawner'' [AStr (sp_ID dsn)] None)
      | Some spawner \<Rightarrow>
     (if sp_SpawnDepthLimit dsn > 0 \<and> currentDepth \<ge> sp_SpawnDepthLimit dsn then
        Inl (Errorf ''orchestrate: DynamicSpawnNode %q exceeded SpawnDepthLimit (%d)''
              [AStr (sp_ID dsn), AInt (sp_SpawnDepthLimit dsn)] None)
      else
     (let ran = (if sp_HasRunner dsn
        then (case answer of
                Inl err \<Rightarrow> Inl (Errorf ''orchestrate: DynamicSpawnNode %q runner failed: %w'' [AStr (sp_ID dsn)] (Some err))
              | Inr output \<Rightarrow>
                  (case rejectInterrupted [AStr ''DynamicSpawnNode'', AStr (sp_ID dsn)] output of
                     Some e \<Rightarrow> Inl e | None \<Rightarrow> Inr output))
        else Inr (Some (reply_with (q_messages req) (q_sessionID req)))) in
      case ran of
        Inl e \<Rightarrow> Inl e
      | Inr output \<Rightarrow>
          (case spawner output of
             Inl err \<Rightarrow> Inl (Errorf ''orchestrate: DynamicSpawnNode %q Spawner failed: %w'' [AStr (sp_ID dsn)] (Some err))
           | Inr children \<Rightarrow>
               if sp_MaxSpawnCount dsn > 0 \<and> int (length children) > sp_MaxSpawnCount dsn then
                 Inl (Errorf ''orchestrate: DynamicSpawnNode %q spawned %d nodes, exceeds MaxSpawnCount %d''
                       [AStr (sp_ID dsn), AInt (int (length children)), AInt (sp_MaxSpawnCount dsn)] None)
               else Inr (output, children)))))"

definition ExecuteDynamicSpawn :: "('m, 'u, 'd) spawn_node \<Rightarrow> int \<Rightarrow> ('m, 'o, 'd) run_request
      \<Rightarrow> ('m, 'u, 'd) answer \<Rightarrow> (('m, 'u, 'd) child list \<Rightarrow> ('m, 'u, 'd) child list)
      \<Rightarrow> go_error + ('m, 'u, 'd) run_response option" where
  "ExecuteDynamicSpawn dsn currentDepth req answer arrivals =
     (case spawn_children dsn currentDepth req answer of
        Inl e \<Rightarrow> Inl e
      | Inr (output, children) \<Rightarrow>
          if length children = 0 then Inr output
          else (case collect_children (sp_ID dsn) (arrivals children) (\<lambda>_. None) of
                  Inl e \<Rightarrow> Inl e
                | Inr results \<Rightarrow>
                    (case sp_Aggregator dsn of None \<Rightarrow> concatMessagesAggregate | Some a \<Rightarrow> a)
                      (map_entries results (map fst children))))"

lemma collect_children_Inr:
  "\<forall>(c, a)\<in>set cs. \<exists>r. a = Inr r \<and> \<not> is_interrupted r \<Longrightarrow> distinct (map fst cs) \<Longrightarrow>
   collect_children i cs m = Inr (\<lambda>k. case map_of cs k of Some (Inr r) \<Rightarrow> Some r | _ \<Rightarrow> m k)"
proof (induction i cs m rule: collect_children.induct)
  case (2 i c answer rest m)
  then obtain r where r: "answer = Inr r" "\<not> is_interrupted r" by auto
  have "map_of rest c = None" using "2.prems"(2) by (simp add: map_of_eq_None_iff)
  then show ?case
    using 2 r by (auto simp: fun_eq_iff fun_upd_def split: option.splits sum.splits)
qed simp

text \<open>
  The fan-out is deterministic: when the children have distinct identifiers and all succeed,
  the response does not depend on the order in which their answers arrive.
\<close>

theorem spawn_arrival_order_irrelevant:
  assumes "spawn_children dsn depth req answer = Inr (output, children)"
    and "distinct (map fst children)" and "\<forall>(c, a)\<in>set children. \<exists>r. a = Inr r \<and> \<not> is_interrupted r"
    and "mset (order1 children) = mset children" and "mset (order2 children) = mset children"
  shows "ExecuteDynamicSpawn dsn depth req answer order1 = ExecuteDynamicSpawn dsn depth req answer order2"
proof -
  let ?c1 = "order1 children" and ?c2 = "order2 children"
  have s: "set ?c1 = set children" "set ?c2 = set children" using assms(4,5) by (metis mset_eq_setD)+
  have dd: "distinct (map fst ?c1)" "distinct (map fst ?c2)"
    using assms(2,4,5) by (metis mset_map mset_eq_imp_distinct_iff)+
  have "map_of ?c1 = map_of ?c2" using map_of_mset_eq [OF dd(1)] assms(4,5) by metis
  then have "collect_children i ?c1 (\<lambda>_. None) = collect_children i ?c2 (\<lambda>_. None)" for i
    using collect_children_Inr [OF _ dd(1)] collect_children_Inr [OF _ dd(2)] assms(3) unfolding s by simp
  then show ?thesis using assms(1) by (simp add: ExecuteDynamicSpawn_def)
qed

definition sample_spawn :: "(nat, nat, unit) spawn_node" where
  "sample_spawn =
     \<lparr>sp_ID = ''p'', sp_HasRunner = False,
      sp_Spawner = Some (\<lambda>_. Inr [(''b'', Inr (Some (reply_with [2] ''s''))), (''a'', Inr (Some (reply_with [1] ''s'')))]),
      sp_Aggregator = None, sp_MaxSpawnCount = 2, sp_SpawnDepthLimit = 0\<rparr>"

theorem spawn_arrival_order_irrelevant_witness:
  "let q = \<lparr>q_messages = [0], q_sessionID = ''s'', q_options = None, q_metadata = None\<rparr> :: (nat, unit, unit) run_request
   in ExecuteDynamicSpawn sample_spawn 0 q (Inl Canceled) id = ExecuteDynamicSpawn sample_spawn 0 q (Inl Canceled) rev"
proof -
  let ?q = "\<lparr>q_messages = [0], q_sessionID = ''s'', q_options = None, q_metadata = None\<rparr> :: (nat, unit, unit) run_request"
  have c: "spawn_children sample_spawn 0 ?q (Inl Canceled) =
      Inr (Some (reply_with [0] ''s''), [(''b'', Inr (Some (reply_with [2] ''s''))), (''a'', Inr (Some (reply_with [1] ''s'')))])"
    by (simp add: spawn_children_def sample_spawn_def)
  have "ExecuteDynamicSpawn sample_spawn 0 ?q (Inl Canceled) id = ExecuteDynamicSpawn sample_spawn 0 ?q (Inl Canceled) rev"
    by (rule spawn_arrival_order_irrelevant [OF c])
      (simp_all add: is_interrupted_def reply_with_def empty_response_def)
  then show ?thesis by (simp only: Let_def)
qed

section \<open>The timeline\<close>

record node_timeline =
  nt_NodeID :: string
  nt_StartTime :: int
  nt_EndTime :: int
  nt_Duration :: int
  nt_Status :: node_status

record timeline_tracker =
  tt_starts :: "string \<rightharpoonup> int"
  tt_entries :: "node_timeline list"

definition newTimelineTracker :: timeline_tracker where
  "newTimelineTracker = \<lparr>tt_starts = (\<lambda>_. None), tt_entries = []\<rparr>"

text \<open>The two calls, made when the clock shows \<open>now\<close>.\<close>

definition recordStart :: "int \<Rightarrow> string \<Rightarrow> timeline_tracker \<Rightarrow> timeline_tracker" where
  "recordStart now i t = t\<lparr>tt_starts := (tt_starts t)(i \<mapsto> now)\<rparr>"

definition recordEnd :: "int \<Rightarrow> string \<Rightarrow> node_status \<Rightarrow> timeline_tracker \<Rightarrow> timeline_tracker" where
  "recordEnd now i st t =
     (let start = (case tt_starts t i of Some s \<Rightarrow> s | None \<Rightarrow> now) in
      t\<lparr>tt_entries := tt_entries t @
        [\<lparr>nt_NodeID = i, nt_StartTime = start, nt_EndTime = now, nt_Duration = now - start, nt_Status = st\<rparr>]\<rparr>)"

fun timeline_apply :: "int \<times> timeline_call \<Rightarrow> timeline_tracker \<Rightarrow> timeline_tracker" where
  "timeline_apply (now, RecordStart i) t = recordStart now i t"
| "timeline_apply (now, RecordEnd i st) t = recordEnd now i st t"

text \<open>
  \<open>sort.Slice\<close> does not say how it orders entries that start at the same time: any sorted
  rearrangement of the entries may be returned.
\<close>

definition timeline_result :: "timeline_tracker \<Rightarrow> node_timeline list \<Rightarrow> bool" where
  "timeline_result t r \<longleftrightarrow> mset r = mset (tt_entries t) \<and> sorted (map nt_StartTime r)"

definition entry_ok :: "node_timeline \<Rightarrow> bool" where
  "entry_ok e \<longleftrightarrow> nt_StartTime e \<le> nt_EndTime e \<and> nt_Duration e = nt_EndTime e - nt_StartTime e"

lemma timeline_fold:
  "sorted (map fst calls) \<Longrightarrow> \<forall>i s. tt_starts t i = Some s \<longrightarrow> (\<forall>c\<in>set calls. s \<le> fst c) \<Longrightarrow>
   \<forall>e\<in>set (tt_entries t). entry_ok e \<Longrightarrow>
   (\<forall>e\<in>set (tt_entries (fold timeline_apply calls t)). entry_ok e) \<and>
   map (\<lambda>e. (nt_NodeID e, nt_Status e)) (tt_entries (fold timeline_apply calls t)) =
     map (\<lambda>e. (nt_NodeID e, nt_Status e)) (tt_entries t) @
     concat (map (\<lambda>c. case snd c of RecordStart i \<Rightarrow> [] | RecordEnd i st \<Rightarrow> [(i, st)]) calls)"
proof (induction calls arbitrary: t)
  case (Cons c calls)
  obtain now call where c: "c = (now, call)" by (rule prod.exhaust)
  have mono: "\<forall>d\<in>set calls. now \<le> fst d" using Cons.prems(1) by (auto simp: c)
  show ?case
  proof (cases call)
    case (RecordStart i)
    have "\<forall>j s. tt_starts (recordStart now i t) j = Some s \<longrightarrow> (\<forall>d\<in>set calls. s \<le> fst d)"
      using Cons.prems(2) mono by (auto simp: recordStart_def)
    moreover have "tt_entries (recordStart now i t) = tt_entries t" by (simp add: recordStart_def)
    ultimately show ?thesis
      using Cons.IH [of "recordStart now i t"] Cons.prems by (simp add: c RecordStart)
  next
    case (RecordEnd i st)
    let ?t = "recordEnd now i st t"
    have "tt_starts ?t = tt_starts t" by (simp add: recordEnd_def Let_def)
    then have "\<forall>j s. tt_starts ?t j = Some s \<longrightarrow> (\<forall>d\<in>set calls. s \<le> fst d)" using Cons.prems(2) by simp
    moreover have "\<forall>e\<in>set (tt_entries ?t). entry_ok e"
      using Cons.prems(2,3) by (auto simp: recordEnd_def Let_def entry_ok_def c split: option.splits)
    moreover have "map (\<lambda>e. (nt_NodeID e, nt_Status e)) (tt_entries ?t) =
        map (\<lambda>e. (nt_NodeID e, nt_Status e)) (tt_entries t) @ [(i, st)]"
      by (simp add: recordEnd_def Let_def)
    ultimately show ?thesis using Cons.IH [of ?t] Cons.prems(1) by (simp add: c RecordEnd)
  qed
qed simp

text \<open>
  On a clock that does not go back, the timeline lists exactly one entry for every end that
  was recorded, with its status, in the order of the start times, and every entry has a
  non-negative duration that is the difference of its times.
\<close>

theorem timeline_wellformed:
  assumes "sorted (map fst calls)"
    and "timeline_result (fold timeline_apply calls newTimelineTracker) r"
  shows "sorted (map nt_StartTime r) \<and>
    (\<forall>e\<in>set r. nt_StartTime e \<le> nt_EndTime e \<and> nt_Duration e = nt_EndTime e - nt_StartTime e) \<and>
    mset (map (\<lambda>e. (nt_NodeID e, nt_Status e)) r) =
      mset (concat (map (\<lambda>c. case snd c of RecordStart i \<Rightarrow> [] | RecordEnd i st \<Rightarrow> [(i, st)]) calls))"
proof -
  let ?t = "fold timeline_apply calls newTimelineTracker"
  have e0: "\<forall>i s. tt_starts newTimelineTracker i = Some s \<longrightarrow> (\<forall>c\<in>set calls. s \<le> fst c)"
    "\<forall>e\<in>set (tt_entries newTimelineTracker). entry_ok e" "tt_entries newTimelineTracker = []"
    by (simp_all add: newTimelineTracker_def)
  note f = timeline_fold [OF assms(1) e0(1,2), unfolded e0(3)]
  have m: "mset r = mset (tt_entries ?t)" using assms(2) by (simp add: timeline_result_def)
  have "\<forall>e\<in>set r. entry_ok e" using f mset_eq_setD [OF m] by simp
  moreover have "mset (map (\<lambda>e. (nt_NodeID e, nt_Status e)) r) =
      mset (map (\<lambda>e. (nt_NodeID e, nt_Status e)) (tt_entries ?t))" using m by simp
  ultimately show ?thesis
    using f assms(2) by (simp only: timeline_result_def entry_ok_def) simp
qed

theorem timeline_wellformed_witness:
  "timeline_result (fold timeline_apply [(1, RecordStart ''a''), (3, RecordEnd ''a'' NodeDone)] newTimelineTracker)
     [\<lparr>nt_NodeID = ''a'', nt_StartTime = 1, nt_EndTime = 3, nt_Duration = 2, nt_Status = NodeDone\<rparr>] \<and>
   (1::int) \<le> 3"
proof -
  let ?r = "[\<lparr>nt_NodeID = ''a'', nt_StartTime = 1, nt_EndTime = 3, nt_Duration = 2, nt_Status = NodeDone\<rparr>]"
  let ?calls = "[(1::int, RecordStart ''a''), (3, RecordEnd ''a'' NodeDone)]"
  have r: "timeline_result (fold timeline_apply ?calls newTimelineTracker) ?r"
    by (simp add: timeline_result_def recordStart_def recordEnd_def newTimelineTracker_def)
  have "sorted (map fst ?calls)" by simp
  from timeline_wellformed [OF this r] r show ?thesis by simp
qed

end
