(* ===== verification/Resources.thy ===== *)
theory Resources
  imports Complex_Main "HOL-Library.Multiset" Prelude
begin

text \<open>
  Limits on shared resources (\<open>orchestrate/resource.go\<close>): the token bucket that limits the rate
  of a resource, and the semaphores, one per tag, that limit how many nodes use it at a time.
  Token counts and seconds, which the code keeps as \<open>float64\<close>, are rationals here: rounding is
  not modelled. The clock is an argument.
\<close>

section \<open>Token buckets\<close>

record token_bucket =
  tb_rate :: rat
  tb_capacity :: rat
  tb_tokens :: rat
  tb_lastTime :: rat

definition newTokenBucket :: "rat \<Rightarrow> rat \<Rightarrow> token_bucket" where
  "newTokenBucket now ratePerSecond =
     \<lparr>tb_rate = ratePerSecond, tb_capacity = ratePerSecond, tb_tokens = ratePerSecond, tb_lastTime = now\<rparr>"

definition refill :: "rat \<Rightarrow> token_bucket \<Rightarrow> token_bucket" where
  "refill now tb =
     (let elapsed = now - tb_lastTime tb;
          tokens = tb_tokens tb + elapsed * tb_rate tb;
          tokens' = (if tokens > tb_capacity tb then tb_capacity tb else tokens) in
      tb\<lparr>tb_tokens := tokens', tb_lastTime := now\<rparr>)"

text \<open>One round of the loop of \<open>wait\<close>: whether it takes a token at this time.\<close>

definition try_take :: "rat \<Rightarrow> token_bucket \<Rightarrow> bool \<times> token_bucket" where
  "try_take now tb =
     (let tb1 = refill now tb in
      if tb_tokens tb1 \<ge> 1 then (True, tb1\<lparr>tb_tokens := tb_tokens tb1 - 1\<rparr>) else (False, tb1))"

fun take_all :: "rat list \<Rightarrow> token_bucket \<Rightarrow> nat \<times> token_bucket" where
  "take_all [] tb = (0, tb)"
| "take_all (now # ts) tb =
     (case try_take now tb of
        (got, tb1) \<Rightarrow> (case take_all ts tb1 of (n, tb2) \<Rightarrow> ((if got then Suc n else n), tb2)))"

lemma try_take_frame:
  "try_take now tb = (got, tb') \<Longrightarrow>
   tb_rate tb' = tb_rate tb \<and> tb_capacity tb' = tb_capacity tb \<and> tb_lastTime tb' = now \<and>
   (if got then 1 else 0) + tb_tokens tb' \<le> tb_tokens tb + (now - tb_lastTime tb) * tb_rate tb \<and>
   (if got then 1 else 0) + tb_tokens tb' \<le> tb_capacity tb"
  by (auto simp: try_take_def refill_def Let_def split: if_splits)

lemma take_all_budget:
  "take_all ts tb = (n, tb') \<Longrightarrow>
   tb_rate tb' = tb_rate tb \<and> tb_capacity tb' = tb_capacity tb \<and>
   tb_lastTime tb' = (if ts = [] then tb_lastTime tb else last ts) \<and>
   of_nat n + tb_tokens tb' \<le> tb_tokens tb + (tb_lastTime tb' - tb_lastTime tb) * tb_rate tb"
proof (induction ts arbitrary: tb n tb')
  case (Cons now ts)
  obtain got tb1 where t: "try_take now tb = (got, tb1)" by (rule prod.exhaust)
  obtain m tb2 where r: "take_all ts tb1 = (m, tb2)" by (rule prod.exhaust)
  have eq: "tb' = tb2" "n = (if got then Suc m else m)" using Cons.prems t r by auto
  note f = try_take_frame [OF t]
  note ih = Cons.IH [OF r]
  have "of_nat n + tb_tokens tb2 \<le> tb_tokens tb + (now - tb_lastTime tb) * tb_rate tb +
      (tb_lastTime tb2 - now) * tb_rate tb"
    using f ih by (auto simp: eq(2))
  then have "of_nat n + tb_tokens tb2 \<le> tb_tokens tb + (tb_lastTime tb2 - tb_lastTime tb) * tb_rate tb"
    by (simp add: algebra_simps)
  then show ?case using f ih eq(1) by simp
qed simp

lemma take_all_nonneg: "take_all ts tb = (n, tb') \<Longrightarrow> sorted (tb_lastTime tb # ts) \<Longrightarrow>
  0 \<le> tb_tokens tb \<Longrightarrow> 0 \<le> tb_rate tb \<Longrightarrow> 0 \<le> tb_capacity tb \<Longrightarrow> 0 \<le> tb_tokens tb'"
proof (induction ts arbitrary: tb n tb')
  case (Cons now ts)
  obtain got tb1 where t: "try_take now tb = (got, tb1)" by (rule prod.exhaust)
  obtain m tb2 where r: "take_all ts tb1 = (m, tb2)" by (rule prod.exhaust)
  have "0 \<le> tb_tokens tb + (now - tb_lastTime tb) * tb_rate tb" using Cons.prems by simp
  then have "0 \<le> tb_tokens tb1" using t Cons.prems(5)
    by (auto simp: try_take_def refill_def Let_def split: if_splits)
  then have "0 \<le> tb_tokens tb2"
    using Cons.IH [OF r] Cons.prems try_take_frame [OF t] by auto
  then show ?case using Cons.prems(1) t r by auto
qed simp

text \<open>
  The rate limit: on a clock that does not go back, the tokens a fresh bucket grants until a
  time \<open>t\<close> are at most the burst (one second's worth) plus the rate times the time passed.
\<close>

theorem token_bucket_rate:
  assumes "0 \<le> r" and "sorted (t0 # ts)" and "take_all ts (newTokenBucket t0 r) = (n, tb)"
  shows "of_nat n \<le> r + r * (last (t0 # ts) - t0)"
proof -
  let ?b = "newTokenBucket t0 r"
  have b: "tb_lastTime ?b = t0" "tb_tokens ?b = r" "tb_rate ?b = r" "tb_capacity ?b = r"
    by (simp_all add: newTokenBucket_def)
  have "0 \<le> tb_tokens tb" using take_all_nonneg [OF assms(3)] assms(1,2) b by simp
  moreover have last: "tb_lastTime tb = last (t0 # ts)"
    using take_all_budget [OF assms(3)] b(1) by simp
  moreover have "of_nat n + tb_tokens tb \<le> r + (tb_lastTime tb - t0) * r"
    using take_all_budget [OF assms(3)] unfolding b by blast
  ultimately have "of_nat n \<le> r + r * (tb_lastTime tb - t0)" by (simp add: mult.commute)
  then show ?thesis unfolding last .
qed

theorem token_bucket_rate_witness:
  "fst (take_all [0, 0, 0, 1] (newTokenBucket 0 2)) = 3 \<and> (of_nat 3 :: rat) \<le> 2 + 2 * (1 - 0)"
proof -
  have run: "take_all [0, 0, 0, 1] (newTokenBucket 0 2) =
      (3, \<lparr>tb_rate = 2, tb_capacity = 2, tb_tokens = 1, tb_lastTime = 1\<rparr>)"
    by (simp add: try_take_def refill_def newTokenBucket_def)
  from token_bucket_rate [OF _ _ this] run show ?thesis by simp
qed

text \<open>
  A limit below one request per second stops the resource altogether: the bucket can never
  hold a whole token, so that no attempt at any time succeeds and \<open>wait\<close> only ends with its
  context.
\<close>

theorem slow_rate_never_grants:
  assumes "r < 1"
  shows "fst (take_all ts (newTokenBucket t0 r)) = 0"
proof -
  have "tb_capacity tb < 1 \<Longrightarrow> fst (take_all ts tb) = 0" for tb
  proof (induction ts arbitrary: tb)
    case (Cons now ts)
    obtain got tb1 where t: "try_take now tb = (got, tb1)" by (rule prod.exhaust)
    have "\<not> got" using t Cons.prems by (auto simp: try_take_def refill_def Let_def split: if_splits)
    moreover have "fst (take_all ts tb1) = 0" using Cons try_take_frame [OF t] by simp
    ultimately show ?case using t by (auto split: prod.splits)
  qed simp
  then show ?thesis using assms by (simp add: newTokenBucket_def)
qed

theorem slow_rate_never_grants_witness:
  "fst (take_all [0, 10, 100] (newTokenBucket 0 (1 / 2))) = 0"
  by (rule slow_rate_never_grants) simp

text \<open>
  A round that does not get a token changes nothing for the rounds after it: the wait of the loop may poll the
  bucket as often as it likes.
\<close>

lemma failed_round_invisible:
  assumes "0 \<le> tb_rate tb" and "tb_lastTime tb \<le> now" and "now \<le> later" and "try_take now tb = (False, tb')"
  shows "try_take later tb' = try_take later tb"
proof -
  let ?r = "tb_rate tb" and ?c = "tb_capacity tb" and ?x = "tb_tokens tb"
  have tb': "tb' = refill now tb" using assms(4) by (simp add: try_take_def Let_def split: if_splits)
  have split: "(later - tb_lastTime tb) * ?r = (now - tb_lastTime tb) * ?r + (later - now) * ?r" by (simp add: algebra_simps)
  have pos: "0 \<le> (later - now) * ?r" using assms(1,3) by simp
  have "refill later tb' = refill later tb" unfolding tb' refill_def Let_def split using pos by (auto simp: algebra_simps)
  then show ?thesis by (simp add: try_take_def)
qed

text \<open>A bucket of at least one token per second has a token once enough time has passed.\<close>

lemma token_comes:
  assumes "1 \<le> tb_rate tb" and "1 \<le> tb_capacity tb"
  shows "\<exists>now tb'. tb_lastTime tb \<le> now \<and> try_take now tb = (True, tb')"
proof (cases "1 \<le> tb_tokens tb")
  case True
  then show ?thesis using assms(2) by (intro exI [of _ "tb_lastTime tb"]) (simp add: try_take_def refill_def Let_def)
next
  case False
  let ?now = "tb_lastTime tb + (1 - tb_tokens tb) / tb_rate tb"
  have "tb_tokens tb + (?now - tb_lastTime tb) * tb_rate tb = 1" using assms(1) by simp
  moreover have "tb_lastTime tb \<le> ?now" using False assms(1) by simp
  ultimately show ?thesis using assms(2) by (intro exI [of _ ?now]) (simp add: try_take_def refill_def Let_def)
qed

section \<open>Acquiring the tags of a node\<close>

text \<open>
  A node on its way through \<open>acquire\<close>: its tags, the sorted tags whose semaphore it has still to look at, those
  whose rate limiter it has still to look at, and the tags whose semaphore it holds. A tag without a semaphore
  or without a limiter is passed over. The pool is what the nodes share: how many hold each semaphore, and the
  buckets.
\<close>

record holder =
  h_tags :: "string list"
  h_wait :: "string list"
  h_rate :: "string list"
  h_have :: "string list"

record pool =
  pl_sem :: "string \<Rightarrow> nat"
  pl_buckets :: "string \<rightharpoonup> token_bucket"

definition newResourceManager :: "rat \<Rightarrow> (string \<rightharpoonup> rat) \<Rightarrow> pool" where
  "newResourceManager now rateLimits =
     \<lparr>pl_sem = (\<lambda>_. 0), pl_buckets = (\<lambda>t. map_option (newTokenBucket now) (rateLimits t))\<rparr>"

definition acquire_start :: "string list \<Rightarrow> holder" where
  "acquire_start tags = \<lparr>h_tags = tags, h_wait = sort tags, h_rate = sort tags, h_have = []\<rparr>"

text \<open>\<open>releaseConcurrency\<close>: receives from the channel of each tag, unless it is empty.\<close>

fun releaseConcurrency :: "(string \<rightharpoonup> nat) \<Rightarrow> string list \<Rightarrow> (string \<Rightarrow> nat) \<Rightarrow> (string \<Rightarrow> nat)" where
  "releaseConcurrency limit [] sem = sem"
| "releaseConcurrency limit (t # ts) sem =
     (if limit t = None then releaseConcurrency limit ts sem
      else releaseConcurrency limit ts (sem(t := sem t - 1)))"

definition pool_release :: "(string \<rightharpoonup> nat) \<Rightarrow> string list \<Rightarrow> pool \<Rightarrow> pool" where
  "pool_release limit tags p = p\<lparr>pl_sem := releaseConcurrency limit tags (pl_sem p)\<rparr>"

text \<open>
  The steps of one node in \<open>acquire\<close>. It takes the token of a tag at a time \<open>now\<close> at which the bucket has one.
\<close>

inductive hold_step :: "(string \<rightharpoonup> nat) \<Rightarrow> holder \<Rightarrow> pool \<Rightarrow> holder \<Rightarrow> pool \<Rightarrow> bool" for limit where
  pass_over: "h_wait h = t # ts \<Longrightarrow> limit t = None \<Longrightarrow> hold_step limit h p (h\<lparr>h_wait := ts\<rparr>) p"
| take_slot: "h_wait h = t # ts \<Longrightarrow> limit t = Some n \<Longrightarrow> pl_sem p t < n \<Longrightarrow>
    hold_step limit h p (h\<lparr>h_wait := ts, h_have := h_have h @ [t]\<rparr>) (p\<lparr>pl_sem := (pl_sem p)(t := pl_sem p t + 1)\<rparr>)"
| no_limiter: "h_wait h = [] \<Longrightarrow> h_rate h = t # ts \<Longrightarrow> pl_buckets p t = None \<Longrightarrow>
    hold_step limit h p (h\<lparr>h_rate := ts\<rparr>) p"
| take_token: "h_wait h = [] \<Longrightarrow> h_rate h = t # ts \<Longrightarrow> pl_buckets p t = Some tb \<Longrightarrow>
    tb_lastTime tb \<le> now \<Longrightarrow> try_take now tb = (True, tb') \<Longrightarrow>
    hold_step limit h p (h\<lparr>h_rate := ts\<rparr>) (p\<lparr>pl_buckets := (pl_buckets p)(t \<mapsto> tb')\<rparr>)"

definition acquired_all :: "holder \<Rightarrow> bool" where
  "acquired_all h \<longleftrightarrow> h_wait h = [] \<and> h_rate h = []"

text \<open>Where a node may find its context ended: at a semaphore, or when the bucket had no token.\<close>

definition blockable :: "(string \<rightharpoonup> nat) \<Rightarrow> holder \<Rightarrow> pool \<Rightarrow> bool" where
  "blockable limit h p \<longleftrightarrow>
     (case h_wait h of
        t # ts \<Rightarrow> limit t \<noteq> None
      | [] \<Rightarrow> (case h_rate h of
                 [] \<Rightarrow> False
               | t # ts \<Rightarrow> (\<exists>tb now tb'. pl_buckets p t = Some tb \<and> tb_lastTime tb \<le> now \<and> try_take now tb = (False, tb'))))"

record resources =
  rs_limit :: "string \<rightharpoonup> nat"
  rs_pool :: pool
  rs_holders :: "holder list"

definition new_resources :: "rat \<Rightarrow> (string \<rightharpoonup> nat) \<Rightarrow> (string \<rightharpoonup> rat) \<Rightarrow> resources" where
  "new_resources now limits rateLimits =
     \<lparr>rs_limit = limits, rs_pool = newResourceManager now rateLimits, rs_holders = []\<rparr>"

text \<open>The steps with which the nodes get on: one takes what it waits for, or releases everything at its end.\<close>

inductive advance :: "resources \<Rightarrow> resources \<Rightarrow> bool" where
  hold: "rs_holders s = xs @ h # ys \<Longrightarrow> hold_step (rs_limit s) h (rs_pool s) h' p' \<Longrightarrow>
    advance s (s\<lparr>rs_pool := p', rs_holders := xs @ h' # ys\<rparr>)"
| release_all: "rs_holders s = xs @ h # ys \<Longrightarrow> acquired_all h \<Longrightarrow>
    advance s (s\<lparr>rs_pool := pool_release (rs_limit s) (h_tags h) (rs_pool s), rs_holders := xs @ ys\<rparr>)"

text \<open>
  Besides, a node may enter \<open>acquire\<close>, find a bucket without a token and wait, and one whose context ends while
  it waits for a semaphore or for a token gives back what it holds.
\<close>

inductive res_step :: "resources \<Rightarrow> resources \<Rightarrow> bool" where
  begin_acquire: "res_step s (s\<lparr>rs_holders := acquire_start tags # rs_holders s\<rparr>)"
| advance: "advance s s' \<Longrightarrow> res_step s s'"
| poll: "h \<in> set (rs_holders s) \<Longrightarrow> h_wait h = [] \<Longrightarrow> h_rate h = t # ts \<Longrightarrow> pl_buckets (rs_pool s) t = Some tb \<Longrightarrow>
    tb_lastTime tb \<le> now \<Longrightarrow> try_take now tb = (False, tb') \<Longrightarrow>
    res_step s (s\<lparr>rs_pool := (rs_pool s)\<lparr>pl_buckets := (pl_buckets (rs_pool s))(t \<mapsto> tb')\<rparr>\<rparr>)"
| give_up: "rs_holders s = xs @ h # ys \<Longrightarrow> blockable (rs_limit s) h (rs_pool s) \<Longrightarrow>
    res_step s (s\<lparr>rs_pool := pool_release (rs_limit s) (h_have h) (rs_pool s), rs_holders := xs @ ys\<rparr>)"

inductive res_reachable :: "(string \<rightharpoonup> nat) \<Rightarrow> (string \<rightharpoonup> rat) \<Rightarrow> resources \<Rightarrow> bool" for limits rateLimits where
  init: "res_reachable limits rateLimits (new_resources now limits rateLimits)"
| step: "res_reachable limits rateLimits s \<Longrightarrow> res_step s s' \<Longrightarrow> res_reachable limits rateLimits s'"

text \<open>
  The invariant: each semaphore counts the holders of its tag, a holder takes its tags in ascending order, and
  the buckets keep their rates.
\<close>

definition holder_ok :: "(string \<rightharpoonup> nat) \<Rightarrow> holder \<Rightarrow> bool" where
  "holder_ok limit h \<longleftrightarrow> sorted (h_have h @ h_wait h) \<and>
     (\<forall>t. limit t \<noteq> None \<longrightarrow> count_list (h_have h @ h_wait h) t = count_list (h_tags h) t) \<and>
     (\<forall>t\<in>set (h_have h). limit t \<noteq> None)"

definition held :: "holder list \<Rightarrow> string \<Rightarrow> nat" where
  "held hs t = sum_list (map (\<lambda>h. count_list (h_have h) t) hs)"

definition buckets_ok :: "(string \<rightharpoonup> rat) \<Rightarrow> pool \<Rightarrow> bool" where
  "buckets_ok rates p \<longleftrightarrow>
     (\<forall>t. map_option tb_rate (pl_buckets p t) = rates t \<and> map_option tb_capacity (pl_buckets p t) = rates t)"

definition res_ok :: "(string \<rightharpoonup> nat) \<Rightarrow> (string \<rightharpoonup> rat) \<Rightarrow> pool \<Rightarrow> holder list \<Rightarrow> bool" where
  "res_ok limit rates p hs \<longleftrightarrow> (\<forall>h\<in>set hs. holder_ok limit h) \<and> (\<forall>t. pl_sem p t = held hs t) \<and>
     (\<forall>t n. limit t = Some n \<longrightarrow> pl_sem p t \<le> n) \<and> buckets_ok rates p"

lemma releaseConcurrency_eq:
  "releaseConcurrency limit ts sem u = (if limit u = None then sem u else sem u - count_list ts u)"
  by (induction ts arbitrary: sem) (auto simp: fun_upd_def)

lemma held_split: "held (xs @ h # ys) t = held (xs @ ys) t + count_list (h_have h) t"
  by (simp add: held_def)

lemma held_cong: "mset hs = mset hs' \<Longrightarrow> held hs t = held hs' t"
  unfolding held_def by (metis mset_map sum_mset_sum_list)

lemma res_ok_cong: "mset hs = mset hs' \<Longrightarrow> res_ok limit rates p hs = res_ok limit rates p hs'"
  using held_cong [of hs hs'] mset_eq_setD [of hs hs'] by (simp add: res_ok_def)

lemma holder_ok_start: "holder_ok limit (acquire_start tags)"
proof -
  have "count_list (sort tags) t = count_list tags t" for t
    by (metis count_mset mset_sort)
  then show ?thesis by (simp add: holder_ok_def acquire_start_def)
qed

lemma res_ok_start: "res_ok limit rates p (xs @ ys) \<Longrightarrow> res_ok limit rates p (xs @ acquire_start tags # ys)"
  using holder_ok_start [of limit tags] by (auto simp: res_ok_def held_split) (simp add: acquire_start_def)

lemma res_ok_new: "res_ok limits rates (newResourceManager now rates) []"
  by (simp add: res_ok_def newResourceManager_def held_def buckets_ok_def newTokenBucket_def option.map_comp comp_def option.map_ident)

lemma buckets_ok_sem [simp]: "buckets_ok rates (p\<lparr>pl_sem := x\<rparr>) = buckets_ok rates p"
  by (simp add: buckets_ok_def)

lemma buckets_ok_upd:
  assumes "buckets_ok rates p" and "pl_buckets p t = Some tb" and "tb_rate tb' = tb_rate tb" and "tb_capacity tb' = tb_capacity tb"
  shows "buckets_ok rates (p\<lparr>pl_buckets := (pl_buckets p)(t \<mapsto> tb')\<rparr>)"
  unfolding buckets_ok_def
proof
  fix u
  have "map_option tb_rate (pl_buckets p u) = rates u \<and> map_option tb_capacity (pl_buckets p u) = rates u"
    using assms(1) unfolding buckets_ok_def by blast
  then show "map_option tb_rate (pl_buckets (p\<lparr>pl_buckets := (pl_buckets p)(t \<mapsto> tb')\<rparr>) u) = rates u \<and>
      map_option tb_capacity (pl_buckets (p\<lparr>pl_buckets := (pl_buckets p)(t \<mapsto> tb')\<rparr>) u) = rates u"
    using assms(2-4) by (cases "u = t") simp_all
qed

text \<open>A holder that leaves, with what it releases of a limited tag being what it holds of it.\<close>

lemma leave_ok:
  assumes inv: "res_ok limit rates p (xs @ h # ys)"
    and rel: "\<And>t. limit t \<noteq> None \<Longrightarrow> count_list tags t = count_list (h_have h) t"
  shows "res_ok limit rates (pool_release limit tags p) (xs @ ys)"
proof -
  have h: "holder_ok limit h" using inv by (simp add: res_ok_def)
  have "releaseConcurrency limit tags (pl_sem p) u = held (xs @ ys) u" for u
  proof -
    have "pl_sem p u = held (xs @ ys) u + count_list (h_have h) u"
      using inv by (simp add: res_ok_def held_split)
    moreover have "limit u = None \<Longrightarrow> count_list (h_have h) u = 0"
      using h by (auto simp: holder_ok_def count_list_0_iff)
    ultimately show ?thesis using rel [of u] by (cases "limit u") (auto simp: releaseConcurrency_eq)
  qed
  moreover have "held (xs @ ys) u \<le> n" if "limit u = Some n" for u n
  proof -
    have "held (xs @ h # ys) u \<le> n" using inv that by (metis res_ok_def)
    then show ?thesis by (simp add: held_split)
  qed
  ultimately show ?thesis using inv by (auto simp: res_ok_def pool_release_def)
qed

lemma done_releases_held:
  assumes "holder_ok limit h" and "acquired_all h" and "limit t \<noteq> None"
  shows "count_list (h_tags h) t = count_list (h_have h) t"
  using assms by (auto simp: holder_ok_def acquired_all_def)

lemma try_take_rates: "try_take now tb = (got, tb') \<Longrightarrow> tb_rate tb' = tb_rate tb \<and> tb_capacity tb' = tb_capacity tb"
  using try_take_frame by blast

lemma hold_step_ok:
  assumes "hold_step limit h p h' p'" and inv: "res_ok limit rates p (xs @ h # ys)"
  shows "res_ok limit rates p' (xs @ h' # ys) \<and> h_tags h' = h_tags h \<and>
    length (h_wait h') + length (h_rate h') < length (h_wait h) + length (h_rate h)"
  using assms(1)
proof cases
  case (pass_over t ts)
  have h: "holder_ok limit h" using inv by (simp add: res_ok_def)
  have "count_list (h_have h @ ts) u = count_list (h_tags h) u" if "limit u \<noteq> None" for u
  proof -
    have "t \<noteq> u" using that pass_over(4) by auto
    moreover have "count_list (h_have h @ t # ts) u = count_list (h_tags h) u"
      using h that pass_over(3) by (simp add: holder_ok_def)
    ultimately show ?thesis by simp
  qed
  then have "holder_ok limit (h\<lparr>h_wait := ts\<rparr>)" using h pass_over(3) by (simp add: holder_ok_def sorted_append)
  then show ?thesis using inv pass_over by (auto simp: res_ok_def held_def)
next
  case (take_slot t ts n)
  have h: "holder_ok limit h" using inv by (simp add: res_ok_def)
  have "holder_ok limit (h\<lparr>h_wait := ts, h_have := h_have h @ [t]\<rparr>)"
    using h take_slot(3,4) by (auto simp: holder_ok_def)
  moreover have "held (xs @ h\<lparr>h_wait := ts, h_have := h_have h @ [t]\<rparr> # ys) u =
      held (xs @ h # ys) u + (if u = t then 1 else 0)" for u by (simp add: held_split)
  ultimately show ?thesis using inv take_slot by (auto simp: res_ok_def)
next
  case (no_limiter t ts)
  then show ?thesis using inv by (auto simp: res_ok_def held_def holder_ok_def)
next
  case (take_token t ts tb now tb')
  have "buckets_ok rates p'" unfolding take_token(2)
    by (rule buckets_ok_upd [OF _ take_token(5)]) (use inv try_take_rates [OF take_token(7)] in \<open>auto simp: res_ok_def\<close>)
  then show ?thesis using inv take_token by (auto simp: res_ok_def held_def holder_ok_def)
qed

lemma poll_ok:
  assumes "res_ok limit rates p hs" and "pl_buckets p t = Some tb" and "try_take now tb = (got, tb')"
  shows "res_ok limit rates (p\<lparr>pl_buckets := (pl_buckets p)(t \<mapsto> tb')\<rparr>) hs"
  using assms try_take_rates [OF assms(3)] buckets_ok_upd [OF _ assms(2)] by (auto simp: res_ok_def)

lemma res_step_limit: "res_step s s' \<Longrightarrow> rs_limit s' = rs_limit s"
  by (induction rule: res_step.induct) (auto elim: advance.cases)

lemma advance_ok:
  assumes "advance s s'" and "res_ok (rs_limit s) rates (rs_pool s) (rs_holders s)"
  shows "res_ok (rs_limit s) rates (rs_pool s') (rs_holders s')"
  using assms(1)
proof cases
  case (hold xs h ys h' p')
  then show ?thesis using hold_step_ok [OF hold(3)] assms(2) by simp
next
  case (release_all xs h ys)
  have "holder_ok (rs_limit s) h" using assms(2) release_all(2) by (simp add: res_ok_def)
  note rel = done_releases_held [OF this release_all(3)]
  have "res_ok (rs_limit s) rates (rs_pool s) (xs @ h # ys)" using assms(2) release_all(2) by simp
  from leave_ok [OF this rel] show ?thesis using release_all(1) by simp
qed

lemma res_step_ok:
  "res_step s s' \<Longrightarrow> res_ok (rs_limit s) rates (rs_pool s) (rs_holders s) \<Longrightarrow>
   res_ok (rs_limit s) rates (rs_pool s') (rs_holders s')"
proof (induction rule: res_step.induct)
  case (begin_acquire s tags)
  then show ?case using res_ok_start [of "rs_limit s" rates "rs_pool s" "[]"] by simp
next
  case (advance s s')
  then show ?case by (rule advance_ok)
next
  case (poll h s t ts tb now tb')
  then show ?case using poll_ok by simp
next
  case (give_up s xs h ys)
  then show ?case using leave_ok [of "rs_limit s" rates "rs_pool s" xs h ys "h_have h"] by simp
qed

lemma res_reachable_ok:
  "res_reachable limits rates s \<Longrightarrow> res_ok limits rates (rs_pool s) (rs_holders s) \<and> rs_limit s = limits"
proof (induction rule: res_reachable.induct)
  case (init now)
  then show ?case using res_ok_new by (simp add: new_resources_def)
next
  case (step s s')
  then show ?case using res_step_ok [of s s' rates] res_step_limit [of s s'] by simp
qed

section \<open>What the semaphores guarantee\<close>

text \<open>
  A semaphore counts exactly the nodes that hold it, and never more than its limit.
\<close>

theorem semaphore_counts_holders:
  assumes "res_reachable limits rates s" and "limits t = Some n"
  shows "pl_sem (rs_pool s) t = held (rs_holders s) t \<and> held (rs_holders s) t \<le> n"
  using res_reachable_ok [OF assms(1)] assms(2) by (metis res_ok_def)

definition tag_limits :: "string \<rightharpoonup> nat" where
  "tag_limits = [''db'' \<mapsto> 1, ''gpu'' \<mapsto> 2]"

definition tag_rates :: "string \<rightharpoonup> rat" where
  "tag_rates = [''gpu'' \<mapsto> 3]"

abbreviation fresh_pool :: pool where
  "fresh_pool \<equiv> newResourceManager 0 tag_rates"

definition one_holder :: resources where
  "one_holder = \<lparr>rs_limit = tag_limits, rs_pool = fresh_pool\<lparr>pl_sem := (pl_sem fresh_pool)(''db'' := 1)\<rparr>,
     rs_holders = [\<lparr>h_tags = [''db'', ''db''], h_wait = [''db''], h_rate = [''db'', ''db''], h_have = [''db'']\<rparr>]\<rparr>"

lemma one_holder_reachable: "res_reachable tag_limits tag_rates one_holder"
proof -
  let ?s0 = "new_resources 0 tag_limits tag_rates"
  let ?h = "\<lparr>h_tags = [''db'', ''db''], h_wait = [''db'', ''db''], h_rate = [''db'', ''db''], h_have = []\<rparr>"
  have start: "acquire_start [''db'', ''db''] = ?h" by (simp add: acquire_start_def)
  have "res_step ?s0 (?s0\<lparr>rs_holders := acquire_start [''db'', ''db''] # rs_holders ?s0\<rparr>)" by (rule res_step.begin_acquire)
  then have r: "res_reachable tag_limits tag_rates (?s0\<lparr>rs_holders := [?h]\<rparr>)"
    using res_reachable.step [OF res_reachable.init] start by (simp add: new_resources_def)
  have "hold_step tag_limits ?h fresh_pool (?h\<lparr>h_wait := [''db''], h_have := h_have ?h @ [''db'']\<rparr>)
      (fresh_pool\<lparr>pl_sem := (pl_sem fresh_pool)(''db'' := pl_sem fresh_pool ''db'' + 1)\<rparr>)"
    by (rule hold_step.take_slot [where n = 1]) (simp_all add: tag_limits_def newResourceManager_def)
  then have "hold_step (rs_limit (?s0\<lparr>rs_holders := [?h]\<rparr>)) ?h (rs_pool (?s0\<lparr>rs_holders := [?h]\<rparr>))
      (?h\<lparr>h_wait := [''db''], h_have := [''db'']\<rparr>) (fresh_pool\<lparr>pl_sem := (pl_sem fresh_pool)(''db'' := 1)\<rparr>)"
    by (simp add: new_resources_def newResourceManager_def)
  from advance.hold [OF _ this, of "[]" "[]"]
  have "advance (?s0\<lparr>rs_holders := [?h]\<rparr>) one_holder"
    by (simp add: new_resources_def one_holder_def newResourceManager_def)
  then show ?thesis by (rule res_reachable.step [OF r res_step.advance])
qed

theorem semaphore_counts_holders_witness:
  "pl_sem (rs_pool one_holder) ''db'' = held (rs_holders one_holder) ''db'' \<and> held (rs_holders one_holder) ''db'' \<le> 1"
proof -
  have "tag_limits ''db'' = Some 1" by (simp add: tag_limits_def)
  then show ?thesis by (rule semaphore_counts_holders [OF one_holder_reachable])
qed

text \<open>How many steps remain to all holders.\<close>

definition steps_to_go :: "resources \<Rightarrow> nat" where
  "steps_to_go s = sum_list (map (\<lambda>h. Suc (length (h_wait h) + length (h_rate h))) (rs_holders s))"

lemma hold_step_shorter:
  "hold_step limit h p h' p' \<Longrightarrow> length (h_wait h') + length (h_rate h') < length (h_wait h) + length (h_rate h)"
  by (induction rule: hold_step.induct) auto

lemma advance_fewer: "advance s s' \<Longrightarrow> steps_to_go s' < steps_to_go s"
  by (induction rule: advance.induct) (use hold_step_shorter in \<open>fastforce simp: steps_to_go_def\<close>)+

text \<open>A holder that cannot go on waits for a full semaphore, or for the token of a bucket that is too slow.\<close>

definition rates_ok :: "(string \<rightharpoonup> rat) \<Rightarrow> bool" where
  "rates_ok rates \<longleftrightarrow> (\<forall>t r. rates t = Some r \<longrightarrow> 1 \<le> r)"

lemma blocked_on:
  assumes "\<not> acquired_all h" and "\<nexists>h' p'. hold_step limit h p h' p'" and "buckets_ok rates p" and "rates_ok rates"
  obtains t ts n where "h_wait h = t # ts" "limit t = Some n" "n \<le> pl_sem p t"
proof (cases "h_wait h")
  case Nil
  then obtain t ts where r: "h_rate h = t # ts" using assms(1) by (cases "h_rate h") (auto simp: acquired_all_def)
  show ?thesis
  proof (cases "pl_buckets p t")
    case None
    then show ?thesis using assms(2) hold_step.no_limiter [OF Nil r] by blast
  next
    case (Some tb)
    have "rates t = Some (tb_rate tb)" "rates t = Some (tb_capacity tb)"
      using assms(3) Some unfolding buckets_ok_def by (metis option.simps(9))+
    then have "1 \<le> tb_rate tb" "1 \<le> tb_capacity tb" using assms(4) by (auto simp: rates_ok_def)
    from token_comes [OF this] show ?thesis using assms(2) hold_step.take_token [OF Nil r Some] by blast
  qed
next
  case (Cons t ts)
  obtain n where n: "limit t = Some n" using assms(2) hold_step.pass_over [OF Cons] by blast
  then have "n \<le> pl_sem p t" using assms(2) hold_step.take_slot [where limit = limit and h = h, OF Cons, of n] n by (meson not_le)
  then show ?thesis using that Cons n by blast
qed

lemma held_pos: "0 < held hs t \<Longrightarrow> \<exists>h\<in>set hs. t \<in> set (h_have h)"
  unfolding held_def by (induction hs) (auto simp: count_list_0_iff)

text \<open>A node that holds a limited tag and waits for another one waits for a larger one.\<close>

lemma wait_larger:
  assumes "holder_ok limit h" and "distinct (h_tags h)" and "t \<in> set (h_have h)" and "limit t \<noteq> None"
    and "h_wait h = u # us"
  shows "t < u"
proof -
  have "t \<le> u" using assms(1,3,5) by (simp add: holder_ok_def sorted_append)
  moreover have "t \<noteq> u"
  proof
    assume "t = u"
    then have "count_list (h_have h @ h_wait h) t = count_list (h_have h) t + Suc (count_list us t)"
      using assms(5) by simp
    moreover have "0 < count_list (h_have h) t" using assms(3) by (metis count_list_0_iff gr0I)
    moreover have "count_list (h_have h @ h_wait h) t = count_list (h_tags h) t"
      using assms(1,4) by (simp add: holder_ok_def)
    moreover have "count_list (h_tags h) t \<le> 1" using assms(2)
      by (metis count_mset distinct_count_atmost_1 le_refl zero_le_one)
    ultimately show False by simp
  qed
  ultimately show ?thesis by simp
qed

lemma some_can_advance:
  assumes inv: "res_ok limit rates p hs" and some: "hs \<noteq> []"
    and dist: "\<forall>h\<in>set hs. distinct (h_tags h)" and pos: "\<forall>t. limit t \<noteq> Some 0" and rates: "rates_ok rates"
  shows "\<exists>h\<in>set hs. acquired_all h \<or> (\<exists>h' p'. hold_step limit h p h' p')"
proof (rule ccontr)
  let ?H = "set hs"
  assume none: "\<not> ?thesis"
  have b: "buckets_ok rates p" using inv by (simp add: res_ok_def)
  define m where "m = Max ((\<lambda>h. hd (h_wait h)) ` ?H)"
  have fin: "finite ((\<lambda>h. hd (h_wait h)) ` ?H)" "(\<lambda>h. hd (h_wait h)) ` ?H \<noteq> {}" using some by auto
  have "m \<in> (\<lambda>h. hd (h_wait h)) ` ?H" unfolding m_def by (rule Max_in [OF fin])
  then obtain h where h: "h \<in> ?H" "hd (h_wait h) = m" by (metis imageE)
  have "\<not> acquired_all h" "\<nexists>h' p'. hold_step limit h p h' p'" using none h(1) by blast+
  from blocked_on [OF this b rates] obtain t ts n where t: "h_wait h = t # ts" "limit t = Some n" "n \<le> pl_sem p t" .
  then have w: "limit m = Some n" "n \<le> pl_sem p m" using h(2) by simp_all
  have "n \<noteq> 0" using w(1) pos by metis
  then have "0 < held hs m" using w(2) inv by (metis gr0I le_zero_eq res_ok_def)
  then obtain g where g: "g \<in> ?H" "m \<in> set (h_have g)" using held_pos by blast
  have "\<not> acquired_all g" "\<nexists>h' p'. hold_step limit g p h' p'" using none g(1) by blast+
  from blocked_on [OF this b rates] obtain u us k where u: "h_wait g = u # us" "limit u = Some k" "k \<le> pl_sem p u" .
  have "holder_ok limit g" using inv g(1) by (simp add: res_ok_def)
  then have "m < u" using wait_larger [OF _ _ g(2) _ u(1)] dist g(1) w(1) by simp
  moreover have "u \<le> m" unfolding m_def using fin(1) g(1) u(1) by (metis Max_ge imageI list.sel(1))
  ultimately show False by simp
qed

text \<open>
  C32. The sorted order of acquisition prevents deadlock, through the wait for the semaphores and the wait for the
  tokens of the rate limiters: provided that every limit is at least one and every rate at least one per second,
  and that no node names a tag twice, in every reachable state with nodes under way one of them can go on by
  itself, with no context ending, and each such step leaves less to do, so that all of them pass. A node that
  waits for a token gets one in the end, however often it polls.
\<close>

theorem sorted_acquire_deadlock_free:
  assumes "res_reachable limits rates s" and "rs_holders s \<noteq> []"
    and "\<forall>h\<in>set (rs_holders s). distinct (h_tags h)" and "\<forall>t. limits t \<noteq> Some 0" and "\<forall>t r. rates t = Some r \<longrightarrow> 1 \<le> r"
  shows "(\<exists>s'. advance s s') \<and> (\<forall>s'. advance s s' \<longrightarrow> steps_to_go s' < steps_to_go s)"
proof -
  have inv: "res_ok limits rates (rs_pool s) (rs_holders s)" "rs_limit s = limits" using res_reachable_ok [OF assms(1)] by auto
  have "rates_ok rates" using assms(5) by (simp add: rates_ok_def)
  then obtain h where h: "h \<in> set (rs_holders s)" "acquired_all h \<or> (\<exists>h' p'. hold_step limits h (rs_pool s) h' p')"
    using some_can_advance [OF inv(1) assms(2,3,4)] by blast
  obtain xs ys where split: "rs_holders s = xs @ h # ys" using h(1) by (meson split_list)
  have "\<exists>s'. advance s s'" using h(2) advance.hold [OF split] advance.release_all [OF split] inv(2) by metis
  then show ?thesis using advance_fewer by blast
qed

definition two_nodes :: resources where
  "two_nodes = (new_resources 0 tag_limits tag_rates)
     \<lparr>rs_holders := [acquire_start [''gpu'', ''db''], acquire_start [''db'', ''net'', ''gpu'']]\<rparr>"

lemma two_nodes_reachable: "res_reachable tag_limits tag_rates two_nodes"
proof -
  let ?s0 = "new_resources 0 tag_limits tag_rates"
  let ?s1 = "?s0\<lparr>rs_holders := acquire_start [''db'', ''net'', ''gpu''] # rs_holders ?s0\<rparr>"
  have "res_reachable tag_limits tag_rates ?s1"
    by (rule res_reachable.step [OF res_reachable.init begin_acquire])
  moreover have "res_step ?s1 two_nodes"
    using begin_acquire [of ?s1 "[''gpu'', ''db'']"] by (simp add: two_nodes_def new_resources_def)
  ultimately show ?thesis by (rule res_reachable.step)
qed

theorem sorted_acquire_deadlock_free_witness:
  "\<exists>s'. advance two_nodes s' \<and> steps_to_go s' < steps_to_go two_nodes"
proof -
  have "rs_holders two_nodes \<noteq> []" by (simp add: two_nodes_def)
  moreover have "\<forall>h\<in>set (rs_holders two_nodes). distinct (h_tags h)"
    by (simp add: two_nodes_def acquire_start_def)
  moreover have "\<forall>t. tag_limits t \<noteq> Some 0" by (simp add: tag_limits_def)
  moreover have "\<forall>t r. tag_rates t = Some r \<longrightarrow> 1 \<le> r" by (auto simp: tag_rates_def)
  ultimately show ?thesis using sorted_acquire_deadlock_free [OF two_nodes_reachable] by blast
qed

text \<open>
  The condition that no node names a tag twice is needed: a single node whose
  \<open>ResourceTags\<close> name the tag \<open>db\<close>, of limit one, twice reaches a state where it holds the only slot
  and waits for it: nothing but the end of its context gets it out.
\<close>

theorem duplicate_tag_deadlocks:
  "res_reachable tag_limits tag_rates one_holder \<and> rs_holders one_holder \<noteq> [] \<and> (\<nexists>s'. advance one_holder s')"
proof (intro conjI notI)
  show "res_reachable tag_limits tag_rates one_holder" by (rule one_holder_reachable)
  show "rs_holders one_holder = [] \<Longrightarrow> False" by (simp add: one_holder_def)
  assume "\<exists>s'. advance one_holder s'"
  then obtain s' where "advance one_holder s'" by blast
  then show False
  proof (cases rule: advance.cases)
    case (hold xs h ys h' p')
    have "h = \<lparr>h_tags = [''db'', ''db''], h_wait = [''db''], h_rate = [''db'', ''db''], h_have = [''db'']\<rparr>"
      using hold(2) by (auto simp: one_holder_def Cons_eq_append_conv)
    with hold(3) show False
      by (elim hold_step.cases) (auto simp: one_holder_def tag_limits_def)
  next
    case (release_all xs h ys)
    then show False by (auto simp: one_holder_def Cons_eq_append_conv acquired_all_def)
  qed
qed


end
