(* ===== verification/Backpressure.thy ===== *)
theory Backpressure
  imports Prelude GoInt "HOL-Library.Signed_Division"
begin

text \<open>
  Adaptive concurrency (\<open>orchestrate/backpressure.go\<close>): the controller with its queue of waiting
  nodes, its operations, and the steps that nodes take through \<open>acquire\<close> and \<open>release\<close>. Durations and
  times are integers (nanoseconds) given as arguments where the code reads its clock; a waiting
  node's channel is named by the node, which acquires once. Go's division, which truncates, is \<open>sdiv\<close>; the
  sums and products of counts and of latencies wrap around.
\<close>

section \<open>The controller\<close>

record BackpressureConfig =
  InitialConcurrency :: int
  MinConcurrency :: int
  MaxConcurrency :: int
  LatencyThreshold :: int
  AdjustInterval :: int

record backpressureController =
  bp_cfg :: BackpressureConfig
  bp_concurrency :: int
  bp_active :: int
  bp_waiters :: "string list"
  bp_latencies :: "int list"
  bp_lastAdjustTime :: int

definition normalize :: "BackpressureConfig \<Rightarrow> BackpressureConfig" where
  "normalize c0 =
     (let c1 = (if InitialConcurrency c0 \<le> 0 then c0\<lparr>InitialConcurrency := 1\<rparr> else c0);
          c2 = (if MinConcurrency c1 \<le> 0 then c1\<lparr>MinConcurrency := 1\<rparr> else c1);
          c3 = (if MaxConcurrency c2 \<le> 0 then c2\<lparr>MaxConcurrency := int64 (InitialConcurrency c2 * 4)\<rparr> else c2);
          c4 = (if InitialConcurrency c3 < MinConcurrency c3 then c3\<lparr>InitialConcurrency := MinConcurrency c3\<rparr> else c3);
          c5 = (if InitialConcurrency c4 > MaxConcurrency c4 then c4\<lparr>InitialConcurrency := MaxConcurrency c4\<rparr> else c4)
      in if AdjustInterval c5 \<le> 0 then c5\<lparr>AdjustInterval := 1000000000\<rparr> else c5)"

definition newBackpressureController :: "int \<Rightarrow> BackpressureConfig \<Rightarrow> backpressureController" where
  "newBackpressureController now cfg =
     (let c = normalize cfg in
      \<lparr>bp_cfg = c, bp_concurrency = InitialConcurrency c, bp_active = 0, bp_waiters = [],
       bp_latencies = [], bp_lastAdjustTime = now\<rparr>)"

text \<open>\<open>acquire\<close> up to its \<open>select\<close>: whether the slot is granted at once, else the channel is queued.\<close>

definition acquire :: "string \<Rightarrow> backpressureController \<Rightarrow> bool \<times> backpressureController" where
  "acquire ch bp =
     (if bp_active bp < bp_concurrency bp then (True, bp\<lparr>bp_active := bp_active bp + 1\<rparr>)
      else (False, bp\<lparr>bp_waiters := bp_waiters bp @ [ch]\<rparr>))"

text \<open>The \<open>ctx.Done\<close> branch of that \<open>select\<close>.\<close>

definition acquire_cancelled :: "string \<Rightarrow> backpressureController \<Rightarrow> backpressureController" where
  "acquire_cancelled ch bp = bp\<lparr>bp_waiters := remove1 ch (bp_waiters bp)\<rparr>"

definition maybeAdjust :: "int \<Rightarrow> backpressureController \<Rightarrow> backpressureController" where
  "maybeAdjust now bp =
     (if now - bp_lastAdjustTime bp < AdjustInterval (bp_cfg bp) then bp
      else if bp_latencies bp = [] then bp
      else let avg = int64 (sum_list (bp_latencies bp)) sdiv int (length (bp_latencies bp));
               bp1 = bp\<lparr>bp_latencies := [], bp_lastAdjustTime := now\<rparr> in
           if avg > LatencyThreshold (bp_cfg bp)
           then bp1\<lparr>bp_concurrency := max (bp_concurrency bp sdiv 2) (MinConcurrency (bp_cfg bp))\<rparr>
           else bp1\<lparr>bp_concurrency := min (int64 (bp_concurrency bp + 1)) (MaxConcurrency (bp_cfg bp))\<rparr>)"

text \<open>\<open>release\<close> answers the channel it signals, if any.\<close>

definition release :: "int \<Rightarrow> int \<Rightarrow> backpressureController \<Rightarrow> string option \<times> backpressureController" where
  "release now latency bp0 =
     (let bp = maybeAdjust now (bp0\<lparr>bp_latencies := bp_latencies bp0 @ [latency]\<rparr>) in
      if bp_waiters bp \<noteq> [] \<and> bp_active bp \<le> bp_concurrency bp
      then (Some (hd (bp_waiters bp)), bp\<lparr>bp_waiters := tl (bp_waiters bp)\<rparr>)
      else let bp1 = bp\<lparr>bp_active := bp_active bp - 1\<rparr> in
           if bp_waiters bp1 \<noteq> [] \<and> bp_active bp1 < bp_concurrency bp1
           then (Some (hd (bp_waiters bp1)),
                 bp1\<lparr>bp_waiters := tl (bp_waiters bp1), bp_active := bp_active bp1 + 1\<rparr>)
           else (None, bp1))"

definition currentConcurrency :: "backpressureController \<Rightarrow> int" where
  "currentConcurrency bp = bp_concurrency bp"

section \<open>Nodes under way\<close>

text \<open>
  Besides the controller: how many nodes hold a slot, the channels with a signal that no node has
  received yet, and how many signals went to nodes that had already chosen \<open>ctx.Done\<close>.
\<close>

record bp_system =
  sy_bp :: backpressureController
  sy_holders :: nat
  sy_sent :: "string list"
  sy_lost :: nat

definition bp_start :: "int \<Rightarrow> BackpressureConfig \<Rightarrow> bp_system" where
  "bp_start now cfg = \<lparr>sy_bp = newBackpressureController now cfg, sy_holders = 0, sy_sent = [], sy_lost = 0\<rparr>"

definition bp_enter :: "string \<Rightarrow> bp_system \<Rightarrow> bp_system" where
  "bp_enter ch s = (case acquire ch (sy_bp s) of
     (got, bp) \<Rightarrow> s\<lparr>sy_bp := bp, sy_holders := (if got then sy_holders s + 1 else sy_holders s)\<rparr>)"

definition bp_receive :: "string \<Rightarrow> bp_system \<Rightarrow> bp_system" where
  "bp_receive ch s = s\<lparr>sy_sent := remove1 ch (sy_sent s), sy_holders := sy_holders s + 1\<rparr>"

definition bp_cancel :: "string \<Rightarrow> bp_system \<Rightarrow> bp_system" where
  "bp_cancel ch s =
     s\<lparr>sy_bp := acquire_cancelled ch (sy_bp s), sy_sent := remove1 ch (sy_sent s),
       sy_lost := (if ch \<in> set (sy_sent s) then sy_lost s + 1 else sy_lost s)\<rparr>"

definition bp_release :: "int \<Rightarrow> int \<Rightarrow> bp_system \<Rightarrow> bp_system" where
  "bp_release now latency s = (case release now latency (sy_bp s) of
     (sig, bp) \<Rightarrow> s\<lparr>sy_bp := bp, sy_holders := sy_holders s - 1,
                      sy_sent := (case sig of None \<Rightarrow> sy_sent s | Some ch \<Rightarrow> ch # sy_sent s)\<rparr>)"

inductive bp_step :: "bp_system \<Rightarrow> bp_system \<Rightarrow> bool" where
  enter: "ch \<notin> set (bp_waiters (sy_bp s)) \<Longrightarrow> ch \<notin> set (sy_sent s) \<Longrightarrow> bp_step s (bp_enter ch s)"
| receive: "ch \<in> set (sy_sent s) \<Longrightarrow> bp_step s (bp_receive ch s)"
| cancel: "ch \<in> set (bp_waiters (sy_bp s)) \<union> set (sy_sent s) \<Longrightarrow> bp_step s (bp_cancel ch s)"
| release: "0 < sy_holders s \<Longrightarrow> bp_step s (bp_release now latency s)"

inductive bp_reachable :: "BackpressureConfig \<Rightarrow> bp_system \<Rightarrow> bool" for cfg where
  init: "bp_reachable cfg (bp_start now cfg)"
| step: "bp_reachable cfg s \<Longrightarrow> bp_step s s' \<Longrightarrow> bp_reachable cfg s'"

section \<open>The invariant\<close>

definition limits_ok :: "backpressureController \<Rightarrow> bool" where
  "limits_ok bp \<longleftrightarrow> 1 \<le> MinConcurrency (bp_cfg bp) \<and> 1 \<le> MaxConcurrency (bp_cfg bp) \<and>
     1 \<le> bp_concurrency bp \<and>
     bp_concurrency bp \<le> max (MinConcurrency (bp_cfg bp)) (MaxConcurrency (bp_cfg bp)) \<and>
     (MinConcurrency (bp_cfg bp) \<le> MaxConcurrency (bp_cfg bp) \<longrightarrow>
        MinConcurrency (bp_cfg bp) \<le> bp_concurrency bp)"

text \<open>
  The limits that the controller works with make sense: neither wrapped around when it was made, and neither is
  the largest \<open>int\<close>, to which one cannot be added.
\<close>

definition sane_limits :: "BackpressureConfig \<Rightarrow> bool" where
  "sane_limits c \<longleftrightarrow> 1 \<le> MaxConcurrency c \<and> MinConcurrency c < 2 ^ 63 - 1 \<and> MaxConcurrency c < 2 ^ 63 - 1"

definition bp_inv :: "bp_system \<Rightarrow> bool" where
  "bp_inv s \<longleftrightarrow> limits_ok (sy_bp s) \<and> sane_limits (bp_cfg (sy_bp s)) \<and>
     distinct (bp_waiters (sy_bp s) @ sy_sent s) \<and>
     bp_active (sy_bp s) = int (sy_holders s + length (sy_sent s) + sy_lost s) \<and>
     bp_active (sy_bp s) \<le> max (MinConcurrency (bp_cfg (sy_bp s))) (MaxConcurrency (bp_cfg (sy_bp s))) \<and>
     (bp_waiters (sy_bp s) \<noteq> [] \<longrightarrow> 1 \<le> bp_active (sy_bp s))"

lemma normalize_ok:
  "1 \<le> MinConcurrency (normalize c) \<and> InitialConcurrency (normalize c) \<le> MaxConcurrency (normalize c) \<and>
   (1 \<le> MaxConcurrency (normalize c) \<longrightarrow> 1 \<le> InitialConcurrency (normalize c)) \<and>
   (MinConcurrency (normalize c) \<le> MaxConcurrency (normalize c) \<longrightarrow>
      MinConcurrency (normalize c) \<le> InitialConcurrency (normalize c))"
  by (simp add: normalize_def Let_def)

lemma new_limits_ok: "sane_limits (normalize c) \<Longrightarrow> limits_ok (newBackpressureController now c)"
  using normalize_ok [of c] by (auto simp: limits_ok_def sane_limits_def newBackpressureController_def Let_def)

lemma half_le: "1 \<le> (c :: int) \<Longrightarrow> c sdiv 2 \<le> c"
  by (simp add: signed_divide_int_def)

lemma maybeAdjust_frame:
  "bp_cfg (maybeAdjust now bp) = bp_cfg bp \<and> bp_active (maybeAdjust now bp) = bp_active bp \<and>
   bp_waiters (maybeAdjust now bp) = bp_waiters bp"
  by (simp add: maybeAdjust_def Let_def)

lemma maybeAdjust_limits:
  assumes "limits_ok bp" and "sane_limits (bp_cfg bp)"
  shows "limits_ok (maybeAdjust now bp)"
proof -
  have "int64 (bp_concurrency bp + 1) = bp_concurrency bp + 1"
    using assms by (intro int64_id) (auto simp: limits_ok_def sane_limits_def)
  then show ?thesis using assms(1) half_le [of "bp_concurrency bp"]
    by (auto simp: maybeAdjust_def Let_def limits_ok_def)
qed

lemma remove1_count:
  "ch \<in> set xs \<Longrightarrow> int (length xs) = int (length (remove1 ch xs)) + 1"
  by (induction xs) auto

lemma remove1_disjoint: "distinct (xs @ ys) \<Longrightarrow> distinct (remove1 a xs @ remove1 b ys)"
  by (auto dest: notin_set_remove1)

lemma release_frame:
  "release now latency bp0 = (sig, bp) \<Longrightarrow>
   bp_cfg bp = bp_cfg bp0 \<and>
   bp_concurrency bp = bp_concurrency (maybeAdjust now (bp0\<lparr>bp_latencies := bp_latencies bp0 @ [latency]\<rparr>))"
  by (auto simp: release_def Let_def maybeAdjust_frame split: if_splits)

text \<open>The slot either passes to the first node in the queue or is given back.\<close>

lemma release_cases:
  assumes "release now latency bp0 = (sig, bp)"
  obtains (passed) ch where "sig = Some ch" "bp_waiters bp0 = ch # bp_waiters bp" "bp_active bp = bp_active bp0"
  | (freed) "sig = None" "bp_waiters bp = bp_waiters bp0" "bp_active bp = bp_active bp0 - 1"
      "bp_waiters bp \<noteq> [] \<longrightarrow> bp_concurrency bp \<le> bp_active bp"
proof (cases sig)
  case None
  then show ?thesis using assms freed
    by (auto simp: release_def Let_def maybeAdjust_frame split: if_splits)
next
  case (Some ch)
  then show ?thesis using assms passed
    by (auto simp: release_def Let_def maybeAdjust_frame split: if_splits)
qed

lemma release_limits:
  assumes "release now latency bp0 = (sig, bp)" and "limits_ok bp0" and "sane_limits (bp_cfg bp0)"
  shows "limits_ok bp"
proof -
  let ?bp1 = "bp0\<lparr>bp_latencies := bp_latencies bp0 @ [latency]\<rparr>"
  have "limits_ok ?bp1" using assms(2) by (simp add: limits_ok_def)
  then have "limits_ok (maybeAdjust now ?bp1)" using assms(3) by (intro maybeAdjust_limits) simp_all
  then show ?thesis using release_frame [OF assms(1)] maybeAdjust_frame by (simp add: limits_ok_def)
qed

lemma bp_step_inv: "bp_step s s' \<Longrightarrow> bp_inv s \<Longrightarrow> bp_inv s'"
proof (induction rule: bp_step.induct)
  case (enter ch s)
  then show ?case by (auto simp: bp_inv_def bp_enter_def acquire_def limits_ok_def)
next
  case (receive ch s)
  then show ?case using remove1_disjoint [of "bp_waiters (sy_bp s)" "sy_sent s" _ ch] remove1_count [of ch "sy_sent s"]
    by (auto simp: bp_inv_def bp_receive_def dest: notin_set_remove1)
next
  case (cancel ch s)
  let ?w = "bp_waiters (sy_bp s)"
  have d: "distinct (remove1 ch ?w @ remove1 ch (sy_sent s))"
    using cancel(2) by (intro remove1_disjoint) (simp add: bp_inv_def)
  have w: "remove1 ch ?w \<noteq> [] \<Longrightarrow> ?w \<noteq> []" by auto
  have inv: "limits_ok (sy_bp s)" "bp_active (sy_bp s) = int (sy_holders s + length (sy_sent s) + sy_lost s)"
    "bp_active (sy_bp s) \<le> max (MinConcurrency (bp_cfg (sy_bp s))) (MaxConcurrency (bp_cfg (sy_bp s)))"
    "?w \<noteq> [] \<longrightarrow> 1 \<le> bp_active (sy_bp s)" "sane_limits (bp_cfg (sy_bp s))"
    using cancel(2) unfolding bp_inv_def by blast+
  have n: "int (sy_holders s + length (sy_sent s) + sy_lost s) =
      int (sy_holders s + length (remove1 ch (sy_sent s)) + (if ch \<in> set (sy_sent s) then sy_lost s + 1 else sy_lost s))"
    using remove1_count [of ch "sy_sent s"] by (auto simp: remove1_idem)
  show ?case unfolding bp_inv_def
  proof (intro conjI)
    show "limits_ok (sy_bp (bp_cancel ch s))"
      using inv(1) by (simp add: bp_cancel_def acquire_cancelled_def limits_ok_def)
    show "distinct (bp_waiters (sy_bp (bp_cancel ch s)) @ sy_sent (bp_cancel ch s))"
      using d by (simp add: bp_cancel_def acquire_cancelled_def)
    show "bp_active (sy_bp (bp_cancel ch s)) =
        int (sy_holders (bp_cancel ch s) + length (sy_sent (bp_cancel ch s)) + sy_lost (bp_cancel ch s))"
      using inv(2) n by (simp add: bp_cancel_def acquire_cancelled_def)
  qed (use inv(3-5) w in \<open>simp_all add: bp_cancel_def acquire_cancelled_def\<close>)
next
  case (release s now latency)
  obtain sig bp where r: "Backpressure.release now latency (sy_bp s) = (sig, bp)" by (rule prod.exhaust)
  have lim: "limits_ok bp" using release_limits [OF r] release(2) by (simp add: bp_inv_def)
  have cfg: "bp_cfg bp = bp_cfg (sy_bp s)" using release_frame [OF r] by simp
  have s': "bp_release now latency s = s\<lparr>sy_bp := bp, sy_holders := sy_holders s - 1,
      sy_sent := (case sig of None \<Rightarrow> sy_sent s | Some ch \<Rightarrow> ch # sy_sent s)\<rparr>"
    using r by (simp add: bp_release_def)
  show ?case using r
  proof (cases rule: release_cases)
    case (passed ch)
    then show ?thesis using release lim cfg by (auto simp: bp_inv_def s')
  next
    case freed
    then show ?thesis using release lim cfg by (auto simp: bp_inv_def s' limits_ok_def)
  qed
qed

lemma bp_reachable_inv:
  "bp_reachable cfg s \<Longrightarrow> sane_limits (normalize cfg) \<Longrightarrow> bp_inv s \<and> bp_cfg (sy_bp s) = normalize cfg"
proof (induction rule: bp_reachable.induct)
  case (init now)
  have "bp_inv (bp_start now cfg)"
    using new_limits_ok [of cfg now] init
    by (simp add: bp_inv_def bp_start_def newBackpressureController_def Let_def limits_ok_def)
  then show ?case by (simp add: bp_start_def newBackpressureController_def Let_def)
next
  case (step s s')
  have "bp_cfg (sy_bp s') = bp_cfg (sy_bp s)" using step(2)
  proof cases
    case (release now latency)
    then show ?thesis using release_frame by (auto simp: bp_release_def split: prod.splits)
  qed (auto simp: bp_enter_def acquire_def bp_receive_def bp_cancel_def acquire_cancelled_def)
  then show ?case using step bp_step_inv by auto
qed

section \<open>What the controller guarantees\<close>

text \<open>
  C33. Bounds: whatever latencies are reported and whatever nodes come, wait, give up and leave, the
  concurrency stays between its configured minimum and maximum, and the nodes that hold a slot
  never exceed the maximum, not even while the limit is being lowered under them. (A maximum that is the
  largest \<open>int\<close> is excluded: adding one to the concurrency would wrap around.)
\<close>

theorem backpressure_bounds:
  assumes "bp_reachable cfg s" and "MinConcurrency (normalize cfg) \<le> MaxConcurrency (normalize cfg)"
    and "MaxConcurrency (normalize cfg) < 2 ^ 63 - 1"
  shows "MinConcurrency (normalize cfg) \<le> currentConcurrency (sy_bp s) \<and>
    currentConcurrency (sy_bp s) \<le> MaxConcurrency (normalize cfg) \<and>
    int (sy_holders s) \<le> MaxConcurrency (normalize cfg)"
proof -
  have "sane_limits (normalize cfg)" using assms(2,3) normalize_ok [of cfg] by (auto simp: sane_limits_def)
  from bp_reachable_inv [OF assms(1) this] assms(2) show ?thesis
    by (auto simp: bp_inv_def limits_ok_def currentConcurrency_def)
qed

text \<open>
  A run on one slot: a node takes it, a second one queues, the first leaves and signals the second,
  whose context has ended.
\<close>

definition one_slot :: BackpressureConfig where
  "one_slot = \<lparr>InitialConcurrency = 1, MinConcurrency = 1, MaxConcurrency = 1,
     LatencyThreshold = 100, AdjustInterval = 1000\<rparr>"

definition one_queued :: bp_system where
  "one_queued = bp_enter ''b'' (bp_enter ''a'' (bp_start 0 one_slot))"

definition stranded :: bp_system where
  "stranded = bp_cancel ''b'' (bp_release 5 5 one_queued)"

lemma one_queued_reachable: "bp_reachable one_slot one_queued"
proof -
  have "bp_step (bp_start 0 one_slot) (bp_enter ''a'' (bp_start 0 one_slot))"
    by (rule bp_step.enter) code_simp+
  moreover have "bp_step (bp_enter ''a'' (bp_start 0 one_slot)) one_queued"
    unfolding one_queued_def by (rule bp_step.enter) code_simp+
  ultimately show ?thesis by (meson bp_reachable.intros)
qed

lemma stranded_reachable: "bp_reachable one_slot stranded"
proof -
  have "0 < sy_holders one_queued" by code_simp
  then have "bp_step one_queued (bp_release 5 5 one_queued)" by (rule bp_step.release)
  moreover have "''b'' \<in> set (bp_waiters (sy_bp (bp_release 5 5 one_queued))) \<union> set (sy_sent (bp_release 5 5 one_queued))"
    by code_simp
  then have "bp_step (bp_release 5 5 one_queued) stranded" unfolding stranded_def by (rule bp_step.cancel)
  ultimately show ?thesis using one_queued_reachable by (meson bp_reachable.step)
qed

theorem backpressure_bounds_witness:
  "1 \<le> currentConcurrency (sy_bp one_queued) \<and> currentConcurrency (sy_bp one_queued) \<le> 1 \<and>
   int (sy_holders one_queued) \<le> 1"
proof -
  have n: "MinConcurrency (normalize one_slot) = 1" "MaxConcurrency (normalize one_slot) = 1"
    by (simp_all add: normalize_def one_slot_def)
  show ?thesis using backpressure_bounds [OF one_queued_reachable] unfolding n by simp
qed

text \<open>
  No lost wake-up: the count of active slots is exactly the nodes that hold one, the signals
  under way and the signals that reached a node which had given up; so, as long as no signal has
  been lost that way, whenever a node waits, another one holds a slot or is about to, and will pass
  it on.
\<close>

theorem backpressure_no_lost_wakeup:
  assumes "bp_reachable cfg s" and "sane_limits (normalize cfg)" and "bp_waiters (sy_bp s) \<noteq> []" and "sy_lost s = 0"
  shows "bp_active (sy_bp s) = int (sy_holders s + length (sy_sent s)) \<and>
    0 < sy_holders s + length (sy_sent s)"
proof -
  have inv: "bp_active (sy_bp s) = int (sy_holders s + length (sy_sent s))" "1 \<le> bp_active (sy_bp s)"
    using bp_reachable_inv [OF assms(1,2)] assms(3,4) by (simp_all add: bp_inv_def)
  then have "0 < sy_holders s + length (sy_sent s)" by linarith
  then show ?thesis using inv(1) by blast
qed

theorem backpressure_no_lost_wakeup_witness:
  "bp_active (sy_bp one_queued) = int (sy_holders one_queued + length (sy_sent one_queued)) \<and>
   0 < sy_holders one_queued + length (sy_sent one_queued)"
  by (rule backpressure_no_lost_wakeup [OF one_queued_reachable]) code_simp+

lemma no_slot_left:
  "bp_step s s' \<Longrightarrow> sy_holders s = 0 \<and> sy_sent s = [] \<and> bp_concurrency (sy_bp s) \<le> bp_active (sy_bp s) \<Longrightarrow>
   sy_holders s' = 0 \<and> sy_sent s' = [] \<and> bp_concurrency (sy_bp s') \<le> bp_active (sy_bp s')"
  by (induction rule: bp_step.induct) (auto simp: bp_enter_def acquire_def bp_cancel_def acquire_cancelled_def)

text \<open>
  The slot leak: a node whose context ends when it has already been signalled returns an error
  without giving the slot back. On a controller with one slot that state is reachable, and from it
  no sequence of steps ever lets a node hold a slot again.
\<close>

theorem cancelled_waiter_leaks_slot:
  "bp_reachable one_slot stranded \<and> (\<forall>s'. bp_step\<^sup>*\<^sup>* stranded s' \<longrightarrow> sy_holders s' = 0)"
proof (intro conjI allI impI)
  show "bp_reachable one_slot stranded" by (rule stranded_reachable)
  fix s' assume "bp_step\<^sup>*\<^sup>* stranded s'"
  then have "sy_holders s' = 0 \<and> sy_sent s' = [] \<and> bp_concurrency (sy_bp s') \<le> bp_active (sy_bp s')"
  proof (induction rule: rtranclp_induct)
    case base
    show ?case by code_simp
  qed (rule no_slot_left)
  then show "sy_holders s' = 0" by simp
qed

theorem cancelled_waiter_leaks_slot_witness:
  "sy_holders (bp_enter ''c'' stranded) = 0"
proof -
  have "bp_step stranded (bp_enter ''c'' stranded)" by (rule bp_step.enter) code_simp+
  then show ?thesis using cancelled_waiter_leaks_slot by blast
qed

end
