(* ===== verification/Workflow.thy ===== *)
theory Workflow
  imports Orchestrate Schema "HOL-Library.Product_Lexorder"
begin

text \<open>
  The typed workflow engine (\<open>workflow/\<close>): typed state fields and patches (\<open>state.go\<close>), the validation
  of the graph (\<open>graph.go\<close>), and the scheduler (\<open>schedule.go\<close>), which runs a batch of ready nodes
  against one snapshot, checks their writes for conflicts, and commits them. The state type is a
  type variable; a field is known by the address of its identity. The goroutines of a batch are the
  step relation \<open>batch_step\<close>; an execution is a function of how its batches end.
\<close>

section \<open>Fields, changes and patches\<close>

record ('s, 'v) state_field =
  fd_id :: "nat option"
  fd_name :: string
  fd_get :: "'s \<Rightarrow> 'v"
  fd_set :: "'s \<Rightarrow> 'v \<Rightarrow> 's"

record 's change =
  ch_id :: "nat option"
  ch_name :: string
  ch_apply :: "'s \<Rightarrow> 's"

type_synonym 's patch = "'s change list"

text \<open>
  The constructors panic on a programmer error: that is \<open>None\<close>. \<open>NewField\<close> takes the address of the
  identity it allocates.
\<close>

definition NewField :: "nat \<Rightarrow> string \<Rightarrow> ('s \<Rightarrow> 'v) option \<Rightarrow> ('s \<Rightarrow> 'v \<Rightarrow> 's) option \<Rightarrow> ('s, 'v) state_field option" where
  "NewField addr name getter setter =
     (if name = '''' then None
      else case (getter, setter) of
        (Some g, Some f) \<Rightarrow> Some \<lparr>fd_id = Some addr, fd_name = name, fd_get = g, fd_set = f\<rparr>
      | _ \<Rightarrow> None)"

definition Get :: "'s \<Rightarrow> ('s, 'v) state_field \<Rightarrow> 'v option" where
  "Get snap field = (if fd_id field = None then None else Some (fd_get field snap))"

definition Set :: "('s, 'v) state_field \<Rightarrow> 'v \<Rightarrow> 's change option" where
  "Set field v =
     (if fd_id field = None then None
      else Some \<lparr>ch_id = fd_id field, ch_name = fd_name field, ch_apply = (\<lambda>s. fd_set field s v)\<rparr>)"

definition NewPatch :: "'s change list \<Rightarrow> 's patch" where
  "NewPatch changes = changes"

section \<open>Nodes\<close>

type_synonym 's outcome = "go_error + 's patch"

text \<open>
  What a node's \<open>Run\<close> may answer on a snapshot, by the error of its context when it returns; nil is
  \<open>None\<close>.
\<close>

record 's wnode =
  w_ID :: string
  w_Deps :: "string list"
  w_Run :: "(go_error option \<Rightarrow> 's \<Rightarrow> 's outcome \<Rightarrow> bool) option"

record 's workflow =
  wf_nodes :: "'s wnode list"
  wf_maxConcurrency :: int

definition wgraph :: "'s wnode list \<Rightarrow> gnode list" where
  "wgraph nodes = map (\<lambda>n. (w_ID n, w_Deps n)) nodes"

definition NodeError :: "string \<Rightarrow> go_error \<Rightarrow> go_error" where
  "NodeError i e = Errorf ''workflow: node %q: %v'' [AStr i] (Some e)"

definition ErrWriteConflict :: go_error where
  "ErrWriteConflict = ErrNew ''workflow: write conflict''"

definition WriteConflictError :: "string \<Rightarrow> string list \<Rightarrow> go_error" where
  "WriteConflictError name nodes =
     Errorf ''workflow: write conflict on field %q from nodes %s'' (AStr name # map AStr nodes) (Some ErrWriteConflict)"

section \<open>Validation\<close>

definition is_nil :: "'a option \<Rightarrow> bool" where
  "is_nil p = (case p of None \<Rightarrow> True | Some x \<Rightarrow> False)"

fun check_nodes :: "string list \<Rightarrow> 's wnode list \<Rightarrow> go_error option" where
  "check_nodes seen [] = None"
| "check_nodes seen (n # ns) =
     (if w_ID n = '''' then Some (Errorf ''workflow: empty node ID'' [] None)
      else if is_nil (w_Run n) then Some (Errorf ''workflow: node %q has a nil run function'' [AStr (w_ID n)] None)
      else if w_ID n \<in> set seen then Some (Errorf ''workflow: duplicate node ID %q'' [AStr (w_ID n)] None)
      else check_nodes (w_ID n # seen) ns)"

definition wf_detectCycle :: "'s wnode list \<Rightarrow> go_error option" where
  "wf_detectCycle nodes =
     (case detect_cycle (wgraph nodes) of
        Some (Inl i) \<Rightarrow> Some (Errorf ''workflow: cycle detected involving node %q'' [AStr i] None)
      | _ \<Rightarrow> None)"

definition wf_checkConnected :: "'s wnode list \<Rightarrow> go_error option" where
  "wf_checkConnected nodes =
     (case check_connected (wgraph nodes) of
        Some (Inl i) \<Rightarrow>
          Some (Errorf ''workflow: node %q is disconnected from the rest of the graph'' [AStr i] None)
      | _ \<Rightarrow> None)"

definition validateNodes :: "'s wnode list \<Rightarrow> go_error option" where
  "validateNodes nodes =
     (if length nodes = 0 then None
      else case check_nodes [] nodes of
        Some e \<Rightarrow> Some e
      | None \<Rightarrow>
     (case first_unknown_dep (map w_ID nodes) (wgraph nodes) of
        Some (i, d) \<Rightarrow>
          Some (Errorf ''workflow: node %q depends on unknown node %q'' [AStr i, AStr d] None)
      | None \<Rightarrow>
     (case wf_detectCycle nodes of Some e \<Rightarrow> Some e | None \<Rightarrow> wf_checkConnected nodes)))"

definition wf_New :: "'s wnode list \<Rightarrow> int \<Rightarrow> go_error + 's workflow" where
  "wf_New nodes maxConcurrency =
     (if maxConcurrency < 0 then Inl (Errorf ''workflow: max concurrency must be >= 0'' [] None)
      else case validateNodes nodes of
        Some e \<Rightarrow> Inl e
      | None \<Rightarrow> Inr \<lparr>wf_nodes = nodes, wf_maxConcurrency = maxConcurrency\<rparr>)"

section \<open>A batch\<close>

text \<open>The goroutines of \<open>runBatch\<close>: waiting for a slot, running, or done with their result.\<close>

datatype 's phase = Waiting | is_running: Running | Finished "'s outcome"

record 's batch_state =
  b_phases :: "'s phase list"
  b_ctx :: "go_error option"
  b_cancel :: "go_error option"

definition batch_start :: "'s wnode list \<Rightarrow> 's batch_state" where
  "batch_start batch = \<lparr>b_phases = map (\<lambda>_. Waiting) batch, b_ctx = None, b_cancel = None\<rparr>"

definition running :: "'s batch_state \<Rightarrow> nat" where
  "running b = length (filter is_running (b_phases b))"

definition batch_slot_free :: "int \<Rightarrow> 's batch_state \<Rightarrow> bool" where
  "batch_slot_free limit b \<longleftrightarrow> (limit > 0 \<longrightarrow> int (running b) < limit)"

text \<open>\<open>failOnce.Do(cancel)\<close>: cancelling a context that is done changes nothing.\<close>

definition fail_once :: "'s outcome \<Rightarrow> go_error option \<Rightarrow> go_error option" where
  "fail_once res c = (case (res, c) of (Inl e, None) \<Rightarrow> Some Canceled | _ \<Rightarrow> c)"

inductive batch_step :: "int \<Rightarrow> 's \<Rightarrow> 's wnode list \<Rightarrow> 's batch_state \<Rightarrow> 's batch_state \<Rightarrow> bool"
  for limit snap batch where
  start: "i < length batch \<Longrightarrow> b_phases b ! i = Waiting \<Longrightarrow> batch_slot_free limit b \<Longrightarrow>
    batch_step limit snap batch b (b\<lparr>b_phases := (b_phases b)[i := Running]\<rparr>)"
| give_up: "i < length batch \<Longrightarrow> b_phases b ! i = Waiting \<Longrightarrow> limit > 0 \<Longrightarrow> b_cancel b = Some e \<Longrightarrow>
    batch_step limit snap batch b (b\<lparr>b_phases := (b_phases b)[i := Finished (Inl e)]\<rparr>)"
| finish: "i < length batch \<Longrightarrow> b_phases b ! i = Running \<Longrightarrow> w_Run (batch ! i) = Some run \<Longrightarrow>
    run (b_cancel b) snap res \<Longrightarrow>
    batch_step limit snap batch b
      (b\<lparr>b_phases := (b_phases b)[i := Finished res], b_cancel := fail_once res (b_cancel b)\<rparr>)"
| ctx_done: "b_ctx b = None \<Longrightarrow>
    batch_step limit snap batch b
      (b\<lparr>b_ctx := Some e, b_cancel := (case b_cancel b of None \<Rightarrow> Some e | Some e' \<Rightarrow> Some e')\<rparr>)"

text \<open>A batch ends when all its goroutines are done: the caller's context and the results.\<close>

definition batch_end :: "int \<Rightarrow> 's \<Rightarrow> 's wnode list \<Rightarrow> go_error option \<Rightarrow> 's outcome list \<Rightarrow> bool" where
  "batch_end limit snap batch ctx results \<longleftrightarrow>
     (\<exists>b. (batch_step limit snap batch)\<^sup>*\<^sup>* (batch_start batch) b \<and> b_ctx b = ctx \<and>
          b_phases b = map Finished results)"

definition isCancelErr :: "go_error \<Rightarrow> bool" where
  "isCancelErr e \<longleftrightarrow> errors_is e Canceled \<or> errors_is e DeadlineExceeded"

text \<open>The failure reported first: of the errors that are not cancellations, the least node's.\<close>

fun pick_failure :: "(string \<times> go_error) option \<Rightarrow> (string \<times> 's outcome) list \<Rightarrow> (string \<times> go_error) option" where
  "pick_failure acc [] = acc"
| "pick_failure acc ((i, Inr p) # rs) = pick_failure acc rs"
| "pick_failure acc ((i, Inl e) # rs) =
     (if isCancelErr e then pick_failure acc rs
      else case acc of
        None \<Rightarrow> pick_failure (Some (i, e)) rs
      | Some (j, e') \<Rightarrow> pick_failure (if i < j then Some (i, e) else acc) rs)"

fun collect_patches :: "(string \<times> 's outcome) list \<Rightarrow> go_error + (string \<times> 's patch) list" where
  "collect_patches [] = Inr []"
| "collect_patches ((i, Inl e) # rs) = Inl (NodeError i e)"
| "collect_patches ((i, Inr p) # rs) =
     (case collect_patches rs of Inl e \<Rightarrow> Inl e | Inr ps \<Rightarrow> Inr ((i, p) # ps))"

text \<open>\<open>runBatch\<close> after \<open>wg.Wait\<close>.\<close>

definition batch_result :: "go_error option \<Rightarrow> (string \<times> 's outcome) list
      \<Rightarrow> go_error + (string \<times> 's patch) list" where
  "batch_result ctx results =
     (case ctx of
        Some e \<Rightarrow> Inl (Errorf ''workflow: %w'' [] (Some e))
      | None \<Rightarrow>
          (case pick_failure None results of
             Some (i, e) \<Rightarrow> Inl (NodeError i e)
           | None \<Rightarrow> collect_patches results))"

section \<open>Merging\<close>

type_synonym writers = "(nat \<times> string \<times> string list) list"

fun add_writer :: "nat \<Rightarrow> string \<Rightarrow> string \<Rightarrow> writers \<Rightarrow> writers" where
  "add_writer k name node [] = [(k, name, [node])]"
| "add_writer k name node ((k', name', nodes) # ws) =
     (if k = k' then (k', name', nodes @ [node]) # ws
      else (k', name', nodes) # add_writer k name node ws)"

fun note_changes :: "string \<Rightarrow> nat list \<Rightarrow> 's change list \<Rightarrow> writers \<Rightarrow> go_error + writers" where
  "note_changes i seen [] ws = Inr ws"
| "note_changes i seen (ch # chs) ws =
     (case ch_id ch of
        None \<Rightarrow> Inl (Errorf ''workflow: node %q returned a patch with a zero Change'' [AStr i] None)
      | Some k \<Rightarrow>
          (if k \<in> set seen then Inl (WriteConflictError (ch_name ch) [i])
           else note_changes i (k # seen) chs (add_writer k (ch_name ch) i ws)))"

fun note_results :: "(string \<times> 's patch) list \<Rightarrow> writers \<Rightarrow> go_error + writers" where
  "note_results [] ws = Inr ws"
| "note_results ((i, p) # rs) ws =
     (case note_changes i [] p ws of Inl e \<Rightarrow> Inl e | Inr ws' \<Rightarrow> note_results rs ws')"

fun nodesLess :: "string list \<Rightarrow> string list \<Rightarrow> bool" where
  "nodesLess [] bs = (bs \<noteq> [])"
| "nodesLess (a # as) [] = False"
| "nodesLess (a # as) (b # bs) = (if a \<noteq> b then a < b else nodesLess as bs)"

text \<open>The loop over the map of writers, in the order the map is visited.\<close>

fun pick_conflict :: "(string \<times> string list) option \<Rightarrow> writers \<Rightarrow> (string \<times> string list) option" where
  "pick_conflict acc [] = acc"
| "pick_conflict acc ((k, name, nodes) # ws) =
     (if length nodes < 2 then pick_conflict acc ws
      else let c = (name, sort nodes) in
           case acc of
             None \<Rightarrow> pick_conflict (Some c) ws
           | Some a \<Rightarrow>
               pick_conflict
                 (if fst c < fst a \<or> fst c = fst a \<and> nodesLess (snd c) (snd a) then Some c else acc) ws)"

definition apply_patch :: "'s \<Rightarrow> string \<times> 's patch \<Rightarrow> 's" where
  "apply_patch st r = foldl (\<lambda>s ch. ch_apply ch s) st (snd r)"

text \<open>\<open>iter\<close> is the order in which Go visits the map of writers.\<close>

definition mergeBatch :: "(writers \<Rightarrow> writers) \<Rightarrow> (string \<times> 's patch) list \<Rightarrow> 's \<Rightarrow> go_error + 's" where
  "mergeBatch iter rs st =
     (case note_results rs [] of
        Inl e \<Rightarrow> Inl e
      | Inr ws \<Rightarrow>
          (case pick_conflict None (iter ws) of
             Some (name, nodes) \<Rightarrow> Inl (WriteConflictError name nodes)
           | None \<Rightarrow> Inr (foldl apply_patch st (sort_key fst rs))))"

section \<open>The loop\<close>

definition readyBatch :: "'s wnode list \<Rightarrow> (string \<Rightarrow> int) \<Rightarrow> 's wnode list" where
  "readyBatch pending remaining = sort_key w_ID (filter (\<lambda>n. remaining (w_ID n) = 0) pending)"

definition finish_batch :: "gnode list \<Rightarrow> 's wnode list \<Rightarrow> (string \<Rightarrow> int) \<Rightarrow> (string \<Rightarrow> int)" where
  "finish_batch g batch remaining =
     foldl (\<lambda>m n. foldl (\<lambda>m d. m(d := m d - 1)) m (downstream_of g (w_ID n))) remaining batch"

text \<open>
  How an execution meets its surroundings, by the number of the iteration: the error of the context
  at the top of the loop, and how the batch ended.
\<close>

record 's surroundings =
  su_ctx :: "nat \<Rightarrow> go_error option"
  su_batch :: "nat \<Rightarrow> 's \<Rightarrow> 's wnode list \<Rightarrow> go_error option \<times> 's outcome list"
  su_iter :: "nat \<Rightarrow> writers \<Rightarrow> writers"

definition run_batch :: "'s surroundings \<Rightarrow> nat \<Rightarrow> 's wnode list \<Rightarrow> 's \<Rightarrow> go_error + 's" where
  "run_batch su k batch st =
     (case su_batch su k st batch of
        (ctx, results) \<Rightarrow>
          (case batch_result ctx (zip (map w_ID batch) results) of
             Inl e \<Rightarrow> Inl e
           | Inr ps \<Rightarrow> mergeBatch (su_iter su k) ps st))"

fun execute_loop :: "'s surroundings \<Rightarrow> gnode list \<Rightarrow> nat \<Rightarrow> nat \<Rightarrow> 's wnode list \<Rightarrow> (string \<Rightarrow> int) \<Rightarrow> 's
      \<Rightarrow> ('s \<times> go_error option) option" where
  "execute_loop su g fuel k [] remaining st = Some (st, None)"
| "execute_loop su g 0 k (n # pending) remaining st = None"
| "execute_loop su g (Suc fuel) k (n # pending) remaining st =
     (case su_ctx su k of
        Some e \<Rightarrow> Some (st, Some (Errorf ''workflow: %w'' [] (Some e)))
      | None \<Rightarrow>
          (let batch = readyBatch (n # pending) remaining in
           if length batch = 0 then
             Some (st, Some (ErrNew ''workflow: internal: no ready nodes in a validated graph''))
           else case run_batch su k batch st of
             Inl e \<Rightarrow> Some (st, Some e)
           | Inr st' \<Rightarrow>
               execute_loop su g fuel (Suc k)
                 (filter (\<lambda>p. w_ID p \<notin> w_ID ` set batch) (n # pending))
                 (finish_batch g batch remaining) st'))"

definition execute :: "'s surroundings \<Rightarrow> 's workflow \<Rightarrow> 's \<Rightarrow> ('s \<times> go_error option) option" where
  "execute su w initial =
     (let g = wgraph (wf_nodes w) in
      execute_loop su g (length (wf_nodes w)) 0 (wf_nodes w) (in_degree_of g) initial)"

text \<open>\<open>Run\<close>; \<open>ctx0\<close> is the error of the context on entry.\<close>

definition wf_Run :: "go_error option \<Rightarrow> 's surroundings \<Rightarrow> 's workflow \<Rightarrow> 's \<Rightarrow> ('s \<times> go_error option) option" where
  "wf_Run ctx0 su w initial =
     (case ctx0 of
        Some e \<Rightarrow> Some (initial, Some (Errorf ''workflow: %w'' [] (Some e)))
      | None \<Rightarrow> if length (wf_nodes w) = 0 then Some (initial, None) else execute su w initial)"

section \<open>Adapting a runner\<close>

definition WfErrInterruptedRunner :: go_error where
  "WfErrInterruptedRunner = ErrNew ''workflow.ErrInterruptedRunner''"

definition ErrNilRequest :: go_error where
  "ErrNilRequest = ErrNew ''workflow: request mapper returned a nil request''"

definition ErrNilResponse :: go_error where
  "ErrNilResponse = ErrNew ''workflow: runner returned a nil response''"

text \<open>The answers of the external runner are a relation in the context, the request and the answer.\<close>

inductive AdaptRunner :: "(go_error option \<Rightarrow> ('m, 'o, 'd) run_request \<Rightarrow> go_error + ('m, 'u, 'd) run_response option \<Rightarrow> bool)
      \<Rightarrow> ('s \<Rightarrow> go_error + ('m, 'o, 'd) run_request option)
      \<Rightarrow> ('s \<Rightarrow> ('m, 'u, 'd) run_response \<Rightarrow> 's outcome)
      \<Rightarrow> go_error option \<Rightarrow> 's \<Rightarrow> 's outcome \<Rightarrow> bool"
  for runner toRequest toPatch ctx snap where
  request_error: "toRequest snap = Inl e \<Longrightarrow> AdaptRunner runner toRequest toPatch ctx snap (Inl e)"
| nil_request: "toRequest snap = Inr None \<Longrightarrow>
    AdaptRunner runner toRequest toPatch ctx snap (Inl ErrNilRequest)"
| runner_error: "toRequest snap = Inr (Some req) \<Longrightarrow> runner ctx req (Inl e) \<Longrightarrow>
    AdaptRunner runner toRequest toPatch ctx snap (Inl e)"
| nil_response: "toRequest snap = Inr (Some req) \<Longrightarrow> runner ctx req (Inr None) \<Longrightarrow>
    AdaptRunner runner toRequest toPatch ctx snap (Inl ErrNilResponse)"
| interrupted: "toRequest snap = Inr (Some req) \<Longrightarrow> runner ctx req (Inr (Some resp)) \<Longrightarrow> r_interrupted resp \<Longrightarrow>
    AdaptRunner runner toRequest toPatch ctx snap
      (Inl (Errorf ''workflow: %w'' [] (Some WfErrInterruptedRunner)))"
| mapped: "toRequest snap = Inr (Some req) \<Longrightarrow> runner ctx req (Inr (Some resp)) \<Longrightarrow> \<not> r_interrupted resp \<Longrightarrow>
    AdaptRunner runner toRequest toPatch ctx snap (toPatch snap resp)"

end
