(* ===== verification/WorkflowMerge.thy ===== *)
theory WorkflowMerge
  imports Workflow
begin

text \<open>
  Merging the patches of a batch: the conflict check is exact, its answer does not depend on the
  order in which Go visits the map of writers, and, for setters that touch only their own field, the
  merged state does not depend on the order of the writes.
\<close>

section \<open>The conflict that is reported\<close>

lemma nodesLess_iff: "nodesLess as bs \<longleftrightarrow> as < bs"
proof (induction as bs rule: nodesLess.induct)
  case (1 bs)
  then show ?case by (cases bs) simp_all
qed auto

definition candidates :: "writers \<Rightarrow> (string \<times> string list) list" where
  "candidates ws = map (\<lambda>(k, name, nodes). (name, sort nodes)) (filter (\<lambda>(k, name, nodes). 2 \<le> length nodes) ws)"

lemma pick_conflict_Some: "pick_conflict (Some a) ws = Some (Min (insert a (set (candidates ws))))"
proof (induction ws arbitrary: a)
  case Nil
  then show ?case by (simp add: candidates_def)
next
  case (Cons w ws)
  obtain k name nodes where w: "w = (k, name, nodes)" by (metis prod_cases3)
  show ?case
  proof (cases "length nodes < 2")
    case True
    then show ?thesis using Cons w by (simp add: candidates_def)
  next
    case False
    let ?c = "(name, sort nodes)"
    have c: "candidates (w # ws) = ?c # candidates ws" using False w by (simp add: candidates_def)
    have "(name < fst a \<or> name = fst a \<and> nodesLess (sort nodes) (snd a)) \<longleftrightarrow> ?c < a"
      by (auto simp: nodesLess_iff less_prod_def)
    then have "pick_conflict (Some a) (w # ws) = pick_conflict (Some (min ?c a)) ws"
      using False w by (auto simp: Let_def min_def not_less)
    also have "\<dots> = Some (Min (insert (min ?c a) (set (candidates ws))))" by (rule Cons)
    also have "Min (insert (min ?c a) (set (candidates ws))) = Min (insert a (insert ?c (set (candidates ws))))"
      by (cases "candidates ws = []") (simp_all add: min.left_commute min.commute)
    finally show ?thesis by (simp add: c)
  qed
qed

lemma pick_conflict_None:
  "pick_conflict None ws = (if candidates ws = [] then None else Some (Min (set (candidates ws))))"
proof (induction ws)
  case (Cons w ws)
  obtain k name nodes where w: "w = (k, name, nodes)" by (metis prod_cases3)
  show ?case
  proof (cases "length nodes < 2")
    case True
    then show ?thesis using Cons w by (simp add: candidates_def)
  next
    case False
    then have "candidates (w # ws) = (name, sort nodes) # candidates ws" using w by (simp add: candidates_def)
    then show ?thesis using False w pick_conflict_Some by (simp add: Let_def)
  qed
qed (simp add: candidates_def)

lemma candidates_mset: "mset ws = mset ws' \<Longrightarrow> mset (candidates ws) = mset (candidates ws')"
  by (simp add: candidates_def)

lemma pick_conflict_iter:
  assumes "mset (iter ws) = mset ws"
  shows "pick_conflict None (iter ws) = pick_conflict None ws"
proof -
  have "mset (candidates (iter ws)) = mset (candidates ws)" using assms by (rule candidates_mset)
  then have "set (candidates (iter ws)) = set (candidates ws)" by (rule mset_eq_setD)
  then show ?thesis unfolding pick_conflict_None by (metis set_empty)
qed

section \<open>Who writes what\<close>

definition writers_of :: "nat \<Rightarrow> writers \<Rightarrow> string list" where
  "writers_of k ws = (case map_of ws k of None \<Rightarrow> [] | Some (name, nodes) \<Rightarrow> nodes)"

definition writes :: "(string \<times> 's patch) list \<Rightarrow> nat option list" where
  "writes rs = concat (map (\<lambda>r. map ch_id (snd r)) rs)"

lemma add_writer_keys: "fst ` set (add_writer k name i ws) = insert k (fst ` set ws)"
  by (induction k name i ws rule: add_writer.induct) auto

lemma add_writer_distinct: "distinct (map fst ws) \<Longrightarrow> distinct (map fst (add_writer k name i ws))"
proof (induction k name i ws rule: add_writer.induct)
  case (2 k name i k' name' nodes ws)
  have "k \<noteq> k' \<Longrightarrow> k' \<notin> fst ` set (add_writer k name i ws)"
    using 2(2) by (simp add: add_writer_keys)
  then show ?case using 2 by auto
qed simp

lemma writers_of_add:
  "writers_of j (add_writer k name i ws) = (if j = k then writers_of j ws @ [i] else writers_of j ws)"
  by (induction k name i ws rule: add_writer.induct) (auto simp: writers_of_def)

lemma note_changes_Inr:
  "note_changes i seen chs ws = Inr ws' \<Longrightarrow> distinct (map fst ws) \<Longrightarrow>
   distinct (map fst ws') \<and> None \<notin> set (map ch_id chs) \<and> distinct (map ch_id chs) \<and>
   Some ` set seen \<inter> set (map ch_id chs) = {} \<and>
   (\<forall>k. writers_of k ws' = writers_of k ws @ (if Some k \<in> set (map ch_id chs) then [i] else []))"
proof (induction i seen chs ws rule: note_changes.induct)
  case (2 i seen ch chs ws)
  obtain k where k: "ch_id ch = Some k" using 2(2) by (cases "ch_id ch") auto
  then have s: "k \<notin> set seen" and r: "note_changes i (k # seen) chs (add_writer k (ch_name ch) i ws) = Inr ws'"
    using 2(2) by (auto split: if_splits)
  have d: "distinct (map fst (add_writer k (ch_name ch) i ws))" using 2(3) by (rule add_writer_distinct)
  note ih = 2(1) [OF k s r d]
  have "Some k \<notin> set (map ch_id chs)" using ih by auto
  then show ?case using ih k s by (auto simp: writers_of_add)
qed simp

lemma note_changes_Inl:
  "note_changes i seen chs ws = Inl e \<Longrightarrow>
   None \<in> set (map ch_id chs) \<or> \<not> distinct (map ch_id chs) \<or> Some ` set seen \<inter> set (map ch_id chs) \<noteq> {}"
proof (induction i seen chs ws rule: note_changes.induct)
  case (2 i seen ch chs ws)
  show ?case
  proof (cases "ch_id ch")
    case (Some k)
    show ?thesis
    proof (cases "k \<in> set seen")
      case False
      then have "note_changes i (k # seen) chs (add_writer k (ch_name ch) i ws) = Inl e"
        using 2(2) Some by simp
      from 2(1) [OF Some False this] show ?thesis using Some by auto
    qed (use Some in auto)
  qed auto
qed simp

lemma note_results_Inr:
  "note_results rs ws = Inr ws' \<Longrightarrow> distinct (map fst ws) \<Longrightarrow>
   distinct (map fst ws') \<and> None \<notin> set (writes rs) \<and> (\<forall>r\<in>set rs. distinct (map ch_id (snd r))) \<and>
   (\<forall>k. writers_of k ws' =
      writers_of k ws @ map fst (filter (\<lambda>r. Some k \<in> set (map ch_id (snd r))) rs))"
proof (induction rs ws rule: note_results.induct)
  case (2 i p rs ws)
  obtain ws1 where c: "note_changes i [] p ws = Inr ws1" and r: "note_results rs ws1 = Inr ws'"
    using 2(2) by (auto split: sum.splits)
  note f = note_changes_Inr [OF c 2(3)]
  have "distinct (map fst ws1)" using f by blast
  note ih = 2(1) [OF c r this]
  have "None \<notin> set (writes ((i, p) # rs))" using f ih by (auto simp: writes_def)
  moreover have "writers_of k ws' =
      writers_of k ws @ map fst (filter (\<lambda>r. Some k \<in> set (map ch_id (snd r))) ((i, p) # rs))" for k
    using f ih by simp
  ultimately show ?case using f ih by simp
qed (simp add: writes_def)

lemma note_results_Inl:
  "note_results rs ws = Inl e \<Longrightarrow> None \<in> set (writes rs) \<or> \<not> distinct (writes rs)"
proof (induction rs ws rule: note_results.induct)
  case (2 i p rs ws)
  show ?case
  proof (cases "note_changes i [] p ws")
    case (Inl e')
    from note_changes_Inl [OF this] show ?thesis by (auto simp: writes_def)
  next
    case (Inr ws1)
    then have "note_results rs ws1 = Inl e" using 2(2) by simp
    from 2(1) [OF Inr this] show ?thesis by (auto simp: writes_def)
  qed
qed simp

lemma distinct_writes_iff:
  assumes "\<forall>r\<in>set rs. distinct (map ch_id (snd r))" and "None \<notin> set (writes rs)"
  shows "distinct (writes rs) \<longleftrightarrow> (\<forall>k. length (filter (\<lambda>r. Some k \<in> set (map ch_id (snd r))) rs) < 2)"
  using assms
proof (induction rs)
  case (Cons r rs)
  let ?n = "\<lambda>k rs. length (filter (\<lambda>r. Some k \<in> set (map ch_id (snd r))) rs)"
  have ih: "distinct (writes rs) \<longleftrightarrow> (\<forall>k. ?n k rs < 2)" using Cons by (simp add: writes_def)
  have zero: "?n k rs = 0 \<longleftrightarrow> Some k \<notin> set (writes rs)" for k
    by (auto simp: writes_def filter_empty_conv)
  have split: "distinct (writes (r # rs)) \<longleftrightarrow> distinct (writes rs) \<and> set (map ch_id (snd r)) \<inter> set (writes rs) = {}"
    using Cons.prems(1) by (auto simp: writes_def)
  have "None \<notin> set (map ch_id (snd r))" using Cons.prems(2) by (auto simp: writes_def)
  then have disj: "set (map ch_id (snd r)) \<inter> set (writes rs) = {} \<longleftrightarrow>
      (\<forall>k. Some k \<in> set (map ch_id (snd r)) \<longrightarrow> ?n k rs = 0)"
    unfolding zero by (metis disjoint_iff option.exhaust)
  show ?case unfolding split disj ih
  proof (intro iffI allI)
    fix k assume "(\<forall>k. ?n k rs < 2) \<and> (\<forall>k. Some k \<in> set (map ch_id (snd r)) \<longrightarrow> ?n k rs = 0)"
    then show "?n k (r # rs) < 2" by (cases "Some k \<in> set (map ch_id (snd r))") auto
  next
    assume a: "\<forall>k. ?n k (r # rs) < 2"
    have "?n k rs < 2 \<and> (Some k \<in> set (map ch_id (snd r)) \<longrightarrow> ?n k rs = 0)" for k
      using a [rule_format, of k] by (cases "Some k \<in> set (map ch_id (snd r))") auto
    then show "(\<forall>k. ?n k rs < 2) \<and> (\<forall>k. Some k \<in> set (map ch_id (snd r)) \<longrightarrow> ?n k rs = 0)" by blast
  qed
qed (simp add: writes_def)

lemma candidates_Nil:
  assumes "distinct (map fst ws)"
  shows "candidates ws = [] \<longleftrightarrow> (\<forall>k. length (writers_of k ws) < 2)"
proof -
  have "length (writers_of k ws) < 2" if "candidates ws = []" for k
  proof (cases "map_of ws k")
    case (Some w)
    then have "(k, w) \<in> set ws" by (rule map_of_SomeD)
    then show ?thesis using that Some by (cases w) (force simp: candidates_def writers_of_def filter_empty_conv)
  qed (simp add: writers_of_def)
  moreover have "length nodes < 2" if "\<forall>k. length (writers_of k ws) < 2" "(k, name, nodes) \<in> set ws" for k name nodes
  proof -
    have "map_of ws k = Some (name, nodes)" using that(2) assms by (simp add: map_of_is_SomeI)
    then show ?thesis using that(1) [rule_format, of k] by (simp add: writers_of_def)
  qed
  then have "candidates ws = []" if "\<forall>k. length (writers_of k ws) < 2"
    using that unfolding candidates_def by (fastforce simp: filter_empty_conv)
  ultimately show ?thesis by blast
qed

lemma mergeBatch_Inr:
  assumes "\<And>ws. mset (iter ws) = mset ws"
  shows "(\<exists>st'. mergeBatch iter rs st = Inr st') \<longleftrightarrow> None \<notin> set (writes rs) \<and> distinct (writes rs)"
proof (cases "note_results rs []")
  case (Inl e)
  then show ?thesis using note_results_Inl [OF Inl] by (auto simp: mergeBatch_def)
next
  case (Inr ws)
  have f: "distinct (map fst ws)" "None \<notin> set (writes rs)" "\<forall>r\<in>set rs. distinct (map ch_id (snd r))"
    "\<And>k. length (writers_of k ws) = length (filter (\<lambda>r. Some k \<in> set (map ch_id (snd r))) rs)"
    using note_results_Inr [OF Inr] by (simp_all add: writers_of_def)
  have "candidates ws = [] \<longleftrightarrow> distinct (writes rs)"
    unfolding candidates_Nil [OF f(1)] distinct_writes_iff [OF f(3,2)] f(4) ..
  moreover have "pick_conflict None (iter ws) =
      (if candidates ws = [] then None else Some (Min (set (candidates ws))))"
    using pick_conflict_iter [of iter, OF assms] pick_conflict_None by metis
  ultimately show ?thesis using f(2) Inr by (auto simp: mergeBatch_def split: prod.splits)
qed

lemma mergeBatch_iter:
  assumes "\<And>ws. mset (iter ws) = mset ws"
  shows "mergeBatch iter rs st = mergeBatch (\<lambda>ws. ws) rs st"
  unfolding mergeBatch_def pick_conflict_iter [of iter, OF assms] ..

section \<open>The properties\<close>

text \<open>
  The conflict check is exact: the patches of a batch are merged if and only if every change
  names a field and no field is written twice, be it by two nodes or twice by one; and whether they
  are, into which state, and which conflict is reported otherwise does not depend on the order in
  which Go visits the map of writers.
\<close>

theorem merge_conflict_exact:
  assumes "\<And>ws. mset (iter ws) = mset ws"
  shows "((\<exists>st'. mergeBatch iter rs st = Inr st') \<longleftrightarrow> None \<notin> set (writes rs) \<and> distinct (writes rs)) \<and>
    mergeBatch iter rs st = mergeBatch (\<lambda>ws. ws) rs st"
  by (intro conjI mergeBatch_Inr [OF assms] mergeBatch_iter [OF assms])

definition write_to :: "nat \<Rightarrow> string \<Rightarrow> int \<Rightarrow> (nat \<Rightarrow> int) change" where
  "write_to k name v = \<lparr>ch_id = Some k, ch_name = name, ch_apply = (\<lambda>s. s(k := v))\<rparr>"

theorem merge_conflict_exact_witness:
  "mergeBatch rev [(''b'', [write_to 1 ''x'' 5, write_to 2 ''y'' 6]), (''a'', [write_to 1 ''x'' 7])] (\<lambda>_. 0) =
     mergeBatch (\<lambda>ws. ws) [(''b'', [write_to 1 ''x'' 5, write_to 2 ''y'' 6]), (''a'', [write_to 1 ''x'' 7])] (\<lambda>_. 0)"
  by (rule merge_conflict_exact [THEN conjunct2]) simp

lemma foldl_apply_patch:
  "foldl apply_patch st rs = foldl (\<lambda>s ch. ch_apply ch s) st (concat (map snd rs))"
  by (induction rs arbitrary: st) (simp_all add: apply_patch_def)

lemma foldl_commuting:
  assumes "mset xs = mset ys" and "\<And>x y s. x \<in> set xs \<Longrightarrow> y \<in> set xs \<Longrightarrow> f (f s x) y = f (f s y) x"
  shows "foldl f s xs = foldl f s ys"
proof -
  have "fold (\<lambda>x s. f s x) xs = fold (\<lambda>x s. f s x) ys"
    using assms(2) by (intro fold_multiset_equiv [OF _ assms(1)]) (auto simp: fun_eq_iff)
  then show ?thesis by (simp add: foldl_conv_fold)
qed

text \<open>
  Commit order is irrelevant: when the setters of different fields commute, which they do when
  each touches only its own field, the state a merge commits is the one that applying all the
  changes of the batch in any order gives.
\<close>

theorem merge_order_irrelevant:
  assumes "mergeBatch iter rs st = Inr st'" and "\<And>ws. mset (iter ws) = mset ws"
    and "\<And>c d s. c \<in> set (concat (map snd rs)) \<Longrightarrow> d \<in> set (concat (map snd rs)) \<Longrightarrow> ch_id c \<noteq> ch_id d \<Longrightarrow>
      ch_apply c (ch_apply d s) = ch_apply d (ch_apply c s)"
    and "mset chs = mset (concat (map snd rs))"
  shows "st' = foldl (\<lambda>s ch. ch_apply ch s) st chs"
proof -
  let ?all = "concat (map snd (sort_key fst rs))"
  have st': "st' = foldl (\<lambda>s ch. ch_apply ch s) st ?all"
    using assms(1) by (simp add: mergeBatch_def foldl_apply_patch split: sum.splits option.splits prod.splits)
  have m: "mset ?all = mset (concat (map snd rs))"
    by (simp add: mset_concat flip: sum_mset_sum_list)
  have "\<exists>st'. mergeBatch iter rs st = Inr st'" using assms(1) by (rule exI)
  then have "None \<notin> set (writes rs) \<and> distinct (writes rs)"
    unfolding mergeBatch_Inr [of iter rs st, OF assms(2)] .
  then have "distinct (writes rs)" ..
  moreover have "writes rs = map ch_id (concat (map snd rs))" by (simp add: writes_def map_concat comp_def)
  ultimately have inj: "inj_on ch_id (set (concat (map snd rs)))" by (simp add: distinct_map)
  have "foldl (\<lambda>s ch. ch_apply ch s) st ?all = foldl (\<lambda>s ch. ch_apply ch s) st chs"
  proof (rule foldl_commuting)
    show "mset ?all = mset chs" using m assms(4) by simp
    fix c d s assume "c \<in> set ?all" "d \<in> set ?all"
    moreover have "set ?all = set (concat (map snd rs))" using m by (rule mset_eq_setD)
    ultimately have cd: "c \<in> set (concat (map snd rs))" "d \<in> set (concat (map snd rs))"
      by simp_all
    then show "ch_apply d (ch_apply c s) = ch_apply c (ch_apply d s)"
      using assms(3) inj by (metis inj_onD)
  qed
  then show ?thesis using st' by simp
qed

theorem merge_order_irrelevant_witness:
  "foldl apply_patch (\<lambda>_. 0) [(''a'', [write_to 1 ''x'' 7]), (''b'', [write_to 2 ''y'' 6])] =
     foldl (\<lambda>s ch. ch_apply ch s) (\<lambda>_. 0) [write_to 2 ''y'' 6, write_to 1 ''x'' 7]"
proof (rule merge_order_irrelevant [where iter = "\<lambda>ws. ws"])
  let ?rs = "[(''b'', [write_to 2 ''y'' 6]), (''a'', [write_to 1 ''x'' 7])]"
  have "note_results ?rs [] = Inr [(2, ''y'', [''b'']), (1, ''x'', [''a''])]" by (simp add: write_to_def)
  moreover have "sort_key fst ?rs = [(''a'', [write_to 1 ''x'' 7]), (''b'', [write_to 2 ''y'' 6])]" by simp
  ultimately show "mergeBatch (\<lambda>ws. ws) ?rs (\<lambda>_. 0) =
      Inr (foldl apply_patch (\<lambda>_. 0) [(''a'', [write_to 1 ''x'' 7]), (''b'', [write_to 2 ''y'' 6])])"
    by (simp add: mergeBatch_def)
qed (auto simp: write_to_def fun_upd_twist)


end
