(* ===== verification/WorkflowProps.thy ===== *)
theory WorkflowProps
  imports WorkflowMerge
begin

text \<open>
  The theorems on the workflow engine: merging is exact and does not depend on the order of anything
  that Go leaves open; the loop runs the levels of the graph; and an execution with deterministic
  nodes has the outcome of a sequential reference, for every schedule and every concurrency limit.
\<close>

section \<open>Validated graphs\<close>

lemma node_ids_wgraph [simp]: "node_ids (wgraph nodes) = map w_ID nodes"
  by (simp add: wgraph_def)

lemma length_wgraph [simp]: "length (wgraph nodes) = length nodes"
  by (simp add: wgraph_def)

lemma wgraph_mem: "(i, ds) \<in> set (wgraph nodes) \<longleftrightarrow> (\<exists>n\<in>set nodes. i = w_ID n \<and> ds = w_Deps n)"
  by (auto simp: wgraph_def)

lemma check_nodes_None:
  "check_nodes seen ns = None \<longleftrightarrow>
     distinct (map w_ID ns) \<and> set seen \<inter> w_ID ` set ns = {} \<and>
     (\<forall>n\<in>set ns. w_ID n \<noteq> '''' \<and> w_Run n \<noteq> None)"
  by (induction seen ns rule: check_nodes.induct) (auto simp: is_nil_def split: option.splits)

lemma wf_detectCycle_None: "wf_detectCycle nodes = None \<longleftrightarrow> acyclic (dep_edges (wgraph nodes))"
  using detect_cycle_iff [of "wgraph nodes"] detect_cycle_terminates [of "wgraph nodes"]
  by (auto simp: wf_detectCycle_def split: option.splits sum.splits)

lemma validateNodes_None:
  assumes "validateNodes nodes = None"
  shows "valid_graph (wgraph nodes)" and "\<forall>n\<in>set nodes. w_Run n \<noteq> None"
proof -
  have "valid_graph (wgraph nodes) \<and> (\<forall>n\<in>set nodes. w_Run n \<noteq> None)"
  proof (cases "nodes = []")
    case True
    then show ?thesis by (simp add: wgraph_def valid_graph_def deps_known_def dep_edges_def acyclic_def)
  next
    case False
    then have "check_nodes [] nodes = None" "first_unknown_dep (map w_ID nodes) (wgraph nodes) = None"
      "wf_detectCycle nodes = None"
      using assms by (auto simp: validateNodes_def split: option.splits)
    then show ?thesis
      by (auto simp: valid_graph_def check_nodes_None first_unknown_dep_None wf_detectCycle_None deps_known_def)
  qed
  then show "valid_graph (wgraph nodes)" and "\<forall>n\<in>set nodes. w_Run n \<noteq> None" by auto
qed

lemma wf_New_Inr:
  assumes "wf_New nodes limit = Inr w"
  shows "wf_nodes w = nodes" and "wf_maxConcurrency w = limit" and "0 \<le> limit"
    and "valid_graph (wgraph nodes)"
  using assms validateNodes_None [of nodes]
  by (auto simp: wf_New_def split: if_splits option.splits)

section \<open>Levels\<close>

text \<open>
  The reference for the loop: the nodes whose dependencies are done, by ascending identifier, then
  the rest.
\<close>

fun levels :: "nat \<Rightarrow> string list \<Rightarrow> 's wnode list \<Rightarrow> 's wnode list list" where
  "levels k dn [] = []"
| "levels 0 dn (n # pending) = []"
| "levels (Suc k) dn (n # pending) =
     (let batch = sort_key w_ID (filter (\<lambda>n. set (w_Deps n) \<subseteq> set dn) (n # pending)) in
      batch # levels k (map w_ID batch @ dn) (filter (\<lambda>p. w_ID p \<notin> w_ID ` set batch) (n # pending)))"

fun run_levels :: "'s surroundings \<Rightarrow> nat \<Rightarrow> 's wnode list list \<Rightarrow> 's \<Rightarrow> 's \<times> go_error option" where
  "run_levels su k [] st = (st, None)"
| "run_levels su k (batch # bs) st =
     (case su_ctx su k of
        Some e \<Rightarrow> (st, Some (Errorf ''workflow: %w'' [] (Some e)))
      | None \<Rightarrow>
          (case run_batch su k batch st of
             Inl e \<Rightarrow> (st, Some e)
           | Inr st' \<Rightarrow> run_levels su (Suc k) bs st'))"

text \<open>What the loop keeps: the nodes pending and done, and the open dependencies of each.\<close>

definition loop_inv :: "'s wnode list \<Rightarrow> string list \<Rightarrow> 's wnode list \<Rightarrow> (string \<Rightarrow> int) \<Rightarrow> bool" where
  "loop_inv nodes dn pending remaining \<longleftrightarrow>
     distinct (map w_ID pending) \<and> set pending \<subseteq> set nodes \<and>
     set dn = w_ID ` set nodes - w_ID ` set pending \<and>
     (\<forall>n\<in>set nodes. remaining (w_ID n) = open_deps (set dn) (w_Deps n))"

lemma loop_inv_start:
  assumes "valid_graph (wgraph nodes)"
  shows "loop_inv nodes [] nodes (in_degree_of (wgraph nodes))"
proof -
  have d: "distinct (node_ids (wgraph nodes))" using assms by (simp add: valid_graph_def)
  have "in_degree_of (wgraph nodes) (w_ID n) = int (length (w_Deps n))" if "n \<in> set nodes" for n
    using that d by (intro in_degree_of_node) (auto simp: wgraph_mem)
  then show ?thesis using d by (simp add: loop_inv_def)
qed

lemma foldl_dec: "foldl (\<lambda>m d. m(d := m d - 1)) m ds x = m x - int (count_list ds x)"
  by (induction ds arbitrary: m) auto

lemma finish_batch_eq:
  assumes "distinct (map w_ID nodes)" and "n \<in> set nodes" and "distinct (map w_ID batch)"
    and "set S \<inter> w_ID ` set batch = {}" and "m (w_ID n) = open_deps (set S) (w_Deps n)"
  shows "finish_batch (wgraph nodes) batch m (w_ID n) = open_deps (set (map w_ID batch @ S)) (w_Deps n)"
  using assms(3-5)
proof (induction batch arbitrary: m S)
  case Nil
  then show ?case by (simp add: finish_batch_def)
next
  case (Cons b batch)
  let ?m = "foldl (\<lambda>m d. m(d := m d - 1)) m (downstream_of (wgraph nodes) (w_ID b))"
  have "(w_ID n, w_Deps n) \<in> set (wgraph nodes)" using assms(2) by (auto simp: wgraph_mem)
  then have "count_list (downstream_of (wgraph nodes) (w_ID b)) (w_ID n) = count_list (w_Deps n) (w_ID b)"
    using assms(1) by (intro count_downstream_deps) simp_all
  moreover have "w_ID b \<notin> set S" using Cons.prems(2) by auto
  ultimately have "?m (w_ID n) = open_deps (set (w_ID b # S)) (w_Deps n)"
    using Cons.prems(3) by (simp add: foldl_dec open_deps_insert)
  then have "finish_batch (wgraph nodes) batch ?m (w_ID n) =
      open_deps (set (map w_ID batch @ w_ID b # S)) (w_Deps n)"
    using Cons.prems by (intro Cons.IH) auto
  then show ?case by (simp add: finish_batch_def)
qed

lemma readyBatch_levels:
  assumes "loop_inv nodes dn pending remaining"
  shows "readyBatch pending remaining = sort_key w_ID (filter (\<lambda>n. set (w_Deps n) \<subseteq> set dn) pending)"
proof -
  have "remaining (w_ID n) = 0 \<longleftrightarrow> set (w_Deps n) \<subseteq> set dn" if "n \<in> set pending" for n
  proof -
    have "remaining (w_ID n) = open_deps (set dn) (w_Deps n)" using assms that unfolding loop_inv_def by blast
    then show ?thesis by (simp only: open_deps_zero)
  qed
  then have "filter (\<lambda>n. remaining (w_ID n) = 0) pending = filter (\<lambda>n. set (w_Deps n) \<subseteq> set dn) pending"
    by (intro filter_cong) simp_all
  then show ?thesis by (simp add: readyBatch_def)
qed

lemma some_ready:
  assumes v: "valid_graph (wgraph nodes)" and inv: "loop_inv nodes dn pending remaining" and ne: "pending \<noteq> []"
  shows "\<exists>n\<in>set pending. set (w_Deps n) \<subseteq> set dn"
proof (rule ccontr)
  assume none: "\<not> ?thesis"
  let ?A = "w_ID ` set pending"
  have "\<forall>x\<in>?A. \<exists>y\<in>?A. (y, x) \<in> dep_edges (wgraph nodes)"
  proof
    fix x assume "x \<in> ?A"
    then obtain n where n: "n \<in> set pending" "x = w_ID n" by blast
    then obtain d where d: "d \<in> set (w_Deps n)" "d \<notin> set dn" using none by blast
    have nn: "n \<in> set nodes" using n inv by (auto simp: loop_inv_def)
    then have e: "(d, x) \<in> dep_edges (wgraph nodes)" using n d by (auto simp: dep_edges_def wgraph_mem)
    then have "d \<in> w_ID ` set nodes" using v dep_edges_source [of "wgraph nodes" d x]
      by (simp add: valid_graph_def)
    then have "d \<in> ?A" using d(2) inv by (auto simp: loop_inv_def)
    then show "\<exists>y\<in>?A. (y, x) \<in> dep_edges (wgraph nodes)" using e by blast
  qed
  moreover have "finite ?A" "?A \<noteq> {}" using ne by auto
  ultimately have "\<not> acyclic (dep_edges (wgraph nodes))" by (intro finite_pred_cycle)
  then show False using v by (simp add: valid_graph_def)
qed

lemma loop_inv_step:
  assumes v: "valid_graph (wgraph nodes)" and inv: "loop_inv nodes dn pending remaining"
    and b: "batch = readyBatch pending remaining"
  shows "loop_inv nodes (map w_ID batch @ dn) (filter (\<lambda>p. w_ID p \<notin> w_ID ` set batch) pending)
    (finish_batch (wgraph nodes) batch remaining)"
proof -
  have bs: "set batch \<subseteq> set pending" unfolding b readyBatch_def by auto
  have d: "distinct (map w_ID nodes)" using v by (simp add: valid_graph_def)
  have inv': "distinct (map w_ID pending)" "set pending \<subseteq> set nodes"
    "set dn = w_ID ` set nodes - w_ID ` set pending"
    "\<And>n. n \<in> set nodes \<Longrightarrow> remaining (w_ID n) = open_deps (set dn) (w_Deps n)"
    using inv unfolding loop_inv_def by blast+
  have db: "distinct (map w_ID batch)"
  proof -
    have "mset batch = mset (filter (\<lambda>n. remaining (w_ID n) = 0) pending)" unfolding b readyBatch_def by simp
    then have "mset (map w_ID batch) = mset (map w_ID (filter (\<lambda>n. remaining (w_ID n) = 0) pending))"
      by (metis mset_map)
    moreover have "distinct (map w_ID (filter (\<lambda>n. remaining (w_ID n) = 0) pending))"
      using inv'(1) by (rule distinct_map_filter)
    ultimately show ?thesis by (metis mset_eq_imp_distinct_iff)
  qed
  have disj: "set dn \<inter> w_ID ` set batch = {}" using inv'(3) bs by auto
  have "finish_batch (wgraph nodes) batch remaining (w_ID n) = open_deps (set (map w_ID batch @ dn)) (w_Deps n)"
    if "n \<in> set nodes" for n
    by (rule finish_batch_eq [where m = remaining and S = dn, OF d that db disj inv'(4) [OF that]])
  moreover have "set (map w_ID batch @ dn) =
      w_ID ` set nodes - w_ID ` set (filter (\<lambda>p. w_ID p \<notin> w_ID ` set batch) pending)"
    using inv'(2,3) bs by auto
  moreover have "distinct (map w_ID (filter (\<lambda>p. w_ID p \<notin> w_ID ` set batch) pending))"
    using inv'(1) by (rule distinct_map_filter)
  ultimately show ?thesis using inv'(2) unfolding loop_inv_def by auto
qed

definition levels_ok :: "string list \<Rightarrow> 's wnode list \<Rightarrow> 's wnode list list \<Rightarrow> bool" where
  "levels_ok dn pending ls \<longleftrightarrow> mset (concat ls) = mset pending \<and> [] \<notin> set ls \<and>
     (\<forall>as b bs. ls = as @ b # bs \<longrightarrow> (\<forall>n\<in>set b. set (w_Deps n) \<subseteq> set dn \<union> w_ID ` set (concat as)))"

lemma levels_ok_Cons:
  assumes "levels_ok (map w_ID b @ dn) rest ls" and "b \<noteq> []" and "mset pending = mset b + mset rest"
    and "\<forall>n\<in>set b. set (w_Deps n) \<subseteq> set dn"
  shows "levels_ok dn pending (b # ls)"
proof -
  have "set (w_Deps n) \<subseteq> set dn \<union> w_ID ` set (concat as)"
    if "b # ls = as @ c # bs" "n \<in> set c" for as c bs n
  proof (cases as)
    case Nil
    then show ?thesis using that assms(4) by simp
  next
    case (Cons a as')
    then have "ls = as' @ c # bs" "a = b" using that(1) by simp_all
    then have "set (w_Deps n) \<subseteq> set (map w_ID b @ dn) \<union> w_ID ` set (concat as')"
      using assms(1) that(2) unfolding levels_ok_def by blast
    then show ?thesis using Cons \<open>a = b\<close> by auto
  qed
  then show ?thesis using assms(1-3) unfolding levels_ok_def by auto
qed

lemma partition_mset:
  assumes "distinct (map w_ID pending)" and "mset b = mset (filter P pending)"
  shows "mset pending = mset b + mset (filter (\<lambda>p. w_ID p \<notin> w_ID ` set b) pending)"
proof -
  have sb: "set b = set (filter P pending)" using assms(2) by (rule mset_eq_setD)
  have inj: "inj_on w_ID (set pending)" using assms(1) by (simp add: distinct_map)
  have "w_ID p \<notin> w_ID ` set b \<longleftrightarrow> \<not> P p" if "p \<in> set pending" for p
    using that sb inj by (auto simp: inj_on_def)
  then have "filter (\<lambda>p. w_ID p \<notin> w_ID ` set b) pending = filter (\<lambda>p. \<not> P p) pending"
    by (intro filter_cong) simp_all
  then show ?thesis using assms(2) by (simp add: multiset_partition)
qed

lemma execute_loop_levels:
  assumes v: "valid_graph (wgraph nodes)"
  shows "loop_inv nodes dn pending remaining \<Longrightarrow> length pending \<le> k \<Longrightarrow>
    levels_ok dn pending (levels k dn pending) \<and>
    execute_loop su (wgraph nodes) k j pending remaining st = Some (run_levels su j (levels k dn pending) st)"
proof (induction k arbitrary: dn pending remaining j st)
  case 0
  then show ?case by (simp add: levels_ok_def)
next
  case (Suc k)
  show ?case
  proof (cases pending)
    case Nil
    then show ?thesis by (simp add: levels_ok_def)
  next
    case (Cons p ps)
    define batch where "batch = readyBatch pending remaining"
    let ?rest = "filter (\<lambda>p. w_ID p \<notin> w_ID ` set batch) pending"
    let ?fin = "finish_batch (wgraph nodes) batch remaining"
    have b: "batch = sort_key w_ID (filter (\<lambda>n. set (w_Deps n) \<subseteq> set dn) pending)"
      unfolding batch_def using Suc.prems(1) by (rule readyBatch_levels)
    obtain n where n: "n \<in> set pending" "set (w_Deps n) \<subseteq> set dn"
      using some_ready [OF v Suc.prems(1)] Cons by blast
    then have nb: "n \<in> set batch" by (simp add: b)
    have inv: "loop_inv nodes (map w_ID batch @ dn) ?rest ?fin"
      using loop_inv_step [OF v Suc.prems(1) batch_def] .
    have "length ?rest < length pending" using n(1) nb by (intro length_filter_less) auto
    then have len: "length ?rest \<le> k" using Suc.prems(2) by simp
    have "distinct (map w_ID pending)" using Suc.prems(1) by (simp add: loop_inv_def)
    then have part: "mset pending = mset batch + mset ?rest"
      by (rule partition_mset [where P = "\<lambda>n. set (w_Deps n) \<subseteq> set dn"]) (simp add: b)
    have ls: "levels (Suc k) dn pending = batch # levels k (map w_ID batch @ dn) ?rest"
      using Cons b by (simp add: Let_def)
    have "levels_ok dn pending (levels (Suc k) dn pending)"
      unfolding ls
    proof (rule levels_ok_Cons [OF _ _ part])
      show "levels_ok (map w_ID batch @ dn) ?rest (levels k (map w_ID batch @ dn) ?rest)"
        using Suc.IH [OF inv len] by blast
      show "batch \<noteq> []" using nb by auto
      show "\<forall>n\<in>set batch. set (w_Deps n) \<subseteq> set dn" by (simp add: b)
    qed
    moreover have "length batch \<noteq> 0" using nb by auto
    then have "execute_loop su (wgraph nodes) (Suc k) j pending remaining st =
        (case su_ctx su j of
          Some e \<Rightarrow> Some (st, Some (Errorf ''workflow: %w'' [] (Some e)))
        | None \<Rightarrow> case run_batch su j batch st of
            Inl e \<Rightarrow> Some (st, Some e)
          | Inr st' \<Rightarrow> execute_loop su (wgraph nodes) k (Suc j) ?rest ?fin st')"
      using batch_def Cons by (cases "su_ctx su j"; cases "run_batch su j batch st") (simp_all add: Let_def)
    then have "execute_loop su (wgraph nodes) (Suc k) j pending remaining st =
        Some (run_levels su j (levels (Suc k) dn pending) st)"
      using Suc.IH [OF inv len] unfolding ls
      by (cases "su_ctx su j"; cases "run_batch su j batch st") simp_all
    ultimately show ?thesis by blast
  qed
qed

section \<open>The goroutines of a batch\<close>

text \<open>Nodes whose answer, while their context lives, is a function of the snapshot.\<close>

definition answers :: "('s wnode \<Rightarrow> 's \<Rightarrow> 's outcome) \<Rightarrow> 's wnode list \<Rightarrow> bool" where
  "answers f nodes \<longleftrightarrow>
     (\<forall>n\<in>set nodes. \<exists>run. w_Run n = Some run \<and> (\<forall>snap res. run None snap res \<longleftrightarrow> res = f n snap))"

definition settled_batch :: "('s wnode \<Rightarrow> 's \<Rightarrow> 's outcome) \<Rightarrow> 's \<Rightarrow> 's wnode list \<Rightarrow> 's batch_state \<Rightarrow> bool" where
  "settled_batch f snap batch b \<longleftrightarrow>
     (\<forall>i<length batch. \<forall>res. b_phases b ! i = Finished res \<longrightarrow> res = f (batch ! i) snap \<and> \<not> isl res)"

definition failed_batch :: "('s wnode \<Rightarrow> 's \<Rightarrow> 's outcome) \<Rightarrow> 's \<Rightarrow> 's wnode list \<Rightarrow> 's batch_state \<Rightarrow> bool" where
  "failed_batch f snap batch b \<longleftrightarrow>
     (\<exists>i<length batch. \<exists>e. b_phases b ! i = Finished (Inl e) \<and> f (batch ! i) snap = Inl e)"

definition batch_inv :: "('s wnode \<Rightarrow> 's \<Rightarrow> 's outcome) \<Rightarrow> 's \<Rightarrow> 's wnode list \<Rightarrow> 's batch_state \<Rightarrow> bool" where
  "batch_inv f snap batch b \<longleftrightarrow> length (b_phases b) = length batch \<and>
     (b_ctx b = None \<longrightarrow> (if b_cancel b = None then settled_batch f snap batch b else failed_batch f snap batch b))"

lemma failed_batch_update:
  assumes "failed_batch f snap batch b" and "length (b_phases b) = length batch"
    and "\<nexists>res. b_phases b ! i = Finished res"
  shows "failed_batch f snap batch (b\<lparr>b_phases := (b_phases b)[i := p], b_cancel := c\<rparr>)"
    and "failed_batch f snap batch (b\<lparr>b_phases := (b_phases b)[i := p]\<rparr>)"
proof -
  obtain j e where j: "j < length batch" "b_phases b ! j = Finished (Inl e)" "f (batch ! j) snap = Inl e"
    using assms(1) by (auto simp: failed_batch_def)
  then have "j \<noteq> i" using assms(3) by auto
  then have "(b_phases b)[i := p] ! j = Finished (Inl e)" using j(2) by simp
  then show "failed_batch f snap batch (b\<lparr>b_phases := (b_phases b)[i := p], b_cancel := c\<rparr>)"
    and "failed_batch f snap batch (b\<lparr>b_phases := (b_phases b)[i := p]\<rparr>)"
    using j unfolding failed_batch_def by auto
qed

lemma settled_batch_update:
  assumes "settled_batch f snap batch b" and "length (b_phases b) = length batch"
    and "\<And>res. p = Finished res \<Longrightarrow> res = f (batch ! i) snap \<and> \<not> isl res"
  shows "settled_batch f snap batch (b\<lparr>b_phases := (b_phases b)[i := p], b_cancel := c\<rparr>)"
    and "settled_batch f snap batch (b\<lparr>b_phases := (b_phases b)[i := p]\<rparr>)"
proof -
  have "res = f (batch ! j) snap \<and> \<not> isl res" if "j < length batch" "(b_phases b)[i := p] ! j = Finished res" for j res
  proof (cases "j = i")
    case True
    then show ?thesis using that assms(2,3) by (metis nth_list_update_eq)
  next
    case False
    then show ?thesis using that assms(1) unfolding settled_batch_def by (metis nth_list_update_neq)
  qed
  then show "settled_batch f snap batch (b\<lparr>b_phases := (b_phases b)[i := p], b_cancel := c\<rparr>)"
    and "settled_batch f snap batch (b\<lparr>b_phases := (b_phases b)[i := p]\<rparr>)"
    by (simp_all add: settled_batch_def)
qed

lemma batch_step_inv:
  assumes "answers f batch" and "batch_step limit snap batch b b'" and inv: "batch_inv f snap batch b"
  shows "batch_inv f snap batch b'"
  using assms(2)
proof cases
  case (start i)
  have "\<nexists>res. b_phases b ! i = Finished res" using start(3) by simp
  then show ?thesis using inv start(1)
    by (auto simp: batch_inv_def intro: failed_batch_update settled_batch_update split: if_splits)
next
  case (give_up i e)
  have "\<nexists>res. b_phases b ! i = Finished res" using give_up(3) by simp
  then show ?thesis using inv give_up(1,5)
    by (auto simp: batch_inv_def intro: failed_batch_update)
next
  case (finish i run res)
  have nf: "\<nexists>res. b_phases b ! i = Finished res" using finish(3) by simp
  have len: "length (b_phases b) = length batch" using inv by (simp add: batch_inv_def)
  show ?thesis
  proof (cases "b_cancel b")
    case None
    have "batch ! i \<in> set batch" using finish(2) by simp
    then have res: "res = f (batch ! i) snap" using assms(1) finish(4,5) None by (auto simp: answers_def)
    show ?thesis
    proof (cases res)
      case (Inl e)
      then have "failed_batch f snap batch
          (b\<lparr>b_phases := (b_phases b)[i := Finished res], b_cancel := fail_once res (b_cancel b)\<rparr>)"
        using finish(2) len res unfolding failed_batch_def by auto
      then show ?thesis using len finish(1) Inl None by (simp add: batch_inv_def fail_once_def)
    next
      case (Inr p)
      then have "fail_once res (b_cancel b) = None" using None by (simp add: fail_once_def)
      moreover have "b_ctx b = None \<Longrightarrow> settled_batch f snap batch
          (b\<lparr>b_phases := (b_phases b)[i := Finished res], b_cancel := fail_once res (b_cancel b)\<rparr>)"
        using inv None len res Inr by (intro settled_batch_update) (auto simp: batch_inv_def)
      ultimately show ?thesis using len finish(1) by (simp add: batch_inv_def)
    qed
  next
    case (Some e)
    then have "fail_once res (b_cancel b) = Some e" by (cases res) (simp_all add: fail_once_def)
    moreover have "b_ctx b = None \<Longrightarrow> failed_batch f snap batch
        (b\<lparr>b_phases := (b_phases b)[i := Finished res], b_cancel := fail_once res (b_cancel b)\<rparr>)"
      using inv Some len nf by (intro failed_batch_update) (auto simp: batch_inv_def)
    ultimately show ?thesis using len finish(1) by (simp add: batch_inv_def)
  qed
next
  case ctx_done
  then show ?thesis using inv by (simp add: batch_inv_def)
qed

lemma batch_reach_inv:
  assumes "answers f batch" and "(batch_step limit snap batch)\<^sup>*\<^sup>* (batch_start batch) b"
  shows "batch_inv f snap batch b"
  using assms(2)
proof (induction rule: rtranclp_induct)
  case base
  then show ?case by (simp add: batch_inv_def batch_start_def settled_batch_def)
next
  case (step b b')
  then show ?case using batch_step_inv [OF assms(1)] by blast
qed

lemma batch_end_results:
  assumes "answers f batch" and "batch_end limit snap batch None results"
  shows "(results = map (\<lambda>n. f n snap) batch \<and> (\<forall>n\<in>set batch. \<not> isl (f n snap))) \<or>
    (length results = length batch \<and> (\<exists>r\<in>set results. isl r) \<and> (\<exists>n\<in>set batch. isl (f n snap)))"
proof -
  obtain b where b: "(batch_step limit snap batch)\<^sup>*\<^sup>* (batch_start batch) b" "b_ctx b = None"
    "b_phases b = map Finished results"
    using assms(2) by (auto simp: batch_end_def)
  have inv: "batch_inv f snap batch b" using batch_reach_inv [OF assms(1) b(1)] .
  then have len: "length results = length batch" using b(3) by (simp add: batch_inv_def)
  show ?thesis
  proof (cases "b_cancel b = None")
    case True
    then have "settled_batch f snap batch b" using inv b(2) by (simp add: batch_inv_def)
    then have all: "\<forall>i<length batch. results ! i = f (batch ! i) snap \<and> \<not> isl (f (batch ! i) snap)"
      using len by (auto simp: settled_batch_def b(3))
    have "results = map (\<lambda>n. f n snap) batch"
    proof (rule nth_equalityI)
      fix i assume "i < length results"
      then have "i < length batch" using len by simp
      then show "results ! i = map (\<lambda>n. f n snap) batch ! i" using all by simp
    qed (simp add: len)
    moreover have "\<forall>n\<in>set batch. \<not> isl (f n snap)"
    proof
      fix n assume "n \<in> set batch"
      then obtain i where "i < length batch" "batch ! i = n" by (metis in_set_conv_nth)
      then show "\<not> isl (f n snap)" using all by blast
    qed
    ultimately show ?thesis by (intro disjI1 conjI)
  next
    case False
    then have "failed_batch f snap batch b" using inv b(2) by (simp add: batch_inv_def)
    then obtain i e where i: "i < length batch" "results ! i = Inl e" "f (batch ! i) snap = Inl e"
      using len by (auto simp: failed_batch_def b(3))
    have "results ! i \<in> set results" using i(1) len by (intro nth_mem) simp
    moreover have "batch ! i \<in> set batch" using i(1) by simp
    moreover have "isl (results ! i)" "isl (f (batch ! i) snap)" using i(2,3) by simp_all
    ultimately show ?thesis using len by blast
  qed
qed

section \<open>What a batch answers\<close>

lemma pick_failure_Some: "pick_failure (Some a) rs \<noteq> None"
proof (induction "Some a" rs arbitrary: a rule: pick_failure.induct)
  case (3 i e rs)
  then show ?case by (cases a) auto
qed simp_all

lemma collect_patches_Inr:
  "\<forall>r\<in>set rs. \<not> isl (snd r) \<Longrightarrow> \<exists>ps. collect_patches rs = Inr ps"
  by (induction rs rule: collect_patches.induct) auto

lemma collect_patches_Inl:
  "\<exists>r\<in>set rs. isl (snd r) \<Longrightarrow> \<exists>i e. collect_patches rs = Inl (NodeError i e)"
proof (induction rs rule: collect_patches.induct)
  case (3 i p rs)
  then have "\<exists>r\<in>set rs. isl (snd r)" by simp
  then obtain j e where "collect_patches rs = Inl (NodeError j e)" using 3 by blast
  then have "collect_patches ((i, Inr p) # rs) = Inl (NodeError j e)" by simp
  then show ?case by blast
qed auto

lemma pick_failure_None: "\<forall>r\<in>set rs. \<not> isl (snd r) \<Longrightarrow> pick_failure None rs = None"
  by (induction "None :: (string \<times> go_error) option" rs rule: pick_failure.induct) auto

lemma batch_result_cases:
  "(\<forall>r\<in>set rs. \<not> isl (snd r)) \<Longrightarrow> batch_result None rs = collect_patches rs"
  "(\<exists>r\<in>set rs. isl (snd r)) \<Longrightarrow> \<exists>i e. batch_result None rs = Inl (NodeError i e)"
  using pick_failure_None [of rs] collect_patches_Inl [of rs]
  by (auto simp: batch_result_def split: option.splits)


section \<open>Executions and their reference\<close>

datatype verdict = Completed | NodeFails | Rejected go_error

text \<open>The reference: level by level, every node of a level on the same snapshot, then the merge.\<close>

fun seq_run :: "('s wnode \<Rightarrow> 's \<Rightarrow> 's outcome) \<Rightarrow> 's wnode list list \<Rightarrow> 's \<Rightarrow> 's \<times> verdict" where
  "seq_run f [] st = (st, Completed)"
| "seq_run f (b # bs) st =
     (case collect_patches (map (\<lambda>n. (w_ID n, f n st)) b) of
        Inl e \<Rightarrow> (st, NodeFails)
      | Inr ps \<Rightarrow>
          (case mergeBatch (\<lambda>ws. ws) ps st of
             Inl e \<Rightarrow> (st, Rejected e)
           | Inr st' \<Rightarrow> seq_run f bs st'))"

definition agrees :: "verdict \<Rightarrow> go_error option \<Rightarrow> bool" where
  "agrees v e \<longleftrightarrow> (case v of Completed \<Rightarrow> e = None | NodeFails \<Rightarrow> (\<exists>i x. e = Some (NodeError i x))
     | Rejected x \<Rightarrow> e = Some x)"

text \<open>
  Surroundings that the scheduler can meet: batches end as their goroutines allow, maps are visited
  in some order; and ones in which the caller's context is not cancelled.
\<close>

definition possible :: "'s workflow \<Rightarrow> 's surroundings \<Rightarrow> bool" where
  "possible w su \<longleftrightarrow>
     (\<forall>k st batch. set batch \<subseteq> set (wf_nodes w) \<longrightarrow>
        batch_end (wf_maxConcurrency w) st batch (fst (su_batch su k st batch)) (snd (su_batch su k st batch))) \<and>
     (\<forall>k ws. mset (su_iter su k ws) = mset ws)"

definition quiet :: "'s surroundings \<Rightarrow> bool" where
  "quiet su \<longleftrightarrow> (\<forall>k. su_ctx su k = None) \<and> (\<forall>k st b. fst (su_batch su k st b) = None)"

lemma run_batch_reference:
  assumes "possible w su" and "quiet su" and "answers f (wf_nodes w)" and "set batch \<subseteq> set (wf_nodes w)"
  shows "case collect_patches (map (\<lambda>n. (w_ID n, f n st)) batch) of
      Inl e \<Rightarrow> \<exists>i x. run_batch su k batch st = Inl (NodeError i x)
    | Inr ps \<Rightarrow> run_batch su k batch st = mergeBatch (\<lambda>ws. ws) ps st"
proof -
  obtain rs where su: "su_batch su k st batch = (None, rs)"
    using assms(2) unfolding quiet_def by (metis prod.collapse)
  have "batch_end (wf_maxConcurrency w) st batch (fst (su_batch su k st batch)) (snd (su_batch su k st batch))"
    using assms(1,4) unfolding possible_def by blast
  then have be: "batch_end (wf_maxConcurrency w) st batch None rs" by (simp add: su)
  have "answers f batch" using assms(3,4) unfolding answers_def by blast
  from batch_end_results [OF this be] have end_: "(rs = map (\<lambda>n. f n st) batch \<and> (\<forall>n\<in>set batch. \<not> isl (f n st))) \<or>
      (length rs = length batch \<and> (\<exists>r\<in>set rs. isl r) \<and> (\<exists>n\<in>set batch. isl (f n st)))" .
  have iter: "mergeBatch (su_iter su k) ps st = mergeBatch (\<lambda>ws. ws) ps st" for ps
    using assms(1) unfolding possible_def by (intro mergeBatch_iter) blast
  let ?ref = "map (\<lambda>n. (w_ID n, f n st)) batch"
  have rb: "run_batch su k batch st = (case batch_result None (zip (map w_ID batch) rs) of
      Inl e \<Rightarrow> Inl e | Inr ps \<Rightarrow> mergeBatch (\<lambda>ws. ws) ps st)"
    unfolding run_batch_def su iter by simp
  from end_ show ?thesis
  proof
    assume ok: "rs = map (\<lambda>n. f n st) batch \<and> (\<forall>n\<in>set batch. \<not> isl (f n st))"
    have z: "zip (map w_ID batch) rs = ?ref" using ok by (simp add: zip_map1 zip_map2 zip_same_conv_map)
    have all: "\<forall>r\<in>set ?ref. \<not> isl (snd r)" using ok by simp
    then obtain ps where ps: "collect_patches ?ref = Inr ps" using collect_patches_Inr by blast
    then show ?thesis using rb batch_result_cases(1) [OF all] by (simp add: z)
  next
    assume bad: "length rs = length batch \<and> (\<exists>r\<in>set rs. isl r) \<and> (\<exists>n\<in>set batch. isl (f n st))"
    then have "\<exists>r\<in>set ?ref. isl (snd r)" by simp
    then obtain j y where ref: "collect_patches ?ref = Inl (NodeError j y)" using collect_patches_Inl by blast
    have "snd ` set (zip (map w_ID batch) rs) = set rs"
      using bad by (metis list.set_map length_map map_snd_zip)
    then have "\<exists>r\<in>set (zip (map w_ID batch) rs). isl (snd r)" using bad by (metis imageE)
    then obtain i x where "batch_result None (zip (map w_ID batch) rs) = Inl (NodeError i x)"
      using batch_result_cases(2) by blast
    then show ?thesis using rb ref by auto
  qed
qed

lemma run_levels_reference:
  assumes "possible w su" and "quiet su" and "answers f (wf_nodes w)"
  shows "set (concat ls) \<subseteq> set (wf_nodes w) \<Longrightarrow>
    \<exists>e. run_levels su k ls st = (fst (seq_run f ls st), e) \<and> agrees (snd (seq_run f ls st)) e"
proof (induction ls arbitrary: k st)
  case Nil
  then show ?case by (simp add: agrees_def)
next
  case (Cons b bs)
  have c: "su_ctx su k = None" using assms(2) by (simp add: quiet_def)
  have "set b \<subseteq> set (wf_nodes w)" using Cons.prems by simp
  note rb = run_batch_reference [OF assms this, where st = st and k = k]
  show ?case
  proof (cases "collect_patches (map (\<lambda>n. (w_ID n, f n st)) b)")
    case (Inl e)
    then obtain i x where "run_batch su k b st = Inl (NodeError i x)" using rb by auto
    then have "run_levels su k (b # bs) st = (st, Some (NodeError i x))" using c by simp
    moreover have "seq_run f (b # bs) st = (st, NodeFails)" using Inl by simp
    moreover have "agrees NodeFails (Some (NodeError i x))" unfolding agrees_def verdict.case by blast
    ultimately show ?thesis by simp
  next
    case (Inr ps)
    then have rb': "run_batch su k b st = mergeBatch (\<lambda>ws. ws) ps st" using rb by simp
    show ?thesis
    proof (cases "mergeBatch (\<lambda>ws. ws) ps st")
      case (Inl e)
      then show ?thesis using c Inr rb' by (simp add: agrees_def)
    next
      case (Inr st')
      have "\<exists>e. run_levels su (Suc k) bs st' = (fst (seq_run f bs st'), e) \<and> agrees (snd (seq_run f bs st')) e"
        using Cons by simp
      then show ?thesis using c Inr rb' \<open>collect_patches _ = Inr ps\<close> by simp
    qed
  qed
qed

lemma execute_levels:
  assumes "wf_New nodes limit = Inr w"
  shows "levels_ok [] nodes (levels (length nodes) [] nodes)"
    and "execute su w st = Some (run_levels su 0 (levels (length nodes) [] nodes) st)"
proof -
  note w = wf_New_Inr [OF assms]
  show "levels_ok [] nodes (levels (length nodes) [] nodes)"
    and "execute su w st = Some (run_levels su 0 (levels (length nodes) [] nodes) st)"
    using execute_loop_levels [OF w(4) loop_inv_start [OF w(4)], of "length nodes" su 0 st]
    by (simp_all add: execute_def w(1) Let_def)
qed

section \<open>The properties\<close>

text \<open>
  Scheduling: for a workflow that \<open>New\<close> accepts, an execution terminates, never reports the
  internal error, and is the run of its batches one after the other; the batches are not empty, hold
  every node exactly once, and hold the dependencies of a node in batches before its own.
\<close>

theorem workflow_runs_levels:
  assumes "wf_New nodes limit = Inr w"
  shows "execute su w st = Some (run_levels su 0 (levels (length nodes) [] nodes) st) \<and>
    mset (concat (levels (length nodes) [] nodes)) = mset nodes \<and> [] \<notin> set (levels (length nodes) [] nodes) \<and>
    (\<forall>as b bs. levels (length nodes) [] nodes = as @ b # bs \<longrightarrow>
       (\<forall>n\<in>set b. set (w_Deps n) \<subseteq> w_ID ` set (concat as)))"
  using execute_levels [OF assms] by (simp add: levels_ok_def)

text \<open>
  C14. Determinism: when what each node answers is a function of the snapshot and the caller does not
  cancel, every execution, whatever its concurrency limit and however its goroutines interleave,
  ends with the state and the verdict of the sequential reference: all nodes committed; or, on the
  last committed state, a node's error; or, on the last committed state, exactly the same write
  conflict.
\<close>

theorem workflow_deterministic:
  assumes "wf_New nodes limit = Inr w" and "answers f nodes" and "possible w su" and "quiet su"
  shows "\<exists>e. execute su w st = Some (fst (seq_run f (levels (length nodes) [] nodes) st), e) \<and>
    agrees (snd (seq_run f (levels (length nodes) [] nodes) st)) e"
proof -
  note ex = execute_levels [OF assms(1)]
  have w: "wf_nodes w = nodes" using wf_New_Inr(1) [OF assms(1)] .
  have "set (concat (levels (length nodes) [] nodes)) \<subseteq> set (wf_nodes w)"
    using ex(1) unfolding levels_ok_def w by (metis mset_eq_setD order_refl)
  from run_levels_reference [OF assms(3,4) assms(2) [folded w] this, where k = 0 and st = st] show ?thesis
    using ex(2) by metis
qed


text \<open>A sample: two nodes that read the state their dependency left, and write fields of their own.\<close>

definition sample_answer :: "string \<Rightarrow> (nat \<Rightarrow> int) \<Rightarrow> (nat \<Rightarrow> int) outcome" where
  "sample_answer i st =
     (if i = ''a'' then Inr [write_to 0 ''seed'' 5]
      else if i = ''b'' then Inr [write_to 1 ''left'' (st 0 + 1)]
      else Inr [write_to 2 ''right'' (st 0 * 2)])"

definition sample_wnode :: "string \<Rightarrow> string list \<Rightarrow> (nat \<Rightarrow> int) wnode" where
  "sample_wnode i ds = \<lparr>w_ID = i, w_Deps = ds, w_Run = Some (\<lambda>ctx snap res. res = sample_answer i snap)\<rparr>"

definition sample_wnodes :: "(nat \<Rightarrow> int) wnode list" where
  "sample_wnodes = [sample_wnode ''c'' [''a''], sample_wnode ''a'' [], sample_wnode ''b'' [''a'']]"

definition sample_flow :: "(nat \<Rightarrow> int) workflow" where
  "sample_flow = \<lparr>wf_nodes = sample_wnodes, wf_maxConcurrency = 1\<rparr>"

definition sample_surroundings :: "(nat \<Rightarrow> int) surroundings" where
  "sample_surroundings = \<lparr>su_ctx = \<lambda>_. None,
     su_batch = \<lambda>k st batch. (None, map (\<lambda>n. sample_answer (w_ID n) st) batch), su_iter = \<lambda>_. rev\<rparr>"

lemma sample_flow_New: "wf_New sample_wnodes 1 = Inr sample_flow"
proof -
  have g: "wgraph sample_wnodes = [(''c'', [''a'']), (''a'', []), (''b'', [''a''])]"
    by (simp add: wgraph_def sample_wnodes_def sample_wnode_def)
  have "detect_cycle [(''c'', [''a'']), (''a'', []), (''b'', [''a''])] = Some (Inr ())" by code_simp
  then have c: "wf_detectCycle sample_wnodes = None" by (simp add: wf_detectCycle_def g)
  have "check_connected [(''c'', [''a'']), (''a'', []), (''b'', [''a''])] = Some (Inr ())" by code_simp
  then have "wf_checkConnected sample_wnodes = None" by (simp add: wf_checkConnected_def g)
  moreover have "check_nodes [] sample_wnodes = None"
    by (simp add: sample_wnodes_def sample_wnode_def is_nil_def)
  moreover have "first_unknown_dep (map w_ID sample_wnodes) (wgraph sample_wnodes) = None"
    unfolding g by (simp add: sample_wnodes_def sample_wnode_def)
  ultimately have "validateNodes sample_wnodes = None" using c by (simp add: validateNodes_def)
  then show ?thesis by (simp add: wf_New_def sample_flow_def)
qed

theorem workflow_runs_levels_witness:
  "mset (concat (levels 3 [] sample_wnodes)) = mset sample_wnodes"
proof -
  have "length sample_wnodes = 3" by (simp add: sample_wnodes_def)
  then show ?thesis using workflow_runs_levels [OF sample_flow_New] by metis
qed

text \<open>A batch may run its nodes one at a time.\<close>

definition batch_prefix :: "'s outcome list \<Rightarrow> nat \<Rightarrow> 's batch_state" where
  "batch_prefix rs j = \<lparr>b_phases = map Finished (take j rs) @ replicate (length rs - j) Waiting, b_ctx = None, b_cancel = None\<rparr>"

lemma batch_prefix_step:
  assumes "answers f batch" and "\<forall>n\<in>set batch. \<not> isl (f n snap)" and "j < length batch" and "0 \<le> limit"
  shows "(batch_step limit snap batch)\<^sup>*\<^sup>* (batch_prefix (map (\<lambda>n. f n snap) batch) j)
    (batch_prefix (map (\<lambda>n. f n snap) batch) (Suc j))"
proof -
  let ?rs = "map (\<lambda>n. f n snap) batch" and ?n = "batch ! j"
  let ?b0 = "batch_prefix ?rs j"
  let ?b1 = "?b0\<lparr>b_phases := (b_phases ?b0)[j := Running]\<rparr>"
  have mem: "?n \<in> set batch" using assms(3) by simp
  obtain run where run: "w_Run ?n = Some run" "\<And>snap res. run None snap res \<longleftrightarrow> res = f ?n snap"
    using assms(1) mem unfolding answers_def by blast
  have len: "length (b_phases ?b0) = length batch" using assms(3) by (simp add: batch_prefix_def)
  have w: "b_phases ?b0 ! j = Waiting" using assms(3) by (simp add: batch_prefix_def nth_append)
  have "running ?b0 = 0" by (simp add: running_def batch_prefix_def)
  then have "batch_slot_free limit ?b0" by (simp add: batch_slot_free_def)
  then have s1: "batch_step limit snap batch ?b0 ?b1" by (rule batch_step.start [OF assms(3) w])
  have r: "b_phases ?b1 ! j = Running" using assms(3) len by simp
  have "run (b_cancel ?b1) snap (f ?n snap)" using run(2) by (simp add: batch_prefix_def)
  from batch_step.finish [OF assms(3) r run(1) this] have
    s2: "batch_step limit snap batch ?b1 (?b1\<lparr>b_phases := (b_phases ?b1)[j := Finished (f ?n snap)],
      b_cancel := fail_once (f ?n snap) (b_cancel ?b1)\<rparr>)" .
  have "fail_once (f ?n snap) None = None" using assms(2) mem by (cases "f ?n snap") (auto simp: fail_once_def)
  moreover have "(b_phases ?b0)[j := Finished (f ?n snap)] = b_phases (batch_prefix ?rs (Suc j))"
  proof -
    have "length batch - j = Suc (length batch - Suc j)" using assms(3) by simp
    then show ?thesis using assms(3)
      by (simp add: batch_prefix_def list_update_append take_Suc_conv_app_nth)
  qed
  ultimately have "?b1\<lparr>b_phases := (b_phases ?b1)[j := Finished (f ?n snap)],
      b_cancel := fail_once (f ?n snap) (b_cancel ?b1)\<rparr> = batch_prefix ?rs (Suc j)"
    by (simp add: batch_prefix_def)
  then show ?thesis using s1 s2 by (metis rtranclp.rtrancl_refl rtranclp.rtrancl_into_rtrancl)
qed

lemma batch_end_sequential:
  assumes "answers f batch" and "\<forall>n\<in>set batch. \<not> isl (f n snap)" and "0 \<le> limit"
  shows "batch_end limit snap batch None (map (\<lambda>n. f n snap) batch)"
proof -
  let ?rs = "map (\<lambda>n. f n snap) batch"
  have "j \<le> length batch \<Longrightarrow> (batch_step limit snap batch)\<^sup>*\<^sup>* (batch_prefix ?rs 0) (batch_prefix ?rs j)" for j
  proof (induction j)
    case (Suc j)
    then show ?case using batch_prefix_step [OF assms(1,2) _ assms(3), of j] by (meson Suc_le_eq Suc_leD rtranclp_trans)
  qed simp
  from this [of "length batch"] have "(batch_step limit snap batch)\<^sup>*\<^sup>* (batch_prefix ?rs 0) (batch_prefix ?rs (length batch))"
    by simp
  moreover have "batch_prefix ?rs 0 = batch_start batch"
    by (simp add: batch_prefix_def batch_start_def map_replicate_const)
  moreover have "b_phases (batch_prefix ?rs (length batch)) = map Finished ?rs" "b_ctx (batch_prefix ?rs (length batch)) = None"
    by (simp_all add: batch_prefix_def)
  ultimately show ?thesis unfolding batch_end_def by metis
qed

lemma sample_answers:
  "set batch \<subseteq> set sample_wnodes \<Longrightarrow> answers (\<lambda>n. sample_answer (w_ID n)) batch"
  by (fastforce simp: answers_def sample_wnodes_def sample_wnode_def)

lemma sample_possible: "possible sample_flow sample_surroundings" and sample_quiet: "quiet sample_surroundings"
proof -
  have "\<not> isl (sample_answer i st)" for i st by (simp add: sample_answer_def)
  then have "batch_end 1 st batch None (map (\<lambda>n. sample_answer (w_ID n) st) batch)"
    if "set batch \<subseteq> set sample_wnodes" for st batch
    using batch_end_sequential [OF sample_answers [OF that]] by simp
  then show "possible sample_flow sample_surroundings" and "quiet sample_surroundings"
    by (simp_all add: possible_def quiet_def sample_flow_def sample_surroundings_def)
qed

theorem workflow_deterministic_witness:
  "\<exists>e. execute sample_surroundings sample_flow (\<lambda>_. 0) =
      Some (fst (seq_run (\<lambda>n. sample_answer (w_ID n)) (levels 3 [] sample_wnodes) (\<lambda>_. 0)), e) \<and>
     agrees (snd (seq_run (\<lambda>n. sample_answer (w_ID n)) (levels 3 [] sample_wnodes) (\<lambda>_. 0))) e"
proof -
  have "length sample_wnodes = 3" by (simp add: sample_wnodes_def)
  then show ?thesis
    using workflow_deterministic [OF sample_flow_New sample_answers [OF order_refl] sample_possible sample_quiet]
    by metis
qed


section \<open>Goroutines: limit and progress\<close>

fun phase_work :: "'s phase \<Rightarrow> nat" where
  "phase_work Waiting = 2"
| "phase_work Running = 1"
| "phase_work (Finished res) = 0"

definition batch_work :: "'s batch_state \<Rightarrow> nat" where
  "batch_work b = sum_list (map phase_work (b_phases b))"

lemma sum_list_map_update:
  fixes w :: "'a \<Rightarrow> nat"
  shows "i < length xs \<Longrightarrow> sum_list (map w (xs[i := x])) + w (xs ! i) = sum_list (map w xs) + w x"
proof (induction xs arbitrary: i)
  case (Cons y xs)
  then show ?case by (cases i) auto
qed simp

lemma running_update:
  "i < length (b_phases b) \<Longrightarrow>
   running (b\<lparr>b_phases := (b_phases b)[i := p]\<rparr>) + (if is_running (b_phases b ! i) then 1 else 0) =
   running b + (if is_running p then 1 else 0)"
proof -
  have count: "length (filter is_running xs) = sum_list (map (\<lambda>p. if is_running p then 1 else 0) xs)" for xs :: "'a phase list"
    by (induction xs) auto
  show "i < length (b_phases b) \<Longrightarrow> ?thesis"
    using sum_list_map_update [of i "b_phases b" "\<lambda>p. if is_running p then 1 else 0" p]
    by (simp add: running_def count)
qed

lemma batch_step_limit:
  assumes "batch_step limit snap batch b b'" and "length (b_phases b) = length batch"
    and "0 < limit" and "int (running b) \<le> limit"
  shows "length (b_phases b') = length batch \<and> int (running b') \<le> limit"
  using assms(1)
proof cases
  case (start i)
  then show ?thesis using running_update [of i b Running] assms(2,3) by (simp add: batch_slot_free_def)
next
  case (give_up i e)
  then show ?thesis using running_update [of i b "Finished (Inl e)"] assms(2,4) by simp
next
  case (finish i run res)
  have "running b' = running (b\<lparr>b_phases := (b_phases b)[i := Finished res]\<rparr>)"
    by (simp add: finish(1) running_def)
  then show ?thesis using finish running_update [of i b "Finished res"] assms(2,4) by simp
next
  case ctx_done
  then show ?thesis using assms(2,4) by (simp add: running_def)
qed

lemma batch_progress:
  assumes "length (b_phases b) = length batch" and "i < length batch" and "\<nexists>res. b_phases b ! i = Finished res"
    and "\<forall>n\<in>set batch. \<exists>run. w_Run n = Some run \<and> (\<forall>c snap. \<exists>res. run c snap res)"
  shows "\<exists>b'. batch_step limit snap batch b b' \<and> batch_work b' < batch_work b"
proof -
  have fin: "\<exists>b'. batch_step limit snap batch b b' \<and> batch_work b' < batch_work b"
    if "j < length batch" "b_phases b ! j = Running" for j
  proof -
    have "batch ! j \<in> set batch" using that(1) by simp
    then obtain run res where "w_Run (batch ! j) = Some run" "run (b_cancel b) snap res"
      using assms(4) by blast
    then have "batch_step limit snap batch b
        (b\<lparr>b_phases := (b_phases b)[j := Finished res], b_cancel := fail_once res (b_cancel b)\<rparr>)"
      by (rule batch_step.finish [OF that])
    moreover have "batch_work (b\<lparr>b_phases := (b_phases b)[j := Finished res], b_cancel := fail_once res (b_cancel b)\<rparr>) < batch_work b"
      using sum_list_map_update [of j "b_phases b" phase_work "Finished res"]
        that assms(1) by (simp add: batch_work_def)
    ultimately show ?thesis by blast
  qed
  show ?thesis
  proof (cases "b_phases b ! i = Running")
    case True
    then show ?thesis using fin assms(2) by blast
  next
    case False
    then have w: "b_phases b ! i = Waiting" using assms(3) by (cases "b_phases b ! i") auto
    show ?thesis
    proof (cases "batch_slot_free limit b")
      case True
      then have "batch_step limit snap batch b (b\<lparr>b_phases := (b_phases b)[i := Running]\<rparr>)"
        by (rule batch_step.start [OF assms(2) w])
      moreover have "batch_work (b\<lparr>b_phases := (b_phases b)[i := Running]\<rparr>) < batch_work b"
        using sum_list_map_update [of i "b_phases b" phase_work Running]
          w assms(1,2) by (simp add: batch_work_def)
      ultimately show ?thesis by blast
    next
      case False
      then have "filter is_running (b_phases b) \<noteq> []" by (auto simp: batch_slot_free_def running_def)
      then obtain p where "p \<in> set (b_phases b)" "is_running p" by (auto simp: filter_empty_conv)
      then obtain j where "j < length batch" "b_phases b ! j = Running"
        using assms(1) by (metis in_set_conv_nth phase.collapse(2) phase.exhaust_disc is_running_def)
      then show ?thesis by (rule fin)
    qed
  qed
qed

text \<open>
  The goroutines of a batch: never more of them than the concurrency limit run their node, and as
  long as the nodes answer, a batch that is not over can always go on, by a step that leaves it less
  to do.
\<close>

theorem batch_limit_and_progress:
  assumes "(batch_step limit snap batch)\<^sup>*\<^sup>* (batch_start batch) b" and "0 < limit"
    and "\<forall>n\<in>set batch. \<exists>run. w_Run n = Some run \<and> (\<forall>c snap. \<exists>res. run c snap res)"
  shows "int (running b) \<le> limit \<and>
    ((\<exists>p\<in>set (b_phases b). \<nexists>res. p = Finished res) \<longrightarrow>
       (\<exists>b'. batch_step limit snap batch b b' \<and> batch_work b' < batch_work b))"
proof -
  have r: "length (b_phases b) = length batch \<and> int (running b) \<le> limit" using assms(1)
  proof (induction rule: rtranclp_induct)
    case base
    have "filter is_running (b_phases (batch_start batch)) = []" by (simp add: batch_start_def filter_empty_conv)
    then show ?case using assms(2) by (simp add: batch_start_def running_def)
  next
    case (step b b')
    from batch_step_limit [OF step(2)] step(3) assms(2) show ?case by simp
  qed
  have "\<exists>b'. batch_step limit snap batch b b' \<and> batch_work b' < batch_work b"
    if p: "p \<in> set (b_phases b)" and np: "\<nexists>res. p = Finished res" for p
  proof -
    obtain i where i: "i < length (b_phases b)" "b_phases b ! i = p" using p by (metis in_set_conv_nth)
    have "i < length batch" using i(1) r by simp
    moreover have "\<nexists>res. b_phases b ! i = Finished res" unfolding i(2) by (rule np)
    ultimately show ?thesis by (rule batch_progress [OF conjunct1 [OF r] _ _ assms(3)])
  qed
  then show ?thesis using r by (intro conjI impI) blast+
qed

theorem batch_limit_and_progress_witness:
  "\<exists>b'. batch_step 1 (\<lambda>_. 0) [sample_wnode ''b'' [], sample_wnode ''c'' []]
      (batch_start [sample_wnode ''b'' [], sample_wnode ''c'' []]) b'"
proof -
  let ?batch = "[sample_wnode ''b'' [], sample_wnode ''c'' []]"
  have "\<forall>n\<in>set ?batch. \<exists>run. w_Run n = Some run \<and> (\<forall>c snap. \<exists>res. run c snap res)"
    by (simp add: sample_wnode_def)
  from batch_limit_and_progress [OF rtranclp.rtrancl_refl _ this, of 1 "\<lambda>_. 0"]
  have "(\<exists>p\<in>set (b_phases (batch_start ?batch)). \<nexists>res. p = Finished res) \<longrightarrow>
      (\<exists>b'. batch_step 1 (\<lambda>_. 0) ?batch (batch_start ?batch) b')" by auto
  moreover have "Waiting \<in> set (b_phases (batch_start ?batch))" by (simp add: batch_start_def)
  ultimately show ?thesis by auto
qed


end
