(* ===== verification/Interrupt.thy ===== *)
theory Interrupt
  imports Complex_Main Prelude "HOL-Library.AList"
begin

text \<open>
  Suspended tool batches (\<open>interrupt/\<close>): the record and its state machine (\<open>interrupt.go\<close>, \<open>logic.go\<close>),
  the in-memory store (\<open>mapstore.go\<close>) and the set of approved calls a context carries
  (\<open>approved.go\<close>). Times and durations are integers, zero being Go's zero time; messages, usage and
  the rest of a tool call are opaque. A store operation takes the error of its context and the time
  it reads; \<open>Create\<close> takes the identifier it draws. HOL values do not alias, so the defensive copies
  (\<open>cloneRecord\<close> and its helpers) are the identity and left out.
\<close>

section \<open>Records\<close>

datatype status = StatusPending | StatusReady | StatusResuming | StatusCompleted

record EffectiveParams =
  ep_Model :: string
  ep_Temperature :: "rat option"
  ep_MaxIterations :: int
  ep_RunTokenBudget :: int
  ep_MaxTokens :: "int option"
  ep_ToolMode :: string
  ep_ToolFilter :: "string list"
  ep_StopSequences :: "string list"

record CallAssessment =
  ca_ToolCallID :: string
  ca_Flagged :: bool
  ca_Classification :: string

record PolicySnapshot =
  ps_Fingerprint :: string
  ps_Calls :: "CallAssessment list"

record decision =
  d_ToolCallID :: string
  d_Content :: string
  d_IsError :: bool
  d_Execute :: bool
  d_DecidedAt :: int

record ('m, 'u, 'c) irecord =
  ir_Version :: int
  ir_ID :: string
  ir_SessionID :: string
  ir_AgentID :: string
  ir_Protocol :: string
  ir_ToolCalls :: "(string \<times> 'c) list"
  ir_Pending :: "string list"
  ir_Decisions :: "string \<rightharpoonup> decision"
  ir_Messages :: "'m list"
  ir_SessionMsgCount :: int
  ir_Params :: EffectiveParams
  ir_Iteration :: int
  ir_Usage :: 'u
  ir_Estimated :: bool
  ir_TokensConsumed :: int
  ir_Policy :: PolicySnapshot
  ir_Supersedes :: string
  ir_Status :: status
  ir_Revision :: int
  ir_LeaseOwner :: string
  ir_LeaseExpiresAt :: int
  ir_CreatedAt :: int
  ir_UpdatedAt :: int

record imeta =
  im_ID :: string
  im_SessionID :: string
  im_AgentID :: string
  im_Protocol :: string
  im_Status :: status
  im_Iteration :: int
  im_Pending :: "string list"
  im_Revision :: int
  im_CreatedAt :: int
  im_UpdatedAt :: int

definition CurrentVersion :: int where
  "CurrentVersion = 3"

definition versionReadable :: "int \<Rightarrow> bool" where
  "versionReadable v \<longleftrightarrow> v = 2 \<or> v = CurrentVersion"

definition metaFrom :: "('m, 'u, 'c) irecord \<Rightarrow> imeta" where
  "metaFrom r = \<lparr>im_ID = ir_ID r, im_SessionID = ir_SessionID r, im_AgentID = ir_AgentID r,
     im_Protocol = ir_Protocol r, im_Status = ir_Status r, im_Iteration = ir_Iteration r,
     im_Pending = ir_Pending r, im_Revision = ir_Revision r, im_CreatedAt = ir_CreatedAt r,
     im_UpdatedAt = ir_UpdatedAt r\<rparr>"

section \<open>Errors\<close>

definition ErrNotFound :: go_error where "ErrNotFound = ErrNew ''interrupt: not found''"
definition ErrInvalidArgument :: go_error where "ErrInvalidArgument = ErrNew ''interrupt: invalid argument''"
definition ErrUnknownToolCall :: go_error where
  "ErrUnknownToolCall = ErrNew ''interrupt: unknown or already-resolved tool call id''"
definition ErrDecisionConflict :: go_error where
  "ErrDecisionConflict = ErrNew ''interrupt: conflicting decision for tool call''"
definition ErrNotReady :: go_error where
  "ErrNotReady = ErrNew ''interrupt: not all pending tool calls have a decision yet''"
definition ErrLeaseHeld :: go_error where "ErrLeaseHeld = ErrNew ''interrupt: lease held by another resumer''"
definition ErrLeaseNotOwned :: go_error where
  "ErrLeaseNotOwned = ErrNew ''interrupt: caller does not hold the lease''"
definition ErrAlreadyCompleted :: go_error where
  "ErrAlreadyCompleted = ErrNew ''interrupt: record already completed''"
definition ErrUnknownVersion :: go_error where
  "ErrUnknownVersion = ErrNew ''interrupt: unknown record version''"

definition invalid :: "string \<Rightarrow> fmt_arg list \<Rightarrow> go_error" where
  "invalid f args = Errorf f args (Some ErrInvalidArgument)"

section \<open>The state machine\<close>

definition id_char :: "char \<Rightarrow> bool" where
  "id_char c \<longleftrightarrow>
     list_ex (\<lambda>(lo, hi). lo \<le> c \<and> c \<le> hi) (zip ''aA0'' ''zZ9'') \<or> c \<in> set ''-_''"

definition maxIDLen :: nat where
  "maxIDLen = 128"

definition validateID :: "string \<Rightarrow> go_error option" where
  "validateID i =
     (if i = '''' then Some (invalid ''%w: id is empty'' [])
      else if length i > maxIDLen then Some (invalid ''%w: id is longer than %d characters'' [AInt (int maxIDLen)])
      else if list_all id_char i then None
      else Some (invalid ''%w: id %q is not an opaque interrupt id'' [AStr i]))"

fun check_calls :: "string list \<Rightarrow> (string \<times> 'c) list \<Rightarrow> go_error option" where
  "check_calls known [] = None"
| "check_calls known ((i, c) # tcs) =
     (if i = '''' then Some (invalid ''%w: tool call id is empty'' [])
      else if i \<in> set known then Some (invalid ''%w: duplicate tool call id %q'' [AStr i])
      else check_calls (i # known) tcs)"

fun check_pending :: "string list \<Rightarrow> string list \<Rightarrow> string list \<Rightarrow> go_error option" where
  "check_pending known seen [] = None"
| "check_pending known seen (i # is) =
     (if i = '''' then Some (invalid ''%w: pending id is empty'' [])
      else if i \<notin> set known then Some (invalid ''%w: pending id %q is not among tool calls'' [AStr i])
      else if i \<in> set seen then Some (invalid ''%w: duplicate pending id %q'' [AStr i])
      else check_pending known (i # seen) is)"

definition validateNewRecord :: "('m, 'u, 'c) irecord \<Rightarrow> go_error option" where
  "validateNewRecord r =
     (if ir_SessionID r = '''' then Some (invalid ''%w: session id is empty'' [])
      else if ir_AgentID r = '''' then Some (invalid ''%w: agent id is empty'' [])
      else if ir_Protocol r = '''' then Some (invalid ''%w: protocol is empty'' [])
      else if length (ir_ToolCalls r) = 0 then Some (invalid ''%w: tool calls is empty'' [])
      else case check_calls [] (ir_ToolCalls r) of
        Some e \<Rightarrow> Some e
      | None \<Rightarrow>
          (if ir_Pending r = [] then Some (invalid ''%w: pending is empty'' [])
           else check_pending (map fst (ir_ToolCalls r)) [] (ir_Pending r)))"

definition initialStatus :: "string list \<Rightarrow> status" where
  "initialStatus pending = (if pending = [] then StatusReady else StatusPending)"

definition allDecided :: "string list \<Rightarrow> (string \<rightharpoonup> decision) \<Rightarrow> bool" where
  "allDecided pending decisions \<longleftrightarrow> list_all (\<lambda>i. case decisions i of None \<Rightarrow> False | Some d \<Rightarrow> True) pending"

text \<open>\<open>commitAudit\<close>, which its callers run when something was committed.\<close>

definition commitAudit :: "int \<Rightarrow> string list \<Rightarrow> ('m, 'u, 'c) irecord \<Rightarrow> ('m, 'u, 'c) irecord" where
  "commitAudit now committed r =
     (if committed = [] then r
      else let r1 = (if ir_Status r = StatusPending \<and> allDecided (ir_Pending r) (ir_Decisions r)
                     then r\<lparr>ir_Status := StatusReady\<rparr> else r) in
           r1\<lparr>ir_UpdatedAt := now, ir_Revision := ir_Revision r1 + 1\<rparr>)"

definition same_decision :: "decision \<Rightarrow> decision \<Rightarrow> bool" where
  "same_decision d d' \<longleftrightarrow> d_Content d = d_Content d' \<and> d_IsError d = d_IsError d' \<and> d_Execute d = d_Execute d'"

fun apply_loop :: "int \<Rightarrow> string list \<Rightarrow> decision list \<Rightarrow> ('m, 'u, 'c) irecord
      \<Rightarrow> ('m, 'u, 'c) irecord \<times> string list \<times> go_error option" where
  "apply_loop now committed [] r = (commitAudit now committed r, committed, None)"
| "apply_loop now committed (d # ds) r =
     (let i = d_ToolCallID d in
      if i \<notin> set (ir_Pending r)
      then (commitAudit now committed r, committed, Some (Errorf ''%w: %q'' [AStr i] (Some ErrUnknownToolCall)))
      else case ir_Decisions r i of
        Some old \<Rightarrow>
          (if same_decision old d then apply_loop now committed ds r
           else (commitAudit now committed r, committed, Some (Errorf ''%w: %q'' [AStr i] (Some ErrDecisionConflict))))
      | None \<Rightarrow>
          apply_loop now (committed @ [i]) ds
            (r\<lparr>ir_Decisions := (ir_Decisions r)(i \<mapsto> d\<lparr>d_DecidedAt := now\<rparr>)\<rparr>))"

definition applyDecisions :: "int \<Rightarrow> decision list \<Rightarrow> ('m, 'u, 'c) irecord
      \<Rightarrow> ('m, 'u, 'c) irecord \<times> string list \<times> go_error option" where
  "applyDecisions now ds r =
     (if ir_Status r = StatusCompleted then (r, [], Some ErrAlreadyCompleted) else apply_loop now [] ds r)"

definition acquireLeaseOn :: "string \<Rightarrow> int \<Rightarrow> int \<Rightarrow> ('m, 'u, 'c) irecord \<Rightarrow> go_error + ('m, 'u, 'c) irecord" where
  "acquireLeaseOn owner ttl now r =
     (case ir_Status r of
        StatusCompleted \<Rightarrow> Inl ErrAlreadyCompleted
      | StatusPending \<Rightarrow> Inl ErrNotReady
      | st \<Rightarrow>
          (if st = StatusResuming \<and> ir_LeaseExpiresAt r > now then Inl ErrLeaseHeld
           else Inr (r\<lparr>ir_Status := StatusResuming, ir_LeaseOwner := owner, ir_LeaseExpiresAt := now + ttl,
                       ir_UpdatedAt := now, ir_Revision := ir_Revision r + 1\<rparr>)))"

definition leave_lease :: "status \<Rightarrow> string \<Rightarrow> int \<Rightarrow> ('m, 'u, 'c) irecord \<Rightarrow> go_error + ('m, 'u, 'c) irecord" where
  "leave_lease next_status owner now r =
     (if ir_Status r \<noteq> StatusResuming \<or> ir_LeaseOwner r \<noteq> owner then Inl ErrLeaseNotOwned
      else Inr (r\<lparr>ir_Status := next_status, ir_LeaseOwner := '''', ir_LeaseExpiresAt := 0,
                  ir_UpdatedAt := now, ir_Revision := ir_Revision r + 1\<rparr>))"

definition releaseLeaseOn :: "string \<Rightarrow> int \<Rightarrow> ('m, 'u, 'c) irecord \<Rightarrow> go_error + ('m, 'u, 'c) irecord" where
  "releaseLeaseOn = leave_lease StatusReady"

definition completeOn :: "string \<Rightarrow> int \<Rightarrow> ('m, 'u, 'c) irecord \<Rightarrow> go_error + ('m, 'u, 'c) irecord" where
  "completeOn = leave_lease StatusCompleted"

text \<open>What \<open>Create\<close> assigns; the other fields, the decisions included, stay the caller's.\<close>

definition stamp :: "int \<Rightarrow> string \<Rightarrow> ('m, 'u, 'c) irecord \<Rightarrow> ('m, 'u, 'c) irecord" where
  "stamp now fresh r = r\<lparr>ir_Version := CurrentVersion, ir_ID := fresh, ir_Revision := 1, ir_CreatedAt := now,
     ir_UpdatedAt := now, ir_Status := initialStatus (ir_Pending r)\<rparr>"

section \<open>The in-memory store\<close>

type_synonym ('m, 'u, 'c) mapstore = "(string \<times> ('m, 'u, 'c) irecord) list"

definition NewMapStore :: "('m, 'u, 'c) mapstore" where
  "NewMapStore = []"

definition ms_Create :: "go_error option \<Rightarrow> int \<Rightarrow> string \<Rightarrow> ('m, 'u, 'c) irecord option \<Rightarrow> ('m, 'u, 'c) mapstore
      \<Rightarrow> (go_error + ('m, 'u, 'c) irecord) \<times> ('m, 'u, 'c) mapstore" where
  "ms_Create ctx now fresh r s =
     (case ctx of Some e \<Rightarrow> (Inl e, s)
      | None \<Rightarrow>
     (case r of None \<Rightarrow> (Inl (invalid ''%w: record is nil'' []), s)
      | Some rc \<Rightarrow>
     (case validateNewRecord rc of Some e \<Rightarrow> (Inl e, s)
      | None \<Rightarrow> (Inr (stamp now fresh rc), AList.update fresh (stamp now fresh rc) s))))"

definition ms_Get :: "go_error option \<Rightarrow> string \<Rightarrow> ('m, 'u, 'c) mapstore \<Rightarrow> go_error + ('m, 'u, 'c) irecord" where
  "ms_Get ctx i s =
     (case ctx of Some e \<Rightarrow> Inl e
      | None \<Rightarrow>
     (case validateID i of Some e \<Rightarrow> Inl e
      | None \<Rightarrow>
     (case map_of s i of None \<Rightarrow> Inl ErrNotFound
      | Some r \<Rightarrow> if versionReadable (ir_Version r) then Inr r else Inl ErrUnknownVersion)))"

definition ms_SubmitDecisions :: "go_error option \<Rightarrow> int \<Rightarrow> string \<Rightarrow> decision list \<Rightarrow> ('m, 'u, 'c) mapstore
      \<Rightarrow> (('m, 'u, 'c) irecord option \<times> string list \<times> go_error option) \<times> ('m, 'u, 'c) mapstore" where
  "ms_SubmitDecisions ctx now i ds s =
     (case ctx of Some e \<Rightarrow> ((None, [], Some e), s)
      | None \<Rightarrow>
     (case validateID i of Some e \<Rightarrow> ((None, [], Some e), s)
      | None \<Rightarrow>
     (case map_of s i of None \<Rightarrow> ((None, [], Some ErrNotFound), s)
      | Some r \<Rightarrow>
          (if ir_Status r = StatusCompleted then ((None, [], Some ErrAlreadyCompleted), s)
           else case applyDecisions now ds r of
             (r', committed, err) \<Rightarrow> ((Some r', committed, err), AList.update i r' s)))))"

text \<open>The common shape of the operations on a lease.\<close>

definition ms_lease :: "(('m, 'u, 'c) irecord \<Rightarrow> go_error + ('m, 'u, 'c) irecord) \<Rightarrow> go_error option \<Rightarrow> string
      \<Rightarrow> string \<Rightarrow> ('m, 'u, 'c) mapstore \<Rightarrow> (go_error + ('m, 'u, 'c) irecord) \<times> ('m, 'u, 'c) mapstore" where
  "ms_lease f ctx i owner s =
     (case ctx of Some e \<Rightarrow> (Inl e, s)
      | None \<Rightarrow>
     (case validateID i of Some e \<Rightarrow> (Inl e, s)
      | None \<Rightarrow>
     (if owner = '''' then (Inl (invalid ''%w: owner is empty'' []), s)
      else case map_of s i of None \<Rightarrow> (Inl ErrNotFound, s)
      | Some r \<Rightarrow>
          (case f r of Inl e \<Rightarrow> (Inl e, s) | Inr r' \<Rightarrow> (Inr r', AList.update i r' s)))))"

definition ms_AcquireLease :: "go_error option \<Rightarrow> int \<Rightarrow> string \<Rightarrow> string \<Rightarrow> int \<Rightarrow> ('m, 'u, 'c) mapstore
      \<Rightarrow> (go_error + ('m, 'u, 'c) irecord) \<times> ('m, 'u, 'c) mapstore" where
  "ms_AcquireLease ctx now i owner ttl = ms_lease (acquireLeaseOn owner ttl now) ctx i owner"

definition ms_ReleaseLease :: "go_error option \<Rightarrow> int \<Rightarrow> string \<Rightarrow> string \<Rightarrow> ('m, 'u, 'c) mapstore
      \<Rightarrow> (go_error + ('m, 'u, 'c) irecord) \<times> ('m, 'u, 'c) mapstore" where
  "ms_ReleaseLease ctx now i owner = ms_lease (releaseLeaseOn owner now) ctx i owner"

definition ms_Complete :: "go_error option \<Rightarrow> int \<Rightarrow> string \<Rightarrow> string \<Rightarrow> ('m, 'u, 'c) mapstore
      \<Rightarrow> (go_error + ('m, 'u, 'c) irecord) \<times> ('m, 'u, 'c) mapstore" where
  "ms_Complete ctx now i owner = ms_lease (completeOn owner now) ctx i owner"

text \<open>The map is visited in the order of the list: Go leaves the order open.\<close>

definition ms_List :: "go_error option \<Rightarrow> string \<Rightarrow> ('m, 'u, 'c) mapstore \<Rightarrow> go_error + imeta list" where
  "ms_List ctx session s =
     (case ctx of Some e \<Rightarrow> Inl e
      | None \<Rightarrow>
     (if session = '''' then Inl (invalid ''%w: session id is empty'' [])
      else Inr (map (\<lambda>(i, r). metaFrom r) (filter (\<lambda>(i, r). ir_SessionID r = session) s))))"

definition ms_Delete :: "go_error option \<Rightarrow> string \<Rightarrow> ('m, 'u, 'c) mapstore \<Rightarrow> go_error option \<times> ('m, 'u, 'c) mapstore" where
  "ms_Delete ctx i s =
     (case ctx of Some e \<Rightarrow> (Some e, s)
      | None \<Rightarrow> (case validateID i of Some e \<Rightarrow> (Some e, s) | None \<Rightarrow> (None, AList.delete i s)))"

section \<open>Approved calls\<close>

text \<open>The two values that the package stores on a context; a nil context is \<open>None\<close>.\<close>

record call_ctx =
  cx_approved :: "string list option"
  cx_executing :: "string option"

definition background :: call_ctx where
  "background = \<lparr>cx_approved = None, cx_executing = None\<rparr>"

definition WithApprovedCalls :: "call_ctx option \<Rightarrow> string list \<Rightarrow> call_ctx" where
  "WithApprovedCalls ctx ids =
     (case ctx of None \<Rightarrow> background | Some c \<Rightarrow> c)\<lparr>cx_approved := Some (filter (\<lambda>i. i \<noteq> '''') ids)\<rparr>"

definition IsApprovedCall :: "call_ctx option \<Rightarrow> string \<Rightarrow> bool" where
  "IsApprovedCall ctx i =
     (case ctx of None \<Rightarrow> False
      | Some c \<Rightarrow> i \<noteq> '''' \<and> (case cx_approved c of None \<Rightarrow> False | Some ids \<Rightarrow> i \<in> set ids))"

definition WithExecutingCall :: "call_ctx option \<Rightarrow> string \<Rightarrow> call_ctx" where
  "WithExecutingCall ctx i = (case ctx of None \<Rightarrow> background | Some c \<Rightarrow> c)\<lparr>cx_executing := Some i\<rparr>"

definition ExecutingCallID :: "call_ctx option \<Rightarrow> string" where
  "ExecutingCallID ctx =
     (case ctx of None \<Rightarrow> '''' | Some c \<Rightarrow> (case cx_executing c of None \<Rightarrow> '''' | Some i \<Rightarrow> i))"

end
