(* ===== verification/InterruptStore.thy ===== *)
theory InterruptStore
  imports Interrupt
begin

text \<open>
  The contract of \<open>interrupt.Store\<close> (\<open>interrupt/store.go\<close>) as a locale over the operations that change
  records, with what every implementation of it guarantees; the in-memory store implements it.
\<close>

section \<open>Operations and their effect on a record\<close>

datatype ('m, 'u, 'c) iop =
    OpCreate "('m, 'u, 'c) irecord"
  | OpSubmit string "decision list"
  | OpAcquire string string int
  | OpRelease string string
  | OpComplete string string
  | OpDelete string

text \<open>The answer: the error, and the decisions the call committed.\<close>

type_synonym ianswer = "go_error option \<times> string list"

fun op_target :: "string \<Rightarrow> ('m, 'u, 'c) iop \<Rightarrow> string" where
  "op_target fresh (OpCreate r) = fresh"
| "op_target fresh (OpSubmit i ds) = i"
| "op_target fresh (OpAcquire i owner ttl) = i"
| "op_target fresh (OpRelease i owner) = i"
| "op_target fresh (OpComplete i owner) = i"
| "op_target fresh (OpDelete i) = i"

definition on_record :: "(('m, 'u, 'c) irecord \<Rightarrow> go_error + ('m, 'u, 'c) irecord) \<Rightarrow> ('m, 'u, 'c) irecord option
      \<Rightarrow> ianswer \<times> ('m, 'u, 'c) irecord option" where
  "on_record f r =
     (case r of None \<Rightarrow> ((Some ErrNotFound, []), None)
      | Some rc \<Rightarrow> (case f rc of Inl e \<Rightarrow> ((Some e, []), Some rc) | Inr rc' \<Rightarrow> ((None, []), Some rc')))"

fun spec_op :: "int \<Rightarrow> string \<Rightarrow> ('m, 'u, 'c) iop \<Rightarrow> ('m, 'u, 'c) irecord option
      \<Rightarrow> ianswer \<times> ('m, 'u, 'c) irecord option" where
  "spec_op now fresh (OpCreate rc) r =
     (case validateNewRecord rc of
        Some e \<Rightarrow> ((Some e, []), r) | None \<Rightarrow> ((None, []), Some (stamp now fresh rc)))"
| "spec_op now fresh (OpSubmit i ds) r =
     (case r of None \<Rightarrow> ((Some ErrNotFound, []), None)
      | Some rc \<Rightarrow> (case applyDecisions now ds rc of (rc', committed, err) \<Rightarrow> ((err, committed), Some rc')))"
| "spec_op now fresh (OpAcquire i owner ttl) r =
     (if owner = '''' then ((Some (invalid ''%w: owner is empty'' []), []), r)
      else on_record (acquireLeaseOn owner ttl now) r)"
| "spec_op now fresh (OpRelease i owner) r = on_record (releaseLeaseOn owner now) r"
| "spec_op now fresh (OpComplete i owner) r = on_record (completeOn owner now) r"
| "spec_op now fresh (OpDelete i) r = ((None, []), None)"

section \<open>Single operations\<close>

lemma commitAudit_frame:
  "ir_Decisions (commitAudit now cs r) = ir_Decisions r \<and> ir_Pending (commitAudit now cs r) = ir_Pending r \<and>
   ir_LeaseOwner (commitAudit now cs r) = ir_LeaseOwner r \<and>
   ir_LeaseExpiresAt (commitAudit now cs r) = ir_LeaseExpiresAt r \<and>
   ir_ID (commitAudit now cs r) = ir_ID r \<and> ir_Version (commitAudit now cs r) = ir_Version r \<and>
   ir_Revision r \<le> ir_Revision (commitAudit now cs r) \<and>
   (ir_Status (commitAudit now cs r) = (if cs \<noteq> [] \<and> ir_Status r = StatusPending \<and>
      allDecided (ir_Pending r) (ir_Decisions r) then StatusReady else ir_Status r))"
  by (auto simp: commitAudit_def Let_def)

text \<open>
  Applying decisions: what is committed are new entries for pending calls, each named once; old
  entries stay; and the status becomes ready exactly when something was committed to a pending
  record that made it complete.
\<close>

lemma apply_loop_effect:
  assumes "apply_loop now cs ds r = (r', cs', err)"
  shows "\<exists>new. cs' = cs @ new \<and> distinct new \<and> set new \<subseteq> set (ir_Pending r) \<and>
      set new \<inter> dom (ir_Decisions r) = {} \<and> dom (ir_Decisions r') = dom (ir_Decisions r) \<union> set new \<and>
      ir_Decisions r \<subseteq>\<^sub>m ir_Decisions r' \<and> ir_Pending r' = ir_Pending r \<and>
      ir_LeaseOwner r' = ir_LeaseOwner r \<and> ir_LeaseExpiresAt r' = ir_LeaseExpiresAt r \<and>
      ir_ID r' = ir_ID r \<and> ir_Version r' = ir_Version r \<and> ir_Revision r \<le> ir_Revision r' \<and>
      ir_Status r' = (if cs' \<noteq> [] \<and> ir_Status r = StatusPending \<and>
        allDecided (ir_Pending r) (ir_Decisions r') then StatusReady else ir_Status r)"
  using assms
proof (induction ds arbitrary: cs r)
  case Nil
  then show ?case using commitAudit_frame [of now cs r] by (intro exI [of _ "[]"]) auto
next
  case (Cons d ds)
  let ?i = "d_ToolCallID d"
  show ?case
  proof (cases "?i \<in> set (ir_Pending r)")
    case False
    then show ?thesis using Cons.prems commitAudit_frame [of now cs r] by (intro exI [of _ "[]"]) auto
  next
    case pend: True
    show ?thesis
    proof (cases "ir_Decisions r ?i")
      case (Some old)
      show ?thesis
      proof (cases "same_decision old d")
        case True
        then show ?thesis using Cons pend Some by simp
      next
        case False
        then show ?thesis using Cons.prems pend Some commitAudit_frame [of now cs r] by (intro exI [of _ "[]"]) auto
      qed
    next
      case None
      define D where "D = (ir_Decisions r)(?i \<mapsto> d\<lparr>d_DecidedAt := now\<rparr>)"
      have "apply_loop now (cs @ [?i]) ds (r\<lparr>ir_Decisions := D\<rparr>) = (r', cs', err)"
        using Cons.prems pend None unfolding D_def by (simp add: Let_def)
      from Cons.IH [OF this] obtain new where
        new: "cs' = (cs @ [?i]) @ new" "distinct new" "set new \<subseteq> set (ir_Pending r)"
          "set new \<inter> dom D = {}" "dom (ir_Decisions r') = dom D \<union> set new" "D \<subseteq>\<^sub>m ir_Decisions r'" and
        rest: "ir_Pending r' = ir_Pending r" "ir_LeaseOwner r' = ir_LeaseOwner r"
          "ir_LeaseExpiresAt r' = ir_LeaseExpiresAt r" "ir_ID r' = ir_ID r" "ir_Version r' = ir_Version r"
          "ir_Revision r \<le> ir_Revision r'"
          "ir_Status r' = (if cs' \<noteq> [] \<and> ir_Status r = StatusPending \<and>
             allDecided (ir_Pending r) (ir_Decisions r') then StatusReady else ir_Status r)"
        by auto
      have "ir_Decisions r \<subseteq>\<^sub>m D" using None by (auto simp: map_le_def D_def)
      then have "ir_Decisions r \<subseteq>\<^sub>m ir_Decisions r'" using new(6) by (rule map_le_trans)
      moreover have "dom D = insert ?i (dom (ir_Decisions r))" by (simp add: D_def)
      ultimately show ?thesis using new(1-5) rest pend None
        by (intro exI [of _ "?i # new"]) auto
    qed
  qed
qed

lemma applyDecisions_effect:
  assumes "applyDecisions now ds r = (r', cs, err)"
  shows "distinct cs \<and> set cs \<subseteq> set (ir_Pending r) \<and> set cs \<inter> dom (ir_Decisions r) = {} \<and>
      dom (ir_Decisions r') = dom (ir_Decisions r) \<union> set cs \<and> ir_Decisions r \<subseteq>\<^sub>m ir_Decisions r'"
    and "ir_Pending r' = ir_Pending r \<and> ir_LeaseOwner r' = ir_LeaseOwner r \<and>
      ir_LeaseExpiresAt r' = ir_LeaseExpiresAt r \<and> ir_ID r' = ir_ID r \<and> ir_Version r' = ir_Version r \<and>
      ir_Revision r \<le> ir_Revision r'"
    and "ir_Status r' = (if cs \<noteq> [] \<and> ir_Status r = StatusPending \<and>
        allDecided (ir_Pending r) (ir_Decisions r') then StatusReady else ir_Status r)"
    and "ir_Status r = StatusCompleted \<Longrightarrow> r' = r"
proof -
  have "r' = r \<and> cs = []" if "ir_Status r = StatusCompleted"
    using assms that by (simp add: applyDecisions_def)
  moreover have "apply_loop now [] ds r = (r', cs, err)" if "ir_Status r \<noteq> StatusCompleted"
    using assms that by (simp add: applyDecisions_def)
  ultimately show "distinct cs \<and> set cs \<subseteq> set (ir_Pending r) \<and> set cs \<inter> dom (ir_Decisions r) = {} \<and>
      dom (ir_Decisions r') = dom (ir_Decisions r) \<union> set cs \<and> ir_Decisions r \<subseteq>\<^sub>m ir_Decisions r'"
    and "ir_Pending r' = ir_Pending r \<and> ir_LeaseOwner r' = ir_LeaseOwner r \<and>
      ir_LeaseExpiresAt r' = ir_LeaseExpiresAt r \<and> ir_ID r' = ir_ID r \<and> ir_Version r' = ir_Version r \<and>
      ir_Revision r \<le> ir_Revision r'"
    and "ir_Status r' = (if cs \<noteq> [] \<and> ir_Status r = StatusPending \<and>
        allDecided (ir_Pending r) (ir_Decisions r') then StatusReady else ir_Status r)"
    and "ir_Status r = StatusCompleted \<Longrightarrow> r' = r"
    using apply_loop_effect [of now "[]" ds r r' cs err] by (cases "ir_Status r = StatusCompleted"; force)+
qed

section \<open>The contract\<close>

text \<open>A history: for each call its surroundings, the time, the identifier drawn, and the operation.\<close>

type_synonym ('e, 'm, 'u, 'c) icall = "'e \<times> int \<times> string \<times> ('m, 'u, 'c) iop"

text \<open>The decisions for record \<open>i\<close> that the answers of a history claim to have committed.\<close>

fun commits :: "string \<Rightarrow> ('e, 'm, 'u, 'c) icall list \<Rightarrow> ianswer list \<Rightarrow> string list" where
  "commits i ((env, now, fresh, op) # h) (a # as) =
     (if op_target fresh op = i then snd a else []) @ commits i h as"
| "commits i h as = []"

text \<open>Histories in which record \<open>i\<close> is neither deleted nor overwritten by a new one.\<close>

fun replaces :: "string \<Rightarrow> string \<Rightarrow> ('m, 'u, 'c) iop \<Rightarrow> bool" where
  "replaces i fresh (OpCreate r) \<longleftrightarrow> fresh = i"
| "replaces i fresh (OpDelete j) \<longleftrightarrow> j = i"
| "replaces i fresh op \<longleftrightarrow> False"

definition drawn_valid :: "('e, 'm, 'u, 'c) icall list \<Rightarrow> bool" where
  "drawn_valid h \<longleftrightarrow> list_all (\<lambda>(env, now, fresh, op). validateID fresh = None) h"

definition keeps :: "string \<Rightarrow> ('e, 'm, 'u, 'c) icall list \<Rightarrow> bool" where
  "keeps i h \<longleftrightarrow> list_all (\<lambda>(env, now, fresh, op). \<not> replaces i fresh op) h"

text \<open>A history that leaves the lease of \<open>owner\<close> on record \<open>i\<close>, which ends at \<open>expiry\<close>, alone.\<close>

fun gives_up :: "string \<Rightarrow> string \<Rightarrow> ('m, 'u, 'c) iop \<Rightarrow> bool" where
  "gives_up i owner (OpRelease j o') \<longleftrightarrow> j = i \<and> o' = owner"
| "gives_up i owner (OpComplete j o') \<longleftrightarrow> j = i \<and> o' = owner"
| "gives_up i owner op \<longleftrightarrow> False"

definition during_lease :: "string \<Rightarrow> string \<Rightarrow> int \<Rightarrow> ('e, 'm, 'u, 'c) icall list \<Rightarrow> bool" where
  "during_lease i owner expiry h \<longleftrightarrow>
     keeps i h \<and> list_all (\<lambda>(env, now, fresh, op). now < expiry \<and> \<not> gives_up i owner op) h"

text \<open>Well-formedness of a record as the state machine means it.\<close>

definition wf_irecord :: "('m, 'u, 'c) irecord \<Rightarrow> bool" where
  "wf_irecord r \<longleftrightarrow> ir_Pending r \<noteq> [] \<and> distinct (ir_Pending r) \<and>
     dom (ir_Decisions r) \<subseteq> set (ir_Pending r) \<and> 1 \<le> ir_Revision r \<and>
     (ir_Status r = StatusPending \<longleftrightarrow> \<not> allDecided (ir_Pending r) (ir_Decisions r)) \<and>
     (ir_Status r = StatusResuming \<longleftrightarrow> ir_LeaseOwner r \<noteq> '''')"

text \<open>Calls that create records only with no decision and no lease, as the task agent does.\<close>

fun creates_fresh :: "('m, 'u, 'c) iop \<Rightarrow> bool" where
  "creates_fresh (OpCreate r) \<longleftrightarrow> ir_LeaseOwner r = '''' \<and> ir_Decisions r = Map.empty"
| "creates_fresh op \<longleftrightarrow> True"

text \<open>What one call does to the record it addresses.\<close>

lemma on_record_SomeD:
  assumes "on_record f (Some rc) = (a, r')"
  shows "snd a = [] \<and> ((\<exists>e. f rc = Inl e \<and> fst a = Some e \<and> r' = Some rc) \<or> (\<exists>rc'. f rc = Inr rc' \<and> fst a = None \<and> r' = Some rc'))"
  using assms by (cases "f rc") (auto simp: on_record_def)

lemma acquireLeaseOn_Inr:
  "acquireLeaseOn owner ttl now r = Inr r' \<longleftrightarrow>
     (ir_Status r = StatusReady \<or> ir_Status r = StatusResuming \<and> ir_LeaseExpiresAt r \<le> now) \<and>
     r' = r\<lparr>ir_Status := StatusResuming, ir_LeaseOwner := owner, ir_LeaseExpiresAt := now + ttl,
            ir_UpdatedAt := now, ir_Revision := ir_Revision r + 1\<rparr>"
  by (cases "ir_Status r") (auto simp: acquireLeaseOn_def)

lemma leave_lease_Inr:
  "leave_lease st owner now r = Inr r' \<longleftrightarrow>
     ir_Status r = StatusResuming \<and> ir_LeaseOwner r = owner \<and>
     r' = r\<lparr>ir_Status := st, ir_LeaseOwner := '''', ir_LeaseExpiresAt := 0, ir_UpdatedAt := now,
            ir_Revision := ir_Revision r + 1\<rparr>"
  by (auto simp: leave_lease_def)

lemmas lease_Inr = acquireLeaseOn_Inr leave_lease_Inr releaseLeaseOn_def completeOn_def

text \<open>The calls that may follow on an existing record, with what each one changes.\<close>

lemma spec_op_cases:
  assumes "spec_op now fresh op (Some rc) = (a, r')" and "\<not> replaces i fresh op" and "op_target fresh op = i"
  obtains (refused) "r' = Some rc" "snd a = []" "fst a \<noteq> None"
  | (submitted) ds rc' where "op = OpSubmit i ds" "applyDecisions now ds rc = (rc', snd a, fst a)" "r' = Some rc'"
  | (acquired) owner ttl rc' where "op = OpAcquire i owner ttl" "owner \<noteq> ''''" "fst a = None" "snd a = []"
      "acquireLeaseOn owner ttl now rc = Inr rc'" "r' = Some rc'"
  | (left) owner st rc' where "op = OpRelease i owner \<and> st = StatusReady \<or> op = OpComplete i owner \<and> st = StatusCompleted"
      "fst a = None" "snd a = []" "leave_lease st owner now rc = Inr rc'" "r' = Some rc'"
proof (cases op)
  case (OpSubmit j ds)
  obtain rc' cs err where "applyDecisions now ds rc = (rc', cs, err)" by (rule prod_cases3)
  then show thesis using assms OpSubmit by (intro submitted [of ds rc']) auto
next
  case (OpAcquire j owner ttl)
  show thesis
  proof (cases "owner = ''''")
    case True
    then show thesis using assms OpAcquire by (intro refused) auto
  next
    case False
    then show thesis using assms OpAcquire on_record_SomeD [of "acquireLeaseOn owner ttl now" rc a r']
      by (cases "acquireLeaseOn owner ttl now rc") (auto intro: refused acquired)
  qed
next
  case (OpRelease j owner)
  then show thesis using assms on_record_SomeD [of "releaseLeaseOn owner now" rc a r']
    by (cases "releaseLeaseOn owner now rc") (auto simp: releaseLeaseOn_def intro: refused left)
next
  case (OpComplete j owner)
  then show thesis using assms on_record_SomeD [of "completeOn owner now" rc a r']
    by (cases "completeOn owner now rc") (auto simp: completeOn_def intro: refused left)
qed (use assms in auto)

lemma spec_op_lease:
  assumes "spec_op now fresh op (Some rc) = (a, r')" and "\<not> replaces i fresh op" and "op_target fresh op = i"
    and "\<not> gives_up i owner op" and "now < x"
    and "ir_Status rc = StatusResuming" "ir_LeaseOwner rc = owner" "ir_LeaseExpiresAt rc = x"
  shows "\<exists>rc'. r' = Some rc' \<and> ir_Status rc' = StatusResuming \<and> ir_LeaseOwner rc' = owner \<and> ir_LeaseExpiresAt rc' = x"
  using assms(1-3)
proof (cases rule: spec_op_cases)
  case (submitted ds rc')
  then show ?thesis using applyDecisions_effect(2,3) [OF submitted(2)] assms(6-8) by simp
next
  case (left owner' st rc')
  then show ?thesis using assms(4-8) by (auto simp: lease_Inr)
qed (use assms in \<open>auto simp: lease_Inr\<close>)

lemma spec_op_decisions:
  assumes "spec_op now fresh op (Some rc) = (a, r')" and "\<not> replaces i fresh op" and "op_target fresh op = i"
  shows "\<exists>rc'. r' = Some rc' \<and> distinct (snd a) \<and> set (snd a) = dom (ir_Decisions rc') - dom (ir_Decisions rc) \<and>
     ir_Decisions rc \<subseteq>\<^sub>m ir_Decisions rc' \<and> ir_Pending rc' = ir_Pending rc \<and> ir_Revision rc \<le> ir_Revision rc'"
  using assms(1-3)
proof (cases rule: spec_op_cases)
  case (submitted ds rc')
  then show ?thesis using applyDecisions_effect(1,2) [OF submitted(2)] by auto
qed (auto simp: lease_Inr)

lemma spec_op_completed:
  assumes "spec_op now fresh op (Some rc) = (a, r')" and "\<not> replaces i fresh op" and "op_target fresh op = i"
    and "ir_Status rc = StatusCompleted"
  shows "r' = Some rc \<and> fst a \<noteq> None"
  using assms(1-3)
proof (cases rule: spec_op_cases)
  case (submitted ds rc')
  then show ?thesis using assms(4) by (cases a) (auto simp: applyDecisions_def)
qed (use assms(4) in \<open>auto simp: lease_Inr\<close>)

lemma check_pending_None:
  "check_pending known seen is = None \<Longrightarrow> distinct is \<and> set is \<inter> set seen = {} \<and> set is \<subseteq> set known"
  by (induction known seen "is" rule: check_pending.induct) (auto split: if_splits)

lemma validateNewRecord_None:
  assumes "validateNewRecord r = None"
  shows "ir_Pending r \<noteq> [] \<and> distinct (ir_Pending r) \<and> set (ir_Pending r) \<subseteq> fst ` set (ir_ToolCalls r)"
  using assms check_pending_None [of "map fst (ir_ToolCalls r)" "[]" "ir_Pending r"]
  by (auto simp: validateNewRecord_def split: if_splits option.splits)

lemma wf_stamp:
  assumes "validateNewRecord rc = None" and "ir_LeaseOwner rc = ''''" and "ir_Decisions rc = Map.empty"
  shows "wf_irecord (stamp now fresh rc)"
proof (cases "ir_Pending rc")
  case (Cons i ids)
  then show ?thesis using assms validateNewRecord_None [OF assms(1)]
    by (simp add: wf_irecord_def stamp_def initialStatus_def allDecided_def)
qed (use validateNewRecord_None [OF assms(1)] in simp)

lemma allDecided_mono:
  assumes "allDecided ps D" and "D \<subseteq>\<^sub>m D'"
  shows "allDecided ps D'"
proof -
  have "D' i \<noteq> None" if "i \<in> set ps" for i
  proof -
    have "D i \<noteq> None" using assms(1) that by (auto simp: allDecided_def list_all_iff split: option.splits)
    then show ?thesis using assms(2) by (metis domIff map_le_implies_dom_le subsetD)
  qed
  then show ?thesis by (auto simp: allDecided_def list_all_iff split: option.splits)
qed

lemma allDecided_cong:
  assumes "dom D' = dom D"
  shows "allDecided ps D' = allDecided ps D"
proof -
  have "D' i = None \<longleftrightarrow> D i = None" for i using assms by (metis domIff)
  then show ?thesis by (auto simp: allDecided_def list_all_iff split: option.splits)
qed

lemma wf_applyDecisions:
  assumes "applyDecisions now ds rc = (rc', cs, err)" and "wf_irecord rc"
  shows "wf_irecord rc'"
proof -
  note e = applyDecisions_effect(1,2,3) [OF assms(1)]
  have "allDecided (ir_Pending rc) (ir_Decisions rc') = allDecided (ir_Pending rc) (ir_Decisions rc)" if "cs = []"
    using e(1) that by (intro allDecided_cong) simp
  moreover have "allDecided (ir_Pending rc) (ir_Decisions rc) \<Longrightarrow> allDecided (ir_Pending rc) (ir_Decisions rc')"
    by (rule allDecided_mono) (use e(1) in auto)
  ultimately show ?thesis using e assms(2) by (auto simp: wf_irecord_def split: if_splits)
qed

lemma spec_op_wf:
  assumes "spec_op now fresh op r = (a, r')" and "creates_fresh op" and "\<forall>rc. r = Some rc \<longrightarrow> wf_irecord rc"
  shows "\<forall>rc. r' = Some rc \<longrightarrow> wf_irecord rc"
proof (cases "\<exists>i. replaces i fresh op")
  case True
  then show ?thesis using assms
    by (cases op) (auto simp: wf_stamp split: option.splits)
next
  case False
  show ?thesis
  proof (cases r)
    case None
    then show ?thesis using assms False by (cases op) (auto simp: on_record_def split: if_splits)
  next
    case (Some rc)
    have wf: "wf_irecord rc" using assms(3) Some by simp
    have n: "\<not> replaces (op_target fresh op) fresh op" using False by simp
    show ?thesis using assms(1) [unfolded Some] n refl
    proof (cases rule: spec_op_cases)
      case (submitted ds rc')
      then show ?thesis using wf_applyDecisions [OF submitted(2) wf] by simp
    next
      case (left owner st rc')
      then show ?thesis using wf by (auto simp: wf_irecord_def lease_Inr)
    qed (use wf in \<open>auto simp: wf_irecord_def lease_Inr\<close>)
  qed
qed

text \<open>
  The contract. An operation is refused with an error and changes nothing, or has the effect above
  on the record it addresses and none on the others.
\<close>

locale interrupt_store =
  fixes exec :: "'e \<Rightarrow> int \<Rightarrow> string \<Rightarrow> ('m, 'u, 'c) iop \<Rightarrow> 's \<Rightarrow> ianswer \<times> 's"
    and lookup :: "'s \<Rightarrow> string \<Rightarrow> ('m, 'u, 'c) irecord option"
    and inv :: "'s \<Rightarrow> bool"
  assumes exec_inv: "inv s \<Longrightarrow> validateID fresh = None \<Longrightarrow> exec env now fresh op s = (a, s') \<Longrightarrow> inv s'"
    and exec_effect: "inv s \<Longrightarrow> validateID fresh = None \<Longrightarrow> exec env now fresh op s = (a, s') \<Longrightarrow>
      (fst a \<noteq> None \<and> snd a = [] \<and> lookup s' = lookup s) \<or>
      (spec_op now fresh op (lookup s (op_target fresh op)) = (a, lookup s' (op_target fresh op)) \<and>
       (\<forall>i. i \<noteq> op_target fresh op \<longrightarrow> lookup s' i = lookup s i))"
begin

fun exec_all :: "('e, 'm, 'u, 'c) icall list \<Rightarrow> 's \<Rightarrow> ianswer list \<times> 's" where
  "exec_all [] s = ([], s)"
| "exec_all ((env, now, fresh, op) # h) s =
     (case exec env now fresh op s of (a, s1) \<Rightarrow> (case exec_all h s1 of (as, s2) \<Rightarrow> (a # as, s2)))"

text \<open>Any property of one record that its operations keep holds along a history.\<close>

lemma record_rule:
  assumes "exec_all h s = (as, s')" and "inv s" and "P (lookup s i)"
    and "drawn_valid h"
    and keep: "\<And>env now fresh op r a r'. (env, now, fresh, op) \<in> set h \<Longrightarrow> op_target fresh op = i \<Longrightarrow> P r \<Longrightarrow>
      spec_op now fresh op r = (a, r') \<Longrightarrow> P r'"
  shows "inv s' \<and> P (lookup s' i)"
  using assms
proof (induction h arbitrary: s as)
  case (Cons c h)
  obtain env now fresh op where c: "c = (env, now, fresh, op)" by (metis prod_cases4)
  obtain a s1 where e: "exec env now fresh op s = (a, s1)" by (rule prod.exhaust)
  obtain as2 s2 where r: "exec_all h s1 = (as2, s2)" by (rule prod.exhaust)
  have s': "s' = s2" using Cons.prems(1) e r c by simp
  have v: "validateID fresh = None" using Cons.prems(4) c by (simp add: drawn_valid_def)
  have i1: "inv s1" using exec_inv [OF Cons.prems(2) v e] .
  have "P (lookup s1 i)"
  proof (cases "op_target fresh op = i")
    case True
    consider "lookup s1 = lookup s" | "spec_op now fresh op (lookup s i) = (a, lookup s1 i)"
      using exec_effect [OF Cons.prems(2) v e] True by auto
    then show ?thesis
    proof cases
      case 2
      then show ?thesis using Cons.prems(5) [of env now fresh op "lookup s i"] Cons.prems(3) c True by simp
    qed (use Cons.prems(3) in simp)
  next
    case False
    then have "lookup s1 i = lookup s i" using exec_effect [OF Cons.prems(2) v e] by auto
    then show ?thesis using Cons.prems(3) by simp
  qed
  moreover have "drawn_valid h" using Cons.prems(4) by (simp add: drawn_valid_def)
  moreover have "P r'" if "(env, now, fresh, op) \<in> set h" "op_target fresh op = i" "P r"
      "spec_op now fresh op r = (a, r')" for env now fresh op r a r'
    using Cons.prems(5) [of env now fresh op r a r'] that by simp
  ultimately show ?case by (rule Cons.IH [OF r [folded s'] i1])
qed simp

text \<open>A lease: while it lasts and its owner neither releases nor completes, nobody gets another.\<close>

lemma exec_record:
  assumes "inv s" and "validateID fresh = None" and "exec env now fresh op s = (a, s')" and "op_target fresh op = i"
  shows "(fst a \<noteq> None \<and> snd a = [] \<and> lookup s' i = lookup s i) \<or>
     spec_op now fresh op (lookup s i) = (a, lookup s' i)"
  using exec_effect [OF assms(1-3)] assms(4) by auto

lemma lease_kept:
  assumes "exec_all h s = (as, s')" and "inv s" and "drawn_valid h" and "during_lease i owner x h"
    and "lookup s i = Some rc" and "ir_Status rc = StatusResuming" "ir_LeaseOwner rc = owner" "ir_LeaseExpiresAt rc = x"
  shows "\<exists>rc'. lookup s' i = Some rc' \<and> ir_Status rc' = StatusResuming \<and> ir_LeaseOwner rc' = owner \<and> ir_LeaseExpiresAt rc' = x"
proof -
  let ?P = "\<lambda>r. \<exists>rc. r = Some rc \<and> ir_Status rc = StatusResuming \<and> ir_LeaseOwner rc = owner \<and> ir_LeaseExpiresAt rc = x"
  have "?P (lookup s i)" using assms(5-8) by blast
  moreover have "?P r'" if "(env, now, fresh, op) \<in> set h" "op_target fresh op = i" and P: "?P r"
      and "spec_op now fresh op r = (a, r')" for env now fresh op r a r'
  proof -
    obtain rc where "r = Some rc" "ir_Status rc = StatusResuming" "ir_LeaseOwner rc = owner" "ir_LeaseExpiresAt rc = x"
      using P by blast
    moreover have "\<not> replaces i fresh op" "\<not> gives_up i owner op" "now < x"
      using assms(4) that(1) by (auto simp: during_lease_def keeps_def list_all_iff)
    ultimately show ?thesis using spec_op_lease [of now fresh op rc a r' i owner x] that(2,4) by simp
  qed
  ultimately have "inv s' \<and> ?P (lookup s' i)" by (rule record_rule [OF assms(1,2) _ assms(3)])
  then show ?thesis by blast
qed

lemma lease_exclusive:
  assumes "inv s" and "validateID fresh = None"
    and "exec env now fresh (OpAcquire i owner ttl) s = ((None, cs), s1)"
    and "exec_all h s1 = (as, s2)" and "drawn_valid h" and "during_lease i owner (now + ttl) h"
    and "validateID fresh' = None" and "now' < now + ttl"
    and "exec env' now' fresh' (OpAcquire i other ttl') s2 = (a, s3)"
  shows "fst a \<noteq> None"
proof -
  have i1: "inv s1" using exec_inv [OF assms(1-3)] .
  have sp: "spec_op now fresh (OpAcquire i owner ttl) (lookup s i) = ((None, cs), lookup s1 i)"
    using exec_record [OF assms(1-3)] by simp
  obtain rc where rc: "lookup s1 i = Some rc" "ir_Status rc = StatusResuming" "ir_LeaseOwner rc = owner"
      "ir_LeaseExpiresAt rc = now + ttl"
  proof (cases "lookup s i")
    case None
    then show thesis using sp by (simp add: on_record_def split: if_splits)
  next
    case (Some r0)
    then show thesis using sp that on_record_SomeD [of "acquireLeaseOn owner ttl now" r0 "(None, cs)" "lookup s1 i"]
      by (auto simp: lease_Inr split: if_splits)
  qed
  obtain rc' where rc': "lookup s2 i = Some rc'" "ir_Status rc' = StatusResuming" "ir_LeaseOwner rc' = owner"
      "ir_LeaseExpiresAt rc' = now + ttl"
    using lease_kept [OF assms(4) i1 assms(5,6) rc] by blast
  have i2: "inv s2" using record_rule [OF assms(4) i1, of "\<lambda>_. True" i] assms(5) by simp
  consider "fst a \<noteq> None" | "spec_op now' fresh' (OpAcquire i other ttl') (Some rc') = (a, lookup s3 i)"
    using exec_record [OF i2 assms(7,9), of i] rc'(1) by auto
  then show ?thesis
  proof cases
    case 2
    then show ?thesis using rc' assms(8)
        on_record_SomeD [of "acquireLeaseOn other ttl' now'" rc' a "lookup s3 i"]
      by (auto simp: lease_Inr split: if_splits)
  qed
qed

text \<open>Decisions: each is claimed by one call, the one that wrote it, and never changes.\<close>

lemma decisions_once:
  assumes "exec_all h s = (as, s')" and "inv s" and "drawn_valid h" and "keeps i h" and "lookup s i = Some rc"
  shows "\<exists>rc'. lookup s' i = Some rc' \<and> distinct (commits i h as) \<and>
     set (commits i h as) = dom (ir_Decisions rc') - dom (ir_Decisions rc) \<and>
     ir_Decisions rc \<subseteq>\<^sub>m ir_Decisions rc' \<and> ir_Pending rc' = ir_Pending rc \<and> ir_Revision rc \<le> ir_Revision rc'"
  using assms
proof (induction h arbitrary: s as rc)
  case (Cons c h)
  obtain env now fresh op where c: "c = (env, now, fresh, op)" by (metis prod_cases4)
  obtain a s1 where e: "exec env now fresh op s = (a, s1)" by (rule prod.exhaust)
  obtain as2 s2 where r: "exec_all h s1 = (as2, s2)" by (rule prod.exhaust)
  have s': "s' = s2" "as = a # as2" using Cons.prems(1) e r c by auto
  have v: "validateID fresh = None" "drawn_valid h" using Cons.prems(3) c by (auto simp: drawn_valid_def)
  have k: "\<not> replaces i fresh op" "keeps i h" using Cons.prems(4) c by (auto simp: keeps_def)
  have i1: "inv s1" using exec_inv [OF Cons.prems(2) v(1) e] .
  let ?own = "if op_target fresh op = i then snd a else []"
  obtain rc1 where rc1: "lookup s1 i = Some rc1" "distinct ?own"
      "set ?own = dom (ir_Decisions rc1) - dom (ir_Decisions rc)" "ir_Decisions rc \<subseteq>\<^sub>m ir_Decisions rc1"
      "ir_Pending rc1 = ir_Pending rc" "ir_Revision rc \<le> ir_Revision rc1"
  proof (cases "op_target fresh op = i")
    case True
    consider "snd a = []" "lookup s1 i = Some rc" | "spec_op now fresh op (Some rc) = (a, lookup s1 i)"
      using exec_record [OF Cons.prems(2) v(1) e True] Cons.prems(5) by auto
    then show thesis
    proof cases
      case 2
      then show thesis using spec_op_decisions [OF 2 k(1) True] that True by auto
    qed (use that True in simp)
  next
    case False
    then have "lookup s1 i = Some rc" using exec_effect [OF Cons.prems(2) v(1) e] Cons.prems(5) by auto
    then show thesis using that False by simp
  qed
  obtain rc' where rc': "lookup s2 i = Some rc'" "distinct (commits i h as2)"
      "set (commits i h as2) = dom (ir_Decisions rc') - dom (ir_Decisions rc1)"
      "ir_Decisions rc1 \<subseteq>\<^sub>m ir_Decisions rc'" "ir_Pending rc' = ir_Pending rc1" "ir_Revision rc1 \<le> ir_Revision rc'"
    using Cons.IH [OF r [folded s'(1)] i1 v(2) k(2) rc1(1)] s'(1) by blast
  have co: "commits i (c # h) as = ?own @ commits i h as2" by (simp add: c s'(2))
  have doms: "dom (ir_Decisions rc) \<subseteq> dom (ir_Decisions rc1)" "dom (ir_Decisions rc1) \<subseteq> dom (ir_Decisions rc')"
    using rc1(4) rc'(4) by (auto dest: map_le_implies_dom_le)
  have "distinct (commits i (c # h) as)"
    using rc1(2,3) rc'(2,3) unfolding co distinct_append by blast
  moreover have "set (commits i (c # h) as) = dom (ir_Decisions rc') - dom (ir_Decisions rc)"
    using rc1(3) rc'(3) doms unfolding co set_append by blast
  moreover have "ir_Decisions rc \<subseteq>\<^sub>m ir_Decisions rc'" using map_le_trans [OF rc1(4) rc'(4)] .
  ultimately show ?case using rc' rc1(5,6) s'(1) by (intro exI [of _ rc']) simp
qed simp

lemma completed_final:
  assumes "exec_all h s = (as, s')" and "inv s" and "drawn_valid h" and "keeps i h"
    and "lookup s i = Some rc" and "ir_Status rc = StatusCompleted"
  shows "lookup s' i = Some rc"
proof -
  have "r' = Some rc" if "(env, now, fresh, op) \<in> set h" "op_target fresh op = i" "r = Some rc"
      "spec_op now fresh op r = (a, r')" for env now fresh op r a r'
  proof -
    have "\<not> replaces i fresh op" using assms(4) that(1) by (auto simp: keeps_def list_all_iff)
    then show ?thesis using spec_op_completed [of now fresh op rc a r' i] that(2-4) assms(6) by simp
  qed
  from record_rule [where P = "\<lambda>r. r = Some rc", OF assms(1,2,5,3) this] show ?thesis by (rule conjunct2)
qed

lemma records_wf:
  assumes "exec_all h s = (as, s')" and "inv s" and "drawn_valid h"
    and "list_all (\<lambda>(env, now, fresh, op). creates_fresh op) h"
    and "\<forall>rc. lookup s i = Some rc \<longrightarrow> wf_irecord rc"
  shows "\<forall>rc. lookup s' i = Some rc \<longrightarrow> wf_irecord rc"
proof -
  have "\<forall>rc. r' = Some rc \<longrightarrow> wf_irecord rc" if "(env, now, fresh, op) \<in> set h" "op_target fresh op = i"
      "\<forall>rc. r = Some rc \<longrightarrow> wf_irecord rc" "spec_op now fresh op r = (a, r')" for env now fresh op r a r'
  proof -
    have "creates_fresh op" using assms(4) that(1) by (auto simp: list_all_iff)
    then show ?thesis using spec_op_wf [OF that(4) _ that(3)] by simp
  qed
  from record_rule [where P = "\<lambda>r. \<forall>rc. r = Some rc \<longrightarrow> wf_irecord rc", OF assms(1,2,5,3) this] show ?thesis by (rule conjunct2)
qed

end

section \<open>The in-memory store implements the contract\<close>

definition answer_of :: "(go_error + ('m, 'u, 'c) irecord) \<times> 's \<Rightarrow> ianswer \<times> 's" where
  "answer_of res = (case res of (Inl e, s) \<Rightarrow> ((Some e, []), s) | (Inr r, s) \<Rightarrow> ((None, []), s))"

text \<open>The surroundings of a call are the error of its context.\<close>

fun ms_exec :: "go_error option \<Rightarrow> int \<Rightarrow> string \<Rightarrow> ('m, 'u, 'c) iop \<Rightarrow> ('m, 'u, 'c) mapstore
      \<Rightarrow> ianswer \<times> ('m, 'u, 'c) mapstore" where
  "ms_exec ctx now fresh (OpCreate r) s = answer_of (ms_Create ctx now fresh (Some r) s)"
| "ms_exec ctx now fresh (OpSubmit i ds) s =
     (case ms_SubmitDecisions ctx now i ds s of ((r, committed, err), s') \<Rightarrow> ((err, committed), s'))"
| "ms_exec ctx now fresh (OpAcquire i owner ttl) s = answer_of (ms_AcquireLease ctx now i owner ttl s)"
| "ms_exec ctx now fresh (OpRelease i owner) s = answer_of (ms_ReleaseLease ctx now i owner s)"
| "ms_exec ctx now fresh (OpComplete i owner) s = answer_of (ms_Complete ctx now i owner s)"
| "ms_exec ctx now fresh (OpDelete i) s = (case ms_Delete ctx i s of (err, s') \<Rightarrow> ((err, []), s'))"

text \<open>A lease operation: refused, or what it does to the record it names.\<close>

lemma ms_lease_effect:
  assumes "answer_of (ms_lease f ctx i owner s) = (a, s')"
  shows "(fst a \<noteq> None \<and> snd a = [] \<and> map_of s' = map_of s) \<or>
     (owner \<noteq> '''' \<and> on_record f (map_of s i) = (a, map_of s' i) \<and> (\<forall>j. j \<noteq> i \<longrightarrow> map_of s' j = map_of s j))"
proof (cases "ctx = None \<and> validateID i = None \<and> owner \<noteq> ''''")
  case True
  show ?thesis
  proof (cases "map_of s i")
    case (Some r)
    then show ?thesis using assms True
      by (cases "f r") (auto simp: ms_lease_def answer_of_def on_record_def update_conv')
  qed (use assms True in \<open>auto simp: ms_lease_def answer_of_def\<close>)
qed (use assms in \<open>auto simp: ms_lease_def answer_of_def split: option.splits if_splits\<close>)

lemma ms_exec_effect:
  assumes "ms_exec ctx now fresh op s = (a, s')"
  shows "(fst a \<noteq> None \<and> snd a = [] \<and> map_of s' = map_of s) \<or>
     (spec_op now fresh op (map_of s (op_target fresh op)) = (a, map_of s' (op_target fresh op)) \<and>
      (\<forall>i. i \<noteq> op_target fresh op \<longrightarrow> map_of s' i = map_of s i))"
proof (cases op)
  case (OpCreate r)
  then show ?thesis using assms
    by (auto simp: ms_Create_def answer_of_def update_conv' split: option.splits)
next
  case (OpSubmit i ds)
  show ?thesis
  proof (cases "ctx = None \<and> validateID i = None")
    case True
    show ?thesis
    proof (cases "map_of s i")
      case None
      then show ?thesis using assms OpSubmit True by (auto simp: ms_SubmitDecisions_def)
    next
      case (Some r)
      obtain r' cs err where ad: "applyDecisions now ds r = (r', cs, err)" by (rule prod_cases3)
      show ?thesis using assms OpSubmit True Some ad
        by (cases "ir_Status r = StatusCompleted") (auto simp: ms_SubmitDecisions_def update_conv')
    qed
  qed (use assms OpSubmit in \<open>auto simp: ms_SubmitDecisions_def split: option.splits\<close>)
next
  case (OpAcquire i owner ttl)
  then show ?thesis using assms ms_lease_effect [of "acquireLeaseOn owner ttl now" ctx i owner s a s']
    by (auto simp: ms_AcquireLease_def)
next
  case (OpRelease i owner)
  then show ?thesis using assms ms_lease_effect [of "releaseLeaseOn owner now" ctx i owner s a s']
    by (auto simp: ms_ReleaseLease_def)
next
  case (OpComplete i owner)
  then show ?thesis using assms ms_lease_effect [of "completeOn owner now" ctx i owner s a s']
    by (auto simp: ms_Complete_def)
next
  case (OpDelete i)
  then show ?thesis using assms by (auto simp: ms_Delete_def delete_conv' split: option.splits)
qed

interpretation ms: interrupt_store ms_exec map_of "\<lambda>_. True"
  by unfold_locales (simp, rule ms_exec_effect)

text \<open>A run of the in-memory store over a history.\<close>

fun ms_run :: "(go_error option, 'm, 'u, 'c) icall list \<Rightarrow> ('m, 'u, 'c) mapstore \<Rightarrow> ianswer list \<times> ('m, 'u, 'c) mapstore" where
  "ms_run [] s = ([], s)"
| "ms_run ((ctx, now, fresh, op) # h) s =
     (case ms_exec ctx now fresh op s of (a, s1) \<Rightarrow> (case ms_run h s1 of (as, s2) \<Rightarrow> (a # as, s2)))"

lemma ms_run_exec_all: "ms_run h s = ms.exec_all h s"
  by (induction h arbitrary: s) (auto split: prod.splits)

section \<open>What the in-memory store guarantees\<close>

text \<open>
  One resumer at a time: from a successful AcquireLease until the lease ends, whatever other calls
  are made, by anyone (except that its owner releases or completes, or the record is deleted), every
  further AcquireLease on the record fails, for a valid call with ErrLeaseHeld.
\<close>

theorem one_resumer:
  assumes "ms_AcquireLease ctx now i owner ttl s = (Inr r, s1)" and "ms_run h s1 = (as, s2)"
    and "drawn_valid h" and "during_lease i owner (now + ttl) h" and "now' < now + ttl"
  shows "\<exists>e. ms_AcquireLease ctx' now' i other ttl' s2 = (Inl e, s2) \<and>
     (e = ErrLeaseHeld \<or> ctx' = Some e \<or> other = '''')"
proof -
  have v: "validateID i = None" "owner \<noteq> ''''"
    using assms(1) by (auto simp: ms_AcquireLease_def ms_lease_def split: option.splits if_splits)
  obtain rc where rc: "map_of s1 i = Some rc" "ir_Status rc = StatusResuming" "ir_LeaseOwner rc = owner"
      "ir_LeaseExpiresAt rc = now + ttl"
    using assms(1)
    by (auto simp: ms_AcquireLease_def ms_lease_def lease_Inr update_conv' split: option.splits if_splits sum.splits)
  obtain rc' where rc': "map_of s2 i = Some rc'" "ir_Status rc' = StatusResuming"
      "ir_LeaseExpiresAt rc' = now + ttl"
    using ms.lease_kept [OF assms(2) [unfolded ms_run_exec_all] _ assms(3,4) rc] by auto
  have "acquireLeaseOn other ttl' now' rc' = Inl ErrLeaseHeld"
    using rc' assms(5) by (simp add: acquireLeaseOn_def)
  then show ?thesis using rc'(1) v(1)
    by (cases ctx') (auto simp: ms_AcquireLease_def ms_lease_def)
qed

text \<open>A record with two calls waiting, for the instances below.\<close>

definition two_calls :: "(unit, unit, unit) irecord" where
  "two_calls = \<lparr>ir_Version = 0, ir_ID = '''', ir_SessionID = ''s'', ir_AgentID = ''a'', ir_Protocol = ''p'',
     ir_ToolCalls = [(''t1'', ()), (''t2'', ())], ir_Pending = [''t1'', ''t2''], ir_Decisions = Map.empty,
     ir_Messages = [], ir_SessionMsgCount = 0,
     ir_Params = \<lparr>ep_Model = ''m'', ep_Temperature = None, ep_MaxIterations = 1, ep_RunTokenBudget = 0,
       ep_MaxTokens = None, ep_ToolMode = '''', ep_ToolFilter = [], ep_StopSequences = []\<rparr>,
     ir_Iteration = 0, ir_Usage = (), ir_Estimated = False, ir_TokensConsumed = 0,
     ir_Policy = \<lparr>ps_Fingerprint = '''', ps_Calls = []\<rparr>, ir_Supersedes = '''', ir_Status = StatusReady,
     ir_Revision = 0, ir_LeaseOwner = '''', ir_LeaseExpiresAt = 0, ir_CreatedAt = 0, ir_UpdatedAt = 0\<rparr>"

definition yes :: "string \<Rightarrow> decision" where
  "yes i = \<lparr>d_ToolCallID = i, d_Content = '''', d_IsError = False, d_Execute = True, d_DecidedAt = 0\<rparr>"

lemma ids_ok [simp]: "validateID ''r1'' = None" "validateID ''r2'' = None"
  by code_simp+

text \<open>The history that creates the record, decides both calls and acquires the lease.\<close>

definition ready_history :: "(go_error option, unit, unit, unit) icall list" where
  "ready_history = [(None, 1, ''r1'', OpCreate two_calls), (None, 2, ''r2'', OpSubmit ''r1'' [yes ''t1'']),
     (None, 3, ''r2'', OpSubmit ''r1'' [yes ''t1'', yes ''t2'', yes ''t9''])]"

definition ready_store :: "(unit, unit, unit) mapstore" where
  "ready_store = snd (ms_run ready_history NewMapStore)"

theorem one_resumer_witness:
  "\<exists>e. ms_AcquireLease None 14 ''r1'' ''bob'' 100
     (snd (ms_run [(None, 11, ''r2'', OpRelease ''r1'' ''bob''), (None, 12, ''r2'', OpSubmit ''r1'' [yes ''t1''])]
       (snd (ms_AcquireLease None 10 ''r1'' ''amy'' 5 ready_store)))) = (Inl e,
     snd (ms_run [(None, 11, ''r2'', OpRelease ''r1'' ''bob''), (None, 12, ''r2'', OpSubmit ''r1'' [yes ''t1''])]
       (snd (ms_AcquireLease None 10 ''r1'' ''amy'' 5 ready_store)))) \<and>
     (e = ErrLeaseHeld \<or> None = Some e \<or> ''bob'' = '''')"
proof -
  let ?s1 = "snd (ms_AcquireLease None 10 ''r1'' ''amy'' 5 ready_store)"
  let ?h = "[(None, 11, ''r2'', OpRelease ''r1'' ''bob''), (None, 12, ''r2'', OpSubmit ''r1'' [yes ''t1''])]
    :: (go_error option, unit, unit, unit) icall list"
  have "case fst (ms_AcquireLease None 10 ''r1'' ''amy'' 5 ready_store) of Inr r \<Rightarrow> True | Inl e \<Rightarrow> False"
    by code_simp
  then obtain r where "ms_AcquireLease None 10 ''r1'' ''amy'' 5 ready_store = (Inr r, ?s1)"
    by (metis (no_types, lifting) prod.collapse sum.case_eq_if sum.collapse(2))
  then show ?thesis
    by (rule one_resumer [where h = ?h and as = "fst (ms_run ?h ?s1)"])
      (simp_all add: drawn_valid_def during_lease_def keeps_def)
qed

text \<open>
  C27. Decisions are written once: along any history in which a record is not deleted, its decisions only
  grow and never change, every answer that names a tool call as committed is the only one to do so, the
  answers name exactly the decisions that were added, the pending calls stay and the revision never falls.
\<close>

theorem decisions_claimed_once:
  assumes "ms_run h s = (as, s')" and "drawn_valid h" and "keeps i h" and "map_of s i = Some r"
  shows "\<exists>r'. map_of s' i = Some r' \<and> distinct (commits i h as) \<and>
     set (commits i h as) = dom (ir_Decisions r') - dom (ir_Decisions r) \<and>
     ir_Decisions r \<subseteq>\<^sub>m ir_Decisions r' \<and> ir_Pending r' = ir_Pending r \<and> ir_Revision r \<le> ir_Revision r'"
  using ms.decisions_once [OF assms(1) [unfolded ms_run_exec_all] _ assms(2-4)] by simp


text \<open>
  Completed is final: no call but a deletion changes a completed record, and every call on it other
  than Get and Delete returns an error.
\<close>

theorem completed_records_final:
  assumes "ms_run h s = (as, s')" and "drawn_valid h" and "keeps i h"
    and "map_of s i = Some r" and "ir_Status r = StatusCompleted"
    and "op_target fresh op = i" and "\<not> replaces i fresh op"
  shows "map_of s' i = Some r \<and> fst (fst (ms_exec ctx now fresh op s')) \<noteq> None"
proof -
  have r: "map_of s' i = Some r"
    using ms.completed_final [OF assms(1) [unfolded ms_run_exec_all] _ assms(2-5)] by simp
  obtain a s2 where e: "ms_exec ctx now fresh op s' = (a, s2)" by (rule prod.exhaust)
  from ms_exec_effect [OF e] show ?thesis
    using r e assms(5-7) spec_op_completed [of now fresh op r a "map_of s2 i" i] by auto
qed

text \<open>
  A record created with a decision for every pending call never becomes ready: Create sets it
  pending, SubmitDecisions moves it on only when it commits something, and nothing is left to commit.
\<close>

theorem predecided_never_ready:
  assumes "ms_Create ctx now fresh (Some rc) s = (Inr r, s1)" and "validateID fresh = None"
    and "allDecided (ir_Pending rc) (ir_Decisions rc)"
    and "ms_run h s1 = (as, s2)" and "drawn_valid h" and "keeps fresh h" and "owner \<noteq> ''''"
  shows "ms_AcquireLease None now' fresh owner ttl s2 = (Inl ErrNotReady, s2)"
proof -
  let ?P = "\<lambda>r. \<exists>rc. r = Some rc \<and> ir_Status rc = StatusPending \<and> set (ir_Pending rc) \<subseteq> dom (ir_Decisions rc)"
  have sub: "set (ir_Pending rc) \<subseteq> dom (ir_Decisions rc)"
    using assms(3) by (auto simp: allDecided_def list_all_iff split: option.splits)
  have "validateNewRecord rc = None" and s1: "map_of s1 fresh = Some (stamp now fresh rc)"
    using assms(1) by (auto simp: ms_Create_def update_conv' split: option.splits)
  then have "?P (map_of s1 fresh)"
    using validateNewRecord_None [of rc] sub by (auto simp: stamp_def initialStatus_def)
  moreover have "?P r'" if "(env, now, f, op) \<in> set h" and t: "op_target f op = fresh" and P: "?P r"
      and sp: "spec_op now f op r = (a, r')" for env now f op r a r'
  proof -
    obtain rc where rc: "r = Some rc" "ir_Status rc = StatusPending" "set (ir_Pending rc) \<subseteq> dom (ir_Decisions rc)"
      using P by blast
    have "\<not> replaces fresh f op" using assms(6) that(1) by (auto simp: keeps_def list_all_iff)
    with sp [unfolded rc(1)] show ?thesis using t
    proof (cases rule: spec_op_cases)
      case (submitted ds rc')
      have "set (snd a) \<subseteq> set (ir_Pending rc)" "set (snd a) \<inter> dom (ir_Decisions rc) = {}"
        using applyDecisions_effect(1) [OF submitted(2)] by simp_all
      then have "set (snd a) = {}" using subset_trans [OF _ rc(3)] Int_absorb2 by metis
      then have "snd a = []" by simp
      then show ?thesis using submitted applyDecisions_effect(1,2,3) [OF submitted(2)] rc by auto
    qed (use rc in \<open>auto simp: lease_Inr\<close>)
  qed
  ultimately have "True \<and> ?P (map_of s2 fresh)"
    by (rule ms.record_rule [OF assms(4) [unfolded ms_run_exec_all] TrueI _ assms(5)])
  then obtain rc' where "map_of s2 fresh = Some rc'" "ir_Status rc' = StatusPending" by blast
  then show ?thesis using assms(2,7) by (simp add: ms_AcquireLease_def ms_lease_def acquireLeaseOn_def)
qed

text \<open>
  Leaving a lease, exactly: ownership is checked by name and never by time, so the last owner still
  releases or completes a record whose lease has run out; every other caller, on a record in any other
  state, a completed one included, is refused with ErrLeaseNotOwned and changes nothing.
\<close>

theorem lease_exit_exact:
  assumes "map_of s i = Some r" and "validateID i = None" and "owner \<noteq> ''''"
  shows "let held = ir_Status r = StatusResuming \<and> ir_LeaseOwner r = owner;
             after = (\<lambda>st. r\<lparr>ir_Status := st, ir_LeaseOwner := '''', ir_LeaseExpiresAt := 0, ir_UpdatedAt := now,
                ir_Revision := ir_Revision r + 1\<rparr>) in
     ms_ReleaseLease None now i owner s =
       (if held then (Inr (after StatusReady), AList.update i (after StatusReady) s) else (Inl ErrLeaseNotOwned, s)) \<and>
     ms_Complete None now i owner s =
       (if held then (Inr (after StatusCompleted), AList.update i (after StatusCompleted) s)
        else (Inl ErrLeaseNotOwned, s))"
  using assms
  by (auto simp: ms_ReleaseLease_def ms_Complete_def ms_lease_def leave_lease_def releaseLeaseOn_def completeOn_def
      Let_def)

section \<open>Instances\<close>

theorem decisions_claimed_once_witness:
  "\<exists>r'. map_of ready_store ''r1'' = Some r' \<and>
     distinct (commits ''r1'' (tl ready_history) (fst (ms_run (tl ready_history) (snd (ms_run [hd ready_history] NewMapStore))))) \<and>
     set (commits ''r1'' (tl ready_history) (fst (ms_run (tl ready_history) (snd (ms_run [hd ready_history] NewMapStore))))) =
       dom (ir_Decisions r') - dom (ir_Decisions (stamp 1 ''r1'' two_calls)) \<and>
     ir_Decisions (stamp 1 ''r1'' two_calls) \<subseteq>\<^sub>m ir_Decisions r' \<and>
     ir_Pending r' = ir_Pending (stamp 1 ''r1'' two_calls) \<and> ir_Revision (stamp 1 ''r1'' two_calls) \<le> ir_Revision r'"
proof -
  let ?s = "snd (ms_run [hd ready_history] NewMapStore)"
  have v: "validateNewRecord two_calls = None" by code_simp
  have "ms_run (tl ready_history) ?s = (fst (ms_run (tl ready_history) ?s), ready_store)"
    by (simp add: ready_store_def ready_history_def split: prod.split)
  then show ?thesis
    by (rule decisions_claimed_once)
      (simp_all add: drawn_valid_def keeps_def ready_history_def NewMapStore_def ms_Create_def answer_of_def v)
qed


theorem completed_records_final_witness:
  "map_of (snd (ms_run [(None, 6, ''r2'', OpSubmit ''r1'' [yes ''t1''])] [(''r1'', two_calls\<lparr>ir_Status := StatusCompleted\<rparr>)])) ''r1'' =
     Some (two_calls\<lparr>ir_Status := StatusCompleted\<rparr>) \<and>
   fst (fst (ms_exec None 7 ''r2'' (OpAcquire ''r1'' ''amy'' 5)
     (snd (ms_run [(None, 6, ''r2'', OpSubmit ''r1'' [yes ''t1''])] [(''r1'', two_calls\<lparr>ir_Status := StatusCompleted\<rparr>)])))) \<noteq> None"
  by (rule completed_records_final [where h = "[(None, 6, ''r2'', OpSubmit ''r1'' [yes ''t1''])]"
        and s = "[(''r1'', two_calls\<lparr>ir_Status := StatusCompleted\<rparr>)]"
        and as = "fst (ms_run [(None, 6, ''r2'', OpSubmit ''r1'' [yes ''t1''])] [(''r1'', two_calls\<lparr>ir_Status := StatusCompleted\<rparr>)])"])
    (simp_all add: drawn_valid_def keeps_def)

theorem predecided_never_ready_witness:
  "ms_AcquireLease None 9 ''r1'' ''amy'' 5
     (snd (ms_run [(None, 6, ''r2'', OpSubmit ''r1'' [yes ''t1''])] (snd (ms_Create None 1 ''r1''
       (Some (two_calls\<lparr>ir_Decisions := [''t1'' \<mapsto> yes ''t1'', ''t2'' \<mapsto> yes ''t2'']\<rparr>)) NewMapStore)))) =
   (Inl ErrNotReady, (snd (ms_run [(None, 6, ''r2'', OpSubmit ''r1'' [yes ''t1''])] (snd (ms_Create None 1 ''r1''
       (Some (two_calls\<lparr>ir_Decisions := [''t1'' \<mapsto> yes ''t1'', ''t2'' \<mapsto> yes ''t2'']\<rparr>)) NewMapStore)))))"
proof -
  let ?rc = "two_calls\<lparr>ir_Decisions := [''t1'' \<mapsto> yes ''t1'', ''t2'' \<mapsto> yes ''t2'']\<rparr>"
  let ?s1 = "snd (ms_Create None 1 ''r1'' (Some ?rc) NewMapStore)"
  let ?h = "[(None, 6, ''r2'', OpSubmit ''r1'' [yes ''t1''])] :: (go_error option, unit, unit, unit) icall list"
  have v: "validateNewRecord ?rc = None" by code_simp
  have d: "allDecided (ir_Pending ?rc) (ir_Decisions ?rc)" by code_simp
  have c: "ms_Create None 1 ''r1'' (Some ?rc) NewMapStore = (Inr (stamp 1 ''r1'' ?rc), ?s1)"
    by (simp add: ms_Create_def v)
  show ?thesis
    by (rule predecided_never_ready [OF c _ d, where h = ?h and as = "fst (ms_run ?h ?s1)"])
      (simp_all add: drawn_valid_def keeps_def)
qed

theorem lease_exit_exact_witness:
  "let held = ir_Status two_calls = StatusResuming \<and> ir_LeaseOwner two_calls = ''amy'';
       after = (\<lambda>st. two_calls\<lparr>ir_Status := st, ir_LeaseOwner := '''', ir_LeaseExpiresAt := 0, ir_UpdatedAt := 9,
          ir_Revision := ir_Revision two_calls + 1\<rparr>) in
     ms_ReleaseLease None 9 ''r1'' ''amy'' [(''r1'', two_calls)] =
       (if held then (Inr (after StatusReady), AList.update ''r1'' (after StatusReady) [(''r1'', two_calls)])
        else (Inl ErrLeaseNotOwned, [(''r1'', two_calls)])) \<and>
     ms_Complete None 9 ''r1'' ''amy'' [(''r1'', two_calls)] =
       (if held then (Inr (after StatusCompleted), AList.update ''r1'' (after StatusCompleted) [(''r1'', two_calls)])
        else (Inl ErrLeaseNotOwned, [(''r1'', two_calls)]))"
  by (rule lease_exit_exact) simp_all

end
