(* ===== verification/Files.thy ===== *)
theory Files
  imports Prelude "HOL-Library.AList"
begin

text \<open>
  Directories of JSON files, as the file-backed stores use them: an association list of file names and
  contents. A content is the JSON text of a value, or a text that does not decode to one (with what its
  version field reads as, if anything). The stores replace a file by writing a temporary one and renaming
  it; \<open>atomic_write\<close> is the common body of their write functions as the list of its steps, so that a
  process may die between any two, and its lemma says that nobody sees a half-written file.
\<close>

datatype 'r content = Json 'r | Junk "int option"

type_synonym 'r dir = "(string \<times> 'r content) list"

datatype 'r fs_step = Put string "'r content" | Rename string string | Remove string

fun perform :: "'r fs_step \<Rightarrow> 'r dir \<Rightarrow> 'r dir" where
  "perform (Put n c) d = AList.update n c d"
| "perform (Rename a b) d =
     (case map_of d a of None \<Rightarrow> d | Some c \<Rightarrow> AList.update b c (AList.delete a d))"
| "perform (Remove n) d = AList.delete n d"

declare perform.simps [simp del]

text \<open>\<open>os.ReadDir\<close> sorts by file name.\<close>

definition dir_names :: "'r dir \<Rightarrow> string list" where
  "dir_names d = sort (map fst d)"

definition has_suffix :: "string \<Rightarrow> string \<Rightarrow> bool" where
  "has_suffix suf n \<longleftrightarrow> length suf \<le> length n \<and> drop (length n - length suf) n = suf"

lemma has_suffix_append [simp]: "has_suffix suf (n @ suf)"
  by (simp add: has_suffix_def)

text \<open>A missing file, and any other error of the operating system.\<close>

definition ErrNotExist :: go_error where
  "ErrNotExist = ErrNew ''os.ErrNotExist''"

definition errno :: "string \<Rightarrow> go_error" where
  "errno n = ErrNew (''errno: '' @ n)"

lemma errno_not_missing [simp]: "errno n \<noteq> ErrNotExist" "errors_is (errno n) ErrNotExist \<longleftrightarrow> False"
  by (simp_all add: errno_def ErrNotExist_def)

text \<open>What the file system answers a write; \<open>fw_partial\<close> is what the file holds until it is complete.\<close>

record 'r write_env =
  fw_open :: "go_error option"
  fw_encode :: "go_error option"
  fw_sync :: "go_error option"
  fw_close :: "go_error option"
  fw_rename :: "go_error option"
  fw_partial :: "'r content"
  fw_cleanup :: bool

definition cleanup :: "('r, 'z) write_env_scheme \<Rightarrow> string \<Rightarrow> 'r fs_step list" where
  "cleanup io tmp = (if fw_cleanup io then [Remove tmp] else [])"

text \<open>
  Error and steps of a write; errors begin with the name of the package, and the second step is called
  \<open>encode\<close> where the value is encoded into the file and \<open>write\<close> where it has been before.
\<close>

definition replace_file :: "string \<Rightarrow> string \<Rightarrow> ('r, 'z) write_env_scheme \<Rightarrow> string \<Rightarrow> 'r \<Rightarrow> go_error option \<times> 'r fs_step list" where
  "replace_file verb pkg io path v =
     (let tmp = path @ ''.tmp'' in
      case fw_open io of Some e \<Rightarrow> (Some (Errorf (pkg @ '': open tmp: %w'') [] (Some e)), [])
      | None \<Rightarrow>
     (case fw_encode io of
        Some e \<Rightarrow> (Some (Errorf (pkg @ '': '' @ verb @ '': %w'') [] (Some e)), Put tmp (fw_partial io) # cleanup io tmp)
      | None \<Rightarrow>
     (let written = [Put tmp (fw_partial io), Put tmp (Json v)] in
      case fw_sync io of Some e \<Rightarrow> (Some (Errorf (pkg @ '': fsync: %w'') [] (Some e)), written @ cleanup io tmp)
      | None \<Rightarrow>
     (case fw_close io of Some e \<Rightarrow> (Some (Errorf (pkg @ '': close tmp: %w'') [] (Some e)), written @ cleanup io tmp)
      | None \<Rightarrow>
     (case fw_rename io of Some e \<Rightarrow> (Some (Errorf (pkg @ '': rename: %w'') [] (Some e)), written @ cleanup io tmp)
      | None \<Rightarrow> (None, written @ [Rename tmp path]))))))"

definition atomic_write :: "string \<Rightarrow> ('r, 'z) write_env_scheme \<Rightarrow> string \<Rightarrow> 'r \<Rightarrow> go_error option \<times> 'r fs_step list" where
  "atomic_write = replace_file ''encode''"

definition write_clean :: "('r, 'z) write_env_scheme \<Rightarrow> bool" where
  "write_clean io \<longleftrightarrow> fw_open io = None \<and> fw_encode io = None \<and> fw_sync io = None \<and> fw_close io = None \<and>
     fw_rename io = None"

lemma replace_file_clean: "write_clean io \<Longrightarrow> \<exists>steps. replace_file verb pkg io path v = (None, steps)"
  by (simp add: replace_file_def write_clean_def Let_def)

lemma atomic_write_clean: "write_clean io \<Longrightarrow> \<exists>steps. atomic_write pkg io path v = (None, steps)"
  unfolding atomic_write_def by (rule replace_file_clean)

text \<open>
  After any prefix of the steps every file but the temporary one is the old one or, for the path written,
  the new one, the latter exactly when the write reports success and has taken all its steps.
\<close>

lemma map_of_perform:
  "map_of (perform (Put n c) d) = (map_of d)(n \<mapsto> c)"
  "map_of (perform (Remove n) d) = (map_of d)(n := None)"
  "map_of d a = Some c \<Longrightarrow> map_of (perform (Rename a b) d) = (map_of d)(a := None, b \<mapsto> c)"
  by (auto simp: perform.simps update_conv' delete_conv' fun_eq_iff)

lemma replace_file_effect:
  assumes "replace_file verb pkg io path v = (err, steps)" and "n \<noteq> path @ ''.tmp''"
  shows "map_of (fold perform (take k steps) d) n =
    (if err = None \<and> length steps \<le> k \<and> n = path then Some (Json v) else map_of d n)"
proof -
  let ?tmp = "path @ ''.tmp''"
  let ?written = "[Put ?tmp (fw_partial io), Put ?tmp (Json v)]"
  have clean: "map_of (fold perform (take k (cleanup io ?tmp)) d') n = map_of d' n" for k d'
    using assms(2) by (cases k) (simp_all add: cleanup_def map_of_perform)
  have short: "map_of (fold perform (take k (Put ?tmp (fw_partial io) # cleanup io ?tmp)) d) n = map_of d n"
    using clean assms(2) by (cases k) (simp_all add: map_of_perform)
  have long: "map_of (fold perform (take k (?written @ cleanup io ?tmp)) d) n = map_of d n"
    using clean assms(2) by (cases k; cases "k - 1") (simp_all add: map_of_perform)
  have renamed: "map_of (fold perform (take k (?written @ [Rename ?tmp path])) d) n =
      (if 3 \<le> k \<and> n = path then Some (Json v) else map_of d n)"
  proof -
    consider "k = 0" | "k = 1" | "k = 2" | m where "k = Suc (Suc (Suc m))"
      by (metis One_nat_def Suc_1 not0_implies_Suc)
    then show ?thesis
    proof cases
      case 4
      have "map_of (perform (Rename ?tmp path) (perform (Put ?tmp (Json v)) (perform (Put ?tmp (fw_partial io)) d))) n =
          (if n = path then Some (Json v) else map_of d n)"
        using assms(2) by (subst map_of_perform(3) [of _ _ "Json v"]) (simp_all add: map_of_perform)
      then show ?thesis using 4 by simp
    qed (use assms(2) in \<open>simp_all add: map_of_perform numeral_2_eq_2\<close>)
  qed
  consider (at_open) e where "fw_open io = Some e" | (encoding) e where "fw_open io = None" "fw_encode io = Some e"
    | (late) "fw_open io = None" "fw_encode io = None" "\<not> (fw_sync io = None \<and> fw_close io = None \<and> fw_rename io = None)"
    | (ok) "write_clean io"
    unfolding write_clean_def by (cases "fw_open io"; cases "fw_encode io"; blast)
  then show ?thesis
  proof cases
    case at_open
    then show ?thesis using assms by (auto simp: replace_file_def Let_def)
  next
    case encoding
    then have "err \<noteq> None" "steps = Put ?tmp (fw_partial io) # cleanup io ?tmp"
      using assms by (auto simp: replace_file_def Let_def)
    then show ?thesis using short by auto
  next
    case late
    then have "err \<noteq> None" "steps = ?written @ cleanup io ?tmp"
      using assms by (auto simp: replace_file_def Let_def split: option.splits)
    then show ?thesis using long by auto
  next
    case ok
    then have "err = None" "steps = ?written @ [Rename ?tmp path]"
      using assms by (simp_all add: replace_file_def write_clean_def Let_def)
    then show ?thesis using renamed by simp
  qed
qed

lemmas atomic_write_effect = replace_file_effect [of "''encode''", folded atomic_write_def]

corollary replace_file_done:
  assumes "replace_file verb pkg io path v = (err, steps)" and "n \<noteq> path @ ''.tmp''"
  shows "map_of (fold perform steps d) n = (if err = None \<and> n = path then Some (Json v) else map_of d n)"
  using replace_file_effect [OF assms, of "length steps" d] by simp

lemmas atomic_write_done = replace_file_done [of "''encode''", folded atomic_write_def]

end
