(* ===== verification/InterruptFile.thy ===== *)
theory InterruptFile
  imports InterruptStore Files
begin

text \<open>
  The file store of suspended batches (\<open>interrupt/filestore.go\<close>), one JSON file per record under a
  root directory. The directory is an association list of file names and contents and holds files
  only. A content is the JSON text of a record, or a text that does not decode to one (with what its
  version field reads as, if anything). Every call takes, beside the time, what the operating system
  answers it during the call: the faults of its file operations, the state of its context and the
  polls of the file lock. The exclusive lock of a record makes critical sections atomic, so a history
  of calls by any number of processes is a sequence.
\<close>

section \<open>The surroundings of a call\<close>

text \<open>What a poll of the lock finds: the answer of \<open>tryLockFile\<close>, the context, and the deadline.\<close>

record lock_poll =
  lp_try :: "go_error + bool"
  lp_ctx :: "go_error option"
  lp_late :: bool

record 'r file_env = "'r write_env" +
  fe_ctx :: "go_error option"
  fe_ctx_locked :: "go_error option"
  fe_ctx_entry :: "nat \<Rightarrow> go_error option"
  fe_lock_open :: "go_error option"
  fe_polls :: "lock_poll list"
  fe_read :: "string \<Rightarrow> string option"
  fe_decode :: go_error
  fe_remove :: "string option"
  fe_readdir :: "go_error option"

definition recordFileExt :: string where "recordFileExt = ''.json''"
definition recordTmpExt :: string where "recordTmpExt = ''.json.tmp''"
definition lockFileExt :: string where "lockFileExt = ''.lock''"

definition recordPath :: "string \<Rightarrow> string" where
  "recordPath i = i @ recordFileExt"

definition lockPath :: "string \<Rightarrow> string" where
  "lockPath i = i @ lockFileExt"

definition os_ReadFile :: "'r file_env \<Rightarrow> string \<Rightarrow> 'r dir \<Rightarrow> go_error + 'r content" where
  "os_ReadFile io i d =
     (case fe_read io i of Some n \<Rightarrow> Inl (errno n)
      | None \<Rightarrow> (case map_of d (recordPath i) of None \<Rightarrow> Inl ErrNotExist | Some c \<Rightarrow> Inr c))"

definition os_Remove :: "'r file_env \<Rightarrow> string \<Rightarrow> 'r dir \<Rightarrow> go_error option \<times> 'r dir" where
  "os_Remove io i d =
     (case fe_remove io of Some n \<Rightarrow> (Some (errno n), d)
      | None \<Rightarrow> (case map_of d (recordPath i) of
          None \<Rightarrow> (Some ErrNotExist, d) | Some c \<Rightarrow> (None, perform (Remove (recordPath i)) d)))"

section \<open>The lock\<close>

text \<open>The polls are those before the deadline; once they run out, the next one is past it.\<close>

fun poll_lock :: "string \<Rightarrow> lock_poll list \<Rightarrow> go_error option" where
  "poll_lock i [] = Some (Errorf ''interrupt: timed out waiting for lock on %q'' [AStr i] None)"
| "poll_lock i (p # ps) =
     (case lp_try p of
        Inl e \<Rightarrow> Some (Errorf ''interrupt: lock %q: %w'' [AStr (lockPath i)] (Some e))
      | Inr locked \<Rightarrow>
          (if locked then None
           else case lp_ctx p of
             Some e \<Rightarrow> Some e
           | None \<Rightarrow>
               (if lp_late p then Some (Errorf ''interrupt: timed out waiting for lock on %q'' [AStr i] None)
                else poll_lock i ps)))"

definition acquireFileLock :: "'r file_env \<Rightarrow> string \<Rightarrow> 'r dir \<Rightarrow> go_error option \<times> 'r dir" where
  "acquireFileLock io i d =
     (case fe_lock_open io of
        Some e \<Rightarrow> (Some (Errorf ''interrupt: open lock %q: %w'' [AStr (lockPath i)] (Some e)), d)
      | None \<Rightarrow>
          (poll_lock i (fe_polls io),
           (case map_of d (lockPath i) of None \<Rightarrow> perform (Put (lockPath i) (Junk None)) d | Some c \<Rightarrow> d)))"

text \<open>\<open>x\<close> is what the variables that \<open>fn\<close> assigns hold before it runs.\<close>

definition withExclusive :: "'r file_env \<Rightarrow> string \<Rightarrow> ('r dir \<Rightarrow> ('x \<times> go_error option) \<times> 'r dir) \<Rightarrow> 'x \<Rightarrow> 'r dir
      \<Rightarrow> ('x \<times> go_error option) \<times> 'r dir" where
  "withExclusive io i fn x d =
     (case fe_ctx io of Some e \<Rightarrow> ((x, Some e), d)
      | None \<Rightarrow>
     (case validateID i of Some e \<Rightarrow> ((x, Some e), d)
      | None \<Rightarrow>
     (case acquireFileLock io i d of (err, d1) \<Rightarrow>
     (case err of Some e \<Rightarrow> ((x, Some e), d1)
      | None \<Rightarrow>
     (case fe_ctx_locked io of Some e \<Rightarrow> ((x, Some e), d1)
      | None \<Rightarrow> fn d1)))))"

section \<open>Records in files\<close>

definition readRecord :: "('m, 'u, 'c) irecord file_env \<Rightarrow> string \<Rightarrow> ('m, 'u, 'c) irecord dir
      \<Rightarrow> go_error + ('m, 'u, 'c) irecord" where
  "readRecord io i d =
     (case os_ReadFile io i d of
        Inl e \<Rightarrow>
          (if errors_is e ErrNotExist then Inl ErrNotFound
           else Inl (Errorf ''interrupt: read %q: %w'' [AStr i] (Some e)))
      | Inr c \<Rightarrow>
     (case c of Junk v \<Rightarrow> Inl (Errorf ''interrupt: decode %q: %w'' [AStr i] (Some (fe_decode io)))
      | Json r \<Rightarrow> if versionReadable (ir_Version r) then Inr r else Inl ErrUnknownVersion))"

text \<open>The steps of \<open>writeRecord\<close> and its error.\<close>

definition writeRecord :: "('m, 'u, 'c) irecord file_env \<Rightarrow> ('m, 'u, 'c) irecord
      \<Rightarrow> go_error option \<times> ('m, 'u, 'c) irecord fs_step list" where
  "writeRecord io r = atomic_write ''interrupt'' io (recordPath (ir_ID r)) r"

text \<open>
  \<open>fn\<close> sees the record and returns the one to write or an error, beside what it leaves in
  the caller's variables.
\<close>

definition withRecordLock :: "('m, 'u, 'c) irecord file_env \<Rightarrow> string
      \<Rightarrow> (('m, 'u, 'c) irecord option \<Rightarrow> 'x \<times> (go_error + ('m, 'u, 'c) irecord)) \<Rightarrow> 'x \<Rightarrow> ('m, 'u, 'c) irecord dir
      \<Rightarrow> (('x \<times> ('m, 'u, 'c) irecord option) \<times> go_error option) \<times> ('m, 'u, 'c) irecord dir" where
  "withRecordLock io i fn x =
     withExclusive io i (\<lambda>d.
       let go = (\<lambda>cur. case fn cur of
           (y, Inl e) \<Rightarrow> (((y, None), Some e), d)
         | (y, Inr r) \<Rightarrow> (case writeRecord io r of (err, steps) \<Rightarrow> (((y, Some r), err), fold perform steps d))) in
       case readRecord io i d of
         Inl e \<Rightarrow> if errors_is e ErrNotFound then go None else (((x, None), Some e), d)
       | Inr r \<Rightarrow> go (Some r)) (x, None)"

section \<open>Operations\<close>

definition fs_Create :: "('m, 'u, 'c) irecord file_env \<Rightarrow> int \<Rightarrow> string \<Rightarrow> ('m, 'u, 'c) irecord option
      \<Rightarrow> ('m, 'u, 'c) irecord dir \<Rightarrow> go_error option \<times> ('m, 'u, 'c) irecord dir" where
  "fs_Create io now fresh r d =
     (case r of None \<Rightarrow> (Some (invalid ''%w: record is nil'' []), d)
      | Some rc \<Rightarrow>
     (case validateNewRecord rc of Some e \<Rightarrow> (Some e, d)
      | None \<Rightarrow>
     (case withRecordLock io fresh (\<lambda>cur. ((), Inr (stamp now fresh rc))) () d of ((res, err), d') \<Rightarrow> (err, d'))))"

definition fs_Get :: "('m, 'u, 'c) irecord file_env \<Rightarrow> string \<Rightarrow> ('m, 'u, 'c) irecord dir
      \<Rightarrow> go_error + ('m, 'u, 'c) irecord" where
  "fs_Get io i d =
     (case fe_ctx io of Some e \<Rightarrow> Inl e
      | None \<Rightarrow> (case validateID i of Some e \<Rightarrow> Inl e | None \<Rightarrow> readRecord io i d))"

definition submit_fn :: "int \<Rightarrow> decision list \<Rightarrow> ('m, 'u, 'c) irecord option
      \<Rightarrow> (string list \<times> go_error option) \<times> (go_error + ('m, 'u, 'c) irecord)" where
  "submit_fn now ds cur =
     (case cur of None \<Rightarrow> (([], None), Inl ErrNotFound)
      | Some r \<Rightarrow> (case applyDecisions now ds r of (r', committed, derr) \<Rightarrow>
          ((committed, derr),
           (case derr of None \<Rightarrow> Inr r' | Some e \<Rightarrow> if committed = [] then Inl e else Inr r'))))"

definition fs_SubmitDecisions :: "('m, 'u, 'c) irecord file_env \<Rightarrow> int \<Rightarrow> string \<Rightarrow> decision list
      \<Rightarrow> ('m, 'u, 'c) irecord dir
      \<Rightarrow> (('m, 'u, 'c) irecord option \<times> string list \<times> go_error option) \<times> ('m, 'u, 'c) irecord dir" where
  "fs_SubmitDecisions io now i ds d =
     (case validateID i of Some e \<Rightarrow> ((None, [], Some e), d)
      | None \<Rightarrow>
     (case withRecordLock io i (submit_fn now ds) ([], None) d of
        ((((committed, derr), next_r), err), d') \<Rightarrow>
          (case err of Some e \<Rightarrow> ((None, [], Some e), d')
           | None \<Rightarrow> ((next_r, committed, derr), d'))))"

text \<open>The common shape of the operations on a lease.\<close>

definition lease_fn :: "(('m, 'u, 'c) irecord \<Rightarrow> go_error + ('m, 'u, 'c) irecord) \<Rightarrow> ('m, 'u, 'c) irecord option
      \<Rightarrow> unit \<times> (go_error + ('m, 'u, 'c) irecord)" where
  "lease_fn f cur = ((), case cur of None \<Rightarrow> Inl ErrNotFound | Some r \<Rightarrow> f r)"

definition fs_lease :: "(('m, 'u, 'c) irecord \<Rightarrow> go_error + ('m, 'u, 'c) irecord) \<Rightarrow> ('m, 'u, 'c) irecord file_env
      \<Rightarrow> string \<Rightarrow> string \<Rightarrow> ('m, 'u, 'c) irecord dir
      \<Rightarrow> (('m, 'u, 'c) irecord option \<times> go_error option) \<times> ('m, 'u, 'c) irecord dir" where
  "fs_lease f io i owner d =
     (case validateID i of Some e \<Rightarrow> ((None, Some e), d)
      | None \<Rightarrow>
     (if owner = '''' then ((None, Some (invalid ''%w: owner is empty'' [])), d)
      else case withRecordLock io i (lease_fn f) () d of (((y, next_r), err), d') \<Rightarrow> ((next_r, err), d')))"

definition fs_AcquireLease :: "('m, 'u, 'c) irecord file_env \<Rightarrow> int \<Rightarrow> string \<Rightarrow> string \<Rightarrow> int
      \<Rightarrow> ('m, 'u, 'c) irecord dir
      \<Rightarrow> (('m, 'u, 'c) irecord option \<times> go_error option) \<times> ('m, 'u, 'c) irecord dir" where
  "fs_AcquireLease io now i owner ttl = fs_lease (acquireLeaseOn owner ttl now) io i owner"

definition fs_ReleaseLease :: "('m, 'u, 'c) irecord file_env \<Rightarrow> int \<Rightarrow> string \<Rightarrow> string
      \<Rightarrow> ('m, 'u, 'c) irecord dir
      \<Rightarrow> (('m, 'u, 'c) irecord option \<times> go_error option) \<times> ('m, 'u, 'c) irecord dir" where
  "fs_ReleaseLease io now i owner = fs_lease (releaseLeaseOn owner now) io i owner"

definition fs_Complete :: "('m, 'u, 'c) irecord file_env \<Rightarrow> int \<Rightarrow> string \<Rightarrow> string
      \<Rightarrow> ('m, 'u, 'c) irecord dir
      \<Rightarrow> (('m, 'u, 'c) irecord option \<times> go_error option) \<times> ('m, 'u, 'c) irecord dir" where
  "fs_Complete io now i owner = fs_lease (completeOn owner now) io i owner"

definition delete_fn :: "'r file_env \<Rightarrow> string \<Rightarrow> 'r dir \<Rightarrow> (unit \<times> go_error option) \<times> 'r dir" where
  "delete_fn io i d =
     (case os_Remove io i d of
        (None, d') \<Rightarrow> (((), None), d')
      | (Some e, d') \<Rightarrow> (((), if errors_is e ErrNotExist then None
           else Some (Errorf ''interrupt: delete %q: %w'' [AStr i] (Some e))), d'))"

definition fs_Delete :: "'r file_env \<Rightarrow> string \<Rightarrow> 'r dir \<Rightarrow> go_error option \<times> 'r dir" where
  "fs_Delete io i d = (case withExclusive io i (delete_fn io i) () d of ((x, err), d') \<Rightarrow> (err, d'))"

section \<open>Scans of the directory\<close>

definition record_file :: "string \<Rightarrow> bool" where
  "record_file n \<longleftrightarrow> has_suffix recordFileExt n \<and> \<not> has_suffix recordTmpExt n"

definition file_id :: "string \<Rightarrow> string" where
  "file_id n = take (length n - length recordFileExt) n"

fun list_loop :: "('m, 'u, 'c) irecord file_env \<Rightarrow> string \<Rightarrow> ('m, 'u, 'c) irecord dir \<Rightarrow> string list \<Rightarrow> imeta list" where
  "list_loop io session d [] = []"
| "list_loop io session d (n # ns) =
     (if \<not> record_file n then list_loop io session d ns
      else case readRecord io (file_id n) d of
        Inl e \<Rightarrow> list_loop io session d ns
      | Inr r \<Rightarrow>
          (if ir_SessionID r = session then metaFrom r # list_loop io session d ns
           else list_loop io session d ns))"

definition fs_List :: "('m, 'u, 'c) irecord file_env \<Rightarrow> string \<Rightarrow> ('m, 'u, 'c) irecord dir \<Rightarrow> go_error + imeta list" where
  "fs_List io session d =
     (case fe_ctx io of Some e \<Rightarrow> Inl e
      | None \<Rightarrow>
     (if session = '''' then Inl (invalid ''%w: session id is empty'' [])
      else case fe_readdir io of
        Some e \<Rightarrow> if errors_is e ErrNotExist then Inr []
                  else Inl (Errorf ''interrupt: read dir: %w'' [] (Some e))
      | None \<Rightarrow> Inr (list_loop io session d (dir_names d))))"

record version_audit =
  va_Current :: int
  va_Legacy :: int
  va_Unknown :: int
  va_UnknownIDs :: "string list"

definition maxAuditUnknownIDs :: nat where
  "maxAuditUnknownIDs = 20"

definition noteUnknown :: "string \<Rightarrow> version_audit \<Rightarrow> version_audit" where
  "noteUnknown i a =
     (let a1 = a\<lparr>va_Unknown := va_Unknown a + 1\<rparr> in
      if length (va_UnknownIDs a1) < maxAuditUnknownIDs then a1\<lparr>va_UnknownIDs := va_UnknownIDs a1 @ [i]\<rparr> else a1)"

text \<open>The version field of a file, decoded alone; a missing field reads as zero.\<close>

definition probe :: "('m, 'u, 'c) irecord content \<Rightarrow> int option" where
  "probe c = (case c of Json r \<Rightarrow> Some (ir_Version r) | Junk v \<Rightarrow> v)"

definition audit_file :: "('m, 'u, 'c) irecord file_env \<Rightarrow> ('m, 'u, 'c) irecord dir \<Rightarrow> string \<Rightarrow> version_audit \<Rightarrow> version_audit" where
  "audit_file io d i a =
     (case os_ReadFile io i d of Inl e \<Rightarrow> noteUnknown i a
      | Inr c \<Rightarrow>
     (case probe c of None \<Rightarrow> noteUnknown i a
      | Some v \<Rightarrow>
          (if v = CurrentVersion then a\<lparr>va_Current := va_Current a + 1\<rparr>
           else if v = 2 then a\<lparr>va_Legacy := va_Legacy a + 1\<rparr>
           else noteUnknown i a)))"

fun audit_loop :: "('m, 'u, 'c) irecord file_env \<Rightarrow> ('m, 'u, 'c) irecord dir \<Rightarrow> nat \<Rightarrow> string list \<Rightarrow> version_audit
      \<Rightarrow> go_error + version_audit" where
  "audit_loop io d k [] a = Inr a"
| "audit_loop io d k (n # ns) a =
     (case fe_ctx_entry io k of Some e \<Rightarrow> Inl e
      | None \<Rightarrow>
          (if \<not> record_file n then audit_loop io d (Suc k) ns a
           else audit_loop io d (Suc k) ns (audit_file io d (file_id n) a)))"

definition AuditVersions :: "('m, 'u, 'c) irecord file_env \<Rightarrow> ('m, 'u, 'c) irecord dir \<Rightarrow> go_error + version_audit" where
  "AuditVersions io d =
     (case fe_ctx io of Some e \<Rightarrow> Inl e
      | None \<Rightarrow>
     (case fe_readdir io of Some e \<Rightarrow> Inl (Errorf ''interrupt: read dir: %w'' [] (Some e))
      | None \<Rightarrow> audit_loop io d 0 (dir_names d) \<lparr>va_Current = 0, va_Legacy = 0, va_Unknown = 0, va_UnknownIDs = []\<rparr>))"

section \<open>Effect of a call on the records\<close>

text \<open>The records a directory holds, and what the files of the store always satisfy.\<close>

definition files :: "'r dir \<Rightarrow> string \<Rightarrow> 'r content option" where
  "files d i = map_of d (recordPath i)"

definition fs_lookup :: "('m, 'u, 'c) irecord dir \<Rightarrow> string \<Rightarrow> ('m, 'u, 'c) irecord option" where
  "fs_lookup d i = (case files d i of Some (Json r) \<Rightarrow> if versionReadable (ir_Version r) then Some r else None | _ \<Rightarrow> None)"

definition named_by_id :: "('m, 'u, 'c) irecord dir \<Rightarrow> bool" where
  "named_by_id d \<longleftrightarrow> (\<forall>i r. fs_lookup d i = Some r \<longrightarrow> ir_ID r = i)"

lemma path_simps [simp]:
  "recordPath i = recordPath j \<longleftrightarrow> i = j" "recordPath i \<noteq> lockPath j" "recordPath i \<noteq> recordPath j @ ''.tmp''"
  "lockPath j \<noteq> recordPath i" "recordPath j @ ''.tmp'' \<noteq> recordPath i"
proof -
  have l: "last (recordPath i) = CHR ''n''" "last (lockPath j) = CHR ''k''" "last (recordPath j @ ''.tmp'') = CHR ''p''" for i j
    by (simp_all add: recordPath_def lockPath_def recordFileExt_def lockFileExt_def)
  show "recordPath i = recordPath j \<longleftrightarrow> i = j" by (simp add: recordPath_def)
  show "recordPath i \<noteq> lockPath j" "lockPath j \<noteq> recordPath i" using l(1) [of i] l(2) [of j] by force+
  show "recordPath i \<noteq> recordPath j @ ''.tmp''" "recordPath j @ ''.tmp'' \<noteq> recordPath i"
    using l(1) [of i] l(3) [of j] by force+
qed

lemma files_perform [simp]:
  "files (perform (Put (lockPath j) c) d) = files d"
  "files (perform (Remove (recordPath j)) d) = (files d)(j := None)"
  by (auto simp: files_def fun_eq_iff map_of_perform)

text \<open>
  A write is atomic: after any prefix of its steps the record files are the old ones or those with the
  new record, the latter exactly when it reports success and has taken all its steps.
\<close>

lemma writeRecord_effect:
  assumes "writeRecord io r = (err, steps)"
  shows "files (fold perform (take n steps) d) =
    (if err = None \<and> length steps \<le> n then (files d)(ir_ID r \<mapsto> Json r) else files d)"
  using atomic_write_effect [OF assms [unfolded writeRecord_def]] by (auto simp: files_def fun_eq_iff)

lemma acquireFileLock_files:
  "acquireFileLock io i d = (err, d') \<Longrightarrow> files d' = files d"
  by (auto simp: acquireFileLock_def split: option.splits)

lemma readRecord_Inr: "readRecord io i d = Inr r \<Longrightarrow> fs_lookup d i = Some r"
  by (auto simp: readRecord_def os_ReadFile_def fs_lookup_def files_def
      split: option.splits content.splits sum.splits if_splits)

lemma withExclusive_cases:
  assumes "withExclusive io i fn x d = ((y, err), d')"
  obtains (refused) "y = x" "err \<noteq> None" "files d' = files d"
  | (entered) d1 where "files d1 = files d" "fn d1 = ((y, err), d')" "validateID i = None"
proof -
  obtain e1 d1 where l: "acquireFileLock io i d = (e1, d1)" by (rule prod.exhaust)
  then have "files d1 = files d" by (rule acquireFileLock_files)
  then show thesis using assms l refused entered
    by (cases err) (auto simp: withExclusive_def split: option.splits)
qed

lemma withRecordLock_cases:
  assumes "withRecordLock io i fn x d = (((y, next_r), err), d')"
  obtains (refused) "err \<noteq> None" "files d' = files d"
  | (written) cur r where "cur = None \<or> cur = fs_lookup d i" "fn cur = (y, Inr r)" "next_r = Some r" "err = None"
      "files d' = (files d)(ir_ID r \<mapsto> Json r)" "validateID i = None"
  using assms unfolding withRecordLock_def
proof (cases rule: withExclusive_cases)
  case refused
  then show thesis by (intro that(1))
next
  case (entered d1)
  note quit = that(1) and ok = that(2)
  let ?go = "\<lambda>cur. case fn cur of (y, Inl e) \<Rightarrow> (((y, None), Some e), d1)
    | (y, Inr r) \<Rightarrow> (case writeRecord io r of (err, steps) \<Rightarrow> (((y, Some r), err), fold perform steps d1))"
  have go: thesis if g: "?go cur = (((y, next_r), err), d')" and c: "cur = None \<or> cur = fs_lookup d i" for cur
  proof (cases "fn cur")
    case (Pair z v)
    show thesis
    proof (cases v)
      case (Inl e)
      then show thesis using g Pair entered(1) by (intro quit) auto
    next
      case (Inr r)
      obtain we steps where w: "writeRecord io r = (we, steps)" by (rule prod.exhaust)
      have d': "d' = fold perform (take (length steps) steps) d1" "err = we" "next_r = Some r" "z = y"
        using g Pair Inr w by auto
      show thesis
      proof (cases we)
        case None
        then show thesis using writeRecord_effect [OF w, of "length steps" d1] d' entered(1,3) Pair Inr c
          by (intro ok [of cur r]) auto
      next
        case (Some e)
        then show thesis using writeRecord_effect [OF w, of "length steps" d1] d' entered(1)
          by (intro quit) auto
      qed
    qed
  qed
  have look: "fs_lookup d1 i = fs_lookup d i" using entered(1) by (simp add: fs_lookup_def)
  show thesis
  proof (cases "readRecord io i d1")
    case (Inr r)
    then have "?go (Some r) = (((y, next_r), err), d')" using entered(2) by (simp add: Let_def)
    then show thesis using go [of "Some r"] readRecord_Inr [OF Inr] look by simp
  next
    case (Inl e)
    show thesis
    proof (cases "errors_is e ErrNotFound")
      case True
      then have "?go None = (((y, next_r), err), d')" using entered(2) Inl by (simp add: Let_def)
      then show thesis using go [of None] by simp
    next
      case False
      then show thesis using entered Inl by (intro quit) (auto simp: Let_def)
    qed
  qed
qed

section \<open>The file store implements the contract\<close>

fun fs_exec :: "('m, 'u, 'c) irecord file_env \<Rightarrow> int \<Rightarrow> string \<Rightarrow> ('m, 'u, 'c) iop \<Rightarrow> ('m, 'u, 'c) irecord dir
      \<Rightarrow> ianswer \<times> ('m, 'u, 'c) irecord dir" where
  "fs_exec io now fresh (OpCreate r) d = (case fs_Create io now fresh (Some r) d of (err, d') \<Rightarrow> ((err, []), d'))"
| "fs_exec io now fresh (OpSubmit i ds) d =
     (case fs_SubmitDecisions io now i ds d of ((r, committed, err), d') \<Rightarrow> ((err, committed), d'))"
| "fs_exec io now fresh (OpAcquire i owner ttl) d =
     (case fs_AcquireLease io now i owner ttl d of ((r, err), d') \<Rightarrow> ((err, []), d'))"
| "fs_exec io now fresh (OpRelease i owner) d =
     (case fs_ReleaseLease io now i owner d of ((r, err), d') \<Rightarrow> ((err, []), d'))"
| "fs_exec io now fresh (OpComplete i owner) d =
     (case fs_Complete io now i owner d of ((r, err), d') \<Rightarrow> ((err, []), d'))"
| "fs_exec io now fresh (OpDelete i) d = (case fs_Delete io i d of (err, d') \<Rightarrow> ((err, []), d'))"

lemma fs_lookup_cong: "files d' = files d \<Longrightarrow> fs_lookup d' = fs_lookup d"
  by (simp add: fs_lookup_def fun_eq_iff)

lemma fs_lookup_written:
  "files d' = (files d)(i \<mapsto> Json r) \<Longrightarrow> versionReadable (ir_Version r) \<Longrightarrow> fs_lookup d' = (fs_lookup d)(i \<mapsto> r)"
  by (auto simp: fs_lookup_def fun_eq_iff)

lemma fs_lookup_readable: "fs_lookup d i = Some r \<Longrightarrow> versionReadable (ir_Version r)"
  by (auto simp: fs_lookup_def split: option.splits content.splits if_splits)

lemma named_by_id_cong: "fs_lookup d' = fs_lookup d \<Longrightarrow> named_by_id d \<Longrightarrow> named_by_id d'"
  by (simp add: named_by_id_def)

lemma named_by_id_written: "fs_lookup d' = (fs_lookup d)(i \<mapsto> r) \<Longrightarrow> ir_ID r = i \<Longrightarrow> named_by_id d \<Longrightarrow> named_by_id d'"
  by (auto simp: named_by_id_def)

text \<open>What a call on record \<open>i\<close> does: nothing, with an error, or what the specification says.\<close>

definition call_ok :: "('m, 'u, 'c) irecord dir \<Rightarrow> string
      \<Rightarrow> (('m, 'u, 'c) irecord option \<Rightarrow> ianswer \<times> ('m, 'u, 'c) irecord option) \<Rightarrow> ianswer
      \<Rightarrow> ('m, 'u, 'c) irecord dir \<Rightarrow> bool" where
  "call_ok d i spec a d' \<longleftrightarrow> named_by_id d' \<and>
     ((fst a \<noteq> None \<and> snd a = [] \<and> fs_lookup d' = fs_lookup d) \<or>
      (spec (fs_lookup d i) = (a, fs_lookup d' i) \<and> (\<forall>j. j \<noteq> i \<longrightarrow> fs_lookup d' j = fs_lookup d j)))"

lemma call_refused: "named_by_id d \<Longrightarrow> files d' = files d \<Longrightarrow> err \<noteq> None \<Longrightarrow> call_ok d i spec (err, []) d'"
  using fs_lookup_cong [of d' d] named_by_id_cong [of d' d] by (simp add: call_ok_def)

lemma call_written:
  assumes "named_by_id d" and "files d' = (files d)(i \<mapsto> Json r)" and "versionReadable (ir_Version r)" and "ir_ID r = i"
    and "spec (fs_lookup d i) = (a, Some r)"
  shows "call_ok d i spec a d'"
  using fs_lookup_written [OF assms(2,3)] named_by_id_written [of d' d i r] assms(1,4,5) by (simp add: call_ok_def)

lemma fs_lease_effect:
  assumes "fs_lease f io i owner d = ((next_r, err), d')" and "named_by_id d"
    and keep: "\<And>r r'. f r = Inr r' \<Longrightarrow> ir_ID r' = ir_ID r \<and> ir_Version r' = ir_Version r"
  shows "call_ok d i (on_record f) (err, []) d' \<and> (owner = '''' \<longrightarrow> err \<noteq> None \<and> files d' = files d)"
proof (cases "validateID i = None \<and> owner \<noteq> ''''")
  case True
  obtain y nr e d1 where w: "withRecordLock io i (lease_fn f) () d = (((y, nr), e), d1)" by (metis prod.collapse)
  then have eqs: "err = e" "d' = d1" using assms(1) True by (auto simp: fs_lease_def)
  from w have "call_ok d i (on_record f) (e, []) d1"
  proof (cases rule: withRecordLock_cases)
    case refused
    then show ?thesis using call_refused [OF assms(2)] by blast
  next
    case (written cur r)
    then obtain r0 where r0: "fs_lookup d i = Some r0" "f r0 = Inr r"
      by (cases "fs_lookup d i") (auto simp: lease_fn_def split: option.splits)
    then have id: "ir_ID r = i" "versionReadable (ir_Version r)"
      using keep [OF r0(2)] assms(2) fs_lookup_readable [OF r0(1)] by (auto simp: named_by_id_def)
    show ?thesis
      by (rule call_written [OF assms(2) _ id(2,1)]) (use written id r0 in \<open>auto simp: on_record_def\<close>)
  qed
  then show ?thesis using eqs True by simp
next
  case False
  then have "err \<noteq> None" "files d' = files d" using assms(1)
    by (cases err; auto simp: fs_lease_def split: option.splits if_splits)+
  then show ?thesis using call_refused [OF assms(2)] by blast
qed

lemma fs_submit_effect:
  assumes "fs_SubmitDecisions io now i ds d = ((nr, committed, err), d')" and "named_by_id d"
  shows "call_ok d i (spec_op now fresh (OpSubmit i ds)) (err, committed) d'"
proof (cases "validateID i")
  case None
  obtain cs derr nr1 e d1 where w: "withRecordLock io i (submit_fn now ds) ([], None) d = ((((cs, derr), nr1), e), d1)"
    by (metis prod.collapse)
  then have eqs: "d' = d1" "(committed, err) = (case e of Some x \<Rightarrow> ([], Some x) | None \<Rightarrow> (cs, derr))"
    using assms(1) None by (auto simp: fs_SubmitDecisions_def split: option.splits)
  from w show ?thesis
  proof (cases rule: withRecordLock_cases)
    case refused
    then show ?thesis using call_refused [OF assms(2), of d1 err] eqs by auto
  next
    case (written cur r)
    then obtain r0 where r0: "fs_lookup d i = Some r0" "submit_fn now ds (Some r0) = ((cs, derr), Inr r)"
      by (cases "fs_lookup d i") (auto simp: submit_fn_def split: option.splits)
    then have ad: "applyDecisions now ds r0 = (r, cs, derr)"
      by (auto simp: submit_fn_def split: prod.splits option.splits if_splits)
    then have id: "ir_ID r = i" "versionReadable (ir_Version r)"
      using applyDecisions_effect(2) [OF ad] assms(2) r0(1) fs_lookup_readable [OF r0(1)]
      by (auto simp: named_by_id_def)
    show ?thesis unfolding eqs(1)
      by (rule call_written [OF assms(2) _ id(2,1)]) (use written id r0 ad eqs in auto)
  qed
next
  case (Some e)
  then have "err = Some e" "committed = []" "d' = d" using assms(1) by (simp_all add: fs_SubmitDecisions_def)
  then show ?thesis using call_refused [OF assms(2) refl, of "Some e"] by simp
qed

lemma fs_create_effect:
  assumes "fs_Create io now fresh (Some rc) d = (err, d')" and "named_by_id d"
  shows "call_ok d fresh (spec_op now fresh (OpCreate rc)) (err, []) d'"
proof (cases "validateNewRecord rc")
  case None
  obtain y nr e d1 where w: "withRecordLock io fresh (\<lambda>cur. ((), Inr (stamp now fresh rc))) () d = (((y, nr), e), d1)"
    by (metis prod.collapse)
  then have eqs: "err = e" "d' = d1" using assms(1) None by (auto simp: fs_Create_def)
  from w have "call_ok d fresh (spec_op now fresh (OpCreate rc)) (e, []) d1"
  proof (cases rule: withRecordLock_cases)
    case refused
    then show ?thesis using call_refused [OF assms(2)] by blast
  next
    case (written cur r)
    have id: "ir_ID r = fresh" "versionReadable (ir_Version r)"
      using written(2) by (auto simp: stamp_def versionReadable_def)
    show ?thesis
      by (rule call_written [OF assms(2) _ id(2,1)]) (use written id None in auto)
  qed
  then show ?thesis unfolding eqs .
next
  case (Some e)
  then have "err = Some e" "d' = d" using assms(1) by (simp_all add: fs_Create_def)
  then show ?thesis using call_refused [OF assms(2) refl, of "Some e"] by simp
qed

lemma fs_delete_effect:
  assumes "fs_Delete io i d = (err, d')" and "named_by_id d"
  shows "call_ok d i (spec_op now fresh (OpDelete i)) (err, []) d'"
proof -
  obtain x e d1 where w: "withExclusive io i (delete_fn io i) () d = ((x, e), d1)" by (metis prod.collapse)
  then have eqs: "err = e" "d' = d1" using assms(1) by (simp_all add: fs_Delete_def)
  from w have "call_ok d i (spec_op now fresh (OpDelete i)) (e, []) d1"
  proof (cases rule: withExclusive_cases)
    case refused
    then show ?thesis using call_refused [OF assms(2)] by blast
  next
    case (entered d2)
    show ?thesis
    proof (cases "fe_remove io")
      case (Some n)
      then have "e \<noteq> None" "d1 = d2" using entered(2) by (auto simp: os_Remove_def delete_fn_def)
      then show ?thesis using call_refused [OF assms(2)] entered(1) by blast
    next
      case None
      have "e = None \<and> files d1 = (files d)(i := None)"
      proof (cases "map_of d2 (recordPath i)")
        case None
        then have "files d2 i = None" by (simp add: files_def)
        then show ?thesis using entered(1,2) None \<open>fe_remove io = None\<close> by (auto simp: os_Remove_def delete_fn_def)
      next
        case (Some c)
        then show ?thesis using entered(1,2) \<open>fe_remove io = None\<close> by (auto simp: os_Remove_def delete_fn_def)
      qed
      then have "e = None" "fs_lookup d1 = (fs_lookup d)(i := None)" by (auto simp: fs_lookup_def fun_eq_iff)
      then show ?thesis using assms(2) by (auto simp: call_ok_def named_by_id_def)
    qed
  qed
  then show ?thesis unfolding eqs .
qed

lemma fs_exec_effect:
  assumes "fs_exec io now fresh op d = (a, d')" and "named_by_id d"
  shows "named_by_id d' \<and> ((fst a \<noteq> None \<and> snd a = [] \<and> fs_lookup d' = fs_lookup d) \<or>
     (spec_op now fresh op (fs_lookup d (op_target fresh op)) = (a, fs_lookup d' (op_target fresh op)) \<and>
      (\<forall>i. i \<noteq> op_target fresh op \<longrightarrow> fs_lookup d' i = fs_lookup d i)))"
proof -
  have "call_ok d (op_target fresh op) (spec_op now fresh op) a d'"
  proof (cases op)
    case (OpCreate r)
    then show ?thesis using assms fs_create_effect [of io now fresh r d _ d'] by (auto split: prod.splits)
  next
    case (OpSubmit i ds)
    then show ?thesis using assms fs_submit_effect [of io now i ds d _ _ _ d'] by (auto split: prod.splits)
  next
    case (OpAcquire i owner ttl)
    obtain nr err where f: "fs_lease (acquireLeaseOn owner ttl now) io i owner d = ((nr, err), d')" "a = (err, [])"
      using assms(1) OpAcquire by (auto simp: fs_AcquireLease_def split: prod.splits)
    note e = fs_lease_effect [OF f(1) assms(2)]
    have "call_ok d i (on_record (acquireLeaseOn owner ttl now)) (err, []) d'"
      "owner = '''' \<Longrightarrow> err \<noteq> None \<and> files d' = files d"
      using e by (auto simp: lease_Inr)
    then show ?thesis using OpAcquire f(2) assms(2) fs_lookup_cong [of d' d] named_by_id_cong [of d' d]
      by (cases "owner = ''''") (auto simp: call_ok_def)
  next
    case (OpRelease i owner)
    obtain nr err where f: "fs_lease (releaseLeaseOn owner now) io i owner d = ((nr, err), d')" "a = (err, [])"
      using assms(1) OpRelease by (auto simp: fs_ReleaseLease_def split: prod.splits)
    have "call_ok d i (on_record (releaseLeaseOn owner now)) (err, []) d'"
      using fs_lease_effect [OF f(1) assms(2)] by (auto simp: lease_Inr)
    then show ?thesis using OpRelease f(2) by (simp add: call_ok_def)
  next
    case (OpComplete i owner)
    obtain nr err where f: "fs_lease (completeOn owner now) io i owner d = ((nr, err), d')" "a = (err, [])"
      using assms(1) OpComplete by (auto simp: fs_Complete_def split: prod.splits)
    have "call_ok d i (on_record (completeOn owner now)) (err, []) d'"
      using fs_lease_effect [OF f(1) assms(2)] by (auto simp: lease_Inr)
    then show ?thesis using OpComplete f(2) by (simp add: call_ok_def)
  next
    case (OpDelete i)
    then show ?thesis using assms fs_delete_effect [of io i d _ d'] by (auto split: prod.splits)
  qed
  then show ?thesis by (simp add: call_ok_def)
qed

interpretation fs: interrupt_store fs_exec fs_lookup named_by_id
  by unfold_locales (use fs_exec_effect in blast)+

fun fs_run :: "(('m, 'u, 'c) irecord file_env, 'm, 'u, 'c) icall list \<Rightarrow> ('m, 'u, 'c) irecord dir
      \<Rightarrow> ianswer list \<times> ('m, 'u, 'c) irecord dir" where
  "fs_run [] d = ([], d)"
| "fs_run ((io, now, fresh, op) # h) d =
     (case fs_exec io now fresh op d of (a, d1) \<Rightarrow> (case fs_run h d1 of (as, d2) \<Rightarrow> (a # as, d2)))"

lemma fs_run_exec_all: "fs_run h d = fs.exec_all h d"
  by (induction h arbitrary: d) (auto split: prod.splits)

section \<open>Without faults the file store is the in-memory store\<close>

definition clean :: "string \<Rightarrow> 'r file_env \<Rightarrow> bool" where
  "clean i io \<longleftrightarrow> fe_ctx io = None \<and> fe_ctx_locked io = None \<and> fe_lock_open io = None \<and>
     poll_lock i (fe_polls io) = None \<and> fe_read io i = None \<and> write_clean io \<and> fe_remove io = None"

definition mirrors :: "('m, 'u, 'c) irecord dir \<Rightarrow> ('m, 'u, 'c) mapstore \<Rightarrow> bool" where
  "mirrors d s \<longleftrightarrow> files d = map_option Json \<circ> map_of s \<and>
     (\<forall>i r. map_of s i = Some r \<longrightarrow> ir_ID r = i \<and> versionReadable (ir_Version r))"

lemma mirrors_update:
  assumes "mirrors d s" and "files d' = (files d)(i \<mapsto> Json r)" and "ir_ID r = i" and "versionReadable (ir_Version r)"
  shows "mirrors d' (AList.update i r s)"
  using assms by (auto simp: mirrors_def update_conv' fun_eq_iff)

lemma mirrors_files: "mirrors d s \<Longrightarrow> files d' = files d \<Longrightarrow> mirrors d' s"
  by (simp add: mirrors_def)

lemma withExclusive_clean:
  assumes "clean i io" and "validateID i = None"
  obtains d1 where "files d1 = files d" "withExclusive io i fn x d = fn d1"
proof -
  obtain d1 where "acquireFileLock io i d = (None, d1)"
    using assms(1) by (simp add: acquireFileLock_def clean_def)
  then show thesis using that [of d1] assms acquireFileLock_files [of io i d None d1]
    by (simp add: withExclusive_def clean_def)
qed

lemma readRecord_clean:
  assumes "clean i io" and "mirrors d s" and "files d1 = files d"
  shows "readRecord io i d1 = (case map_of s i of None \<Rightarrow> Inl ErrNotFound | Some r \<Rightarrow> Inr r)"
proof -
  have f: "map_of d1 (recordPath i) = map_option Json (map_of s i)"
    using assms(2,3) by (simp add: mirrors_def files_def fun_eq_iff)
  show ?thesis
  proof (cases "map_of s i")
    case None
    then show ?thesis using f assms(1) by (simp add: readRecord_def os_ReadFile_def clean_def)
  next
    case (Some r)
    then have "versionReadable (ir_Version r)" using assms(2) by (auto simp: mirrors_def)
    then show ?thesis using f Some assms(1) by (simp add: readRecord_def os_ReadFile_def clean_def)
  qed
qed

text \<open>A critical section then sees the stored record and writes what it is told to.\<close>

lemma withRecordLock_clean:
  assumes "clean i io" and "mirrors d s" and "validateID i = None" and "fn (map_of s i) = (y, v)"
  obtains d' where "withRecordLock io i fn x d =
      (((y, case v of Inl e \<Rightarrow> None | Inr r \<Rightarrow> Some r), case v of Inl e \<Rightarrow> Some e | Inr r \<Rightarrow> None), d')"
    "files d' = (case v of Inl e \<Rightarrow> files d | Inr r \<Rightarrow> (files d)(ir_ID r \<mapsto> Json r))"
proof -
  let ?fn = "\<lambda>d. let go = (\<lambda>cur. case fn cur of
           (y, Inl e) \<Rightarrow> (((y, None), Some e), d)
         | (y, Inr r) \<Rightarrow> (case writeRecord io r of (err, steps) \<Rightarrow> (((y, Some r), err), fold perform steps d))) in
       case readRecord io i d of
         Inl e \<Rightarrow> if errors_is e ErrNotFound then go None else (((x, None), Some e), d)
       | Inr r \<Rightarrow> go (Some r)"
  obtain d1 where d1: "files d1 = files d" "withExclusive io i ?fn (x, None) d = ?fn d1"
    by (rule withExclusive_clean [OF assms(1,3)])
  have run: "?fn d1 = (case v of Inl e \<Rightarrow> (((y, None), Some e), d1)
      | Inr r \<Rightarrow> (case writeRecord io r of (err, steps) \<Rightarrow> (((y, Some r), err), fold perform steps d1)))"
    using readRecord_clean [OF assms(1,2) d1(1)] assms(4)
    by (cases "map_of s i"; cases v) (simp_all add: Let_def)
  show thesis
  proof (cases v)
    case (Inl e)
    then show thesis using that [of d1] run d1 by (simp add: withRecordLock_def)
  next
    case (Inr r)
    obtain steps where w: "writeRecord io r = (None, steps)"
      using assms(1) atomic_write_clean [of io "''interrupt''" "recordPath (ir_ID r)" r] by (auto simp: writeRecord_def clean_def)
    then have "files (fold perform steps d1) = (files d1)(ir_ID r \<mapsto> Json r)"
      using writeRecord_effect [OF w, of "length steps" d1] by simp
    then show thesis using that [of "fold perform steps d1"] run d1 w Inr by (simp add: withRecordLock_def)
  qed
qed

lemma applyDecisions_none:
  assumes "applyDecisions now ds r = (r', [], err)"
  shows "r' = r"
proof -
  have "cs' = [] \<Longrightarrow> r' = r" if "apply_loop now cs ds r = (r', cs', err)" for cs cs'
    using that
  proof (induction ds arbitrary: cs r)
    case (Cons d ds)
    have "cs' \<noteq> []" if "apply_loop now (cs @ [d_ToolCallID d]) ds q = (r', cs', err)" for q
      using apply_loop_effect [OF that] by auto
    then show ?case using Cons
      by (auto simp: Let_def commitAudit_def split: if_splits option.splits)
  qed (auto simp: commitAudit_def)
  then show ?thesis using assms by (auto simp: applyDecisions_def split: if_splits)
qed

lemma lease_clean:
  assumes "clean i io" and "mirrors d s" and "fs_lease f io i owner d = ((nr, err), d')"
    and keep: "\<And>r r'. f r = Inr r' \<Longrightarrow> ir_ID r' = ir_ID r \<and> ir_Version r' = ir_Version r"
  obtains s' where "answer_of (ms_lease f None i owner s) = ((err, []), s')" "mirrors d' s'"
proof (cases "validateID i = None \<and> owner \<noteq> ''''")
  case True
  define v where "v = (case map_of s i of None \<Rightarrow> Inl ErrNotFound | Some r \<Rightarrow> f r)"
  have lf: "lease_fn f (map_of s i) = ((), v)" by (simp add: lease_fn_def v_def)
  have vi: "validateID i = None" using True by simp
  obtain d1 where w: "withRecordLock io i (lease_fn f) () d =
      ((((), case v of Inl e \<Rightarrow> None | Inr r \<Rightarrow> Some r), case v of Inl e \<Rightarrow> Some e | Inr r \<Rightarrow> None), d1)"
    "files d1 = (case v of Inl e \<Rightarrow> files d | Inr r \<Rightarrow> (files d)(ir_ID r \<mapsto> Json r))"
    by (rule withRecordLock_clean [where fn = "lease_fn f", OF assms(1,2) vi lf])
  have eqs: "err = (case v of Inl e \<Rightarrow> Some e | Inr r \<Rightarrow> None)" "d' = d1"
    using assms(3) True by (simp_all add: fs_lease_def w(1))
  show thesis
  proof (cases v)
    case (Inl e)
    then have "ms_lease f None i owner s = (Inl e, s)"
      using True unfolding v_def by (cases "map_of s i") (simp_all add: ms_lease_def)
    then show thesis using that [of s] eqs Inl w(2) mirrors_files [OF assms(2), of d1] by (simp add: answer_of_def)
  next
    case (Inr r)
    then obtain r0 where r0: "map_of s i = Some r0" "f r0 = Inr r"
      unfolding v_def by (cases "map_of s i") simp_all
    then have "mirrors d1 (AList.update i r s)"
      using keep [OF r0(2)] assms(2) w(2) Inr by (intro mirrors_update) (auto simp: mirrors_def)
    then show thesis using that [of "AList.update i r s"] eqs Inr r0 True by (simp add: ms_lease_def answer_of_def)
  qed
next
  case False
  then show thesis using that [of s] assms(2,3)
    by (cases "validateID i") (auto simp: fs_lease_def ms_lease_def answer_of_def)
qed

lemma submit_clean:
  assumes "clean i io" and "mirrors d s" and "fs_SubmitDecisions io now i ds d = ((nr, committed, err), d')"
  obtains nr' s' where "ms_SubmitDecisions None now i ds s = ((nr', committed, err), s')" "mirrors d' s'"
proof (cases "validateID i")
  case None
  obtain cs derr v where fn: "submit_fn now ds (map_of s i) = ((cs, derr), v)" by (metis prod.collapse)
  obtain d1 where w: "withRecordLock io i (submit_fn now ds) ([], None) d =
      ((((cs, derr), case v of Inl e \<Rightarrow> None | Inr r \<Rightarrow> Some r), case v of Inl e \<Rightarrow> Some e | Inr r \<Rightarrow> None), d1)"
    "files d1 = (case v of Inl e \<Rightarrow> files d | Inr r \<Rightarrow> (files d)(ir_ID r \<mapsto> Json r))"
    by (rule withRecordLock_clean [where fn = "submit_fn now ds", OF assms(1,2) None fn])
  have d': "d' = d1" "(committed, err) = (case v of Inl e \<Rightarrow> ([], Some e) | Inr r \<Rightarrow> (cs, derr))"
    using assms(3) None w(1) by (cases v; simp add: fs_SubmitDecisions_def)+
  show thesis
  proof (cases "map_of s i")
    case None
    then show thesis using that [of None s] fn w(2) d' \<open>validateID i = None\<close> mirrors_files [OF assms(2), of d1]
      by (auto simp: submit_fn_def ms_SubmitDecisions_def)
  next
    case (Some r)
    obtain r' cs1 e1 where ad: "applyDecisions now ds r = (r', cs1, e1)" by (rule prod_cases3)
    have cs: "cs = cs1" "derr = e1" using fn Some ad by (auto simp: submit_fn_def)
    have id: "ir_ID r' = i" "versionReadable (ir_Version r')"
      using applyDecisions_effect(2) [OF ad] assms(2) Some by (auto simp: mirrors_def)
    show thesis
    proof (cases v)
      case (Inl e)
      then have c: "cs1 = []" "e1 = Some e" using fn Some ad by (auto simp: submit_fn_def split: option.splits if_splits)
      then have r': "r' = r" using applyDecisions_none ad by blast
      have m: "mirrors d1 s" using w(2) Inl mirrors_files [OF assms(2), of d1] by simp
      show thesis
      proof (cases "ir_Status r = StatusCompleted")
        case True
        then have "e = ErrAlreadyCompleted" using ad c by (simp add: applyDecisions_def)
        then show thesis using that [of None s] m d' Inl True Some \<open>validateID i = None\<close>
          by (simp add: ms_SubmitDecisions_def)
      next
        case False
        have "map_of (AList.update i r s) = map_of s" using Some by (auto simp: update_conv' fun_eq_iff)
        then have "mirrors d1 (AList.update i r s)" using m by (simp add: mirrors_def)
        then show thesis using that [of "Some r" "AList.update i r s"] d' Inl False Some ad c r' \<open>validateID i = None\<close>
          by (simp add: ms_SubmitDecisions_def)
      qed
    next
      case (Inr q)
      then have q: "q = r'" using fn Some ad by (auto simp: submit_fn_def split: option.splits if_splits)
      have nc: "ir_Status r \<noteq> StatusCompleted"
        using fn Some ad Inr by (auto simp: submit_fn_def applyDecisions_def split: option.splits if_splits)
      have "mirrors d1 (AList.update i r' s)"
        using w(2) Inr q id by (intro mirrors_update [OF assms(2)]) auto
      then show thesis using that [of "Some r'" "AList.update i r' s"] d' Inr q nc Some ad cs \<open>validateID i = None\<close>
        by (simp add: ms_SubmitDecisions_def)
    qed
  qed
next
  case (Some e)
  then show thesis using that [of None s] assms(2,3) by (simp add: fs_SubmitDecisions_def ms_SubmitDecisions_def)
qed

lemma exec_clean:
  assumes "clean (op_target fresh op) io" and "mirrors d s" and "validateID fresh = None"
    and "fs_exec io now fresh op d = (a, d')"
  obtains s' where "ms_exec None now fresh op s = (a, s')" "mirrors d' s'"
proof (cases op)
  case (OpCreate rc)
  show thesis
  proof (cases "validateNewRecord rc")
    case None
    obtain d1 where w: "withRecordLock io fresh (\<lambda>cur. ((), Inr (stamp now fresh rc))) () d =
        ((((), Some (stamp now fresh rc)), None), d1)" "files d1 = (files d)(fresh \<mapsto> Json (stamp now fresh rc))"
      using withRecordLock_clean [of fresh io d s "\<lambda>cur. ((), Inr (stamp now fresh rc))" "()" "Inr (stamp now fresh rc)" "()"]
        assms(1-3) OpCreate by (auto simp: stamp_def)
    have "mirrors d1 (AList.update fresh (stamp now fresh rc) s)"
      by (rule mirrors_update [OF assms(2) w(2)]) (simp_all add: stamp_def versionReadable_def)
    then show thesis using that assms(4) OpCreate None w(1)
      by (auto simp: fs_Create_def ms_Create_def answer_of_def)
  next
    case (Some e)
    then show thesis using that assms(2,4) OpCreate by (auto simp: fs_Create_def ms_Create_def answer_of_def)
  qed
next
  case (OpSubmit i ds)
  obtain nr cs err where f: "fs_SubmitDecisions io now i ds d = ((nr, cs, err), d')" "a = (err, cs)"
    using assms(4) OpSubmit by (auto split: prod.splits)
  obtain nr' s' where "ms_SubmitDecisions None now i ds s = ((nr', cs, err), s')" "mirrors d' s'"
    using submit_clean [OF _ assms(2) f(1)] assms(1) OpSubmit by auto
  then show thesis using that f(2) OpSubmit by simp
next
  case (OpAcquire i owner ttl)
  obtain nr err where f: "fs_lease (acquireLeaseOn owner ttl now) io i owner d = ((nr, err), d')" "a = (err, [])"
    using assms(4) OpAcquire by (auto simp: fs_AcquireLease_def split: prod.splits)
  obtain s' where "answer_of (ms_lease (acquireLeaseOn owner ttl now) None i owner s) = ((err, []), s')" "mirrors d' s'"
    using lease_clean [OF _ assms(2) f(1)] assms(1) OpAcquire by (auto simp: lease_Inr)
  then show thesis using that f(2) OpAcquire by (simp add: ms_AcquireLease_def)
next
  case (OpRelease i owner)
  obtain nr err where f: "fs_lease (releaseLeaseOn owner now) io i owner d = ((nr, err), d')" "a = (err, [])"
    using assms(4) OpRelease by (auto simp: fs_ReleaseLease_def split: prod.splits)
  obtain s' where "answer_of (ms_lease (releaseLeaseOn owner now) None i owner s) = ((err, []), s')" "mirrors d' s'"
    using lease_clean [OF _ assms(2) f(1)] assms(1) OpRelease by (auto simp: lease_Inr)
  then show thesis using that f(2) OpRelease by (simp add: ms_ReleaseLease_def)
next
  case (OpComplete i owner)
  obtain nr err where f: "fs_lease (completeOn owner now) io i owner d = ((nr, err), d')" "a = (err, [])"
    using assms(4) OpComplete by (auto simp: fs_Complete_def split: prod.splits)
  obtain s' where "answer_of (ms_lease (completeOn owner now) None i owner s) = ((err, []), s')" "mirrors d' s'"
    using lease_clean [OF _ assms(2) f(1)] assms(1) OpComplete by (auto simp: lease_Inr)
  then show thesis using that f(2) OpComplete by (simp add: ms_Complete_def)
next
  case (OpDelete i)
  show thesis
  proof (cases "validateID i")
    case None
    obtain d1 where d1: "files d1 = files d" "withExclusive io i (delete_fn io i) () d = delete_fn io i d1"
      by (rule withExclusive_clean [OF _ None]) (use assms(1) OpDelete in simp)
    have "fe_remove io = None" using assms(1) by (simp add: clean_def)
    have res: "fst a = None \<and> snd a = [] \<and> files d' = (files d)(i := None)"
    proof (cases "map_of d1 (recordPath i)")
      case None
      then have "files d i = None" using d1(1) by (metis files_def)
      then show ?thesis using assms(4) OpDelete d1 None \<open>fe_remove io = None\<close>
        by (auto simp: fs_Delete_def delete_fn_def os_Remove_def)
    next
      case (Some c)
      then show ?thesis using assms(4) OpDelete d1 \<open>fe_remove io = None\<close>
        by (auto simp: fs_Delete_def delete_fn_def os_Remove_def)
    qed
    then have "mirrors d' (AList.delete i s)" "a = (None, [])"
      using assms(2) by (auto simp: mirrors_def delete_conv' fun_eq_iff prod_eq_iff)
    then show thesis using that OpDelete None by (simp add: ms_Delete_def)
  next
    case (Some e)
    then show thesis using that assms(1,2,4) OpDelete
      by (auto simp: fs_Delete_def withExclusive_def ms_Delete_def clean_def)
  qed
qed

section \<open>What the file store guarantees\<close>

definition fault_free :: "(('m, 'u, 'c) irecord file_env, 'm, 'u, 'c) icall list \<Rightarrow> bool" where
  "fault_free h \<longleftrightarrow> list_all (\<lambda>(io, now, fresh, op). clean (op_target fresh op) io \<and> validateID fresh = None) h"


text \<open>
  Writes are atomic: if the process dies after any number of the steps of writeRecord, whatever the
  file system answered, a later read of any record finds the old file, or, once all steps of a successful
  write are taken, the new one; a write that fails leaves every record as it was.
\<close>

theorem write_atomic:
  "let (err, steps) = writeRecord io r in
   readRecord io' j (fold perform (take n steps) d) =
     readRecord io' j (if err = None \<and> length steps \<le> n then AList.update (recordPath (ir_ID r)) (Json r) d else d)"
proof -
  obtain err steps where w: "writeRecord io r = (err, steps)" by (rule prod.exhaust)
  have cong: "readRecord io' j a = readRecord io' j b" if "files a = files b" for a b
  proof -
    have "map_of a (recordPath j) = map_of b (recordPath j)" using that by (metis files_def)
    then have "os_ReadFile io' j a = os_ReadFile io' j b" unfolding os_ReadFile_def by (rule arg_cong)
    then show ?thesis unfolding readRecord_def by (rule arg_cong)
  qed
  have "files (AList.update (recordPath (ir_ID r)) (Json r) d) = (files d)(ir_ID r \<mapsto> Json r)"
    by (auto simp: files_def update_conv' fun_eq_iff)
  then have "files (fold perform (take n steps) d) =
      files (if err = None \<and> length steps \<le> n then AList.update (recordPath (ir_ID r)) (Json r) d else d)"
    using writeRecord_effect [OF w, of n d] by simp
  from cong [OF this] show ?thesis unfolding w by simp
qed


text \<open>The scan of a list of file names, as counts.\<close>

lemma noteUnknown_fields:
  "va_Current (noteUnknown i a) = va_Current a" "va_Legacy (noteUnknown i a) = va_Legacy a"
  "va_Unknown (noteUnknown i a) = va_Unknown a + 1"
  "va_UnknownIDs (noteUnknown i a) @ take (20 - length (va_UnknownIDs (noteUnknown i a))) is =
   va_UnknownIDs a @ take (20 - length (va_UnknownIDs a)) (i # is)"
proof -
  have "20 - length (va_UnknownIDs a) = Suc (20 - Suc (length (va_UnknownIDs a)))" if "length (va_UnknownIDs a) < 20"
    using that by simp
  then show "va_UnknownIDs (noteUnknown i a) @ take (20 - length (va_UnknownIDs (noteUnknown i a))) is =
      va_UnknownIDs a @ take (20 - length (va_UnknownIDs a)) (i # is)"
    by (cases "length (va_UnknownIDs a) < 20") (simp_all add: noteUnknown_def maxAuditUnknownIDs_def)
qed (simp_all add: noteUnknown_def Let_def)

definition tally :: "(string \<Rightarrow> int option) \<Rightarrow> string list \<Rightarrow> version_audit \<Rightarrow> version_audit" where
  "tally version ids a =
     (let unknown = filter (\<lambda>i. version i \<noteq> Some CurrentVersion \<and> version i \<noteq> Some 2) ids in
      \<lparr>va_Current = va_Current a + int (length (filter (\<lambda>i. version i = Some CurrentVersion) ids)),
       va_Legacy = va_Legacy a + int (length (filter (\<lambda>i. version i = Some 2) ids)),
       va_Unknown = va_Unknown a + int (length unknown),
       va_UnknownIDs = va_UnknownIDs a @ take (20 - length (va_UnknownIDs a)) unknown\<rparr>)"

lemma tally_Cons:
  "tally version (i # ids) a = tally version ids
     (if version i = Some CurrentVersion then a\<lparr>va_Current := va_Current a + 1\<rparr>
      else if version i = Some 2 then a\<lparr>va_Legacy := va_Legacy a + 1\<rparr> else noteUnknown i a)"
proof -
  have two: "Some 2 \<noteq> Some CurrentVersion" by (simp add: CurrentVersion_def)
  consider "version i = Some CurrentVersion" | "version i = Some 2" "version i \<noteq> Some CurrentVersion"
    | "version i \<noteq> Some CurrentVersion" "version i \<noteq> Some 2" by blast
  then show ?thesis
    by cases (use two in \<open>simp_all add: tally_def Let_def noteUnknown_fields del: take_Suc_Cons\<close>)
qed

lemma audit_loop_tally:
  assumes "\<forall>k. fe_ctx_entry io k = None"
  shows "audit_loop io d k ns a = Inr (tally (\<lambda>i. case os_ReadFile io i d of Inl e \<Rightarrow> None | Inr c \<Rightarrow> probe c)
     (map file_id (filter record_file ns)) a)"
proof (induction ns arbitrary: k a)
  case Nil
  then show ?case by (simp add: tally_def)
next
  case (Cons n ns)
  let ?v = "\<lambda>i. case os_ReadFile io i d of Inl e \<Rightarrow> None | Inr c \<Rightarrow> probe c"
  have one: "audit_file io d i a =
     (if ?v i = Some CurrentVersion then a\<lparr>va_Current := va_Current a + 1\<rparr>
      else if ?v i = Some 2 then a\<lparr>va_Legacy := va_Legacy a + 1\<rparr> else noteUnknown i a)" for i
    by (auto simp: audit_file_def split: sum.splits option.splits)
  show ?case using assms Cons.IH [of "Suc k"] by (simp add: tally_Cons one)
qed

text \<open>
  The start-up scan, exactly: with no fault of the directory itself, AuditVersions counts the record
  files that hold the current version, those that hold version 2, and all others, the unreadable ones
  included, and names the first twenty of the others in file order; temporary and lock files do not count.
\<close>

theorem audit_exact:
  assumes "fe_ctx io = None" and "fe_readdir io = None" and "\<forall>k. fe_ctx_entry io k = None"
  shows "AuditVersions io d =
    (let ids = map file_id (filter record_file (sort (map fst d)));
         version = (\<lambda>i. case os_ReadFile io i d of Inl e \<Rightarrow> None | Inr c \<Rightarrow> probe c);
         unknown = filter (\<lambda>i. version i \<noteq> Some CurrentVersion \<and> version i \<noteq> Some 2) ids in
     Inr \<lparr>va_Current = int (length (filter (\<lambda>i. version i = Some CurrentVersion) ids)),
          va_Legacy = int (length (filter (\<lambda>i. version i = Some 2) ids)),
          va_Unknown = int (length unknown), va_UnknownIDs = take 20 unknown\<rparr>)"
  using assms audit_loop_tally [OF assms(3), of d 0 "sort (map fst d)"]
  by (simp add: AuditVersions_def dir_names_def tally_def Let_def)

section \<open>Instances\<close>

text \<open>A file system without faults, and one whose renames fail.\<close>

definition calm :: "'r file_env" where
  "calm = \<lparr>fw_open = None, fw_encode = None, fw_sync = None, fw_close = None, fw_rename = None,
     fw_partial = Junk None, fw_cleanup = True, fe_ctx = None, fe_ctx_locked = None, fe_ctx_entry = (\<lambda>k. None), fe_lock_open = None,
     fe_polls = [\<lparr>lp_try = Inr False, lp_ctx = None, lp_late = False\<rparr>, \<lparr>lp_try = Inr True, lp_ctx = None, lp_late = False\<rparr>],
     fe_read = (\<lambda>i. None), fe_decode = ErrNew ''json: syntax error'', fe_remove = None, fe_readdir = None\<rparr>"

definition broken :: "'r file_env" where
  "broken = calm\<lparr>fw_rename := Some (errno ''EIO'')\<rparr>"

lemma calm_clean: "clean i calm"
  by (simp add: clean_def calm_def write_clean_def)

definition two_resumers :: "((unit, unit, unit) irecord file_env, unit, unit, unit) icall list" where
  "two_resumers = [(calm, 1, ''r1'', OpCreate two_calls), (calm, 2, ''r2'', OpSubmit ''r1'' [yes ''t1'', yes ''t2'']),
     (calm, 3, ''r2'', OpAcquire ''r1'' ''amy'' 10), (calm, 4, ''r2'', OpAcquire ''r1'' ''bob'' 10)]"


definition shared_dir :: "(unit, unit, unit) irecord dir" where
  "shared_dir = [(''r1.json'', Json (two_calls\<lparr>ir_ID := ''r1'', ir_Version := 3\<rparr>)), (''r3.json'', Junk (Some 9)),
     (''r4.json'', Json (two_calls\<lparr>ir_ID := ''r4'', ir_Version := 2\<rparr>)), (''r1.lock'', Junk None)]"


theorem audit_exact_witness:
  "AuditVersions calm shared_dir =
    (let ids = map file_id (filter record_file (sort (map fst shared_dir)));
         version = (\<lambda>i. case os_ReadFile calm i shared_dir of Inl e \<Rightarrow> None | Inr c \<Rightarrow> probe c);
         unknown = filter (\<lambda>i. version i \<noteq> Some CurrentVersion \<and> version i \<noteq> Some 2) ids in
     Inr \<lparr>va_Current = int (length (filter (\<lambda>i. version i = Some CurrentVersion) ids)),
          va_Legacy = int (length (filter (\<lambda>i. version i = Some 2) ids)),
          va_Unknown = int (length unknown), va_UnknownIDs = take 20 unknown\<rparr>) \<and>
   (case AuditVersions calm shared_dir of Inl e \<Rightarrow> False | Inr a \<Rightarrow>
      va_Current a = 1 \<and> va_Legacy a = 1 \<and> va_UnknownIDs a = [''r3''])"
  by (rule conjI, rule audit_exact) (simp_all add: calm_def, code_simp)

end
