(* ===== verification/DagResume.thy ===== *)
theory DagResume
  imports DagOutcome "HOL-Library.AList"
begin

text \<open>
  Checkpoints of an execution (\<open>orchestrate/checkpoint.go\<close>): the in-memory store, the contract of
  \<open>CheckpointStore\<close> as a locale, and what a later execution finds in the store an earlier one
  left behind, at whatever state the earlier one stopped.
\<close>

section \<open>The in-memory store\<close>

type_synonym ('m, 'u, 'd) mem_checkpoints = "(string \<times> ('m, 'u, 'd) entries) list"

definition NewInMemoryCheckpointStore :: "('m, 'u, 'd) mem_checkpoints" where
  "NewInMemoryCheckpointStore = []"

definition nodes_of :: "('m, 'u, 'd) mem_checkpoints \<Rightarrow> string \<Rightarrow> ('m, 'u, 'd) entries" where
  "nodes_of s dag = (case map_of s dag of None \<Rightarrow> [] | Some nodes \<Rightarrow> nodes)"

definition mem_Save :: "('m, 'u, 'd) mem_checkpoints \<Rightarrow> string \<Rightarrow> string \<Rightarrow> ('m, 'u, 'd) run_response option
      \<Rightarrow> ('m, 'u, 'd) mem_checkpoints \<times> go_error option" where
  "mem_Save s dag i resp = (AList.update dag (AList.update i resp (nodes_of s dag)) s, None)"

definition mem_Load :: "('m, 'u, 'd) mem_checkpoints \<Rightarrow> string \<Rightarrow> string
      \<Rightarrow> go_error + ('m, 'u, 'd) run_response option" where
  "mem_Load s dag i =
     (case map_of s dag of
        None \<Rightarrow> Inr None
      | Some nodes \<Rightarrow> Inr (case map_of nodes i of None \<Rightarrow> None | Some resp \<Rightarrow> resp))"

definition mem_LoadAll :: "('m, 'u, 'd) mem_checkpoints \<Rightarrow> string \<Rightarrow> go_error + ('m, 'u, 'd) entries" where
  "mem_LoadAll s dag = Inr (nodes_of s dag)"

definition mem_Clear :: "('m, 'u, 'd) mem_checkpoints \<Rightarrow> string \<Rightarrow> ('m, 'u, 'd) mem_checkpoints \<times> go_error option" where
  "mem_Clear s dag = (AList.delete dag s, None)"

definition mem_store :: "('m, 'u, 'd, ('m, 'u, 'd) mem_checkpoints) checkpoint_store" where
  "mem_store = \<lparr>cs_Save = mem_Save, cs_LoadAll = mem_LoadAll\<rparr>"

section \<open>What an execution leaves in a reliable store\<close>

text \<open>A node that ran to its end, whether or not it was rolled back afterwards.\<close>

definition has_run :: "('m, 'u, 'o, 'd, 's) exec \<Rightarrow> string \<Rightarrow> bool" where
  "has_run s i \<longleftrightarrow> x_status s i = NodeDone \<or> x_status s i = NodeCompensated"

text \<open>Scheduling neither touches results nor the store, and does not end any node.\<close>

definition kept :: "('m, 'u, 'o, 'd, 's) exec \<Rightarrow> ('m, 'u, 'o, 'd, 's) exec \<Rightarrow> bool" where
  "kept s s' \<longleftrightarrow> x_store s' = x_store s \<and> x_results s' = x_results s \<and> (\<forall>i. has_run s' i \<longrightarrow> has_run s i)"

lemma kept_refl [simp]: "kept s s"
  by (simp add: kept_def)

lemma kept_trans: "kept s s' \<Longrightarrow> kept s' s'' \<Longrightarrow> kept s s''"
  by (simp add: kept_def)

lemma kept_same: "x_store s' = x_store s \<Longrightarrow> x_results s' = x_results s \<Longrightarrow> x_status s' = x_status s \<Longrightarrow> kept s s'"
  by (simp add: kept_def has_run_def)

lemma kept_moved:
  "x_store s' = x_store s \<Longrightarrow> x_results s' = x_results s \<Longrightarrow> x_status s' = (x_status s)(i := b) \<Longrightarrow>
   b \<noteq> NodeDone \<Longrightarrow> b \<noteq> NodeCompensated \<Longrightarrow> kept s s'"
  by (auto simp: kept_def has_run_def)

lemma kept_scheduler:
  "propagate env k ds s = Some s' \<Longrightarrow> kept s s'"
  "scheduleReady env k i s = Some s' \<Longrightarrow> kept s s'"
  "enqueueReady env k i s = Some s' \<Longrightarrow> kept s s'"
proof (induction env k ds s and env k i s and env k i s arbitrary: s' and s' and s'
    rule: propagate_scheduleReady_enqueueReady.induct)
  case (2 env k d ds s)
  let ?s = "s\<lparr>x_inDegree := (x_inDegree s)(d := x_inDegree s d - 1)\<rparr>"
  have k: "kept s ?s" by (rule kept_same) simp_all
  show ?case
  proof (cases "x_inDegree ?s d = 0 \<and> x_status ?s d = NodePending")
    case True
    then obtain s2 where "enqueueReady env k d ?s = Some s2" "propagate env k ds s2 = Some s'"
      using 2(4) by (auto simp: Let_def split: option.splits)
    then show ?thesis using 2(1,2) [OF refl True] k kept_trans by blast
  next
    case False
    then have "propagate env k ds ?s = Some s'" using 2(4) by (simp only: propagate.simps Let_def if_False)
    then show ?thesis using 2(3) [OF refl False] k kept_trans by blast
  qed
next
  case (3 env k i s)
  then obtain node where n: "node_of (e_nodes env) i = Some node" by (auto split: option.splits)
  consider "c_ReplayMode (e_cfg env) \<and> c_CheckpointStore (e_cfg env) \<noteq> None \<and> x_status s i = NodeDone"
    | "\<not> (c_ReplayMode (e_cfg env) \<and> c_CheckpointStore (e_cfg env) \<noteq> None \<and> x_status s i = NodeDone)"
      "condition_false node (x_results s)"
    | "\<not> (c_ReplayMode (e_cfg env) \<and> c_CheckpointStore (e_cfg env) \<noteq> None \<and> x_status s i = NodeDone)"
      "\<not> condition_false node (x_results s)" by blast
  then show ?case
  proof cases
    case 1
    then have "propagate env k (downstream env i) (s\<lparr>x_pending := x_pending s - 1\<rparr>) = Some s'" using 3(3) n by simp
    moreover have "kept s (s\<lparr>x_pending := x_pending s - 1\<rparr>)" by (rule kept_same) simp_all
    ultimately show ?thesis using 3(1) [OF n 1] kept_trans by blast
  next
    case 2
    then have "propagate env k (downstream env i) (skip_node i s) = Some s'" using 3(3) n by auto
    moreover have "kept s (skip_node i s)"
      by (rule kept_moved [of _ _ i NodeSkipped]) (simp_all add: skip_node_def set_status_def record_call_def Let_def)
    ultimately show ?thesis using 3(2) [OF n 2] kept_trans by blast
  next
    case 3
    have st: "x_store s' = x_store s" "x_results s' = x_results s" "x_status s' = (x_status s)(i := NodeRunning)"
      using \<open>scheduleReady env k i s = Some s'\<close> 3 n
      by (auto simp: launch_def set_status_def record_call_def emit_def Let_def split: sum.splits)
    show ?thesis by (rule kept_moved [OF st]) simp_all
  qed
next
  case (5 env k i s)
  then show ?case by (auto split: option.splits intro: kept_same)
qed simp_all

lemma kept_drain: "drain_loop env k s = Some s' \<Longrightarrow> kept s s'"
proof (induction k arbitrary: s)
  case 0
  then show ?case by (subst (asm) drain_loop.simps) (auto split: option.splits if_splits)
next
  case (Suc k)
  from Suc.prems show ?case
  proof (subst (asm) drain_loop.simps, cases "x_pq s")
    case (Some q)
    assume d: "(case x_pq s of None \<Rightarrow> Some s
       | Some q \<Rightarrow> if pq_empty q \<or> \<not> may_launch env s then Some s
           else case Suc k of 0 \<Rightarrow> None
             | Suc k' \<Rightarrow> case pq_pop q of (i, q') \<Rightarrow>
                 case scheduleReady env (sched_fuel env) i (s\<lparr>x_pq := Some q'\<rparr>) of None \<Rightarrow> None
                 | Some s1 \<Rightarrow> drain_loop env k'
                     (if x_status s1 i = NodeRunning then s1\<lparr>x_activePQ := x_activePQ s1 + 1\<rparr> else s1)) = Some s'"
    show ?thesis
    proof (cases "pq_empty q \<or> \<not> may_launch env s")
      case False
      obtain i q' where p: "pq_pop q = (i, q')" by (rule prod.exhaust)
      obtain s1 where s1: "scheduleReady env (sched_fuel env) i (s\<lparr>x_pq := Some q'\<rparr>) = Some s1"
        "drain_loop env k (if x_status s1 i = NodeRunning then s1\<lparr>x_activePQ := x_activePQ s1 + 1\<rparr> else s1) = Some s'"
        using d Some False p by (auto split: option.splits)
      have "kept s (s\<lparr>x_pq := Some q'\<rparr>)" by (rule kept_same) simp_all
      moreover have "kept (s\<lparr>x_pq := Some q'\<rparr>) s1" using kept_scheduler(2) [OF s1(1)] .
      moreover have "kept s1 (if x_status s1 i = NodeRunning then s1\<lparr>x_activePQ := x_activePQ s1 + 1\<rparr> else s1)"
        by (rule kept_same) simp_all
      ultimately show ?thesis using Suc.IH [OF s1(2)] kept_trans by blast
    qed (use d Some in simp)
  qed simp
qed

lemma kept_proceed: "proceed env i s = Some s' \<Longrightarrow> kept s s'"
  using kept_scheduler(1) kept_drain kept_trans
  by (fastforce simp: proceed_def propagateDownstream_def drainPQ_def split: option.splits)

lemma kept_start: "start_ready env is s = Some s' \<Longrightarrow> kept s s'"
proof (induction "is" arbitrary: s)
  case Nil
  then show ?case using kept_drain by (simp add: drainPQ_def)
next
  case (Cons i "is")
  show ?case
  proof (cases "x_inDegree s i = 0 \<and> x_status s i = NodePending")
    case True
    then obtain s1 where s1: "enqueueReady env (Suc (sched_fuel env)) i s = Some s1" "start_ready env is s1 = Some s'"
      using Cons.prems by (auto simp del: enqueueReady.simps split: option.splits)
    show ?thesis by (rule kept_trans [OF kept_scheduler(3) [OF s1(1)] Cons.IH [OF s1(2)]])
  next
    case False
    then have "start_ready env is s = Some s'" using Cons.prems by (simp only: start_ready.simps if_False)
    then show ?thesis by (rule Cons.IH)
  qed
qed

lemma kept_abort: "kept s (start_abort k goal s)"
  by (rule kept_same) (simp_all add: start_abort_def cancel_def split: option.splits)

lemma kept_finalize: "kept s (finalize env s)"
  by (rule kept_same) (auto simp: finalize_def Let_def split: sum.splits option.splits)

section \<open>A store that keeps what it is given\<close>

definition session_of :: "('m, 'u, 'o, 'd, 's) dag_env \<Rightarrow> string" where
  "session_of env = q_sessionID (e_req env)"

locale reliable_store =
  fixes cs :: "('m, 'u, 'd, 's) checkpoint_store"
    and view :: "'s \<Rightarrow> string \<Rightarrow> string \<rightharpoonup> ('m, 'u, 'd) run_response option"
  assumes save: "cs_Save cs st dag i resp = (st', err) \<Longrightarrow> view st' = (view st)(dag := (view st dag)(i \<mapsto> resp))"
    and load: "cs_LoadAll cs st dag = Inr es \<Longrightarrow> map_of es = view st dag"
begin

definition saved :: "('m, 'u, 'o, 'd, 's) dag_env \<Rightarrow> ('m, 'u, 'o, 'd, 's) exec \<Rightarrow> bool" where
  "saved env s \<longleftrightarrow> (\<forall>i. has_run s i \<longrightarrow> view (x_store s) (session_of env) i = Some (x_results s i))"

lemma saved_kept: "kept s s' \<Longrightarrow> saved env s \<Longrightarrow> saved env s'"
  by (simp add: saved_def kept_def)

lemma saved_settle:
  assumes "c_CheckpointStore (e_cfg env) = Some cs" and "saved env s" and "x_store t = x_store s"
    and "x_results t = (x_results s)(i := resp)" and "\<forall>j. j \<noteq> i \<longrightarrow> has_run t j \<longrightarrow> has_run s j"
  shows "saved env (saveCheckpoint env i resp t)"
proof -
  obtain st err where c: "cs_Save cs (x_store s) (session_of env) i resp = (st, err)" by (rule prod.exhaust)
  then have st: "x_store (saveCheckpoint env i resp t) = st"
    using assms(1,3) by (auto simp: saveCheckpoint_def session_of_def Let_def frame_simps split: option.splits)
  have "has_run (saveCheckpoint env i resp t) = has_run t" by (simp add: has_run_def fun_eq_iff frame_simps)
  then show ?thesis
    using assms(2,4,5) st save [OF c] by (auto simp: saved_def frame_simps)
qed

lemma saved_success:
  assumes "c_CheckpointStore (e_cfg env) = Some cs" and "saved env s" and "handleNodeSuccess env i resp s = Some s'"
  shows "saved env s'"
proof -
  let ?t = "add_usage env resp (emit env (OnNodeComplete i NodeDone None) (set_result i resp (set_status i NodeDone s)))"
  have s2: "saved env (saveCheckpoint env i resp ?t)"
    by (rule saved_settle [OF assms(1,2)]) (auto simp: frame_simps has_run_def set_result_def)
  show ?thesis using assms(3) saved_kept [OF kept_abort s2] saved_kept [OF kept_proceed s2]
    by (auto simp: handleNodeSuccess_def Let_def split: option.splits if_splits)
qed

lemma saved_error:
  assumes "c_CheckpointStore (e_cfg env) = Some cs" and "saved env s" and "handleNodeError env i err s = Some s'"
  shows "saved env s'"
proof -
  let ?s1 = "emit env (OnNodeComplete i NodeFailed (Some err)) (set_status i NodeFailed s)"
  have s1: "saved env ?s1"
    by (rule saved_kept [OF kept_moved assms(2), of _ i NodeFailed]) (simp_all add: frame_simps)
  have skip: "saved env (set_status i NodeSkipped ?s1)"
    by (rule saved_kept [OF kept_moved s1, of _ i NodeSkipped]) (simp_all add: frame_simps)
  have rec: "saved env (record_call (RecordEnd i NodeDone) (saveCheckpoint env i (Some resp)
     (add_usage env (Some resp) (emit env (OnNodeComplete i NodeDone None)
        (set_result i (Some resp) (set_status i NodeDone ?s1))))))" (is "saved env (record_call _ ?q)") for resp
  proof -
    have "saved env ?q"
      by (rule saved_settle [OF assms(1) s1]) (auto simp: frame_simps has_run_def set_result_def)
    then show ?thesis by (rule saved_kept [OF kept_same, rotated 3]) (simp_all add: frame_simps)
  qed
  show ?thesis
    using assms(3) saved_kept [OF kept_abort s1] saved_kept [OF kept_proceed skip] saved_kept [OF kept_proceed rec]
    by (auto simp: handleNodeError_def Let_def split: option.splits error_strategy.splits if_splits)
qed

lemma saved_step:
  assumes "c_CheckpointStore (e_cfg env) = Some cs" and "valid_env env" and "dag_inv env s"
    and "saved env s" and "dag_step env s s'"
  shows "saved env s'"
  using assms(5)
proof (cases rule: dag_step.cases)
  case (receive c rest)
  let ?s = "s\<lparr>x_doneCh := rest, x_pending := x_pending s - 1\<rparr>"
  let ?t = "if x_pq ?s \<noteq> None then ?s\<lparr>x_activePQ := x_activePQ ?s - 1\<rparr> else ?s"
  have t: "saved env ?t" by (rule saved_kept [OF kept_same assms(4)]) simp_all
  have h: "(case nc_err c of Some err \<Rightarrow> handleNodeError env (nc_nodeID c) err ?t
      | None \<Rightarrow> handleNodeSuccess env (nc_nodeID c) (nc_resp c) ?t) = Some s'"
    using receive by (simp only: handleCompletion_def Let_def)
  show ?thesis
  proof (cases "nc_err c")
    case None
    from h have "handleNodeSuccess env (nc_nodeID c) (nc_resp c) ?t = Some s'" by (simp only: None option.case)
    then show ?thesis by (rule saved_success [OF assms(1) t])
  next
    case (Some err)
    from h have "handleNodeError env (nc_nodeID c) err ?t = Some s'" by (simp only: Some option.case)
    then show ?thesis by (rule saved_error [OF assms(1) t])
  qed
next
  case (drained goal)
  have "goal_ok env goal" using assms(3) drained(1) by (simp add: dag_inv_def pc_ok_def)
  then have "has_run s' i \<Longrightarrow> has_run s i" for i
    using finish_abort_props(2) [OF assms(2) _ drained(2)] by (metis has_run_def)
  moreover have "x_store s' = x_store s" "x_results s' = x_results s"
    using drained(2) by (auto simp: finish_abort_def finalize_def Let_def
        split: drain_goal.splits option.splits prod.splits sum.splits)
  ultimately have "kept s s'" by (simp add: kept_def)
  then show ?thesis using assms(4) by (rule saved_kept)
next
  case (observe e)
  then show ?thesis using saved_kept [OF kept_abort assms(4)] by simp
next
  case complete
  then show ?thesis using saved_kept [OF kept_finalize assms(4)] by simp
qed (auto intro!: saved_kept [OF kept_same assms(4)] simp: post_def Let_def frame_simps)

lemma initial_adopts:
  assumes "c_CheckpointStore (e_cfg env0) = Some cs" and "newDagExecutor env0 st = Some (Inr (env, s0))"
  shows "c_CheckpointStore (e_cfg env) = Some cs" "session_of env = session_of env0" "x_store s0 = st"
    and "has_run s0 i \<longleftrightarrow> i \<in> set (ids_of env0) \<and> view st (session_of env0) i \<noteq> None"
    and "has_run s0 i \<Longrightarrow> x_status s0 i = NodeDone \<and> view st (session_of env0) i = Some (x_results s0 i)"
proof -
  obtain nodes data where v: "ValidateDAG (e_nodes env0) = None"
    and n: "with_priorities (e_cfg env0) (e_nodes env0) = Some nodes"
    and d: "cs_LoadAll cs st (q_sessionID (e_req env0)) = Inr data"
    and e: "env = env0\<lparr>e_nodes := nodes\<rparr>" and s0: "s0 = initial env data st"
    using assms by (auto simp: newDagExecutor_def Let_def split: option.splits sum.splits)
  have ids: "ids_of env = ids_of env0"
    using arg_cong [OF with_priorities_graph [OF n], of node_ids] e by (simp add: ids_of_def)
  have v: "view st (session_of env0) = map_of data" using load [OF d] by (simp add: session_of_def)
  have r: "resumed env data i \<longleftrightarrow> i \<in> set (ids_of env0) \<and> map_of data i \<noteq> None"
    by (auto simp: resumed_def ids map_of_eq_None_iff)
  show "c_CheckpointStore (e_cfg env) = Some cs" "session_of env = session_of env0" "x_store s0 = st"
    using assms(1) by (simp_all add: e session_of_def s0 initial_def Let_def)
  show "has_run s0 i \<longleftrightarrow> i \<in> set (ids_of env0) \<and> view st (session_of env0) i \<noteq> None"
    using r by (simp add: s0 has_run_def initial_def Let_def v)
  show "has_run s0 i \<Longrightarrow> x_status s0 i = NodeDone \<and> view st (session_of env0) i = Some (x_results s0 i)"
    using r by (auto simp: s0 has_run_def initial_def Let_def v entry_def split: if_splits option.splits)
qed

lemma reachable_saved:
  assumes "reachable env0 st env s" and "c_CheckpointStore (e_cfg env0) = Some cs"
  shows "c_CheckpointStore (e_cfg env) = Some cs \<and> session_of env = session_of env0 \<and> saved env s"
  using assms
proof (induction rule: reachable.induct)
  case (start s0 s)
  note i = initial_adopts [OF start(3,1)]
  have "saved env s0" using i(2,3,5) by (auto simp: saved_def)
  then have "saved env s"
    by (rule saved_kept [OF kept_start, OF start(2) [unfolded start_run_def]])
  then show ?case using i(1,2) by simp
next
  case (step s s')
  note inv = reachable_inv [OF step(1)] and ih = step(3) [OF step(4)]
  have "saved env s'"
    by (rule saved_step [of env s s']) (use inv ih step(2) in simp_all)
  then show ?case using ih by simp
qed

text \<open>Whatever ran in the first execution counts as done, with its result, in the second.\<close>

lemma resume_adopts:
  assumes "reachable env0 st env s" and "c_CheckpointStore (e_cfg env0) = Some cs"
    and "newDagExecutor env0 (x_store s) = Some (Inr (env', s1))" and "i \<in> set (ids_of env0)" and "has_run s i"
  shows "x_status s1 i = NodeDone \<and> x_results s1 i = x_results s i"
proof -
  have "view (x_store s) (session_of env0) i = Some (x_results s i)"
    using reachable_saved [OF assms(1,2)] assms(5) by (metis saved_def)
  then show ?thesis using initial_adopts(4,5) [OF assms(2,3), of i] assms(4) by auto
qed

end

interpretation mem: reliable_store mem_store "\<lambda>st dag. map_of (nodes_of st dag)"
  by unfold_locales
    (auto simp: mem_store_def mem_Save_def mem_LoadAll_def nodes_of_def update_conv' fun_eq_iff split: option.splits)

section \<open>Resuming\<close>

text \<open>
  C22. Checkpoint and resume: with the in-memory store, at whatever state an execution stops, every node
  that ran to its end can be loaded back with its result, and a new execution on the same session starts
  with the node done and that result. This includes the nodes that a compensation has rolled back: their
  checkpoints stay in the store.
\<close>

theorem checkpoint_resume:
  assumes "reachable env0 st env s" and "c_CheckpointStore (e_cfg env0) = Some mem_store"
    and "i \<in> set (ids_of env0)" and "x_status s i = NodeDone \<or> x_status s i = NodeCompensated"
    and "newDagExecutor env0 (x_store s) = Some (Inr (env', s1))"
  shows "mem_Load (x_store s) (session_of env0) i = Inr (x_results s i) \<and>
     x_status s1 i = NodeDone \<and> x_results s1 i = x_results s i"
proof -
  have r: "has_run s i" using assms(4) by (simp add: has_run_def)
  then have "map_of (nodes_of (x_store s) (session_of env0)) i = Some (x_results s i)"
    using mem.reachable_saved [OF assms(1,2)] by (metis mem.saved_def)
  then show ?thesis using mem.resume_adopts [OF assms(1,2,5,3) r]
    by (auto simp: mem_Load_def nodes_of_def split: option.splits)
qed

definition mem_env :: "(nat, nat, unit, unit, (nat, nat, unit) mem_checkpoints) dag_env" where
  "mem_env =
     \<lparr>e_cfg = \<lparr>c_MaxConcurrency = 1, c_ErrorStrategy = Abort, c_EarlyExitFunc = None, c_Aggregator = None,
        c_CheckpointStore = Some mem_store, c_ReplayMode = False, c_PriorityScheduling = False,
        c_CriticalPathAuto = False, c_Backpressure = False, c_CompensateCfg = None, c_EventHandler = True\<rparr>,
      e_nodes = [sample_node ''a'' [], sample_node ''b'' [''a'']],
      e_req = \<lparr>q_messages = [1], q_sessionID = ''s'', q_options = None, q_metadata = None\<rparr>,
      e_usage_zero = 0, e_usage_add = (+),
      e_run = (\<lambda>i req ae. ae_run ae 0 = Inr (Some (reply_with [2] ''s''))),
      e_forward = (\<lambda>_ _. \<lparr>ae_run = (\<lambda>_. Inl Canceled), ae_ctx = (\<lambda>_. None)\<rparr>),
      e_comp = (\<lambda>_. \<lparr>ce_run = (\<lambda>_. None), ce_ctx = (\<lambda>_. None)\<rparr>)\<rparr>"

lemma mem_executor: "newDagExecutor mem_env st = Some (Inr (mem_env, initial mem_env (nodes_of st ''s'') st))"
proof -
  have "ValidateDAG (e_nodes mem_env) = None" by code_simp
  then show ?thesis
    by (simp add: newDagExecutor_def with_priorities_def)
      (simp add: mem_env_def mem_store_def mem_LoadAll_def Let_def)
qed

text \<open>The first node has run; the second is running when the execution stops.\<close>

definition mem_started :: "(nat, nat, unit, unit, (nat, nat, unit) mem_checkpoints) exec" where
  "mem_started = (case start_run mem_env (initial mem_env [] []) of Some s \<Rightarrow> s | None \<Rightarrow> initial mem_env [] [])"

definition mem_stopped :: "(nat, nat, unit, unit, (nat, nat, unit) mem_checkpoints) exec" where
  "mem_stopped = (case run_round mem_env sample_run mem_started of Some s \<Rightarrow> s | None \<Rightarrow> mem_started)"

lemma mem_stopped_reachable: "reachable mem_env [] mem_env mem_stopped"
proof -
  have v: "valid_env mem_env" using newDagExecutor_Inr [OF mem_executor [of "[]"]] by simp
  have e: "newDagExecutor mem_env [] = Some (Inr (mem_env, initial mem_env [] []))"
    using mem_executor [of "[]"] by (simp add: nodes_of_def)
  have "start_run mem_env (initial mem_env [] []) = Some mem_started"
    using start_run_ok [OF v, of "[]" "[]"] by (auto simp: mem_started_def)
  with e have "reachable mem_env [] mem_env mem_started" by (rule reachable.start)
  then show ?thesis using run_round_reachable
    by (cases "run_round mem_env sample_run mem_started") (auto simp: mem_stopped_def)
qed

theorem checkpoint_resume_witness:
  "mem_Load (x_store mem_stopped) ''s'' ''a'' = Inr (x_results mem_stopped ''a'') \<and>
   x_status (initial mem_env (nodes_of (x_store mem_stopped) ''s'') (x_store mem_stopped)) ''a'' = NodeDone \<and>
   x_results (initial mem_env (nodes_of (x_store mem_stopped) ''s'') (x_store mem_stopped)) ''a'' =
     x_results mem_stopped ''a'' \<and> x_status mem_stopped ''b'' = NodeRunning"
proof -
  have d: "x_status mem_stopped ''a'' = NodeDone \<or> x_status mem_stopped ''a'' = NodeCompensated" by code_simp
  have i: "''a'' \<in> set (ids_of mem_env)" by code_simp
  have c: "c_CheckpointStore (e_cfg mem_env) = Some mem_store" by (simp add: mem_env_def)
  have "session_of mem_env = ''s''" by (simp add: session_of_def mem_env_def)
  moreover have "x_status mem_stopped ''b'' = NodeRunning" by code_simp
  ultimately show ?thesis
    using checkpoint_resume [OF mem_stopped_reachable c i d mem_executor] by simp
qed

end
