(* ===== verification/Checkpoint.thy ===== *)
theory Checkpoint
  imports Prelude "HOL-Library.AList"
begin

text \<open>
  Iteration checkpoints of an agent run (\<open>checkpoint/\<close>): the record, the contract of
  \<open>IterationStore\<close> (\<open>store.go\<close>) as a locale over what a session's history of checkpoints is, and
  the in-memory store (\<open>mapstore.go\<close>). Messages and usage are opaque, times are integers with zero for
  Go's zero time, and the identifier that \<open>Save\<close> draws is an argument.
\<close>

section \<open>Records\<close>

record ('m, 'u) checkpoint =
  cp_ID :: string
  cp_Sequence :: int
  cp_SessionID :: string
  cp_AgentID :: string
  cp_Iteration :: int
  cp_Final :: bool
  cp_StopReason :: string
  cp_Messages :: "'m list"
  cp_SessionMsgCount :: int
  cp_Usage :: 'u
  cp_Estimated :: bool
  cp_CreatedAt :: int

record 'u checkpoint_meta =
  cm_ID :: string
  cm_Sequence :: int
  cm_SessionID :: string
  cm_AgentID :: string
  cm_Iteration :: int
  cm_Final :: bool
  cm_StopReason :: string
  cm_MessagesCount :: nat
  cm_Usage :: 'u
  cm_CreatedAt :: int

definition metaFrom :: "('m, 'u) checkpoint \<Rightarrow> 'u checkpoint_meta" where
  "metaFrom cp = \<lparr>cm_ID = cp_ID cp, cm_Sequence = cp_Sequence cp, cm_SessionID = cp_SessionID cp,
     cm_AgentID = cp_AgentID cp, cm_Iteration = cp_Iteration cp, cm_Final = cp_Final cp,
     cm_StopReason = cp_StopReason cp, cm_MessagesCount = length (cp_Messages cp), cm_Usage = cp_Usage cp,
     cm_CreatedAt = cp_CreatedAt cp\<rparr>"

definition ErrCheckpointNotFound :: go_error where
  "ErrCheckpointNotFound = ErrNew ''checkpoint: not found''"

definition ErrInvalidArgument :: go_error where
  "ErrInvalidArgument = ErrNew ''checkpoint: invalid argument''"

definition invalid :: "string \<Rightarrow> go_error" where
  "invalid f = Errorf f [] (Some ErrInvalidArgument)"

text \<open>What \<open>Save\<close> assigns.\<close>

definition assign :: "int \<Rightarrow> string \<Rightarrow> int \<Rightarrow> ('m, 'u) checkpoint \<Rightarrow> ('m, 'u) checkpoint" where
  "assign now fresh n cp =
     cp\<lparr>cp_Sequence := n, cp_ID := fresh, cp_CreatedAt := (if cp_CreatedAt cp = 0 then now else cp_CreatedAt cp)\<rparr>"

section \<open>The contract\<close>

text \<open>What a history of a session answers: the sequence number that follows it, and a load.\<close>

definition next_seq :: "('m, 'u) checkpoint list \<Rightarrow> int" where
  "next_seq cps = (if cps = [] then 1 else cp_Sequence (last cps) + 1)"

definition find_cp :: "string \<Rightarrow> ('m, 'u) checkpoint list \<Rightarrow> go_error + ('m, 'u) checkpoint" where
  "find_cp i cps =
     (if cps = [] then Inl ErrCheckpointNotFound
      else if i = '''' then Inr (last cps)
      else case find_first (\<lambda>cp. cp_ID cp = i) cps of None \<Rightarrow> Inl ErrCheckpointNotFound | Some cp \<Rightarrow> Inr cp)"

definition ascending :: "('m, 'u) checkpoint list \<Rightarrow> bool" where
  "ascending cps \<longleftrightarrow> sorted_wrt (<) (map cp_Sequence cps) \<and> (\<forall>cp\<in>set cps. 1 \<le> cp_Sequence cp)"

lemma ascending_Nil [simp]: "ascending []"
  by (simp add: ascending_def)

lemma next_seq_Nil [simp]: "next_seq [] = 1"
  by (simp add: next_seq_def)

lemma ascending_next:
  assumes "ascending cps"
  shows "1 \<le> next_seq cps" and "\<forall>cp\<in>set cps. cp_Sequence cp < next_seq cps"
proof -
  show "\<forall>cp\<in>set cps. cp_Sequence cp < next_seq cps"
    using assms by (cases cps rule: rev_cases) (auto simp: ascending_def next_seq_def sorted_wrt_append)
  show "1 \<le> next_seq cps"
    using assms by (cases cps rule: rev_cases) (auto simp: ascending_def next_seq_def)
qed

lemma ascending_snoc: "ascending cps \<Longrightarrow> cp_Sequence cp = next_seq cps \<Longrightarrow> ascending (cps @ [cp])"
  using ascending_next [of cps] by (auto simp: ascending_def sorted_wrt_append)

lemma ascending_filter: "ascending cps \<Longrightarrow> ascending (filter keep cps)"
  by (auto simp: ascending_def sorted_wrt_map intro: sorted_wrt_filter)

text \<open>
  Calls of a store: saves and deletions, each with its surroundings. An answer is the error of the call
  or what it saved.
\<close>

datatype ('m, 'u) cop = SaveCp int string "('m, 'u) checkpoint" | DeleteCp string

definition fresh_ids :: "(string \<Rightarrow> bool) \<Rightarrow> ('e \<times> ('m, 'u) cop) list \<Rightarrow> bool" where
  "fresh_ids usable h \<longleftrightarrow> list_all (\<lambda>(env, op). case op of SaveCp now fresh cp \<Rightarrow> usable fresh | DeleteCp sid \<Rightarrow> True) h"

definition spares :: "string \<Rightarrow> ('e \<times> ('m, 'u) cop) list \<Rightarrow> bool" where
  "spares sid h \<longleftrightarrow> list_all (\<lambda>(env, op). op \<noteq> DeleteCp sid) h"

fun cop_run :: "('e \<Rightarrow> ('m, 'u) cop \<Rightarrow> 's \<Rightarrow> 'a \<times> 's) \<Rightarrow> ('e \<times> ('m, 'u) cop) list \<Rightarrow> 's \<Rightarrow> 'a list \<times> 's" where
  "cop_run exec [] s = ([], s)"
| "cop_run exec ((env, op) # h) s =
     (case exec env op s of (a, s1) \<Rightarrow> (case cop_run exec h s1 of (as, s2) \<Rightarrow> (a # as, s2)))"

locale iteration_store =
  fixes exec :: "'e \<Rightarrow> ('m, 'u) cop \<Rightarrow> 's \<Rightarrow> (go_error + ('m, 'u) checkpoint option) \<times> 's"
    and load :: "'e \<Rightarrow> string \<Rightarrow> string \<Rightarrow> 's \<Rightarrow> go_error + ('m, 'u) checkpoint"
    and history :: "'s \<Rightarrow> string \<Rightarrow> ('m, 'u) checkpoint list"
    and inv :: "'s \<Rightarrow> bool"
    and calm :: "'e \<Rightarrow> bool"
    and usable :: "string \<Rightarrow> bool"
  assumes save: "inv s \<Longrightarrow> usable fresh \<Longrightarrow> exec env (SaveCp now fresh cp) s = (a, s') \<Longrightarrow> inv s' \<and>
      (case a of Inl e \<Rightarrow> history s' = history s
       | Inr r \<Rightarrow> cp_SessionID cp \<noteq> '''' \<and> r = Some (assign now fresh (next_seq (history s (cp_SessionID cp))) cp) \<and>
           history s' = (history s)(cp_SessionID cp := history s (cp_SessionID cp) @
             [assign now fresh (next_seq (history s (cp_SessionID cp))) cp]))"
    and delete: "inv s \<Longrightarrow> exec env (DeleteCp sid) s = (a, s') \<Longrightarrow> inv s' \<and>
      (\<exists>keep. history s' = (history s)(sid := filter keep (history s sid)))"
    and load: "inv s \<Longrightarrow> calm env \<Longrightarrow> sid \<noteq> '''' \<Longrightarrow> load env sid i s = find_cp i (history s sid)"
    and ordered: "inv s \<Longrightarrow> ascending (history s sid)"
begin

lemma exec_inv: "inv s \<Longrightarrow> fresh_ids usable [(env, op)] \<Longrightarrow> exec env op s = (a, s') \<Longrightarrow> inv s'"
  using save [of s _ env _ _ a s'] delete [of s env _ a s'] by (cases op) (auto simp: fresh_ids_def)

lemma exec_grows:
  assumes "inv s" and "fresh_ids usable [(env, op)]" and "op \<noteq> DeleteCp sid" and "exec env op s = (a, s')"
  shows "\<exists>more. history s' sid = history s sid @ more"
proof (cases op)
  case (SaveCp now fresh cp)
  then show ?thesis using save [of s fresh env now cp a s'] assms
    by (auto simp: fresh_ids_def split: sum.splits)
next
  case (DeleteCp j)
  then obtain keep where "history s' = (history s)(j := filter keep (history s j))"
    using delete [of s env j a s'] assms(1,4) by blast
  then show ?thesis using assms(3) DeleteCp by auto
qed

text \<open>Calls that do not delete the session only add to its history.\<close>

lemma history_grows:
  assumes "cop_run exec h s = (as, s')" and "inv s" and "fresh_ids usable h" and "spares sid h"
  shows "inv s' \<and> (\<exists>more. history s' sid = history s sid @ more)"
  using assms
proof (induction h arbitrary: s as)
  case (Cons c h)
  obtain env op where c: "c = (env, op)" by (rule prod.exhaust)
  obtain a s1 where e: "exec env op s = (a, s1)" by (rule prod.exhaust)
  obtain as2 s2 where r: "cop_run exec h s1 = (as2, s2)" by (rule prod.exhaust)
  have s': "s' = s2" using Cons.prems(1) e r c by simp
  have f: "fresh_ids usable [(env, op)]" "fresh_ids usable h" "op \<noteq> DeleteCp sid" "spares sid h"
    using Cons.prems(3,4) c by (auto simp: fresh_ids_def spares_def)
  have i1: "inv s1" by (rule exec_inv [OF Cons.prems(2) f(1) e])
  obtain m1 where "history s1 sid = history s sid @ m1" using exec_grows [OF Cons.prems(2) f(1,3) e] by blast
  then show ?case using Cons.IH [OF r [folded s'] i1 f(2,4)] by auto
qed simp

lemma history_inv: "cop_run exec h s = (as, s') \<Longrightarrow> inv s \<Longrightarrow> fresh_ids usable h \<Longrightarrow> inv s'"
proof (induction h arbitrary: s as)
  case (Cons c h)
  obtain env op where c: "c = (env, op)" by (rule prod.exhaust)
  obtain a s1 where e: "exec env op s = (a, s1)" by (rule prod.exhaust)
  obtain as2 s2 where r: "cop_run exec h s1 = (as2, s2)" by (rule prod.exhaust)
  have "inv s1" by (rule exec_inv [OF Cons.prems(2) _ e]) (use Cons.prems(3) c in \<open>auto simp: fresh_ids_def\<close>)
  then show ?case using Cons.IH [of s1 as2] Cons.prems c e r by (auto simp: fresh_ids_def)
qed simp

text \<open>
  Round trip: what a successful \<open>Save\<close> answered is what a later load by its identifier finds, unless
  the session is deleted or had used the identifier before; right after the save it is the latest one;
  and it has a larger sequence number than every checkpoint of the session before it.
\<close>

lemma save_load:
  assumes "inv s" and "usable fresh" and "fresh \<noteq> ''''"
    and "exec env (SaveCp now fresh cp) s = (Inr r, s1)" and "cop_run exec h s1 = (as, s2)" and "fresh_ids usable h"
    and "spares (cp_SessionID cp) h" and "fresh \<notin> cp_ID ` set (history s (cp_SessionID cp))" and "calm env2"
  shows "\<exists>cp'. r = Some cp' \<and> load env2 (cp_SessionID cp) fresh s2 = Inr cp' \<and>
     load env2 (cp_SessionID cp) '''' s1 = Inr cp' \<and>
     cp' = assign now fresh (next_seq (history s (cp_SessionID cp))) cp \<and>
     (\<forall>c\<in>set (history s (cp_SessionID cp)). cp_Sequence c < cp_Sequence cp')"
proof -
  let ?sid = "cp_SessionID cp"
  let ?cp = "assign now fresh (next_seq (history s ?sid)) cp"
  have s1: "inv s1" "?sid \<noteq> ''''" "r = Some ?cp" "history s1 ?sid = history s ?sid @ [?cp]"
    using save [OF assms(1,2,4)] by auto
  obtain more where s2: "inv s2" "history s2 ?sid = history s ?sid @ [?cp] @ more"
    using history_grows [OF assms(5) s1(1) assms(6,7)] s1(4) by auto
  have find: "find_first (\<lambda>c. cp_ID c = fresh) (xs @ [?cp] @ more) = Some ?cp" if "fresh \<notin> cp_ID ` set xs" for xs
    using that by (induction xs) (auto simp: assign_def)
  have "load env2 ?sid fresh s2 = Inr ?cp"
    using load [OF s2(1) assms(9) s1(2)] s2(2) find [OF assms(8)] assms(3) by (simp add: find_cp_def)
  moreover have "load env2 ?sid '''' s1 = Inr ?cp"
    using load [OF s1(1) assms(9) s1(2)] s1(4) by (simp add: find_cp_def)
  moreover have "\<forall>c\<in>set (history s ?sid). cp_Sequence c < cp_Sequence ?cp"
    using ascending_next(2) [OF ordered [OF assms(1)]] by (simp add: assign_def)
  ultimately show ?thesis using s1(3) by auto
qed

end

section \<open>The in-memory store\<close>

record ('m, 'u) map_iterations =
  mi_data :: "(string \<times> ('m, 'u) checkpoint list) list"
  mi_seq :: "(string \<times> int) list"

definition NewMapIterationStore :: "('m, 'u) map_iterations" where
  "NewMapIterationStore = \<lparr>mi_data = [], mi_seq = []\<rparr>"

definition data_of :: "('m, 'u) map_iterations \<Rightarrow> string \<Rightarrow> ('m, 'u) checkpoint list" where
  "data_of s sid = (case map_of (mi_data s) sid of None \<Rightarrow> [] | Some cps \<Rightarrow> cps)"

definition seq_of :: "('m, 'u) map_iterations \<Rightarrow> string \<Rightarrow> int" where
  "seq_of s sid = (case map_of (mi_seq s) sid of None \<Rightarrow> 0 | Some n \<Rightarrow> n)"

definition mi_Save :: "go_error option \<Rightarrow> int \<Rightarrow> string \<Rightarrow> ('m, 'u) checkpoint option \<Rightarrow> ('m, 'u) map_iterations
      \<Rightarrow> (go_error + ('m, 'u) checkpoint) \<times> ('m, 'u) map_iterations" where
  "mi_Save ctx now fresh c s =
     (case ctx of Some e \<Rightarrow> (Inl e, s)
      | None \<Rightarrow>
     (case c of None \<Rightarrow> (Inl (invalid ''%w: checkpoint is nil''), s)
      | Some cp \<Rightarrow>
     (if cp_SessionID cp = '''' then (Inl (invalid ''%w: session id is empty''), s)
      else
        (let n = seq_of s (cp_SessionID cp) + 1; cp' = assign now fresh n cp in
         (Inr cp', s\<lparr>mi_seq := AList.update (cp_SessionID cp) n (mi_seq s),
                     mi_data := AList.update (cp_SessionID cp) (data_of s (cp_SessionID cp) @ [cp']) (mi_data s)\<rparr>)))))"

definition mi_Load :: "go_error option \<Rightarrow> string \<Rightarrow> string \<Rightarrow> ('m, 'u) map_iterations
      \<Rightarrow> go_error + ('m, 'u) checkpoint" where
  "mi_Load ctx sid i s =
     (case ctx of Some e \<Rightarrow> Inl e
      | None \<Rightarrow>
     (if sid = '''' then Inl (invalid ''%w: session id is empty'')
      else let cps = data_of s sid in
        if length cps = 0 then Inl ErrCheckpointNotFound
        else if i = '''' then Inr (cps ! (length cps - 1))
        else case find_first (\<lambda>cp. cp_ID cp = i) cps of None \<Rightarrow> Inl ErrCheckpointNotFound | Some cp \<Rightarrow> Inr cp))"

definition mi_List :: "go_error option \<Rightarrow> string \<Rightarrow> ('m, 'u) map_iterations \<Rightarrow> go_error + 'u checkpoint_meta list" where
  "mi_List ctx sid s =
     (case ctx of Some e \<Rightarrow> Inl e
      | None \<Rightarrow> (if sid = '''' then Inl (invalid ''%w: session id is empty'') else Inr (map metaFrom (data_of s sid))))"

definition mi_Delete :: "string \<Rightarrow> ('m, 'u) map_iterations \<Rightarrow> go_error option \<times> ('m, 'u) map_iterations" where
  "mi_Delete sid s = (None, s\<lparr>mi_data := AList.delete sid (mi_data s), mi_seq := AList.delete sid (mi_seq s)\<rparr>)"

fun mi_exec :: "go_error option \<Rightarrow> ('m, 'u) cop \<Rightarrow> ('m, 'u) map_iterations
      \<Rightarrow> (go_error + ('m, 'u) checkpoint option) \<times> ('m, 'u) map_iterations" where
  "mi_exec ctx (SaveCp now fresh cp) s =
     (case mi_Save ctx now fresh (Some cp) s of (Inl e, s') \<Rightarrow> (Inl e, s') | (Inr c, s') \<Rightarrow> (Inr (Some c), s'))"
| "mi_exec ctx (DeleteCp sid) s =
     (case mi_Delete sid s of (Some e, s') \<Rightarrow> (Inl e, s') | (None, s') \<Rightarrow> (Inr None, s'))"

text \<open>The counter of a session is the last sequence number it gave out.\<close>

definition mi_inv :: "('m, 'u) map_iterations \<Rightarrow> bool" where
  "mi_inv s \<longleftrightarrow> (\<forall>sid. ascending (data_of s sid) \<and> seq_of s sid + 1 = next_seq (data_of s sid))"

lemma mi_save:
  assumes "mi_inv s" and "mi_exec ctx (SaveCp now fresh cp) s = (a, s')"
  shows "mi_inv s' \<and>
      (case a of Inl e \<Rightarrow> data_of s' = data_of s
       | Inr r \<Rightarrow> cp_SessionID cp \<noteq> '''' \<and> r = Some (assign now fresh (next_seq (data_of s (cp_SessionID cp))) cp) \<and>
           data_of s' = (data_of s)(cp_SessionID cp := data_of s (cp_SessionID cp) @
             [assign now fresh (next_seq (data_of s (cp_SessionID cp))) cp]))"
proof (cases "ctx = None \<and> cp_SessionID cp \<noteq> ''''")
  case True
  let ?sid = "cp_SessionID cp"
  let ?n = "next_seq (data_of s ?sid)"
  have n: "ascending (data_of s ?sid)" "seq_of s ?sid + 1 = ?n"
    using assms(1) by (auto simp: mi_inv_def)
  have a: "a = Inr (Some (assign now fresh ?n cp))"
    and s': "s' = s\<lparr>mi_seq := AList.update ?sid ?n (mi_seq s),
        mi_data := AList.update ?sid (data_of s ?sid @ [assign now fresh ?n cp]) (mi_data s)\<rparr>"
    using assms(2) True n(2) by (simp_all add: mi_Save_def Let_def)
  have d: "data_of s' = (data_of s)(?sid := data_of s ?sid @ [assign now fresh ?n cp])"
    and q: "seq_of s' = (seq_of s)(?sid := ?n)"
    by (auto simp: s' data_of_def seq_of_def update_conv' fun_eq_iff)
  have "ascending (data_of s ?sid @ [assign now fresh ?n cp])"
    by (rule ascending_snoc [OF n(1)]) (simp add: assign_def)
  moreover have "next_seq (data_of s ?sid @ [assign now fresh ?n cp]) = ?n + 1"
    by (simp add: next_seq_def assign_def)
  ultimately have "mi_inv s'" using assms(1) by (simp add: mi_inv_def d q)
  then show ?thesis using a d True by simp
next
  case False
  then have "\<exists>e. a = Inl e" "s' = s" using assms(2) by (auto simp: mi_Save_def split: option.splits)
  then show ?thesis using assms(1) by auto
qed

lemma mi_delete:
  assumes "mi_inv s" and "mi_exec ctx (DeleteCp sid) s = (a, s')"
  shows "mi_inv s' \<and> (\<exists>keep. data_of s' = (data_of s)(sid := filter keep (data_of s sid)))"
proof -
  have s': "s' = s\<lparr>mi_data := AList.delete sid (mi_data s), mi_seq := AList.delete sid (mi_seq s)\<rparr>"
    using assms(2) by (simp add: mi_Delete_def)
  have "data_of s' = (data_of s)(sid := [])" "seq_of s' = (seq_of s)(sid := 0)"
    by (auto simp: s' data_of_def seq_of_def delete_conv' fun_eq_iff)
  then have "mi_inv s'" "data_of s' = (data_of s)(sid := filter (\<lambda>_. False) (data_of s sid))"
    using assms(1) by (auto simp: mi_inv_def)
  then show ?thesis by blast
qed

lemma mi_load: "mi_inv s \<Longrightarrow> ctx = None \<Longrightarrow> sid \<noteq> '''' \<Longrightarrow> mi_Load ctx sid i s = find_cp i (data_of s sid)"
  by (simp add: mi_Load_def find_cp_def Let_def last_conv_nth)

interpretation mi: iteration_store mi_exec mi_Load data_of mi_inv "\<lambda>ctx. ctx = None" "\<lambda>i. True"
proof (unfold_locales, goal_cases)
  case (1 s fresh env now cp a s')
  then show ?case by (intro mi_save)
next
  case (2 s env sid a s')
  then show ?case by (intro mi_delete)
next
  case (3 s env sid i)
  then show ?case by (intro mi_load)
next
  case (4 s sid)
  then show ?case by (simp add: mi_inv_def)
qed

end
