(* ===== verification/CheckpointFile.thy ===== *)
theory CheckpointFile
  imports Checkpoint Files
begin

text \<open>
  The file store of iteration checkpoints (\<open>checkpoint/filestore.go\<close>): a directory per session, a file
  per checkpoint whose name carries the sequence number and the identifier. The root maps session
  identifiers, taken as plain directory names, to their directories, which hold files only. Sequence
  numbers are unbounded integers: a session would need 2^63 checkpoints to leave the 64 bits of Go's.
\<close>

section \<open>File names\<close>

definition checkpointFileExt :: string where "checkpointFileExt = ''.json''"
definition checkpointTmpExt :: string where "checkpointTmpExt = ''.json.tmp''"
definition sequenceWidth :: nat where "sequenceWidth = 6"

text \<open>Decimal numbers, as \<open>strconv.Atoi\<close> reads them and the verb \<open>%0*d\<close> writes them.\<close>

definition digit :: "nat \<Rightarrow> char" where
  "digit k = char_of (48 + k)"

fun decimal :: "nat \<Rightarrow> string" where
  "decimal n = (if n < 10 then [digit n] else decimal (n div 10) @ [digit (n mod 10)])"

declare decimal.simps [simp del]

definition padded :: "nat \<Rightarrow> int \<Rightarrow> string" where
  "padded w v =
     (if v < 0 then ''-'' @ replicate (w - 1 - length (decimal (nat (- v)))) CHR ''0'' @ decimal (nat (- v))
      else replicate (w - length (decimal (nat v))) CHR ''0'' @ decimal (nat v))"

fun parse_digits :: "nat \<Rightarrow> string \<Rightarrow> nat option" where
  "parse_digits acc [] = Some acc"
| "parse_digits acc (c # cs) =
     (if 48 \<le> (of_char c :: nat) \<and> (of_char c :: nat) \<le> 57 then parse_digits (acc * 10 + (of_char c - 48)) cs else None)"

definition atoi :: "string \<Rightarrow> int option" where
  "atoi s =
     (let ds = (if s \<noteq> [] \<and> (hd s = CHR ''-'' \<or> hd s = CHR ''+'') then tl s else s) in
      if ds = [] then None
      else map_option (\<lambda>n. if hd s = CHR ''-'' then - int n else int n) (parse_digits 0 ds))"

record file_entry =
  fe_name :: string
  fe_sequence :: int
  fe_id :: string

definition file_name :: "int \<Rightarrow> string \<Rightarrow> string" where
  "file_name n i = padded sequenceWidth n @ ''-'' @ i @ checkpointFileExt"

fun index_byte :: "char \<Rightarrow> string \<Rightarrow> nat option" where
  "index_byte c [] = None"
| "index_byte c (x # xs) = (if x = c then Some 0 else map_option Suc (index_byte c xs))"

definition parse_name :: "string \<Rightarrow> file_entry option" where
  "parse_name name =
     (if \<not> has_suffix checkpointFileExt name \<or> has_suffix checkpointTmpExt name then None
      else let base = take (length name - length checkpointFileExt) name in
        case index_byte CHR ''-'' base of None \<Rightarrow> None
        | Some dash \<Rightarrow>
            (if dash = 0 \<or> dash = length base - 1 then None
             else map_option (\<lambda>n. \<lparr>fe_name = name, fe_sequence = n, fe_id = drop (Suc dash) base\<rparr>)
               (atoi (take dash base))))"

section \<open>Reading a session\<close>

record 'r cf_env = "'r write_env" +
  cf_ctx :: "go_error option"
  cf_mkdir :: "go_error option"
  cf_readdir :: "string option"
  cf_read :: "string \<Rightarrow> string option"
  cf_decode :: go_error
  cf_removeall :: "(go_error \<times> (string \<Rightarrow> bool)) option"

type_synonym ('m, 'u) cf_root = "(string \<times> ('m, 'u) checkpoint dir) list"

text \<open>The entries in ascending order; Go leaves the order of equal numbers open.\<close>

definition sequence_files :: "'r dir \<Rightarrow> file_entry list" where
  "sequence_files d = sort_key fe_sequence (List.map_filter parse_name (dir_names d))"

definition readSequenceFiles :: "('m, 'u) checkpoint cf_env \<Rightarrow> string \<Rightarrow> ('m, 'u) cf_root \<Rightarrow> go_error + file_entry list" where
  "readSequenceFiles io sid root =
     (case cf_readdir io of Some n \<Rightarrow> Inl (Errorf ''checkpoint: read dir %q: %w'' [AStr sid] (Some (errno n)))
      | None \<Rightarrow> (case map_of root sid of None \<Rightarrow> Inr [] | Some d \<Rightarrow> Inr (sequence_files d)))"

definition nextSequence :: "('m, 'u) checkpoint cf_env \<Rightarrow> string \<Rightarrow> ('m, 'u) cf_root \<Rightarrow> go_error + int" where
  "nextSequence io sid root =
     (case readSequenceFiles io sid root of Inl e \<Rightarrow> Inl e
      | Inr es \<Rightarrow> if length es = 0 then Inr 1 else Inr (fe_sequence (es ! (length es - 1)) + 1))"

definition readCheckpoint :: "('m, 'u) checkpoint cf_env \<Rightarrow> string \<Rightarrow> string \<Rightarrow> ('m, 'u) cf_root
      \<Rightarrow> go_error + ('m, 'u) checkpoint" where
  "readCheckpoint io sid name root =
     (case cf_read io name of Some n \<Rightarrow> Inl (Errorf ''checkpoint: read %q: %w'' [AStr name] (Some (errno n)))
      | None \<Rightarrow>
     (case map_of root sid of None \<Rightarrow> Inl ErrCheckpointNotFound
      | Some d \<Rightarrow>
     (case map_of d name of None \<Rightarrow> Inl ErrCheckpointNotFound
      | Some c \<Rightarrow>
     (case c of Junk v \<Rightarrow> Inl (Errorf ''checkpoint: decode %q: %w'' [AStr name] (Some (cf_decode io)))
      | Json cp \<Rightarrow> Inr cp))))"

section \<open>Operations\<close>

definition writeJSONAtomic :: "('r, 'z) write_env_scheme \<Rightarrow> string \<Rightarrow> 'r \<Rightarrow> go_error option \<times> 'r fs_step list" where
  "writeJSONAtomic io path v = atomic_write ''checkpoint'' io path v"

definition make_dir :: "string \<Rightarrow> ('m, 'u) cf_root \<Rightarrow> ('m, 'u) cf_root" where
  "make_dir sid root = (case map_of root sid of None \<Rightarrow> AList.update sid [] root | Some d \<Rightarrow> root)"

definition cf_Save :: "('m, 'u) checkpoint cf_env \<Rightarrow> int \<Rightarrow> string \<Rightarrow> ('m, 'u) checkpoint option \<Rightarrow> ('m, 'u) cf_root
      \<Rightarrow> (go_error + ('m, 'u) checkpoint) \<times> ('m, 'u) cf_root" where
  "cf_Save io now fresh c root =
     (case cf_ctx io of Some e \<Rightarrow> (Inl e, root)
      | None \<Rightarrow>
     (case c of None \<Rightarrow> (Inl (invalid ''%w: checkpoint is nil''), root)
      | Some cp \<Rightarrow>
     (let sid = cp_SessionID cp in
      if sid = '''' then (Inl (invalid ''%w: session id is empty''), root)
      else case cf_mkdir io of Some e \<Rightarrow> (Inl (Errorf ''checkpoint: mkdir %q: %w'' [AStr sid] (Some e)), root)
      | None \<Rightarrow>
     (let root1 = make_dir sid root in
      case nextSequence io sid root1 of Inl e \<Rightarrow> (Inl e, root1)
      | Inr n \<Rightarrow>
     (let cp' = assign now fresh n cp;
          d = (case map_of root1 sid of None \<Rightarrow> [] | Some d \<Rightarrow> d) in
      case writeJSONAtomic io (file_name (cp_Sequence cp') (cp_ID cp')) cp' of
        (err, steps) \<Rightarrow>
          (case err of Some e \<Rightarrow> Inl e | None \<Rightarrow> Inr cp', AList.update sid (fold perform steps d) root1))))))"

definition cf_Load :: "('m, 'u) checkpoint cf_env \<Rightarrow> string \<Rightarrow> string \<Rightarrow> ('m, 'u) cf_root
      \<Rightarrow> go_error + ('m, 'u) checkpoint" where
  "cf_Load io sid i root =
     (case cf_ctx io of Some e \<Rightarrow> Inl e
      | None \<Rightarrow>
     (if sid = '''' then Inl (invalid ''%w: session id is empty'')
      else case readSequenceFiles io sid root of Inl e \<Rightarrow> Inl e
      | Inr es \<Rightarrow>
          (if length es = 0 then Inl ErrCheckpointNotFound
           else case (if i = '''' then Some (es ! (length es - 1)) else find_first (\<lambda>en. fe_id en = i) es) of
             None \<Rightarrow> Inl ErrCheckpointNotFound
           | Some en \<Rightarrow> readCheckpoint io sid (fe_name en) root)))"

fun list_metas :: "('m, 'u) checkpoint cf_env \<Rightarrow> string \<Rightarrow> ('m, 'u) cf_root \<Rightarrow> file_entry list \<Rightarrow> 'u checkpoint_meta list" where
  "list_metas io sid root [] = []"
| "list_metas io sid root (en # es) =
     (case readCheckpoint io sid (fe_name en) root of
        Inl e \<Rightarrow> list_metas io sid root es
      | Inr cp \<Rightarrow> metaFrom cp # list_metas io sid root es)"

definition cf_List :: "('m, 'u) checkpoint cf_env \<Rightarrow> string \<Rightarrow> ('m, 'u) cf_root \<Rightarrow> go_error + 'u checkpoint_meta list" where
  "cf_List io sid root =
     (case cf_ctx io of Some e \<Rightarrow> Inl e
      | None \<Rightarrow>
     (if sid = '''' then Inl (invalid ''%w: session id is empty'')
      else case readSequenceFiles io sid root of Inl e \<Rightarrow> Inl e | Inr es \<Rightarrow> Inr (list_metas io sid root es)))"

text \<open>A removal that fails may leave some of the files behind.\<close>

definition cf_Delete :: "('m, 'u) checkpoint cf_env \<Rightarrow> string \<Rightarrow> ('m, 'u) cf_root \<Rightarrow> go_error option \<times> ('m, 'u) cf_root" where
  "cf_Delete io sid root =
     (if sid = '''' then (None, root)
      else case cf_removeall io of
        None \<Rightarrow> (None, AList.delete sid root)
      | Some (e, left) \<Rightarrow> (Some (Errorf ''checkpoint: delete %q: %w'' [AStr sid] (Some e)),
          (case map_of root sid of None \<Rightarrow> root
           | Some d \<Rightarrow> AList.update sid (filter (\<lambda>(n, c). left n) d) root)))"

section \<open>Names can be read back\<close>

lemma of_char_digit [simp]: "k < 10 \<Longrightarrow> (of_char (digit k) :: nat) = 48 + k"
  by (simp add: digit_def)

lemma digit_plain:
  assumes "k < 10"
  shows "digit k \<noteq> CHR ''-''" and "digit k \<noteq> CHR ''+''"
proof -
  have "(of_char (digit k) :: nat) \<noteq> of_char (CHR ''-'')" "(of_char (digit k) :: nat) \<noteq> of_char (CHR ''+'')"
    using assms by simp_all
  then show "digit k \<noteq> CHR ''-''" "digit k \<noteq> CHR ''+''" by force+
qed

lemma decimal_chars: "c \<in> set (decimal n) \<Longrightarrow> \<exists>k<10. c = digit k"
proof (induction n rule: decimal.induct)
  case (1 n)
  show ?case
  proof (cases "n < 10 \<or> c \<notin> set (decimal (n div 10))")
    case True
    then have "c = digit n \<and> n < 10 \<or> c = digit (n mod 10)"
      using 1(2) by (subst (asm) decimal.simps) (auto split: if_splits)
    then show ?thesis by (metis mod_less_divisor zero_less_numeral)
  next
    case False
    then show ?thesis using 1(1) by simp
  qed
qed

lemma decimal_nonempty [simp]: "decimal n \<noteq> []"
  by (subst decimal.simps) simp

lemma parse_digits_append:
  "parse_digits acc (xs @ ys) = (case parse_digits acc xs of None \<Rightarrow> None | Some a \<Rightarrow> parse_digits a ys)"
  by (induction acc xs rule: parse_digits.induct) auto

lemma parse_decimal: "parse_digits acc (decimal n) = Some (acc * 10 ^ length (decimal n) + n)"
proof (induction n arbitrary: acc rule: decimal.induct)
  case (1 n)
  show ?case
  proof (cases "n < 10")
    case True
    then show ?thesis by (subst (1 2) decimal.simps) simp
  next
    case False
    have "parse_digits acc (decimal (n div 10)) = Some (acc * 10 ^ length (decimal (n div 10)) + n div 10)"
      using 1 [OF False] by simp
    then show ?thesis using False
      by (subst (1 2) decimal.simps) (simp add: parse_digits_append algebra_simps)
  qed
qed

lemma parse_zeros: "parse_digits 0 (replicate k CHR ''0'') = Some 0"
  by (induction k) simp_all

lemma padded_chars: "0 \<le> v \<Longrightarrow> c \<in> set (padded w v) \<Longrightarrow> c \<noteq> CHR ''-'' \<and> c \<noteq> CHR ''+''"
  using decimal_chars [of c "nat v"] digit_plain by (fastforce simp: padded_def)

lemma padded_nonempty [simp]: "padded w v \<noteq> []"
  by (simp add: padded_def)

lemma atoi_padded:
  assumes "0 \<le> v"
  shows "atoi (padded w v) = Some v"
proof -
  have "hd (padded w v) \<noteq> CHR ''-'' \<and> hd (padded w v) \<noteq> CHR ''+''"
    using padded_chars [OF assms, of "hd (padded w v)" w] by simp
  moreover have "parse_digits 0 (padded w v) = Some (nat v)"
    using assms by (simp add: padded_def parse_digits_append parse_zeros parse_decimal)
  ultimately show ?thesis using assms by (simp add: atoi_def Let_def)
qed

lemma index_byte_append: "c \<notin> set xs \<Longrightarrow> index_byte c (xs @ c # ys) = Some (length xs)"
  by (induction xs) auto

lemma has_suffix_last: "has_suffix suf n \<Longrightarrow> suf \<noteq> [] \<Longrightarrow> last n = last suf"
  by (auto simp: has_suffix_def) (metis append_take_drop_id last_appendR)

theorem parse_file_name:
  assumes "0 \<le> n" and "i \<noteq> ''''"
  shows "parse_name (file_name n i) = Some \<lparr>fe_name = file_name n i, fe_sequence = n, fe_id = i\<rparr>"
proof -
  let ?p = "padded sequenceWidth n"
  have f: "file_name n i = (?p @ ''-'' @ i) @ checkpointFileExt" by (simp add: file_name_def)
  have s: "has_suffix checkpointFileExt (file_name n i)" unfolding f by (rule has_suffix_append)
  have t: "\<not> has_suffix checkpointTmpExt (file_name n i)"
  proof
    assume "has_suffix checkpointTmpExt (file_name n i)"
    from has_suffix_last [OF this] show False by (simp add: f checkpointTmpExt_def checkpointFileExt_def)
  qed
  have b: "take (length (file_name n i) - length checkpointFileExt) (file_name n i) = ?p @ ''-'' @ i" unfolding f by simp
  have d: "index_byte CHR ''-'' (?p @ ''-'' @ i) = Some (length ?p)"
    using padded_chars [OF assms(1)] index_byte_append [of "CHR ''-''" ?p i] by auto
  have "length i > 0" using assms(2) by simp
  then show ?thesis using s t d assms atoi_padded [OF assms(1), of sequenceWidth]
    by (simp add: parse_name_def Let_def b)
qed

section \<open>The files of a session and its history\<close>

definition cp_files :: "('m, 'u) checkpoint dir \<Rightarrow> ('m, 'u) checkpoint list" where
  "cp_files d =
     concat (map (\<lambda>en. case map_of d (fe_name en) of Some (Json cp) \<Rightarrow> [cp] | _ \<Rightarrow> []) (sequence_files d))"

definition cf_history :: "('m, 'u) cf_root \<Rightarrow> string \<Rightarrow> ('m, 'u) checkpoint list" where
  "cf_history root sid = (case map_of root sid of None \<Rightarrow> [] | Some d \<Rightarrow> cp_files d)"

definition entry_ok :: "('m, 'u) checkpoint dir \<Rightarrow> file_entry \<Rightarrow> bool" where
  "entry_ok d en \<longleftrightarrow> 1 \<le> fe_sequence en \<and> fe_name en = file_name (fe_sequence en) (fe_id en) \<and>
     (\<exists>cp. map_of d (fe_name en) = Some (Json cp) \<and> cp_Sequence cp = fe_sequence en \<and> cp_ID cp = fe_id en)"

definition dir_ok :: "('m, 'u) checkpoint dir \<Rightarrow> bool" where
  "dir_ok d \<longleftrightarrow> distinct (map fst d) \<and> distinct (map fe_sequence (sequence_files d)) \<and>
     (\<forall>en\<in>set (sequence_files d). entry_ok d en)"

definition cf_inv :: "('m, 'u) cf_root \<Rightarrow> bool" where
  "cf_inv root \<longleftrightarrow> (\<forall>sid d. map_of root sid = Some d \<longrightarrow> dir_ok d)"

lemma parse_name_fe_name: "parse_name n = Some en \<Longrightarrow> fe_name en = n"
  by (auto simp: parse_name_def Let_def split: if_splits option.splits)

lemma set_map_filter_parse: "en \<in> set (List.map_filter parse_name ns) \<longleftrightarrow> (\<exists>n\<in>set ns. parse_name n = Some en)"
  by (induction ns) (auto simp: map_filter_simps split: option.splits)

lemma set_sequence_files: "en \<in> set (sequence_files d) \<longleftrightarrow> parse_name (fe_name en) = Some en \<and> map_of d (fe_name en) \<noteq> None"
proof -
  have "en \<in> set (sequence_files d) \<longleftrightarrow> (\<exists>n\<in>fst ` set d. parse_name n = Some en)"
    by (simp add: sequence_files_def dir_names_def set_map_filter_parse)
  also have "\<dots> \<longleftrightarrow> parse_name (fe_name en) = Some en \<and> fe_name en \<in> fst ` set d"
    using parse_name_fe_name by metis
  finally show ?thesis by (simp add: map_of_eq_None_iff)
qed

lemma distinct_parsed: "distinct ns \<Longrightarrow> distinct (List.map_filter parse_name ns)"
proof (induction ns)
  case (Cons n ns)
  have "en \<notin> set (List.map_filter parse_name ns)" if "parse_name n = Some en" for en
  proof
    assume "en \<in> set (List.map_filter parse_name ns)"
    then obtain m where "m \<in> set ns" "parse_name m = Some en" by (auto simp: set_map_filter_parse)
    then show False using that parse_name_fe_name [of n en] parse_name_fe_name [of m en] Cons.prems by simp
  qed
  then show ?case using Cons by (cases "parse_name n") (auto simp: map_filter_simps)
qed (simp add: map_filter_simps)

lemma sequence_files_sorted: "sorted (map fe_sequence (sequence_files d))"
  by (simp add: sequence_files_def)

text \<open>A list of entries in ascending order that has the right elements is the list of the entries.\<close>

lemma sequence_files_unique:
  assumes "distinct (map fst d)" and "sorted (map fe_sequence es)" and "distinct (map fe_sequence es)"
    and "\<And>en. en \<in> set es \<longleftrightarrow> parse_name (fe_name en) = Some en \<and> map_of d (fe_name en) \<noteq> None"
  shows "sequence_files d = es"
proof -
  let ?xs = "List.map_filter parse_name (dir_names d)"
  have "distinct ?xs" using assms(1) by (intro distinct_parsed) (simp add: dir_names_def)
  moreover have "set ?xs = set es"
    using set_sequence_files [of _ d] assms(4) by (auto simp: sequence_files_def)
  moreover have "distinct es" using assms(3) by (metis distinct_map)
  ultimately have "mset ?xs = mset es" by (simp add: set_eq_iff_mset_eq_distinct)
  then show ?thesis unfolding sequence_files_def
    using assms(2,3) \<open>set ?xs = set es\<close> by (intro sort_key_inj_key_eq) (auto simp: distinct_map)
qed

lemma cp_files_map:
  assumes "\<forall>en\<in>set (sequence_files d). entry_ok d en"
  obtains f where "cp_files d = map f (sequence_files d)"
    "\<And>en. en \<in> set (sequence_files d) \<Longrightarrow> map_of d (fe_name en) = Some (Json (f en)) \<and>
       cp_Sequence (f en) = fe_sequence en \<and> cp_ID (f en) = fe_id en"
proof -
  have "\<forall>en\<in>set (sequence_files d). \<exists>cp. map_of d (fe_name en) = Some (Json cp) \<and>
      cp_Sequence cp = fe_sequence en \<and> cp_ID cp = fe_id en"
    using assms by (auto simp: entry_ok_def)
  from bchoice [OF this] obtain f where f: "\<forall>en\<in>set (sequence_files d). map_of d (fe_name en) = Some (Json (f en)) \<and>
      cp_Sequence (f en) = fe_sequence en \<and> cp_ID (f en) = fe_id en" by blast
  have "map (\<lambda>en. case map_of d (fe_name en) of Some (Json cp) \<Rightarrow> [cp] | _ \<Rightarrow> []) (sequence_files d) =
      map (\<lambda>en. [f en]) (sequence_files d)"
    using f by (intro map_cong) auto
  then have "cp_files d = concat (map (\<lambda>en. [f en]) (sequence_files d))" by (simp only: cp_files_def)
  then have "cp_files d = map f (sequence_files d)" by (simp only: concat_map_singleton)
  then show thesis using that f by blast
qed

lemma cp_files_ascending:
  assumes "dir_ok d"
  shows "ascending (cp_files d)" and "next_seq (cp_files d) =
      (if sequence_files d = [] then 1 else fe_sequence (last (sequence_files d)) + 1)"
proof -
  obtain f where f: "cp_files d = map f (sequence_files d)"
    "\<And>en. en \<in> set (sequence_files d) \<Longrightarrow> map_of d (fe_name en) = Some (Json (f en)) \<and>
       cp_Sequence (f en) = fe_sequence en \<and> cp_ID (f en) = fe_id en"
    using cp_files_map assms unfolding dir_ok_def by metis
  have "map cp_Sequence (cp_files d) = map fe_sequence (sequence_files d)" using f by simp
  then have "sorted_wrt (<) (map cp_Sequence (cp_files d))"
    using assms sequence_files_sorted [of d] by (simp add: dir_ok_def strict_sorted_iff)
  moreover have "\<forall>cp\<in>set (cp_files d). 1 \<le> cp_Sequence cp" using f assms by (auto simp: dir_ok_def entry_ok_def)
  ultimately show "ascending (cp_files d)" by (simp add: ascending_def)
  show "next_seq (cp_files d) = (if sequence_files d = [] then 1 else fe_sequence (last (sequence_files d)) + 1)"
    using f by (simp add: next_seq_def last_map)
qed

text \<open>Only the files whose names parse matter.\<close>

lemma same_files:
  assumes "dir_ok d" and "distinct (map fst d')" and "\<And>n. parse_name n \<noteq> None \<Longrightarrow> map_of d' n = map_of d n"
  shows "sequence_files d' = sequence_files d" and "cp_files d' = cp_files d" and "dir_ok d'"
proof -
  show s: "sequence_files d' = sequence_files d"
    by (rule sequence_files_unique [OF assms(2) sequence_files_sorted])
      (use assms(1,3) set_sequence_files [of _ d] in \<open>auto simp: dir_ok_def\<close>)
  have m: "map_of d' (fe_name en) = map_of d (fe_name en)" if "en \<in> set (sequence_files d)" for en
    using assms(3) that set_sequence_files [of en d] by auto
  then show "cp_files d' = cp_files d" unfolding cp_files_def s by (auto intro: arg_cong [of _ _ concat])
  have "entry_ok d' en = entry_ok d en" if "en \<in> set (sequence_files d)" for en
    by (simp only: entry_ok_def m [OF that])
  then show "dir_ok d'" using assms(1,2) by (auto simp: dir_ok_def s)
qed

lemma distinct_perform: "distinct (map fst d) \<Longrightarrow> distinct (map fst (fold perform steps d))"
proof (induction steps arbitrary: d)
  case (Cons st steps)
  have "distinct (map fst (perform st d))"
    using Cons.prems by (cases st) (auto simp: perform.simps distinct_update distinct_delete split: option.splits)
  then show ?case using Cons.IH by simp
qed simp

lemma tmp_not_parsed: "parse_name (path @ ''.tmp'') = None"
proof -
  have "\<not> has_suffix checkpointFileExt (path @ ''.tmp'')"
    using has_suffix_last [of checkpointFileExt "path @ ''.tmp''"] by (auto simp: checkpointFileExt_def)
  then show ?thesis by (simp add: parse_name_def)
qed

lemma write_files:
  assumes "dir_ok d" and "writeJSONAtomic io (file_name (cp_Sequence cp) (cp_ID cp)) cp = (err, steps)"
    and "cp_Sequence cp = next_seq (cp_files d)" and "cp_ID cp \<noteq> ''''"
  shows "dir_ok (fold perform steps d)"
    and "cp_files (fold perform steps d) = (if err = None then cp_files d @ [cp] else cp_files d)"
proof -
  let ?n = "file_name (cp_Sequence cp) (cp_ID cp)"
  let ?d = "fold perform steps d"
  have eff: "map_of ?d n = (if err = None \<and> n = ?n then Some (Json cp) else map_of d n)" if "parse_name n \<noteq> None" for n
  proof -
    have "n \<noteq> ?n @ ''.tmp''" using that tmp_not_parsed by metis
    then show ?thesis by (rule atomic_write_done [OF assms(2) [unfolded writeJSONAtomic_def]])
  qed
  have dist: "distinct (map fst ?d)" using assms(1) by (intro distinct_perform) (simp add: dir_ok_def)
  have "dir_ok ?d \<and> cp_files ?d = (if err = None then cp_files d @ [cp] else cp_files d)"
  proof (cases "err = None")
    case False
    have "map_of ?d n = map_of d n" if "parse_name n \<noteq> None" for n using eff [OF that] False by simp
    from same_files [OF assms(1) dist this] show ?thesis using False by simp
  next
    case True
    let ?en = "\<lparr>fe_name = ?n, fe_sequence = cp_Sequence cp, fe_id = cp_ID cp\<rparr>"
    have pos: "1 \<le> cp_Sequence cp" using ascending_next(1) [OF cp_files_ascending(1) [OF assms(1)]] assms(3) by simp
    have pn: "parse_name ?n = Some ?en" using parse_file_name [of "cp_Sequence cp" "cp_ID cp"] pos assms(4) by simp
    have less: "fe_sequence en < cp_Sequence cp" if "en \<in> set (sequence_files d)" for en
    proof -
      have "fe_sequence en \<le> fe_sequence (last (sequence_files d))"
        using sequence_files_sorted [of d] that
        by (cases "sequence_files d" rule: rev_cases) (auto simp: sorted_append)
      then show ?thesis using cp_files_ascending(2) [OF assms(1)] assms(3) that by (auto split: if_splits)
    qed
    then have new: "fe_name en \<noteq> ?n" if "en \<in> set (sequence_files d)" for en
      using that pn set_sequence_files [of en d] by fastforce
    have seq: "sequence_files ?d = sequence_files d @ [?en]"
    proof (rule sequence_files_unique [OF dist])
      show "sorted (map fe_sequence (sequence_files d @ [?en]))"
        using less sequence_files_sorted [of d] by (auto simp: sorted_append less_imp_le)
      show "distinct (map fe_sequence (sequence_files d @ [?en]))"
        using less assms(1) by (fastforce simp: dir_ok_def)
      show "en \<in> set (sequence_files d @ [?en]) \<longleftrightarrow> parse_name (fe_name en) = Some en \<and> map_of ?d (fe_name en) \<noteq> None" for en
      proof (cases "fe_name en = ?n")
        case True
        then have "en \<notin> set (sequence_files d)" using new by auto
        moreover have "map_of ?d (fe_name en) \<noteq> None" using eff [of ?n] pn True \<open>err = None\<close> by simp
        ultimately show ?thesis using pn True by auto
      next
        case False
        show ?thesis
        proof (cases "parse_name (fe_name en) = Some en")
          case True
          then show ?thesis using False eff [of "fe_name en"] set_sequence_files [of en d] by auto
        next
          case nopar: False
          then have "en \<notin> set (sequence_files d)" using set_sequence_files [of en d] by simp
          then show ?thesis using nopar pn False by auto
        qed
      qed
    qed
    have old: "map_of ?d (fe_name en) = map_of d (fe_name en)" if "en \<in> set (sequence_files d)" for en
      using eff [of "fe_name en"] new [OF that] set_sequence_files [of en d] that by auto
    have me: "map_of ?d ?n = Some (Json cp)" using eff [of ?n] pn True by simp
    have "cp_files ?d = cp_files d @ [cp]"
      unfolding cp_files_def seq using old me by (auto intro: arg_cong [of _ _ concat])
    moreover have "dir_ok ?d"
    proof -
      have "entry_ok ?d en" if "en \<in> set (sequence_files d)" for en
        using assms(1) that unfolding dir_ok_def entry_ok_def old [OF that] by blast
      moreover have "entry_ok ?d ?en" using pos me by (simp add: entry_ok_def)
      moreover have "distinct (map fe_sequence (sequence_files d @ [?en]))"
        using less assms(1) by (fastforce simp: dir_ok_def)
      ultimately show ?thesis using dist by (simp add: dir_ok_def seq)
    qed
    ultimately show ?thesis using True by simp
  qed
  then show "dir_ok ?d" "cp_files ?d = (if err = None then cp_files d @ [cp] else cp_files d)" by auto
qed

section \<open>The file store implements the contract\<close>

fun cf_exec :: "('m, 'u) checkpoint cf_env \<Rightarrow> ('m, 'u) cop \<Rightarrow> ('m, 'u) cf_root
      \<Rightarrow> (go_error + ('m, 'u) checkpoint option) \<times> ('m, 'u) cf_root" where
  "cf_exec io (SaveCp now fresh cp) root =
     (case cf_Save io now fresh (Some cp) root of (Inl e, root') \<Rightarrow> (Inl e, root') | (Inr c, root') \<Rightarrow> (Inr (Some c), root'))"
| "cf_exec io (DeleteCp sid) root =
     (case cf_Delete io sid root of (Some e, root') \<Rightarrow> (Inl e, root') | (None, root') \<Rightarrow> (Inr None, root'))"

definition cf_calm :: "('m, 'u) checkpoint cf_env \<Rightarrow> bool" where
  "cf_calm io \<longleftrightarrow> cf_ctx io = None \<and> cf_readdir io = None \<and> (\<forall>n. cf_read io n = None)"

lemma empty_dir: "sequence_files [] = []" "cp_files [] = []" "dir_ok []"
  by (simp_all add: sequence_files_def dir_names_def map_filter_simps cp_files_def dir_ok_def)

lemma make_dir_history:
  assumes "cf_inv root"
  shows "cf_inv (make_dir sid root)" and "cf_history (make_dir sid root) = cf_history root"
    and "\<exists>d. map_of (make_dir sid root) sid = Some d \<and> dir_ok d \<and> cp_files d = cf_history root sid"
proof -
  show "cf_inv (make_dir sid root)"
    using assms empty_dir by (auto simp: make_dir_def cf_inv_def update_conv' split: option.splits)
  show "cf_history (make_dir sid root) = cf_history root"
    using empty_dir by (auto simp: make_dir_def cf_history_def update_conv' fun_eq_iff split: option.splits)
  show "\<exists>d. map_of (make_dir sid root) sid = Some d \<and> dir_ok d \<and> cp_files d = cf_history root sid"
    using assms empty_dir by (auto simp: make_dir_def cf_inv_def cf_history_def update_conv' split: option.splits)
qed

lemma next_sequence:
  assumes "map_of root sid = Some d" and "dir_ok d" and "nextSequence io sid root = Inr n"
  shows "n = next_seq (cp_files d)"
  using assms cp_files_ascending(2) [OF assms(2)]
  by (auto simp: nextSequence_def readSequenceFiles_def last_conv_nth split: option.splits if_splits)

lemma cf_save:
  assumes "cf_inv root" and "fresh \<noteq> ''''" and "cf_exec io (SaveCp now fresh cp) root = (a, root')"
  shows "cf_inv root' \<and>
      (case a of Inl e \<Rightarrow> cf_history root' = cf_history root
       | Inr r \<Rightarrow> cp_SessionID cp \<noteq> '''' \<and>
           r = Some (assign now fresh (next_seq (cf_history root (cp_SessionID cp))) cp) \<and>
           cf_history root' = (cf_history root)(cp_SessionID cp := cf_history root (cp_SessionID cp) @
             [assign now fresh (next_seq (cf_history root (cp_SessionID cp))) cp]))"
proof -
  let ?sid = "cp_SessionID cp"
  note md = make_dir_history [OF assms(1), of ?sid]
  obtain d where d: "map_of (make_dir ?sid root) ?sid = Some d" "dir_ok d" "cp_files d = cf_history root ?sid"
    using md(3) by blast
  show ?thesis
  proof (cases "cf_ctx io = None \<and> ?sid \<noteq> '''' \<and> cf_mkdir io = None")
    case False
    then have "\<exists>e. a = Inl e" "root' = root" using assms(3) by (auto simp: cf_Save_def Let_def split: option.splits if_splits)
    then show ?thesis using assms(1) by auto
  next
    case True
    show ?thesis
    proof (cases "nextSequence io ?sid (make_dir ?sid root)")
      case (Inl e)
      then have "a = Inl e" "root' = make_dir ?sid root" using assms(3) True by (simp_all add: cf_Save_def Let_def)
      then show ?thesis using md(1,2) by simp
    next
      case (Inr n)
      then have n: "n = next_seq (cp_files d)" using next_sequence [OF d(1,2)] by blast
      define cp' where "cp' = assign now fresh n cp"
      obtain err steps where w: "writeJSONAtomic io (file_name (cp_Sequence cp') (cp_ID cp')) cp' = (err, steps)"
        by (rule prod.exhaust)
      have a: "a = (case err of Some e \<Rightarrow> Inl e | None \<Rightarrow> Inr (Some cp'))"
        and r: "root' = AList.update ?sid (fold perform steps d) (make_dir ?sid root)"
        using assms(3) True Inr d(1) w by (cases err; simp add: cf_Save_def Let_def cp'_def)+
      have wf: "dir_ok (fold perform steps d)"
        "cp_files (fold perform steps d) = (if err = None then cp_files d @ [cp'] else cp_files d)"
        using write_files [OF d(2) w] assms(2) n by (simp_all add: cp'_def assign_def)
      have "cf_inv root'" using md(1) wf(1) by (auto simp: r cf_inv_def update_conv')
      moreover have "cf_history root' = (cf_history root)(?sid := cp_files (fold perform steps d))"
        using md(2) by (auto simp: r cf_history_def update_conv' fun_eq_iff)
      ultimately show ?thesis using a wf(2) True d(3) n cp'_def by (cases err) (auto simp: fun_upd_idem)
    qed
  qed
qed

lemma map_of_kept: "map_of (filter (\<lambda>(n, c). left n) d) n = (if left n then map_of d n else None)"
  by (induction d) auto

lemma filter_files:
  assumes "dir_ok d"
  shows "dir_ok (filter (\<lambda>(n, c). left n) d)"
    and "cp_files (filter (\<lambda>(n, c). left n) d) = filter (\<lambda>cp. left (file_name (cp_Sequence cp) (cp_ID cp))) (cp_files d)"
proof -
  let ?d = "filter (\<lambda>(n, c). left n) d"
  let ?es = "filter (\<lambda>en. left (fe_name en)) (sequence_files d)"
  obtain f where f: "cp_files d = map f (sequence_files d)"
    "\<And>en. en \<in> set (sequence_files d) \<Longrightarrow> map_of d (fe_name en) = Some (Json (f en)) \<and>
       cp_Sequence (f en) = fe_sequence en \<and> cp_ID (f en) = fe_id en"
    using cp_files_map assms unfolding dir_ok_def by metis
  have names: "fe_name en = file_name (cp_Sequence (f en)) (cp_ID (f en))" if "en \<in> set (sequence_files d)" for en
    using f(2) [OF that] assms that by (auto simp: dir_ok_def entry_ok_def)
  have dist: "distinct (map fst ?d)" using assms by (simp add: dir_ok_def distinct_map_filter)
  have seq: "sequence_files ?d = ?es"
  proof (rule sequence_files_unique [OF dist])
    show "sorted (map fe_sequence ?es)" using sequence_files_sorted sorted_filter by blast
    show "distinct (map fe_sequence ?es)" using assms by (simp add: dir_ok_def distinct_map_filter)
    show "en \<in> set ?es \<longleftrightarrow> parse_name (fe_name en) = Some en \<and> map_of ?d (fe_name en) \<noteq> None" for en
      using set_sequence_files [of en d] by (auto simp: map_of_kept)
  qed
  have same: "map_of ?d (fe_name en) = map_of d (fe_name en)" if "en \<in> set ?es" for en
    using that by (simp add: map_of_kept)
  have "entry_ok ?d en" if "en \<in> set ?es" for en
  proof -
    have "entry_ok d en" using assms that by (simp add: dir_ok_def)
    then show ?thesis unfolding entry_ok_def same [OF that] .
  qed
  then show "dir_ok ?d" using assms dist by (simp add: dir_ok_def seq distinct_map_filter)
  have "cp_files ?d = concat (map (\<lambda>en. [f en]) ?es)"
    unfolding cp_files_def seq using f(2) same by (intro arg_cong [of _ _ concat] map_cong) auto
  also have "\<dots> = map f ?es" by (rule concat_map_singleton)
  also have "\<dots> = filter (\<lambda>cp. left (file_name (cp_Sequence cp) (cp_ID cp))) (map f (sequence_files d))"
    using names by (auto simp: filter_map o_def intro!: arg_cong [of _ _ "map f"] filter_cong)
  finally show "cp_files ?d = filter (\<lambda>cp. left (file_name (cp_Sequence cp) (cp_ID cp))) (cp_files d)"
    by (simp add: f(1))
qed

lemma cf_delete:
  assumes "cf_inv root" and "cf_exec io (DeleteCp sid) root = (a, root')"
  shows "cf_inv root' \<and> (\<exists>keep. cf_history root' = (cf_history root)(sid := filter keep (cf_history root sid)))"
proof -
  have same: "cf_history root = (cf_history root)(sid := filter (\<lambda>_. True) (cf_history root sid))" by simp
  show ?thesis
  proof (cases "sid = ''''")
    case True
    then have "root' = root" using assms(2) by (simp add: cf_Delete_def)
    then show ?thesis using assms(1) same by metis
  next
    case False
    show ?thesis
    proof (cases "cf_removeall io")
      case None
      then have "root' = AList.delete sid root" using assms(2) False by (simp add: cf_Delete_def)
      then have "cf_inv root'" "cf_history root' = (cf_history root)(sid := filter (\<lambda>_. False) (cf_history root sid))"
        using assms(1) by (auto simp: cf_inv_def cf_history_def delete_conv' fun_eq_iff)
      then show ?thesis by blast
    next
      case (Some p)
      obtain e left where p: "p = (e, left)" by (rule prod.exhaust)
      show ?thesis
      proof (cases "map_of root sid")
        case None
        then have "root' = root" using assms(2) False Some p by (simp add: cf_Delete_def)
        then show ?thesis using assms(1) same by metis
      next
        case d: (Some d)
        have r: "root' = AList.update sid (filter (\<lambda>(n, c). left n) d) root"
          using assms(2) False Some p d by (simp add: cf_Delete_def)
        have ok: "dir_ok d" using assms(1) d by (auto simp: cf_inv_def)
        have "cf_inv root'" using assms(1) filter_files(1) [OF ok] by (auto simp: r cf_inv_def update_conv')
        moreover have "cf_history root' = (cf_history root)(sid :=
            filter (\<lambda>cp. left (file_name (cp_Sequence cp) (cp_ID cp))) (cf_history root sid))"
          using filter_files(2) [OF ok] d by (auto simp: r cf_history_def update_conv' fun_eq_iff)
        ultimately show ?thesis by blast
      qed
    qed
  qed
qed

lemma find_first_map: "find_first p (map f xs) = map_option f (find_first (p \<circ> f) xs)"
  by (induction xs) auto

lemma find_first_cong: "(\<And>x. x \<in> set xs \<Longrightarrow> p x = q x) \<Longrightarrow> find_first p xs = find_first q xs"
  by (induction xs) auto

lemma cf_load:
  assumes "cf_inv root" and "cf_calm io" and "sid \<noteq> ''''"
  shows "cf_Load io sid i root = find_cp i (cf_history root sid)"
proof (cases "map_of root sid")
  case None
  then show ?thesis using assms(2,3) by (simp add: cf_Load_def cf_calm_def readSequenceFiles_def cf_history_def find_cp_def)
next
  case (Some d)
  let ?es = "sequence_files d"
  have ok: "dir_ok d" using assms(1) Some by (auto simp: cf_inv_def)
  obtain f where f: "cp_files d = map f ?es"
    "\<And>en. en \<in> set ?es \<Longrightarrow> map_of d (fe_name en) = Some (Json (f en)) \<and>
       cp_Sequence (f en) = fe_sequence en \<and> cp_ID (f en) = fe_id en"
    using cp_files_map ok unfolding dir_ok_def by metis
  have read: "readCheckpoint io sid (fe_name en) root = Inr (f en)" if "en \<in> set ?es" for en
    using f(2) [OF that] assms(2) Some by (simp add: readCheckpoint_def cf_calm_def)
  have rs: "readSequenceFiles io sid root = Inr ?es"
    using assms(2) Some by (simp add: readSequenceFiles_def cf_calm_def)
  have h: "cf_history root sid = map f ?es" using Some f(1) by (simp add: cf_history_def)
  have find: "find_first (\<lambda>cp. cp_ID cp = i) (map f ?es) = map_option f (find_first (\<lambda>en. fe_id en = i) ?es)"
    unfolding find_first_map using f(2) by (auto intro!: arg_cong [of _ _ "map_option f"] find_first_cong)
  show ?thesis
  proof (cases "?es = []")
    case True
    then show ?thesis using assms(2,3) rs h by (simp add: cf_Load_def cf_calm_def find_cp_def)
  next
    case False
    then have l: "last ?es \<in> set ?es" "?es ! (length ?es - 1) = last ?es" by (simp_all add: last_conv_nth)
    show ?thesis
    proof (cases "i = ''''")
      case True
      then show ?thesis using assms(2,3) rs h False l read [OF l(1)]
        by (simp add: cf_Load_def cf_calm_def find_cp_def last_map)
    next
      case ne: False
      show ?thesis
      proof (cases "find_first (\<lambda>en. fe_id en = i) ?es")
        case None
        then show ?thesis using assms(2,3) rs h False ne find by (simp add: cf_Load_def cf_calm_def find_cp_def)
      next
        case (Some en)
        then have "en \<in> set ?es" using find_first_Some by fast
        then show ?thesis using assms(2,3) rs h False ne find Some read
          by (simp add: cf_Load_def cf_calm_def find_cp_def)
      qed
    qed
  qed
qed

interpretation cf: iteration_store cf_exec cf_Load cf_history cf_inv cf_calm "\<lambda>i. i \<noteq> ''''"
proof (unfold_locales, goal_cases)
  case (1 s fresh env now cp a s')
  then show ?case by (intro cf_save)
next
  case (2 s env sid a s')
  then show ?case by (intro cf_delete)
next
  case (3 s env sid i)
  then show ?case by (intro cf_load)
next
  case (4 s sid)
  then show ?case using cp_files_ascending(1) by (auto simp: cf_history_def cf_inv_def split: option.splits)
qed

section \<open>Properties\<close>

lemma cf_inv_Nil [simp]: "cf_inv []"
  by (simp add: cf_inv_def)

lemma find_cp_in: "find_cp i cps = Inr c \<Longrightarrow> c \<in> set cps"
  using find_first_Some by (fastforce simp: find_cp_def split: if_splits option.splits)

text \<open>
  C35. Save and load of the file store are inverse: after any history of saves and deletions under any
  file-system faults, a save that reports success made a checkpoint that a later load by its identifier
  returns with every field it was given, whatever calls follow, as long as none deletes the session; right
  after the save it is the session's latest; and its sequence number exceeds that of every checkpoint
  loadable before.
\<close>

theorem file_save_load:
  assumes "cop_run cf_exec h0 [] = (as0, s)" and "cf_exec io (SaveCp now fresh cp) s = (Inr r, s1)"
    and "cop_run cf_exec h s1 = (as, s2)" and "fresh_ids (\<lambda>i. i \<noteq> '''') (h0 @ (io, SaveCp now fresh cp) # h)"
    and "spares (cp_SessionID cp) h" and "cf_calm io2" and "cf_Load io2 (cp_SessionID cp) fresh s = Inl ErrCheckpointNotFound"
  shows "\<exists>cp'. r = Some cp' \<and> cf_Load io2 (cp_SessionID cp) fresh s2 = Inr cp' \<and>
     cf_Load io2 (cp_SessionID cp) '''' s1 = Inr cp' \<and>
     cp' = assign now fresh (cp_Sequence cp') cp \<and>
     (\<forall>i c. cf_Load io2 (cp_SessionID cp) i s = Inr c \<longrightarrow> cp_Sequence c < cp_Sequence cp')"
proof -
  let ?sid = "cp_SessionID cp"
  have f: "fresh_ids (\<lambda>i. i \<noteq> '''') h0" "fresh \<noteq> ''''" "fresh_ids (\<lambda>i. i \<noteq> '''') h"
    using assms(4) by (auto simp: fresh_ids_def)
  have i: "cf_inv s" by (rule cf.history_inv [OF assms(1) cf_inv_Nil f(1)])
  have sid: "?sid \<noteq> ''''" using cf.save [OF i f(2) assms(2)] by simp
  have load: "cf_Load io2 ?sid j s = find_cp j (cf_history s ?sid)" for j
    by (rule cf.load [OF i assms(6) sid])
  have "find_first (\<lambda>c. cp_ID c = fresh) (cf_history s ?sid) = None"
    using assms(7) f(2) load [of fresh] by (auto simp: find_cp_def split: if_splits option.splits)
  then have "fresh \<notin> cp_ID ` set (cf_history s ?sid)" by (auto simp: find_first_None)
  from cf.save_load [OF i f(2,2) assms(2,3) f(3) assms(5) this assms(6)] show ?thesis
    using load find_cp_in by (fastforce simp: assign_def)
qed

text \<open>A file system without faults, and the two stores side by side.\<close>

definition cf_clean :: "('m, 'u) checkpoint cf_env \<Rightarrow> bool" where
  "cf_clean io \<longleftrightarrow> cf_ctx io = None \<and> cf_readdir io = None \<and> (\<forall>n. cf_read io n = None) \<and> write_clean io \<and>
     cf_mkdir io = None \<and> cf_removeall io = None"

definition same_histories :: "('m, 'u) cf_root \<Rightarrow> ('m, 'u) map_iterations \<Rightarrow> bool" where
  "same_histories root s \<longleftrightarrow> cf_inv root \<and> mi_inv s \<and> cf_history root = data_of s \<and> data_of s '''' = []"

lemma cf_clean_calm: "cf_clean io \<Longrightarrow> cf_calm io"
  by (simp add: cf_clean_def cf_calm_def)

lemma cf_save_succeeds:
  assumes "cf_inv root" and "cf_clean io" and "cp_SessionID cp \<noteq> ''''"
    and "cf_exec io (SaveCp now fresh cp) root = (a, root')"
  shows "\<exists>r. a = Inr r"
proof -
  let ?sid = "cp_SessionID cp"
  obtain d where d: "map_of (make_dir ?sid root) ?sid = Some d" "dir_ok d"
    using make_dir_history(3) [OF assms(1)] by blast
  then obtain n where n: "nextSequence io ?sid (make_dir ?sid root) = Inr n"
    using assms(2) by (cases "sequence_files d = []") (auto simp: nextSequence_def readSequenceFiles_def cf_clean_def)
  define cp' where "cp' = assign now fresh n cp"
  obtain steps where "writeJSONAtomic io (file_name (cp_Sequence cp') (cp_ID cp')) cp' = (None, steps)"
    using atomic_write_clean [of io] assms(2) by (fastforce simp: writeJSONAtomic_def cf_clean_def)
  then show ?thesis using assms(2-4) n d by (auto simp: cf_Save_def Let_def cf_clean_def cp'_def)
qed

lemma same_histories_step:
  assumes "same_histories root s" and "cf_clean io" and "fresh_ids (\<lambda>i. i \<noteq> '''') [(io, op)]"
    and "cf_exec io op root = (a, root')" and "mi_exec None op s = (b, s')"
  shows "a = b \<and> same_histories root' s'"
proof (cases op)
  case (SaveCp now fresh cp)
  have i: "cf_inv root" "mi_inv s" and h: "cf_history root = data_of s" "data_of s '''' = []"
    using assms(1) by (simp_all add: same_histories_def)
  have f: "fresh \<noteq> ''''" using assms(3) SaveCp by (simp add: fresh_ids_def)
  note c = cf.save [OF i(1) f assms(4) [unfolded SaveCp]] and m = mi.save [OF i(2) TrueI assms(5) [unfolded SaveCp]]
  show ?thesis
  proof (cases "cp_SessionID cp = ''''")
    case True
    then have "a = Inl (invalid ''%w: session id is empty'')" "b = Inl (invalid ''%w: session id is empty'')"
      using assms(2,4,5) SaveCp by (simp_all add: cf_clean_def cf_Save_def mi_Save_def Let_def)
    then show ?thesis using c m h by (simp add: same_histories_def)
  next
    case False
    obtain ra where "a = Inr ra" using cf_save_succeeds [OF i(1) assms(2) False assms(4) [unfolded SaveCp]] by blast
    moreover obtain rb where "b = Inr rb" using assms(5) SaveCp False by (auto simp: mi_Save_def Let_def)
    ultimately show ?thesis using c m h False by (simp add: same_histories_def)
  qed
next
  case (DeleteCp sid)
  have "a = Inr None" "b = Inr None" using assms(2,4,5) DeleteCp
    by (auto simp: cf_clean_def cf_Delete_def mi_Delete_def split: if_splits)
  moreover have "cf_inv root'" "mi_inv s'"
    using cf.delete [of root io sid a root'] mi.delete [of s None sid b s'] assms DeleteCp by (auto simp: same_histories_def)
  moreover have "data_of s' = (data_of s)(sid := [])"
    using assms(5) DeleteCp by (auto simp: mi_Delete_def data_of_def delete_conv' fun_eq_iff)
  moreover have "cf_history root' = (if sid = '''' then cf_history root else (cf_history root)(sid := []))"
    using assms(2,4) DeleteCp
    by (auto simp: cf_clean_def cf_Delete_def cf_history_def delete_conv' fun_eq_iff split: if_splits)
  ultimately show ?thesis using assms(1) by (auto simp: same_histories_def fun_eq_iff)
qed

lemma same_histories_run:
  assumes "same_histories root s" and "list_all (\<lambda>(io, op). cf_clean io) h" and "fresh_ids (\<lambda>i. i \<noteq> '''') h"
    and "cop_run cf_exec h root = (as, root')" and "cop_run mi_exec (map (\<lambda>(io, op). (None, op)) h) s = (bs, s')"
  shows "as = bs \<and> same_histories root' s'"
  using assms
proof (induction h arbitrary: root s as bs)
  case (Cons c h)
  obtain io op where c: "c = (io, op)" by (rule prod.exhaust)
  obtain a r1 where a: "cf_exec io op root = (a, r1)" by (rule prod.exhaust)
  obtain b s1 where b: "mi_exec None op s = (b, s1)" by (rule prod.exhaust)
  have ab: "a = b \<and> same_histories r1 s1"
    by (rule same_histories_step [OF Cons.prems(1) _ _ a b]) (use Cons.prems(2,3) c in \<open>auto simp: fresh_ids_def\<close>)
  obtain as2 where as2: "cop_run cf_exec h r1 = (as2, root')" "as = a # as2"
    using Cons.prems(4) c a by (auto split: prod.splits)
  obtain bs2 where bs2: "cop_run mi_exec (map (\<lambda>(io, op). (None, op)) h) s1 = (bs2, s')" "bs = b # bs2"
    using Cons.prems(5) c b by (auto split: prod.splits)
  show ?case using Cons.IH [of r1 s1, OF _ _ _ as2(1) bs2(1)] ab Cons.prems(2,3) as2(2) bs2(2)
    by (auto simp: fresh_ids_def)
qed simp

lemma list_metas_files:
  assumes "dir_ok d" and "map_of root sid = Some d" and "cf_calm io"
  shows "list_metas io sid root (sequence_files d) = map metaFrom (cp_files d)"
proof -
  obtain f where f: "cp_files d = map f (sequence_files d)"
    "\<And>en. en \<in> set (sequence_files d) \<Longrightarrow> map_of d (fe_name en) = Some (Json (f en)) \<and>
       cp_Sequence (f en) = fe_sequence en \<and> cp_ID (f en) = fe_id en"
    using cp_files_map assms(1) unfolding dir_ok_def by metis
  have "list_metas io sid root es = map metaFrom (map f es)" if "set es \<subseteq> set (sequence_files d)" for es
    using that by (induction es) (use f(2) assms(2,3) in \<open>simp_all add: readCheckpoint_def cf_calm_def\<close>)
  then show ?thesis using f(1) by simp
qed

text \<open>
  The file store refines the in-memory store: on a file system without faults both give the same
  answers to every history of saves and deletions, and afterwards to every load and every listing.
\<close>

theorem file_store_agrees:
  assumes "list_all (\<lambda>(io, op). cf_clean io) h" and "fresh_ids (\<lambda>i. i \<noteq> '''') h" and "cf_clean io"
    and "cop_run cf_exec h [] = (as, root)"
    and "cop_run mi_exec (map (\<lambda>(io, op). (None, op)) h) NewMapIterationStore = (bs, s)"
  shows "as = bs \<and> cf_Load io sid i root = mi_Load None sid i s \<and> cf_List io sid root = mi_List None sid s"
proof -
  have "same_histories [] NewMapIterationStore"
    by (simp add: same_histories_def mi_inv_def cf_history_def data_of_def seq_of_def NewMapIterationStore_def fun_eq_iff)
  from same_histories_run [OF this assms(1,2,4,5)] have as: "as = bs" and sh: "same_histories root s" by auto
  then have i: "cf_inv root" "mi_inv s" and h: "cf_history root = data_of s" by (simp_all add: same_histories_def)
  have l: "cf_Load io sid i root = mi_Load None sid i s"
  proof (cases "sid = ''''")
    case True
    then show ?thesis using assms(3) by (simp add: cf_Load_def mi_Load_def cf_clean_def)
  next
    case False
    then show ?thesis using cf.load [OF i(1) cf_clean_calm [OF assms(3)] False] mi.load [OF i(2) refl False] h by simp
  qed
  have "cf_List io sid root = mi_List None sid s"
  proof (cases "map_of root sid")
    case None
    then have "data_of s sid = []" using fun_cong [OF h, of sid] by (simp add: cf_history_def)
    then show ?thesis using None assms(3) by (simp add: cf_List_def mi_List_def readSequenceFiles_def cf_clean_def)
  next
    case (Some d)
    then have "dir_ok d" "data_of s sid = cp_files d" using i(1) fun_cong [OF h, of sid] by (auto simp: cf_inv_def cf_history_def)
    then show ?thesis using Some assms(3) list_metas_files [OF _ Some cf_clean_calm [OF assms(3)]]
      by (simp add: cf_List_def mi_List_def readSequenceFiles_def cf_clean_def)
  qed
  with as l show ?thesis by simp
qed

text \<open>Two saves; the rename of the second one fails, and it is tried again.\<close>

definition sample_cf_env :: "(nat, nat) checkpoint cf_env" where
  "sample_cf_env = \<lparr>fw_open = None, fw_encode = None, fw_sync = None, fw_close = None, fw_rename = None,
     fw_partial = Junk None, fw_cleanup = True, cf_ctx = None, cf_mkdir = None, cf_readdir = None,
     cf_read = (\<lambda>n. None), cf_decode = Canceled, cf_removeall = None\<rparr>"

definition sample_cp :: "string \<Rightarrow> (nat, nat) checkpoint" where
  "sample_cp sid = \<lparr>cp_ID = '''', cp_Sequence = 0, cp_SessionID = sid, cp_AgentID = ''agent'', cp_Iteration = 1,
     cp_Final = False, cp_StopReason = '''', cp_Messages = [7, 8], cp_SessionMsgCount = 2, cp_Usage = 5,
     cp_Estimated = False, cp_CreatedAt = 0\<rparr>"

definition sample_cps :: "((nat, nat) checkpoint cf_env \<times> (nat, nat) cop) list" where
  "sample_cps =
     [(sample_cf_env, SaveCp 100 ''ab'' (sample_cp ''s'')),
      (sample_cf_env\<lparr>fw_rename := Some (errno ''EIO'')\<rparr>, SaveCp 101 ''cd'' (sample_cp ''s''))]"

definition sample_later :: "((nat, nat) checkpoint cf_env \<times> (nat, nat) cop) list" where
  "sample_later = [(sample_cf_env, SaveCp 103 ''ef'' (sample_cp ''s'')), (sample_cf_env, DeleteCp ''t'')]"

definition sample_calls :: "((nat, nat) checkpoint cf_env \<times> (nat, nat) cop) list" where
  "sample_calls = [(sample_cf_env, SaveCp 1 ''ab'' (sample_cp ''s'')), (sample_cf_env, SaveCp 2 ''cd'' (sample_cp ''s''))]"

lemma sample_cf_clean: "cf_calm sample_cf_env" "cf_clean sample_cf_env"
  by (simp_all add: cf_calm_def cf_clean_def write_clean_def sample_cf_env_def)

definition sample_saved :: "nat \<Rightarrow> (nat, nat) cf_root" where
  "sample_saved k =
     (let s = snd (cop_run cf_exec sample_cps []); s1 = snd (cf_exec sample_cf_env (SaveCp 102 ''cd'' (sample_cp ''s'')) s) in
      if k = 0 then s else if k = 1 then s1 else snd (cop_run cf_exec sample_later s1))"

theorem file_save_load_witness:
  "cf_Load sample_cf_env ''s'' ''cd'' (sample_saved 2) = Inr (assign 102 ''cd'' 2 (sample_cp ''s'')) \<and>
   cf_Load sample_cf_env ''s'' '''' (sample_saved 1) = Inr (assign 102 ''cd'' 2 (sample_cp ''s''))"
proof -
  let ?r = "assign 102 ''cd'' 2 (sample_cp ''s'')"
  have "fst (cf_exec sample_cf_env (SaveCp 102 ''cd'' (sample_cp ''s'')) (sample_saved 0)) = Inr (Some ?r)" by code_simp
  then have e: "cf_exec sample_cf_env (SaveCp 102 ''cd'' (sample_cp ''s'')) (sample_saved 0) = (Inr (Some ?r), sample_saved 1)"
    by (simp add: prod_eq_iff sample_saved_def Let_def)
  have h0: "cop_run cf_exec sample_cps [] = (fst (cop_run cf_exec sample_cps []), sample_saved 0)"
    and h: "cop_run cf_exec sample_later (sample_saved 1) = (fst (cop_run cf_exec sample_later (sample_saved 1)), sample_saved 2)"
    by (simp_all add: sample_saved_def Let_def)
  have f: "fresh_ids (\<lambda>i. i \<noteq> '''') (sample_cps @ (sample_cf_env, SaveCp 102 ''cd'' (sample_cp ''s'')) # sample_later)"
    by (simp add: fresh_ids_def sample_cps_def sample_later_def)
  have sp: "spares (cp_SessionID (sample_cp ''s'')) sample_later"
    by (simp add: spares_def sample_later_def sample_cp_def)
  have new: "cf_Load sample_cf_env (cp_SessionID (sample_cp ''s'')) ''cd'' (sample_saved 0) = Inl ErrCheckpointNotFound"
    by code_simp
  from file_save_load [OF h0 e h f sp sample_cf_clean(1) new] show ?thesis by (auto simp: sample_cp_def)
qed

theorem file_store_agrees_witness:
  "cf_Load sample_cf_env ''s'' ''cd'' (snd (cop_run cf_exec sample_calls [])) =
     mi_Load None ''s'' ''cd'' (snd (cop_run mi_exec (map (\<lambda>(io, op). (None, op)) sample_calls) NewMapIterationStore)) \<and>
   cf_Load sample_cf_env ''s'' ''cd'' (snd (cop_run cf_exec sample_calls [])) =
     Inr (assign 2 ''cd'' 2 (sample_cp ''s''))"
proof -
  have c: "list_all (\<lambda>(io, op). cf_clean io) sample_calls" "fresh_ids (\<lambda>i. i \<noteq> '''') sample_calls"
    by (simp_all add: sample_calls_def sample_cf_clean fresh_ids_def)
  have "cf_Load sample_cf_env ''s'' ''cd'' (snd (cop_run cf_exec sample_calls [])) =
      Inr (assign 2 ''cd'' 2 (sample_cp ''s''))" by code_simp
  then show ?thesis
    using file_store_agrees [OF c sample_cf_clean(2) surjective_pairing surjective_pairing, of "''s''" "''cd''"] by simp
qed

end
