(* ===== verification/Session.thy ===== *)
theory Session
  imports Prelude "HOL-Library.AList"
begin

text \<open>
  Sessions (\<open>session/session.go\<close>, \<open>session/store.go\<close>) and the in-memory store of their metadata, event logs
  and state (\<open>session/mapstore.go\<close>). Times are integers with zero for Go's zero time; the values of the
  state and of the metadata, and the payloads of events, are opaque. The clone helpers are the identity on
  HOL values. A nil and an empty metadata map are the same empty list.
\<close>

section \<open>Sessions\<close>

definition StateActive :: string where "StateActive = ''active''"
definition StatePaused :: string where "StatePaused = ''paused''"
definition StateCompleted :: string where "StateCompleted = ''completed''"
definition StateFailed :: string where "StateFailed = ''failed''"

definition IDMaxLen :: nat where "IDMaxLen = 128"

record 'v session =
  ss_ID :: string
  ss_ParentID :: string
  ss_AgentID :: string
  ss_UserID :: string
  ss_Title :: string
  ss_State :: string
  ss_Metadata :: "(string \<times> 'v) list"
  ss_CreatedAt :: int
  ss_UpdatedAt :: int

record 'd event =
  ev_Type :: string
  ev_AgentID :: string
  ev_SessionID :: string
  ev_Timestamp :: int
  ev_Data :: "'d option"
  ev_ParentID :: string

definition ErrSessionNotFound :: go_error where
  "ErrSessionNotFound = ErrNew ''session: not found''"

definition ErrSessionExists :: go_error where
  "ErrSessionExists = ErrNew ''session: already exists''"

definition ErrInvalidArgument :: go_error where
  "ErrInvalidArgument = ErrNew ''session: invalid argument''"

text \<open>A panic is \<open>None\<close>.\<close>

definition New :: "int \<Rightarrow> string \<Rightarrow> 'v session option" where
  "New now i =
     (if i = '''' then None
      else Some \<lparr>ss_ID = i, ss_ParentID = '''', ss_AgentID = '''', ss_UserID = '''', ss_Title = '''',
        ss_State = StateActive, ss_Metadata = [], ss_CreatedAt = now, ss_UpdatedAt = now\<rparr>)"

definition name_char :: "char \<Rightarrow> bool" where
  "name_char c \<longleftrightarrow> list_ex (\<lambda>r. fst r \<le> c \<and> c \<le> snd r) [(CHR ''A'', CHR ''Z''), (CHR ''a'', CHR ''z''), (CHR ''0'', CHR ''9'')] \<or>
     List.member ''._-'' c"

definition IDPattern :: "string \<Rightarrow> bool" where
  "IDPattern i \<longleftrightarrow> 1 \<le> length i \<and> length i \<le> 128 \<and> list_all name_char i"

definition validateID :: "string \<Rightarrow> go_error option" where
  "validateID i =
     (if i = '''' then Some (Errorf ''%w: id is empty'' [] (Some ErrInvalidArgument))
      else if length i > IDMaxLen
      then Some (Errorf ''%w: id length %d exceeds %d'' [AInt (int (length i)), AInt (int IDMaxLen)] (Some ErrInvalidArgument))
      else if i = ''.'' \<or> i = ''..'' then Some (Errorf ''%w: id %q is reserved'' [AStr i] (Some ErrInvalidArgument))
      else if \<not> IDPattern i
      then Some (Errorf ''%w: id %q does not match %s'' [AStr i, AStr ''^[A-Za-z0-9._-]{1,128}$''] (Some ErrInvalidArgument))
      else None)"

lemma validateID_invalid: "validateID i = Some e \<Longrightarrow> errors_is e ErrInvalidArgument"
  by (auto simp: validateID_def split: if_splits)

lemma validateID_nonempty: "validateID i = None \<Longrightarrow> i \<noteq> '''' \<and> IDPattern i"
  by (simp add: validateID_def split: if_splits)

lemma session_errors [simp]:
  "errors_is ErrSessionNotFound ErrInvalidArgument \<longleftrightarrow> False" "errors_is ErrSessionExists ErrSessionNotFound \<longleftrightarrow> False"
  "ErrSessionNotFound \<noteq> ErrSessionExists" "ErrSessionExists \<noteq> ErrSessionNotFound"
  by (simp_all add: ErrSessionNotFound_def ErrInvalidArgument_def ErrSessionExists_def)

section \<open>Filters and pages\<close>

record session_filter =
  sf_UserID :: string
  sf_AgentID :: string
  sf_State :: string
  sf_ParentID :: string
  sf_Limit :: int
  sf_Offset :: int

definition sessionMatches :: "'v session \<Rightarrow> session_filter \<Rightarrow> bool" where
  "sessionMatches s f =
     (if sf_UserID f \<noteq> '''' \<and> ss_UserID s \<noteq> sf_UserID f then False
      else if sf_AgentID f \<noteq> '''' \<and> ss_AgentID s \<noteq> sf_AgentID f then False
      else if sf_State f \<noteq> '''' \<and> ss_State s \<noteq> sf_State f then False
      else if sf_ParentID f \<noteq> '''' \<and> ss_ParentID s \<noteq> sf_ParentID f then False
      else True)"

text \<open>The loop of both stores that collects one page.\<close>

fun page_loop :: "session_filter \<Rightarrow> int \<Rightarrow> 'v session list \<Rightarrow> 'v session list \<Rightarrow> 'v session list" where
  "page_loop f skipped out [] = out"
| "page_loop f skipped out (s # ss) =
     (if \<not> sessionMatches s f then page_loop f skipped out ss
      else if sf_Offset f > 0 \<and> skipped < sf_Offset f then page_loop f (skipped + 1) out ss
      else let out' = out @ [s] in
        if sf_Limit f > 0 \<and> int (length out') \<ge> sf_Limit f then out' else page_loop f skipped out' ss)"

definition page :: "session_filter \<Rightarrow> 'v session list \<Rightarrow> 'v session list" where
  "page f ss =
     (let matching = drop (nat (sf_Offset f)) (filter (\<lambda>s. sessionMatches s f) ss) in
      if sf_Limit f > 0 then take (nat (sf_Limit f)) matching else matching)"

lemma page_loop_collect:
  assumes "sf_Offset f \<le> 0 \<or> sf_Offset f \<le> skipped" and "sf_Limit f > 0 \<longrightarrow> int (length out) < sf_Limit f"
  shows "page_loop f skipped out ss = out @
     (let matching = filter (\<lambda>s. sessionMatches s f) ss in
      if sf_Limit f > 0 then take (nat (sf_Limit f) - length out) matching else matching)"
  using assms
proof (induction ss arbitrary: out)
  case (Cons s ss)
  show ?case
  proof (cases "sessionMatches s f")
    case False
    then show ?thesis using Cons by simp
  next
    case True
    show ?thesis
    proof (cases "sf_Limit f > 0 \<and> int (length (out @ [s])) \<ge> sf_Limit f")
      case stop: True
      then have "nat (sf_Limit f) = Suc (length out)" using Cons.prems(2) by auto
      then show ?thesis using True stop Cons.prems(1) by auto
    next
      case False
      then have "sf_Limit f > 0 \<longrightarrow> Suc (nat (sf_Limit f) - Suc (length out)) = nat (sf_Limit f) - length out" by auto
      then show ?thesis using True False Cons.prems(1) Cons.IH [of "out @ [s]"]
        by (auto simp: Let_def take_Suc_Cons simp flip: take_Suc_Cons)
    qed
  qed
qed simp

lemma page_loop_exact:
  assumes "0 \<le> skipped" and "sf_Offset f > 0 \<longrightarrow> skipped \<le> sf_Offset f"
  shows "page_loop f skipped [] ss =
     (let matching = drop (nat (sf_Offset f) - nat skipped) (filter (\<lambda>s. sessionMatches s f) ss) in
      if sf_Limit f > 0 then take (nat (sf_Limit f)) matching else matching)"
  using assms
proof (induction ss arbitrary: skipped)
  case (Cons s ss)
  show ?case
  proof (cases "sessionMatches s f \<and> sf_Offset f > 0 \<and> skipped < sf_Offset f")
    case True
    then have "nat (sf_Offset f) - nat skipped = Suc (nat (sf_Offset f) - nat (skipped + 1))" using Cons.prems(1) by auto
    then show ?thesis using True Cons.IH [of "skipped + 1"] Cons.prems by simp
  next
    case False
    show ?thesis
    proof (cases "sessionMatches s f")
      case True
      then have "sf_Offset f \<le> 0 \<or> sf_Offset f \<le> skipped" using False by auto
      then show ?thesis using page_loop_collect [of f skipped "[]" "s # ss"] by (auto simp: Let_def)
    next
      case no: False
      then show ?thesis using Cons by simp
    qed
  qed
qed simp

lemma page_loop_page: "page_loop f 0 [] ss = page f ss"
  using page_loop_exact [of 0 f ss] by (simp add: page_def)

section \<open>The in-memory store\<close>

record ('v, 'd) session_record =
  sr_meta :: "'v session"
  sr_events :: "'d event list"
  sr_state :: "(string \<times> 'v) list"

record ('v, 'd) map_sessions =
  mss_sessions :: "(string \<times> ('v, 'd) session_record) list"
  mss_order :: "string list"

definition NewMapSessionStore :: "('v, 'd) map_sessions" where
  "NewMapSessionStore = \<lparr>mss_sessions = [], mss_order = []\<rparr>"

text \<open>Defaults and stamps of a new session, and the stamps of an update.\<close>

definition fill_new :: "int \<Rightarrow> 'v session \<Rightarrow> 'v session" where
  "fill_new now s =
     s\<lparr>ss_State := (if ss_State s = '''' then StateActive else ss_State s),
       ss_CreatedAt := (if ss_CreatedAt s = 0 then now else ss_CreatedAt s), ss_UpdatedAt := now\<rparr>"

definition fill_update :: "int \<Rightarrow> 'v session \<Rightarrow> 'v session \<Rightarrow> 'v session" where
  "fill_update now old s =
     s\<lparr>ss_UpdatedAt := now, ss_CreatedAt := (if ss_CreatedAt s = 0 then ss_CreatedAt old else ss_CreatedAt s)\<rparr>"

definition sm_Create :: "go_error option \<Rightarrow> int \<Rightarrow> 'v session option \<Rightarrow> ('v, 'd) map_sessions
      \<Rightarrow> go_error option \<times> ('v, 'd) map_sessions" where
  "sm_Create ctx now inp st =
     (case ctx of Some e \<Rightarrow> (Some e, st)
      | None \<Rightarrow>
     (case inp of None \<Rightarrow> (Some (Errorf ''%w: session is nil'' [] (Some ErrInvalidArgument)), st)
      | Some s \<Rightarrow>
     (case validateID (ss_ID s) of Some e \<Rightarrow> (Some e, st)
      | None \<Rightarrow>
     (case map_of (mss_sessions st) (ss_ID s) of Some r \<Rightarrow> (Some ErrSessionExists, st)
      | None \<Rightarrow>
          (None, st\<lparr>mss_sessions := AList.update (ss_ID s) \<lparr>sr_meta = fill_new now s, sr_events = [], sr_state = []\<rparr> (mss_sessions st),
                    mss_order := mss_order st @ [ss_ID s]\<rparr>)))))"

definition sm_Get :: "go_error option \<Rightarrow> string \<Rightarrow> ('v, 'd) map_sessions \<Rightarrow> go_error + 'v session" where
  "sm_Get ctx i st =
     (case ctx of Some e \<Rightarrow> Inl e
      | None \<Rightarrow> (case map_of (mss_sessions st) i of None \<Rightarrow> Inl ErrSessionNotFound | Some r \<Rightarrow> Inr (sr_meta r)))"

definition put_record :: "string \<Rightarrow> ('v, 'd) session_record \<Rightarrow> ('v, 'd) map_sessions \<Rightarrow> ('v, 'd) map_sessions" where
  "put_record i r st = st\<lparr>mss_sessions := AList.update i r (mss_sessions st)\<rparr>"

definition sm_Update :: "go_error option \<Rightarrow> int \<Rightarrow> 'v session option \<Rightarrow> ('v, 'd) map_sessions
      \<Rightarrow> go_error option \<times> ('v, 'd) map_sessions" where
  "sm_Update ctx now inp st =
     (case ctx of Some e \<Rightarrow> (Some e, st)
      | None \<Rightarrow>
     (case inp of None \<Rightarrow> (Some (Errorf ''%w: session is nil'' [] (Some ErrInvalidArgument)), st)
      | Some s \<Rightarrow>
     (case validateID (ss_ID s) of Some e \<Rightarrow> (Some e, st)
      | None \<Rightarrow>
     (case map_of (mss_sessions st) (ss_ID s) of None \<Rightarrow> (Some ErrSessionNotFound, st)
      | Some r \<Rightarrow> (None, put_record (ss_ID s) (r\<lparr>sr_meta := fill_update now (sr_meta r) s\<rparr>) st)))))"

definition sm_Delete :: "string \<Rightarrow> ('v, 'd) map_sessions \<Rightarrow> go_error option \<times> ('v, 'd) map_sessions" where
  "sm_Delete i st =
     (case map_of (mss_sessions st) i of None \<Rightarrow> (None, st)
      | Some r \<Rightarrow> (None, st\<lparr>mss_sessions := AList.delete i (mss_sessions st), mss_order := remove1 i (mss_order st)\<rparr>))"

text \<open>The loop of \<open>List\<close>; an identifier without a record is a nil dereference.\<close>

fun sm_list_loop :: "('v, 'd) map_sessions \<Rightarrow> session_filter \<Rightarrow> int \<Rightarrow> 'v session list \<Rightarrow> string list \<Rightarrow> 'v session list option" where
  "sm_list_loop st f skipped out [] = Some out"
| "sm_list_loop st f skipped out (i # is) =
     (case map_of (mss_sessions st) i of None \<Rightarrow> None
      | Some r \<Rightarrow>
     (if \<not> sessionMatches (sr_meta r) f then sm_list_loop st f skipped out is
      else if sf_Offset f > 0 \<and> skipped < sf_Offset f then sm_list_loop st f (skipped + 1) out is
      else let out' = out @ [sr_meta r] in
        if sf_Limit f > 0 \<and> int (length out') \<ge> sf_Limit f then Some out' else sm_list_loop st f skipped out' is))"

definition sm_List :: "go_error option \<Rightarrow> session_filter \<Rightarrow> ('v, 'd) map_sessions \<Rightarrow> (go_error + 'v session list) option" where
  "sm_List ctx f st =
     (case ctx of Some e \<Rightarrow> Some (Inl e) | None \<Rightarrow> map_option Inr (sm_list_loop st f 0 [] (mss_order st)))"

definition ListChildren :: "(session_filter \<Rightarrow> 'a) \<Rightarrow> string \<Rightarrow> 'a" where
  "ListChildren list p =
     list \<lparr>sf_UserID = '''', sf_AgentID = '''', sf_State = '''', sf_ParentID = p, sf_Limit = 0, sf_Offset = 0\<rparr>"

definition sm_AppendEvent :: "go_error option \<Rightarrow> int \<Rightarrow> string \<Rightarrow> 'd event \<Rightarrow> ('v, 'd) map_sessions
      \<Rightarrow> go_error option \<times> ('v, 'd) map_sessions" where
  "sm_AppendEvent ctx now i e st =
     (case ctx of Some err \<Rightarrow> (Some err, st)
      | None \<Rightarrow>
     (case map_of (mss_sessions st) i of None \<Rightarrow> (Some ErrSessionNotFound, st)
      | Some r \<Rightarrow> (None, put_record i (r\<lparr>sr_events := sr_events r @ [e], sr_meta := (sr_meta r)\<lparr>ss_UpdatedAt := now\<rparr>\<rparr>) st)))"

definition sm_ListEvents :: "go_error option \<Rightarrow> string \<Rightarrow> ('v, 'd) map_sessions \<Rightarrow> go_error + 'd event list" where
  "sm_ListEvents ctx i st =
     (case ctx of Some e \<Rightarrow> Inl e
      | None \<Rightarrow> (case map_of (mss_sessions st) i of None \<Rightarrow> Inl ErrSessionNotFound | Some r \<Rightarrow> Inr (sr_events r)))"

definition sm_GetState :: "go_error option \<Rightarrow> string \<Rightarrow> string \<Rightarrow> ('v, 'd) map_sessions \<Rightarrow> go_error + 'v option" where
  "sm_GetState ctx i k st =
     (case ctx of Some e \<Rightarrow> Inl e
      | None \<Rightarrow> (case map_of (mss_sessions st) i of None \<Rightarrow> Inl ErrSessionNotFound | Some r \<Rightarrow> Inr (map_of (sr_state r) k)))"

definition sm_SetState :: "go_error option \<Rightarrow> int \<Rightarrow> string \<Rightarrow> string \<Rightarrow> 'v \<Rightarrow> ('v, 'd) map_sessions
      \<Rightarrow> go_error option \<times> ('v, 'd) map_sessions" where
  "sm_SetState ctx now i k v st =
     (case ctx of Some e \<Rightarrow> (Some e, st)
      | None \<Rightarrow>
     (case map_of (mss_sessions st) i of None \<Rightarrow> (Some ErrSessionNotFound, st)
      | Some r \<Rightarrow> (None, put_record i (r\<lparr>sr_state := AList.update k v (sr_state r), sr_meta := (sr_meta r)\<lparr>ss_UpdatedAt := now\<rparr>\<rparr>) st)))"

definition sm_DeleteState :: "go_error option \<Rightarrow> int \<Rightarrow> string \<Rightarrow> string \<Rightarrow> ('v, 'd) map_sessions
      \<Rightarrow> go_error option \<times> ('v, 'd) map_sessions" where
  "sm_DeleteState ctx now i k st =
     (case ctx of Some e \<Rightarrow> (Some e, st)
      | None \<Rightarrow>
     (case map_of (mss_sessions st) i of None \<Rightarrow> (Some ErrSessionNotFound, st)
      | Some r \<Rightarrow>
     (case map_of (sr_state r) k of None \<Rightarrow> (None, st)
      | Some v \<Rightarrow> (None, put_record i (r\<lparr>sr_state := AList.delete k (sr_state r), sr_meta := (sr_meta r)\<lparr>ss_UpdatedAt := now\<rparr>\<rparr>) st))))"

definition sm_ListState :: "go_error option \<Rightarrow> string \<Rightarrow> ('v, 'd) map_sessions \<Rightarrow> go_error + (string \<times> 'v) list" where
  "sm_ListState ctx i st =
     (case ctx of Some e \<Rightarrow> Inl e
      | None \<Rightarrow> (case map_of (mss_sessions st) i of None \<Rightarrow> Inl ErrSessionNotFound | Some r \<Rightarrow> Inr (sr_state r)))"

section \<open>Calls\<close>

datatype ('v, 'd) scall = SCreate "'v session" | SUpdate "'v session" | SGet string | SDelete string
  | SAppend string "'d event" | SEvents string | SGetState string string | SSetState string string 'v
  | SDelState string string | SListState string

datatype ('v, 'd) sanswer = SDone | SFail go_error | SSession "'v session" | SLog "'d event list"
  | SValue "'v option" | SState "(string \<times> 'v) list"

definition done_or :: "go_error option \<Rightarrow> ('v, 'd) sanswer" where
  "done_or err = (case err of None \<Rightarrow> SDone | Some e \<Rightarrow> SFail e)"

definition answer_of :: "('a \<Rightarrow> ('v, 'd) sanswer) \<Rightarrow> go_error + 'a \<Rightarrow> ('v, 'd) sanswer" where
  "answer_of c r = (case r of Inl e \<Rightarrow> SFail e | Inr x \<Rightarrow> c x)"

definition wrote :: "go_error option \<times> 's \<Rightarrow> ('v, 'd) sanswer \<times> 's" where
  "wrote r = (done_or (fst r), snd r)"

lemmas answer_simps = done_or_def answer_of_def wrote_def

fun sm_call :: "go_error option \<Rightarrow> int \<Rightarrow> ('v, 'd) scall \<Rightarrow> ('v, 'd) map_sessions \<Rightarrow> ('v, 'd) sanswer \<times> ('v, 'd) map_sessions" where
  "sm_call ctx now (SCreate s) st = wrote (sm_Create ctx now (Some s) st)"
| "sm_call ctx now (SUpdate s) st = wrote (sm_Update ctx now (Some s) st)"
| "sm_call ctx now (SGet i) st = (answer_of SSession (sm_Get ctx i st), st)"
| "sm_call ctx now (SDelete i) st = wrote (sm_Delete i st)"
| "sm_call ctx now (SAppend i e) st = wrote (sm_AppendEvent ctx now i e st)"
| "sm_call ctx now (SEvents i) st = (answer_of SLog (sm_ListEvents ctx i st), st)"
| "sm_call ctx now (SGetState i k) st = (answer_of SValue (sm_GetState ctx i k st), st)"
| "sm_call ctx now (SSetState i k v) st = wrote (sm_SetState ctx now i k v st)"
| "sm_call ctx now (SDelState i k) st = wrote (sm_DeleteState ctx now i k st)"
| "sm_call ctx now (SListState i) st = (answer_of SState (sm_ListState ctx i st), st)"

fun run_calls :: "('c \<Rightarrow> 's \<Rightarrow> 'a \<times> 's) \<Rightarrow> 'c list \<Rightarrow> 's \<Rightarrow> 'a list \<times> 's" where
  "run_calls call [] s = ([], s)"
| "run_calls call (c # cs) s =
     (case call c s of (a, s1) \<Rightarrow> (case run_calls call cs s1 of (as, s2) \<Rightarrow> (a # as, s2)))"

text \<open>An invariant of the calls is one of a run.\<close>

lemma run_calls_inv:
  assumes "run_calls call cs s = (as, s')" and "I s" and "\<And>c s a s'. I s \<Longrightarrow> call c s = (a, s') \<Longrightarrow> I s'"
  shows "I s'"
  using assms(1,2)
proof (induction cs arbitrary: s as)
  case (Cons c cs)
  obtain a s1 where a: "call c s = (a, s1)" by (rule prod.exhaust)
  obtain as2 s2 where r: "run_calls call cs s1 = (as2, s2)" by (rule prod.exhaust)
  have "s' = s2" using Cons.prems(1) a r by simp
  then show ?case using Cons.IH [of s1 as2] assms(3) [OF Cons.prems(2) a] r by simp
qed simp

section \<open>The order of the in-memory store\<close>

definition order_inv :: "('v, 'd) map_sessions \<Rightarrow> bool" where
  "order_inv st \<longleftrightarrow> distinct (mss_order st) \<and> set (mss_order st) = dom (map_of (mss_sessions st))"

lemma order_inv_empty: "order_inv NewMapSessionStore"
  by (simp add: order_inv_def NewMapSessionStore_def)

lemma put_record_lookup [simp]:
  "map_of (mss_sessions (put_record i r st)) = (map_of (mss_sessions st))(i \<mapsto> r)"
  "mss_order (put_record i r st) = mss_order st"
  by (simp_all add: put_record_def update_conv' fun_eq_iff)

lemma put_record_order: "order_inv st \<Longrightarrow> map_of (mss_sessions st) i = Some r0 \<Longrightarrow> order_inv (put_record i r st)"
  by (auto simp: order_inv_def)

lemma sm_call_order: "order_inv st \<Longrightarrow> sm_call ctx now c st = (a, st') \<Longrightarrow> order_inv st'"
proof (cases c)
  case (SCreate s)
  assume "order_inv st" "sm_call ctx now c st = (a, st')"
  then show ?thesis using SCreate
    by (auto simp: sm_Create_def answer_simps order_inv_def update_conv' dom_def split: option.splits)
next
  case (SDelete i)
  assume "order_inv st" "sm_call ctx now c st = (a, st')"
  then show ?thesis using SDelete
    by (auto simp: sm_Delete_def answer_simps order_inv_def delete_conv' dom_def split: option.splits if_splits)
qed (auto simp: sm_Update_def sm_AppendEvent_def sm_SetState_def sm_DeleteState_def answer_simps
    split: option.splits intro: put_record_order)

lemma sm_list_loop_page:
  assumes "list_all (\<lambda>i. \<exists>r. map_of (mss_sessions st) i = Some r \<and> sr_meta r = metas i) is"
  shows "sm_list_loop st f skipped out is = Some (page_loop f skipped out (map metas is))"
  using assms by (induction "is" arbitrary: skipped out) (auto simp: Let_def)

end
