(* ===== verification/SessionFile.thy ===== *)
theory SessionFile
  imports Session Files "HOL-Library.Product_Lexorder"
begin

text \<open>
  The file store of sessions (\<open>session/filestore.go\<close>). The root maps directory names to session directories.
  The files of such a directory are grouped by what they hold: the metadata file, the state file, the
  metrics file (each with its temporary file) and the event log, which is raw text, because appends are not
  atomic. Encoding an event as a line of JSON is a parameter. Every call has its own surroundings:
  the errors the operating system answers, and how much of an append is written before an error.
\<close>

section \<open>Directories and surroundings\<close>

definition metaFilename :: string where "metaFilename = ''meta.json''"
definition eventsFilename :: string where "eventsFilename = ''events.jsonl''"
definition stateFilename :: string where "stateFilename = ''state.json''"

record ('v, 'm) session_dir =
  sd_meta :: "'v session dir"
  sd_events :: "string option"
  sd_state :: "(string \<times> 'v) list dir"
  sd_metrics :: "'m dir"

type_synonym ('v, 'm) session_root = "(string \<times> ('v, 'm) session_dir) list"

text \<open>
  JSON: an event is encoded as one line and decoded again without its payload; \<open>js_value\<close> is what a value of
  the state or the metadata is after encoding and decoding (an integer becomes a float, for instance).
\<close>

record ('v, 'd) json =
  js_marshal :: "'d event \<Rightarrow> go_error + string"
  js_unmarshal :: "string \<Rightarrow> go_error + 'd event"
  js_value :: "'v \<Rightarrow> 'v"

record 'v sf_env =
  se_ctx :: "go_error option"
  se_stat :: "go_error option"
  se_mkdir :: "go_error option"
  se_meta :: "'v session write_env"
  se_open :: "go_error option"
  se_state :: "(string \<times> 'v) list write_env"
  se_write :: "(go_error \<times> nat) option"
  se_scan :: "go_error option"
  se_readmeta :: "string option"
  se_readstate :: "string option"
  se_decode :: go_error
  se_readdir :: "go_error option"
  se_removeall :: "(go_error \<times> (string \<Rightarrow> bool)) option"

definition view_values :: "('v, 'd) json \<Rightarrow> (string \<times> 'v) list \<Rightarrow> (string \<times> 'v) list" where
  "view_values js kvs = map (\<lambda>kv. (fst kv, js_value js (snd kv))) kvs"

definition empty_dir :: "('v, 'm) session_dir" where
  "empty_dir = \<lparr>sd_meta = [], sd_events = None, sd_state = [], sd_metrics = []\<rparr>"

text \<open>What a failed removal of a directory may leave behind: some of the files.\<close>

definition keep_files :: "(string \<Rightarrow> bool) \<Rightarrow> ('v, 'm) session_dir \<Rightarrow> ('v, 'm) session_dir" where
  "keep_files left d =
     \<lparr>sd_meta = filter (\<lambda>f. left (fst f)) (sd_meta d),
      sd_events = (if left eventsFilename then sd_events d else None),
      sd_state = filter (\<lambda>f. left (fst f)) (sd_state d),
      sd_metrics = filter (\<lambda>f. left (fst f)) (sd_metrics d)\<rparr>"

definition os_RemoveAll :: "'v sf_env \<Rightarrow> string \<Rightarrow> ('v, 'm) session_root \<Rightarrow> go_error option \<times> ('v, 'm) session_root" where
  "os_RemoveAll io i root =
     (case se_removeall io of
        None \<Rightarrow> (None, AList.delete i root)
      | Some (e, left) \<Rightarrow>
          (Some e, case map_of root i of None \<Rightarrow> root | Some d \<Rightarrow> AList.update i (keep_files left d) root))"

section \<open>Reading\<close>

definition readMeta :: "('v, 'd) json \<Rightarrow> 'v sf_env \<Rightarrow> string \<Rightarrow> ('v, 'm) session_root \<Rightarrow> go_error + 'v session" where
  "readMeta js io i root =
     (case se_readmeta io of Some n \<Rightarrow> Inl (Errorf ''session: read meta: %w'' [] (Some (errno n)))
      | None \<Rightarrow>
     (case map_of root i of None \<Rightarrow> Inl ErrSessionNotFound
      | Some d \<Rightarrow>
     (case map_of (sd_meta d) metaFilename of None \<Rightarrow> Inl ErrSessionNotFound
      | Some c \<Rightarrow>
     (case c of Junk v \<Rightarrow> Inl (Errorf ''session: decode meta: %w'' [] (Some (se_decode io)))
      | Json s \<Rightarrow> Inr (s\<lparr>ss_Metadata := view_values js (ss_Metadata s)\<rparr>)))))"

definition readStateFile :: "('v, 'd) json \<Rightarrow> 'v sf_env \<Rightarrow> (string \<times> 'v) list dir \<Rightarrow> go_error + (string \<times> 'v) list" where
  "readStateFile js io files =
     (case se_readstate io of Some n \<Rightarrow> Inl (Errorf ''session: read state: %w'' [] (Some (errno n)))
      | None \<Rightarrow>
     (case map_of files stateFilename of None \<Rightarrow> Inr []
      | Some c \<Rightarrow>
     (case c of Junk v \<Rightarrow> Inl (Errorf ''session: decode state: %w'' [] (Some (se_decode io)))
      | Json st \<Rightarrow> Inr (view_values js st))))"

text \<open>The directory of a session that the code has checked with \<open>os.Stat\<close>.\<close>

definition os_Stat :: "'v sf_env \<Rightarrow> string \<Rightarrow> ('v, 'm) session_root \<Rightarrow> go_error + ('v, 'm) session_dir" where
  "os_Stat io i root =
     (case se_stat io of Some e \<Rightarrow> Inl (Errorf ''session: stat %q: %w'' [AStr i] (Some e))
      | None \<Rightarrow> (case map_of root i of None \<Rightarrow> Inl ErrSessionNotFound | Some d \<Rightarrow> Inr d))"

definition readState :: "('v, 'd) json \<Rightarrow> 'v sf_env \<Rightarrow> string \<Rightarrow> ('v, 'm) session_root \<Rightarrow> go_error + (string \<times> 'v) list" where
  "readState js io i root = (case os_Stat io i root of Inl e \<Rightarrow> Inl e | Inr d \<Rightarrow> readStateFile js io (sd_state d))"

text \<open>Under the lock an error of \<open>os.Stat\<close> other than a missing directory is ignored.\<close>

definition readStateLocked :: "('v, 'd) json \<Rightarrow> 'v sf_env \<Rightarrow> string \<Rightarrow> ('v, 'm) session_root \<Rightarrow> go_error + (string \<times> 'v) list" where
  "readStateLocked js io i root =
     (case map_of root i of
        None \<Rightarrow> (case se_stat io of None \<Rightarrow> Inl ErrSessionNotFound | Some e \<Rightarrow> readStateFile js io [])
      | Some d \<Rightarrow> readStateFile js io (sd_state d))"

section \<open>Writing\<close>

definition write_file :: "('r, 'z) write_env_scheme \<Rightarrow> string \<Rightarrow> 'r \<Rightarrow> 'r dir \<Rightarrow> go_error option \<times> 'r dir" where
  "write_file io path v d = (case atomic_write ''session'' io path v of (err, steps) \<Rightarrow> (err, fold perform steps d))"

definition write_meta :: "'v sf_env \<Rightarrow> 'v session \<Rightarrow> ('v, 'm) session_dir \<Rightarrow> go_error option \<times> ('v, 'm) session_dir" where
  "write_meta io s d = (case write_file (se_meta io) metaFilename s (sd_meta d) of (err, f) \<Rightarrow> (err, d\<lparr>sd_meta := f\<rparr>))"

definition write_state :: "'v sf_env \<Rightarrow> (string \<times> 'v) list \<Rightarrow> ('v, 'm) session_dir \<Rightarrow> go_error option \<times> ('v, 'm) session_dir" where
  "write_state io st d = (case write_file (se_state io) stateFilename st (sd_state d) of (err, f) \<Rightarrow> (err, d\<lparr>sd_state := f\<rparr>))"

definition touchMetaLocked :: "('v, 'd) json \<Rightarrow> 'v sf_env \<Rightarrow> int \<Rightarrow> string \<Rightarrow> ('v, 'm) session_root
      \<Rightarrow> go_error option \<times> ('v, 'm) session_root" where
  "touchMetaLocked js io now i root =
     (case readMeta js io i root of Inl e \<Rightarrow> (Some e, root)
      | Inr s \<Rightarrow>
     (case map_of root i of None \<Rightarrow> (Some ErrSessionNotFound, root)
      | Some d \<Rightarrow>
     (case write_meta io (s\<lparr>ss_UpdatedAt := now\<rparr>) d of (err, d') \<Rightarrow>
        (case err of Some e \<Rightarrow> Some (Errorf ''session: write meta: %w'' [] (Some e)) | None \<Rightarrow> None, AList.update i d' root))))"

section \<open>Operations\<close>

definition sf_Create :: "'v sf_env \<Rightarrow> int \<Rightarrow> 'v session option \<Rightarrow> ('v, 'm) session_root
      \<Rightarrow> go_error option \<times> ('v, 'm) session_root" where
  "sf_Create io now inp root =
     (case se_ctx io of Some e \<Rightarrow> (Some e, root)
      | None \<Rightarrow>
     (case inp of None \<Rightarrow> (Some (Errorf ''%w: session is nil'' [] (Some ErrInvalidArgument)), root)
      | Some s \<Rightarrow>
     (let i = ss_ID s in
      case validateID i of Some e \<Rightarrow> (Some e, root)
      | None \<Rightarrow>
     (case os_Stat io i root of
        Inr d \<Rightarrow> (Some ErrSessionExists, root)
      | Inl e \<Rightarrow>
     (if e \<noteq> ErrSessionNotFound then (Some e, root)
      else case se_mkdir io of Some e \<Rightarrow> (Some (Errorf ''session: mkdir %q: %w'' [AStr i] (Some e)), root)
      | None \<Rightarrow>
     (case write_meta io (fill_new now s) empty_dir of
        (Some e, d) \<Rightarrow>
          (Some (Errorf ''session: write meta: %w'' [] (Some e)), snd (os_RemoveAll io i (AList.update i d root)))
      | (None, d) \<Rightarrow>
     (case se_open io of
        Some e \<Rightarrow>
          (Some (Errorf ''session: create events file: %w'' [] (Some e)), snd (os_RemoveAll io i (AList.update i d root)))
      | None \<Rightarrow>
     (case write_state io [] (d\<lparr>sd_events := Some ''''\<rparr>) of
        (Some e, d') \<Rightarrow>
          (Some (Errorf ''session: write state: %w'' [] (Some e)), snd (os_RemoveAll io i (AList.update i d' root)))
      | (None, d') \<Rightarrow> (None, AList.update i d' root)))))))))"

definition sf_Get :: "('v, 'd) json \<Rightarrow> 'v sf_env \<Rightarrow> string \<Rightarrow> ('v, 'm) session_root \<Rightarrow> go_error + 'v session" where
  "sf_Get js io i root =
     (case se_ctx io of Some e \<Rightarrow> Inl e
      | None \<Rightarrow> (case validateID i of Some e \<Rightarrow> Inl e | None \<Rightarrow> readMeta js io i root))"

definition sf_Update :: "('v, 'd) json \<Rightarrow> 'v sf_env \<Rightarrow> int \<Rightarrow> 'v session option \<Rightarrow> ('v, 'm) session_root
      \<Rightarrow> go_error option \<times> ('v, 'm) session_root" where
  "sf_Update js io now inp root =
     (case se_ctx io of Some e \<Rightarrow> (Some e, root)
      | None \<Rightarrow>
     (case inp of None \<Rightarrow> (Some (Errorf ''%w: session is nil'' [] (Some ErrInvalidArgument)), root)
      | Some s \<Rightarrow>
     (let i = ss_ID s in
      case validateID i of Some e \<Rightarrow> (Some e, root)
      | None \<Rightarrow>
     (case os_Stat io i root of Inl e \<Rightarrow> (Some e, root)
      | Inr d \<Rightarrow>
     (case readMeta js io i root of Inl e \<Rightarrow> (Some e, root)
      | Inr old \<Rightarrow> (case write_meta io (fill_update now old s) d of (err, d') \<Rightarrow> (err, AList.update i d' root)))))))"

definition sf_Delete :: "'v sf_env \<Rightarrow> string \<Rightarrow> ('v, 'm) session_root \<Rightarrow> go_error option \<times> ('v, 'm) session_root" where
  "sf_Delete io i root =
     (case validateID i of
        Some e \<Rightarrow> (if errors_is e ErrInvalidArgument then None else Some e, root)
      | None \<Rightarrow>
     (case os_RemoveAll io i root of
        (None, root') \<Rightarrow> (None, root')
      | (Some e, root') \<Rightarrow> (Some (Errorf ''session: delete %q: %w'' [AStr i] (Some e)), root')))"

text \<open>\<open>collect\<close> reads the sessions in the order of \<open>os.ReadDir\<close>; those that cannot be read are skipped.\<close>

fun collect :: "('v, 'd) json \<Rightarrow> 'v sf_env \<Rightarrow> ('v, 'm) session_root \<Rightarrow> string list \<Rightarrow> (string \<times> 'v session) list" where
  "collect js io root [] = []"
| "collect js io root (i # is) =
     (if \<not> IDPattern i then collect js io root is
      else case readMeta js io i root of
        Inl e \<Rightarrow> collect js io root is
      | Inr s \<Rightarrow> (i, s) # collect js io root is)"

definition by_creation :: "(string \<times> 'v session) list \<Rightarrow> (string \<times> 'v session) list" where
  "by_creation = sort_key (\<lambda>p. (ss_CreatedAt (snd p), fst p))"

definition sf_List :: "('v, 'd) json \<Rightarrow> 'v sf_env \<Rightarrow> session_filter \<Rightarrow> ('v, 'm) session_root \<Rightarrow> go_error + 'v session list" where
  "sf_List js io f root =
     (case se_ctx io of Some e \<Rightarrow> Inl e
      | None \<Rightarrow>
     (case se_readdir io of Some e \<Rightarrow> Inl (Errorf ''session: read root: %w'' [] (Some e))
      | None \<Rightarrow> Inr (page_loop f 0 [] (map snd (by_creation (collect js io root (sort (map fst root))))))))"

definition sf_AppendEvent :: "('v, 'd) json \<Rightarrow> 'v sf_env \<Rightarrow> string \<Rightarrow> 'd event \<Rightarrow> ('v, 'm) session_root
      \<Rightarrow> go_error option \<times> ('v, 'm) session_root" where
  "sf_AppendEvent js io i e root =
     (case se_ctx io of Some err \<Rightarrow> (Some err, root)
      | None \<Rightarrow>
     (case validateID i of Some err \<Rightarrow> (Some err, root)
      | None \<Rightarrow>
     (case os_Stat io i root of Inl err \<Rightarrow> (Some err, root)
      | Inr d \<Rightarrow>
     (case js_marshal js e of Inl err \<Rightarrow> (Some (Errorf ''session: marshal event: %w'' [] (Some err)), root)
      | Inr text \<Rightarrow>
     (case se_open io of Some err \<Rightarrow> (Some (Errorf ''session: open events: %w'' [] (Some err)), root)
      | None \<Rightarrow>
     (let line = text @ [CHR 0x0A]; old = (case sd_events d of None \<Rightarrow> '''' | Some t \<Rightarrow> t) in
      case se_write io of
        Some (err, n) \<Rightarrow> (Some (Errorf ''session: write event: %w'' [] (Some err)),
            AList.update i (d\<lparr>sd_events := Some (old @ take n line)\<rparr>) root)
      | None \<Rightarrow> (None, AList.update i (d\<lparr>sd_events := Some (old @ line)\<rparr>) root)))))))"

text \<open>
  \<open>bufio.Scanner\<close>: lines end with a newline or at the end of the text, a carriage return before it is
  dropped, and a line that does not fit the buffer with its newline is an error.
\<close>

fun split_lines :: "string \<Rightarrow> string \<Rightarrow> string list" where
  "split_lines acc [] = (if acc = [] then [] else [rev acc])"
| "split_lines acc (c # cs) = (if c = CHR 0x0A then rev acc # split_lines [] cs else split_lines (c # acc) cs)"

definition drop_cr :: "string \<Rightarrow> string" where
  "drop_cr l = (if l \<noteq> [] \<and> last l = CHR 0x0D then butlast l else l)"

definition maxLine :: int where "maxLine = 8 * 1024 * 1024"

definition ErrTooLong :: go_error where
  "ErrTooLong = ErrNew ''bufio.Scanner: token too long''"

text \<open>\<open>rawLineEvent.toEvent\<close> leaves the payload out.\<close>

definition toEvent :: "'d event \<Rightarrow> 'd event" where
  "toEvent e = e\<lparr>ev_Data := None\<rparr>"

fun scan_events :: "('v, 'd) json \<Rightarrow> go_error option \<Rightarrow> string list \<Rightarrow> go_error + 'd event list" where
  "scan_events js fail [] =
     (case fail of Some e \<Rightarrow> Inl (Errorf ''session: scan events: %w'' [] (Some e)) | None \<Rightarrow> Inr [])"
| "scan_events js fail (l # ls) =
     (if maxLine \<le> int (length l) then Inl (Errorf ''session: scan events: %w'' [] (Some ErrTooLong))
      else if drop_cr l = [] then scan_events js fail ls
      else case js_unmarshal js (drop_cr l) of
        Inl e \<Rightarrow> Inl (Errorf ''session: decode event: %w'' [] (Some e))
      | Inr e \<Rightarrow> (case scan_events js fail ls of Inl err \<Rightarrow> Inl err | Inr es \<Rightarrow> Inr (toEvent e # es)))"

definition sf_ListEvents :: "('v, 'd) json \<Rightarrow> 'v sf_env \<Rightarrow> string \<Rightarrow> ('v, 'm) session_root \<Rightarrow> go_error + 'd event list" where
  "sf_ListEvents js io i root =
     (case se_ctx io of Some e \<Rightarrow> Inl e
      | None \<Rightarrow>
     (case validateID i of Some e \<Rightarrow> Inl e
      | None \<Rightarrow>
     (case os_Stat io i root of Inl e \<Rightarrow> Inl e
      | Inr d \<Rightarrow>
     (case se_open io of Some e \<Rightarrow> Inl (Errorf ''session: open events: %w'' [] (Some e))
      | None \<Rightarrow>
     (case sd_events d of None \<Rightarrow> Inr []
      | Some t \<Rightarrow> scan_events js (se_scan io) (split_lines [] t))))))"

definition sf_GetState :: "('v, 'd) json \<Rightarrow> 'v sf_env \<Rightarrow> string \<Rightarrow> string \<Rightarrow> ('v, 'm) session_root \<Rightarrow> go_error + 'v option" where
  "sf_GetState js io i k root =
     (case se_ctx io of Some e \<Rightarrow> Inl e
      | None \<Rightarrow>
     (case validateID i of Some e \<Rightarrow> Inl e
      | None \<Rightarrow> (case readState js io i root of Inl e \<Rightarrow> Inl e | Inr st \<Rightarrow> Inr (map_of st k))))"

text \<open>
  Both writers of the state replace the state file and then touch the metadata. A missing directory that
  \<open>os.Stat\<close> could not see fails the write, as the temporary file cannot be created.
\<close>

definition rewrite_state :: "('v, 'd) json \<Rightarrow> 'v sf_env \<Rightarrow> int \<Rightarrow> string \<Rightarrow> (string \<times> 'v) list \<Rightarrow> ('v, 'm) session_root
      \<Rightarrow> go_error option \<times> ('v, 'm) session_root" where
  "rewrite_state js io now i st root =
     (case map_of root i of
        None \<Rightarrow> (Some (Errorf ''session: write state: %w'' []
            (Some (Errorf ''session: open tmp: %w'' [] (Some ErrNotExist)))), root)
      | Some d \<Rightarrow>
     (case write_state io st d of
        (Some e, d') \<Rightarrow> (Some (Errorf ''session: write state: %w'' [] (Some e)), AList.update i d' root)
      | (None, d') \<Rightarrow> touchMetaLocked js io now i (AList.update i d' root)))"

definition sf_SetState :: "('v, 'd) json \<Rightarrow> 'v sf_env \<Rightarrow> int \<Rightarrow> string \<Rightarrow> string \<Rightarrow> 'v \<Rightarrow> ('v, 'm) session_root
      \<Rightarrow> go_error option \<times> ('v, 'm) session_root" where
  "sf_SetState js io now i k v root =
     (case se_ctx io of Some e \<Rightarrow> (Some e, root)
      | None \<Rightarrow>
     (case validateID i of Some e \<Rightarrow> (Some e, root)
      | None \<Rightarrow>
     (case readStateLocked js io i root of Inl e \<Rightarrow> (Some e, root)
      | Inr st \<Rightarrow> rewrite_state js io now i (AList.update k v st) root)))"

definition sf_DeleteState :: "('v, 'd) json \<Rightarrow> 'v sf_env \<Rightarrow> int \<Rightarrow> string \<Rightarrow> string \<Rightarrow> ('v, 'm) session_root
      \<Rightarrow> go_error option \<times> ('v, 'm) session_root" where
  "sf_DeleteState js io now i k root =
     (case se_ctx io of Some e \<Rightarrow> (Some e, root)
      | None \<Rightarrow>
     (case validateID i of Some e \<Rightarrow> (Some e, root)
      | None \<Rightarrow>
     (case readStateLocked js io i root of Inl e \<Rightarrow> (Some e, root)
      | Inr st \<Rightarrow>
     (case map_of st k of None \<Rightarrow> (None, root)
      | Some v \<Rightarrow> rewrite_state js io now i (AList.delete k st) root))))"

definition sf_ListState :: "('v, 'd) json \<Rightarrow> 'v sf_env \<Rightarrow> string \<Rightarrow> ('v, 'm) session_root \<Rightarrow> go_error + (string \<times> 'v) list" where
  "sf_ListState js io i root =
     (case se_ctx io of Some e \<Rightarrow> Inl e
      | None \<Rightarrow> (case validateID i of Some e \<Rightarrow> Inl e | None \<Rightarrow> readState js io i root))"

end
