(* ===== verification/SessionRefine.thy ===== *)
theory SessionRefine
  imports SessionFile
begin

text \<open>
  The file store of sessions refines the in-memory store: on a file system without faults, and for events
  that fit a line, both answer every history of calls alike, up to what the file store is documented to
  lose: the payloads of events, the time of the last append, and what JSON does to values.
\<close>

section \<open>What is compared\<close>

definition view_session :: "('v, 'd) json \<Rightarrow> 'v session \<Rightarrow> 'v session" where
  "view_session js s = s\<lparr>ss_Metadata := view_values js (ss_Metadata s), ss_UpdatedAt := 0\<rparr>"

fun view_answer :: "('v, 'd) json \<Rightarrow> ('v, 'd) sanswer \<Rightarrow> ('v, 'd) sanswer" where
  "view_answer js (SSession s) = SSession (view_session js s)"
| "view_answer js (SLog es) = SLog (map toEvent es)"
| "view_answer js (SValue v) = SValue (map_option (js_value js) v)"
| "view_answer js (SState kvs) = SState (view_values js kvs)"
| "view_answer js SDone = SDone"
| "view_answer js (SFail e) = SFail e"

fun sf_call :: "('v, 'd) json \<Rightarrow> 'v sf_env \<Rightarrow> int \<Rightarrow> ('v, 'd) scall \<Rightarrow> ('v, 'm) session_root
      \<Rightarrow> ('v, 'd) sanswer \<times> ('v, 'm) session_root" where
  "sf_call js io now (SCreate s) root = wrote (sf_Create io now (Some s) root)"
| "sf_call js io now (SUpdate s) root = wrote (sf_Update js io now (Some s) root)"
| "sf_call js io now (SGet i) root = (answer_of SSession (sf_Get js io i root), root)"
| "sf_call js io now (SDelete i) root = wrote (sf_Delete io i root)"
| "sf_call js io now (SAppend i e) root = wrote (sf_AppendEvent js io i e root)"
| "sf_call js io now (SEvents i) root = (answer_of SLog (sf_ListEvents js io i root), root)"
| "sf_call js io now (SGetState i k) root = (answer_of SValue (sf_GetState js io i k root), root)"
| "sf_call js io now (SSetState i k v) root = wrote (sf_SetState js io now i k v root)"
| "sf_call js io now (SDelState i k) root = wrote (sf_DeleteState js io now i k root)"
| "sf_call js io now (SListState i) root = (answer_of SState (sf_ListState js io i root), root)"

text \<open>
  What is relied on of JSON: a line has no newline, is not empty, does not end with a carriage return, and
  decodes to the event up to its payload; values that have been decoded once no longer change.
\<close>

definition json_ok :: "('v, 'd) json \<Rightarrow> bool" where
  "json_ok js \<longleftrightarrow>
     (\<forall>e t. js_marshal js e = Inr t \<longrightarrow> t \<noteq> [] \<and> CHR 0x0A \<notin> set t \<and> last t \<noteq> CHR 0x0D \<and>
        map_sum id toEvent (js_unmarshal js t) = Inr (toEvent e)) \<and>
     (\<forall>v. js_value js (js_value js v) = js_value js v)"

definition fits :: "('v, 'd) json \<Rightarrow> 'd event \<Rightarrow> bool" where
  "fits js e = (case js_marshal js e of Inl err \<Rightarrow> False | Inr t \<Rightarrow> int (length t) < maxLine)"

definition se_clean :: "'v sf_env \<Rightarrow> bool" where
  "se_clean io \<longleftrightarrow> se_ctx io = None \<and> se_stat io = None \<and> se_mkdir io = None \<and> write_clean (se_meta io) \<and>
     se_open io = None \<and> write_clean (se_state io) \<and> se_write io = None \<and> se_scan io = None \<and>
     se_readmeta io = None \<and> se_readstate io = None \<and> se_readdir io = None \<and> se_removeall io = None"

fun call_ok :: "('v, 'd) json \<Rightarrow> ('v, 'd) scall \<Rightarrow> bool" where
  "call_ok js (SCreate s) = True"
| "call_ok js (SUpdate s) = True"
| "call_ok js (SDelete i) = True"
| "call_ok js (SGet i) = (validateID i = None)"
| "call_ok js (SAppend i e) = (validateID i = None \<and> fits js e)"
| "call_ok js (SEvents i) = (validateID i = None)"
| "call_ok js (SGetState i k) = (validateID i = None)"
| "call_ok js (SSetState i k v) = (validateID i = None)"
| "call_ok js (SDelState i k) = (validateID i = None)"
| "call_ok js (SListState i) = (validateID i = None)"

section \<open>Lines\<close>

definition line_of :: "('v, 'd) json \<Rightarrow> 'd event \<Rightarrow> string" where
  "line_of js e = (case js_marshal js e of Inl err \<Rightarrow> '''' | Inr t \<Rightarrow> t @ [CHR 0x0A])"

lemma split_lines_line:
  assumes "CHR 0x0A \<notin> set t"
  shows "split_lines acc (t @ CHR 0x0A # rest) = (rev acc @ t) # split_lines [] rest"
  using assms by (induction t arbitrary: acc) auto

lemma drop_cr_id: "l \<noteq> [] \<Longrightarrow> last l \<noteq> CHR 0x0D \<Longrightarrow> drop_cr l = l"
  by (simp add: drop_cr_def)

lemma scan_lines_of_events:
  assumes "json_ok js" and "list_all (fits js) es"
  shows "scan_events js None (split_lines [] (concat (map (line_of js) es))) = Inr (map toEvent es)"
  using assms(2)
proof (induction es)
  case (Cons e es)
  obtain t where t: "js_marshal js e = Inr t" "int (length t) < maxLine"
    using Cons.prems by (auto simp: fits_def split: sum.splits)
  have js: "t \<noteq> []" "CHR 0x0A \<notin> set t" "last t \<noteq> CHR 0x0D" "map_sum id toEvent (js_unmarshal js t) = Inr (toEvent e)"
    using assms(1) t(1) by (auto simp: json_ok_def)
  obtain e' where e': "js_unmarshal js t = Inr e'" "toEvent e' = toEvent e"
    using js(4) by (cases "js_unmarshal js t") auto
  have "concat (map (line_of js) (e # es)) = t @ CHR 0x0A # concat (map (line_of js) es)"
    using t(1) by (simp add: line_of_def)
  then show ?case using split_lines_line [OF js(2), of "[]"] drop_cr_id [OF js(1,3)] js(1) t(2) e' Cons by simp
qed simp

section \<open>Files of a session\<close>

lemma write_file_clean: "write_clean io \<Longrightarrow> fst (write_file io path v d) = None"
  using atomic_write_clean [of io "''session''" path v] by (auto simp: write_file_def split: prod.splits)

lemma write_file_lookup:
  "write_file io path v d = (err, d') \<Longrightarrow> n \<noteq> path @ ''.tmp'' \<Longrightarrow>
   map_of d' n = (if err = None \<and> n = path then Some (Json v) else map_of d n)"
  using atomic_write_done [of "''session''" io path v err] by (auto simp: write_file_def split: prod.splits)

lemma write_meta_clean:
  assumes "write_clean (se_meta io)"
  obtains d' where "write_meta io s d = (None, d')" "map_of (sd_meta d') metaFilename = Some (Json s)"
    "sd_events d' = sd_events d" "sd_state d' = sd_state d" "sd_metrics d' = sd_metrics d"
proof -
  obtain f where f: "write_file (se_meta io) metaFilename s (sd_meta d) = (None, f)"
    using write_file_clean [OF assms] by (metis prod.collapse)
  show thesis by (rule that [of "d\<lparr>sd_meta := f\<rparr>"]) (use f write_file_lookup [OF f, of metaFilename] in \<open>simp_all add: write_meta_def metaFilename_def\<close>)
qed

lemma write_state_clean:
  assumes "write_clean (se_state io)"
  obtains d' where "write_state io st d = (None, d')" "map_of (sd_state d') stateFilename = Some (Json st)"
    "sd_events d' = sd_events d" "sd_meta d' = sd_meta d" "sd_metrics d' = sd_metrics d"
proof -
  obtain f where f: "write_file (se_state io) stateFilename st (sd_state d) = (None, f)"
    using write_file_clean [OF assms] by (metis prod.collapse)
  show thesis by (rule that [of "d\<lparr>sd_state := f\<rparr>"]) (use f write_file_lookup [OF f, of stateFilename] in \<open>simp_all add: write_state_def stateFilename_def\<close>)
qed

section \<open>Values\<close>

lemma view_values_update:
  "view_values js (AList.update k v kvs) = AList.update k (js_value js v) (view_values js kvs)"
  by (induction kvs) (auto simp: view_values_def)

lemma view_values_delete: "view_values js (AList.delete k kvs) = AList.delete k (view_values js kvs)"
  by (induction kvs) (auto simp: view_values_def AList.delete_eq)

lemma view_values_lookup: "map_of (view_values js kvs) k = map_option (js_value js) (map_of kvs k)"
  by (induction kvs) (auto simp: view_values_def)

lemma view_values_idem [simp]: "json_ok js \<Longrightarrow> view_values js (view_values js kvs) = view_values js kvs"
  by (simp add: view_values_def json_ok_def)

lemma view_session_idem [simp]: "json_ok js \<Longrightarrow> view_session js (view_session js s) = view_session js s"
  by (simp add: view_session_def)

section \<open>The relation\<close>

definition holds :: "('v, 'd) json \<Rightarrow> ('v, 'm) session_dir \<Rightarrow> ('v, 'd) session_record \<Rightarrow> bool" where
  "holds js d r \<longleftrightarrow>
     (\<exists>s. map_of (sd_meta d) metaFilename = Some (Json s) \<and> view_session js s = view_session js (sr_meta r)) \<and>
     (\<exists>st. map_of (sd_state d) stateFilename = Some (Json st) \<and> view_values js st = view_values js (sr_state r)) \<and>
     sd_events d = Some (concat (map (line_of js) (sr_events r))) \<and> list_all (fits js) (sr_events r)"

definition represents :: "('v, 'd) json \<Rightarrow> ('v, 'm) session_root \<Rightarrow> ('v, 'd) map_sessions \<Rightarrow> bool" where
  "represents js root st \<longleftrightarrow> (\<forall>i. rel_option (holds js) (map_of root i) (map_of (mss_sessions st) i))"

lemma represents_cases:
  assumes "represents js root st"
  obtains "map_of root i = None" "map_of (mss_sessions st) i = None"
    | d r where "map_of root i = Some d" "map_of (mss_sessions st) i = Some r" "holds js d r"
  using assms by (metis represents_def option.rel_cases)

lemma represents_put:
  assumes "represents js root st" and "holds js d r"
  shows "represents js (AList.update i d root) (put_record i r st)"
  using assms by (simp add: represents_def update_conv')

lemma holds_read:
  assumes "json_ok js" and "holds js d r" and "map_of root i = Some d" and "se_clean io"
  obtains s where "readMeta js io i root = Inr s" "view_session js s = view_session js (sr_meta r)"
proof -
  obtain s where s: "map_of (sd_meta d) metaFilename = Some (Json s)" "view_session js s = view_session js (sr_meta r)"
    using assms(2) by (auto simp: holds_def)
  show thesis
    by (rule that [of "s\<lparr>ss_Metadata := view_values js (ss_Metadata s)\<rparr>"])
      (use s assms in \<open>simp_all add: readMeta_def se_clean_def view_session_def\<close>)
qed

lemma holds_state:
  assumes "holds js d r" and "se_clean io"
  shows "readStateFile js io (sd_state d) = Inr (view_values js (sr_state r))"
  using assms by (auto simp: holds_def readStateFile_def se_clean_def)

lemma holds_meta:
  assumes "holds js d r" and "map_of (sd_meta d') metaFilename = Some (Json s)" and "view_session js s = view_session js m"
    and "sd_events d' = sd_events d" and "sd_state d' = sd_state d"
  shows "holds js d' (r\<lparr>sr_meta := m\<rparr>)"
  using assms by (simp add: holds_def)

lemma view_session_touch:
  "view_session js s = view_session js m \<Longrightarrow> view_session js (s\<lparr>ss_UpdatedAt := t\<rparr>) = view_session js (m\<lparr>ss_UpdatedAt := t'\<rparr>)"
  by (simp add: view_session_def)

lemma view_session_time:
  assumes "view_session js s = view_session js m"
  shows "ss_CreatedAt s = ss_CreatedAt m"
  using arg_cong [OF assms, of ss_CreatedAt] by (simp add: view_session_def)

text \<open>Each call that writes, on a session that exists.\<close>

lemma refine_update:
  assumes "json_ok js" and "se_clean io" and "holds js d r" and "map_of root i = Some d"
    and "map_of (mss_sessions st) i = Some r" and "represents js root st" and "i = ss_ID s" and "validateID i = None"
  shows "\<exists>root'. sf_Update js io now (Some s) root = (None, root') \<and>
     represents js root' (put_record i (r\<lparr>sr_meta := fill_update now (sr_meta r) s\<rparr>) st)"
proof -
  obtain old where old: "readMeta js io i root = Inr old" "view_session js old = view_session js (sr_meta r)"
    using holds_read [OF assms(1,3,4,2)] by blast
  have "write_clean (se_meta io)" using assms(2) by (simp add: se_clean_def)
  then obtain d' where w: "write_meta io (fill_update now old s) d = (None, d')"
    "map_of (sd_meta d') metaFilename = Some (Json (fill_update now old s))"
    "sd_events d' = sd_events d" "sd_state d' = sd_state d"
    using write_meta_clean by blast
  have "sf_Update js io now (Some s) root = (None, AList.update i d' root)"
    using assms(2,4,7,8) old(1) w(1) by (simp add: sf_Update_def os_Stat_def se_clean_def Let_def)
  moreover have "holds js d' (r\<lparr>sr_meta := fill_update now (sr_meta r) s\<rparr>)"
    by (rule holds_meta [OF assms(3) w(2) _ w(3,4)]) (use view_session_time [OF old(2)] in \<open>simp add: fill_update_def\<close>)
  ultimately show ?thesis using represents_put [OF assms(6)] by blast
qed

lemma refine_append:
  assumes "se_clean io" and "holds js d r" and "map_of root i = Some d"
    and "map_of (mss_sessions st) i = Some r" and "represents js root st" and "validateID i = None" and "fits js e"
  shows "\<exists>root'. sf_AppendEvent js io i e root = (None, root') \<and>
     represents js root' (put_record i (r\<lparr>sr_events := sr_events r @ [e], sr_meta := (sr_meta r)\<lparr>ss_UpdatedAt := now\<rparr>\<rparr>) st)"
proof -
  obtain t where t: "js_marshal js e = Inr t" using assms(7) by (auto simp: fits_def split: sum.splits)
  let ?text = "concat (map (line_of js) (sr_events r)) @ t @ [CHR 0x0A]"
  have "sf_AppendEvent js io i e root = (None, AList.update i (d\<lparr>sd_events := Some ?text\<rparr>) root)"
    using assms(1-3,6) t by (simp add: sf_AppendEvent_def os_Stat_def se_clean_def holds_def Let_def)
  moreover have "holds js (d\<lparr>sd_events := Some ?text\<rparr>)
      (r\<lparr>sr_events := sr_events r @ [e], sr_meta := (sr_meta r)\<lparr>ss_UpdatedAt := now\<rparr>\<rparr>)"
    using assms(2,7) t by (auto simp: holds_def line_of_def view_session_def)
  ultimately show ?thesis using represents_put [OF assms(5)] by blast
qed

lemma refine_rewrite:
  assumes "json_ok js" and "se_clean io" and "holds js d r" and "map_of root i = Some d"
    and "map_of (mss_sessions st) i = Some r" and "represents js root st" and "view_values js kvs = view_values js kvs'"
  shows "\<exists>root'. rewrite_state js io now i kvs root = (None, root') \<and>
     represents js root' (put_record i (r\<lparr>sr_state := kvs', sr_meta := (sr_meta r)\<lparr>ss_UpdatedAt := now\<rparr>\<rparr>) st)"
proof -
  have wc: "write_clean (se_meta io)" "write_clean (se_state io)" using assms(2) by (simp_all add: se_clean_def)
  obtain d1 where w: "write_state io kvs d = (None, d1)" "map_of (sd_state d1) stateFilename = Some (Json kvs)"
    "sd_events d1 = sd_events d" "sd_meta d1 = sd_meta d"
    using write_state_clean [OF wc(2)] by blast
  let ?root = "AList.update i d1 root" and ?r = "r\<lparr>sr_state := kvs'\<rparr>"
  have h1: "holds js d1 ?r" using assms(3,7) w(2-4) by (simp add: holds_def)
  have m1: "map_of ?root i = Some d1" by (simp add: update_conv')
  obtain s where s: "readMeta js io i ?root = Inr s" "view_session js s = view_session js (sr_meta r)"
    using holds_read [OF assms(1) h1 m1 assms(2)] by auto
  obtain d2 where w2: "write_meta io (s\<lparr>ss_UpdatedAt := now\<rparr>) d1 = (None, d2)"
    "map_of (sd_meta d2) metaFilename = Some (Json (s\<lparr>ss_UpdatedAt := now\<rparr>))" "sd_events d2 = sd_events d1" "sd_state d2 = sd_state d1"
    using write_meta_clean [OF wc(1)] by blast
  have "rewrite_state js io now i kvs root = (None, AList.update i d2 ?root)"
    using assms(4) w(1) s(1) m1 w2(1) by (simp add: rewrite_state_def touchMetaLocked_def)
  moreover have "represents js (AList.update i d2 ?root)
      (put_record i (?r\<lparr>sr_meta := (sr_meta r)\<lparr>ss_UpdatedAt := now\<rparr>\<rparr>) (put_record i ?r st))"
    by (rule represents_put [OF represents_put [OF assms(6) h1] holds_meta [OF h1 w2(2) view_session_touch [OF s(2)] w2(3,4)]])
  then have "represents js (AList.update i d2 ?root)
      (put_record i (r\<lparr>sr_state := kvs', sr_meta := (sr_meta r)\<lparr>ss_UpdatedAt := now\<rparr>\<rparr>) st)"
    by (simp add: represents_def)
  ultimately show ?thesis by blast
qed

lemma refine_create:
  assumes "se_clean io" and "map_of root i = None" and "map_of (mss_sessions st) i = None" and "represents js root st"
    and "i = ss_ID s" and "validateID i = None"
  shows "\<exists>root'. sf_Create io now (Some s) root = (None, root') \<and>
     represents js root' (st\<lparr>mss_sessions := AList.update i \<lparr>sr_meta = fill_new now s, sr_events = [], sr_state = []\<rparr> (mss_sessions st),
                             mss_order := mss_order st @ [i]\<rparr>)"
proof -
  have wc: "write_clean (se_meta io)" "write_clean (se_state io)" using assms(1) by (simp_all add: se_clean_def)
  obtain d1 :: "('a, 'b) session_dir" where w: "write_meta io (fill_new now s) empty_dir = (None, d1)"
    "map_of (sd_meta d1) metaFilename = Some (Json (fill_new now s))"
    using write_meta_clean [OF wc(1)] by blast
  obtain d2 where w2: "write_state io [] (d1\<lparr>sd_events := Some ''''\<rparr>) = (None, d2)"
    "map_of (sd_state d2) stateFilename = Some (Json [])" "sd_events d2 = Some ''''" "sd_meta d2 = sd_meta d1"
    using write_state_clean [OF wc(2), of "[]" "d1\<lparr>sd_events := Some ''''\<rparr>"] by auto
  have "sf_Create io now (Some s) root = (None, AList.update i d2 root)"
    using assms(1,2,5,6) w(1) w2(1) by (simp add: sf_Create_def os_Stat_def se_clean_def Let_def)
  moreover have "holds js d2 \<lparr>sr_meta = fill_new now s, sr_events = [], sr_state = []\<rparr>"
    using w(2) w2(2-4) by (simp add: holds_def)
  ultimately show ?thesis using assms(4) by (auto simp: represents_def update_conv')
qed

lemma sf_Delete_clean:
  assumes "se_clean io" and "represents js root st" and "validateID i = None"
  shows "\<exists>root'. sf_Delete io i root = (None, root') \<and> represents js root' (snd (sm_Delete i st))"
proof -
  have "sf_Delete io i root = (None, AList.delete i root)"
    using assms(1,3) by (simp add: sf_Delete_def os_RemoveAll_def se_clean_def)
  moreover have "map_of (mss_sessions (snd (sm_Delete i st))) = (map_of (mss_sessions st))(i := None)"
    by (auto simp: sm_Delete_def delete_conv' fun_eq_iff split: option.splits)
  then have "represents js (AList.delete i root) (snd (sm_Delete i st))"
    using assms(2) by (simp add: represents_def delete_conv')
  ultimately show ?thesis by blast
qed

text \<open>Names in the in-memory store are valid, so deleting an invalid one does nothing in both stores.\<close>

definition names_ok :: "('v, 'd) map_sessions \<Rightarrow> bool" where
  "names_ok st \<longleftrightarrow> (\<forall>i. map_of (mss_sessions st) i \<noteq> None \<longrightarrow> validateID i = None)"

lemma names_ok_empty: "names_ok NewMapSessionStore"
  by (simp add: names_ok_def NewMapSessionStore_def)

lemma sm_call_names: "names_ok st \<Longrightarrow> sm_call ctx now c st = (a, st') \<Longrightarrow> names_ok st'"
  by (cases c) (auto simp: names_ok_def sm_Create_def sm_Update_def sm_Delete_def sm_AppendEvent_def sm_SetState_def
      sm_DeleteState_def answer_simps update_conv' delete_conv' split: option.splits if_splits)

lemma se_clean_simps:
  assumes "se_clean io"
  shows "se_ctx io = None" "se_stat io = None" "se_open io = None" "se_scan io = None"
    and "os_Stat io i root = (case map_of root i of None \<Rightarrow> Inl ErrSessionNotFound | Some d \<Rightarrow> Inr d)"
  using assms by (simp_all add: se_clean_def os_Stat_def)

lemma same_step_SCreate:
  assumes "json_ok js" and "se_clean io" and "represents js root st" and "names_ok st" and "call_ok js (SCreate s)"
    and "sf_call js io now (SCreate s) root = (a, root')" and "sm_call None now (SCreate s) st = (b, st')"
  shows "view_answer js a = view_answer js b \<and> represents js root' st'"
proof -
  show ?thesis
  proof (cases "validateID (ss_ID s)")
    case (Some e)
    then show ?thesis using assms(3,6,7) by (auto simp: se_clean_simps [OF assms(2)] sf_Create_def sm_Create_def answer_simps Let_def)
  next
    case None
    show ?thesis
    proof (rule represents_cases [OF assms(3), of "ss_ID s"])
      assume n: "map_of root (ss_ID s) = None" "map_of (mss_sessions st) (ss_ID s) = None"
      show ?thesis
        using refine_create [OF assms(2) n assms(3) refl None, of now] assms(6,7) None n
        by (auto simp: sm_Create_def answer_simps)
    next
      fix d r assume "map_of root (ss_ID s) = Some d" "map_of (mss_sessions st) (ss_ID s) = Some r"
      then show ?thesis using assms(3,6,7) None
        by (auto simp: se_clean_simps [OF assms(2)] sf_Create_def sm_Create_def answer_simps Let_def)
    qed
  qed
qed

lemma same_step_SUpdate:
  assumes "json_ok js" and "se_clean io" and "represents js root st" and "names_ok st" and "call_ok js (SUpdate s)"
    and "sf_call js io now (SUpdate s) root = (a, root')" and "sm_call None now (SUpdate s) st = (b, st')"
  shows "view_answer js a = view_answer js b \<and> represents js root' st'"
proof -
  show ?thesis
  proof (cases "validateID (ss_ID s)")
    case (Some e)
    then show ?thesis using assms(3,6,7) by (auto simp: se_clean_simps [OF assms(2)] sf_Update_def sm_Update_def answer_simps Let_def)
  next
    case None
    show ?thesis
    proof (rule represents_cases [OF assms(3), of "ss_ID s"])
      assume "map_of root (ss_ID s) = None" "map_of (mss_sessions st) (ss_ID s) = None"
      then show ?thesis using assms(3,6,7) None
        by (auto simp: se_clean_simps [OF assms(2)] sf_Update_def sm_Update_def answer_simps Let_def)
    next
      fix d r assume dr: "map_of root (ss_ID s) = Some d" "map_of (mss_sessions st) (ss_ID s) = Some r" "holds js d r"
      show ?thesis
        using refine_update [OF assms(1,2) dr(3,1,2) assms(3) refl None, of now] assms(6,7) None dr
        by (auto simp: sm_Update_def answer_simps)
    qed
  qed
qed

lemma same_step_SGet:
  assumes "json_ok js" and "se_clean io" and "represents js root st" and "names_ok st" and "call_ok js (SGet i)"
    and "sf_call js io now (SGet i) root = (a, root')" and "sm_call None now (SGet i) st = (b, st')"
  shows "view_answer js a = view_answer js b \<and> represents js root' st'"
proof -
  have v: "validateID i = None" using assms(5) by simp
  show ?thesis
  proof (rule represents_cases [OF assms(3), of i])
    assume "map_of root i = None" "map_of (mss_sessions st) i = None"
    then show ?thesis using assms(2,3,6,7) v
      by (auto simp: se_clean_simps [OF assms(2)] sf_Get_def sm_Get_def readMeta_def answer_simps se_clean_def)
  next
    fix d r assume dr: "map_of root i = Some d" "map_of (mss_sessions st) i = Some r" "holds js d r"
    obtain s where "readMeta js io i root = Inr s" "view_session js s = view_session js (sr_meta r)"
      using holds_read [OF assms(1) dr(3,1) assms(2)] by blast
    then show ?thesis using assms(3,6,7) v dr by (auto simp: se_clean_simps [OF assms(2)] sf_Get_def sm_Get_def answer_simps)
  qed
qed

lemma same_step_SDelete:
  assumes "json_ok js" and "se_clean io" and "represents js root st" and "names_ok st" and "call_ok js (SDelete i)"
    and "sf_call js io now (SDelete i) root = (a, root')" and "sm_call None now (SDelete i) st = (b, st')"
  shows "view_answer js a = view_answer js b \<and> represents js root' st'"
proof -
  show ?thesis
  proof (cases "validateID i")
    case None
    have "b = SDone" "st' = snd (sm_Delete i st)"
      using assms(7) by (auto simp: sm_Delete_def answer_simps split: option.splits)
    then show ?thesis using sf_Delete_clean [OF assms(2,3) None] assms(6) by (auto simp: answer_simps)
  next
    case (Some e)
    then have "map_of (mss_sessions st) i = None" using assms(4) by (auto simp: names_ok_def)
    then show ?thesis using assms(3,6,7) Some validateID_invalid [OF Some]
      by (auto simp: sf_Delete_def sm_Delete_def answer_simps)
  qed
qed

lemma same_step_SAppend:
  assumes "json_ok js" and "se_clean io" and "represents js root st" and "names_ok st" and "call_ok js (SAppend i e)"
    and "sf_call js io now (SAppend i e) root = (a, root')" and "sm_call None now (SAppend i e) st = (b, st')"
  shows "view_answer js a = view_answer js b \<and> represents js root' st'"
proof -
  have v: "validateID i = None" "fits js e" using assms(5) by simp_all
  show ?thesis
  proof (rule represents_cases [OF assms(3), of i])
    assume "map_of root i = None" "map_of (mss_sessions st) i = None"
    then show ?thesis using assms(3,6,7) v
      by (auto simp: se_clean_simps [OF assms(2)] sf_AppendEvent_def sm_AppendEvent_def answer_simps)
  next
    fix d r assume dr: "map_of root i = Some d" "map_of (mss_sessions st) i = Some r" "holds js d r"
    show ?thesis
      using refine_append [OF assms(2) dr(3,1,2) assms(3) v, of now] assms(6,7) dr
      by (auto simp: sm_AppendEvent_def answer_simps)
  qed
qed

lemma same_step_SEvents:
  assumes "json_ok js" and "se_clean io" and "represents js root st" and "names_ok st" and "call_ok js (SEvents i)"
    and "sf_call js io now (SEvents i) root = (a, root')" and "sm_call None now (SEvents i) st = (b, st')"
  shows "view_answer js a = view_answer js b \<and> represents js root' st'"
proof -
  have v: "validateID i = None" using assms(5) by simp
  show ?thesis
  proof (rule represents_cases [OF assms(3), of i])
    assume "map_of root i = None" "map_of (mss_sessions st) i = None"
    then show ?thesis using assms(3,6,7) v
      by (auto simp: se_clean_simps [OF assms(2)] sf_ListEvents_def sm_ListEvents_def answer_simps)
  next
    fix d r assume dr: "map_of root i = Some d" "map_of (mss_sessions st) i = Some r" "holds js d r"
    then have "scan_events js None (split_lines [] (concat (map (line_of js) (sr_events r)))) = Inr (map toEvent (sr_events r))"
      by (intro scan_lines_of_events [OF assms(1)]) (simp add: holds_def)
    then show ?thesis using assms(3,6,7) v dr
      by (auto simp: se_clean_simps [OF assms(2)] sf_ListEvents_def sm_ListEvents_def answer_simps holds_def toEvent_def)
  qed
qed

lemma same_step_SGetState:
  assumes "json_ok js" and "se_clean io" and "represents js root st" and "names_ok st" and "call_ok js (SGetState i k)"
    and "sf_call js io now (SGetState i k) root = (a, root')" and "sm_call None now (SGetState i k) st = (b, st')"
  shows "view_answer js a = view_answer js b \<and> represents js root' st'"
proof -
  have v: "validateID i = None" using assms(5) by simp
  show ?thesis
  proof (rule represents_cases [OF assms(3), of i])
    assume "map_of root i = None" "map_of (mss_sessions st) i = None"
    then show ?thesis using assms(3,6,7) v
      by (auto simp: se_clean_simps [OF assms(2)] sf_GetState_def sm_GetState_def readState_def answer_simps)
  next
    fix d r assume dr: "map_of root i = Some d" "map_of (mss_sessions st) i = Some r" "holds js d r"
    have "map_option (js_value js) (map_option (js_value js) x) = map_option (js_value js) x" for x
      using assms(1) by (cases x) (simp_all add: json_ok_def)
    then show ?thesis using assms(3,6,7) v dr holds_state [OF dr(3) assms(2)]
      by (auto simp: se_clean_simps [OF assms(2)] sf_GetState_def sm_GetState_def readState_def answer_simps view_values_lookup)
  qed
qed

lemma same_step_SSetState:
  assumes "json_ok js" and "se_clean io" and "represents js root st" and "names_ok st" and "call_ok js (SSetState i k x)"
    and "sf_call js io now (SSetState i k x) root = (a, root')" and "sm_call None now (SSetState i k x) st = (b, st')"
  shows "view_answer js a = view_answer js b \<and> represents js root' st'"
proof -
  have v: "validateID i = None" using assms(5) by simp
  show ?thesis
  proof (rule represents_cases [OF assms(3), of i])
    assume "map_of root i = None" "map_of (mss_sessions st) i = None"
    then show ?thesis using assms(3,6,7) v
      by (auto simp: se_clean_simps [OF assms(2)] sf_SetState_def sm_SetState_def readStateLocked_def answer_simps)
  next
    fix d r assume dr: "map_of root i = Some d" "map_of (mss_sessions st) i = Some r" "holds js d r"
    have "view_values js (AList.update k x (view_values js (sr_state r))) = view_values js (AList.update k x (sr_state r))"
      by (simp add: view_values_update assms(1))
    from refine_rewrite [OF assms(1,2) dr(3,1,2) assms(3) this, of now] show ?thesis
      using assms(6,7) v dr holds_state [OF dr(3) assms(2)]
      by (auto simp: se_clean_simps [OF assms(2)] sf_SetState_def sm_SetState_def readStateLocked_def answer_simps)
  qed
qed

lemma same_step_SDelState:
  assumes "json_ok js" and "se_clean io" and "represents js root st" and "names_ok st" and "call_ok js (SDelState i k)"
    and "sf_call js io now (SDelState i k) root = (a, root')" and "sm_call None now (SDelState i k) st = (b, st')"
  shows "view_answer js a = view_answer js b \<and> represents js root' st'"
proof -
  have v: "validateID i = None" using assms(5) by simp
  show ?thesis
  proof (rule represents_cases [OF assms(3), of i])
    assume "map_of root i = None" "map_of (mss_sessions st) i = None"
    then show ?thesis using assms(3,6,7) v
      by (auto simp: se_clean_simps [OF assms(2)] sf_DeleteState_def sm_DeleteState_def readStateLocked_def answer_simps)
  next
    fix d r assume dr: "map_of root i = Some d" "map_of (mss_sessions st) i = Some r" "holds js d r"
    have "view_values js (AList.delete k (view_values js (sr_state r))) = view_values js (AList.delete k (sr_state r))"
      by (simp add: view_values_delete assms(1))
    from refine_rewrite [OF assms(1,2) dr(3,1,2) assms(3) this, of now] show ?thesis
      using assms(3,6,7) v dr holds_state [OF dr(3) assms(2)]
      by (cases "map_of (sr_state r) k")
        (auto simp: se_clean_simps [OF assms(2)] sf_DeleteState_def sm_DeleteState_def readStateLocked_def answer_simps view_values_lookup)
  qed
qed

lemma same_step_SListState:
  assumes "json_ok js" and "se_clean io" and "represents js root st" and "names_ok st" and "call_ok js (SListState i)"
    and "sf_call js io now (SListState i) root = (a, root')" and "sm_call None now (SListState i) st = (b, st')"
  shows "view_answer js a = view_answer js b \<and> represents js root' st'"
proof -
  have v: "validateID i = None" using assms(5) by simp
  show ?thesis
  proof (rule represents_cases [OF assms(3), of i])
    assume "map_of root i = None" "map_of (mss_sessions st) i = None"
    then show ?thesis using assms(3,6,7) v
      by (auto simp: se_clean_simps [OF assms(2)] sf_ListState_def sm_ListState_def readState_def answer_simps)
  next
    fix d r assume dr: "map_of root i = Some d" "map_of (mss_sessions st) i = Some r" "holds js d r"
    then show ?thesis using assms(1,3,6,7) v holds_state [OF dr(3) assms(2)]
      by (auto simp: se_clean_simps [OF assms(2)] sf_ListState_def sm_ListState_def readState_def answer_simps)
  qed
qed

lemma refine_step:
  assumes "json_ok js" and "se_clean io" and "represents js root st" and "names_ok st" and "call_ok js c"
    and "sf_call js io now c root = (a, root')" and "sm_call None now c st = (b, st')"
  shows "view_answer js a = view_answer js b \<and> represents js root' st'"
proof (cases c)
  case (SCreate s)
  show ?thesis by (rule same_step_SCreate [OF assms [unfolded SCreate]])
next
  case (SUpdate s)
  show ?thesis by (rule same_step_SUpdate [OF assms [unfolded SUpdate]])
next
  case (SGet i)
  show ?thesis by (rule same_step_SGet [OF assms [unfolded SGet]])
next
  case (SDelete i)
  show ?thesis by (rule same_step_SDelete [OF assms [unfolded SDelete]])
next
  case (SAppend i e)
  show ?thesis by (rule same_step_SAppend [OF assms [unfolded SAppend]])
next
  case (SEvents i)
  show ?thesis by (rule same_step_SEvents [OF assms [unfolded SEvents]])
next
  case (SGetState i k)
  show ?thesis by (rule same_step_SGetState [OF assms [unfolded SGetState]])
next
  case (SSetState i k v)
  show ?thesis by (rule same_step_SSetState [OF assms [unfolded SSetState]])
next
  case (SDelState i k)
  show ?thesis by (rule same_step_SDelState [OF assms [unfolded SDelState]])
next
  case (SListState i)
  show ?thesis by (rule same_step_SListState [OF assms [unfolded SListState]])
qed

section \<open>Histories\<close>

text \<open>A history is a list of calls, each with its surroundings and the time of the clock.\<close>

definition file_step :: "('v, 'd) json \<Rightarrow> ('v sf_env \<times> int) \<times> ('v, 'd) scall \<Rightarrow> ('v, 'm) session_root \<Rightarrow> ('v, 'd) sanswer \<times> ('v, 'm) session_root" where
  "file_step js c root = sf_call js (fst (fst c)) (snd (fst c)) (snd c) root"

definition map_step :: "('v sf_env \<times> int) \<times> ('v, 'd) scall \<Rightarrow> ('v, 'd) map_sessions \<Rightarrow> ('v, 'd) sanswer \<times> ('v, 'd) map_sessions" where
  "map_step c st = sm_call None (snd (fst c)) (snd c) st"

lemma refine_run:
  assumes "json_ok js" and "list_all (\<lambda>c. se_clean (fst (fst c)) \<and> call_ok js (snd c)) h"
    and "represents js root st" and "names_ok st"
    and "run_calls (file_step js) h root = (as, root')" and "run_calls map_step h st = (bs, st')"
  shows "map (view_answer js) as = map (view_answer js) bs \<and> represents js root' st'"
  using assms(2-)
proof (induction h arbitrary: root st as bs)
  case (Cons c h)
  obtain a r1 where a: "file_step js c root = (a, r1)" by (rule prod.exhaust)
  obtain b s1 where b: "map_step c st = (b, s1)" by (rule prod.exhaust)
  obtain as2 r2 where ra: "run_calls (file_step js) h r1 = (as2, r2)" by (rule prod.exhaust)
  obtain bs2 s2 where rb: "run_calls map_step h s1 = (bs2, s2)" by (rule prod.exhaust)
  have eqs: "as = a # as2" "root' = r2" "bs = b # bs2" "st' = s2" using Cons.prems(4,5) a b ra rb by simp_all
  have one: "view_answer js a = view_answer js b \<and> represents js r1 s1"
    using refine_step [OF assms(1) _ Cons.prems(2,3) _ a [unfolded file_step_def] b [unfolded map_step_def]] Cons.prems(1)
    by simp
  have "names_ok s1" using sm_call_names [OF Cons.prems(3) b [unfolded map_step_def]] .
  then show ?case using Cons.IH [of r1 s1 as2 bs2] one ra rb Cons.prems(1) eqs by simp
qed simp

lemma run_calls_Nil_represents:
  assumes "json_ok js" and "list_all (\<lambda>c. se_clean (fst (fst c)) \<and> call_ok js (snd c)) h"
    and "run_calls (file_step js) h [] = (as, root)" and "run_calls map_step h NewMapSessionStore = (bs, st)"
  shows "map (view_answer js) as = map (view_answer js) bs \<and> represents js root st"
  by (rule refine_run [OF assms(1,2) _ _ assms(3,4)]) (simp_all add: represents_def names_ok_def NewMapSessionStore_def)

section \<open>Listings\<close>

definition any_session :: session_filter where
  "any_session = \<lparr>sf_UserID = '''', sf_AgentID = '''', sf_State = '''', sf_ParentID = '''', sf_Limit = 0, sf_Offset = 0\<rparr>"

lemma page_any [simp]: "page any_session ss = ss"
  by (simp add: page_def any_session_def sessionMatches_def)

definition metas_in_order :: "('v, 'd) map_sessions \<Rightarrow> 'v session list" where
  "metas_in_order st = map (\<lambda>i. sr_meta (the (map_of (mss_sessions st) i))) (mss_order st)"

lemma sm_List_page: "order_inv st \<Longrightarrow> sm_List None f st = Some (Inr (page f (metas_in_order st)))"
  by (subst sm_List_def) (auto simp: order_inv_def metas_in_order_def list_all_iff page_loop_page
      intro!: sm_list_loop_page [THEN trans])

lemma distinct_root: "distinct (map fst root) \<Longrightarrow> sf_call js io now c root = (a, root') \<Longrightarrow> distinct (map fst root')"
  by (cases c) (auto simp: answer_simps sf_Create_def sf_Update_def sf_Delete_def sf_AppendEvent_def sf_SetState_def
      sf_DeleteState_def rewrite_state_def touchMetaLocked_def os_RemoveAll_def Let_def distinct_update distinct_delete
      split: option.splits sum.splits prod.splits if_splits)

lemma collect_all:
  "list_all (\<lambda>i. IDPattern i \<and> readMeta js io i root = Inr (f i)) is \<Longrightarrow> collect js io root is = map (\<lambda>i. (i, f i)) is"
  by (induction "is") auto

lemma listed_alike:
  assumes "json_ok js" and "se_clean io" and "represents js root st" and "names_ok st" and "order_inv st"
    and "distinct (map fst root)"
  shows "\<exists>ss. sf_List js io f root = Inr (page f (map snd (by_creation ss))) \<and>
     mset (map (view_session js \<circ> snd) ss) = mset (map (view_session js) (metas_in_order st))"
proof -
  define f where "f i = (case readMeta js io i root of Inr s \<Rightarrow> s | Inl e \<Rightarrow> undefined)" for i
  define m where "m i = sr_meta (the (map_of (mss_sessions st) i))" for i
  have dom: "set (map fst root) = set (mss_order st)"
  proof (rule set_eqI)
    fix i
    have "map_of root i \<noteq> None \<longleftrightarrow> map_of (mss_sessions st) i \<noteq> None"
      by (rule represents_cases [OF assms(3), of i]) simp_all
    then show "i \<in> set (map fst root) \<longleftrightarrow> i \<in> set (mss_order st)"
      using assms(5) by (auto simp: order_inv_def map_of_eq_None_iff dom_def)
  qed
  have one: "IDPattern i \<and> readMeta js io i root = Inr (f i) \<and> view_session js (f i) = view_session js (m i)"
    if "i \<in> set (map fst root)" for i
  proof (rule represents_cases [OF assms(3), of i])
    fix d r assume dr: "map_of root i = Some d" "map_of (mss_sessions st) i = Some r" "holds js d r"
    have "IDPattern i" using assms(4) dr(2) validateID_nonempty by (simp add: names_ok_def)
    moreover obtain s where "readMeta js io i root = Inr s" "view_session js s = view_session js (sr_meta r)"
      using holds_read [OF assms(1) dr(3,1) assms(2)] by blast
    ultimately show ?thesis using dr(2) by (simp add: f_def m_def)
  next
    assume "map_of root i = None"
    then show ?thesis using that by (simp only: map_of_eq_None_iff) auto
  qed
  have c: "collect js io root (sort (map fst root)) = map (\<lambda>i. (i, f i)) (sort (map fst root))"
    by (rule collect_all) (use one in \<open>simp add: list_all_iff\<close>)
  have "distinct (mss_order st)" using assms(5) by (simp add: order_inv_def)
  then have "mset (map fst root) = mset (mss_order st)" using assms(6) dom by (metis set_eq_iff_mset_eq_distinct)
  moreover have "map (view_session js \<circ> f) (map fst root) = map (view_session js \<circ> m) (map fst root)"
    by (rule map_cong) (use one in auto)
  ultimately have "mset (map (view_session js \<circ> f) (sort (map fst root))) = mset (map (view_session js \<circ> m) (mss_order st))"
    by (metis mset_map mset_sort)
  then have "mset (map (view_session js \<circ> snd) (collect js io root (sort (map fst root)))) =
      mset (map (view_session js) (metas_in_order st))"
    unfolding c map_map metas_in_order_def by (simp add: comp_def m_def del: mset_map)
  moreover have "sf_List js io g root = Inr (page g (map snd (by_creation (collect js io root (sort (map fst root))))))" for g
    using assms(2) by (simp add: sf_List_def se_clean_def page_loop_page)
  ultimately show ?thesis by blast
qed

section \<open>Properties\<close>


text \<open>
  Listings: after any such history the in-memory store lists one page of the matching sessions in the
  order of their creation and never fails, and the file store lists one page of the same sessions sorted by
  creation time and name; a page skips the offset and stops at the limit.
\<close>

theorem sessions_listed_alike:
  assumes "json_ok js" and "list_all (\<lambda>c. se_clean (fst (fst c)) \<and> call_ok js (snd c)) h"
    and "run_calls (file_step js) h [] = (as, root)" and "run_calls map_step h NewMapSessionStore = (bs, st)" and "se_clean io"
  shows "sm_List None f st = Some (Inr (page f (metas_in_order st))) \<and>
     (\<exists>ss. sf_List js io f root = Inr (page f (map snd (by_creation ss))) \<and>
        mset (map (view_session js \<circ> snd) ss) = mset (map (view_session js) (metas_in_order st)))"
proof -
  have r: "represents js root st" using run_calls_Nil_represents [OF assms(1-4)] by simp
  have o: "order_inv st"
    by (rule run_calls_inv [OF assms(4), where I = order_inv]) (auto simp: order_inv_empty map_step_def intro: sm_call_order)
  have n: "names_ok st"
    by (rule run_calls_inv [OF assms(4), where I = names_ok])
      (auto simp: names_ok_empty map_step_def intro: sm_call_names)
  have d: "distinct (map fst root)"
    by (rule run_calls_inv [OF assms(3), where I = "\<lambda>r. distinct (map fst r)"]) (auto simp: file_step_def dest: distinct_root)
  show ?thesis using listed_alike [OF assms(1,5) r n o d, of f] sm_List_page [OF o, of f] by blast
qed

section \<open>A concrete history\<close>

text \<open>A small codec: only events that consist of their type are encoded, and values above four become four.\<close>

definition typed :: "string \<Rightarrow> nat event" where
  "typed t = \<lparr>ev_Type = t, ev_AgentID = '''', ev_SessionID = '''', ev_Timestamp = 0, ev_Data = None, ev_ParentID = ''''\<rparr>"

definition sample_json :: "(nat, nat) json" where
  "sample_json =
     \<lparr>js_marshal = (\<lambda>e. if toEvent e = typed (ev_Type e) \<and> list_all (\<lambda>c. c \<notin> {CHR 0x0A, CHR ''{'', CHR ''}''}) (ev_Type e)
          then Inr (''{'' @ ev_Type e @ ''}'') else Inl (ErrNew ''json: unsupported value'')),
      js_unmarshal = (\<lambda>t. if length t \<ge> 2 \<and> hd t = CHR ''{'' \<and> last t = CHR ''}'' \<and> CHR ''{'' \<notin> set (butlast (tl t))
          then Inr (typed (butlast (tl t))) else Inl (ErrNew ''json: invalid character'')),
      js_value = (\<lambda>v. if v > 4 then 4 else v)\<rparr>"

lemma sample_json_ok: "json_ok sample_json"
  by (auto simp: json_ok_def sample_json_def typed_def toEvent_def list_all_iff split: if_splits)

definition quiet_write :: "'r write_env" where
  "quiet_write = \<lparr>fw_open = None, fw_encode = None, fw_sync = None, fw_close = None, fw_rename = None,
     fw_partial = Junk None, fw_cleanup = True\<rparr>"

definition quiet_io :: "nat sf_env" where
  "quiet_io = \<lparr>se_ctx = None, se_stat = None, se_mkdir = None, se_meta = quiet_write, se_open = None,
     se_state = quiet_write, se_write = None, se_scan = None, se_readmeta = None, se_readstate = None,
     se_decode = Canceled, se_readdir = None, se_removeall = None\<rparr>"

lemma quiet_io_clean: "se_clean quiet_io"
  by (simp add: se_clean_def quiet_io_def quiet_write_def write_clean_def)

definition session_named :: "string \<Rightarrow> nat session" where
  "session_named i = \<lparr>ss_ID = i, ss_ParentID = '''', ss_AgentID = ''a'', ss_UserID = ''u'', ss_Title = '''',
     ss_State = '''', ss_Metadata = [(''k'', 3)], ss_CreatedAt = 0, ss_UpdatedAt = 0\<rparr>"

definition sample_history :: "((nat sf_env \<times> int) \<times> (nat, nat) scall) list" where
  "sample_history = map (\<lambda>c. ((quiet_io, 5), c))
     [SCreate (session_named ''b''), SCreate (session_named ''a''), SAppend ''b'' ((typed ''x'')\<lparr>ev_Data := Some 1\<rparr>),
      SAppend ''b'' (typed ''y''), SEvents ''b'', SGet ''c'', SSetState ''b'' ''n'' 7, SGetState ''b'' ''n'']"

definition sample_root :: "(nat, unit) session_root" where
  "sample_root = snd (run_calls (file_step sample_json) sample_history [])"

definition sample_store :: "(nat, nat) map_sessions" where
  "sample_store = snd (run_calls map_step sample_history NewMapSessionStore)"

lemma sample_history_ok: "list_all (\<lambda>c. se_clean (fst (fst c)) \<and> call_ok sample_json (snd c)) sample_history"
proof -
  have c: "list_all (call_ok sample_json) (map snd sample_history)" by code_simp
  have "list_all (\<lambda>c. fst (fst c) = quiet_io) sample_history" by (simp add: sample_history_def)
  with c quiet_io_clean show ?thesis by (auto simp: list_all_iff)
qed

lemma sample_runs:
  "run_calls (file_step sample_json) sample_history [] =
     (fst (run_calls (file_step sample_json) sample_history ([] :: (nat, unit) session_root)), sample_root)"
  "run_calls map_step sample_history NewMapSessionStore = (fst (run_calls map_step sample_history NewMapSessionStore), sample_store)"
  by (simp_all add: sample_root_def sample_store_def)


theorem sessions_listed_alike_witness:
  "sm_List None any_session sample_store = Some (Inr (metas_in_order sample_store)) \<and>
   map ss_ID (metas_in_order sample_store) = [''b'', ''a''] \<and>
   (\<exists>ss. sf_List sample_json quiet_io any_session sample_root = Inr (map snd (by_creation ss)) \<and> length ss = 2)"
proof -
  have n: "map ss_ID (metas_in_order sample_store) = [''b'', ''a'']" by code_simp
  then have "length (metas_in_order sample_store) = 2" by (metis length_map length_Cons list.size(3) numeral_2_eq_2)
  with n show ?thesis
    using sessions_listed_alike [OF sample_json_ok sample_history_ok sample_runs quiet_io_clean, of any_session]
    by (fastforce dest: mset_eq_length)
qed

end
