(* ===== verification/SessionLog.thy ===== *)
theory SessionLog
  imports SessionRefine
begin

text \<open>
  The event log of the file store under faults: what \<open>ListEvents\<close> reads is determined by the calls that
  were acknowledged, as long as no append is torn; and a torn append, or an event whose line is too long for
  the reader, makes the log unreadable for good.
\<close>

section \<open>The text of a log\<close>

definition log_text :: "('v, 'm) session_root \<Rightarrow> string \<Rightarrow> string option" where
  "log_text root i = map_option (\<lambda>d. case sd_events d of None \<Rightarrow> '''' | Some t \<Rightarrow> t) (map_of root i)"

text \<open>Surroundings in which a write appends all or nothing and directories are removed completely.\<close>

definition untorn :: "'v sf_env \<Rightarrow> bool" where
  "untorn io \<longleftrightarrow> se_removeall io = None \<and> (case se_write io of None \<Rightarrow> True | Some (e, n) \<Rightarrow> n = 0)"

text \<open>What a call does to the logs, as far as its answer tells.\<close>

fun log_step :: "('a \<Rightarrow> 'd event \<Rightarrow> 'a) \<Rightarrow> 'a \<Rightarrow> ('v, 'd) scall \<Rightarrow> ('v, 'd) sanswer \<Rightarrow> (string \<Rightarrow> 'a option) \<Rightarrow> string \<Rightarrow> 'a option" where
  "log_step add none (SCreate s) SDone L = L(ss_ID s := Some none)"
| "log_step add none (SDelete i) SDone L = (if validateID i = None then L(i := None) else L)"
| "log_step add none (SAppend i e) SDone L = L(i := map_option (\<lambda>x. add x e) (L i))"
| "log_step add none c a L = L"

lemma log_text_update [simp]:
  "log_text (AList.update i d root) = (log_text root)(i := Some (case sd_events d of None \<Rightarrow> '''' | Some t \<Rightarrow> t))"
  by (auto simp: log_text_def update_conv')

lemma log_text_delete [simp]: "log_text (AList.delete i root) = (log_text root)(i := None)"
  by (auto simp: log_text_def delete_conv')

lemma log_text_None: "map_of root i = None \<Longrightarrow> (log_text root)(i := None) = log_text root"
  by (auto simp: log_text_def)

lemma log_text_Some: "map_of root i = Some d \<Longrightarrow> log_text root i = Some (case sd_events d of None \<Rightarrow> '''' | Some t \<Rightarrow> t)"
  by (simp add: log_text_def)

lemma write_keeps_events:
  "write_meta io s d = (err, d') \<Longrightarrow> sd_events d' = sd_events d"
  "write_state io2 st d = (err, d') \<Longrightarrow> sd_events d' = sd_events d"
  by (auto simp: write_meta_def write_state_def split: prod.splits)

lemma log_text_same:
  "map_of root i = Some d \<Longrightarrow> sd_events d' = sd_events d \<Longrightarrow> log_text (AList.update i d' root) = log_text root"
  by (auto simp: log_text_def update_conv')

text \<open>Calls other than creations, deletions and appends leave the logs alone.\<close>

lemma touch_log: "touchMetaLocked js io now i root = (err, root') \<Longrightarrow> log_text root' = log_text root"
  by (auto simp: touchMetaLocked_def log_text_same write_keeps_events simp del: log_text_update
      split: sum.splits option.splits prod.splits)

lemma rewrite_log:
  assumes "rewrite_state js io now i st root = (err, root')"
  shows "log_text root' = log_text root"
proof (cases "map_of root i")
  case None
  then show ?thesis using assms by (auto simp: rewrite_state_def)
next
  case (Some d)
  obtain werr d' where w: "write_state io st d = (werr, d')" by (rule prod.exhaust)
  have "log_text (AList.update i d' root) = log_text root" using Some write_keeps_events(2) [OF w] by (rule log_text_same)
  then show ?thesis using assms Some w touch_log by (cases werr) (fastforce simp: rewrite_state_def)+
qed

lemma rewrite_log_snd: "log_text (snd (rewrite_state js io now i st root)) = log_text root"
  by (rule rewrite_log [of js io now i st root "fst (rewrite_state js io now i st root)"]) simp

lemma create_log:
  assumes "se_removeall io = None" and "sf_Create io now (Some s) root = (err, root')"
  shows "log_text root' = (if err = None then (log_text root)(ss_ID s := Some '''') else log_text root)"
proof (cases "se_ctx io = None \<and> validateID (ss_ID s) = None \<and> os_Stat io (ss_ID s) root = Inl ErrSessionNotFound \<and> se_mkdir io = None")
  case False
  then have "err \<noteq> None \<and> root' = root" using assms(2)
    by (auto simp: sf_Create_def Let_def split: option.splits sum.splits if_splits) metis+
  then show ?thesis by auto
next
  case True
  have n: "map_of root (ss_ID s) = None"
    using True by (auto simp: os_Stat_def ErrSessionNotFound_def split: option.splits)
  obtain e1 d1 where w1: "write_meta io (fill_new now s) (empty_dir :: ('a, 'b) session_dir) = (e1, d1)" by (rule prod.exhaust)
  obtain e2 d2 where w2: "write_state io [] (d1\<lparr>sd_events := Some ''''\<rparr>) = (e2, d2)" by (rule prod.exhaust)
  have gone: "log_text (snd (os_RemoveAll io (ss_ID s) (AList.update (ss_ID s) d root))) = log_text root" for d
    using assms(1) log_text_None [OF n] by (simp add: os_RemoveAll_def)
  have e: "sd_events d2 = Some ''''" using write_keeps_events(2) [OF w2] by simp
  show ?thesis
    using assms(2) True w1 w2 gone e by (auto simp: sf_Create_def Let_def split: option.splits)
qed

lemma append_log:
  assumes "sf_AppendEvent js io i e root = (err, root')"
  shows "log_text root' = (case err of
      None \<Rightarrow> (log_text root)(i := map_option (\<lambda>t. t @ line_of js e) (log_text root i))
    | Some x \<Rightarrow> (if se_write io = None \<or> log_text root' = log_text root then log_text root
        else (log_text root)(i := map_option (\<lambda>t. t @ take (snd (the (se_write io))) (line_of js e)) (log_text root i))))"
proof (cases "se_ctx io = None \<and> validateID i = None \<and> se_stat io = None \<and> se_open io = None \<and> map_of root i \<noteq> None \<and> js_marshal js e \<noteq> Inl (projl (js_marshal js e))")
  case False
  then have "err \<noteq> None \<and> root' = root" using assms
    by (auto simp: sf_AppendEvent_def os_Stat_def split: option.splits sum.splits) metis+
  then show ?thesis by auto
next
  case True
  then obtain d t where d: "map_of root i = Some d" and t: "js_marshal js e = Inr t" by (cases "js_marshal js e") auto
  show ?thesis using assms True d t log_text_Some [OF d]
    by (cases "se_write io") (auto simp: sf_AppendEvent_def os_Stat_def line_of_def Let_def)
qed

lemma log_text_step:
  assumes "untorn io" and "sf_call js io now c root = (a, root')"
  shows "log_text root' = log_step (\<lambda>t e. t @ line_of js e) '''' c a (log_text root)"
proof (cases c)
  case (SCreate s)
  obtain err r where r: "sf_Create io now (Some s) root = (err, r)" by (rule prod.exhaust)
  then have w: "sf_Create io now (Some s) root = (err, root')" "a = done_or err"
    using assms(2) SCreate by (simp_all add: wrote_def)
  then show ?thesis using create_log [OF _ w(1)] assms(1) SCreate by (cases err) (auto simp: untorn_def done_or_def)
next
  case (SDelete i)
  then show ?thesis using assms
    by (auto simp: untorn_def sf_Delete_def os_RemoveAll_def answer_simps validateID_invalid split: option.splits)
next
  case (SAppend i e)
  obtain err r where r: "sf_AppendEvent js io i e root = (err, r)" by (rule prod.exhaust)
  then have w: "sf_AppendEvent js io i e root = (err, root')" "a = done_or err"
    using assms(2) SAppend by (simp_all add: wrote_def)
  show ?thesis
  proof (cases err)
    case None
    then show ?thesis using append_log [OF w(1)] w(2) SAppend by (simp add: done_or_def)
  next
    case (Some x)
    then have "log_text root' = log_text root"
      using append_log [OF w(1)] assms(1) by (auto simp: untorn_def option.map_ident split: option.splits if_splits)
    then show ?thesis using Some w(2) SAppend by (simp add: done_or_def)
  qed
qed (use assms(2) in \<open>auto simp: answer_simps sf_Update_def sf_SetState_def sf_DeleteState_def os_Stat_def Let_def
    log_text_same write_keeps_events rewrite_log_snd simp del: log_text_update
    split: option.splits sum.splits prod.splits if_splits\<close>)

section \<open>Acknowledged events\<close>

text \<open>The logs of a whole history, from its calls and answers alone.\<close>

fun logs :: "('a \<Rightarrow> 'd event \<Rightarrow> 'a) \<Rightarrow> 'a \<Rightarrow> ('v, 'd) scall list \<Rightarrow> ('v, 'd) sanswer list \<Rightarrow> (string \<Rightarrow> 'a option) \<Rightarrow> string \<Rightarrow> 'a option" where
  "logs add none (c # cs) (a # as) L = logs add none cs as (log_step add none c a L)"
| "logs add none cs as L = L"

definition acknowledged :: "('v, 'd) scall list \<Rightarrow> ('v, 'd) sanswer list \<Rightarrow> string \<Rightarrow> 'd event list option" where
  "acknowledged cs as = logs (\<lambda>es e. es @ [e]) [] cs as (\<lambda>i. None)"

lemma log_text_run:
  assumes "list_all (\<lambda>c. untorn (fst (fst c))) h" and "run_calls (file_step js) h root = (as, root')"
  shows "log_text root' = logs (\<lambda>t e. t @ line_of js e) '''' (map snd h) as (log_text root)"
  using assms
proof (induction h arbitrary: root as)
  case (Cons c h)
  obtain a r1 where a: "file_step js c root = (a, r1)" by (rule prod.exhaust)
  obtain as2 r2 where r: "run_calls (file_step js) h r1 = (as2, r2)" by (rule prod.exhaust)
  have "log_text r1 = log_step (\<lambda>t e. t @ line_of js e) '''' (snd c) a (log_text root)"
    by (rule log_text_step [OF _ a [unfolded file_step_def]]) (use Cons.prems(1) in simp)
  moreover have "as = a # as2" "r2 = root'" using Cons.prems(2) a r by simp_all
  ultimately show ?case using Cons.IH [of r1 as2] Cons.prems(1) r by simp
qed simp

text \<open>The text of a log is the lines of its events, if the step functions are related so.\<close>

lemma logs_map:
  assumes "\<And>x e. g (add x e) = add' (g x) e" and "g none = none'"
  shows "logs add' none' cs as (\<lambda>i. map_option g (L i)) = (\<lambda>i. map_option g (logs add none cs as L i))"
proof (induction cs arbitrary: as L)
  case (Cons c cs)
  have step: "log_step add' none' c a (\<lambda>i. map_option g (L i)) = (\<lambda>i. map_option g (log_step add none c a L i))" for a
    by (cases c; cases a) (auto simp: assms fun_eq_iff option.map_comp comp_def)
  show ?case by (cases as) (simp_all add: step Cons.IH)
qed simp

lemma logs_all:
  assumes "list_all (\<lambda>c. case c of SAppend i e \<Rightarrow> P e | _ \<Rightarrow> True) cs" and "\<And>i es. L i = Some es \<Longrightarrow> list_all P es"
    and "logs (\<lambda>es e. es @ [e]) [] cs as L i = Some es"
  shows "list_all P es"
  using assms
proof (induction cs arbitrary: as L)
  case (Cons c cs)
  show ?case
  proof (cases as)
    case Nil
    then show ?thesis using Cons.prems(2,3) by simp
  next
    case as: (Cons a as')
    have "list_all P es'" if "log_step (\<lambda>es e. es @ [e]) [] c a L j = Some es'" for j es'
      using that Cons.prems(1,2)
      by (cases c; cases a) (auto split: if_splits)
    then show ?thesis using Cons.IH [of "log_step (\<lambda>es e. es @ [e]) [] c a L" as'] Cons.prems(1,3) as by simp
  qed
qed simp

lemma acknowledged_text:
  assumes "list_all (\<lambda>c. untorn (fst (fst c))) h" and "run_calls (file_step js) h [] = (as, root)"
  shows "log_text root i = map_option (\<lambda>es. concat (map (line_of js) es)) (acknowledged (map snd h) as i)"
proof -
  let ?g = "\<lambda>es. concat (map (line_of js) es)"
  have "log_text [] = (\<lambda>i. map_option ?g None)" by (simp add: log_text_def fun_eq_iff)
  from log_text_run [OF assms, unfolded this]
  have "log_text root = logs (\<lambda>t e. t @ line_of js e) [] (map snd h) as (\<lambda>i. map_option ?g None)" .
  also have "\<dots> = (\<lambda>i. map_option ?g (acknowledged (map snd h) as i))"
    unfolding acknowledged_def by (rule logs_map) simp_all
  finally show "log_text root i = map_option ?g (acknowledged (map snd h) as i)" by simp
qed

text \<open>What a listing reads from a log of good lines.\<close>

lemma list_of_log:
  assumes "json_ok js" and "se_clean io" and "validateID i = None"
    and "log_text root i = map_option (\<lambda>es. concat (map (line_of js) es)) L" and "\<And>es. L = Some es \<Longrightarrow> list_all (fits js) es"
  shows "sf_ListEvents js io i root = (case L of None \<Rightarrow> Inl ErrSessionNotFound | Some es \<Rightarrow> Inr (map toEvent es))"
proof (cases L)
  case None
  then have "map_of root i = None" using assms(4) by (simp add: log_text_def)
  then show ?thesis using None assms(3) by (simp add: sf_ListEvents_def se_clean_simps [OF assms(2)])
next
  case (Some es)
  let ?text = "concat (map (line_of js) es)"
  obtain d where d: "map_of root i = Some d" "(case sd_events d of None \<Rightarrow> '''' | Some t \<Rightarrow> t) = ?text"
    using assms(4) Some by (auto simp: log_text_def)
  have s: "scan_events js None (split_lines [] ?text) = Inr (map toEvent es)"
    by (rule scan_lines_of_events [OF assms(1) assms(5) [OF Some]])
  show ?thesis
  proof (cases "sd_events d")
    case None
    then have "?text = ''''" using d(2) by simp
    then have "map toEvent es = []" using s by (simp only: split_lines.simps scan_events.simps) simp
    then show ?thesis using None Some d(1) assms(3) by (simp add: sf_ListEvents_def se_clean_simps [OF assms(2)])
  next
    case written: (Some t)
    then show ?thesis using Some d s assms(3) by (simp add: sf_ListEvents_def se_clean_simps [OF assms(2)])
  qed
qed


section \<open>Unreadable logs\<close>

text \<open>A line the reader cannot take: too long, or not the text of an event.\<close>

definition bad_line :: "('v, 'd) json \<Rightarrow> string \<Rightarrow> bool" where
  "bad_line js l \<longleftrightarrow> maxLine \<le> int (length l) \<or> (drop_cr l \<noteq> [] \<and> (case js_unmarshal js (drop_cr l) of Inl e \<Rightarrow> True | Inr e \<Rightarrow> False))"

lemma scan_bad: "list_ex (bad_line js) ls \<Longrightarrow> \<exists>err. scan_events js fail ls = Inl err"
  by (induction ls) (auto simp: bad_line_def split: sum.splits)

lemma bad_list:
  assumes "log_text root i = Some t" and "list_ex (bad_line js) (split_lines [] t)"
  shows "\<exists>err. sf_ListEvents js io i root = Inl err"
proof -
  obtain d where d: "map_of root i = Some d" "(case sd_events d of None \<Rightarrow> '''' | Some t \<Rightarrow> t) = t"
    using assms(1) by (auto simp: log_text_def)
  have "sd_events d = Some t" using assms(2) d(2) by (cases "sd_events d") auto
  then show ?thesis using d(1) scan_bad [OF assms(2)]
    by (auto simp: sf_ListEvents_def os_Stat_def split: option.splits)
qed

lemma split_lines_append:
  "split_lines acc (xs @ CHR 0x0A # ys) = split_lines acc (xs @ [CHR 0x0A]) @ split_lines [] ys"
  by (induction acc xs rule: split_lines.induct) auto

definition ends_line :: "string \<Rightarrow> bool" where
  "ends_line t \<longleftrightarrow> t = [] \<or> last t = CHR 0x0A"

lemma split_lines_ends: "ends_line t \<Longrightarrow> split_lines [] (t @ ys) = split_lines [] t @ split_lines [] ys"
  by (cases t rule: rev_cases) (use split_lines_append [of "[]" "butlast t" ys] in \<open>auto simp: ends_line_def\<close>)

text \<open>Histories that do not delete a session only add complete lines to its log.\<close>

definition undeleted :: "string \<Rightarrow> ('v, 'd) scall list \<Rightarrow> bool" where
  "undeleted i cs \<longleftrightarrow> list_all (\<lambda>c. c \<noteq> SDelete i) cs"

lemma create_needs_new: "sf_call js io now (SCreate s) root = (SDone, root') \<Longrightarrow> log_text root (ss_ID s) = None"
  by (auto simp: wrote_def done_or_def sf_Create_def os_Stat_def log_text_def Let_def ErrSessionNotFound_def
      split: option.splits if_splits)

lemma log_grows:
  assumes "list_all (\<lambda>c. untorn (fst (fst c))) h" and "undeleted i (map snd h)"
    and "run_calls (file_step js) h root = (as, root')" and "log_text root i = Some t"
  shows "\<exists>es. log_text root' i = Some (t @ concat (map (line_of js) es)) \<and> (\<forall>e\<in>set es. \<exists>u. js_marshal js e = Inr u)"
  using assms
proof (induction h arbitrary: root as t)
  case (Cons c h)
  obtain a r1 where a: "file_step js c root = (a, r1)" by (rule prod.exhaust)
  obtain as2 r2 where r: "run_calls (file_step js) h r1 = (as2, r2)" by (rule prod.exhaust)
  have r2: "r2 = root'" using Cons.prems(3) a r by simp
  have call: "sf_call js (fst (fst c)) (snd (fst c)) (snd c) root = (a, r1)" using a by (simp add: file_step_def)
  have l: "log_text r1 = log_step (\<lambda>t e. t @ line_of js e) '''' (snd c) a (log_text root)"
    by (rule log_text_step [OF _ call]) (use Cons.prems(1) in simp)
  have "\<exists>es. log_text r1 i = Some (t @ concat (map (line_of js) es)) \<and> (\<forall>e\<in>set es. \<exists>u. js_marshal js e = Inr u)"
  proof (cases "snd c")
    case (SCreate s)
    then have "ss_ID s \<noteq> i \<or> a \<noteq> SDone" using create_needs_new call Cons.prems(4) by fastforce
    then have "log_text r1 i = Some t" using l SCreate Cons.prems(4) by (cases a) auto
    then show ?thesis by (intro exI [of _ "[]"]) simp
  next
    case (SDelete j)
    then have "j \<noteq> i" using Cons.prems(2) by (auto simp: undeleted_def)
    then have "log_text r1 i = Some t" using l SDelete Cons.prems(4) by (cases a) auto
    then show ?thesis by (intro exI [of _ "[]"]) simp
  next
    case (SAppend j e)
    show ?thesis
    proof (cases "j = i \<and> a = SDone")
      case True
      then have "\<exists>u. js_marshal js e = Inr u"
        using call SAppend by (auto simp: wrote_def done_or_def sf_AppendEvent_def split: option.splits sum.splits)
      moreover have "log_text r1 i = Some (t @ line_of js e)" using l SAppend True Cons.prems(4) by simp
      ultimately show ?thesis by (intro exI [of _ "[e]"]) simp
    next
      case False
      then have "log_text r1 i = Some t" using l SAppend Cons.prems(4) by (cases a) auto
      then show ?thesis by (intro exI [of _ "[]"]) simp
    qed
  qed (use l Cons.prems(4) in \<open>cases a; intro exI [of _ "[]"]; simp\<close>)+
  then obtain es where es: "log_text r1 i = Some (t @ concat (map (line_of js) es))" "\<forall>e\<in>set es. \<exists>u. js_marshal js e = Inr u"
    by blast
  have "list_all (\<lambda>c. untorn (fst (fst c))) h" "undeleted i (map snd h)" using Cons.prems(1,2) by (simp_all add: undeleted_def)
  from Cons.IH [OF this r [unfolded r2] es(1)] obtain es2 where
    "log_text root' i = Some ((t @ concat (map (line_of js) es)) @ concat (map (line_of js) es2))"
    "\<forall>e\<in>set es2. \<exists>u. js_marshal js e = Inr u" by blast
  then show ?case using es(2) by (intro exI [of _ "es @ es2"]) auto
qed (auto intro!: exI [of _ "[]"])

lemma lines_end: "ends_line (concat (map (line_of js) es))"
  by (induction es rule: rev_induct) (auto simp: ends_line_def line_of_def split: sum.splits)

text \<open>What the operating system left of a line, when no event completes it to a readable one.\<close>

definition torn_text :: "('v, 'd) json \<Rightarrow> string \<Rightarrow> bool" where
  "torn_text js p \<longleftrightarrow> p \<noteq> [] \<and> CHR 0x0A \<notin> set p \<and> bad_line js p \<and>
     (\<forall>e u. js_marshal js e = Inr u \<longrightarrow> bad_line js (p @ u))"

lemma split_lines_last:
  "CHR 0x0A \<notin> set p \<Longrightarrow> split_lines acc p = (if p = [] \<and> acc = [] then [] else [rev acc @ p])"
  by (induction p arbitrary: acc) auto

lemma torn_lines_bad:
  assumes "json_ok js" and "torn_text js p" and "\<forall>e\<in>set es. \<exists>u. js_marshal js e = Inr u"
  shows "list_ex (bad_line js) (split_lines [] (p @ concat (map (line_of js) es)))"
proof (cases es)
  case Nil
  have "split_lines [] p = [p]" using assms(2) split_lines_last [of p "[]"] by (auto simp: torn_text_def)
  then show ?thesis using assms(2) Nil by (auto simp: torn_text_def)
next
  case (Cons e es')
  obtain u where u: "js_marshal js e = Inr u" using assms(3) Cons by auto
  have n: "CHR 0x0A \<notin> set (p @ u)" using assms(1,2) u by (auto simp: torn_text_def json_ok_def)
  have "p @ concat (map (line_of js) es) = (p @ u) @ CHR 0x0A # concat (map (line_of js) es')"
    using Cons u by (simp add: line_of_def)
  then show ?thesis using split_lines_line [OF n, of "[]"] assms(2) u by (auto simp: torn_text_def)
qed

lemma ruined_log:
  assumes "log_text root1 i = Some (t @ p)" and "ends_line t"
    and "\<And>es. \<forall>e\<in>set es. \<exists>u. js_marshal js e = Inr u \<Longrightarrow> list_ex (bad_line js) (split_lines [] (p @ concat (map (line_of js) es)))"
    and "list_all (\<lambda>c. untorn (fst (fst c))) h" and "undeleted i (map snd h)" and "run_calls (file_step js) h root1 = (as, root2)"
  shows "\<exists>err. sf_ListEvents js io i root2 = Inl err"
proof -
  obtain es where es: "log_text root2 i = Some ((t @ p) @ concat (map (line_of js) es))" "\<forall>e\<in>set es. \<exists>u. js_marshal js e = Inr u"
    using log_grows [OF assms(4,5,6,1)] by blast
  have "list_ex (bad_line js) (split_lines [] (t @ p @ concat (map (line_of js) es)))"
    using assms(3) [OF es(2)] split_lines_ends [OF assms(2)] by simp
  then show ?thesis by (intro bad_list [OF es(1)]) simp
qed


lemma torn_append_text:
  assumes "sf_AppendEvent js io i e root = (Some (Errorf ''session: write event: %w'' [] (Some err)), root1)"
    and "se_ctx io = None" and "se_write io = Some (err', n)" and "js_marshal js e = Inr u"
  shows "\<exists>t. log_text root i = Some t \<and> log_text root1 i = Some (t @ take n (u @ [CHR 0x0A]))"
proof -
  have "validateID i = None"
  proof (cases "validateID i")
    case (Some x)
    then have "x = Errorf ''session: write event: %w'' [] (Some err)" using assms(1,2) by (simp add: sf_AppendEvent_def)
    then show ?thesis using Some by (simp add: validateID_def split: if_splits)
  qed
  moreover obtain d where "os_Stat io i root = Inr d"
  proof (cases "os_Stat io i root")
    case (Inl x)
    then have "x = Errorf ''session: write event: %w'' [] (Some err)"
      using assms(1,2) calculation by (simp add: sf_AppendEvent_def)
    then show ?thesis using Inl by (simp add: os_Stat_def ErrSessionNotFound_def split: option.splits)
  qed
  moreover have "se_open io = None"
    using assms(1,2,4) calculation by (cases "se_open io") (simp_all add: sf_AppendEvent_def)
  ultimately have "map_of root i = Some d"
    "root1 = AList.update i (d\<lparr>sd_events := Some ((case sd_events d of None \<Rightarrow> '''' | Some t \<Rightarrow> t) @ take n (u @ [CHR 0x0A]))\<rparr>) root"
    using assms by (simp_all add: sf_AppendEvent_def Let_def os_Stat_def split: option.splits)
  then show ?thesis by (simp add: log_text_Some)
qed

text \<open>
  One torn append loses the log: when the operating system writes only part of a line, the append
  reports the error, but the part stays in the file; the next append is glued to it, reports success, and
  from then on every listing of the session's events fails, whatever calls follow, until the session is
  deleted, although all other events are intact in the file.
\<close>

theorem torn_append_ruins_log:
  assumes "json_ok js" and "list_all (\<lambda>c. untorn (fst (fst c))) h0" and "run_calls (file_step js) h0 [] = (as0, root0)"
    and "sf_AppendEvent js io i e root0 = (Some (Errorf ''session: write event: %w'' [] (Some err)), root1)"
    and "se_ctx io = None" and "se_write io = Some (err, n)" and "js_marshal js e = Inr u" and "n \<le> length u"
    and "torn_text js (take n u)"
    and "list_all (\<lambda>c. untorn (fst (fst c))) h" and "undeleted i (map snd h)" and "run_calls (file_step js) h root1 = (as, root2)"
  shows "\<exists>x. sf_ListEvents js io2 i root2 = Inl x"
proof -
  obtain t where t: "log_text root0 i = Some t" "log_text root1 i = Some (t @ take n u)"
    using torn_append_text [OF assms(4-7)] assms(8) by auto
  have "ends_line t" using t(1) acknowledged_text [OF assms(2,3)] lines_end by auto
  then show ?thesis
    using ruined_log [OF t(2) _ torn_lines_bad [OF assms(1,9)] assms(10-12)] by blast
qed

text \<open>
  An event too long for the reader loses the log: an append accepts events of any length, but once an
  event of eight MiB or more is in the log, every listing of the session's events fails, whatever calls
  follow, until the session is deleted.
\<close>

theorem oversized_event_ruins_log:
  assumes "json_ok js" and "list_all (\<lambda>c. untorn (fst (fst c))) h0" and "run_calls (file_step js) h0 [] = (as0, root0)"
    and "sf_AppendEvent js io i e root0 = (None, root1)" and "js_marshal js e = Inr u" and "maxLine \<le> int (length u)"
    and "list_all (\<lambda>c. untorn (fst (fst c))) h" and "undeleted i (map snd h)" and "run_calls (file_step js) h root1 = (as, root2)"
  shows "\<exists>x. sf_ListEvents js io2 i root2 = Inl x"
proof -
  have "map_of root0 i \<noteq> None"
    using assms(4) by (auto simp: sf_AppendEvent_def os_Stat_def split: option.splits sum.splits)
  then obtain t where "log_text root0 i = Some t" by (auto simp: log_text_def)
  then have t: "log_text root0 i = Some t" "log_text root1 i = Some (t @ u @ [CHR 0x0A])"
    using append_log [OF assms(4)] assms(5) by (simp_all add: line_of_def)
  have "ends_line t" using t(1) acknowledged_text [OF assms(2,3)] lines_end by auto
  moreover have "list_ex (bad_line js) (split_lines [] ((u @ [CHR 0x0A]) @ concat (map (line_of js) es)))" for es
  proof -
    have "CHR 0x0A \<notin> set u" using assms(1,5) by (auto simp: json_ok_def)
    then show ?thesis using split_lines_line [of u "[]"] assms(6) by (simp add: bad_line_def)
  qed
  ultimately show ?thesis using ruined_log [OF t(2) _ _ assms(7-9)] by blast
qed

section \<open>Concrete histories\<close>

text \<open>The second append fails without a trace, the third one is retried after a failed open.\<close>

definition faulty_history :: "((nat sf_env \<times> int) \<times> (nat, nat) scall) list" where
  "faulty_history =
     [((quiet_io, 5), SCreate (session_named ''b'')), ((quiet_io, 6), SAppend ''b'' (typed ''x'')),
      ((quiet_io\<lparr>se_write := Some (errno ''ENOSPC'', 0)\<rparr>, 7), SAppend ''b'' (typed ''y'')),
      ((quiet_io\<lparr>se_open := Some (errno ''EMFILE'')\<rparr>, 8), SAppend ''b'' (typed ''z'')),
      ((quiet_io, 9), SAppend ''b'' (typed ''z''))]"

definition faulty_root :: "(nat, unit) session_root" where
  "faulty_root = snd (run_calls (file_step sample_json) faulty_history [])"

definition faulty_answers :: "(nat, nat) sanswer list" where
  "faulty_answers = fst (run_calls (file_step sample_json) faulty_history ([] :: (nat, unit) session_root))"

lemma faulty_ok:
  "list_all (\<lambda>c. untorn (fst (fst c))) faulty_history"
  "list_all (\<lambda>c. case snd c of SAppend i e \<Rightarrow> fits sample_json e | _ \<Rightarrow> True) faulty_history"
  "run_calls (file_step sample_json) faulty_history [] = (faulty_answers, faulty_root)"
proof -
  show "list_all (\<lambda>c. untorn (fst (fst c))) faulty_history"
    by (simp add: faulty_history_def untorn_def quiet_io_def)
  show "list_all (\<lambda>c. case snd c of SAppend i e \<Rightarrow> fits sample_json e | _ \<Rightarrow> True) faulty_history" by code_simp
  show "run_calls (file_step sample_json) faulty_history [] = (faulty_answers, faulty_root)"
    by (simp add: faulty_root_def faulty_answers_def)
qed

lemma valid_b: "validateID ''b'' = None"
  by code_simp


text \<open>The line of the second event is cut after two of its four characters.\<close>

definition torn_io :: "nat sf_env" where
  "torn_io = quiet_io\<lparr>se_write := Some (errno ''ENOSPC'', 2)\<rparr>"

definition torn_root :: "(nat, unit) session_root" where
  "torn_root = snd (sf_AppendEvent sample_json torn_io ''b'' (typed ''y'') faulty_root)"

definition later_history :: "((nat sf_env \<times> int) \<times> (nat, nat) scall) list" where
  "later_history = [((quiet_io, 10), SAppend ''b'' (typed ''u'')), ((quiet_io, 11), SAppend ''b'' (typed ''v''))]"

lemma sample_torn: "torn_text sample_json (take 2 ''{y}'')"
proof -
  have "bad_line sample_json (''{y'' @ u)" if "js_marshal sample_json e = Inr u" for e u
  proof -
    note m = that
    obtain w where u: "u = ''{'' @ w @ ''}''" using m by (auto simp: sample_json_def split: if_splits)
    have "drop_cr (''{y'' @ u) = ''{y'' @ u" by (rule drop_cr_id) (simp_all add: u)
    then show ?thesis by (simp add: bad_line_def sample_json_def u butlast_append)
  qed
  moreover have "bad_line sample_json ''{y''" by code_simp
  ultimately show ?thesis by (simp add: torn_text_def numeral_2_eq_2)
qed

lemma later_ok:
  "list_all (\<lambda>c. untorn (fst (fst c))) later_history" "undeleted ''b'' (map snd later_history)"
  by (simp_all add: later_history_def untorn_def quiet_io_def undeleted_def)

theorem torn_append_ruins_log_witness:
  "\<exists>x. sf_ListEvents sample_json quiet_io ''b'' (snd (run_calls (file_step sample_json) later_history torn_root)) = Inl x"
proof -
  have "fst (sf_AppendEvent sample_json torn_io ''b'' (typed ''y'') faulty_root) =
      Some (Errorf ''session: write event: %w'' [] (Some (errno ''ENOSPC'')))" by code_simp
  then have a: "sf_AppendEvent sample_json torn_io ''b'' (typed ''y'') faulty_root =
      (Some (Errorf ''session: write event: %w'' [] (Some (errno ''ENOSPC''))), torn_root)"
    by (simp add: torn_root_def prod_eq_iff)
  have io: "se_ctx torn_io = None" "se_write torn_io = Some (errno ''ENOSPC'', 2)"
    by (simp_all add: torn_io_def quiet_io_def)
  have u: "js_marshal sample_json (typed ''y'') = Inr ''{y}''" by code_simp
  show ?thesis
    by (rule torn_append_ruins_log [OF sample_json_ok faulty_ok(1,3) a io u _ sample_torn later_ok surjective_pairing])
      simp
qed

text \<open>An event of more than eight MiB.\<close>

definition huge_event :: "nat event" where
  "huge_event = typed (replicate (8 * 1024 * 1024) CHR ''x'')"

theorem oversized_event_ruins_log_witness:
  "fst (sf_AppendEvent sample_json quiet_io ''b'' huge_event faulty_root) = None \<and>
   (\<exists>x. sf_ListEvents sample_json quiet_io ''b'' (snd (run_calls (file_step sample_json) later_history
      (snd (sf_AppendEvent sample_json quiet_io ''b'' huge_event faulty_root)))) = Inl x)"
proof -
  let ?t = "replicate (8 * 1024 * 1024) CHR ''x''"
  have u: "js_marshal sample_json huge_event = Inr (''{'' @ ?t @ ''}'')"
    by (simp add: sample_json_def huge_event_def typed_def toEvent_def list_all_iff)
  have "\<not> Option.is_none (map_of faulty_root ''b'')" by code_simp
  then obtain d where "map_of faulty_root ''b'' = Some d" by (auto simp: Option.is_none_def)
  then have a: "fst (sf_AppendEvent sample_json quiet_io ''b'' huge_event faulty_root) = None"
    using valid_b u quiet_io_clean
    by (simp add: sf_AppendEvent_def se_clean_simps [OF quiet_io_clean] Let_def) (simp add: se_clean_def)
  then have "sf_AppendEvent sample_json quiet_io ''b'' huge_event faulty_root =
      (None, snd (sf_AppendEvent sample_json quiet_io ''b'' huge_event faulty_root))" by (simp add: prod_eq_iff)
  from oversized_event_ruins_log [OF sample_json_ok faulty_ok(1,3) this u _ later_ok surjective_pairing] a
  show ?thesis by (simp add: maxLine_def)
qed

end
