(* ===== verification/SessionMetrics.thy ===== *)
theory SessionMetrics
  imports SessionLog "HOL-Library.Word"
begin

text \<open>
  Metrics of a session (\<open>session/metrics*.go\<close>): the update all stores share, the in-memory store, the file
  store, which keeps its file in the directory of the session, and the hook that turns events into counters.
  Counters have the 64 bits of Go's \<open>int\<close> and wrap around. Costs are floating-point numbers of which only
  the operations the code uses are known. The model's types of event and the price list are arguments.
\<close>

section \<open>Records\<close>

record 'f metrics =
  mt_SessionID :: string
  mt_PromptTokens :: "64 word"
  mt_CompletionTokens :: "64 word"
  mt_TotalTokens :: "64 word"
  mt_CostUSD :: 'f
  mt_ActiveSeconds :: "64 word"
  mt_ResumeCount :: "64 word"
  mt_CheckpointSaveFailures :: "64 word"
  mt_ContextEdits :: "64 word"
  mt_ElidedArtifacts :: "64 word"
  mt_FirstSeen :: int
  mt_LastUpdated :: int

record 'f float_ops =
  fl_zero :: 'f
  fl_of :: "64 word \<Rightarrow> 'f"
  fl_add :: "'f \<Rightarrow> 'f \<Rightarrow> 'f"
  fl_mul :: "'f \<Rightarrow> 'f \<Rightarrow> 'f"
  fl_div :: "'f \<Rightarrow> 'f \<Rightarrow> 'f"

definition ErrMetricsNotFound :: go_error where
  "ErrMetricsNotFound = ErrNew ''session: metrics not found''"

definition no_metrics :: "'f \<Rightarrow> string \<Rightarrow> int \<Rightarrow> 'f metrics" where
  "no_metrics zero i now = \<lparr>mt_SessionID = i, mt_PromptTokens = 0, mt_CompletionTokens = 0, mt_TotalTokens = 0,
     mt_CostUSD = zero, mt_ActiveSeconds = 0, mt_ResumeCount = 0, mt_CheckpointSaveFailures = 0,
     mt_ContextEdits = 0, mt_ElidedArtifacts = 0, mt_FirstSeen = now, mt_LastUpdated = 0\<rparr>"

definition applyUpdate :: "'f \<Rightarrow> string \<Rightarrow> 'f metrics option \<Rightarrow> ('f metrics \<Rightarrow> 'f metrics) option \<Rightarrow> int \<Rightarrow> 'f metrics" where
  "applyUpdate zero i current fn now =
     (let m0 = (case current of None \<Rightarrow> no_metrics zero i now | Some m \<Rightarrow> m);
          m1 = (case fn of None \<Rightarrow> m0 | Some f \<Rightarrow> f m0);
          m2 = m1\<lparr>mt_SessionID := i, mt_LastUpdated := now\<rparr>;
          m3 = (if mt_FirstSeen m2 = 0 then m2\<lparr>mt_FirstSeen := now\<rparr> else m2) in
      m3\<lparr>mt_TotalTokens := mt_PromptTokens m3 + mt_CompletionTokens m3\<rparr>)"

section \<open>The in-memory store\<close>

type_synonym 'f map_metrics = "(string \<times> 'f metrics) list"

definition mm_Get :: "go_error option \<Rightarrow> string \<Rightarrow> 'f map_metrics \<Rightarrow> go_error + 'f metrics" where
  "mm_Get ctx i s =
     (case ctx of Some e \<Rightarrow> Inl e
      | None \<Rightarrow>
     (case validateID i of Some e \<Rightarrow> Inl e
      | None \<Rightarrow>
     (case map_of s i of None \<Rightarrow> Inl (Errorf ''%w: session_id=%q'' [AStr i] (Some ErrMetricsNotFound)) | Some m \<Rightarrow> Inr m)))"

definition mm_Update :: "'f \<Rightarrow> go_error option \<Rightarrow> int \<Rightarrow> string \<Rightarrow> ('f metrics \<Rightarrow> 'f metrics) option \<Rightarrow> 'f map_metrics
      \<Rightarrow> go_error option \<times> 'f map_metrics" where
  "mm_Update zero ctx now i fn s =
     (case ctx of Some e \<Rightarrow> (Some e, s)
      | None \<Rightarrow>
     (case validateID i of Some e \<Rightarrow> (Some e, s)
      | None \<Rightarrow> (None, AList.update i (applyUpdate zero i (map_of s i) fn now) s)))"

definition mm_Delete :: "go_error option \<Rightarrow> string \<Rightarrow> 'f map_metrics \<Rightarrow> go_error option \<times> 'f map_metrics" where
  "mm_Delete ctx i s =
     (case ctx of Some e \<Rightarrow> (Some e, s)
      | None \<Rightarrow> (case validateID i of Some e \<Rightarrow> (Some e, s) | None \<Rightarrow> (None, AList.delete i s)))"

section \<open>The file store\<close>

definition metricsFilename :: string where "metricsFilename = ''metrics.json''"

record 'f mf_env =
  me_ctx :: "go_error option"
  me_open :: "string option"
  me_decode :: go_error
  me_mkdir :: "go_error option"
  me_write :: "'f metrics write_env"
  me_remove :: "string option"

definition loadMetricsFile :: "'f mf_env \<Rightarrow> string \<Rightarrow> ('v, 'f metrics) session_root \<Rightarrow> go_error + 'f metrics option" where
  "loadMetricsFile io i root =
     (case me_open io of Some n \<Rightarrow> Inl (Errorf ''session: open metrics %q: %w'' [AStr i] (Some (errno n)))
      | None \<Rightarrow>
     (case map_of root i of None \<Rightarrow> Inr None
      | Some d \<Rightarrow>
     (case map_of (sd_metrics d) metricsFilename of None \<Rightarrow> Inr None
      | Some c \<Rightarrow>
     (case c of Junk v \<Rightarrow> Inl (Errorf ''session: decode metrics %q: %w'' [AStr i] (Some (me_decode io)))
      | Json m \<Rightarrow> Inr (Some m)))))"

definition mf_Get :: "'f mf_env \<Rightarrow> string \<Rightarrow> ('v, 'f metrics) session_root \<Rightarrow> go_error + 'f metrics" where
  "mf_Get io i root =
     (case me_ctx io of Some e \<Rightarrow> Inl e
      | None \<Rightarrow>
     (case validateID i of Some e \<Rightarrow> Inl e
      | None \<Rightarrow>
     (case loadMetricsFile io i root of Inl e \<Rightarrow> Inl e
      | Inr None \<Rightarrow> Inl (Errorf ''%w: session_id=%q'' [AStr i] (Some ErrMetricsNotFound))
      | Inr (Some m) \<Rightarrow> Inr m)))"

text \<open>\<open>os.MkdirAll\<close> makes the directory of the session when it is missing.\<close>

definition session_mkdir :: "string \<Rightarrow> ('v, 'm) session_root \<Rightarrow> ('v, 'm) session_root" where
  "session_mkdir i root = (case map_of root i of None \<Rightarrow> AList.update i empty_dir root | Some d \<Rightarrow> root)"

definition mf_Update :: "'f \<Rightarrow> 'f mf_env \<Rightarrow> int \<Rightarrow> string \<Rightarrow> ('f metrics \<Rightarrow> 'f metrics) option \<Rightarrow> ('v, 'f metrics) session_root
      \<Rightarrow> go_error option \<times> ('v, 'f metrics) session_root" where
  "mf_Update zero io now i fn root =
     (case me_ctx io of Some e \<Rightarrow> (Some e, root)
      | None \<Rightarrow>
     (case validateID i of Some e \<Rightarrow> (Some e, root)
      | None \<Rightarrow>
     (case me_mkdir io of Some e \<Rightarrow> (Some (Errorf ''session: mkdir %q: %w'' [AStr i] (Some e)), root)
      | None \<Rightarrow>
     (let root1 = session_mkdir i root in
      case loadMetricsFile io i root1 of Inl e \<Rightarrow> (Some e, root1)
      | Inr current \<Rightarrow>
     (let d = (case map_of root1 i of None \<Rightarrow> empty_dir | Some d \<Rightarrow> d) in
      case write_file (me_write io) metricsFilename (applyUpdate zero i current fn now) (sd_metrics d) of (err, f) \<Rightarrow>
        (case err of None \<Rightarrow> None | Some e \<Rightarrow> Some (Errorf ''session: write metrics %q: %w'' [AStr i] (Some e)),
         AList.update i (d\<lparr>sd_metrics := f\<rparr>) root1))))))"

definition mf_Delete :: "'f mf_env \<Rightarrow> string \<Rightarrow> ('v, 'f metrics) session_root \<Rightarrow> go_error option \<times> ('v, 'f metrics) session_root" where
  "mf_Delete io i root =
     (case me_ctx io of Some e \<Rightarrow> (Some e, root)
      | None \<Rightarrow>
     (case validateID i of Some e \<Rightarrow> (Some e, root)
      | None \<Rightarrow>
     (case me_remove io of Some n \<Rightarrow> (Some (Errorf ''session: remove metrics: %w'' [] (Some (errno n))), root)
      | None \<Rightarrow>
     (case map_of root i of None \<Rightarrow> (None, root)
      | Some d \<Rightarrow> (None, AList.update i (d\<lparr>sd_metrics := AList.delete metricsFilename (sd_metrics d)\<rparr>) root)))))"

section \<open>The hook\<close>

datatype payload = LLMCallEndData string "64 word" "64 word" | AgentEndData "64 word" | ContextEditedData string

record event_types =
  EventLLMCallEnd :: string
  EventAgentEnd :: string
  EventContextEdited :: string

type_synonym 'f pricing = "string \<Rightarrow> ('f \<times> 'f) option"

definition ContextEditStrategyElideArtifact :: string where
  "ContextEditStrategyElideArtifact = ''elide_to_artifact''"

definition computeCost :: "'f float_ops \<Rightarrow> string \<Rightarrow> 64 word \<Rightarrow> 64 word \<Rightarrow> 'f pricing option \<Rightarrow> 'f" where
  "computeCost fl model p c pricing =
     (case pricing of None \<Rightarrow> fl_zero fl
      | Some price \<Rightarrow>
     (if model = '''' then fl_zero fl
      else case price model of None \<Rightarrow> fl_zero fl
      | Some (pp, cp) \<Rightarrow>
          fl_add fl (fl_div fl (fl_mul fl (fl_of fl p) pp) (fl_of fl 1000))
            (fl_div fl (fl_mul fl (fl_of fl c) cp) (fl_of fl 1000))))"

definition handleLLMCallEnd :: "'f float_ops \<Rightarrow> 'f pricing option \<Rightarrow> payload event \<Rightarrow> ('f metrics \<Rightarrow> 'f metrics) option" where
  "handleLLMCallEnd fl pricing e =
     (case ev_Data e of
        Some (LLMCallEndData model p c) \<Rightarrow>
          Some (\<lambda>m. m\<lparr>mt_PromptTokens := mt_PromptTokens m + p, mt_CompletionTokens := mt_CompletionTokens m + c,
             mt_CostUSD := fl_add fl (mt_CostUSD m) (computeCost fl model p c pricing)\<rparr>)
      | _ \<Rightarrow> None)"

definition handleAgentEnd :: "payload event \<Rightarrow> ('f metrics \<Rightarrow> 'f metrics) option" where
  "handleAgentEnd e =
     (case ev_Data e of
        Some (AgentEndData d) \<Rightarrow> (if sint d \<le> 0 then None
          else Some (\<lambda>m. m\<lparr>mt_ActiveSeconds := mt_ActiveSeconds m + word_of_int (sint d div 1000)\<rparr>))
      | _ \<Rightarrow> None)"

definition handleContextEdited :: "payload event \<Rightarrow> ('f metrics \<Rightarrow> 'f metrics) option" where
  "handleContextEdited e =
     (case ev_Data e of
        Some (ContextEditedData strategy) \<Rightarrow>
          Some (\<lambda>m. let m' = m\<lparr>mt_ContextEdits := mt_ContextEdits m + 1\<rparr> in
             if strategy = ContextEditStrategyElideArtifact
             then m'\<lparr>mt_ElidedArtifacts := mt_ElidedArtifacts m' + 1\<rparr> else m')
      | _ \<Rightarrow> None)"

text \<open>The update an event asks for, if any; its error is only logged.\<close>

definition event_update :: "event_types \<Rightarrow> 'f float_ops \<Rightarrow> 'f pricing option \<Rightarrow> payload event \<Rightarrow> ('f metrics \<Rightarrow> 'f metrics) option" where
  "event_update ty fl pricing e =
     (if ev_Type e = EventLLMCallEnd ty then handleLLMCallEnd fl pricing e
      else if ev_Type e = EventAgentEnd ty then handleAgentEnd e
      else if ev_Type e = EventContextEdited ty then handleContextEdited e
      else None)"

definition OnEvent :: "event_types \<Rightarrow> 'f float_ops \<Rightarrow> 'f pricing option
      \<Rightarrow> (string \<Rightarrow> ('f metrics \<Rightarrow> 'f metrics) option \<Rightarrow> 's \<Rightarrow> go_error option \<times> 's) \<Rightarrow> payload event \<Rightarrow> 's \<Rightarrow> 's" where
  "OnEvent ty fl pricing update e s =
     (if ev_SessionID e = '''' then s
      else case event_update ty fl pricing e of None \<Rightarrow> s | Some f \<Rightarrow> snd (update (ev_SessionID e) (Some f) s))"

definition RecordResume :: "(string \<Rightarrow> ('f metrics \<Rightarrow> 'f metrics) option \<Rightarrow> 's \<Rightarrow> go_error option \<times> 's) \<Rightarrow> string \<Rightarrow> 's \<Rightarrow> go_error option \<times> 's" where
  "RecordResume update i s = update i (Some (\<lambda>m. m\<lparr>mt_ResumeCount := mt_ResumeCount m + 1\<rparr>)) s"

definition RecordCheckpointFailure :: "(string \<Rightarrow> ('f metrics \<Rightarrow> 'f metrics) option \<Rightarrow> 's \<Rightarrow> go_error option \<times> 's) \<Rightarrow> string \<Rightarrow> 's \<Rightarrow> go_error option \<times> 's" where
  "RecordCheckpointFailure update i s =
     update i (Some (\<lambda>m. m\<lparr>mt_CheckpointSaveFailures := mt_CheckpointSaveFailures m + 1\<rparr>)) s"

text \<open>
  The hook on a list of events, each with the surroundings and the time of its update; the flags tell which
  updates the store accepted.
\<close>

definition hook_accepts :: "event_types \<Rightarrow> 'f float_ops \<Rightarrow> 'f pricing option \<Rightarrow> ('e \<Rightarrow> int \<Rightarrow> string \<Rightarrow> ('f metrics \<Rightarrow> 'f metrics) option \<Rightarrow> 's \<Rightarrow> go_error option \<times> 's)
      \<Rightarrow> 'e \<Rightarrow> int \<Rightarrow> payload event \<Rightarrow> 's \<Rightarrow> bool" where
  "hook_accepts ty fl pricing update env now e s \<longleftrightarrow> ev_SessionID e \<noteq> [] \<and>
     (case event_update ty fl pricing e of None \<Rightarrow> False | Some f \<Rightarrow> fst (update env now (ev_SessionID e) (Some f) s) = None)"

fun hook_run :: "event_types \<Rightarrow> 'f float_ops \<Rightarrow> 'f pricing option \<Rightarrow> ('e \<Rightarrow> int \<Rightarrow> string \<Rightarrow> ('f metrics \<Rightarrow> 'f metrics) option \<Rightarrow> 's \<Rightarrow> go_error option \<times> 's)
      \<Rightarrow> ('e \<times> int \<times> payload event) list \<Rightarrow> 's \<Rightarrow> bool list \<times> 's" where
  "hook_run ty fl pricing update [] s = ([], s)"
| "hook_run ty fl pricing update ((env, now, e) # es) s =
     (case hook_run ty fl pricing update es (OnEvent ty fl pricing (update env now) e s) of
        (oks, s') \<Rightarrow> (hook_accepts ty fl pricing update env now e s # oks, s'))"

section \<open>The contract of a metrics store\<close>

locale metrics_store =
  fixes update :: "'e \<Rightarrow> int \<Rightarrow> string \<Rightarrow> ('f metrics \<Rightarrow> 'f metrics) option \<Rightarrow> 's \<Rightarrow> go_error option \<times> 's"
    and lookup :: "'s \<Rightarrow> string \<Rightarrow> 'f metrics option"
    and zero :: 'f
  assumes update: "update env now i fn s = (err, s') \<Longrightarrow>
      lookup s' = (if err = None then (lookup s)(i := Some (applyUpdate zero i (lookup s i) fn now)) else lookup s)"
begin

definition measure_of :: "('f metrics \<Rightarrow> 'n) \<Rightarrow> 's \<Rightarrow> string \<Rightarrow> 'n :: comm_monoid_add" where
  "measure_of q s i = (case lookup s i of None \<Rightarrow> 0 | Some m \<Rightarrow> q m)"

text \<open>A quantity that every update changes by an amount known from the event is the sum over the accepted ones.\<close>

lemma OnEvent_measure:
  assumes "\<And>m f now. q (applyUpdate zero i (Some m) (Some f) now) = q (f m)" and "\<And>now. q (no_metrics zero i now) = 0"
    and "\<And>f now. q (applyUpdate zero i None (Some f) now) = q (f (no_metrics zero i now))"
    and "\<And>f m. event_update ty fl pricing e = Some f \<Longrightarrow> q (f m) = q m + amount e"
  shows "measure_of q (OnEvent ty fl pricing (update env now) e s) i =
     measure_of q s i + (if ev_SessionID e = i \<and> hook_accepts ty fl pricing update env now e s then amount e else 0)"
proof (cases "ev_SessionID e = [] \<or> event_update ty fl pricing e = None")
  case True
  then show ?thesis by (auto simp: OnEvent_def hook_accepts_def)
next
  case False
  then obtain f where f: "event_update ty fl pricing e = Some f" by auto
  obtain err s1 where u: "update env now (ev_SessionID e) (Some f) s = (err, s1)" by (rule prod.exhaust)
  have on: "OnEvent ty fl pricing (update env now) e s = s1" using False f u by (simp add: OnEvent_def)
  have ok: "hook_accepts ty fl pricing update env now e s \<longleftrightarrow> err = None" using False f u by (simp add: hook_accepts_def)
  show ?thesis
  proof (cases "err = None \<and> ev_SessionID e = i")
    case True
    then have "lookup s1 i = Some (applyUpdate zero i (lookup s i) (Some f) now)" using update [OF u] by simp
    then show ?thesis using True on ok assms(1-3) assms(4) [OF f] by (simp add: measure_of_def split: option.splits)
  next
    case no: False
    then have "lookup s1 i = lookup s i" using update [OF u] by (auto split: if_splits)
    then show ?thesis using no on ok by (auto simp: measure_of_def)
  qed
qed

lemma hook_measure:
  assumes "\<And>m f now. q (applyUpdate zero i (Some m) (Some f) now) = q (f m)" and "\<And>now. q (no_metrics zero i now) = 0"
    and "\<And>f now. q (applyUpdate zero i None (Some f) now) = q (f (no_metrics zero i now))"
    and "\<And>e f m. event_update ty fl pricing e = Some f \<Longrightarrow> q (f m) = q m + amount e"
    and "hook_run ty fl pricing update es s = (oks, s')"
  shows "measure_of q s' i = measure_of q s i +
     sum_list (map2 (\<lambda>(env, now, e) ok. if ev_SessionID e = i \<and> ok then amount e else 0) es oks)"
  using assms(5)
proof (induction es arbitrary: s oks)
  case (Cons x es)
  obtain env now e where x: "x = (env, now, e)" by (rule prod_cases3)
  obtain oks2 s2 where r: "hook_run ty fl pricing update es (OnEvent ty fl pricing (update env now) e s) = (oks2, s2)"
    by (rule prod.exhaust)
  then have eqs: "oks = hook_accepts ty fl pricing update env now e s # oks2" "s' = s2" using Cons.prems x by simp_all
  have "measure_of q (OnEvent ty fl pricing (update env now) e s) i =
      measure_of q s i + (if ev_SessionID e = i \<and> hook_accepts ty fl pricing update env now e s then amount e else 0)"
    by (rule OnEvent_measure) (rule assms(1-4); assumption)+
  then show ?case using Cons.IH [OF r [folded eqs(2)]] by (simp add: x eqs(1) add.assoc)
qed simp

end

lemma mm_update:
  "mm_Update zero ctx now i fn s = (err, s') \<Longrightarrow>
   map_of s' = (if err = None then (map_of s)(i := Some (applyUpdate zero i (map_of s i) fn now)) else map_of s)"
  by (auto simp: mm_Update_def update_conv' split: option.splits)

interpretation mm: metrics_store "mm_Update zero" map_of zero
  by unfold_locales (rule mm_update)

definition metrics_of :: "('v, 'f metrics) session_root \<Rightarrow> string \<Rightarrow> 'f metrics option" where
  "metrics_of root i =
     (case map_of root i of None \<Rightarrow> None
      | Some d \<Rightarrow> (case map_of (sd_metrics d) metricsFilename of Some (Json m) \<Rightarrow> Some m | _ \<Rightarrow> None))"

lemma metrics_of_update:
  "metrics_of (AList.update i d root) =
     (metrics_of root)(i := (case map_of (sd_metrics d) metricsFilename of Some (Json m) \<Rightarrow> Some m | _ \<Rightarrow> None))"
  by (auto simp: metrics_of_def update_conv' fun_eq_iff)

lemma metrics_of_mkdir [simp]: "metrics_of (session_mkdir i root) = metrics_of root"
  by (cases "map_of root i") (auto simp: session_mkdir_def metrics_of_update empty_dir_def metrics_of_def fun_eq_iff)

lemma mf_update:
  assumes "mf_Update zero io now i fn root = (err, root')"
  shows "metrics_of root' =
     (if err = None then (metrics_of root)(i := Some (applyUpdate zero i (metrics_of root i) fn now)) else metrics_of root)"
proof (cases "me_ctx io = None \<and> validateID i = None \<and> me_mkdir io = None")
  case False
  then have "err \<noteq> None \<and> root' = root" using assms by (auto simp: mf_Update_def split: option.splits) metis+
  then show ?thesis by auto
next
  case True
  let ?root = "session_mkdir i root"
  obtain d where d: "map_of ?root i = Some d" by (cases "map_of root i") (auto simp: session_mkdir_def update_conv')
  have old: "metrics_of root i = (case map_of (sd_metrics d) metricsFilename of Some (Json m) \<Rightarrow> Some m | _ \<Rightarrow> None)"
    using d by (cases "map_of root i") (auto simp: session_mkdir_def metrics_of_def empty_dir_def update_conv')
  show ?thesis
  proof (cases "loadMetricsFile io i ?root")
    case (Inl e)
    then have "err = Some e" "root' = ?root" using assms True by (simp_all add: mf_Update_def Let_def)
    then show ?thesis by simp
  next
    case (Inr current)
    have cur: "current = metrics_of root i"
      using Inr d old by (auto simp: loadMetricsFile_def split: option.splits content.splits)
    obtain werr f where w: "write_file (me_write io) metricsFilename (applyUpdate zero i current fn now) (sd_metrics d) = (werr, f)"
      by (rule prod.exhaust)
    have f: "map_of f metricsFilename =
        (if werr = None then Some (Json (applyUpdate zero i current fn now)) else map_of (sd_metrics d) metricsFilename)"
      using write_file_lookup [OF w, of metricsFilename] by (simp add: metricsFilename_def)
    have "root' = AList.update i (d\<lparr>sd_metrics := f\<rparr>) ?root" "err = None \<longleftrightarrow> werr = None"
      using assms True Inr d w by (auto simp: mf_Update_def Let_def split: option.splits)
    then show ?thesis using f cur old by (auto simp: metrics_of_update)
  qed
qed

interpretation mf: metrics_store "mf_Update zero" metrics_of zero
  by unfold_locales (rule mf_update)

section \<open>What the counters count\<close>

definition tokens_of :: "event_types \<Rightarrow> payload event \<Rightarrow> 64 word \<times> 64 word" where
  "tokens_of ty e =
     (if ev_Type e \<noteq> EventLLMCallEnd ty then (0, 0)
      else case ev_Data e of Some (LLMCallEndData model p c) \<Rightarrow> (p, c) | _ \<Rightarrow> (0, 0))"

definition seconds_of :: "event_types \<Rightarrow> payload event \<Rightarrow> 64 word" where
  "seconds_of ty e =
     (if ev_Type e \<noteq> EventAgentEnd ty then 0
      else case ev_Data e of Some (AgentEndData d) \<Rightarrow> (if sint d \<le> 0 then 0 else word_of_int (sint d div 1000)) | _ \<Rightarrow> 0)"

definition edits_of :: "event_types \<Rightarrow> payload event \<Rightarrow> 64 word \<times> 64 word" where
  "edits_of ty e =
     (if ev_Type e \<noteq> EventContextEdited ty then (0, 0)
      else case ev_Data e of
        Some (ContextEditedData st) \<Rightarrow> (1, if st = ContextEditStrategyElideArtifact then 1 else 0) | _ \<Rightarrow> (0, 0))"

definition distinct_types :: "event_types \<Rightarrow> bool" where
  "distinct_types ty \<longleftrightarrow> distinct [EventLLMCallEnd ty, EventAgentEnd ty, EventContextEdited ty]"

lemmas event_amounts = event_update_def handleLLMCallEnd_def handleAgentEnd_def handleContextEdited_def
  tokens_of_def seconds_of_def edits_of_def

lemma event_update_amounts:
  assumes "distinct_types ty" and "event_update ty fl pricing e = Some f"
  shows "mt_PromptTokens (f m) = mt_PromptTokens m + fst (tokens_of ty e)"
    and "mt_CompletionTokens (f m) = mt_CompletionTokens m + snd (tokens_of ty e)"
    and "mt_ActiveSeconds (f m) = mt_ActiveSeconds m + seconds_of ty e"
    and "mt_ContextEdits (f m) = mt_ContextEdits m + fst (edits_of ty e)"
    and "mt_ElidedArtifacts (f m) = mt_ElidedArtifacts m + snd (edits_of ty e)"
  using assms by (auto simp: event_amounts distinct_types_def Let_def split: if_splits option.splits payload.splits)

text \<open>The counters that \<open>applyUpdate\<close> leaves to the update.\<close>

lemma applyUpdate_counters [simp]:
  "mt_PromptTokens (applyUpdate z i (Some m) (Some f) now) = mt_PromptTokens (f m)"
  "mt_CompletionTokens (applyUpdate z i (Some m) (Some f) now) = mt_CompletionTokens (f m)"
  "mt_ActiveSeconds (applyUpdate z i (Some m) (Some f) now) = mt_ActiveSeconds (f m)"
  "mt_ContextEdits (applyUpdate z i (Some m) (Some f) now) = mt_ContextEdits (f m)"
  "mt_ElidedArtifacts (applyUpdate z i (Some m) (Some f) now) = mt_ElidedArtifacts (f m)"
  "applyUpdate z i None (Some f) now = applyUpdate z i (Some (no_metrics z i now)) (Some f) now"
  by (simp_all add: applyUpdate_def Let_def)

lemma no_metrics_counters [simp]:
  "mt_PromptTokens (no_metrics z i now) = 0" "mt_CompletionTokens (no_metrics z i now) = 0"
  "mt_ActiveSeconds (no_metrics z i now) = 0" "mt_ContextEdits (no_metrics z i now) = 0"
  "mt_ElidedArtifacts (no_metrics z i now) = 0"
  by (simp_all add: no_metrics_def)

text \<open>The total over the events of a session whose update was accepted.\<close>

definition total_of :: "(payload event \<Rightarrow> 64 word) \<Rightarrow> string \<Rightarrow> ('e \<times> int \<times> payload event) list \<Rightarrow> bool list \<Rightarrow> 64 word" where
  "total_of amount i es oks = sum_list (map2 (\<lambda>(env, now, e) ok. if ev_SessionID e = i \<and> ok then amount e else 0) es oks)"

text \<open>Records that the stores hold are consistent.\<close>

definition metrics_ok :: "string \<Rightarrow> 'f metrics \<Rightarrow> bool" where
  "metrics_ok i m \<longleftrightarrow> mt_SessionID m = i \<and> mt_TotalTokens m = mt_PromptTokens m + mt_CompletionTokens m"

lemma applyUpdate_ok: "metrics_ok i (applyUpdate z i c fn now)"
  by (simp add: metrics_ok_def applyUpdate_def Let_def split: option.splits)

lemma hook_run_ok:
  assumes "hook_run ty fl pricing (mf_Update z) es root = (oks, root')"
    and "\<And>m. metrics_of root i = Some m \<Longrightarrow> metrics_ok i m" and "metrics_of root' i = Some m"
  shows "metrics_ok i m"
  using assms
proof (induction es arbitrary: root oks)
  case (Cons x es)
  obtain env now e where x: "x = (env, now, e)" by (rule prod_cases3)
  let ?r1 = "OnEvent ty fl pricing (mf_Update z env now) e root"
  obtain oks2 r2 where r: "hook_run ty fl pricing (mf_Update z) es ?r1 = (oks2, r2)" by (rule prod.exhaust)
  have r2: "r2 = root'" using Cons.prems(1) x r by simp
  have "metrics_ok i m1" if "metrics_of ?r1 i = Some m1" for m1
  proof (cases "ev_SessionID e = [] \<or> event_update ty fl pricing e = None")
    case True
    then have "?r1 = root" by (auto simp: OnEvent_def)
    then show ?thesis using that Cons.prems(2) by simp
  next
    case False
    then obtain f where f: "event_update ty fl pricing e = Some f" by auto
    obtain err s1 where u: "mf_Update z env now (ev_SessionID e) (Some f) root = (err, s1)" by (rule prod.exhaust)
    then have "?r1 = s1" using False f by (simp add: OnEvent_def)
    then show ?thesis using that Cons.prems(2) mf_update [OF u] applyUpdate_ok by (auto split: if_splits)
  qed
  then show ?case using Cons.IH [OF r [unfolded r2]] Cons.prems(3) by blast
qed simp

lemma mf_measure_empty [simp]: "mf.measure_of q [] i = 0"
  by (simp add: mf.measure_of_def metrics_of_def)

text \<open>
  The metrics of a session are the sums over its events: after any sequence of events, under any faults
  of the file system, the counters in the file are the totals of the events whose update the store accepted
  (tokens, whole seconds of each run, context edits and elided artifacts, modulo 2^64), the record names its
  session and its total is the sum of both token counters; a failed update changes nothing.
\<close>

theorem hook_counters_exact:
  assumes "distinct_types ty" and "hook_run ty fl pricing (mf_Update (fl_zero fl)) es [] = (oks, root)"
  shows "case metrics_of root i of
      None \<Rightarrow> total_of (\<lambda>e. fst (tokens_of ty e)) i es oks = 0 \<and> total_of (seconds_of ty) i es oks = 0
    | Some m \<Rightarrow> metrics_ok i m \<and>
        mt_PromptTokens m = total_of (\<lambda>e. fst (tokens_of ty e)) i es oks \<and>
        mt_CompletionTokens m = total_of (\<lambda>e. snd (tokens_of ty e)) i es oks \<and>
        mt_ActiveSeconds m = total_of (seconds_of ty) i es oks \<and>
        mt_ContextEdits m = total_of (\<lambda>e. fst (edits_of ty e)) i es oks \<and>
        mt_ElidedArtifacts m = total_of (\<lambda>e. snd (edits_of ty e)) i es oks"
proof -
  note amounts = event_update_amounts [OF assms(1)]
  have "mf.measure_of mt_PromptTokens root i = total_of (\<lambda>e. fst (tokens_of ty e)) i es oks"
    unfolding total_of_def by (subst mf.hook_measure [OF _ _ _ _ assms(2)]) (auto simp: amounts(1))
  moreover have "mf.measure_of mt_CompletionTokens root i = total_of (\<lambda>e. snd (tokens_of ty e)) i es oks"
    unfolding total_of_def by (subst mf.hook_measure [OF _ _ _ _ assms(2)]) (auto simp: amounts(2))
  moreover have "mf.measure_of mt_ActiveSeconds root i = total_of (seconds_of ty) i es oks"
    unfolding total_of_def by (subst mf.hook_measure [OF _ _ _ _ assms(2)]) (auto simp: amounts(3))
  moreover have "mf.measure_of mt_ContextEdits root i = total_of (\<lambda>e. fst (edits_of ty e)) i es oks"
    unfolding total_of_def by (subst mf.hook_measure [OF _ _ _ _ assms(2)]) (auto simp: amounts(4))
  moreover have "mf.measure_of mt_ElidedArtifacts root i = total_of (\<lambda>e. snd (edits_of ty e)) i es oks"
    unfolding total_of_def by (subst mf.hook_measure [OF _ _ _ _ assms(2)]) (auto simp: amounts(5))
  moreover have "metrics_ok i m" if "metrics_of root i = Some m" for m
    by (rule hook_run_ok [OF assms(2) _ that]) (simp add: metrics_of_def)
  ultimately show ?thesis by (auto simp: mf.measure_of_def split: option.splits)
qed

section \<open>Metrics and sessions share their directories\<close>

text \<open>A directory without metadata: what a metrics update leaves behind when no session was created yet.\<close>

definition hollow :: "('v, 'm) session_root \<Rightarrow> string \<Rightarrow> bool" where
  "hollow root i \<longleftrightarrow> (case map_of root i of None \<Rightarrow> False | Some d \<Rightarrow> map_of (sd_meta d) metaFilename = None)"

lemma hollow_mkdir: "map_of root i = None \<Longrightarrow> mf_Update z io now i fn root = (err, root') \<Longrightarrow>
    me_ctx io = None \<Longrightarrow> me_mkdir io = None \<Longrightarrow> validateID i = None \<Longrightarrow> hollow root' i"
  by (auto simp: mf_Update_def session_mkdir_def loadMetricsFile_def hollow_def empty_dir_def update_conv' Let_def
      split: option.splits sum.splits prod.splits)

lemma hollow_update:
  "hollow root i \<Longrightarrow> (j = i \<Longrightarrow> map_of (sd_meta d) metaFilename = None) \<Longrightarrow> hollow (AList.update j d root) i"
  by (auto simp: hollow_def update_conv')

lemma hollow_meta: "hollow root i \<Longrightarrow> \<exists>e. readMeta js io i root = Inl e"
  by (auto simp: hollow_def readMeta_def split: option.splits)

lemma hollow_create:
  assumes "hollow root i" and "sf_Create io now (Some s) root = (err, root')"
  shows "hollow root' i"
proof (cases "ss_ID s = i")
  case True
  then have "root' = root" using assms
    by (auto simp: sf_Create_def os_Stat_def hollow_def Let_def ErrSessionNotFound_def split: option.splits if_splits)
  then show ?thesis using assms(1) by simp
next
  case False
  have rm: "hollow (snd (os_RemoveAll io (ss_ID s) (AList.update (ss_ID s) d root))) i" for d
    using assms(1) False
    by (auto simp: os_RemoveAll_def hollow_def update_conv' delete_conv' split: option.splits)
  show ?thesis using assms rm False
    by (auto simp: sf_Create_def Let_def intro: hollow_update split: option.splits sum.splits prod.splits if_splits)
qed

lemma hollow_rewrite:
  assumes "hollow root i" and "rewrite_state js io now j st root = (err, root')"
  shows "hollow root' i"
proof (cases "map_of root j")
  case None
  then show ?thesis using assms by (simp add: rewrite_state_def)
next
  case (Some d)
  obtain e1 d1 where w: "write_state io st d = (e1, d1)" by (rule prod.exhaust)
  have m: "sd_meta d1 = sd_meta d" using w by (auto simp: write_state_def split: prod.splits)
  have h1: "hollow (AList.update j d1 root) i"
    by (rule hollow_update [OF assms(1)]) (use assms(1) Some m in \<open>simp add: hollow_def\<close>)
  have "hollow (snd (touchMetaLocked js io now j (AList.update j d1 root))) i"
  proof (cases "j = i")
    case True
    then show ?thesis using hollow_meta [OF h1, of js io] h1 by (auto simp: touchMetaLocked_def)
  next
    case False
    then show ?thesis using h1
      by (auto simp: touchMetaLocked_def intro: hollow_update [OF assms(1)] split: sum.splits option.splits prod.splits)
  qed
  then show ?thesis using assms(2) Some w h1 by (cases e1) (auto simp: rewrite_state_def)
qed

lemma hollow_step:
  assumes "hollow root i" and "c \<noteq> SDelete i" and "sf_call js io now c root = (a, root')"
  shows "hollow root' i"
proof (cases c)
  case (SCreate s)
  then show ?thesis using assms(3) hollow_create [OF assms(1), of io now s]
    by (cases "sf_Create io now (Some s) root") (auto simp: wrote_def)
next
  case (SUpdate s)
  then show ?thesis using assms hollow_meta [OF assms(1), of js io]
    by (cases "ss_ID s = i")
      (auto simp: wrote_def sf_Update_def Let_def intro: hollow_update split: option.splits sum.splits prod.splits)
next
  case (SDelete j)
  then show ?thesis using assms
    by (auto simp: wrote_def sf_Delete_def os_RemoveAll_def hollow_def update_conv' delete_conv' split: option.splits)
next
  case (SAppend j e)
  have "hollow (AList.update j (d\<lparr>sd_events := x\<rparr>) root) i" if "map_of root j = Some d" for d x
    by (rule hollow_update [OF assms(1)]) (use assms(1) that in \<open>simp add: hollow_def\<close>)
  then show ?thesis using assms(1,3) SAppend
    by (auto simp: wrote_def sf_AppendEvent_def os_Stat_def Let_def split: option.splits sum.splits prod.splits)
next
  case (SSetState j k v)
  then show ?thesis using assms(1,3) hollow_rewrite [OF assms(1), of js io now j]
    by (auto simp: wrote_def sf_SetState_def split: option.splits sum.splits)
      (metis prod.collapse)
next
  case (SDelState j k)
  then show ?thesis using assms(1,3) hollow_rewrite [OF assms(1), of js io now j]
    by (auto simp: wrote_def sf_DeleteState_def split: option.splits sum.splits)
      (metis prod.collapse)
qed (use assms in auto)

lemma hollow_run:
  assumes "hollow root i" and "undeleted i (map snd h)" and "run_calls (file_step js) h root = (as, root')"
  shows "hollow root' i"
  using assms
proof (induction h arbitrary: root as)
  case (Cons c h)
  obtain a r1 where a: "file_step js c root = (a, r1)" by (rule prod.exhaust)
  obtain as2 r2 where r: "run_calls (file_step js) h r1 = (as2, r2)" by (rule prod.exhaust)
  have "r2 = root'" using Cons.prems(3) a r by simp
  moreover have "hollow r1 i"
    by (rule hollow_step [OF Cons.prems(1) _ a [unfolded file_step_def]]) (use Cons.prems(2) in \<open>simp add: undeleted_def\<close>)
  ultimately show ?case using Cons.IH [of r1 as2] Cons.prems(2) r by (simp add: undeleted_def)
qed simp

text \<open>
  Metrics recorded before a session is created make it impossible to create: with both stores on the
  same root, as the file layout intends, the update makes the directory of the session; from then on, under
  any faults and whatever calls follow, until the session is deleted, creating the session reports that it
  exists, reading it reports that it does not, and an append succeeds without it (so a hook that creates
  missing sessions never does).
\<close>

theorem metrics_first_hides_session:
  assumes "map_of root i = None" and "validateID i = None" and "me_ctx mio = None" and "me_mkdir mio = None"
    and "mf_Update zero mio t i fn root = (err, root1)"
    and "undeleted i (map snd h)" and "run_calls (file_step js) h root1 = (as, root2)" and "se_clean io"
  shows "(ss_ID s = i \<longrightarrow> sf_Create io now (Some s) root2 = (Some ErrSessionExists, root2)) \<and>
     sf_Get js io i root2 = Inl ErrSessionNotFound \<and>
     i \<notin> fst ` set (collect js io root2 ids) \<and>
     (js_marshal js e = Inr u \<longrightarrow> fst (sf_AppendEvent js io i e root2) = None)"
proof -
  have h: "hollow root2 i"
    using hollow_run [OF hollow_mkdir [OF assms(1,5,3,4,2)] assms(6,7)] .
  then obtain d where d: "map_of root2 i = Some d" "map_of (sd_meta d) metaFilename = None"
    by (auto simp: hollow_def split: option.splits)
  have clean: "se_readmeta io = None" "se_write io = None" using assms(8) by (simp_all add: se_clean_def)
  have "i \<notin> fst ` set (collect js io root2 ids)"
    using hollow_meta [OF h, of js io] by (induction ids) (auto split: sum.splits)
  then show ?thesis using d clean assms(2)
    by (auto simp: sf_Create_def sf_Get_def readMeta_def sf_AppendEvent_def se_clean_simps [OF assms(8)] Let_def)
qed

section \<open>Concrete runs\<close>

definition quiet_metrics :: "nat mf_env" where
  "quiet_metrics = \<lparr>me_ctx = None, me_open = None, me_decode = Canceled, me_mkdir = None, me_write = quiet_write, me_remove = None\<rparr>"

definition sample_types :: event_types where
  "sample_types = \<lparr>EventLLMCallEnd = ''llm_call_end'', EventAgentEnd = ''agent_end'', EventContextEdited = ''context_edited''\<rparr>"

definition nat_floats :: "nat float_ops" where
  "nat_floats = \<lparr>fl_zero = 0, fl_of = unat, fl_add = (+), fl_mul = (*), fl_div = (\<lambda>x y. x)\<rparr>"

definition payload_event :: "string \<Rightarrow> payload \<Rightarrow> payload event" where
  "payload_event t p = \<lparr>ev_Type = t, ev_AgentID = '''', ev_SessionID = ''s'', ev_Timestamp = 0, ev_Data = Some p, ev_ParentID = ''''\<rparr>"

text \<open>The second event meets a failing rename; two runs of 999 ms count no second.\<close>

definition sample_events :: "(nat mf_env \<times> int \<times> payload event) list" where
  "sample_events =
     [(quiet_metrics, 1, payload_event ''llm_call_end'' (LLMCallEndData ''m'' 100 20)),
      (quiet_metrics\<lparr>me_write := quiet_write\<lparr>fw_rename := Some (errno ''EIO'')\<rparr>\<rparr>, 2,
        payload_event ''llm_call_end'' (LLMCallEndData ''m'' 50 10)),
      (quiet_metrics, 3, payload_event ''agent_end'' (AgentEndData 999)),
      (quiet_metrics, 4, payload_event ''agent_end'' (AgentEndData 999))]"

definition sample_metrics :: "(nat, nat metrics) session_root" where
  "sample_metrics = snd (hook_run sample_types nat_floats None (mf_Update 0) sample_events [])"

theorem hook_counters_exact_witness:
  "\<exists>m. metrics_of sample_metrics ''s'' = Some m \<and> mt_PromptTokens m = 100 \<and> mt_TotalTokens m = 120 \<and> mt_ActiveSeconds m = 0"
proof -
  let ?run = "hook_run sample_types nat_floats None (mf_Update (fl_zero nat_floats)) sample_events ([] :: (nat, nat metrics) session_root)"
  have d: "distinct_types sample_types" by code_simp
  have oks: "fst ?run = [True, False, True, True]" by code_simp
  have "?run = ([True, False, True, True], sample_metrics)"
    using oks by (simp add: prod_eq_iff sample_metrics_def nat_floats_def)
  from hook_counters_exact [OF d this, of "''s''"] show ?thesis
    by (simp add: total_of_def sample_events_def payload_event_def tokens_of_def seconds_of_def sample_types_def
        metrics_ok_def split: option.splits)
qed

theorem metrics_first_hides_session_witness:
  "sf_Create quiet_io 5 (Some (session_named ''b'')) (snd (mf_Update (0 :: nat) quiet_metrics 1 ''b'' None [])) =
     (Some ErrSessionExists, snd (mf_Update 0 quiet_metrics 1 ''b'' None [])) \<and>
   sf_Get sample_json quiet_io ''b'' (snd (mf_Update (0 :: nat) quiet_metrics 1 ''b'' None [])) = Inl ErrSessionNotFound"
proof -
  have q: "me_ctx quiet_metrics = None" "me_mkdir quiet_metrics = None" by (simp_all add: quiet_metrics_def)
  have h: "undeleted ''b'' (map snd ([] :: ((nat sf_env \<times> int) \<times> (nat, nat) scall) list))" by (simp add: undeleted_def)
  from metrics_first_hides_session [where root = "[]" and i = "''b''" and s = "session_named ''b''" and js = sample_json,
      OF _ valid_b q surjective_pairing h run_calls.simps(1) quiet_io_clean]
  show ?thesis by (simp add: session_named_def)
qed

end
