(* ===== verification/SessionHooks.thy ===== *)
theory SessionHooks
  imports SessionMetrics
begin

text \<open>
  The hook manager (\<open>hook/manager.go\<close>) and the asynchronous hook that writes events into a session store
  (\<open>session/hook.go\<close>). A handler is a function on the state of the world; a channel is its buffer. The
  context is polled before every hook, so it may be cancelled between two. A panic is \<open>None\<close>.
\<close>

section \<open>The manager\<close>

record ('d, 'w) sync_hook =
  sh_Filter :: "string list"
  sh_OnEvent :: "'d event \<Rightarrow> 'w \<Rightarrow> go_error option \<times> 'w"

record 'd async_hook =
  ah_Filter :: "string list"
  ah_cap :: nat
  ah_buf :: "'d event list"
  ah_closed :: bool

record ('d, 'w) manager =
  hm_syncHooks :: "('d, 'w) sync_hook list"
  hm_asyncHooks :: "'d async_hook list"

definition NewManager :: "('d, 'w) manager" where
  "NewManager = \<lparr>hm_syncHooks = [], hm_asyncHooks = []\<rparr>"

definition Register :: "('d, 'w) sync_hook list \<Rightarrow> ('d, 'w) manager \<Rightarrow> ('d, 'w) manager" where
  "Register hs m = m\<lparr>hm_syncHooks := hm_syncHooks m @ hs\<rparr>"

definition RegisterAsync :: "'d async_hook list \<Rightarrow> ('d, 'w) manager \<Rightarrow> ('d, 'w) manager" where
  "RegisterAsync hs m = m\<lparr>hm_asyncHooks := hm_asyncHooks m @ hs\<rparr>"

definition matches :: "string list \<Rightarrow> string \<Rightarrow> bool" where
  "matches flt ty \<longleftrightarrow> (if length flt = 0 then True else List.member flt ty)"

text \<open>The loop over the synchronous hooks: whether the context was found done, the polls made, the world.\<close>

fun dispatch_sync :: "(nat \<Rightarrow> bool) \<Rightarrow> nat \<Rightarrow> ('d, 'w) sync_hook list \<Rightarrow> 'd event \<Rightarrow> 'w \<Rightarrow> bool \<times> nat \<times> 'w" where
  "dispatch_sync ctx k [] e w = (False, k, w)"
| "dispatch_sync ctx k (h # hs) e w =
     (if ctx k then (True, k, w)
      else if \<not> matches (sh_Filter h) (ev_Type e) then dispatch_sync ctx (Suc k) hs e w
      else case sh_OnEvent h e w of (err, w') \<Rightarrow> dispatch_sync ctx (Suc k) hs e w')"

text \<open>A send that does not block: a full channel drops the event, a closed one panics.\<close>

definition try_send :: "'d event \<Rightarrow> 'd async_hook \<Rightarrow> 'd async_hook option" where
  "try_send e h =
     (if ah_closed h then None
      else if length (ah_buf h) < ah_cap h then Some (h\<lparr>ah_buf := ah_buf h @ [e]\<rparr>)
      else Some h)"

fun dispatch_async :: "(nat \<Rightarrow> bool) \<Rightarrow> nat \<Rightarrow> 'd async_hook list \<Rightarrow> 'd event \<Rightarrow> 'd async_hook list option" where
  "dispatch_async ctx k [] e = Some []"
| "dispatch_async ctx k (h # hs) e =
     (if ctx k then Some (h # hs)
      else if \<not> matches (ah_Filter h) (ev_Type e) then map_option ((#) h) (dispatch_async ctx (Suc k) hs e)
      else case try_send e h of None \<Rightarrow> None
        | Some h' \<Rightarrow> map_option ((#) h') (dispatch_async ctx (Suc k) hs e))"

definition Dispatch :: "(nat \<Rightarrow> bool) \<Rightarrow> 'd event \<Rightarrow> ('d, 'w) manager option \<Rightarrow> 'w \<Rightarrow> (('d, 'w) manager option \<times> 'w) option" where
  "Dispatch ctx e m w =
     (case m of None \<Rightarrow> Some (None, w)
      | Some mgr \<Rightarrow>
     (case dispatch_sync ctx 0 (hm_syncHooks mgr) e w of (stopped, k, w') \<Rightarrow>
        if stopped then Some (Some mgr, w')
        else map_option (\<lambda>hs. (Some (mgr\<lparr>hm_asyncHooks := hs\<rparr>), w')) (dispatch_async ctx k (hm_asyncHooks mgr) e)))"

text \<open>
  Starting and stopping the asynchronous hooks, by their numbers: the calls made, in order. \<open>starts i\<close> and
  \<open>stops i\<close> are the answers of hook \<open>i\<close>.
\<close>

datatype lifecycle_call = CallStart nat | CallStop nat

fun start_loop :: "(nat \<Rightarrow> go_error option) \<Rightarrow> nat \<Rightarrow> nat \<Rightarrow> go_error option \<times> lifecycle_call list" where
  "start_loop starts i 0 = (None, [])"
| "start_loop starts i (Suc n) =
     (case starts i of
        Some err \<Rightarrow> (Some err, CallStart i # map CallStop (rev [0..<i]))
      | None \<Rightarrow> (case start_loop starts (Suc i) n of (err, calls) \<Rightarrow> (err, CallStart i # calls)))"

definition Start :: "(nat \<Rightarrow> go_error option) \<Rightarrow> ('d, 'w) manager \<Rightarrow> go_error option \<times> lifecycle_call list" where
  "Start starts m = start_loop starts 0 (length (hm_asyncHooks m))"

definition Stop :: "(nat \<Rightarrow> go_error option) \<Rightarrow> ('d, 'w) manager \<Rightarrow> go_error list \<times> lifecycle_call list" where
  "Stop stops m =
     (List.map_filter stops [0..<length (hm_asyncHooks m)], map CallStop [0..<length (hm_asyncHooks m)])"

section \<open>The session hook\<close>

definition DefaultHookBufferSize :: nat where "DefaultHookBufferSize = 1024"

record ('d, 's) session_hook =
  hk_buf :: "'d event list"
  hk_cap :: nat
  hk_autoCreate :: bool
  hk_lastWarn :: string
  hk_warnings :: nat
  hk_store :: 's

text \<open>The options \<open>WithBufferSize\<close> and \<open>WithAutoCreate\<close>, when given.\<close>

definition NewSessionHook :: "int option \<Rightarrow> bool option \<Rightarrow> 's \<Rightarrow> ('d, 's) session_hook" where
  "NewSessionHook bufsize autocreate store =
     \<lparr>hk_buf = [], hk_cap = (case bufsize of None \<Rightarrow> DefaultHookBufferSize | Some n \<Rightarrow> if n > 0 then nat n else DefaultHookBufferSize),
      hk_autoCreate = (case autocreate of None \<Rightarrow> True | Some b \<Rightarrow> b), hk_lastWarn = '''', hk_warnings = 0, hk_store = store\<rparr>"

definition warn :: "string \<Rightarrow> ('d, 's) session_hook \<Rightarrow> ('d, 's) session_hook" where
  "warn i h = (if i = hk_lastWarn h then h else h\<lparr>hk_lastWarn := i, hk_warnings := Suc (hk_warnings h)\<rparr>)"

definition nonZeroTime :: "int \<Rightarrow> int \<Rightarrow> int" where
  "nonZeroTime now t = (if t = 0 then now else t)"

definition seed_session :: "int \<Rightarrow> 'd event \<Rightarrow> 'v session" where
  "seed_session now e = \<lparr>ss_ID = ev_SessionID e, ss_ParentID = '''', ss_AgentID = ev_AgentID e, ss_UserID = '''',
     ss_Title = '''', ss_State = StateActive, ss_Metadata = [], ss_CreatedAt = nonZeroTime now (ev_Timestamp e), ss_UpdatedAt = 0\<rparr>"

definition handle :: "(string \<Rightarrow> 'd event \<Rightarrow> 's \<Rightarrow> go_error option \<times> 's) \<Rightarrow> ('v session \<Rightarrow> 's \<Rightarrow> go_error option \<times> 's) \<Rightarrow> int
      \<Rightarrow> 'd event \<Rightarrow> ('d, 's) session_hook \<Rightarrow> ('d, 's) session_hook" where
  "handle appendEvent create now e h =
     (let i = ev_SessionID e in
      case appendEvent i e (hk_store h) of
        (None, s1) \<Rightarrow> h\<lparr>hk_store := s1\<rparr>
      | (Some err, s1) \<Rightarrow>
          (if errors_is err ErrSessionNotFound \<and> hk_autoCreate h
           then case create (seed_session now e) s1 of (cerr, s2) \<Rightarrow>
             (if cerr \<noteq> None \<and> \<not> errors_is (the cerr) ErrSessionExists then warn i (h\<lparr>hk_store := s2\<rparr>)
              else case appendEvent i e s2 of
                (None, s3) \<Rightarrow> h\<lparr>hk_store := s3\<rparr>
              | (Some err', s3) \<Rightarrow> warn i (h\<lparr>hk_store := s3\<rparr>))
           else warn i (h\<lparr>hk_store := s1\<rparr>)))"

text \<open>One turn of the consumer: it takes an event and, unless the event names no session, handles it.\<close>

definition consume :: "(string \<Rightarrow> 'd event \<Rightarrow> 's \<Rightarrow> go_error option \<times> 's) \<Rightarrow> ('v session \<Rightarrow> 's \<Rightarrow> go_error option \<times> 's) \<Rightarrow> int
      \<Rightarrow> ('d, 's) session_hook \<Rightarrow> ('d, 's) session_hook" where
  "consume appendEvent create now h =
     (case hk_buf h of [] \<Rightarrow> h
      | e # rest \<Rightarrow>
          (if ev_SessionID e = '''' then h\<lparr>hk_buf := rest\<rparr>
           else handle appendEvent create now e (h\<lparr>hk_buf := rest\<rparr>)))"

text \<open>The manager's side: an event enters the buffer unless it is full.\<close>

definition offer :: "'d event \<Rightarrow> ('d, 's) session_hook \<Rightarrow> bool \<times> ('d, 's) session_hook" where
  "offer e h = (if length (hk_buf h) < hk_cap h then (True, h\<lparr>hk_buf := hk_buf h @ [e]\<rparr>) else (False, h))"

datatype ('d, 'e) hook_step = Offer "'d event" | Consume 'e int

text \<open>Any interleaving of producers and the consumer; the events that entered the buffer, in order.\<close>

fun hook_steps :: "('e \<Rightarrow> string \<Rightarrow> 'd event \<Rightarrow> 's \<Rightarrow> go_error option \<times> 's) \<Rightarrow> ('e \<Rightarrow> 'v session \<Rightarrow> 's \<Rightarrow> go_error option \<times> 's)
      \<Rightarrow> ('d, 'e) hook_step list \<Rightarrow> ('d, 's) session_hook \<Rightarrow> 'd event list \<times> ('d, 's) session_hook" where
  "hook_steps appendEvent create [] h = ([], h)"
| "hook_steps appendEvent create (Offer e # st) h =
     (case offer e h of (ok, h1) \<Rightarrow> (case hook_steps appendEvent create st h1 of (es, h2) \<Rightarrow> ((if ok then [e] else []) @ es, h2)))"
| "hook_steps appendEvent create (Consume env now # st) h =
     hook_steps appendEvent create st (consume (appendEvent env) (create env) now h)"

section \<open>Dispatching\<close>

text \<open>With a live context every matching hook is served, in the order of registration.\<close>

definition serve_sync :: "('d, 'w) sync_hook list \<Rightarrow> 'd event \<Rightarrow> 'w \<Rightarrow> 'w" where
  "serve_sync hs e w = fold (\<lambda>h w. snd (sh_OnEvent h e w)) (filter (\<lambda>h. matches (sh_Filter h) (ev_Type e)) hs) w"

lemma dispatch_sync_live:
  "\<forall>k. \<not> ctx k \<Longrightarrow> dispatch_sync ctx k hs e w = (False, k + length hs, serve_sync hs e w)"
  by (induction hs arbitrary: k w) (auto simp: serve_sync_def split: prod.splits)

definition serve_async :: "'d async_hook list \<Rightarrow> 'd event \<Rightarrow> 'd async_hook list" where
  "serve_async hs e = map (\<lambda>h. if matches (ah_Filter h) (ev_Type e) \<and> length (ah_buf h) < ah_cap h
     then h\<lparr>ah_buf := ah_buf h @ [e]\<rparr> else h) hs"

lemma dispatch_async_live:
  assumes "\<forall>k. \<not> ctx k" and "\<not> list_ex (\<lambda>h. ah_closed h \<and> matches (ah_Filter h) (ev_Type e)) hs"
  shows "dispatch_async ctx k hs e = Some (serve_async hs e)"
  using assms(2) by (induction hs arbitrary: k) (use assms(1) in \<open>auto simp: serve_async_def try_send_def\<close>)

text \<open>
  Dispatching with a live context calls exactly the synchronous hooks whose filter accepts the event,
  in the order of registration and whatever errors they return, and puts the event at the end of the buffer
  of exactly the accepting asynchronous hooks that have room; a full buffer drops it and nothing blocks.
\<close>

theorem dispatch_exact:
  assumes "\<forall>k. \<not> ctx k" and "\<not> list_ex (\<lambda>h. ah_closed h \<and> matches (ah_Filter h) (ev_Type e)) (hm_asyncHooks m)"
  shows "Dispatch ctx e (Some m) w =
     Some (Some (m\<lparr>hm_asyncHooks := serve_async (hm_asyncHooks m) e\<rparr>), serve_sync (hm_syncHooks m) e w)"
  by (simp add: Dispatch_def dispatch_sync_live [OF assms(1)] dispatch_async_live [OF assms])

text \<open>Starting is all or nothing.\<close>

lemma start_loop_calls:
  "start_loop starts i n = (case find_first (\<lambda>j. starts j \<noteq> None) [i..<i + n] of
      None \<Rightarrow> (None, map CallStart [i..<i + n])
    | Some j \<Rightarrow> (starts j, map CallStart [i..<Suc j] @ map CallStop (rev [0..<j])))"
proof (induction starts i n rule: start_loop.induct)
  case (2 starts i n)
  have r: "[i..<i + Suc n] = i # [Suc i..<Suc i + n]" by (simp add: upt_conv_Cons del: upt_Suc)
  show ?case
  proof (cases "starts i")
    case None
    show ?thesis
    proof (cases "find_first (\<lambda>j. starts j \<noteq> None) [Suc i..<Suc i + n]")
      case None
      then show ?thesis using \<open>starts i = None\<close> 2 [OF \<open>starts i = None\<close>] by (simp only: r) simp
    next
      case (Some j)
      then have "Suc i \<le> j" using find_first_Some [OF Some] by auto
      then have "[i..<Suc j] = i # [Suc i..<Suc j]" by (simp add: upt_conv_Cons del: upt_Suc)
      then show ?thesis using Some \<open>starts i = None\<close> 2 [OF \<open>starts i = None\<close>] by (simp only: r) simp
    qed
  next
    case (Some err)
    then show ?thesis by (simp only: r) simp
  qed
qed simp

text \<open>
  Starting the hooks is all or nothing: either every hook was started, in order, and none failed, or the
  first hook that failed is reported, and exactly the hooks started before it were stopped, in reverse order.
\<close>

theorem start_all_or_nothing:
  "Start starts m =
     (case find_first (\<lambda>j. starts j \<noteq> None) [0..<length (hm_asyncHooks m)] of
        None \<Rightarrow> (None, map CallStart [0..<length (hm_asyncHooks m)])
      | Some j \<Rightarrow> (starts j, map CallStart [0..<Suc j] @ map CallStop (rev [0..<j])))"
  by (simp only: Start_def start_loop_calls add_0)

section \<open>What a writer promises\<close>

text \<open>
  The part of a session store the hook relies on: the log of a session, if it exists; \<open>good\<close> surroundings are
  those without faults, and \<open>fine\<close> events can be stored.
\<close>

locale event_writer =
  fixes appendEvent :: "'e \<Rightarrow> string \<Rightarrow> 'd event \<Rightarrow> 's \<Rightarrow> go_error option \<times> 's"
    and create :: "'e \<Rightarrow> 'v session \<Rightarrow> 's \<Rightarrow> go_error option \<times> 's"
    and logof :: "'s \<Rightarrow> string \<Rightarrow> 'l option"
    and add :: "'l \<Rightarrow> 'd event \<Rightarrow> 'l"
    and none :: 'l
    and good :: "'e \<Rightarrow> bool"
    and fine :: "'d event \<Rightarrow> bool"
  assumes append_known: "good env \<Longrightarrow> fine e \<Longrightarrow> validateID i = None \<Longrightarrow> logof s i = Some l \<Longrightarrow>
      \<exists>s'. appendEvent env i e s = (None, s') \<and> logof s' = (logof s)(i := Some (add l e))"
    and append_unknown: "good env \<Longrightarrow> fine e \<Longrightarrow> validateID i = None \<Longrightarrow> logof s i = None \<Longrightarrow> appendEvent env i e s = (Some ErrSessionNotFound, s)"
    and create_new: "good env \<Longrightarrow> validateID (ss_ID x) = None \<Longrightarrow> logof s (ss_ID x) = None \<Longrightarrow>
      \<exists>s'. create env x s = (None, s') \<and> logof s' = (logof s)(ss_ID x := Some none)"
begin

definition stored :: "'d event \<Rightarrow> (string \<Rightarrow> 'l option) \<Rightarrow> string \<Rightarrow> 'l option" where
  "stored e L = L(ev_SessionID e := Some (add (case L (ev_SessionID e) of None \<Rightarrow> none | Some l \<Rightarrow> l) e))"

lemma fold_stored:
  "fold stored es L i = (let mine = filter (\<lambda>e. ev_SessionID e = i) es in
     if mine = [] then L i else Some (foldl add (case L i of None \<Rightarrow> none | Some l \<Rightarrow> l) mine))"
  by (induction es arbitrary: L) (auto simp: stored_def Let_def)

text \<open>The hook stores an event, creating its session when it is missing, without a warning.\<close>

lemma handle_stores:
  assumes "good env" and "fine e" and "validateID (ev_SessionID e) = None" and "hk_autoCreate h"
  shows "\<exists>s'. handle (appendEvent env) (create env) now e h = h\<lparr>hk_store := s'\<rparr> \<and> logof s' = stored e (logof (hk_store h))"
proof (cases "logof (hk_store h) (ev_SessionID e)")
  case (Some l)
  from append_known [OF assms(1-3) Some] obtain s' where
    "appendEvent env (ev_SessionID e) e (hk_store h) = (None, s')" "logof s' = (logof (hk_store h))(ev_SessionID e := Some (add l e))" by blast
  then show ?thesis using Some by (auto simp: handle_def stored_def)
next
  case None
  let ?x = "seed_session now e"
  have i: "ss_ID ?x = ev_SessionID e" by (simp add: seed_session_def)
  obtain s1 where s1: "create env ?x (hk_store h) = (None, s1)" "logof s1 = (logof (hk_store h))(ev_SessionID e := Some none)"
    using create_new [OF assms(1), of ?x "hk_store h", unfolded i, OF assms(3) None] by blast
  from append_known [OF assms(1-3), of s1 none] obtain s2 where
    "appendEvent env (ev_SessionID e) e s1 = (None, s2)" "logof s2 = (logof s1)(ev_SessionID e := Some (add none e))"
    using s1(2) by auto
  then show ?thesis using s1 None append_unknown [OF assms(1-3) None] assms(4) by (auto simp: handle_def stored_def)
qed

text \<open>
  Whatever the interleaving of producers and the consumer, the logs hold exactly the events that entered the
  buffer and left it again, in that order; the others are still in the buffer.
\<close>

lemma hook_steps_log:
  assumes "hook_steps appendEvent create st h = (es, h')" and "hk_autoCreate h"
    and "list_all (\<lambda>x. case x of Consume env now \<Rightarrow> good env | Offer e \<Rightarrow> True) st"
    and "list_all (\<lambda>e. fine e \<and> (ev_SessionID e = '''' \<or> validateID (ev_SessionID e) = None)) (hk_buf h @ es)"
  shows "\<exists>took. hk_buf h @ es = took @ hk_buf h' \<and>
     logof (hk_store h') = fold stored (filter (\<lambda>e. ev_SessionID e \<noteq> '''') took) (logof (hk_store h)) \<and> hk_warnings h' = hk_warnings h"
  using assms
proof (induction st arbitrary: h es)
  case Nil
  then show ?case by (intro exI [of _ "[]"]) simp
next
  case (Cons x st)
  show ?case
  proof (cases x)
    case (Offer e)
    obtain ok h1 where o: "offer e h = (ok, h1)" by (rule prod.exhaust)
    obtain es2 h2 where r: "hook_steps appendEvent create st h1 = (es2, h2)" by (rule prod.exhaust)
    have eqs: "es = (if ok then [e] else []) @ es2" "h2 = h'" using Cons.prems(1) Offer o r by simp_all
    have h1: "hk_buf h1 = hk_buf h @ (if ok then [e] else [])" "hk_store h1 = hk_store h" "hk_autoCreate h1 = hk_autoCreate h"
      "hk_warnings h1 = hk_warnings h"
      using o by (auto simp: offer_def split: if_splits)
    show ?thesis using Cons.IH [OF r [unfolded eqs(2)]] Cons.prems(2-4) Offer eqs(1) h1 by auto
  next
    case (Consume env now)
    let ?h1 = "consume (appendEvent env) (create env) now h"
    have r: "hook_steps appendEvent create st ?h1 = (es, h')" and g: "good env" using Cons.prems(1,3) Consume by simp_all
    show ?thesis
    proof (cases "hk_buf h")
      case Nil
      then have "?h1 = h" by (simp add: consume_def)
      then show ?thesis using Cons.IH [of h es] r Cons.prems(2-4) Consume by simp
    next
      case buf: (Cons e rest)
      have ok: "fine e" "ev_SessionID e = [] \<or> validateID (ev_SessionID e) = None" using Cons.prems(4) buf by simp_all
      obtain s1 where h1: "?h1 = h\<lparr>hk_buf := rest, hk_store := s1\<rparr>"
        "logof s1 = (if ev_SessionID e = [] then logof (hk_store h) else stored e (logof (hk_store h)))"
      proof (cases "ev_SessionID e = []")
        case True
        then show ?thesis using that [of "hk_store h"] buf by (simp add: consume_def)
      next
        case False
        have "validateID (ev_SessionID e) = None" using ok(2) False by simp
        from handle_stores [OF g ok(1) this, of "h\<lparr>hk_buf := rest\<rparr>" now] Cons.prems(2)
        show ?thesis using that False buf by (auto simp: consume_def)
      qed
      obtain took where "rest @ es = took @ hk_buf h'" "logof (hk_store h') =
          fold stored (filter (\<lambda>e. ev_SessionID e \<noteq> []) took) (logof s1)" "hk_warnings h' = hk_warnings h"
        using Cons.IH [OF r] Cons.prems(2-4) Consume buf h1(1) by auto
      then show ?thesis using buf h1(2) by (intro exI [of _ "e # took"]) simp
    qed
  qed
qed

text \<open>The same for one session: its log is its own events among those taken, if there are any.\<close>

lemma hook_steps_log_of:
  assumes "hook_steps appendEvent create st h = (es, h')" and "hk_autoCreate h"
    and "list_all (\<lambda>x. case x of Consume env now \<Rightarrow> good env | Offer e \<Rightarrow> True) st"
    and "list_all (\<lambda>e. fine e \<and> (ev_SessionID e = [] \<or> validateID (ev_SessionID e) = None)) (hk_buf h @ es)"
    and "i \<noteq> []" and "logof (hk_store h) i = None"
  shows "\<exists>took. hk_buf h @ es = took @ hk_buf h' \<and> hk_warnings h' = hk_warnings h \<and>
     logof (hk_store h') i = (let mine = filter (\<lambda>e. ev_SessionID e = i) took in
       if mine = [] then None else Some (foldl add none mine))"
proof -
  obtain took where took: "hk_buf h @ es = took @ hk_buf h'" "hk_warnings h' = hk_warnings h"
    "logof (hk_store h') = fold stored (filter (\<lambda>e. ev_SessionID e \<noteq> []) took) (logof (hk_store h))"
    using hook_steps_log [OF assms(1-4)] by blast
  have "filter (\<lambda>e. ev_SessionID e = i) (filter (\<lambda>e. ev_SessionID e \<noteq> []) took) = filter (\<lambda>e. ev_SessionID e = i) took"
    using assms(5) by (induction took) auto
  then show ?thesis using took assms(6) by (auto simp: fold_stored Let_def)
qed

end

section \<open>Both stores are writers\<close>

definition map_log :: "('v, 'd) map_sessions \<Rightarrow> string \<Rightarrow> 'd event list option" where
  "map_log st i = map_option sr_events (map_of (mss_sessions st) i)"

interpretation mw: event_writer "sm_AppendEvent None" "\<lambda>now x. sm_Create None now (Some x)" map_log "\<lambda>es e. es @ [e]" "[]"
  "\<lambda>now. True" "\<lambda>e. True"
proof (unfold_locales, goal_cases)
  case (1 now e i st es)
  then show ?case by (auto simp: map_log_def sm_AppendEvent_def fun_eq_iff)
next
  case (2 now e i st)
  then show ?case by (simp add: map_log_def sm_AppendEvent_def)
next
  case (3 now x st)
  then show ?case by (auto simp: map_log_def sm_Create_def fun_eq_iff update_conv')
qed

lemma create_succeeds:
  assumes "se_clean io" and "validateID (ss_ID x) = None" and "map_of root (ss_ID x) = None"
  shows "fst (sf_Create io now (Some x) root) = None"
proof -
  have wc: "write_clean (se_meta io)" "write_clean (se_state io)" "se_mkdir io = None" using assms(1) by (simp_all add: se_clean_def)
  obtain d1 :: "('a, 'b) session_dir" where w: "write_meta io (fill_new now x) empty_dir = (None, d1)"
    using write_meta_clean [OF wc(1)] by blast
  obtain d2 where w2: "write_state io [] (d1\<lparr>sd_events := Some ''''\<rparr>) = (None, d2)"
    using write_state_clean [OF wc(2)] by blast
  show ?thesis using assms(2,3) wc(3) w w2 by (simp add: sf_Create_def se_clean_simps [OF assms(1)] Let_def)
qed

interpretation fw: event_writer "\<lambda>env. sf_AppendEvent js (fst env)" "\<lambda>env x. sf_Create (fst env) (snd env) (Some x)" log_text
  "\<lambda>t e. t @ line_of js e" "''''" "\<lambda>env. se_clean (fst env)" "fits js"
proof (unfold_locales, goal_cases)
  case (1 env e i root t)
  then obtain d u where d: "map_of root i = Some d" and u: "js_marshal js e = Inr u"
    by (auto simp: log_text_def fits_def split: sum.splits)
  have "se_write (fst env) = None" using 1(1) by (simp add: se_clean_def)
  then have "fst (sf_AppendEvent js (fst env) i e root) = None"
    using 1(3) d u by (simp add: sf_AppendEvent_def se_clean_simps [OF 1(1)] Let_def)
  then obtain root' where a: "sf_AppendEvent js (fst env) i e root = (None, root')" by (metis prod.collapse)
  show ?case using append_log [OF a] 1(4) a by auto
next
  case (2 env e i root)
  then show ?case by (simp add: log_text_def sf_AppendEvent_def se_clean_simps [OF 2(1)])
next
  case (3 env x root)
  then have "map_of root (ss_ID x) = None" by (simp add: log_text_def)
  then have "fst (sf_Create (fst env) (snd env) (Some x) root) = None" by (rule create_succeeds [OF 3(1,2)])
  then obtain root' where c: "sf_Create (fst env) (snd env) (Some x) root = (None, root')" by (metis prod.collapse)
  have "se_removeall (fst env) = None" using 3(1) by (simp add: se_clean_def)
  from create_log [OF this c] show ?case using c by simp
qed

section \<open>No event is lost\<close>

definition offered :: "('d, 'e) hook_step list \<Rightarrow> 'd event list" where
  "offered st = List.map_filter (\<lambda>x. case x of Offer e \<Rightarrow> Some e | Consume env now \<Rightarrow> None) st"

lemma handle_frame [simp]:
  "hk_buf (handle a c now e h) = hk_buf h" "hk_cap (handle a c now e h) = hk_cap h"
  by (auto simp: handle_def warn_def Let_def split: prod.splits option.splits)

lemma consume_frame [simp]:
  "hk_cap (consume a c now h) = hk_cap h" "hk_buf (consume a c now h) = tl (hk_buf h)"
  by (auto simp: consume_def split: list.splits)

lemma offers_fit:
  assumes "hook_steps a c st h = (es, h')" and "length (hk_buf h) + length (offered st) \<le> hk_cap h"
  shows "es = offered st"
  using assms
proof (induction a c st h arbitrary: es rule: hook_steps.induct)
  case (2 a c e st h)
  then show ?case by (auto simp: offer_def offered_def map_filter_simps split: prod.splits)
next
  case (3 a c env now st h)
  then show ?case by (fastforce simp: offered_def map_filter_simps)
qed (simp add: offered_def map_filter_simps)


section \<open>A run of the hook\<close>

text \<open>Two producers' events for two sessions and one without a session; the last is still in the buffer.\<close>

definition event_of :: "string \<Rightarrow> string \<Rightarrow> nat event" where
  "event_of i ty = (typed ty)\<lparr>ev_SessionID := i\<rparr>"

definition hook_json :: "(nat, nat) json" where
  "hook_json =
     \<lparr>js_marshal = (\<lambda>e. if toEvent e = event_of (ev_SessionID e) (ev_Type e) \<and> CHR '':'' \<notin> set (ev_SessionID e) \<and>
           CHR 0x0A \<notin> set (ev_SessionID e @ ev_Type e)
         then Inr (ev_SessionID e @ '':'' @ ev_Type e @ ''}'') else Inl (ErrNew ''json: unsupported value'')),
      js_unmarshal = (\<lambda>t. Inr (event_of (takeWhile (\<lambda>c. c \<noteq> CHR '':'') t) (butlast (tl (dropWhile (\<lambda>c. c \<noteq> CHR '':'') t))))),
      js_value = id\<rparr>"

lemma hook_json_ok: "json_ok hook_json"
proof -
  have *: "takeWhile (\<lambda>c. c \<noteq> CHR '':'') (s @ CHR '':'' # t) = s" "dropWhile (\<lambda>c. c \<noteq> CHR '':'') (s @ CHR '':'' # t) = CHR '':'' # t"
    if "CHR '':'' \<notin> set s" for s t
    using that by (induction s) auto
  show ?thesis
    by (auto simp: json_ok_def hook_json_def * toEvent_def event_of_def typed_def split: if_splits)
qed

definition hook_run_steps :: "(nat, nat sf_env \<times> int) hook_step list" where
  "hook_run_steps = [Offer (event_of ''a'' ''x''), Offer (event_of ''b'' ''y''), Consume (quiet_io, 1) 7, Offer (event_of '''' ''z''),
     Consume (quiet_io, 2) 8, Offer (event_of ''a'' ''v''), Consume (quiet_io, 3) 9, Consume (quiet_io, 3) 9, Offer (event_of ''a'' ''w'')]"

theorem dispatch_exact_witness:
  "Dispatch (\<lambda>k. False) (typed ''x'')
     (Some \<lparr>hm_syncHooks = [\<lparr>sh_Filter = [''x''], sh_OnEvent = \<lambda>e n. (Some Canceled, n + (1 :: nat))\<rparr>,
                             \<lparr>sh_Filter = [''y''], sh_OnEvent = \<lambda>e n. (None, n + 10)\<rparr>,
                             \<lparr>sh_Filter = [], sh_OnEvent = \<lambda>e n. (None, n + 100)\<rparr>],
            hm_asyncHooks = [\<lparr>ah_Filter = [], ah_cap = 1, ah_buf = [], ah_closed = False\<rparr>,
                              \<lparr>ah_Filter = [], ah_cap = 1, ah_buf = [typed ''z''], ah_closed = False\<rparr>]\<rparr>) 0 =
   Some (Some \<lparr>hm_syncHooks = [\<lparr>sh_Filter = [''x''], sh_OnEvent = \<lambda>e n. (Some Canceled, n + 1)\<rparr>,
                             \<lparr>sh_Filter = [''y''], sh_OnEvent = \<lambda>e n. (None, n + 10)\<rparr>,
                             \<lparr>sh_Filter = [], sh_OnEvent = \<lambda>e n. (None, n + 100)\<rparr>],
            hm_asyncHooks = [\<lparr>ah_Filter = [], ah_cap = 1, ah_buf = [typed ''x''], ah_closed = False\<rparr>,
                              \<lparr>ah_Filter = [], ah_cap = 1, ah_buf = [typed ''z''], ah_closed = False\<rparr>]\<rparr>, 101)"
proof -
  have live: "\<forall>k. \<not> (\<lambda>k :: nat. False) k" by simp
  show ?thesis
    by (subst dispatch_exact [OF live]) (simp_all add: typed_def serve_async_def serve_sync_def matches_def)
qed

lemma hook_run_ends:
  "hook_steps (\<lambda>env. sf_AppendEvent hook_json (fst env)) (\<lambda>env x. sf_Create (fst env) (snd env) (Some x)) hook_run_steps
     (NewSessionHook None None ([] :: (nat, unit) session_root)) =
   ([event_of ''a'' ''x'', event_of ''b'' ''y'', event_of '''' ''z'', event_of ''a'' ''v'', event_of ''a'' ''w''],
    snd (hook_steps (\<lambda>env. sf_AppendEvent hook_json (fst env)) (\<lambda>env x. sf_Create (fst env) (snd env) (Some x)) hook_run_steps
     (NewSessionHook None None ([] :: (nat, unit) session_root))))"
    (is "?run = (?es, _)")
proof -
  have o: "offered hook_run_steps = ?es" by (simp add: offered_def hook_run_steps_def map_filter_simps)
  have "fst ?run = offered hook_run_steps"
    by (rule offers_fit [OF surjective_pairing]) (simp add: o NewSessionHook_def DefaultHookBufferSize_def)
  then have e: "fst ?run = ?es" by (rule trans) (rule o)
  show ?thesis by (rule trans [OF surjective_pairing arg_cong2 [where f = Pair, OF e refl]])
qed


end
