(* ===== verification/TaskParams.thy ===== *)
theory TaskParams
  imports Interrupt
begin

text \<open>
  The parameters of one run of the task agent (\<open>agent/taskagent/params.go\<close>, \<open>skill_inject.go\<close>): defaults of the
  agent overlaid with the options of the request, an optional resolver, validation, and the tool set that is
  frozen before the run starts. Temperatures are rationals; a nil pointer is \<open>None\<close>. The registry is what it
  lists and what it finds; a skill is the list of tools it allows.
\<close>

section \<open>Parameters\<close>

definition ErrInvalidRunParams :: go_error where
  "ErrInvalidRunParams = ErrNew ''vage: invalid run parameters''"

definition bad_params :: "string \<Rightarrow> go_error" where
  "bad_params f = Errorf f [] (Some ErrInvalidRunParams)"

text \<open>The tool modes are constants of the external contract package.\<close>

record tool_modes =
  ToolModeNone :: string
  ToolModeAllow :: string
  ToolModeAll :: string

type_synonym enabled_func = "string \<Rightarrow> go_error + bool"

text \<open>\<open>RunParams\<close>, what a resolver sees, and \<open>runParams\<close>, which adds two flags.\<close>

record run_params =
  rp_model :: string
  rp_temperature :: "rat option"
  rp_maxIter :: int
  rp_runTokenBudget :: int
  rp_maxTokens :: "int option"
  rp_toolMode :: string
  rp_toolFilter :: "string list"
  rp_stopSeq :: "string list"
  rp_subject :: string
  rp_enabledFunc :: "enabled_func option"

record frozen_params = run_params +
  rp_toolsFrozen :: bool
  rp_resolverTouched :: bool

definition exported :: "frozen_params \<Rightarrow> run_params" where
  "exported p = run_params.truncate p"

definition fromExported :: "run_params \<Rightarrow> bool \<Rightarrow> frozen_params" where
  "fromExported p touched = run_params.extend p (frozen_params.fields False touched)"

record run_limits =
  rl_MaxIterations :: "int option"
  rl_RunTokenBudget :: "int option"
  rl_MaxTokens :: "int option"

record run_options =
  ro_Model :: string
  ro_Temperature :: "rat option"
  ro_ToolMode :: string
  ro_Tools :: "string list"
  ro_StopSequences :: "string list"
  ro_Limits :: "run_limits option"
  ro_MaxIterations :: int
  ro_RunTokenBudget :: int
  ro_MaxTokens :: int

record agent_params =
  ap_model :: string
  ap_temperature :: "rat option"
  ap_maxIterations :: int
  ap_runTokenBudget :: int
  ap_maxTokens :: "int option"

section \<open>Merging\<close>

definition applyMaxIterations :: "int \<Rightarrow> int option \<Rightarrow> int \<Rightarrow> go_error + int" where
  "applyMaxIterations dst limit old =
     (case limit of
        Some n \<Rightarrow> if n \<le> 0 then Inl (bad_params ''%w: max_iterations must be positive'') else Inr n
      | None \<Rightarrow>
          (if old < 0 then Inl (bad_params ''%w: max_iterations must not be negative'')
           else if old > 0 then Inr old else Inr dst))"

definition applyRunTokenBudget :: "int \<Rightarrow> int option \<Rightarrow> int \<Rightarrow> go_error + int" where
  "applyRunTokenBudget dst limit old =
     (case limit of
        Some n \<Rightarrow> if n < 0 then Inl (bad_params ''%w: run_token_budget must not be negative'') else Inr n
      | None \<Rightarrow>
          (if old < 0 then Inl (bad_params ''%w: run_token_budget must not be negative'')
           else if old > 0 then Inr old else Inr dst))"

definition applyMaxTokens :: "int option \<Rightarrow> int option \<Rightarrow> int \<Rightarrow> go_error + int option" where
  "applyMaxTokens dst limit old =
     (case limit of
        Some n \<Rightarrow>
          (if n < 0 then Inl (bad_params ''%w: max_tokens must not be negative'')
           else if n = 0 then Inr None else Inr (Some n))
      | None \<Rightarrow>
          (if old < 0 then Inl (bad_params ''%w: max_tokens must not be negative'')
           else if old > 0 then Inr (Some old) else Inr dst))"

definition agent_defaults :: "agent_params \<Rightarrow> frozen_params" where
  "agent_defaults a =
     \<lparr>rp_model = ap_model a, rp_temperature = ap_temperature a, rp_maxIter = ap_maxIterations a,
      rp_runTokenBudget = ap_runTokenBudget a, rp_maxTokens = ap_maxTokens a, rp_toolMode = '''', rp_toolFilter = [],
      rp_stopSeq = [], rp_subject = '''', rp_enabledFunc = None, rp_toolsFrozen = False, rp_resolverTouched = False\<rparr>"

definition no_limits :: run_limits where
  "no_limits = \<lparr>rl_MaxIterations = None, rl_RunTokenBudget = None, rl_MaxTokens = None\<rparr>"

definition mergeRunParams :: "agent_params \<Rightarrow> run_options option \<Rightarrow> go_error + frozen_params" where
  "mergeRunParams a opts =
     (let p = agent_defaults a in
      case opts of None \<Rightarrow> Inr p
      | Some ops \<Rightarrow>
     (let p1 = (if ro_Model ops \<noteq> '''' then p\<lparr>rp_model := ro_Model ops\<rparr> else p);
          p2 = (if ro_Temperature ops \<noteq> None then p1\<lparr>rp_temperature := ro_Temperature ops\<rparr> else p1);
          p3 = p2\<lparr>rp_toolMode := ro_ToolMode ops, rp_toolFilter := ro_Tools ops, rp_stopSeq := ro_StopSequences ops\<rparr>;
          limits = (case ro_Limits ops of None \<Rightarrow> no_limits | Some l \<Rightarrow> l) in
      case applyMaxIterations (rp_maxIter p3) (rl_MaxIterations limits) (ro_MaxIterations ops) of Inl e \<Rightarrow> Inl e
      | Inr it \<Rightarrow>
     (case applyRunTokenBudget (rp_runTokenBudget p3) (rl_RunTokenBudget limits) (ro_RunTokenBudget ops) of Inl e \<Rightarrow> Inl e
      | Inr budget \<Rightarrow>
     (case applyMaxTokens (rp_maxTokens p3) (rl_MaxTokens limits) (ro_MaxTokens ops) of Inl e \<Rightarrow> Inl e
      | Inr mt \<Rightarrow> Inr (p3\<lparr>rp_maxIter := it, rp_runTokenBudget := budget, rp_maxTokens := mt\<rparr>)))))"

text \<open>
  \<open>resolveRunParams\<close> drops the error, and with it the merge: an error comes with the zero parameters.
\<close>

definition zero_params :: frozen_params where
  "zero_params =
     \<lparr>rp_model = '''', rp_temperature = None, rp_maxIter = 0, rp_runTokenBudget = 0, rp_maxTokens = None, rp_toolMode = '''',
      rp_toolFilter = [], rp_stopSeq = [], rp_subject = '''', rp_enabledFunc = None, rp_toolsFrozen = False, rp_resolverTouched = False\<rparr>"

definition resolveRunParams :: "agent_params \<Rightarrow> run_options option \<Rightarrow> frozen_params" where
  "resolveRunParams a opts = (case mergeRunParams a opts of Inl e \<Rightarrow> zero_params | Inr p \<Rightarrow> p)"

definition validateRunParams :: "tool_modes \<Rightarrow> frozen_params \<Rightarrow> go_error option" where
  "validateRunParams tm p =
     (if \<not> List.member ['''', ToolModeNone tm, ToolModeAllow tm, ToolModeAll tm] (rp_toolMode p)
      then Some (Errorf ''%w: unknown tool_mode %q'' [AStr (rp_toolMode p)] (Some ErrInvalidRunParams))
      else if rp_toolMode p = ToolModeAll tm \<and> length (rp_toolFilter p) > 0
      then Some (Errorf ''%w: tool_mode %q cannot carry a non-empty tools list'' [AStr (ToolModeAll tm)] (Some ErrInvalidRunParams))
      else if rp_maxIter p \<le> 0 then Some (bad_params ''%w: max_iterations must be positive'')
      else if (case rp_maxTokens p of None \<Rightarrow> False | Some n \<Rightarrow> n < 0) then Some (bad_params ''%w: max_tokens must not be negative'')
      else if rp_runTokenBudget p < 0 then Some (bad_params ''%w: run_token_budget must not be negative'')
      else None)"

section \<open>The tools of a run\<close>

record tool_names =
  tn_List :: "string list"
  tn_Get :: "string \<Rightarrow> bool"

text \<open>The union of what the skills allow, in order of first mention, unless one of them allows everything.\<close>

fun add_new :: "string list \<Rightarrow> string list \<Rightarrow> string list" where
  "add_new seen [] = seen"
| "add_new seen (t # ts) = add_new (if List.member seen t then seen else seen @ [t]) ts"

fun union_tools :: "string list list \<Rightarrow> string list \<Rightarrow> string list option" where
  "union_tools [] acc = Some acc"
| "union_tools (allowed # rest) acc = (if length allowed = 0 then None else union_tools rest (add_new acc allowed))"

text \<open>\<open>skillToolScope\<close>: the names, when the skills restrict them.\<close>

definition skillToolScope :: "string list list option \<Rightarrow> string list option" where
  "skillToolScope skills =
     (case skills of None \<Rightarrow> None
      | Some active \<Rightarrow> if length active = 0 then None else union_tools active [])"

definition registryToolNames :: "tool_names option \<Rightarrow> string list" where
  "registryToolNames reg = (case reg of None \<Rightarrow> [] | Some r \<Rightarrow> tn_List r)"

definition keepRegistered :: "tool_names option \<Rightarrow> string list \<Rightarrow> string list" where
  "keepRegistered reg names = (case reg of None \<Rightarrow> [] | Some r \<Rightarrow> filter (tn_Get r) names)"

text \<open>The names the predicate keeps, and those it excludes with an error, which are announced.\<close>

fun applyEnabledFunc :: "enabled_func option \<Rightarrow> string list \<Rightarrow> string list \<times> (string \<times> go_error) list" where
  "applyEnabledFunc None names = (names, [])"
| "applyEnabledFunc (Some f) [] = ([], [])"
| "applyEnabledFunc (Some f) (n # ns) =
     (case applyEnabledFunc (Some f) ns of (kept, excluded) \<Rightarrow>
       (case f n of Inl e \<Rightarrow> (kept, (n, e) # excluded)
        | Inr ok \<Rightarrow> (if ok then n # kept else kept, excluded)))"

text \<open>The restrictions, when they are on.\<close>

definition intersectNames :: "string list option \<Rightarrow> string list option \<Rightarrow> string list" where
  "intersectNames left right =
     (case left of
        None \<Rightarrow> (case right of None \<Rightarrow> [] | Some r \<Rightarrow> r)
      | Some l \<Rightarrow> (case right of None \<Rightarrow> l | Some r \<Rightarrow> filter (List.member r) l))"

fun unique_loop :: "string list \<Rightarrow> string list \<Rightarrow> string list" where
  "unique_loop out [] = out"
| "unique_loop out (n # ns) = (if n = '''' \<or> List.member out n then unique_loop out ns else unique_loop (out @ [n]) ns)"

definition uniqueSorted :: "string list \<Rightarrow> string list" where
  "uniqueSorted names = (if length names = 0 then [] else sort (unique_loop [] names))"

definition request_scope :: "tool_modes \<Rightarrow> frozen_params \<Rightarrow> string list option" where
  "request_scope tm p =
     (if rp_toolMode p = ToolModeAllow tm then Some (rp_toolFilter p)
      else if rp_toolMode p = ToolModeAll tm then None
      else if length (rp_toolFilter p) > 0 then Some (rp_toolFilter p) else None)"

definition freezeTools :: "tool_modes \<Rightarrow> tool_names option \<Rightarrow> string list list option \<Rightarrow> frozen_params
      \<Rightarrow> frozen_params \<times> (string \<times> go_error) list" where
  "freezeTools tm reg skills p =
     (let p1 = p\<lparr>rp_toolsFrozen := True\<rparr> in
      if rp_toolMode p1 = ToolModeNone tm then (p1\<lparr>rp_toolFilter := []\<rparr>, [])
      else
     (let req = request_scope tm p1; sk = skillToolScope skills;
          names = (if req = None \<and> sk = None then registryToolNames reg else keepRegistered reg (intersectNames req sk)) in
      case applyEnabledFunc (rp_enabledFunc p1) names of (kept, excluded) \<Rightarrow>
        (p1\<lparr>rp_toolFilter := uniqueSorted kept\<rparr>, excluded)))"

text \<open>\<open>FilterTools\<close> of the tool registry, on definitions with their names.\<close>

definition FilterTools :: "('t \<Rightarrow> string) \<Rightarrow> 't list \<Rightarrow> string list \<Rightarrow> 't list" where
  "FilterTools name defs names = (if length names = 0 then defs else filter (\<lambda>d. List.member names (name d)) defs)"

definition prepareAITools :: "string list option \<Rightarrow> string list \<Rightarrow> string list" where
  "prepareAITools defs flt = (case defs of None \<Rightarrow> [] | Some ds \<Rightarrow> FilterTools id ds flt)"

definition prepareFrozenAITools :: "string list option \<Rightarrow> string list \<Rightarrow> string list" where
  "prepareFrozenAITools defs names =
     (case defs of None \<Rightarrow> [] | Some ds \<Rightarrow> if length names = 0 then [] else FilterTools id ds names)"

definition mergeSkillToolFilter :: "string list list option \<Rightarrow> string list \<Rightarrow> string list" where
  "mergeSkillToolFilter skills requestFilter =
     (case skillToolScope skills of None \<Rightarrow> requestFilter
      | Some ts \<Rightarrow> if length requestFilter = 0 then ts else filter (List.member requestFilter) ts)"

definition toolsForRun :: "tool_names option \<Rightarrow> string list list option \<Rightarrow> frozen_params \<Rightarrow> string list" where
  "toolsForRun reg skills p =
     (let defs = map_option tn_List reg in
      if rp_toolsFrozen p then prepareFrozenAITools defs (rp_toolFilter p)
      else prepareAITools defs (mergeSkillToolFilter skills (rp_toolFilter p)))"

section \<open>A fresh run\<close>

text \<open>The names excluded by the predicate are returned for their events.\<close>

definition resolveFreshRun :: "tool_modes \<Rightarrow> tool_names option \<Rightarrow> string list list option \<Rightarrow> agent_params
      \<Rightarrow> (run_params \<Rightarrow> go_error + run_params) option \<Rightarrow> run_options option
      \<Rightarrow> go_error + frozen_params \<times> (string \<times> go_error) list" where
  "resolveFreshRun tm reg skills a resolver opts =
     (case mergeRunParams a opts of Inl e \<Rightarrow> Inl e
      | Inr p0 \<Rightarrow>
     (case (case resolver of None \<Rightarrow> Inr p0
            | Some f \<Rightarrow>
                (case f (exported p0) of Inl e \<Rightarrow> Inl (Errorf ''vage: param resolver: %w'' [] (Some e))
                 | Inr r \<Rightarrow> (let p = fromExported r True in
                     Inr (if rp_maxTokens p = Some 0 then p\<lparr>rp_maxTokens := None\<rparr> else p)))) of Inl e \<Rightarrow> Inl e
      | Inr p1 \<Rightarrow>
     (case validateRunParams tm p1 of Some e \<Rightarrow> Inl e
      | None \<Rightarrow> Inr (freezeTools tm reg skills p1))))"

section \<open>Snapshots\<close>

definition runParamsToEffective :: "frozen_params \<Rightarrow> EffectiveParams" where
  "runParamsToEffective p =
     \<lparr>ep_Model = rp_model p, ep_Temperature = rp_temperature p, ep_MaxIterations = rp_maxIter p,
      ep_RunTokenBudget = rp_runTokenBudget p, ep_MaxTokens = rp_maxTokens p, ep_ToolMode = rp_toolMode p,
      ep_ToolFilter = rp_toolFilter p, ep_StopSequences = rp_stopSeq p\<rparr>"

definition effectiveParamsToRunParams :: "EffectiveParams \<Rightarrow> frozen_params" where
  "effectiveParamsToRunParams ep =
     \<lparr>rp_model = ep_Model ep, rp_temperature = ep_Temperature ep, rp_maxIter = ep_MaxIterations ep,
      rp_runTokenBudget = ep_RunTokenBudget ep, rp_maxTokens = ep_MaxTokens ep, rp_toolMode = ep_ToolMode ep,
      rp_toolFilter = ep_ToolFilter ep, rp_stopSeq = ep_StopSequences ep, rp_subject = '''', rp_enabledFunc = None,
      rp_toolsFrozen = True, rp_resolverTouched = False\<rparr>"

section \<open>The frozen tool set\<close>

lemma unique_loop_set: "distinct out \<Longrightarrow> '''' \<notin> set out \<Longrightarrow>
    set (unique_loop out ns) = set out \<union> (set ns - {''''}) \<and> distinct (unique_loop out ns)"
  by (induction out ns rule: unique_loop.induct) auto

lemma uniqueSorted: "set (uniqueSorted ns) = set ns - {''''}" "distinct (uniqueSorted ns)" "sorted (uniqueSorted ns)"
  using unique_loop_set [of "[]" ns] by (auto simp: uniqueSorted_def)

lemma applyEnabledFunc_filter: "fst (applyEnabledFunc (Some g) ns) = filter (\<lambda>n. g n = Inr True) ns"
proof (induction ns)
  case (Cons n ns)
  then show ?case by (cases "applyEnabledFunc (Some g) ns"; cases "g n") simp_all
qed simp

lemma applyEnabledFunc_set:
  "set (fst (applyEnabledFunc f ns)) = {n \<in> set ns. case f of None \<Rightarrow> True | Some g \<Rightarrow> g n = Inr True}"
  by (cases f) (simp_all add: applyEnabledFunc_filter)

definition in_scope :: "string list option \<Rightarrow> string \<Rightarrow> bool" where
  "in_scope scope n \<longleftrightarrow> (case scope of None \<Rightarrow> True | Some ns \<Rightarrow> n \<in> set ns)"

lemma scope_names:
  assumes "\<forall>n. tn_Get r n = (n \<in> set (tn_List r))"
  shows "set (if req = None \<and> sk = None then registryToolNames (Some r) else keepRegistered (Some r) (intersectNames req sk)) =
     {n \<in> set (tn_List r). in_scope req n \<and> in_scope sk n}"
  using assms
  by (cases req; cases sk) (auto simp: registryToolNames_def keepRegistered_def intersectNames_def in_scope_def)


text \<open>The parameters of a fresh run satisfy the bounds that the loop relies on.\<close>

definition params_ok :: "tool_modes \<Rightarrow> frozen_params \<Rightarrow> bool" where
  "params_ok tm p \<longleftrightarrow> rp_maxIter p > 0 \<and> rp_runTokenBudget p \<ge> 0 \<and> rp_toolsFrozen p \<and>
     (case rp_maxTokens p of None \<Rightarrow> True | Some n \<Rightarrow> n \<ge> 0) \<and>
     rp_toolMode p \<in> {'''', ToolModeNone tm, ToolModeAllow tm, ToolModeAll tm}"

lemma freezeTools_frame:
  "freezeTools tm reg skills p = (p', ex) \<Longrightarrow> rp_maxIter p' = rp_maxIter p \<and> rp_runTokenBudget p' = rp_runTokenBudget p \<and>
     rp_maxTokens p' = rp_maxTokens p \<and> rp_toolMode p' = rp_toolMode p \<and> rp_toolsFrozen p'"
  by (auto simp: freezeTools_def Let_def split: if_splits prod.splits)

text \<open>
  A resolver cannot produce parameters that the run could not use: what a fresh run uses is always within the
  bounds, and anything else is an error before the run starts.
\<close>

lemma fresh_params_ok:
  assumes "resolveFreshRun tm reg skills a resolver opts = Inr (p, excluded)"
  shows "params_ok tm p"
proof -
  obtain p1 where v: "validateRunParams tm p1 = None" "freezeTools tm reg skills p1 = (p, excluded)"
    using assms by (auto simp: resolveFreshRun_def split: sum.splits option.splits)
  have "rp_maxIter p1 > 0 \<and> rp_runTokenBudget p1 \<ge> 0 \<and> (case rp_maxTokens p1 of None \<Rightarrow> True | Some n \<Rightarrow> n \<ge> 0) \<and>
      rp_toolMode p1 \<in> {'''', ToolModeNone tm, ToolModeAllow tm, ToolModeAll tm}"
    using v(1) by (auto simp: validateRunParams_def split: if_splits option.splits)
  then show ?thesis using freezeTools_frame [OF v(2)] by (auto simp: params_ok_def)
qed

text \<open>A suspended run gets its own parameters back.\<close>

lemma effective_roundtrip:
  assumes "rp_toolsFrozen p"
  shows "effectiveParamsToRunParams (runParamsToEffective p) = p\<lparr>rp_subject := '''', rp_enabledFunc := None, rp_resolverTouched := False\<rparr>"
  using assms by (simp add: effectiveParamsToRunParams_def runParamsToEffective_def)

section \<open>A concrete run\<close>

definition sample_modes :: tool_modes where
  "sample_modes = \<lparr>ToolModeNone = ''none'', ToolModeAllow = ''allow'', ToolModeAll = ''all''\<rparr>"

definition sample_tools :: tool_names where
  "sample_tools = \<lparr>tn_List = [''bash'', ''read'', ''web'', ''write''], tn_Get = (\<lambda>n. List.member [''bash'', ''read'', ''web'', ''write''] n)\<rparr>"

definition sample_params :: frozen_params where
  "sample_params = zero_params\<lparr>rp_maxIter := 5, rp_toolFilter := [''write'', ''read'', ''read'', ''mail'', ''bash''],
     rp_enabledFunc := Some (\<lambda>n. if n = ''bash'' then Inl Canceled else Inr True)\<rparr>"


end
