(* ===== verification/TaskAgent.thy ===== *)
theory TaskAgent
  imports TaskParams Guards Checkpoint
begin

text \<open>
  The task agent (\<open>agent/taskagent/\<close>): the tool batch (\<open>tool_batch.go\<close>), the guards at its three positions
  (\<open>guards.go\<close>), checkpoints (\<open>checkpoint.go\<close>), the suspension of a batch (\<open>interrupt.go\<close>) and the ReAct loop
  with its two modes (\<open>loop.go\<close>).

  An agent is a record of what it is configured with. The language model, the tools, the stores, the policy
  and the random owner names are functions on the world outside; the order in which concurrent handlers
  take effect is chosen by the world too. The world keeps a log of the requests sent to the model, of the
  handlers that ran (with what the context says about their approval), of the events dispatched and of the
  messages handed to session memory. Durations and time stamps of events are left out.
\<close>

section \<open>Messages, tools and the world\<close>

type_synonym toolcall = "string \<times> string \<times> string"

definition tc_ID :: "toolcall \<Rightarrow> string" where "tc_ID tc = fst tc"
definition tc_Name :: "toolcall \<Rightarrow> string" where "tc_Name tc = fst (snd tc)"
definition tc_Arguments :: "toolcall \<Rightarrow> string" where "tc_Arguments tc = snd (snd tc)"

record content_part =
  pt_Type :: string
  pt_Text :: string

record tool_result =
  tr_ToolCallID :: string
  tr_IsError :: bool
  tr_Content :: "content_part list"

datatype stop_reason = NoStop | StopComplete | StopBudgetExhausted | StopMaxIterations | StopInterrupted

text \<open>The functions of the external contract package that the agent uses.\<close>

record 'm schema_ops =
  mo_Zero :: 'm
  mo_Text :: "'m \<Rightarrow> string"
  mo_ToolCalls :: "'m \<Rightarrow> toolcall list"
  mo_IsUser :: "'m \<Rightarrow> bool"
  mo_SetText :: "string \<Rightarrow> 'm \<Rightarrow> 'm"
  mo_WithAgent :: "string \<Rightarrow> 'm \<Rightarrow> 'm"
  mo_NewAssistant :: "string \<Rightarrow> string \<Rightarrow> 'm"
  mo_NewToolResult :: "string \<Rightarrow> string \<Rightarrow> string \<Rightarrow> bool \<Rightarrow> 'm"
  mo_ErrorResult :: "string \<Rightarrow> string \<Rightarrow> tool_result"
  mo_TextResult :: "string \<Rightarrow> string \<Rightarrow> tool_result"
  mo_ResultText :: "tool_result \<Rightarrow> string"
  mo_Error :: "go_error \<Rightarrow> string"
  mo_StopReason :: "stop_reason \<Rightarrow> string"
  mo_FinishToolCalls :: string

record 'u usage_ops =
  us_Zero :: 'u
  us_Add :: "'u \<Rightarrow> 'u \<Rightarrow> 'u"
  us_Total :: "'u \<Rightarrow> int"

record 'm chat_request =
  cq_Model :: string
  cq_Messages :: "'m list"
  cq_Temperature :: "rat option"
  cq_MaxTokens :: "int option"
  cq_Stop :: "string list"
  cq_Tools :: "string list"
  cq_PromptCaching :: bool

record ('m, 'u) chat_response =
  cr_Message :: 'm
  cr_FinishReason :: string
  cr_Usage :: 'u

text \<open>A stream is what its receives answer until the end, the final usage if any, and what its chunks add up to.\<close>

record ('m, 'u) chat_stream =
  cs_recv :: "(go_error + string) list"
  cs_Usage :: "'u option"
  cs_Message :: 'm
  cs_FinishReason :: string

record interrupt_desc =
  de_InterruptID :: string
  de_Pending :: "toolcall list"

datatype agent_event =
    EvAgentStart | EvContextBuilt | EvIterationStart int | EvTextDelta string | EvLLMCallEnd string int
  | EvToolCallStart toolcall | EvToolCallEnd string string | EvToolResult string string tool_result
  | EvGuardCheck string string string string "string list" string string
  | EvCheckpointWritten string int int bool string nat int
  | EvInterruptCreated string int "string list" | EvInterruptDecisionStored string string bool | EvInterruptResumed string
  | EvToolExcluded string | EvParamsResolved nat
  | EvBudgetExhausted int int int bool | EvAgentEnd string stop_reason

record ('x, 'k, 'i, 'm) world =
  w_ext :: 'x
  w_cps :: 'k
  w_ints :: 'i
  w_events :: "(string \<times> agent_event) list"
  w_requests :: "'m chat_request list"
  w_ran :: "(toolcall \<times> bool) list"
  w_memory :: "(string \<times> int \<times> 'm) list"

definition dispatch :: "string \<Rightarrow> agent_event \<Rightarrow> ('x, 'k, 'i, 'm) world \<Rightarrow> ('x, 'k, 'i, 'm) world" where
  "dispatch sid ev w = w\<lparr>w_events := w_events w @ [(sid, ev)]\<rparr>"

section \<open>The token budget\<close>

record tracker =
  bt_budget :: int
  bt_consumed :: int

definition newBudgetTracker :: "int \<Rightarrow> tracker" where
  "newBudgetTracker budget = \<lparr>bt_budget = budget, bt_consumed = 0\<rparr>"

definition newBudgetTrackerAt :: "int \<Rightarrow> int \<Rightarrow> tracker" where
  "newBudgetTrackerAt budget consumed = \<lparr>bt_budget = budget, bt_consumed = consumed\<rparr>"

definition Exhausted :: "tracker \<Rightarrow> bool" where
  "Exhausted t \<longleftrightarrow> (if bt_budget t \<le> 0 then False else bt_consumed t \<ge> bt_budget t)"

definition Add_tokens :: "int \<Rightarrow> tracker \<Rightarrow> tracker" where
  "Add_tokens n t = t\<lparr>bt_consumed := bt_consumed t + n\<rparr>"

definition Remaining :: "tracker \<Rightarrow> int" where
  "Remaining t =
     (if bt_budget t \<le> 0 then -1 else let r = bt_budget t - bt_consumed t in if r < 0 then 0 else r)"

section \<open>The agent\<close>

record ('m, 'u) run_context =
  rc_sessionID :: string
  rc_tracker :: tracker
  rc_totalUsage :: 'u
  rc_messages :: "'m list"
  rc_sessionMsgCount :: int
  rc_reqMsgs :: "'m list"
  rc_lastMsg :: 'm
  rc_iteration :: int
  rc_estimated :: bool
  rc_reactRan :: bool
  rc_stopReason :: stop_reason
  rc_interruptDesc :: "interrupt_desc option"

record 'm task_request =
  tq_Messages :: "'m list"
  tq_SessionID :: string
  tq_Options :: "run_options option"
  tq_Metadata :: "(string \<times> meta_value) list"

record ('m, 'u) task_response =
  te_Messages :: "'m list"
  te_SessionID :: string
  te_Usage :: "'u option"
  te_StopReason :: stop_reason
  te_Interrupt :: "interrupt_desc option"

type_synonym ('m, 'u) suspended = "('m, 'u, string \<times> string) irecord"

record ('k, 'm, 'u) iter_store =
  is_Save :: "('m, 'u) checkpoint \<Rightarrow> 'k \<Rightarrow> (go_error + ('m, 'u) checkpoint) \<times> 'k"
  is_Load :: "string \<Rightarrow> string \<Rightarrow> 'k \<Rightarrow> (go_error + ('m, 'u) checkpoint) \<times> 'k"

record ('i, 'm, 'u) int_store =
  st_Create :: "('m, 'u) suspended \<Rightarrow> 'i \<Rightarrow> (go_error + ('m, 'u) suspended) \<times> 'i"
  st_Get :: "string \<Rightarrow> 'i \<Rightarrow> (go_error + ('m, 'u) suspended) \<times> 'i"
  st_Submit :: "string \<Rightarrow> decision list \<Rightarrow> 'i \<Rightarrow> (('m, 'u) suspended option \<times> string list \<times> go_error option) \<times> 'i"
  st_Acquire :: "string \<Rightarrow> string \<Rightarrow> int \<Rightarrow> 'i \<Rightarrow> (go_error + ('m, 'u) suspended) \<times> 'i"
  st_Release :: "string \<Rightarrow> string \<Rightarrow> 'i \<Rightarrow> go_error option \<times> 'i"
  st_Complete :: "string \<Rightarrow> string \<Rightarrow> 'i \<Rightarrow> go_error option \<times> 'i"
  st_List :: "string \<Rightarrow> 'i \<Rightarrow> (go_error + imeta list) \<times> 'i"

text \<open>A policy, and whether it is the marker \<open>interruptBothSources\<close>.\<close>

record 'x int_policy =
  po_Intercept :: "'x \<Rightarrow> string \<Rightarrow> toolcall list \<Rightarrow> string list"
  po_Witness :: "('x \<Rightarrow> string \<Rightarrow> toolcall list \<Rightarrow> PolicySnapshot) option"
  po_BothSources :: bool

record 'x registry =
  rg_names :: tool_names
  rg_Execute :: "call_ctx option \<Rightarrow> string \<Rightarrow> string \<Rightarrow> 'x \<Rightarrow> (go_error + tool_result) \<times> 'x"

type_synonym ('x, 'k, 'i, 'm, 'u) run_func =
  "'m task_request \<Rightarrow> ('m, 'u) run_context \<times> ('x, 'k, 'i, 'm) world
     \<Rightarrow> (go_error + ('m, 'u) task_response option) \<times> ('m, 'u) run_context \<times> ('x, 'k, 'i, 'm) world"

text \<open>
  \<open>ag_ctxErr x k\<close> is what the context answers at the \<open>k\<close>-th poll of a guard chain, \<open>ag_schedule x n\<close> the order in
  which \<open>n\<close> concurrent handlers take effect, \<open>ag_build\<close> the context builder.
\<close>

record ('x, 'k, 'i, 'm, 'u) agent =
  ag_ID :: string
  ag_Protocol :: string
  ag_ops :: "'m schema_ops"
  ag_usage :: "'u usage_ops"
  ag_hasCaller :: bool
  ag_call :: "'m chat_request \<Rightarrow> 'x \<Rightarrow> (go_error + ('m, 'u) chat_response) \<times> 'x"
  ag_callStream :: "'m chat_request \<Rightarrow> 'x \<Rightarrow> (go_error + ('m, 'u) chat_stream) \<times> 'x"
  ag_toolRegistry :: "'x registry option"
  ag_hasMemory :: bool
  ag_inputGuards :: "guard list"
  ag_outputGuards :: "guard list"
  ag_toolResultGuards :: "(guard \<times> injection_guard option) list"
  ag_ctxErr :: "'x \<Rightarrow> nat \<Rightarrow> go_error option"
  ag_maxParallelToolCalls :: int
  ag_schedule :: "'x \<Rightarrow> nat \<Rightarrow> nat list"
  ag_returnDirectTools :: "string list"
  ag_promptCaching :: bool
  ag_iterationStore :: "('k, 'm, 'u) iter_store option"
  ag_interruptStore :: "('i, 'm, 'u) int_store option"
  ag_interruptPolicy :: "'x int_policy option"
  ag_interruptLeaseTTL :: int
  ag_newOwner :: "'x \<Rightarrow> string \<times> 'x"
  ag_checkpointFailureCB :: "(string \<Rightarrow> go_error \<Rightarrow> 'x \<Rightarrow> 'x) option"
  ag_params :: agent_params
  ag_modes :: tool_modes
  ag_skills :: "string \<Rightarrow> string list list option"
  ag_paramResolver :: "(run_params \<Rightarrow> go_error + run_params) option"
  ag_build :: "'m task_request \<Rightarrow> string list \<Rightarrow> 'x \<Rightarrow> (go_error + 'm list \<times> int) \<times> 'x"
  ag_middlewares :: "(('x, 'k, 'i, 'm, 'u) run_func \<Rightarrow> ('x, 'k, 'i, 'm, 'u) run_func) option list"

definition defaultMaxParallelToolCalls :: int where "defaultMaxParallelToolCalls = 4"

text \<open>A nil dereference, which is a panic in the code, as an error value.\<close>

definition nil_dereference :: go_error where
  "nil_dereference = ErrNew ''runtime error: invalid memory address or nil pointer dereference''"

section \<open>Guards\<close>

definition BlockedError :: "guard_result \<Rightarrow> go_error" where
  "BlockedError r = Errorf ''blocked by %s: %s'' [AStr (gr_GuardName r), AStr (gr_Reason r)] None"

text \<open>\<open>runInputGuards\<close>: the last message of the user is checked, and rewritten in place.\<close>

definition runInputGuards :: "('x, 'k, 'i, 'm, 'u) agent \<Rightarrow> 'm task_request \<Rightarrow> 'x \<Rightarrow> go_error + 'm task_request" where
  "runInputGuards ag req x =
     (let ms = tq_Messages req in
      if length (ag_inputGuards ag) = 0 \<or> length ms = 0 then Inr req
      else case find_first (\<lambda>i. mo_IsUser (ag_ops ag) (ms ! i)) (rev [0..<length ms]) of None \<Rightarrow> Inr req
      | Some idx \<Rightarrow>
     (case RunGuards (ag_ctxErr ag x)
        \<lparr>gm_Direction = DirectionInput, gm_Content = mo_Text (ag_ops ag) (ms ! idx), gm_AgentID = ag_ID ag,
         gm_SessionID = tq_SessionID req, gm_Metadata = tq_Metadata req\<rparr> (ag_inputGuards ag) of (r, msg) \<Rightarrow>
     (case r of Inl e \<Rightarrow> Inl e
      | Inr res \<Rightarrow>
          (if gr_Action res = ActionBlock then Inl (BlockedError res)
           else if gr_Action res = ActionRewrite
           then Inr (req\<lparr>tq_Messages := ms[idx := mo_SetText (ag_ops ag) (gm_Content msg) (ms ! idx)]\<rparr>)
           else Inr req))))"

definition runOutputGuards :: "('x, 'k, 'i, 'm, 'u) agent \<Rightarrow> string \<Rightarrow> 'm list \<Rightarrow> 'x \<Rightarrow> go_error + 'm list" where
  "runOutputGuards ag sid ms x =
     (case ms of [] \<Rightarrow> Inr ms
      | m # rest \<Rightarrow>
     (if length (ag_outputGuards ag) = 0 then Inr ms
      else case RunGuards (ag_ctxErr ag x)
        \<lparr>gm_Direction = DirectionOutput, gm_Content = mo_Text (ag_ops ag) m, gm_AgentID = ag_ID ag,
         gm_SessionID = sid, gm_Metadata = []\<rparr> (ag_outputGuards ag) of (r, msg) \<Rightarrow>
     (case r of Inl e \<Rightarrow> Inl e
      | Inr res \<Rightarrow>
          (if gr_Action res = ActionBlock then Inl (BlockedError res)
           else if gr_Action res = ActionRewrite then Inr (mo_SetText (ag_ops ag) (gm_Content msg) m # rest)
           else Inr ms))))"

text \<open>A byte that is not a continuation byte of UTF-8.\<close>

definition rune_start :: "char \<Rightarrow> bool" where
  "rune_start c \<longleftrightarrow> (of_char c :: nat) div 64 \<noteq> 2"

fun snippet_end :: "string \<Rightarrow> nat \<Rightarrow> nat \<Rightarrow> nat" where
  "snippet_end s mx 0 = 0"
| "snippet_end s mx (Suc e) =
     (if int (Suc e) > int mx - 4 \<and> \<not> rune_start (s ! Suc e) then snippet_end s mx e else Suc e)"

definition safeSnippet :: "string \<Rightarrow> nat \<Rightarrow> string" where
  "safeSnippet s mx = (if length s \<le> mx then s else take (snippet_end s mx mx) s @ ''...'')"

definition maxToolResultSeverity :: "('x, 'k, 'i, 'm, 'u) agent \<Rightarrow> string list \<Rightarrow> string" where
  "maxToolResultSeverity ag hits =
     (let mx = fold (\<lambda>g mx. case snd g of None \<Rightarrow> mx | Some ig \<Rightarrow> if MaxSeverity ig hits > mx then MaxSeverity ig hits else mx)
        (ag_toolResultGuards ag) 0 in
      if mx = 0 then '''' else severity_name mx)"

definition buildGuardCheckEvent :: "toolcall \<Rightarrow> string \<Rightarrow> string \<Rightarrow> string \<Rightarrow> string list \<Rightarrow> string \<Rightarrow> agent_event" where
  "buildGuardCheckEvent tc content guardName action hits severity =
     EvGuardCheck guardName (tc_ID tc) (tc_Name tc) action hits severity (safeSnippet content 200)"

text \<open>\<open>runToolResultGuards\<close>: the result the model will see, and the event of the check.\<close>

definition runToolResultGuards :: "('x, 'k, 'i, 'm, 'u) agent \<Rightarrow> string \<Rightarrow> toolcall \<Rightarrow> tool_result \<Rightarrow> 'x
      \<Rightarrow> tool_result \<times> agent_event option" where
  "runToolResultGuards ag sid tc result x =
     (if length (ag_toolResultGuards ag) = 0 \<or> tr_IsError result then (result, None)
      else case find_first (\<lambda>i. pt_Type (tr_Content result ! i) = ''text'') [0..<length (tr_Content result)] of None \<Rightarrow> (result, None)
      | Some idx \<Rightarrow>
     (let content = pt_Text (tr_Content result ! idx) in
      if content = '''' then (result, None)
      else case fst (RunGuards (ag_ctxErr ag x)
        \<lparr>gm_Direction = DirectionToolResult, gm_Content = content, gm_AgentID = ag_ID ag, gm_SessionID = sid,
         gm_Metadata = [(MetaToolCallID, MString (tc_ID tc)), (MetaToolName, MString (tc_Name tc))]\<rparr> (map fst (ag_toolResultGuards ag))) of
        Inl e \<Rightarrow> (mo_ErrorResult (ag_ops ag) (tc_ID tc) (''tool result guard error: '' @ mo_Error (ag_ops ag) e),
                  Some (buildGuardCheckEvent tc content ''tool_result_injection'' ''error'' [] ''''))
      | Inr g \<Rightarrow>
     (let check = (\<lambda>action. Some (buildGuardCheckEvent tc content (gr_GuardName g) action (gr_Violations g)
            (maxToolResultSeverity ag (gr_Violations g)))) in
      if gr_Action g = ActionPass
      then (if length (gr_Violations g) = 0 then (result, None) else (result, check ''log''))
      else if gr_Action g = ActionRewrite
      then (result\<lparr>tr_Content := (tr_Content result)[idx := (tr_Content result ! idx)\<lparr>pt_Text := gr_Content g\<rparr>]\<rparr>, check ''rewrite'')
      else if gr_Action g = ActionBlock
      then (mo_ErrorResult (ag_ops ag) (tc_ID tc)
              (''blocked by '' @ gr_GuardName g @ '': '' @ (if gr_Reason g = '''' then ''tool result blocked'' else gr_Reason g)),
            check ''block'')
      else (result, None))))"

section \<open>The tool batch\<close>

type_synonym ('x, 'k, 'i, 'm) sink = "agent_event \<Rightarrow> ('x, 'k, 'i, 'm) world \<Rightarrow> go_error option \<times> ('x, 'k, 'i, 'm) world"

definition executeToolCall :: "('x, 'k, 'i, 'm, 'u) agent \<Rightarrow> call_ctx \<Rightarrow> toolcall \<Rightarrow> ('x, 'k, 'i, 'm) world
      \<Rightarrow> tool_result \<times> ('x, 'k, 'i, 'm) world" where
  "executeToolCall ag ctx tc w =
     (let ctx' = WithExecutingCall (Some ctx) (tc_ID tc) in
      case ag_toolRegistry ag of
        None \<Rightarrow> (mo_ErrorResult (ag_ops ag) (tc_ID tc)
                   (mo_Error (ag_ops ag) (Errorf ''tool %q: no registry configured'' [AStr (tc_Name tc)] None)), w)
      | Some rg \<Rightarrow>
     (case rg_Execute rg (Some ctx') (tc_Name tc) (tc_Arguments tc) (w_ext w) of (r, x) \<Rightarrow>
       (case r of Inl e \<Rightarrow> mo_ErrorResult (ag_ops ag) (tc_ID tc) (mo_Error (ag_ops ag) e)
        | Inr tr \<Rightarrow> tr\<lparr>tr_ToolCallID := tc_ID tc\<rparr>,
        w\<lparr>w_ext := x, w_ran := w_ran w @ [(tc, IsApprovedCall (Some ctx') (ExecutingCallID (Some ctx')))]\<rparr>)))"

fun emit_all :: "('x, 'k, 'i, 'm) sink \<Rightarrow> agent_event list \<Rightarrow> ('x, 'k, 'i, 'm) world \<Rightarrow> go_error option \<times> ('x, 'k, 'i, 'm) world" where
  "emit_all sink [] w = (None, w)"
| "emit_all sink (ev # evs) w =
     (case sink ev w of (Some e, w1) \<Rightarrow> (Some e, w1) | (None, w1) \<Rightarrow> emit_all sink evs w1)"

text \<open>
  An order in which the handlers can take effect: handler \<open>i\<close> is started once fewer than \<open>cap\<close> of the ones
  before it are still running, so the \<open>k\<close>-th to take effect is among the first \<open>k + cap\<close>.
\<close>

definition schedule_ok :: "nat \<Rightarrow> nat \<Rightarrow> nat list \<Rightarrow> bool" where
  "schedule_ok cap n order \<longleftrightarrow>
     sort order = [0..<n] \<and> list_all (\<lambda>(k, i). i < k + cap) (zip [0..<length order] order)"

fun run_handlers :: "('x, 'k, 'i, 'm, 'u) agent \<Rightarrow> call_ctx \<Rightarrow> toolcall list \<Rightarrow> nat list \<Rightarrow> tool_result list \<Rightarrow> ('x, 'k, 'i, 'm) world
      \<Rightarrow> tool_result list \<times> ('x, 'k, 'i, 'm) world" where
  "run_handlers ag ctx calls [] results w = (results, w)"
| "run_handlers ag ctx calls (i # is) results w =
     (case executeToolCall ag ctx (calls ! i) w of (r, w1) \<Rightarrow> run_handlers ag ctx calls is (results[i := r]) w1)"

fun finish_calls :: "('x, 'k, 'i, 'm, 'u) agent \<Rightarrow> string \<Rightarrow> bool \<Rightarrow> ('x, 'k, 'i, 'm) sink \<Rightarrow> (toolcall \<times> tool_result) list
      \<Rightarrow> ('x, 'k, 'i, 'm) world \<Rightarrow> (go_error + 'm list \<times> tool_result list) \<times> ('x, 'k, 'i, 'm) world" where
  "finish_calls ag sid emitResult sink [] w = (Inr ([], []), w)"
| "finish_calls ag sid emitResult sink ((tc, r) # rest) w =
     (case sink (EvToolCallEnd (tc_ID tc) (tc_Name tc)) w of (Some e, w1) \<Rightarrow> (Inl e, w1)
      | (None, w1) \<Rightarrow>
     (case runToolResultGuards ag sid tc r (w_ext w1) of (res, evt) \<Rightarrow>
     (case (case evt of None \<Rightarrow> (None, w1) | Some ev \<Rightarrow> sink ev w1) of (Some e, w2) \<Rightarrow> (Inl e, w2)
      | (None, w2) \<Rightarrow>
     (case (if emitResult then sink (EvToolResult (tc_ID tc) (tc_Name tc) res) w2 else (None, w2)) of (Some e, w3) \<Rightarrow> (Inl e, w3)
      | (None, w3) \<Rightarrow>
     (case finish_calls ag sid emitResult sink rest w3 of (Inl e, w4) \<Rightarrow> (Inl e, w4)
      | (Inr (msgs, rs), w4) \<Rightarrow>
          (Inr (mo_NewToolResult (ag_ops ag) (ag_Protocol ag) (tr_ToolCallID res) (mo_ResultText (ag_ops ag) res) (tr_IsError res) # msgs,
                res # rs), w4))))))"

definition zero_result :: tool_result where
  "zero_result = \<lparr>tr_ToolCallID = '''', tr_IsError = False, tr_Content = []\<rparr>"

definition parallel_cap :: "('x, 'k, 'i, 'm, 'u) agent \<Rightarrow> nat" where
  "parallel_cap ag = nat (if ag_maxParallelToolCalls ag \<le> 0 then defaultMaxParallelToolCalls else ag_maxParallelToolCalls ag)"

definition executeToolBatch :: "('x, 'k, 'i, 'm, 'u) agent \<Rightarrow> call_ctx \<Rightarrow> string \<Rightarrow> toolcall list \<Rightarrow> bool \<Rightarrow> ('x, 'k, 'i, 'm) sink
      \<Rightarrow> ('x, 'k, 'i, 'm) world \<Rightarrow> (go_error + 'm list \<times> tool_result list) \<times> ('x, 'k, 'i, 'm) world" where
  "executeToolBatch ag ctx sid calls emitResult sink w =
     (let n = length calls in
      if n = 0 then (Inr ([], []), w)
      else case emit_all sink (map EvToolCallStart calls) w of (Some e, w1) \<Rightarrow> (Inl e, w1)
      | (None, w1) \<Rightarrow>
     (let order = (if n = 1 \<or> parallel_cap ag \<le> 1 then [0..<n] else ag_schedule ag (w_ext w1) n) in
      case run_handlers ag ctx calls order (replicate n zero_result) w1 of (results, w2) \<Rightarrow>
        finish_calls ag sid emitResult sink (zip calls results) w2))"

text \<open>The first call in the order of the model that is configured for direct return and succeeded.\<close>

fun returnDirectResult :: "('x, 'k, 'i, 'm, 'u) agent \<Rightarrow> toolcall list \<Rightarrow> tool_result list \<Rightarrow> tool_result option" where
  "returnDirectResult ag [] rs = None"
| "returnDirectResult ag (tc # tcs) [] = None"
| "returnDirectResult ag (tc # tcs) (r # rs) =
     (if \<not> List.member (ag_returnDirectTools ag) (tc_Name tc) \<or> tr_IsError r then returnDirectResult ag tcs rs else Some r)"

section \<open>Checkpoints\<close>

definition saveIterationCheckpoint :: "('x, 'k, 'i, 'm, 'u) agent \<Rightarrow> ('m, 'u) run_context \<Rightarrow> 'm list \<Rightarrow> bool \<Rightarrow> stop_reason
      \<Rightarrow> ('x, 'k, 'i, 'm) world \<Rightarrow> ('x, 'k, 'i, 'm) world" where
  "saveIterationCheckpoint ag rc messages final stop w =
     (case ag_iterationStore ag of None \<Rightarrow> w
      | Some st \<Rightarrow>
     (let cp = \<lparr>cp_ID = '''', cp_Sequence = 0, cp_SessionID = rc_sessionID rc, cp_AgentID = ag_ID ag,
          cp_Iteration = rc_iteration rc, cp_Final = final,
          cp_StopReason = (if final then mo_StopReason (ag_ops ag) stop else ''''), cp_Messages = messages,
          cp_SessionMsgCount = rc_sessionMsgCount rc, cp_Usage = rc_totalUsage rc, cp_Estimated = rc_estimated rc,
          cp_CreatedAt = 0\<rparr> in
      case is_Save st cp (w_cps w) of (r, k) \<Rightarrow>
     (let w1 = w\<lparr>w_cps := k\<rparr> in
      case r of
        Inl e \<Rightarrow> (case ag_checkpointFailureCB ag of None \<Rightarrow> w1 | Some cb \<Rightarrow> w1\<lparr>w_ext := cb (rc_sessionID rc) e (w_ext w1)\<rparr>)
      | Inr cp' \<Rightarrow> dispatch (rc_sessionID rc)
          (EvCheckpointWritten (cp_ID cp') (cp_Sequence cp') (cp_Iteration cp') (cp_Final cp') (cp_StopReason cp')
             (length (cp_Messages cp')) (us_Total (ag_usage ag) (cp_Usage cp'))) w1)))"

section \<open>Suspending a batch\<close>

definition ErrInterruptConfig :: go_error where
  "ErrInterruptConfig = ErrNew ''vage: WithInterruptStore and WithInterruptPolicy must both be configured, or neither''"

definition ErrInterruptPolicyDrift :: go_error where
  "ErrInterruptPolicyDrift = ErrNew ''vage: interrupt policy fingerprint does not match the frozen record''"

definition checkInterruptConfig :: "('x, 'k, 'i, 'm, 'u) agent \<Rightarrow> go_error option" where
  "checkInterruptConfig ag =
     (case (ag_interruptStore ag, ag_interruptPolicy ag) of
        (None, None) \<Rightarrow> None
      | (store, policy) \<Rightarrow>
          (if (case policy of None \<Rightarrow> False | Some p \<Rightarrow> po_BothSources p)
           then Some (Errorf ''%w: both InterruptPolicy and ToolNames are set; choose one policy source'' [] (Some ErrInterruptConfig))
           else if store = None
           then Some (Errorf ''%w: InterruptPolicy configured without InterruptStore'' [] (Some ErrInterruptConfig))
           else if policy = None
           then Some (Errorf ''%w: InterruptStore configured without InterruptPolicy'' [] (Some ErrInterruptConfig))
           else None))"

fun addressable_loop :: "string list \<Rightarrow> toolcall list \<Rightarrow> go_error option" where
  "addressable_loop seen [] = None"
| "addressable_loop seen (tc # tcs) =
     (if tc_ID tc = '''' then Some (Errorf ''tool call %q has an empty id'' [AStr (tc_Name tc)] None)
      else if List.member seen (tc_ID tc) then Some (Errorf ''duplicate tool call id %q'' [AStr (tc_ID tc)] None)
      else addressable_loop (tc_ID tc # seen) tcs)"

definition validateBatchAddressable :: "toolcall list \<Rightarrow> go_error option" where
  "validateBatchAddressable calls = addressable_loop [] calls"

text \<open>The loop of \<open>validatePendingSubset\<close> is the one of the interrupt store.\<close>

definition validatePendingSubset :: "toolcall list \<Rightarrow> string list \<Rightarrow> go_error option" where
  "validatePendingSubset calls pending = check_pending (map tc_ID calls) [] pending"

fun assessments :: "(string \<times> bool) list \<Rightarrow> CallAssessment list \<Rightarrow> go_error + (string \<times> bool) list" where
  "assessments known [] = Inr known"
| "assessments known (c # cs) =
     (if ca_ToolCallID c = '''' then Inl (Interrupt.invalid ''%w: assessment id is empty'' [])
      else if map_of known (ca_ToolCallID c) \<noteq> None
      then Inl (Interrupt.invalid ''%w: duplicate assessment %q'' [AStr (ca_ToolCallID c)])
      else assessments ((ca_ToolCallID c, ca_Flagged c) # known) cs)"

fun count_flagged :: "(string \<times> bool) list \<Rightarrow> string list \<Rightarrow> nat \<Rightarrow> toolcall list \<Rightarrow> go_error + nat" where
  "count_flagged known pending n [] = Inr n"
| "count_flagged known pending n (tc # tcs) =
     (case map_of known (tc_ID tc) of
        None \<Rightarrow> Inl (Interrupt.invalid ''%w: missing assessment for %q'' [AStr (tc_ID tc)])
      | Some flagged \<Rightarrow>
          (if flagged \<noteq> List.member pending (tc_ID tc)
           then Inl (Interrupt.invalid ''%w: witness flagged set does not match intercept'' [])
           else count_flagged known pending (if flagged then Suc n else n) tcs))"

definition consistentAssessments :: "toolcall list \<Rightarrow> string list \<Rightarrow> PolicySnapshot \<Rightarrow> go_error option" where
  "consistentAssessments calls pending snap =
     (case validatePendingSubset calls pending of Some e \<Rightarrow> Some e
      | None \<Rightarrow>
     (case assessments [] (ps_Calls snap) of Inl e \<Rightarrow> Some e
      | Inr known \<Rightarrow>
     (if length known \<noteq> length calls then Some (Interrupt.invalid ''%w: assessments do not cover the tool batch'' [])
      else case count_flagged known pending 0 calls of Inl e \<Rightarrow> Some e
      | Inr n \<Rightarrow>
          (if n \<noteq> length (remdups pending)
           then Some (Interrupt.invalid ''%w: witness flagged set does not match intercept'' []) else None))))"

text \<open>The calls that still wait for a decision, in the order of the batch.\<close>

definition interruptDescriptorFromRecord :: "('m, 'u) suspended \<Rightarrow> interrupt_desc" where
  "interruptDescriptorFromRecord r =
     \<lparr>de_InterruptID = ir_ID r,
      de_Pending = filter (\<lambda>tc. List.member (ir_Pending r) (tc_ID tc) \<and> ir_Decisions r (tc_ID tc) = None) (ir_ToolCalls r)\<rparr>"

definition interruptCreatedEvent :: "int \<Rightarrow> interrupt_desc option \<Rightarrow> agent_event" where
  "interruptCreatedEvent iter desc =
     (case desc of None \<Rightarrow> EvInterruptCreated '''' iter []
      | Some d \<Rightarrow> EvInterruptCreated (de_InterruptID d) iter (map tc_ID (de_Pending d)))"

definition no_snapshot :: PolicySnapshot where
  "no_snapshot = \<lparr>ps_Fingerprint = '''', ps_Calls = []\<rparr>"

text \<open>The record of a suspension; the fields that the store assigns are zero.\<close>

definition suspended_record :: "('x, 'k, 'i, 'm, 'u) agent \<Rightarrow> ('m, 'u) run_context \<Rightarrow> frozen_params \<Rightarrow> 'm list \<Rightarrow> toolcall list
      \<Rightarrow> string list \<Rightarrow> PolicySnapshot \<Rightarrow> ('m, 'u) suspended" where
  "suspended_record ag rc p continuation calls pending snap =
     \<lparr>ir_Version = 0, ir_ID = '''', ir_SessionID = rc_sessionID rc, ir_AgentID = ag_ID ag, ir_Protocol = ag_Protocol ag,
      ir_ToolCalls = calls, ir_Pending = pending, ir_Decisions = Map.empty, ir_Messages = continuation,
      ir_SessionMsgCount = rc_sessionMsgCount rc + int (length (rc_reqMsgs rc)), ir_Params = runParamsToEffective p,
      ir_Iteration = rc_iteration rc, ir_Usage = rc_totalUsage rc, ir_Estimated = rc_estimated rc,
      ir_TokensConsumed = bt_consumed (rc_tracker rc), ir_Policy = snap, ir_Supersedes = '''', ir_Status = StatusPending,
      ir_Revision = 0, ir_LeaseOwner = '''', ir_LeaseExpiresAt = 0, ir_CreatedAt = 0, ir_UpdatedAt = 0\<rparr>"

definition maybeInterrupt :: "('x, 'k, 'i, 'm, 'u) agent \<Rightarrow> 'x int_policy \<Rightarrow> ('m, 'u) run_context \<Rightarrow> frozen_params \<Rightarrow> 'm list
      \<Rightarrow> toolcall list \<Rightarrow> ('x, 'k, 'i, 'm) world \<Rightarrow> (go_error + interrupt_desc option) \<times> ('x, 'k, 'i, 'm) world" where
  "maybeInterrupt ag pol rc p continuation calls w =
     (let pending = po_Intercept pol (w_ext w) (rc_sessionID rc) calls;
          snap = (case po_Witness pol of None \<Rightarrow> no_snapshot | Some f \<Rightarrow> f (w_ext w) (rc_sessionID rc) calls) in
      case (case po_Witness pol of None \<Rightarrow> None | Some f \<Rightarrow> consistentAssessments calls pending snap) of
        Some e \<Rightarrow> (Inl (Errorf ''%w: %s'' [AStr (mo_Error (ag_ops ag) e)] (Some ErrInterruptPolicyDrift)), w)
      | None \<Rightarrow>
     (if length pending = 0 then (Inr None, w)
      else case validateBatchAddressable calls of Some e \<Rightarrow> (Inl (Errorf ''vage: interrupt: %w'' [] (Some e)), w)
      | None \<Rightarrow>
     (case validatePendingSubset calls pending of Some e \<Rightarrow> (Inl (Errorf ''vage: interrupt: %w'' [] (Some e)), w)
      | None \<Rightarrow>
     (case ag_interruptStore ag of None \<Rightarrow> (Inl nil_dereference, w)
      | Some st \<Rightarrow>
     (case st_Create st (suspended_record ag rc p continuation calls pending snap) (w_ints w) of (r, i) \<Rightarrow>
       (case r of Inl e \<Rightarrow> Inl (Errorf ''vage: persist interrupt: %w'' [] (Some e))
        | Inr rec \<Rightarrow> Inr (Some (interruptDescriptorFromRecord rec)),
        w\<lparr>w_ints := i\<rparr>))))))"

section \<open>The two modes\<close>

record ('x, 'k, 'i, 'm, 'u) react_mode =
  rm_emitIterationStart :: "string \<Rightarrow> int \<Rightarrow> ('x, 'k, 'i, 'm) world \<Rightarrow> go_error option \<times> ('x, 'k, 'i, 'm) world"
  rm_emitInterruptCreated :: "string \<Rightarrow> int \<Rightarrow> interrupt_desc option \<Rightarrow> ('x, 'k, 'i, 'm) world \<Rightarrow> go_error option \<times> ('x, 'k, 'i, 'm) world"
  rm_executeTurn :: "('m, 'u) run_context \<Rightarrow> 'm chat_request \<Rightarrow> ('x, 'k, 'i, 'm) world
     \<Rightarrow> (go_error + 'm \<times> string) \<times> ('m, 'u) run_context \<times> ('x, 'k, 'i, 'm) world"
  rm_emitResultEvent :: bool
  rm_sink :: "string \<Rightarrow> ('x, 'k, 'i, 'm) sink"

definition charge :: "('x, 'k, 'i, 'm, 'u) agent \<Rightarrow> 'u \<Rightarrow> ('m, 'u) run_context \<Rightarrow> ('m, 'u) run_context" where
  "charge ag u rc =
     rc\<lparr>rc_totalUsage := us_Add (ag_usage ag) (rc_totalUsage rc) u,
        rc_tracker := Add_tokens (us_Total (ag_usage ag) u) (rc_tracker rc)\<rparr>"

definition sync_executeTurn :: "('x, 'k, 'i, 'm, 'u) agent \<Rightarrow> ('m, 'u) run_context \<Rightarrow> 'm chat_request \<Rightarrow> ('x, 'k, 'i, 'm) world
      \<Rightarrow> (go_error + 'm \<times> string) \<times> ('m, 'u) run_context \<times> ('x, 'k, 'i, 'm) world" where
  "sync_executeTurn ag rc req w =
     (case ag_call ag req (w_ext w) of (r, x) \<Rightarrow>
     (let w1 = w\<lparr>w_ext := x, w_requests := w_requests w @ [req]\<rparr> in
      case r of Inl e \<Rightarrow> (Inl (Errorf ''vage: chat completion: %w'' [] (Some e)), rc, w1)
      | Inr resp \<Rightarrow> (Inr (cr_Message resp, cr_FinishReason resp), charge ag (cr_Usage resp) rc, w1)))"

definition syncMode :: "('x, 'k, 'i, 'm, 'u) agent \<Rightarrow> ('x, 'k, 'i, 'm, 'u) react_mode" where
  "syncMode ag =
     \<lparr>rm_emitIterationStart = (\<lambda>sid iter w. (None, w)),
      rm_emitInterruptCreated = (\<lambda>sid iter desc w. (None, dispatch sid (interruptCreatedEvent iter desc) w)),
      rm_executeTurn = sync_executeTurn ag, rm_emitResultEvent = False,
      rm_sink = (\<lambda>sid ev w. (None, dispatch sid ev w))\<rparr>"

text \<open>Receiving a stream: the bytes of text received, each delta sent as it comes.\<close>

fun recv_loop :: "('x, 'k, 'i, 'm) sink \<Rightarrow> nat \<Rightarrow> (go_error + string) list \<Rightarrow> ('x, 'k, 'i, 'm) world
      \<Rightarrow> (go_error + nat) \<times> ('x, 'k, 'i, 'm) world" where
  "recv_loop send bytes [] w = (Inr bytes, w)"
| "recv_loop send bytes (Inl e # rest) w = (Inl (Errorf ''vage: stream recv: %w'' [] (Some e)), w)"
| "recv_loop send bytes (Inr delta # rest) w =
     (if delta \<noteq> '''' then
        (case send (EvTextDelta delta) w of (Some e, w1) \<Rightarrow> (Inl e, w1)
         | (None, w1) \<Rightarrow> recv_loop send (bytes + length delta) rest w1)
      else recv_loop send bytes rest w)"

definition estimated_tokens :: "nat \<Rightarrow> int" where
  "estimated_tokens bytes = (let n = (int bytes + 3) div 4 in if n < 1 \<and> bytes > 0 then 1 else n)"

definition stream_executeTurn :: "('x, 'k, 'i, 'm, 'u) agent \<Rightarrow> (string \<Rightarrow> ('x, 'k, 'i, 'm) sink) \<Rightarrow> ('m, 'u) run_context
      \<Rightarrow> 'm chat_request \<Rightarrow> ('x, 'k, 'i, 'm) world
      \<Rightarrow> (go_error + 'm \<times> string) \<times> ('m, 'u) run_context \<times> ('x, 'k, 'i, 'm) world" where
  "stream_executeTurn ag send rc req w =
     (let sid = rc_sessionID rc in
      case ag_callStream ag req (w_ext w) of (r, x) \<Rightarrow>
     (let w1 = w\<lparr>w_ext := x, w_requests := w_requests w @ [req]\<rparr> in
      case r of Inl e \<Rightarrow> (Inl (Errorf ''vage: chat completion stream: %w'' [] (Some e)), rc, w1)
      | Inr stream \<Rightarrow>
     (case recv_loop (send sid) 0 (cs_recv stream) w1 of (Inl e, w2) \<Rightarrow> (Inl e, rc, w2)
      | (Inr bytes, w2) \<Rightarrow>
     (case cs_Usage stream of
        Some u \<Rightarrow>
          (case send sid (EvLLMCallEnd (cq_Model req) (us_Total (ag_usage ag) u)) w2 of (err, w3) \<Rightarrow>
            (Inr (cs_Message stream, cs_FinishReason stream), charge ag u rc, w3))
      | None \<Rightarrow>
          (Inr (cs_Message stream, cs_FinishReason stream),
           rc\<lparr>rc_tracker := Add_tokens (estimated_tokens bytes) (rc_tracker rc)\<rparr>, w2)))))"

definition streamMode :: "('x, 'k, 'i, 'm, 'u) agent \<Rightarrow> (string \<Rightarrow> ('x, 'k, 'i, 'm) sink) \<Rightarrow> ('x, 'k, 'i, 'm, 'u) react_mode" where
  "streamMode ag send =
     \<lparr>rm_emitIterationStart = (\<lambda>sid iter w. send sid (EvIterationStart iter) w),
      rm_emitInterruptCreated = (\<lambda>sid iter desc w. send sid (interruptCreatedEvent iter desc) w),
      rm_executeTurn = stream_executeTurn ag send, rm_emitResultEvent = True, rm_sink = send\<rparr>"

text \<open>\<open>buildSend\<close> around what the stream and its middleware do with an event.\<close>

definition buildSend :: "(agent_event \<Rightarrow> 'x \<Rightarrow> go_error option \<times> 'x) \<Rightarrow> string \<Rightarrow> ('x, 'k, 'i, 'm) sink" where
  "buildSend raw sid ev w =
     (let w1 = (case ev of EvLLMCallEnd model n \<Rightarrow> w | _ \<Rightarrow> dispatch sid ev w) in
      case raw ev (w_ext w1) of (err, x) \<Rightarrow> (err, w1\<lparr>w_ext := x\<rparr>))"

section \<open>The loop\<close>

definition chat_request_of :: "('x, 'k, 'i, 'm, 'u) agent \<Rightarrow> frozen_params \<Rightarrow> 'm list \<Rightarrow> string list \<Rightarrow> 'm chat_request" where
  "chat_request_of ag p messages tools =
     \<lparr>cq_Model = rp_model p, cq_Messages = messages, cq_Temperature = rp_temperature p, cq_MaxTokens = rp_maxTokens p,
      cq_Stop = rp_stopSeq p, cq_Tools = tools, cq_PromptCaching = ag_promptCaching ag\<rparr>"

type_synonym ('x, 'k, 'i, 'm, 'u) loop_result =
  "(go_error + stop_reason) \<times> ('m, 'u) run_context \<times> ('x, 'k, 'i, 'm) world"

definition loop_fails :: "go_error \<Rightarrow> ('m, 'u) run_context \<Rightarrow> ('x, 'k, 'i, 'm) world \<Rightarrow> ('x, 'k, 'i, 'm, 'u) loop_result" where
  "loop_fails e rc w = (Inl e, rc, w)"

text \<open>A terminator of the loop: the final checkpoint, and the stop reason.\<close>

definition loop_ends :: "('x, 'k, 'i, 'm, 'u) agent \<Rightarrow> stop_reason \<Rightarrow> ('m, 'u) run_context \<Rightarrow> 'm list \<Rightarrow> ('x, 'k, 'i, 'm) world
      \<Rightarrow> ('x, 'k, 'i, 'm, 'u) loop_result" where
  "loop_ends ag stop rc messages w = (Inr stop, rc, saveIterationCheckpoint ag rc messages True stop w)"

text \<open>
  One iteration. Either the loop ends with a result, or it goes on with more messages: the sum is the result or
  the messages, the context and the world of the next iteration.
\<close>

definition interrupt_gate :: "('x, 'k, 'i, 'm, 'u) agent \<Rightarrow> ('x, 'k, 'i, 'm, 'u) react_mode \<Rightarrow> frozen_params \<Rightarrow> ('m, 'u) run_context \<Rightarrow> 'm list
      \<Rightarrow> toolcall list \<Rightarrow> ('x, 'k, 'i, 'm) world \<Rightarrow> ('x, 'k, 'i, 'm, 'u) loop_result + ('x, 'k, 'i, 'm) world" where
  "interrupt_gate ag mode p rc messages calls w =
     (case ag_interruptPolicy ag of None \<Rightarrow> Inr w
      | Some pol \<Rightarrow>
     (case maybeInterrupt ag pol rc p messages calls w of
        (Inl e, w1) \<Rightarrow> Inl (loop_fails e rc w1)
      | (Inr None, w1) \<Rightarrow> Inr w1
      | (Inr (Some desc), w1) \<Rightarrow>
          (case rm_emitInterruptCreated mode (rc_sessionID rc) (rc_iteration rc) (Some desc) w1 of
             (Some e, w2) \<Rightarrow> Inl (loop_fails e rc w2)
           | (None, w2) \<Rightarrow> Inl (Inr StopInterrupted, rc\<lparr>rc_interruptDesc := Some desc\<rparr>, w2))))"

definition batch_turn :: "('x, 'k, 'i, 'm, 'u) agent \<Rightarrow> ('x, 'k, 'i, 'm, 'u) react_mode \<Rightarrow> ('m, 'u) run_context \<Rightarrow> 'm list \<Rightarrow> toolcall list
      \<Rightarrow> ('x, 'k, 'i, 'm) world
      \<Rightarrow> ('x, 'k, 'i, 'm, 'u) loop_result + 'm list \<times> ('m, 'u) run_context \<times> ('x, 'k, 'i, 'm) world" where
  "batch_turn ag mode rc messages calls w =
     (case executeToolBatch ag background (rc_sessionID rc) calls (rm_emitResultEvent mode) (rm_sink mode (rc_sessionID rc)) w of
        (Inl e, w1) \<Rightarrow> Inl (loop_fails e rc w1)
      | (Inr (toolMsgs, results), w1) \<Rightarrow>
     (let messages1 = messages @ toolMsgs in
      case returnDirectResult ag calls results of
        Some result \<Rightarrow>
          (let directMsg = mo_NewAssistant (ag_ops ag) (ag_Protocol ag) (mo_ResultText (ag_ops ag) result) in
           Inl (loop_ends ag StopComplete (rc\<lparr>rc_lastMsg := directMsg\<rparr>) (messages1 @ [directMsg]) w1))
      | None \<Rightarrow> Inr (messages1, rc, saveIterationCheckpoint ag rc messages1 False NoStop w1)))"

definition react_turn :: "('x, 'k, 'i, 'm, 'u) agent \<Rightarrow> ('x, 'k, 'i, 'm, 'u) react_mode \<Rightarrow> frozen_params \<Rightarrow> string list \<Rightarrow> int
      \<Rightarrow> ('m, 'u) run_context \<Rightarrow> 'm list \<Rightarrow> ('x, 'k, 'i, 'm) world
      \<Rightarrow> ('x, 'k, 'i, 'm, 'u) loop_result + 'm list \<times> ('m, 'u) run_context \<times> ('x, 'k, 'i, 'm) world" where
  "react_turn ag mode p tools iter rc0 messages w =
     (let rc = rc0\<lparr>rc_iteration := iter\<rparr> in
      if Exhausted (rc_tracker rc) then Inl (loop_ends ag StopBudgetExhausted rc messages w)
      else case rm_emitIterationStart mode (rc_sessionID rc) iter w of (Some e, w1) \<Rightarrow> Inl (loop_fails e rc w1)
      | (None, w1) \<Rightarrow>
     (case rm_executeTurn mode rc (chat_request_of ag p messages tools) w1 of (Inl e, rc1, w2) \<Rightarrow> Inl (loop_fails e rc1 w2)
      | (Inr (assistantMsg, finishReason), rc1, w2) \<Rightarrow>
     (let rc2 = rc1\<lparr>rc_lastMsg := assistantMsg\<rparr>; messages1 = messages @ [assistantMsg];
          calls = mo_ToolCalls (ag_ops ag) assistantMsg in
      if finishReason \<noteq> mo_FinishToolCalls (ag_ops ag) \<or> length calls = 0
      then Inl (loop_ends ag StopComplete rc2 messages1 w2)
      else if Exhausted (rc_tracker rc2) then Inl (loop_ends ag StopBudgetExhausted rc2 messages1 w2)
      else case interrupt_gate ag mode p rc2 messages1 calls w2 of Inl res \<Rightarrow> Inl res
      | Inr w3 \<Rightarrow> batch_turn ag mode rc2 messages1 calls w3)))"

text \<open>The loop runs while the iteration is below the maximum; the first argument counts what is left.\<close>

fun react_loop :: "('x, 'k, 'i, 'm, 'u) agent \<Rightarrow> ('x, 'k, 'i, 'm, 'u) react_mode \<Rightarrow> frozen_params \<Rightarrow> string list \<Rightarrow> nat \<Rightarrow> int
      \<Rightarrow> ('m, 'u) run_context \<Rightarrow> 'm list \<Rightarrow> ('x, 'k, 'i, 'm) world \<Rightarrow> ('x, 'k, 'i, 'm, 'u) loop_result" where
  "react_loop ag mode p tools 0 iter rc messages w =
     loop_ends ag StopMaxIterations (rc\<lparr>rc_iteration := rp_maxIter p - 1\<rparr>) messages w"
| "react_loop ag mode p tools (Suc n) iter rc messages w =
     (case react_turn ag mode p tools iter rc messages w of
        Inl res \<Rightarrow> res
      | Inr (messages1, rc1, w1) \<Rightarrow> react_loop ag mode p tools n (iter + 1) rc1 messages1 w1)"

definition runReactLoop :: "('x, 'k, 'i, 'm, 'u) agent \<Rightarrow> ('x, 'k, 'i, 'm, 'u) react_mode \<Rightarrow> frozen_params \<Rightarrow> string list \<Rightarrow> int
      \<Rightarrow> ('m, 'u) run_context \<Rightarrow> 'm list \<Rightarrow> ('x, 'k, 'i, 'm) world \<Rightarrow> ('x, 'k, 'i, 'm, 'u) loop_result" where
  "runReactLoop ag mode p tools startIter rc messages w =
     react_loop ag mode p tools (nat (rp_maxIter p - startIter)) startIter rc messages w"

section \<open>The terminal path\<close>

definition buildResponseMsgs :: "('x, 'k, 'i, 'm, 'u) agent \<Rightarrow> 'm \<Rightarrow> bool \<Rightarrow> 'm list" where
  "buildResponseMsgs ag lastMsg partial =
     (let ms = [mo_WithAgent (ag_ops ag) (ag_ID ag) lastMsg] in
      if partial then (if mo_Text (ag_ops ag) lastMsg \<noteq> '''' \<or> length (mo_ToolCalls (ag_ops ag) lastMsg) > 0 then ms else [])
      else ms)"

definition draftResponse :: "('x, 'k, 'i, 'm, 'u) agent \<Rightarrow> ('m, 'u) run_context \<Rightarrow> ('m, 'u) task_response" where
  "draftResponse ag rc =
     \<lparr>te_Messages = buildResponseMsgs ag (rc_lastMsg rc) (rc_stopReason rc \<noteq> StopComplete), te_SessionID = rc_sessionID rc,
      te_Usage = Some (rc_totalUsage rc), te_StopReason = rc_stopReason rc,
      te_Interrupt = (if rc_stopReason rc = StopInterrupted then rc_interruptDesc rc else None)\<rparr>"

definition partialResult :: "('m, 'u) run_context \<Rightarrow> bool" where
  "partialResult rc \<longleftrightarrow> rc_reactRan rc \<and> rc_stopReason rc \<noteq> StopComplete"

definition budgetExhausted :: "('m, 'u) run_context \<Rightarrow> bool" where
  "budgetExhausted rc \<longleftrightarrow> rc_reactRan rc \<and> rc_stopReason rc = StopBudgetExhausted"

definition budgetExhaustedEvent :: "('m, 'u) run_context \<Rightarrow> agent_event" where
  "budgetExhaustedEvent rc =
     EvBudgetExhausted (bt_budget (rc_tracker rc)) (bt_consumed (rc_tracker rc)) (rc_iteration rc + 1) (rc_estimated rc)"

definition terminalMessage :: "('x, 'k, 'i, 'm, 'u) agent \<Rightarrow> ('m, 'u) task_response \<Rightarrow> string" where
  "terminalMessage ag resp = (case te_Messages resp of [] \<Rightarrow> '''' | m # ms \<Rightarrow> mo_Text (ag_ops ag) m)"

definition interruptSafeRespMsgs :: "('m, 'u) run_context \<Rightarrow> ('m, 'u) task_response \<Rightarrow> 'm list" where
  "interruptSafeRespMsgs rc resp = (if rc_stopReason rc = StopInterrupted then [] else te_Messages resp)"

text \<open>The entries handed to session memory, numbered from the count of messages it had.\<close>

definition storeAndPromoteMessages :: "('x, 'k, 'i, 'm, 'u) agent \<Rightarrow> string \<Rightarrow> 'm list \<Rightarrow> 'm list \<Rightarrow> int \<Rightarrow> ('x, 'k, 'i, 'm) world
      \<Rightarrow> ('x, 'k, 'i, 'm) world" where
  "storeAndPromoteMessages ag sid reqMsgs respMsgs cnt w =
     (if \<not> ag_hasMemory ag \<or> sid = '''' then w
      else w\<lparr>w_memory := w_memory w @ map (\<lambda>(j, m). (sid, cnt + int j, m)) (enumerate 0 (reqMsgs @ respMsgs))\<rparr>)"

definition finalizeRun :: "('x, 'k, 'i, 'm, 'u) agent \<Rightarrow> ('m, 'u) run_context \<Rightarrow> ('m, 'u) task_response \<Rightarrow> ('x, 'k, 'i, 'm) world
      \<Rightarrow> ('m, 'u) task_response \<times> ('x, 'k, 'i, 'm) world" where
  "finalizeRun ag rc resp0 w =
     (let sid = rc_sessionID rc;
          resp = (case runOutputGuards ag sid (te_Messages resp0) (w_ext w) of
            Inl e \<Rightarrow> resp0 | Inr ms \<Rightarrow> resp0\<lparr>te_Messages := ms\<rparr>);
          w1 = storeAndPromoteMessages ag sid (rc_reqMsgs rc) (interruptSafeRespMsgs rc resp) (rc_sessionMsgCount rc) w;
          w2 = (if budgetExhausted rc then dispatch sid (budgetExhaustedEvent rc) w1 else w1) in
      (resp\<lparr>te_SessionID := sid\<rparr>, dispatch sid (EvAgentEnd (terminalMessage ag resp) (te_StopReason resp)) w2))"

text \<open>The stream mode fails on a blocked complete answer, and on a send that fails.\<close>

definition finalizeStream :: "('x, 'k, 'i, 'm, 'u) agent \<Rightarrow> (string \<Rightarrow> ('x, 'k, 'i, 'm) sink) \<Rightarrow> ('m, 'u) run_context
      \<Rightarrow> ('m, 'u) task_response \<Rightarrow> ('x, 'k, 'i, 'm) world \<Rightarrow> go_error option \<times> ('x, 'k, 'i, 'm) world" where
  "finalizeStream ag send rc resp0 w =
     (let sid = rc_sessionID rc; guarded = runOutputGuards ag sid (te_Messages resp0) (w_ext w) in
      case (case guarded of Inl e \<Rightarrow> if partialResult rc then None else Some e | Inr ms \<Rightarrow> None) of Some e \<Rightarrow> (Some e, w)
      | None \<Rightarrow>
     (let resp = (case guarded of Inl e \<Rightarrow> resp0 | Inr ms \<Rightarrow> resp0\<lparr>te_Messages := ms\<rparr>);
          w1 = storeAndPromoteMessages ag sid (rc_reqMsgs rc) (interruptSafeRespMsgs rc resp) (rc_sessionMsgCount rc) w in
      case (if budgetExhausted rc then send sid (budgetExhaustedEvent rc) w1 else (None, w1)) of (Some e, w2) \<Rightarrow> (Some e, w2)
      | (None, w2) \<Rightarrow> send sid (EvAgentEnd (terminalMessage ag resp) (te_StopReason resp)) w2))"

section \<open>Fresh runs\<close>

definition ErrNilMiddlewareResponse :: go_error where
  "ErrNilMiddlewareResponse = ErrNew ''vage: agent middleware returned a nil response without an error''"

record entry_policy =
  en_inputGuards :: bool
  en_agentMiddleware :: bool
  en_paramResolver :: bool

definition policyFreshRun :: entry_policy where
  "policyFreshRun = \<lparr>en_inputGuards = True, en_agentMiddleware = True, en_paramResolver = True\<rparr>"

definition policyResume :: entry_policy where
  "policyResume = \<lparr>en_inputGuards = False, en_agentMiddleware = False, en_paramResolver = False\<rparr>"

text \<open>The parameters, and the request as the input guards leave it.\<close>

definition preflightEntry :: "('x, 'k, 'i, 'm, 'u) agent \<Rightarrow> entry_policy \<Rightarrow> 'm task_request option \<Rightarrow> ('x, 'k, 'i, 'm) world
      \<Rightarrow> (go_error + frozen_params \<times> 'm task_request option) \<times> ('x, 'k, 'i, 'm) world" where
  "preflightEntry ag policy req w =
     (if \<not> ag_hasCaller ag then (Inl (ErrNew ''vage: model caller is required''), w)
      else case checkInterruptConfig ag of Some e \<Rightarrow> (Inl e, w)
      | None \<Rightarrow>
     (case (case req of None \<Rightarrow> Inr None
            | Some r \<Rightarrow> if en_inputGuards policy then map_sum id Some (runInputGuards ag r (w_ext w)) else Inr (Some r)) of
        Inl e \<Rightarrow> (Inl e, w)
      | Inr req1 \<Rightarrow>
     (let opts = (case req1 of None \<Rightarrow> None | Some r \<Rightarrow> tq_Options r);
          sid = (case req1 of None \<Rightarrow> '''' | Some r \<Rightarrow> tq_SessionID r) in
      if en_paramResolver policy then
        (case resolveFreshRun (ag_modes ag) (map_option rg_names (ag_toolRegistry ag)) (ag_skills ag sid) (ag_params ag)
            (ag_paramResolver ag) opts of
           Inl e \<Rightarrow> (Inl e, w)
         | Inr (p, excluded) \<Rightarrow>
             (Inr (p, req1), dispatch sid (EvParamsResolved (length (rp_toolFilter p)))
                (fold (\<lambda>ne. dispatch sid (EvToolExcluded (fst ne))) excluded w)))
      else case req1 of None \<Rightarrow> (Inr (zero_params, None), w)
      | Some r \<Rightarrow> (map_sum id (\<lambda>p. (p, req1)) (mergeRunParams (ag_params ag) (tq_Options r)), w))))"

definition new_context :: "('x, 'k, 'i, 'm, 'u) agent \<Rightarrow> frozen_params \<Rightarrow> 'm task_request \<Rightarrow> bool \<Rightarrow> ('m, 'u) run_context" where
  "new_context ag p req estimated =
     \<lparr>rc_sessionID = tq_SessionID req, rc_tracker = newBudgetTracker (rp_runTokenBudget p), rc_totalUsage = us_Zero (ag_usage ag),
      rc_messages = [], rc_sessionMsgCount = 0, rc_reqMsgs = tq_Messages req, rc_lastMsg = mo_Zero (ag_ops ag), rc_iteration = 0,
      rc_estimated = estimated, rc_reactRan = False, rc_stopReason = NoStop, rc_interruptDesc = None\<rparr>"

text \<open>The tools that are offered, and what the context builder makes of the request.\<close>

definition prepareContext :: "('x, 'k, 'i, 'm, 'u) agent \<Rightarrow> 'm task_request \<Rightarrow> frozen_params \<Rightarrow> ('x, 'k, 'i, 'm) world
      \<Rightarrow> (go_error + ('m list \<times> int) \<times> string list) \<times> ('x, 'k, 'i, 'm) world" where
  "prepareContext ag req p w =
     (let tools = toolsForRun (map_option rg_names (ag_toolRegistry ag)) (ag_skills ag (tq_SessionID req)) p in
      case ag_build ag req tools (w_ext w) of
        (Inl e, x) \<Rightarrow> (Inl (Errorf ''vage: build context: %w'' [] (Some e)), w\<lparr>w_ext := x\<rparr>)
      | (Inr br, x) \<Rightarrow> (Inr (br, tools), w\<lparr>w_ext := x\<rparr>))"

definition ChainMiddleware :: "('x, 'k, 'i, 'm, 'u) run_func \<Rightarrow> (('x, 'k, 'i, 'm, 'u) run_func \<Rightarrow> ('x, 'k, 'i, 'm, 'u) run_func) option list
      \<Rightarrow> ('x, 'k, 'i, 'm, 'u) run_func" where
  "ChainMiddleware base mws = foldr (\<lambda>mw wrapped. case mw of None \<Rightarrow> wrapped | Some f \<Rightarrow> f wrapped) mws base"

definition react_func :: "('x, 'k, 'i, 'm, 'u) agent \<Rightarrow> ('x, 'k, 'i, 'm, 'u) react_mode \<Rightarrow> frozen_params \<Rightarrow> string list
      \<Rightarrow> ('x, 'k, 'i, 'm, 'u) run_func" where
  "react_func ag mode p tools req =
     (\<lambda>(rc, w). case runReactLoop ag mode p tools 0 rc (rc_messages rc) w of
        (Inl e, rc1, w1) \<Rightarrow> (Inl e, rc1, w1)
      | (Inr stop, rc1, w1) \<Rightarrow>
          (let rc2 = rc1\<lparr>rc_reactRan := True, rc_stopReason := stop\<rparr> in (Inr (Some (draftResponse ag rc2)), rc2, w1)))"

definition runMiddlewareChain :: "('x, 'k, 'i, 'm, 'u) agent \<Rightarrow> 'm task_request \<Rightarrow> ('x, 'k, 'i, 'm, 'u) run_func
      \<Rightarrow> ('m, 'u) run_context \<times> ('x, 'k, 'i, 'm) world
      \<Rightarrow> (go_error + ('m, 'u) task_response) \<times> ('m, 'u) run_context \<times> ('x, 'k, 'i, 'm) world" where
  "runMiddlewareChain ag req react s =
     (case ChainMiddleware react (ag_middlewares ag) req s of
        (Inl e, s1) \<Rightarrow> (Inl e, s1)
      | (Inr None, s1) \<Rightarrow> (Inl ErrNilMiddlewareResponse, s1)
      | (Inr (Some resp), s1) \<Rightarrow> (Inr resp, s1))"

definition Run :: "('x, 'k, 'i, 'm, 'u) agent \<Rightarrow> 'm task_request \<Rightarrow> ('x, 'k, 'i, 'm) world
      \<Rightarrow> (go_error + ('m, 'u) task_response) \<times> ('x, 'k, 'i, 'm) world" where
  "Run ag req0 w =
     (case preflightEntry ag policyFreshRun (Some req0) w of
        (Inl e, w1) \<Rightarrow> (Inl e, w1)
      | (Inr (p, None), w1) \<Rightarrow> (Inl nil_dereference, w1)
      | (Inr (p, Some req), w1) \<Rightarrow>
     (let rc = new_context ag p req False in
      case prepareContext ag req p (dispatch (rc_sessionID rc) EvAgentStart w1) of
        (Inl e, w2) \<Rightarrow> (Inl e, w2)
      | (Inr ((msgs, cnt), tools), w2) \<Rightarrow>
     (let rc1 = rc\<lparr>rc_messages := msgs, rc_sessionMsgCount := cnt\<rparr> in
      case runMiddlewareChain ag req (react_func ag (syncMode ag) p tools) (rc1, dispatch (rc_sessionID rc) EvContextBuilt w2) of
        (Inl e, rc2, w3) \<Rightarrow> (Inl e, w3)
      | (Inr resp, rc2, w3) \<Rightarrow> (case finalizeRun ag rc2 resp w3 of (resp', w4) \<Rightarrow> (Inr resp', w4)))))"

text \<open>The body of the stream: what it returns when the stream is closed.\<close>

definition RunStream :: "('x, 'k, 'i, 'm, 'u) agent \<Rightarrow> (agent_event \<Rightarrow> 'x \<Rightarrow> go_error option \<times> 'x) \<Rightarrow> 'm task_request
      \<Rightarrow> ('x, 'k, 'i, 'm) world \<Rightarrow> go_error option \<times> ('x, 'k, 'i, 'm) world" where
  "RunStream ag raw req0 w =
     (case preflightEntry ag policyFreshRun (Some req0) w of
        (Inl e, w1) \<Rightarrow> (Some e, w1)
      | (Inr (p, None), w1) \<Rightarrow> (Some nil_dereference, w1)
      | (Inr (p, Some req), w1) \<Rightarrow>
     (case prepareContext ag req p w1 of
        (Inl e, w2) \<Rightarrow> (Some e, w2)
      | (Inr ((msgs, cnt), tools), w2) \<Rightarrow>
     (let send = buildSend raw; rc = (new_context ag p req True)\<lparr>rc_messages := msgs, rc_sessionMsgCount := cnt\<rparr> in
      case emit_all (send (rc_sessionID rc)) [EvAgentStart, EvContextBuilt] w2 of (Some e, w3) \<Rightarrow> (Some e, w3)
      | (None, w3) \<Rightarrow>
     (case runMiddlewareChain ag req (react_func ag (streamMode ag send) p tools) (rc, w3) of
        (Inl e, rc1, w4) \<Rightarrow> (Some e, w4)
      | (Inr resp, rc1, w4) \<Rightarrow> finalizeStream ag send rc1 resp w4))))"

end
