(* ===== verification/TaskResume.thy ===== *)
theory TaskResume
  imports TaskAgent
begin

text \<open>
  Resuming a run of the task agent: from its latest checkpoint (\<open>checkpoint.go\<close>), and from a suspended batch
  with the decisions on its calls (\<open>interrupt.go\<close>).
\<close>

section \<open>From a checkpoint\<close>

definition ErrAlreadyFinal :: go_error where
  "ErrAlreadyFinal = ErrNew ''checkpoint: already final''"

text \<open>The context of a resumed run; the request is not known any more.\<close>

definition resume_context :: "('x, 'k, 'i, 'm, 'u) agent \<Rightarrow> frozen_params \<Rightarrow> ('m, 'u) checkpoint \<Rightarrow> ('m, 'u) run_context" where
  "resume_context ag p cp =
     \<lparr>rc_sessionID = cp_SessionID cp, rc_tracker = newBudgetTracker (rp_runTokenBudget p), rc_totalUsage = cp_Usage cp,
      rc_messages = cp_Messages cp, rc_sessionMsgCount = cp_SessionMsgCount cp, rc_reqMsgs = [],
      rc_lastMsg = mo_Zero (ag_ops ag), rc_iteration = 0, rc_estimated = cp_Estimated cp, rc_reactRan = False,
      rc_stopReason = NoStop, rc_interruptDesc = None\<rparr>"

definition runResumeLoop :: "('x, 'k, 'i, 'm, 'u) agent \<Rightarrow> ('m, 'u) run_context \<Rightarrow> frozen_params \<Rightarrow> 'm list \<Rightarrow> string list \<Rightarrow> int
      \<Rightarrow> ('x, 'k, 'i, 'm) world \<Rightarrow> (go_error + ('m, 'u) task_response) \<times> ('x, 'k, 'i, 'm) world" where
  "runResumeLoop ag rc p messages tools startIter w =
     (case runReactLoop ag (syncMode ag) p tools startIter rc messages w of
        (Inl e, rc1, w1) \<Rightarrow> (Inl e, w1)
      | (Inr stop, rc1, w1) \<Rightarrow>
          (let rc2 = rc1\<lparr>rc_reactRan := True, rc_stopReason := stop\<rparr> in
           case finalizeRun ag rc2 (draftResponse ag rc2) w1 of (resp, w2) \<Rightarrow> (Inr resp, w2)))"

definition Resume :: "('x, 'k, 'i, 'm, 'u) agent \<Rightarrow> string \<Rightarrow> ('x, 'k, 'i, 'm) world
      \<Rightarrow> (go_error + ('m, 'u) task_response) \<times> ('x, 'k, 'i, 'm) world" where
  "Resume ag sid w =
     (case preflightEntry ag policyResume None w of
        (Inl e, w1) \<Rightarrow> (Inl e, w1)
      | (Inr pre, w1) \<Rightarrow>
     (case ag_iterationStore ag of
        None \<Rightarrow> (Inl (Checkpoint.invalid ''%w: no IterationStore configured''), w1)
      | Some st \<Rightarrow>
     (if sid = '''' then (Inl (Checkpoint.invalid ''%w: session id is empty''), w1)
      else case is_Load st sid '''' (w_cps w1) of (r, k) \<Rightarrow>
     (let w2 = w1\<lparr>w_cps := k\<rparr> in
      case r of Inl e \<Rightarrow> (Inl e, w2)
      | Inr cp \<Rightarrow>
     (if cp_AgentID cp \<noteq> '''' \<and> cp_AgentID cp \<noteq> ag_ID ag
      then (Inl (Errorf ''%w: checkpoint agent %q does not match this agent %q'' [AStr (cp_AgentID cp), AStr (ag_ID ag)]
              (Some Checkpoint.ErrInvalidArgument)), w2)
      else if cp_Final cp then (Inl ErrAlreadyFinal, w2)
      else
     (let p = resolveRunParams (ag_params ag) None; rc = resume_context ag p cp;
          tools = toolsForRun (map_option rg_names (ag_toolRegistry ag)) (ag_skills ag (rc_sessionID rc)) p in
      runResumeLoop ag rc p (cp_Messages cp) tools (cp_Iteration cp + 1) (dispatch (rc_sessionID rc) EvAgentStart w2)))))))"

section \<open>From a suspended batch\<close>

definition ErrInterruptAgentMismatch :: go_error where
  "ErrInterruptAgentMismatch = ErrNew ''vage: interrupt record belongs to a different agent''"

definition ErrIncompatibleInterruptTools :: go_error where
  "ErrIncompatibleInterruptTools = ErrNew ''vage: interrupt record references tools this agent cannot execute''"

text \<open>A sentinel of the external contract package.\<close>

definition ErrProtocolMismatch :: go_error where
  "ErrProtocolMismatch = ErrNew ''schema.ErrProtocolMismatch''"

record interrupt_decision =
  id_ToolCallID :: string
  id_Content :: string
  id_IsError :: bool

record resume_request =
  rq_InterruptID :: string
  rq_Decisions :: "interrupt_decision list"

definition toStoreDecisions :: "interrupt_decision list \<Rightarrow> decision list" where
  "toStoreDecisions ds =
     map (\<lambda>d. \<lparr>d_ToolCallID = id_ToolCallID d, d_Content = id_Content d, d_IsError = id_IsError d, d_Execute = False, d_DecidedAt = 0\<rparr>) ds"

definition emitInterruptDecisionEvents :: "('m, 'u) suspended \<Rightarrow> string list \<Rightarrow> ('x, 'k, 'i, 'm) world \<Rightarrow> ('x, 'k, 'i, 'm) world" where
  "emitInterruptDecisionEvents rec committed w =
     fold (\<lambda>i. dispatch (ir_SessionID rec) (EvInterruptDecisionStored (ir_ID rec) i (ir_Status rec \<noteq> StatusPending))) committed w"

text \<open>A pending call runs its handler only when its decision says so and is no error.\<close>

definition execute_decision :: "('m, 'u) suspended \<Rightarrow> string \<Rightarrow> bool" where
  "execute_decision rec i = (case ir_Decisions rec i of None \<Rightarrow> False | Some d \<Rightarrow> d_Execute d \<and> \<not> d_IsError d)"

definition runs_handler :: "('m, 'u) suspended \<Rightarrow> toolcall \<Rightarrow> bool" where
  "runs_handler rec tc \<longleftrightarrow> \<not> List.member (ir_Pending rec) (tc_ID tc) \<or> execute_decision rec (tc_ID tc)"

fun compatible_loop :: "('x, 'k, 'i, 'm, 'u) agent \<Rightarrow> ('m, 'u) suspended \<Rightarrow> toolcall list \<Rightarrow> go_error option" where
  "compatible_loop ag rec [] = None"
| "compatible_loop ag rec (tc # tcs) =
     (if \<not> runs_handler rec tc then compatible_loop ag rec tcs
      else case ag_toolRegistry ag of
        None \<Rightarrow> Some (Errorf ''%w: no tool registry configured'' [] (Some ErrIncompatibleInterruptTools))
      | Some rg \<Rightarrow>
          (if \<not> tn_Get (rg_names rg) (tc_Name tc)
           then Some (Errorf ''%w: tool %q not registered'' [AStr (tc_Name tc)] (Some ErrIncompatibleInterruptTools))
           else compatible_loop ag rec tcs))"

definition validateInterruptToolCompatibility :: "('x, 'k, 'i, 'm, 'u) agent \<Rightarrow> ('m, 'u) suspended \<Rightarrow> go_error option" where
  "validateInterruptToolCompatibility ag rec = compatible_loop ag rec (ir_ToolCalls rec)"

text \<open>
  \<open>classifyFrozenPolicy\<close>: execute, supersede with these pending calls and this snapshot, or an error.
\<close>

datatype classified = Execute_frozen | Supersede "string list" PolicySnapshot | Drift go_error

definition classifyFrozenPolicy :: "('x, 'k, 'i, 'm, 'u) agent \<Rightarrow> ('m, 'u) suspended \<Rightarrow> 'x \<Rightarrow> classified" where
  "classifyFrozenPolicy ag rec x =
     (if ps_Fingerprint (ir_Policy rec) = '''' then Execute_frozen
      else case ag_interruptPolicy ag of None \<Rightarrow> Drift ErrInterruptPolicyDrift
      | Some pol \<Rightarrow>
     (case po_Witness pol of None \<Rightarrow> Drift ErrInterruptPolicyDrift
      | Some f \<Rightarrow>
     (let snap = f x (ir_SessionID rec) (ir_ToolCalls rec); pending = po_Intercept pol x (ir_SessionID rec) (ir_ToolCalls rec) in
      case consistentAssessments (ir_ToolCalls rec) pending snap of
        Some e \<Rightarrow> Drift (Errorf ''%w: %s'' [AStr (mo_Error (ag_ops ag) e)] (Some ErrInterruptPolicyDrift))
      | None \<Rightarrow>
          (if ps_Fingerprint snap = ps_Fingerprint (ir_Policy rec) then Execute_frozen
           else if length pending = 0 then Drift ErrInterruptPolicyDrift else Supersede pending snap))))"

definition successorEarlier :: "('m, 'u) suspended \<Rightarrow> ('m, 'u) suspended \<Rightarrow> bool" where
  "successorEarlier a b =
     (if ir_CreatedAt a < ir_CreatedAt b then True else if ir_CreatedAt b < ir_CreatedAt a then False else ir_ID a < ir_ID b)"

fun successor_loop :: "('i, 'm, 'u) int_store \<Rightarrow> string \<Rightarrow> ('m, 'u) suspended option \<Rightarrow> imeta list \<Rightarrow> 'i
      \<Rightarrow> (go_error + ('m, 'u) suspended option) \<times> 'i" where
  "successor_loop st old chosen [] s = (Inr chosen, s)"
| "successor_loop st old chosen (m # ms) s =
     (if im_ID m = old then successor_loop st old chosen ms s
      else case st_Get st (im_ID m) s of
        (Inl e, s1) \<Rightarrow>
          (if errors_is e Interrupt.ErrNotFound \<or> errors_is e Interrupt.ErrUnknownVersion then successor_loop st old chosen ms s1
           else (Inl e, s1))
      | (Inr r, s1) \<Rightarrow>
          (if ir_Supersedes r \<noteq> old then successor_loop st old chosen ms s1
           else successor_loop st old
             (case chosen of None \<Rightarrow> Some r | Some c \<Rightarrow> if successorEarlier r c then Some r else chosen) ms s1))"

definition earliestSuccessor :: "('i, 'm, 'u) int_store \<Rightarrow> string \<Rightarrow> string \<Rightarrow> ('x, 'k, 'i, 'm) world
      \<Rightarrow> (go_error + ('m, 'u) suspended option) \<times> ('x, 'k, 'i, 'm) world" where
  "earliestSuccessor st sid old w =
     (case st_List st sid (w_ints w) of
        (Inl e, s) \<Rightarrow> (Inl e, w\<lparr>w_ints := s\<rparr>)
      | (Inr ms, s) \<Rightarrow> (case successor_loop st old None ms s of (r, s1) \<Rightarrow> (r, w\<lparr>w_ints := s1\<rparr>)))"

text \<open>The answer to a request that cannot proceed yet.\<close>

definition still_interrupted :: "string \<Rightarrow> ('m, 'u) suspended \<Rightarrow> ('m, 'u) task_response" where
  "still_interrupted sid rec =
     \<lparr>te_Messages = [], te_SessionID = sid, te_Usage = None, te_StopReason = StopInterrupted,
      te_Interrupt = Some (interruptDescriptorFromRecord rec)\<rparr>"

text \<open>Operations of the store on the world.\<close>

definition int_do :: "('i \<Rightarrow> 'a \<times> 'i) \<Rightarrow> ('x, 'k, 'i, 'm) world \<Rightarrow> 'a \<times> ('x, 'k, 'i, 'm) world" where
  "int_do f w = (case f (w_ints w) of (a, s) \<Rightarrow> (a, w\<lparr>w_ints := s\<rparr>))"

definition generateLeaseOwner :: "('x, 'k, 'i, 'm, 'u) agent \<Rightarrow> ('x, 'k, 'i, 'm) world \<Rightarrow> string \<times> ('x, 'k, 'i, 'm) world" where
  "generateLeaseOwner ag w = (case ag_newOwner ag (w_ext w) of (o', x) \<Rightarrow> (o', w\<lparr>w_ext := x\<rparr>))"

definition completeSuperseded :: "('x, 'k, 'i, 'm, 'u) agent \<Rightarrow> ('i, 'm, 'u) int_store \<Rightarrow> ('m, 'u) suspended
      \<Rightarrow> ('x, 'k, 'i, 'm) world \<Rightarrow> ('x, 'k, 'i, 'm) world" where
  "completeSuperseded ag st old w =
     (if ir_Status old = StatusCompleted then w
      else case generateLeaseOwner ag w of (owner, w1) \<Rightarrow>
     (case int_do (st_Acquire st (ir_ID old) owner (ag_interruptLeaseTTL ag)) w1 of
        (Inl e, w2) \<Rightarrow> w2
      | (Inr r, w2) \<Rightarrow> snd (int_do (st_Complete st (ir_ID old) owner) w2)))"

definition finishSuperseded :: "('x, 'k, 'i, 'm, 'u) agent \<Rightarrow> ('i, 'm, 'u) int_store \<Rightarrow> ('m, 'u) suspended \<Rightarrow> ('m, 'u) suspended
      \<Rightarrow> ('x, 'k, 'i, 'm) world \<Rightarrow> (go_error + ('m, 'u) task_response) \<times> ('x, 'k, 'i, 'm) world" where
  "finishSuperseded ag st old succ w =
     (let w1 = completeSuperseded ag st old w in
      if ir_Status succ = StatusCompleted then (Inl Interrupt.ErrAlreadyCompleted, w1)
      else (Inr (still_interrupted (ir_SessionID old) succ), w1))"

definition successor_record :: "('m, 'u) suspended \<Rightarrow> string list \<Rightarrow> PolicySnapshot \<Rightarrow> ('m, 'u) suspended" where
  "successor_record old pending snap =
     \<lparr>ir_Version = 0, ir_ID = '''', ir_SessionID = ir_SessionID old, ir_AgentID = ir_AgentID old, ir_Protocol = ir_Protocol old,
      ir_ToolCalls = ir_ToolCalls old, ir_Pending = pending, ir_Decisions = Map.empty, ir_Messages = ir_Messages old,
      ir_SessionMsgCount = ir_SessionMsgCount old, ir_Params = ir_Params old, ir_Iteration = ir_Iteration old,
      ir_Usage = ir_Usage old, ir_Estimated = ir_Estimated old, ir_TokensConsumed = ir_TokensConsumed old,
      ir_Policy = snap, ir_Supersedes = ir_ID old, ir_Status = StatusPending, ir_Revision = 0, ir_LeaseOwner = '''',
      ir_LeaseExpiresAt = 0, ir_CreatedAt = 0, ir_UpdatedAt = 0\<rparr>"

definition supersedeInterrupt :: "('x, 'k, 'i, 'm, 'u) agent \<Rightarrow> ('i, 'm, 'u) int_store \<Rightarrow> ('m, 'u) suspended \<Rightarrow> string list
      \<Rightarrow> PolicySnapshot \<Rightarrow> ('x, 'k, 'i, 'm) world \<Rightarrow> (go_error + ('m, 'u) task_response) \<times> ('x, 'k, 'i, 'm) world" where
  "supersedeInterrupt ag st old pending snap w =
     (case generateLeaseOwner ag w of (owner, w1) \<Rightarrow>
     (case int_do (st_Acquire st (ir_ID old) owner (ag_interruptLeaseTTL ag)) w1 of
        (Inl e, w2) \<Rightarrow> (Inl e, w2)
      | (Inr leased, w2) \<Rightarrow>
     (case earliestSuccessor st (ir_SessionID old) (ir_ID old) w2 of
        (Inl e, w3) \<Rightarrow> (Inl e, snd (int_do (st_Release st (ir_ID old) owner) w3))
      | (Inr (Some succ), w3) \<Rightarrow>
          (let w4 = snd (int_do (st_Complete st (ir_ID old) owner) w3) in
           if ir_Status succ = StatusCompleted then (Inl Interrupt.ErrAlreadyCompleted, w4)
           else (Inr (still_interrupted (ir_SessionID old) succ), w4))
      | (Inr None, w3) \<Rightarrow>
     (case int_do (st_Create st (successor_record old pending snap)) w3 of
        (Inl e, w4) \<Rightarrow> (Inl e, snd (int_do (st_Release st (ir_ID old) owner) w4))
      | (Inr newRec, w4) \<Rightarrow>
          (let w5 = snd (int_do (st_Complete st (ir_ID old) owner) w4); desc = interruptDescriptorFromRecord newRec in
           (Inr (still_interrupted (ir_SessionID old) newRec),
            dispatch (ir_SessionID old) (interruptCreatedEvent (ir_Iteration old) (Some desc)) w5))))))"

section \<open>The batch of a resumed run\<close>

text \<open>The results that decisions stand for, after the guards, in the order of the calls.\<close>

fun inject_loop :: "('x, 'k, 'i, 'm, 'u) agent \<Rightarrow> string \<Rightarrow> ('m, 'u) suspended \<Rightarrow> toolcall list \<Rightarrow> ('x, 'k, 'i, 'm) world
      \<Rightarrow> tool_result list \<times> ('x, 'k, 'i, 'm) world" where
  "inject_loop ag sid rec [] w = ([], w)"
| "inject_loop ag sid rec (tc # tcs) w =
     (if runs_handler rec tc then inject_loop ag sid rec tcs w
      else
     (let res = (case ir_Decisions rec (tc_ID tc) of
            None \<Rightarrow> mo_TextResult (ag_ops ag) (tc_ID tc) ''''
          | Some d \<Rightarrow> if d_IsError d then mo_ErrorResult (ag_ops ag) (tc_ID tc) (d_Content d)
              else mo_TextResult (ag_ops ag) (tc_ID tc) (d_Content d)) in
      case runToolResultGuards ag sid tc res (w_ext w) of (guarded, evt) \<Rightarrow>
     (let w1 = (case evt of None \<Rightarrow> w | Some ev \<Rightarrow> dispatch sid ev w) in
      case inject_loop ag sid rec tcs w1 of (rs, w2) \<Rightarrow> (guarded # rs, w2))))"

text \<open>Executed and injected results, put back in the order of the calls.\<close>

fun interleave :: "('c \<Rightarrow> bool) \<Rightarrow> 'c list \<Rightarrow> 'a list \<Rightarrow> 'a list \<Rightarrow> 'a list" where
  "interleave runs [] es js = []"
| "interleave runs (c # cs) es js =
     (if runs c then (case es of [] \<Rightarrow> [] | e # es' \<Rightarrow> e # interleave runs cs es' js)
      else (case js of [] \<Rightarrow> [] | j # js' \<Rightarrow> j # interleave runs cs es js'))"

definition reconcileInterruptBatch :: "('x, 'k, 'i, 'm, 'u) agent \<Rightarrow> ('m, 'u) run_context \<Rightarrow> ('m, 'u) suspended
      \<Rightarrow> ('x, 'k, 'i, 'm) world \<Rightarrow> (go_error + 'm list \<times> tool_result list) \<times> ('x, 'k, 'i, 'm) world" where
  "reconcileInterruptBatch ag rc rec w =
     (let sid = rc_sessionID rc; calls = ir_ToolCalls rec; toExecute = filter (runs_handler rec) calls;
          approved = map tc_ID (filter (\<lambda>tc. List.member (ir_Pending rec) (tc_ID tc) \<and> tc_ID tc \<noteq> '''') toExecute);
          execCtx = WithApprovedCalls (Some background) approved in
      case executeToolBatch ag execCtx sid toExecute False (\<lambda>ev w. (None, dispatch sid ev w)) w of
        (Inl e, w1) \<Rightarrow> (Inl e, w1)
      | (Inr (execMsgs, execResults), w1) \<Rightarrow>
     (case inject_loop ag sid rec calls w1 of (injected, w2) \<Rightarrow>
     (let injectedMsgs = map (\<lambda>r. mo_NewToolResult (ag_ops ag) (ag_Protocol ag) (tr_ToolCallID r) (mo_ResultText (ag_ops ag) r) (tr_IsError r)) injected in
      (Inr (interleave (runs_handler rec) calls execMsgs injectedMsgs, interleave (runs_handler rec) calls execResults injected), w2))))"

section \<open>The resumed run\<close>

definition interrupted_context :: "('x, 'k, 'i, 'm, 'u) agent \<Rightarrow> frozen_params \<Rightarrow> ('m, 'u) suspended \<Rightarrow> ('m, 'u) run_context" where
  "interrupted_context ag p rec =
     \<lparr>rc_sessionID = ir_SessionID rec, rc_tracker = newBudgetTrackerAt (rp_runTokenBudget p) (ir_TokensConsumed rec),
      rc_totalUsage = ir_Usage rec, rc_messages = ir_Messages rec, rc_sessionMsgCount = ir_SessionMsgCount rec, rc_reqMsgs = [],
      rc_lastMsg = mo_Zero (ag_ops ag), rc_iteration = ir_Iteration rec, rc_estimated = ir_Estimated rec, rc_reactRan = False,
      rc_stopReason = NoStop, rc_interruptDesc = None\<rparr>"

definition deliver :: "('x, 'k, 'i, 'm, 'u) agent \<Rightarrow> ('i, 'm, 'u) int_store \<Rightarrow> string \<Rightarrow> string \<Rightarrow> stop_reason \<Rightarrow> ('m, 'u) run_context
      \<Rightarrow> ('x, 'k, 'i, 'm) world \<Rightarrow> (go_error + ('m, 'u) task_response) \<times> ('x, 'k, 'i, 'm) world" where
  "deliver ag st i owner stop rc0 w =
     (let rc = rc0\<lparr>rc_reactRan := True, rc_stopReason := stop\<rparr> in
      case finalizeRun ag rc (draftResponse ag rc) w of (resp, w1) \<Rightarrow>
        (Inr resp, snd (int_do (st_Complete st i owner) w1)))"

definition resumeFromInterrupt :: "('x, 'k, 'i, 'm, 'u) agent \<Rightarrow> ('i, 'm, 'u) int_store \<Rightarrow> ('m, 'u) suspended \<Rightarrow> string
      \<Rightarrow> ('x, 'k, 'i, 'm) world \<Rightarrow> (go_error + ('m, 'u) task_response) \<times> ('x, 'k, 'i, 'm) world" where
  "resumeFromInterrupt ag st rec owner w =
     (let p = effectiveParamsToRunParams (ir_Params rec); rc = interrupted_context ag p rec; sid = rc_sessionID rc;
          w1 = dispatch sid (EvInterruptResumed (ir_ID rec)) (dispatch sid EvAgentStart w) in
      case reconcileInterruptBatch ag rc rec w1 of
        (Inl e, w2) \<Rightarrow> (Inl e, snd (int_do (st_Release st (ir_ID rec) owner) w2))
      | (Inr (toolMsgs, results), w2) \<Rightarrow>
     (let messages = ir_Messages rec @ toolMsgs in
      case returnDirectResult ag (ir_ToolCalls rec) results of
        Some result \<Rightarrow>
          deliver ag st (ir_ID rec) owner StopComplete
            (rc\<lparr>rc_lastMsg := mo_NewAssistant (ag_ops ag) (ag_Protocol ag) (mo_ResultText (ag_ops ag) result)\<rparr>) w2
      | None \<Rightarrow>
     (let tools = toolsForRun (map_option rg_names (ag_toolRegistry ag)) (ag_skills ag sid) p in
      case runReactLoop ag (syncMode ag) p tools (ir_Iteration rec + 1) rc messages w2 of
        (Inl e, rc1, w3) \<Rightarrow> (Inl e, snd (int_do (st_Release st (ir_ID rec) owner) w3))
      | (Inr stop, rc1, w3) \<Rightarrow> deliver ag st (ir_ID rec) owner stop rc1 w3)))"

text \<open>Leasing a record and running its batch.\<close>

definition lease_and_resume :: "('x, 'k, 'i, 'm, 'u) agent \<Rightarrow> ('i, 'm, 'u) int_store \<Rightarrow> ('m, 'u) suspended \<Rightarrow> ('x, 'k, 'i, 'm) world
      \<Rightarrow> (go_error + ('m, 'u) task_response) \<times> ('x, 'k, 'i, 'm) world" where
  "lease_and_resume ag st rec w =
     (case generateLeaseOwner ag w of (owner, w1) \<Rightarrow>
     (case int_do (st_Acquire st (ir_ID rec) owner (ag_interruptLeaseTTL ag)) w1 of
        (Inl e, w2) \<Rightarrow>
          (if errors_is e Interrupt.ErrNotReady then (Inr (still_interrupted (ir_SessionID rec) rec), w2) else (Inl e, w2))
      | (Inr leased, w2) \<Rightarrow>
     (case validateInterruptToolCompatibility ag leased of
        Some e \<Rightarrow> (Inl e, snd (int_do (st_Release st (ir_ID leased) owner) w2))
      | None \<Rightarrow> resumeFromInterrupt ag st leased owner w2)))"

definition resume_record :: "('x, 'k, 'i, 'm, 'u) agent \<Rightarrow> ('i, 'm, 'u) int_store \<Rightarrow> ('m, 'u) suspended \<Rightarrow> ('x, 'k, 'i, 'm) world
      \<Rightarrow> (go_error + ('m, 'u) task_response) \<times> ('x, 'k, 'i, 'm) world" where
  "resume_record ag st rec w =
     (if ir_Status rec = StatusPending then (Inr (still_interrupted (ir_SessionID rec) rec), w)
      else case earliestSuccessor st (ir_SessionID rec) (ir_ID rec) w of
        (Inl e, w1) \<Rightarrow> (Inl e, w1)
      | (Inr (Some succ), w1) \<Rightarrow> finishSuperseded ag st rec succ w1
      | (Inr None, w1) \<Rightarrow>
     (if ir_Status rec = StatusCompleted then (Inl Interrupt.ErrAlreadyCompleted, w1)
      else case classifyFrozenPolicy ag rec (w_ext w1) of
        Drift e \<Rightarrow> (Inl e, w1)
      | Supersede pending snap \<Rightarrow> supersedeInterrupt ag st rec pending snap w1
      | Execute_frozen \<Rightarrow> lease_and_resume ag st rec w1))"

definition ResumeInterrupt :: "('x, 'k, 'i, 'm, 'u) agent \<Rightarrow> resume_request \<Rightarrow> ('x, 'k, 'i, 'm) world
      \<Rightarrow> (go_error + ('m, 'u) task_response) \<times> ('x, 'k, 'i, 'm) world" where
  "ResumeInterrupt ag req w =
     (case preflightEntry ag policyResume None w of
        (Inl e, w1) \<Rightarrow> (Inl e, w1)
      | (Inr pre, w1) \<Rightarrow>
     (if rq_InterruptID req = '''' then (Inl (Interrupt.invalid ''%w: interrupt id is empty'' []), w1)
      else case ag_interruptStore ag of None \<Rightarrow> (Inl nil_dereference, w1)
      | Some st \<Rightarrow>
     (case int_do (st_Get st (rq_InterruptID req)) w1 of
        (Inl e, w2) \<Rightarrow> (Inl e, w2)
      | (Inr rec, w2) \<Rightarrow>
     (if ir_AgentID rec \<noteq> ag_ID ag
      then (Inl (Errorf ''%w: record agent %q, this agent %q'' [AStr (ir_AgentID rec), AStr (ag_ID ag)] (Some ErrInterruptAgentMismatch)), w2)
      else if ir_Protocol rec \<noteq> ag_Protocol ag
      then (Inl (Errorf ''%w: record protocol %q, this agent %q'' [AStr (ir_Protocol rec), AStr (ag_Protocol ag)] (Some ErrProtocolMismatch)), w2)
      else if length (rq_Decisions req) = 0 then resume_record ag st rec w2
      else case int_do (st_Submit st (ir_ID rec) (toStoreDecisions (rq_Decisions req))) w2 of ((updated, committed, err), w3) \<Rightarrow>
     (let rec1 = (case updated of None \<Rightarrow> rec | Some u \<Rightarrow> u);
          w4 = (case updated of None \<Rightarrow> w3 | Some u \<Rightarrow> emitInterruptDecisionEvents u committed w3) in
      case err of Some e \<Rightarrow> (Inl e, w4) | None \<Rightarrow> resume_record ag st rec1 w4)))))"

end
