(* ===== verification/TaskSample.thy ===== *)
theory TaskSample
  imports TaskResume
begin

text \<open>
  A concrete agent for the witnesses: a scripted model, three tools, the in-memory stores of checkpoints and of
  interrupts behind the interfaces of the agent, and a policy that asks before the tool \<open>write\<close> runs.
\<close>

section \<open>Messages\<close>

datatype smsg = SUser string | SAssistant string "toolcall list" | STool string string bool

fun s_text :: "smsg \<Rightarrow> string" where
  "s_text (SUser t) = t"
| "s_text (SAssistant t tcs) = t"
| "s_text (STool i t e) = t"

fun s_calls :: "smsg \<Rightarrow> toolcall list" where
  "s_calls (SUser t) = []"
| "s_calls (SAssistant t tcs) = tcs"
| "s_calls (STool i t e) = []"

fun s_answers :: "smsg \<Rightarrow> string option" where
  "s_answers (SUser t) = None"
| "s_answers (SAssistant t tcs) = None"
| "s_answers (STool i t e) = Some i"

fun s_set_text :: "string \<Rightarrow> smsg \<Rightarrow> smsg" where
  "s_set_text t (SUser _) = SUser t"
| "s_set_text t (SAssistant _ tcs) = SAssistant t tcs"
| "s_set_text t (STool i _ e) = STool i t e"

fun s_user :: "smsg \<Rightarrow> bool" where
  "s_user (SUser t) = True"
| "s_user (SAssistant t tcs) = False"
| "s_user (STool i t e) = False"

definition text_result :: "bool \<Rightarrow> string \<Rightarrow> string \<Rightarrow> tool_result" where
  "text_result err i t = \<lparr>tr_ToolCallID = i, tr_IsError = err, tr_Content = [\<lparr>pt_Type = ''text'', pt_Text = t\<rparr>]\<rparr>"

definition s_ops :: "smsg schema_ops" where
  "s_ops = \<lparr>mo_Zero = SAssistant '''' [], mo_Text = s_text, mo_ToolCalls = s_calls, mo_IsUser = s_user,
     mo_SetText = s_set_text, mo_WithAgent = (\<lambda>a m. m), mo_NewAssistant = (\<lambda>p t. SAssistant t []),
     mo_NewToolResult = (\<lambda>p i t e. STool i t e), mo_ErrorResult = text_result True, mo_TextResult = text_result False,
     mo_ResultText = (\<lambda>r. concat (map pt_Text (tr_Content r))), mo_Error = (\<lambda>e. ''error''),
     mo_StopReason = (\<lambda>s. if s = StopComplete then ''complete'' else ''other''), mo_FinishToolCalls = ''tool_calls''\<rparr>"

section \<open>Stores\<close>

text \<open>The in-memory checkpoint store, with a clock that stands still and identifiers that count up.\<close>

definition next_id :: "'a list \<Rightarrow> string" where
  "next_id xs = replicate (Suc (length xs)) CHR ''c''"

definition map_iter_store :: "((smsg, int) map_iterations, smsg, int) iter_store" where
  "map_iter_store =
     \<lparr>is_Save = (\<lambda>cp s. mi_Save None 1 (next_id (data_of s (cp_SessionID cp))) (Some cp) s),
      is_Load = (\<lambda>sid i s. (mi_Load None sid i s, s))\<rparr>"

definition sum_error :: "go_error + 'a \<Rightarrow> go_error option" where
  "sum_error r = (case r of Inl e \<Rightarrow> Some e | Inr a \<Rightarrow> None)"

text \<open>The in-memory interrupt store.\<close>

definition map_int_store :: "((smsg, int, string \<times> string) mapstore, smsg, int) int_store" where
  "map_int_store =
     \<lparr>st_Create = (\<lambda>r s. ms_Create None 1 (next_id s) (Some r) s), st_Get = (\<lambda>i s. (ms_Get None i s, s)),
      st_Submit = (\<lambda>i ds s. ms_SubmitDecisions None 1 i ds s), st_Acquire = (\<lambda>i owner ttl s. ms_AcquireLease None 1 i owner ttl s),
      st_Release = (\<lambda>i owner s. case ms_ReleaseLease None 1 i owner s of (r, s') \<Rightarrow> (sum_error r, s')),
      st_Complete = (\<lambda>i owner s. case ms_Complete None 1 i owner s of (r, s') \<Rightarrow> (sum_error r, s')),
      st_List = (\<lambda>sid s. (ms_List None sid s, s))\<rparr>"

section \<open>The agent\<close>

type_synonym script = "(smsg, int) chat_response list"
type_synonym sample_world = "(script, (smsg, int) map_iterations, (smsg, int, string \<times> string) mapstore, smsg) world"
type_synonym sample_agent = "(script, (smsg, int) map_iterations, (smsg, int, string \<times> string) mapstore, smsg, int) agent"

definition s_call :: "smsg chat_request \<Rightarrow> script \<Rightarrow> (go_error + (smsg, int) chat_response) \<times> script" where
  "s_call req x = (case x of [] \<Rightarrow> (Inl Canceled, [])
      | r # rs \<Rightarrow> (if s_answers (cr_Message r) = None \<and> 0 \<le> cr_Usage r \<and> cr_Usage r \<le> 7 then Inr r else Inl Canceled, rs))"

definition s_stream :: "smsg chat_request \<Rightarrow> script \<Rightarrow> (go_error + (smsg, int) chat_stream) \<times> script" where
  "s_stream req x =
     (case x of [] \<Rightarrow> (Inl Canceled, [])
      | r # rs \<Rightarrow>
          (if s_answers (cr_Message r) = None
           then Inr \<lparr>cs_recv = [Inr (s_text (cr_Message r))], cs_Usage = Some (cr_Usage r), cs_Message = cr_Message r,
             cs_FinishReason = cr_FinishReason r\<rparr>
           else Inl Canceled, rs))"

definition s_registry :: "script registry" where
  "s_registry =
     \<lparr>rg_names = \<lparr>tn_List = [''final'', ''read'', ''write''], tn_Get = (\<lambda>n. List.member [''final'', ''read'', ''write''] n)\<rparr>,
      rg_Execute = (\<lambda>ctx name args x. (if args = ''bad'' then Inl Canceled else Inr (text_result False '''' (name @ '' '' @ args)), x))\<rparr>"

definition s_policy :: "script int_policy" where
  "s_policy = \<lparr>po_Intercept = (\<lambda>x sid calls. map tc_ID (filter (\<lambda>tc. tc_Name tc = ''write'') calls)), po_Witness = None, po_BothSources = False\<rparr>"

definition s_schedule :: "script \<Rightarrow> nat \<Rightarrow> nat list" where
  "s_schedule x n = (if n \<le> 4 then rev [0..<n] else [0..<n])"

definition s_agent :: sample_agent where
  "s_agent =
     \<lparr>ag_ID = ''agent'', ag_Protocol = ''chat'', ag_ops = s_ops, ag_usage = \<lparr>us_Zero = 0, us_Add = (+), us_Total = id\<rparr>,
      ag_hasCaller = True, ag_call = s_call, ag_callStream = s_stream, ag_toolRegistry = Some s_registry, ag_hasMemory = True,
      ag_inputGuards = [], ag_outputGuards = [], ag_toolResultGuards = [], ag_ctxErr = (\<lambda>x k. None), ag_maxParallelToolCalls = 0,
      ag_schedule = s_schedule, ag_returnDirectTools = [''final''], ag_promptCaching = False, ag_iterationStore = Some map_iter_store,
      ag_interruptStore = Some map_int_store, ag_interruptPolicy = Some s_policy, ag_interruptLeaseTTL = 60,
      ag_newOwner = (\<lambda>x. (''owner'', x)), ag_checkpointFailureCB = None,
      ag_params = \<lparr>ap_model = ''m'', ap_temperature = None, ap_maxIterations = 4, ap_runTokenBudget = 10, ap_maxTokens = None\<rparr>,
      ag_modes = \<lparr>ToolModeNone = ''none'', ToolModeAllow = ''allow'', ToolModeAll = ''all''\<rparr>, ag_skills = (\<lambda>sid. None),
      ag_paramResolver = None, ag_build = (\<lambda>req tools x. (Inr (tq_Messages req, 0), x)), ag_middlewares = []\<rparr>"

definition s_world :: "script \<Rightarrow> sample_world" where
  "s_world x = \<lparr>w_ext = x, w_cps = NewMapIterationStore, w_ints = NewMapStore, w_events = [], w_requests = [], w_ran = [], w_memory = []\<rparr>"

definition answer :: "string \<Rightarrow> int \<Rightarrow> (smsg, int) chat_response" where
  "answer t n = \<lparr>cr_Message = SAssistant t [], cr_FinishReason = ''stop'', cr_Usage = n\<rparr>"

definition ask_tools :: "toolcall list \<Rightarrow> int \<Rightarrow> (smsg, int) chat_response" where
  "ask_tools tcs n = \<lparr>cr_Message = SAssistant '''' tcs, cr_FinishReason = ''tool_calls'', cr_Usage = n\<rparr>"

definition s_request :: "smsg task_request" where
  "s_request = \<lparr>tq_Messages = [SUser ''go''], tq_SessionID = ''s'', tq_Options = None, tq_Metadata = []\<rparr>"

text \<open>Two reads, then an answer.\<close>

definition reads :: script where
  "reads = [ask_tools [(''a'', ''read'', ''x''), (''b'', ''read'', ''bad'')] 5, answer ''done'' 3]"

text \<open>Reads that use up the budget.\<close>

definition costly :: script where
  "costly = [ask_tools [(''a'', ''read'', ''x'')] 7, ask_tools [(''b'', ''read'', ''y'')] 7, answer ''done'' 3]"

text \<open>A read and a write that the policy holds back, then an answer.\<close>

definition writes :: script where
  "writes = [ask_tools [(''a'', ''read'', ''x''), (''b'', ''write'', ''y'')] 5, answer ''done'' 3]"

definition s_params :: frozen_params where
  "s_params = (agent_defaults (ag_params s_agent))\<lparr>rp_toolFilter := [''final'', ''read'', ''write''], rp_toolsFrozen := True\<rparr>"

definition s_context :: "(smsg, int) run_context" where
  "s_context = new_context s_agent s_params s_request False"

text \<open>The loop of the sample agent on a script, in the synchronous mode.\<close>

definition s_loop :: "script \<Rightarrow> (go_error + stop_reason) \<times> (smsg, int) run_context \<times> sample_world" where
  "s_loop x = runReactLoop s_agent (syncMode s_agent) s_params [''read''] 0 s_context [SUser ''go''] (s_world x)"

lemma s_agent_facts [simp]:
  "ag_ops s_agent = s_ops" "parallel_cap s_agent = 4" "ag_schedule s_agent = s_schedule" "ag_call s_agent = s_call"
  "ag_callStream s_agent = s_stream" "ag_usage s_agent = \<lparr>us_Zero = 0, us_Add = (+), us_Total = id\<rparr>"
  "ag_toolRegistry s_agent = Some s_registry"
  by (simp_all add: s_agent_def parallel_cap_def defaultMaxParallelToolCalls_def)

end
