(* ===== verification/TaskProps.thy ===== *)
theory TaskProps
  imports TaskSample "HOL-Library.Sublist" "HOL-Library.Multiset"
begin

text \<open>
  What the ReAct loop of the task agent guarantees: what it sends to the model, how often, and on which budget;
  that every tool call is run once and answered once, whatever the order of the handlers; and that a suspended
  batch is stored before anything of it runs.

  The contract of a mode, the events it may emit and the one request a turn makes, is a locale; both modes
  of the code interpret it.
\<close>

section \<open>Frames\<close>

text \<open>Steps that only log events and let the world outside move on.\<close>

definition quiet :: "('x, 'k, 'i, 'm) world \<Rightarrow> ('x, 'k, 'i, 'm) world \<Rightarrow> bool" where
  "quiet w w' \<longleftrightarrow> w_requests w' = w_requests w \<and> w_ran w' = w_ran w \<and> w_cps w' = w_cps w \<and>
     w_ints w' = w_ints w \<and> w_memory w' = w_memory w"

text \<open>Steps that may also run handlers, or write checkpoints.\<close>

definition no_request :: "('x, 'k, 'i, 'm) world \<Rightarrow> ('x, 'k, 'i, 'm) world \<Rightarrow> bool" where
  "no_request w w' \<longleftrightarrow> w_requests w' = w_requests w \<and> w_memory w' = w_memory w"

named_theorems frames

lemma quiet_refl [simp]: "quiet w w"
  by (simp add: quiet_def)

lemma quiet_trans: "quiet w w1 \<Longrightarrow> quiet w1 w2 \<Longrightarrow> quiet w w2"
  by (simp add: quiet_def)

lemma no_request_refl [simp]: "no_request w w"
  by (simp add: no_request_def)

lemma no_request_trans: "no_request w w1 \<Longrightarrow> no_request w1 w2 \<Longrightarrow> no_request w w2"
  by (simp add: no_request_def)

lemma quiet_no_request: "quiet w w' \<Longrightarrow> no_request w w'"
  by (simp add: quiet_def no_request_def)

lemma dispatch_quiet [simp]: "quiet w (dispatch sid ev w)"
  by (simp add: dispatch_def quiet_def)

lemma dispatch_frame [simp]:
  "w_ext (dispatch sid ev w) = w_ext w" "w_cps (dispatch sid ev w) = w_cps w" "w_ints (dispatch sid ev w) = w_ints w"
  "w_requests (dispatch sid ev w) = w_requests w" "w_ran (dispatch sid ev w) = w_ran w" "w_memory (dispatch sid ev w) = w_memory w"
  by (simp_all add: dispatch_def)

lemma save_checkpoint_frame [simp]:
  "w_requests (saveIterationCheckpoint ag rc ms f stop w) = w_requests w" "w_ran (saveIterationCheckpoint ag rc ms f stop w) = w_ran w"
  "w_ints (saveIterationCheckpoint ag rc ms f stop w) = w_ints w" "w_memory (saveIterationCheckpoint ag rc ms f stop w) = w_memory w"
  by (simp_all add: saveIterationCheckpoint_def Let_def split: option.splits prod.splits sum.splits)

section \<open>The contract of a mode\<close>

text \<open>
  Sending an event only logs it; a turn makes the one request it is given and charges it to the context,
  whose other fields stay.
\<close>

locale turn_contract =
  fixes mode :: "('x, 'k, 'i, 'm, 'u) react_mode"
  assumes sink_quiet: "rm_sink mode sid ev w = (r, w') \<Longrightarrow> quiet w w'"
    and start_quiet: "rm_emitIterationStart mode sid it w = (r, w') \<Longrightarrow> quiet w w'"
    and created_quiet: "rm_emitInterruptCreated mode sid it d w = (r, w') \<Longrightarrow> quiet w w'"
    and turn_request: "rm_executeTurn mode rc req w = (a, rc', w') \<Longrightarrow> quiet (w\<lparr>w_requests := w_requests w @ [req]\<rparr>) w'"
    and turn_context: "rm_executeTurn mode rc req w = (a, rc', w') \<Longrightarrow>
        \<exists>n u. rc' = rc\<lparr>rc_totalUsage := u, rc_tracker := Add_tokens n (rc_tracker rc)\<rparr>"
begin

lemma emit_all_quiet: "emit_all (rm_sink mode sid) evs w = (r, w') \<Longrightarrow> quiet w w'"
proof (induction evs arbitrary: w)
  case (Cons ev evs)
  then show ?case by (auto split: prod.splits option.splits dest: sink_quiet intro: quiet_trans)
qed simp

lemma finish_calls_quiet: "finish_calls ag sid emitResult (rm_sink mode sid) crs w = (r, w') \<Longrightarrow> quiet w w'"
proof (induction crs arbitrary: w r w')
  case (Cons cr crs)
  obtain tc res where [simp]: "cr = (tc, res)" by (rule prod.exhaust)
  have opt: "\<And>ev w r w'. (case ev of None \<Rightarrow> (None, w) | Some e \<Rightarrow> rm_sink mode sid e w) = (r, w') \<Longrightarrow> quiet w w'"
    by (auto split: option.splits dest: sink_quiet)
  have cond: "\<And>b ev w r w'. (if b then rm_sink mode sid ev w else (None, w)) = (r, w') \<Longrightarrow> quiet w w'"
    by (auto split: if_splits dest: sink_quiet)
  show ?case using Cons.prems
    by (auto split: prod.splits option.splits sum.splits dest!: opt cond sink_quiet Cons.IH intro: quiet_trans
        simp del: option.case_distrib)
qed simp

end

section \<open>The tool batch\<close>

text \<open>What the code relies on of the constructors of the external message package.\<close>

definition ops_ok :: "'m schema_ops \<Rightarrow> ('m \<Rightarrow> string option) \<Rightarrow> bool" where
  "ops_ok ops answers \<longleftrightarrow>
     (\<forall>i t. tr_ToolCallID (mo_ErrorResult ops i t) = i) \<and> (\<forall>i t. tr_ToolCallID (mo_TextResult ops i t) = i) \<and>
     (\<forall>p i t e. answers (mo_NewToolResult ops p i t e) = Some i \<and> mo_ToolCalls ops (mo_NewToolResult ops p i t e) = [])"

definition schedules_ok :: "('x, 'k, 'i, 'm, 'u) agent \<Rightarrow> bool" where
  "schedules_ok ag \<longleftrightarrow> (\<forall>x n. schedule_ok (parallel_cap ag) n (ag_schedule ag x n))"

definition batch_order :: "('x, 'k, 'i, 'm, 'u) agent \<Rightarrow> 'x \<Rightarrow> nat \<Rightarrow> nat list" where
  "batch_order ag x n = (if n = 1 \<or> parallel_cap ag \<le> 1 then [0..<n] else ag_schedule ag x n)"

definition result_message :: "('x, 'k, 'i, 'm, 'u) agent \<Rightarrow> tool_result \<Rightarrow> 'm" where
  "result_message ag r = mo_NewToolResult (ag_ops ag) (ag_Protocol ag) (tr_ToolCallID r) (mo_ResultText (ag_ops ag) r) (tr_IsError r)"

definition ran_as :: "call_ctx \<Rightarrow> toolcall \<Rightarrow> toolcall \<times> bool" where
  "ran_as ctx tc = (tc, IsApprovedCall (Some ctx) (tc_ID tc))"

lemma batch_order_sort: "schedules_ok ag \<Longrightarrow> sort (batch_order ag x n) = [0..<n]"
  by (simp add: batch_order_def schedules_ok_def schedule_ok_def sorted_sort_id)

lemma batch_order_mset: "schedules_ok ag \<Longrightarrow> mset (batch_order ag x n) = mset [0..<n]"
  by (metis batch_order_sort mset_sort)

lemma batch_order_set: "schedules_ok ag \<Longrightarrow> set (batch_order ag x n) = {..<n}"
  by (metis batch_order_mset mset_eq_setD set_upt atLeast0LessThan)

lemma executing_flag [simp]:
  "IsApprovedCall (Some (WithExecutingCall (Some ctx) i)) (ExecutingCallID (Some (WithExecutingCall (Some ctx) i))) =
     IsApprovedCall (Some ctx) i"
  by (simp add: IsApprovedCall_def WithExecutingCall_def ExecutingCallID_def split: option.splits)

lemma executeToolCall_frame:
  assumes "executeToolCall ag ctx tc w = (r, w')"
  shows "w_requests w' = w_requests w" "w_cps w' = w_cps w" "w_ints w' = w_ints w" "w_memory w' = w_memory w"
    "w_events w' = w_events w" "ops_ok (ag_ops ag) answers \<Longrightarrow> tr_ToolCallID r = tc_ID tc"
    "ag_toolRegistry ag = Some rg \<Longrightarrow> w_ran w' = w_ran w @ [ran_as ctx tc]"
    "ag_toolRegistry ag = None \<Longrightarrow> w_ran w' = w_ran w"
  using assms
  by (auto simp: executeToolCall_def Let_def ran_as_def ops_ok_def split: option.splits prod.splits sum.splits)

lemma run_handlers_frame:
  "run_handlers ag ctx calls order rs w = (rs', w') \<Longrightarrow>
     w_requests w' = w_requests w \<and> w_cps w' = w_cps w \<and> w_ints w' = w_ints w \<and> w_memory w' = w_memory w \<and>
     w_events w' = w_events w \<and> length rs' = length rs"
proof (induction order arbitrary: rs w)
  case (Cons i js)
  then show ?case by (force split: prod.splits dest: executeToolCall_frame)
qed simp

lemma run_handlers_ran:
  "run_handlers ag ctx calls order rs w = (rs', w') \<Longrightarrow>
     w_ran w' = w_ran w @ (if ag_toolRegistry ag = None then [] else map (\<lambda>i. ran_as ctx (calls ! i)) order)"
proof (induction order arbitrary: rs w)
  case (Cons i js)
  then show ?case by (cases "ag_toolRegistry ag") (auto split: prod.splits dest: executeToolCall_frame)
qed simp

lemma run_handlers_ids:
  assumes "ops_ok (ag_ops ag) answers" "run_handlers ag ctx calls order rs w = (rs', w')"
    and "\<forall>j < length rs. j \<notin> set order \<longrightarrow> tr_ToolCallID (rs ! j) = tc_ID (calls ! j)"
  shows "\<forall>j < length rs'. tr_ToolCallID (rs' ! j) = tc_ID (calls ! j)"
  using assms(2,3)
proof (induction order arbitrary: rs w)
  case (Cons i js)
  obtain r w1 where e: "executeToolCall ag ctx (calls ! i) w = (r, w1)" by (rule prod.exhaust)
  have "tr_ToolCallID r = tc_ID (calls ! i)" using executeToolCall_frame(6) [OF e assms(1)] .
  then have "\<forall>j < length (rs[i := r]). j \<notin> set js \<longrightarrow> tr_ToolCallID (rs[i := r] ! j) = tc_ID (calls ! j)"
    using Cons.prems(2) by (metis length_list_update nth_list_update_eq nth_list_update_neq set_ConsD)
  then show ?case using Cons.prems(1) e by (intro Cons.IH [of "rs[i := r]" w1]) simp_all
qed simp

lemma guarded_id:
  assumes "ops_ok (ag_ops ag) answers" "runToolResultGuards ag sid tc r x = (r', ev)" "tr_ToolCallID r = tc_ID tc"
  shows "tr_ToolCallID r' = tc_ID tc"
  using assms
  by (auto simp: runToolResultGuards_def Let_def ops_ok_def split: if_splits option.splits sum.splits)

lemma finish_calls_results:
  assumes "ops_ok (ag_ops ag) answers"
  shows "finish_calls ag sid b sink crs w = (Inr (msgs, rs), w') \<Longrightarrow> \<forall>(tc, r) \<in> set crs. tr_ToolCallID r = tc_ID tc \<Longrightarrow>
     map tr_ToolCallID rs = map (tc_ID \<circ> fst) crs \<and> msgs = map (result_message ag) rs"
proof (induction crs arbitrary: w msgs rs w')
  case (Cons cr crs)
  obtain tc r where [simp]: "cr = (tc, r)" by (rule prod.exhaust)
  have "\<exists>res ev x wb wc msgs' rs'. runToolResultGuards ag sid tc r x = (res, ev) \<and>
      finish_calls ag sid b sink crs wb = (Inr (msgs', rs'), wc) \<and> msgs = result_message ag res # msgs' \<and> rs = res # rs'"
    using Cons.prems(1) unfolding result_message_def
    by (simp split: prod.splits option.splits sum.splits if_splits; blast)
  then obtain res ev x wb wc msgs' rs' where g: "runToolResultGuards ag sid tc r x = (res, ev)"
    and rest: "finish_calls ag sid b sink crs wb = (Inr (msgs', rs'), wc)"
    and eq: "msgs = result_message ag res # msgs'" "rs = res # rs'" by blast
  have "tr_ToolCallID res = tc_ID tc" using guarded_id [OF assms g] Cons.prems(2) by simp
  then show ?case using Cons.IH [OF rest] Cons.prems(2) eq by simp
qed simp


lemma schedule_ok_seq: "0 < cap \<Longrightarrow> schedule_ok cap n [0..<n]"
  by (auto simp: schedule_ok_def sorted_sort_id list_all_iff in_set_zip)

lemma schedule_ok_mset: "schedule_ok cap n order \<Longrightarrow> mset (map f order) = mset (map f [0..<n])"
  by (metis mset_map mset_sort schedule_ok_def)

text \<open>The batch as a whole, behind any sink that only logs.\<close>

lemma batch_results:
  assumes ops: "ops_ok (ag_ops ag) answers" and sched: "schedules_ok ag"
    and run: "executeToolBatch ag ctx sid calls b sink w = (Inr (msgs, rs), w')"
  shows "map tr_ToolCallID rs = map tc_ID calls \<and> msgs = map (result_message ag) rs"
proof (cases "calls = []")
  case True
  then show ?thesis using run by (simp add: executeToolBatch_def)
next
  case False
  obtain w1 where e: "emit_all sink (map EvToolCallStart calls) w = (None, w1)"
    using run False by (auto simp: executeToolBatch_def Let_def split: prod.splits option.splits)
  let ?order = "batch_order ag (w_ext w1) (length calls)"
  obtain results w2 where h: "run_handlers ag ctx calls ?order (replicate (length calls) zero_result) w1 = (results, w2)"
    by (rule prod.exhaust)
  have f: "finish_calls ag sid b sink (zip calls results) w2 = (Inr (msgs, rs), w')"
    using run False e h by (simp add: executeToolBatch_def batch_order_def Let_def cong: if_cong)
  have len: "length results = length calls" using run_handlers_frame [OF h] by simp
  have "\<forall>j < length results. tr_ToolCallID (results ! j) = tc_ID (calls ! j)"
    by (rule run_handlers_ids [OF ops h]) (simp add: batch_order_set [OF sched])
  then have "\<forall>(tc, r) \<in> set (zip calls results). tr_ToolCallID r = tc_ID tc" using len by (auto simp: set_zip)
  from finish_calls_results [OF ops f this] show ?thesis using len by (simp flip: map_map)
qed

context turn_contract
begin

text \<open>A batch sends no request and touches no store; every call is run once, in an order of the schedule.\<close>

lemma batch_frame:
  assumes "executeToolBatch ag ctx sid calls b (rm_sink mode sid) w = (r, w')"
  shows "w_requests w' = w_requests w \<and> w_cps w' = w_cps w \<and> w_ints w' = w_ints w \<and> w_memory w' = w_memory w"
proof -
  have q: "\<And>e w0 w1. emit_all (rm_sink mode sid) (map EvToolCallStart calls) w0 = (e, w1) \<Longrightarrow> quiet w0 w1"
    by (rule emit_all_quiet)
  show ?thesis using assms
    by (auto simp: executeToolBatch_def Let_def quiet_def split: if_splits prod.splits option.splits
        dest!: q run_handlers_frame finish_calls_quiet)
qed

lemma batch_ran:
  assumes sched: "schedules_ok ag" and reg: "ag_toolRegistry ag \<noteq> None"
    and run: "executeToolBatch ag ctx sid calls b (rm_sink mode sid) w = (Inr res, w')"
  shows "\<exists>order. schedule_ok (max 1 (parallel_cap ag)) (length calls) order \<and>
     w_ran w' = w_ran w @ map (\<lambda>i. ran_as ctx (calls ! i)) order"
proof (cases "calls = []")
  case True
  then show ?thesis using run by (intro exI [of _ "[]"]) (simp add: executeToolBatch_def schedule_ok_def)
next
  case False
  obtain w1 where e: "emit_all (rm_sink mode sid) (map EvToolCallStart calls) w = (None, w1)"
    using run False by (auto simp: executeToolBatch_def Let_def split: prod.splits option.splits)
  let ?order = "batch_order ag (w_ext w1) (length calls)"
  obtain results w2 where h: "run_handlers ag ctx calls ?order (replicate (length calls) zero_result) w1 = (results, w2)"
    by (rule prod.exhaust)
  have f: "finish_calls ag sid b (rm_sink mode sid) (zip calls results) w2 = (Inr res, w')"
    using run False e h by (simp add: executeToolBatch_def batch_order_def Let_def cong: if_cong)
  have "w_ran w' = w_ran w @ map (\<lambda>i. ran_as ctx (calls ! i)) ?order"
    using emit_all_quiet [OF e] run_handlers_ran [OF h] finish_calls_quiet [OF f] reg by (simp add: quiet_def)
  moreover have "schedule_ok (max 1 (parallel_cap ag)) (length calls) ?order"
    using sched by (auto simp: batch_order_def schedules_ok_def max_def schedule_ok_seq)
  ultimately show ?thesis by blast
qed

end


section \<open>The loop\<close>

text \<open>An invariant of the turns gives a property of the result; the first argument counts the turns left.\<close>

lemma react_loop_rule:
  assumes "I N it rc ms w"
    and "\<And>n it rc ms w res. I (Suc n) it rc ms w \<Longrightarrow> react_turn ag mode p tools it rc ms w = Inl res \<Longrightarrow> Q res"
    and "\<And>n it rc ms w ms' rc' w'. I (Suc n) it rc ms w \<Longrightarrow> react_turn ag mode p tools it rc ms w = Inr (ms', rc', w') \<Longrightarrow>
        I n (it + 1) rc' ms' w'"
    and "\<And>it rc ms w. I 0 it rc ms w \<Longrightarrow> Q (loop_ends ag StopMaxIterations (rc\<lparr>rc_iteration := rp_maxIter p - 1\<rparr>) ms w)"
  shows "Q (react_loop ag mode p tools N it rc ms w)"
  using assms(1)
proof (induction N arbitrary: it rc ms w)
  case 0
  then show ?case using assms(4) by simp
next
  case (Suc N)
  then show ?case using assms(2,3) by (auto split: sum.splits)
qed

text \<open>Every message that calls tools is followed by the answers to its calls, in their order, and there are no others.\<close>

function paired :: "('m \<Rightarrow> toolcall list) \<Rightarrow> ('m \<Rightarrow> string option) \<Rightarrow> 'm list \<Rightarrow> bool" where
  "paired calls answers [] = True"
| "paired calls answers (m # ms) =
     (answers m = None \<and> map answers (take (length (calls m)) ms) = map (\<lambda>tc. Some (tc_ID tc)) (calls m) \<and>
      paired calls answers (drop (length (calls m)) ms))"
  by pat_completeness auto
termination by (relation "measure (\<lambda>(c, a, ms). length ms)") auto

lemma paired_append: "paired calls answers xs \<Longrightarrow> paired calls answers ys \<Longrightarrow> paired calls answers (xs @ ys)"
proof (induction calls answers xs rule: paired.induct)
  case (2 calls answers m ms)
  have len: "length (calls m) \<le> length ms"
    using arg_cong [where f = length, OF conjunct1 [OF conjunct2 [OF 2(2) [unfolded paired.simps]]]] by simp
  then show ?case using 2 by simp
qed simp

lemma paired_turn:
  "answers m = None \<Longrightarrow> map answers ts = map (\<lambda>tc. Some (tc_ID tc)) (calls m) \<Longrightarrow> paired calls answers (m # ts)"
  by (metis drop_all length_map order_refl paired.simps take_all)

text \<open>Requests of one loop: with paired messages, each longer than the one before, the first with the given messages.\<close>

definition requests_ok :: "('x, 'k, 'i, 'm, 'u) agent \<Rightarrow> ('m \<Rightarrow> string option) \<Rightarrow> frozen_params \<Rightarrow> string list \<Rightarrow> 'm list
      \<Rightarrow> 'm chat_request list \<Rightarrow> bool" where
  "requests_ok ag answers p tools ms0 qs \<longleftrightarrow>
     list_all (\<lambda>q. paired (mo_ToolCalls (ag_ops ag)) answers (cq_Messages q) \<and> q = chat_request_of ag p (cq_Messages q) tools) qs \<and>
     sorted_wrt strict_prefix (map cq_Messages qs) \<and> (case qs of [] \<Rightarrow> True | q # _ \<Rightarrow> cq_Messages q = ms0)"

lemma requests_ok_snoc:
  assumes "requests_ok ag answers p tools ms0 qs" "paired (mo_ToolCalls (ag_ops ag)) answers ms"
    and "list_all (\<lambda>q. strict_prefix (cq_Messages q) ms) qs" "qs = [] \<Longrightarrow> ms = ms0"
  shows "requests_ok ag answers p tools ms0 (qs @ [chat_request_of ag p ms tools])"
  using assms by (cases qs) (auto simp: requests_ok_def sorted_wrt_append list_all_iff chat_request_of_def)

lemma maybeInterrupt_frame:
  assumes "maybeInterrupt ag pol rc p ms calls w = (r, w')"
  shows "w_requests w' = w_requests w \<and> w_ran w' = w_ran w \<and> w_cps w' = w_cps w \<and> w_memory w' = w_memory w \<and>
    w_ext w' = w_ext w \<and> w_events w' = w_events w"
  using assms by (auto simp: maybeInterrupt_def Let_def split: option.splits if_splits prod.splits)

context turn_contract
begin

lemma gate_frame:
  "interrupt_gate ag mode p rc ms calls w = Inl (r, rc', w') \<Longrightarrow> w_requests w' = w_requests w \<and> w_ran w' = w_ran w \<and>
     w_memory w' = w_memory w \<and> w_cps w' = w_cps w \<and> rc_tracker rc' = rc_tracker rc"
  "interrupt_gate ag mode p rc ms calls w = Inr w' \<Longrightarrow> w_requests w' = w_requests w \<and> w_ran w' = w_ran w \<and>
     w_memory w' = w_memory w \<and> w_cps w' = w_cps w"
  by (auto simp: interrupt_gate_def loop_fails_def quiet_def split: option.splits prod.splits sum.splits
      dest!: maybeInterrupt_frame created_quiet)

text \<open>A turn makes at most one request, and one that goes on exactly one.\<close>

lemma turn_ends_requests:
  assumes "react_turn ag mode p tools it rc ms w = Inl (r, rc', w')"
  shows "w_requests w' = w_requests w \<or> w_requests w' = w_requests w @ [chat_request_of ag p ms tools]"
  using assms
  by (auto simp: react_turn_def batch_turn_def loop_fails_def loop_ends_def Let_def quiet_def
      split: if_splits option.splits prod.splits sum.splits dest!: start_quiet turn_request batch_frame gate_frame)

lemma turn_goes_on:
  assumes "react_turn ag mode p tools it rc ms w = Inr (ms', rc', w')"
  obtains m fr rc1 w1 w2 w3 w4 msgs rs where
    "rm_executeTurn mode (rc\<lparr>rc_iteration := it\<rparr>) (chat_request_of ag p ms tools) w1 = (Inr (m, fr), rc1, w2)"
    "executeToolBatch ag background (rc_sessionID rc') (mo_ToolCalls (ag_ops ag) m) (rm_emitResultEvent mode)
       (rm_sink mode (rc_sessionID rc')) w3 = (Inr (msgs, rs), w4)"
    "ms' = ms @ [m] @ msgs" "rc' = rc1\<lparr>rc_lastMsg := m\<rparr>" "mo_ToolCalls (ag_ops ag) m \<noteq> []" "quiet w w1"
    "interrupt_gate ag mode p rc' (ms @ [m]) (mo_ToolCalls (ag_ops ag) m) w2 = Inr w3"
    "w' = saveIterationCheckpoint ag rc' ms' False NoStop w4"
    "\<not> Exhausted (rc_tracker rc)" "\<not> Exhausted (rc_tracker rc')"
proof -
  let ?rc = "rc\<lparr>rc_iteration := it\<rparr>"
  have ne: "\<not> Exhausted (rc_tracker rc)"
  proof
    assume "Exhausted (rc_tracker rc)"
    then show False using assms by (simp add: react_turn_def)
  qed
  obtain e w1 where s0: "rm_emitIterationStart mode (rc_sessionID ?rc) it w = (e, w1)" by (rule prod.exhaust)
  then have s: "rm_emitIterationStart mode (rc_sessionID ?rc) it w = (None, w1)"
    using assms ne by (cases e) (simp_all add: react_turn_def)
  obtain a rc1 w2 where t0: "rm_executeTurn mode ?rc (chat_request_of ag p ms tools) w1 = (a, rc1, w2)" by (metis prod_cases3)
  obtain m fr where [simp]: "a = Inr (m, fr)"
    using assms ne s t0 by (cases a) (auto simp: react_turn_def)
  let ?rc' = "rc1\<lparr>rc_lastMsg := m\<rparr>" and ?calls = "mo_ToolCalls (ag_ops ag) m"
  have t: "rm_executeTurn mode ?rc (chat_request_of ag p ms tools) w1 = (Inr (m, fr), rc1, w2)" using t0 by simp
  have cont: "fr = mo_FinishToolCalls (ag_ops ag)" "?calls \<noteq> []" "\<not> Exhausted (rc_tracker rc1)"
    using assms ne s t by (auto simp: react_turn_def Let_def split: if_splits)
  obtain w3 where g: "interrupt_gate ag mode p ?rc' (ms @ [m]) ?calls w2 = Inr w3"
    using assms ne s t cont by (cases "interrupt_gate ag mode p ?rc' (ms @ [m]) ?calls w2") (auto simp: react_turn_def Let_def)
  have turn: "batch_turn ag mode ?rc' (ms @ [m]) ?calls w3 = Inr (ms', rc', w')"
    using assms ne s t cont g by (simp add: react_turn_def Let_def)
  obtain msgs rs w4 where b: "executeToolBatch ag background (rc_sessionID ?rc') ?calls (rm_emitResultEvent mode)
      (rm_sink mode (rc_sessionID ?rc')) w3 = (Inr (msgs, rs), w4)"
    using turn by (auto simp: batch_turn_def split: prod.splits sum.splits)
  have "ms' = ms @ [m] @ msgs" "rc' = ?rc'" "w' = saveIterationCheckpoint ag rc' ms' False NoStop w4"
    using turn b by (auto simp: batch_turn_def Let_def split: option.splits)
  then show ?thesis using that t b cont(2,3) g start_quiet [OF s] ne by simp
qed

end


lemma batch_answers:
  assumes "ops_ok (ag_ops ag) answers" "schedules_ok ag" "executeToolBatch ag ctx sid calls b sink w = (Inr (msgs, rs), w')"
  shows "map answers msgs = map (\<lambda>tc. Some (tc_ID tc)) calls"
proof -
  have eq: "answers \<circ> result_message ag = Some \<circ> tr_ToolCallID" using assms(1) by (auto simp: ops_ok_def result_message_def)
  have "map answers msgs = map (answers \<circ> result_message ag) rs" using batch_results [OF assms] by simp
  also have "\<dots> = map Some (map tr_ToolCallID rs)" by (simp only: eq map_map)
  also have "\<dots> = map Some (map tc_ID calls)" using batch_results [OF assms] by (simp only:)
  finally show ?thesis by (simp add: comp_def)
qed

context turn_contract
begin

lemma loop_requests:
  assumes ops: "ops_ok (ag_ops ag) answers" and sched: "schedules_ok ag"
    and model: "\<And>rc req w m fr rc' w'. rm_executeTurn mode rc req w = (Inr (m, fr), rc', w') \<Longrightarrow> answers m = None"
    and init: "paired (mo_ToolCalls (ag_ops ag)) answers ms0"
    and run: "runReactLoop ag mode p tools start rc0 ms0 w0 = (r, rc', w')"
  shows "\<exists>qs. w_requests w' = w_requests w0 @ qs \<and> length qs \<le> nat (rp_maxIter p - start) \<and> requests_ok ag answers p tools ms0 qs"
proof -
  let ?N = "nat (rp_maxIter p - start)" and ?pre = "\<lambda>qs ms. list_all (\<lambda>q. strict_prefix (cq_Messages q) ms) qs"
  define I where "I = (\<lambda>n (it :: int) (rc :: ('m, 'u) run_context) ms (w :: ('x, 'k, 'i, 'm) world). \<exists>qs. w_requests w = w_requests w0 @ qs \<and>
     length qs + n = ?N \<and> requests_ok ag answers p tools ms0 qs \<and> paired (mo_ToolCalls (ag_ops ag)) answers ms \<and>
     (qs = [] \<longrightarrow> ms = ms0) \<and> ?pre qs ms)"
  define Q where "Q = (\<lambda>res :: ('x, 'k, 'i, 'm, 'u) loop_result. \<exists>qs. w_requests (snd (snd res)) = w_requests w0 @ qs \<and> length qs \<le> ?N \<and>
     requests_ok ag answers p tools ms0 qs)"
  have "Q (react_loop ag mode p tools ?N start rc0 ms0 w0)"
  proof (rule react_loop_rule [where I = I])
    show "I ?N start rc0 ms0 w0" using init by (simp add: I_def requests_ok_def)
  next
    fix n it rc ms w res assume i: "I (Suc n) it rc ms w" and t: "react_turn ag mode p tools it rc ms w = Inl res"
    obtain r rc' w' where [simp]: "res = (r, rc', w')" by (metis prod_cases3)
    from i obtain qs where q: "w_requests w = w_requests w0 @ qs" "length qs + Suc n = ?N" "requests_ok ag answers p tools ms0 qs"
      "paired (mo_ToolCalls (ag_ops ag)) answers ms" "qs = [] \<longrightarrow> ms = ms0" "?pre qs ms" unfolding I_def by blast
    have "w_requests w' = w_requests w \<or> w_requests w' = w_requests w @ [chat_request_of ag p ms tools]"
      using t turn_ends_requests by simp
    then show "Q res" using q requests_ok_snoc [OF q(3,4,6)] unfolding Q_def
      by (elim disjE) (force intro: exI [of _ qs], force intro: exI [of _ "qs @ [chat_request_of ag p ms tools]"])
  next
    fix n it rc ms w ms' rc' w' assume i: "I (Suc n) it rc ms w" and t: "react_turn ag mode p tools it rc ms w = Inr (ms', rc', w')"
    from i obtain qs where q: "w_requests w = w_requests w0 @ qs" "length qs + Suc n = ?N" "requests_ok ag answers p tools ms0 qs"
      "paired (mo_ToolCalls (ag_ops ag)) answers ms" "qs = [] \<longrightarrow> ms = ms0" "?pre qs ms" unfolding I_def by blast
    from t obtain m fr rc1 w1 w2 w3 w4 msgs rs where
      e: "rm_executeTurn mode (rc\<lparr>rc_iteration := it\<rparr>) (chat_request_of ag p ms tools) w1 = (Inr (m, fr), rc1, w2)"
      and b: "executeToolBatch ag background (rc_sessionID rc') (mo_ToolCalls (ag_ops ag) m) (rm_emitResultEvent mode)
         (rm_sink mode (rc_sessionID rc')) w3 = (Inr (msgs, rs), w4)"
      and x: "ms' = ms @ [m] @ msgs" "quiet w w1" "interrupt_gate ag mode p rc' (ms @ [m]) (mo_ToolCalls (ag_ops ag) m) w2 = Inr w3"
         "w' = saveIterationCheckpoint ag rc' ms' False NoStop w4" by (rule turn_goes_on)
    have req: "w_requests w' = w_requests w0 @ qs @ [chat_request_of ag p ms tools]"
      using q(1) x turn_request [OF e] batch_frame [OF b] gate_frame(2) [OF x(3)] by (simp add: quiet_def)
    have "map answers msgs = map (\<lambda>tc. Some (tc_ID tc)) (mo_ToolCalls (ag_ops ag) m)"
      by (rule batch_answers [OF ops sched b])
    then have "paired (mo_ToolCalls (ag_ops ag)) answers (m # msgs)" using paired_turn [of answers m msgs] model [OF e] by blast
    then have "paired (mo_ToolCalls (ag_ops ag)) answers ms'" using q(4) x(1) paired_append by fastforce
    moreover have "?pre (qs @ [chat_request_of ag p ms tools]) ms'"
      using q(6) x(1) by (auto simp: list_all_iff chat_request_of_def strict_prefix_def)
    ultimately show "I n (it + 1) rc' ms' w'"
      using req q requests_ok_snoc [OF q(3,4,6)] unfolding I_def
      by (intro exI [of _ "qs @ [chat_request_of ag p ms tools]"]) simp
  next
    fix it rc ms w assume "I 0 it rc ms w"
    then show "Q (loop_ends ag StopMaxIterations (rc\<lparr>rc_iteration := rp_maxIter p - 1\<rparr>) ms w)"
      unfolding I_def Q_def loop_ends_def by force
  qed
  then show ?thesis using run unfolding Q_def runReactLoop_def by simp
qed

end

section \<open>The two modes\<close>

lemma buildSend_quiet: "buildSend raw sid ev w = (r, w') \<Longrightarrow> quiet w w'"
  by (auto simp: buildSend_def Let_def quiet_def split: agent_event.splits prod.splits)

lemma recv_loop_quiet: "recv_loop (buildSend raw sid) n ds w = (r, w') \<Longrightarrow> quiet w w'"
proof (induction ds arbitrary: n w)
  case (Cons d ds)
  then show ?case by (cases d) (auto split: if_splits prod.splits option.splits dest: buildSend_quiet intro: quiet_trans)
qed simp

lemma context_kept: "\<exists>n u. rc = rc\<lparr>rc_totalUsage := u, rc_tracker := Add_tokens n (rc_tracker rc)\<rparr>"
  by (rule exI [of _ 0], rule exI [of _ "rc_totalUsage rc"]) (simp add: Add_tokens_def)

lemma context_charged: "\<exists>n v. charge ag u rc = rc\<lparr>rc_totalUsage := v, rc_tracker := Add_tokens n (rc_tracker rc)\<rparr>"
  by (auto simp: charge_def)

lemma context_estimated:
  "\<exists>n u. rc\<lparr>rc_tracker := Add_tokens k (rc_tracker rc)\<rparr> = rc\<lparr>rc_totalUsage := u, rc_tracker := Add_tokens n (rc_tracker rc)\<rparr>"
  by (rule exI [of _ k], rule exI [of _ "rc_totalUsage rc"]) simp

interpretation sync: turn_contract "syncMode ag" for ag
  by unfold_locales
    (auto simp: syncMode_def sync_executeTurn_def Let_def quiet_def intro: context_kept context_charged split: prod.splits sum.splits)

lemma stream_turn_request:
  assumes "stream_executeTurn ag (buildSend raw) rc req w = (a, rc', w')"
  shows "quiet (w\<lparr>w_requests := w_requests w @ [req]\<rparr>) w'"
  using assms
  by (auto simp: stream_executeTurn_def Let_def quiet_def split: prod.splits sum.splits option.splits
      dest!: recv_loop_quiet buildSend_quiet)

lemma stream_turn_context:
  assumes "stream_executeTurn ag (buildSend raw) rc req w = (a, rc', w')"
  shows "\<exists>n u. rc' = rc\<lparr>rc_totalUsage := u, rc_tracker := Add_tokens n (rc_tracker rc)\<rparr>"
  using assms
  by (auto simp: stream_executeTurn_def Let_def intro: context_kept context_charged context_estimated
      split: prod.splits sum.splits option.splits)

interpretation stream: turn_contract "streamMode ag (buildSend raw)" for ag raw
  by unfold_locales
    (auto simp: streamMode_def intro: buildSend_quiet stream_turn_request stream_turn_context)


section \<open>What is sent to the model\<close>

text \<open>What the model answers with is not itself the answer to a tool call.\<close>

definition model_ok :: "('x, 'k, 'i, 'm, 'u) agent \<Rightarrow> ('m \<Rightarrow> string option) \<Rightarrow> bool" where
  "model_ok ag answers \<longleftrightarrow>
     (\<forall>req x resp x'. ag_call ag req x = (Inr resp, x') \<longrightarrow> answers (cr_Message resp) = None) \<and>
     (\<forall>req x stream x'. ag_callStream ag req x = (Inr stream, x') \<longrightarrow> answers (cs_Message stream) = None)"

lemma sync_answers: "model_ok ag answers \<Longrightarrow> rm_executeTurn (syncMode ag) rc req w = (Inr (m, fr), rc', w') \<Longrightarrow> answers m = None"
  by (auto simp: syncMode_def sync_executeTurn_def model_ok_def Let_def split: prod.splits sum.splits)

lemma stream_answers:
  "model_ok ag answers \<Longrightarrow> rm_executeTurn (streamMode ag send) rc req w = (Inr (m, fr), rc', w') \<Longrightarrow> answers m = None"
  by (auto simp: streamMode_def stream_executeTurn_def model_ok_def Let_def split: prod.splits sum.splits option.splits; blast)

text \<open>
  C2. What the ReAct loop sends to the model, in both modes and whatever the schedule of the tools: at most as
  many requests as there are iterations left, the first with exactly the given messages, each with more messages
  than the one before, with the parameters and the tools of the run; and in each of them every assistant message
  that calls tools is followed by the answers to its calls, in the order of the calls, with no answer left over.
\<close>

theorem requests_well_paired:
  assumes "ops_ok (ag_ops ag) answers" and "schedules_ok ag" and "model_ok ag answers"
    and "mode = syncMode ag \<or> mode = streamMode ag (buildSend raw)"
    and "paired (mo_ToolCalls (ag_ops ag)) answers messages"
    and "runReactLoop ag mode p tools start rc messages w = (r, rc', w')"
  shows "\<exists>qs. w_requests w' = w_requests w @ qs \<and> length qs \<le> nat (rp_maxIter p - start) \<and> requests_ok ag answers p tools messages qs"
  using assms(4)
proof
  assume m: "mode = syncMode ag"
  show ?thesis
    by (rule sync.loop_requests [OF assms(1,2) sync_answers [OF assms(3)] assms(5) assms(6) [unfolded m]])
next
  assume m: "mode = streamMode ag (buildSend raw)"
  show ?thesis
    by (rule stream.loop_requests [OF assms(1,2) stream_answers [OF assms(3)] assms(5) assms(6) [unfolded m]])
qed

lemma s_ops_ok: "ops_ok (ag_ops s_agent) s_answers"
  by (simp add: ops_ok_def s_ops_def text_result_def)

lemma s_model_ok: "model_ok s_agent s_answers"
  by (auto simp: model_ok_def s_call_def s_stream_def split: list.splits if_splits)

lemma s_schedules_ok: "schedules_ok s_agent"
proof -
  have "schedule_ok 4 n (s_schedule x n)" for x n
  proof (cases "n \<le> 4")
    case True
    then have "n \<in> {0, 1, 2, 3, 4}" by auto
    then show ?thesis by (elim insertE emptyE) (simp_all add: schedule_ok_def s_schedule_def upt_rec)
  next
    case False
    then show ?thesis by (simp add: s_schedule_def schedule_ok_seq)
  qed
  then show ?thesis by (simp add: schedules_ok_def)
qed

lemma s_loop_run:
  "s_loop x = (r, rc', w') \<Longrightarrow> runReactLoop s_agent (syncMode s_agent) s_params [''read''] 0 s_context [SUser ''go''] (s_world x) = (r, rc', w')"
  by (simp add: s_loop_def)

lemma triple: "x = (fst x, fst (snd x), snd (snd x))"
  by simp

theorem requests_well_paired_witness:
  "map cq_Messages (w_requests (snd (snd (s_loop reads)))) =
     [[SUser ''go''],
      [SUser ''go'', SAssistant '''' [(''a'', ''read'', ''x''), (''b'', ''read'', ''bad'')], STool ''a'' ''read x'' False, STool ''b'' ''error'' True]] \<and>
   requests_ok s_agent s_answers s_params [''read''] [SUser ''go''] (w_requests (snd (snd (s_loop reads))))"
proof -
  have "paired (mo_ToolCalls (ag_ops s_agent)) s_answers [SUser ''go'']" by (simp add: s_ops_def)
  from requests_well_paired [OF s_ops_ok s_schedules_ok s_model_ok disjI1 [OF refl] this s_loop_run [OF triple]]
  have "requests_ok s_agent s_answers s_params [''read''] [SUser ''go''] (w_requests (snd (snd (s_loop reads))))"
    by (force simp: s_world_def)
  moreover have "map cq_Messages (w_requests (snd (snd (s_loop reads)))) =
     [[SUser ''go''],
      [SUser ''go'', SAssistant '''' [(''a'', ''read'', ''x''), (''b'', ''read'', ''bad'')], STool ''a'' ''read x'' False, STool ''b'' ''error'' True]]"
    by code_simp
  ultimately show ?thesis by simp
qed


end
