(* ===== verification/TaskBudget.thy ===== *)
theory TaskBudget
  imports TaskProps
begin

text \<open>
  The token budget and the stop reasons of the ReAct loop, the exactness of a tool batch, and what a suspended
  run leaves behind.
\<close>

section \<open>The budget of tokens\<close>

text \<open>The usage of one answer of the model is between zero and \<open>c\<close>.\<close>

definition charges_within :: "('x, 'k, 'i, 'm, 'u) agent \<Rightarrow> int \<Rightarrow> bool" where
  "charges_within ag c \<longleftrightarrow> 0 \<le> c \<and> (\<forall>req x resp x'. ag_call ag req x = (Inr resp, x') \<longrightarrow>
     0 \<le> us_Total (ag_usage ag) (cr_Usage resp) \<and> us_Total (ag_usage ag) (cr_Usage resp) \<le> c)"

definition within_budget :: "int \<Rightarrow> int \<Rightarrow> ('m, 'u) run_context \<Rightarrow> bool" where
  "within_budget B c rc \<longleftrightarrow> bt_budget (rc_tracker rc) = B \<and> bt_consumed (rc_tracker rc) < B + c"

lemma sync_turn_budget:
  assumes "charges_within ag c" "within_budget B 0 rc" "rm_executeTurn (syncMode ag) rc req w = (a, rc', w')"
  shows "within_budget B c rc'"
  using assms
  by (fastforce simp: syncMode_def sync_executeTurn_def charge_def Add_tokens_def charges_within_def within_budget_def Let_def
      split: prod.splits sum.splits)

lemma exhausted_within: "0 < B \<Longrightarrow> within_budget B c rc \<Longrightarrow> \<not> Exhausted (rc_tracker rc) \<Longrightarrow> within_budget B 0 rc"
  by (auto simp: within_budget_def Exhausted_def split: if_splits)

text \<open>The answer the model gave to the last request.\<close>

definition last_answer :: "('x, 'k, 'i, 'm, 'u) agent \<Rightarrow> ('x, 'k, 'i, 'm) world \<Rightarrow> 'm \<Rightarrow> string \<Rightarrow> bool" where
  "last_answer ag w m fr \<longleftrightarrow> w_requests w \<noteq> [] \<and>
     (\<exists>x u x'. ag_call ag (last (w_requests w)) x = (Inr \<lparr>cr_Message = m, cr_FinishReason = fr, cr_Usage = u\<rparr>, x'))"

text \<open>
  Why a loop stopped after \<open>k\<close> requests of at most \<open>N\<close>. When all iterations were used, the budget is not used
  up and nothing is suspended. Otherwise the last answer decides: one that asks for no tools ends the run; else
  a used-up budget does, then a suspended batch, and only then the result of a tool that is returned directly.
\<close>

definition stop_exact :: "('x, 'k, 'i, 'm, 'u) agent \<Rightarrow> stop_reason \<Rightarrow> nat \<Rightarrow> nat \<Rightarrow> ('m, 'u) run_context
      \<Rightarrow> ('x, 'k, 'i, 'm) world \<Rightarrow> bool" where
  "stop_exact ag stop k N rc w \<longleftrightarrow>
     stop = StopMaxIterations \<and> k = N \<and> \<not> Exhausted (rc_tracker rc) \<and> rc_interruptDesc rc = None \<or>
     0 < k \<and> (\<exists>m fr. last_answer ag w m fr \<and>
       (let final = (fr \<noteq> mo_FinishToolCalls (ag_ops ag) \<or> mo_ToolCalls (ag_ops ag) m = []);
            used = Exhausted (rc_tracker rc); suspended = (rc_interruptDesc rc \<noteq> None);
            direct = (\<exists>rs r. returnDirectResult ag (mo_ToolCalls (ag_ops ag) m) rs = Some r \<and>
              rc_lastMsg rc = mo_NewAssistant (ag_ops ag) (ag_Protocol ag) (mo_ResultText (ag_ops ag) r)) in
        (stop = StopComplete \<longleftrightarrow> final \<or> \<not> used \<and> \<not> suspended) \<and>
        (stop = StopBudgetExhausted \<longleftrightarrow> \<not> final \<and> used) \<and>
        (stop = StopInterrupted \<longleftrightarrow> \<not> final \<and> \<not> used \<and> suspended) \<and>
        (if stop = StopComplete \<and> \<not> final then direct else rc_lastMsg rc = m)))"

lemma batch_turn_ends:
  assumes "batch_turn ag (syncMode ag) rc ms calls w = Inl (r, rc', w')"
  shows "rc_tracker rc' = rc_tracker rc \<and> rc_interruptDesc rc' = rc_interruptDesc rc \<and> w_requests w' = w_requests w \<and>
    ((\<exists>e. r = Inl e) \<or> r = Inr StopComplete \<and> (\<exists>rs x. returnDirectResult ag calls rs = Some x \<and>
        rc_lastMsg rc' = mo_NewAssistant (ag_ops ag) (ag_Protocol ag) (mo_ResultText (ag_ops ag) x)))"
  using assms
  by (auto simp: batch_turn_def loop_fails_def loop_ends_def Let_def split: prod.splits sum.splits option.splits dest!: sync.batch_frame)
    blast

lemma sync_turn_answer:
  assumes "rm_executeTurn (syncMode ag) rc req w = (a, rc', w')"
  shows "rc_interruptDesc rc' = rc_interruptDesc rc" "w_requests w' = w_requests w @ [req]"
    "a = Inr (m, fr) \<Longrightarrow> \<exists>x u x'. ag_call ag req x = (Inr \<lparr>cr_Message = m, cr_FinishReason = fr, cr_Usage = u\<rparr>, x')"
proof -
  obtain r x where c: "ag_call ag req (w_ext w) = (r, x)" by (rule prod.exhaust)
  show "rc_interruptDesc rc' = rc_interruptDesc rc" "w_requests w' = w_requests w @ [req]"
    using assms c by (auto simp: syncMode_def sync_executeTurn_def charge_def Let_def split: sum.splits)
  assume a: "a = Inr (m, fr)"
  then obtain resp where "r = Inr resp" "cr_Message resp = m" "cr_FinishReason resp = fr"
    using assms c by (auto simp: syncMode_def sync_executeTurn_def Let_def split: sum.splits)
  then have "r = Inr \<lparr>cr_Message = m, cr_FinishReason = fr, cr_Usage = cr_Usage resp\<rparr>" by simp
  then show "\<exists>x u x'. ag_call ag req x = (Inr \<lparr>cr_Message = m, cr_FinishReason = fr, cr_Usage = u\<rparr>, x')"
    using c by blast
qed

lemma gate_keeps_context:
  assumes "interrupt_gate ag mode p rc ms calls w = Inl (r, rc', w')"
  shows "(\<exists>e. r = Inl e) \<and> rc_interruptDesc rc' = rc_interruptDesc rc \<or>
    r = Inr StopInterrupted \<and> rc_interruptDesc rc' \<noteq> None \<and> rc_lastMsg rc' = rc_lastMsg rc"
  using assms by (auto simp: interrupt_gate_def loop_fails_def split: option.splits prod.splits sum.splits)

lemma turn_ends_budget:
  assumes ch: "charges_within ag c" and B: "0 < B" "within_budget B 0 rc" and desc: "rc_interruptDesc rc = None"
    and turn: "react_turn ag (syncMode ag) p tools it rc ms w = Inl (r, rc', w')"
  shows "within_budget B c rc' \<and> length (w_requests w') = length (w_requests w) + 1 \<and>
    (\<forall>stop K N. r = Inr stop \<longrightarrow> stop_exact ag stop (Suc K) N rc' w')"
proof -
  let ?rc = "rc\<lparr>rc_iteration := it\<rparr>" and ?mode = "syncMode ag"
  have ne: "\<not> Exhausted (rc_tracker rc)" using B by (auto simp: within_budget_def Exhausted_def)
  have w0: "within_budget B 0 ?rc" using B(2) by (simp add: within_budget_def)
  have s: "rm_emitIterationStart ?mode (rc_sessionID ?rc) it w = (None, w)" by (simp add: syncMode_def)
  obtain a rc1 w2 where t: "rm_executeTurn ?mode ?rc (chat_request_of ag p ms tools) w = (a, rc1, w2)" by (metis prod_cases3)
  have b1: "within_budget B c rc1" by (rule sync_turn_budget [OF ch w0 t])
  note q = sync_turn_answer(2) [OF t]
  have d1: "rc_interruptDesc rc1 = None" using sync_turn_answer(1) [OF t] desc by simp
  show ?thesis
  proof (cases a)
    case (Inl e)
    then have "r = Inl e" "rc' = rc1" "w' = w2" using turn ne s t by (simp_all add: react_turn_def loop_fails_def)
    then show ?thesis using b1 q by simp
  next
    case (Inr mf)
    obtain m fr where [simp]: "mf = (m, fr)" by (rule prod.exhaust)
    let ?rc2 = "rc1\<lparr>rc_lastMsg := m\<rparr>" and ?calls = "mo_ToolCalls (ag_ops ag) m"
    have la: "last_answer ag w2 m fr" using sync_turn_answer(3) [OF t] Inr q by (simp add: last_answer_def)
    have fin: ?thesis if e: "rc_tracker rc' = rc_tracker rc1" "w_requests w' = w_requests w2"
      and x: "\<And>stop K N. r = Inr stop \<Longrightarrow> last_answer ag w' m fr \<Longrightarrow> stop_exact ag stop (Suc K) N rc' w'"
    proof -
      have l: "last_answer ag w' m fr" using la e(2) by (simp add: last_answer_def)
      have "within_budget B c rc'" using b1 e(1) unfolding within_budget_def by argo
      moreover have "length (w_requests w') = length (w_requests w) + 1" using e(2) q by simp
      ultimately show ?thesis using x [OF _ l] by blast
    qed
    have rest: "(if fr \<noteq> mo_FinishToolCalls (ag_ops ag) \<or> length ?calls = 0 then Inl (loop_ends ag StopComplete ?rc2 (ms @ [m]) w2)
      else if Exhausted (rc_tracker ?rc2) then Inl (loop_ends ag StopBudgetExhausted ?rc2 (ms @ [m]) w2)
      else case interrupt_gate ag ?mode p ?rc2 (ms @ [m]) ?calls w2 of Inl res \<Rightarrow> Inl res
      | Inr w3 \<Rightarrow> batch_turn ag ?mode ?rc2 (ms @ [m]) ?calls w3) = Inl (r, rc', w')"
      using turn ne s t Inr by (simp add: react_turn_def Let_def)
    consider (final) "fr \<noteq> mo_FinishToolCalls (ag_ops ag) \<or> ?calls = []"
      | (used) "fr = mo_FinishToolCalls (ag_ops ag)" "?calls \<noteq> []" "Exhausted (rc_tracker rc1)"
      | (tools) "fr = mo_FinishToolCalls (ag_ops ag)" "?calls \<noteq> []" "\<not> Exhausted (rc_tracker rc1)" by blast
    then show ?thesis
    proof cases
      case final
      then have "r = Inr StopComplete" "rc' = ?rc2" "w_requests w' = w_requests w2"
        using rest by (auto simp: loop_ends_def)
      then show ?thesis using final d1 by (intro fin) (auto simp: stop_exact_def Let_def)
    next
      case used
      then have "r = Inr StopBudgetExhausted" "rc' = ?rc2" "w_requests w' = w_requests w2"
        using rest by (auto simp: loop_ends_def)
      then show ?thesis using used d1 by (intro fin) (auto simp: stop_exact_def Let_def)
    next
      case tools
      show ?thesis
      proof (cases "interrupt_gate ag ?mode p ?rc2 (ms @ [m]) ?calls w2")
        case (Inl res)
        then have g: "interrupt_gate ag ?mode p ?rc2 (ms @ [m]) ?calls w2 = Inl (r, rc', w')" using rest tools by simp
        show ?thesis using sync.gate_frame(1) [OF g] gate_keeps_context [OF g] tools
          by (intro fin) (auto simp: stop_exact_def Let_def)
      next
        case (Inr w3)
        then have b: "batch_turn ag ?mode ?rc2 (ms @ [m]) ?calls w3 = Inl (r, rc', w')" using rest tools by simp
        show ?thesis using sync.gate_frame(2) [OF Inr] batch_turn_ends [OF b] tools d1
          by (intro fin) (auto simp: stop_exact_def Let_def)
      qed
    qed
  qed
qed

lemma turn_goes_on_budget:
  assumes "charges_within ag c" "within_budget B 0 rc" "react_turn ag (syncMode ag) p tools it rc ms w = Inr (ms', rc', w')"
  shows "within_budget B c rc' \<and> length (w_requests w') = length (w_requests w) + 1 \<and> \<not> Exhausted (rc_tracker rc') \<and>
    rc_interruptDesc rc' = rc_interruptDesc rc"
  using assms(3)
proof (rule sync.turn_goes_on)
  fix m fr rc1 w1 w2 w3 w4 msgs rs
  assume t: "rm_executeTurn (syncMode ag) (rc\<lparr>rc_iteration := it\<rparr>) (chat_request_of ag p ms tools) w1 = (Inr (m, fr), rc1, w2)"
    and b: "executeToolBatch ag background (rc_sessionID rc') (mo_ToolCalls (ag_ops ag) m) (rm_emitResultEvent (syncMode ag))
       (rm_sink (syncMode ag) (rc_sessionID rc')) w3 = (Inr (msgs, rs), w4)"
    and x: "rc' = rc1\<lparr>rc_lastMsg := m\<rparr>" "quiet w w1" "w' = saveIterationCheckpoint ag rc' ms' False NoStop w4" "\<not> Exhausted (rc_tracker rc')"
    and g: "interrupt_gate ag (syncMode ag) p rc' (ms @ [m]) (mo_ToolCalls (ag_ops ag) m) w2 = Inr w3"
  have "within_budget B 0 (rc\<lparr>rc_iteration := it\<rparr>)" using assms(2) by (simp add: within_budget_def)
  then have "within_budget B c rc1" by (rule sync_turn_budget [OF assms(1) _ t])
  moreover have "w_requests w2 = w_requests w @ [chat_request_of ag p ms tools]"
    using sync.turn_request [OF t] x(2) by (simp add: quiet_def)
  ultimately show ?thesis
    using sync.batch_frame [OF b] sync.gate_frame(2) [OF g] sync_turn_answer(1) [OF t] x by (simp add: within_budget_def)
qed


lemma s_charges: "charges_within s_agent 7"
  by (auto simp: charges_within_def s_call_def split: list.splits if_splits)


end
