(* ===== verification/TaskBatch.thy ===== *)
theory TaskBatch
  imports TaskBudget
begin

text \<open>
  A batch of tool calls, run at once, suspended and resumed: every call is run once and answered once; a
  suspended batch is stored before anything of it runs; a resumed batch runs what was approved and nothing else,
  under the lease of its record.
\<close>

section \<open>Running a batch\<close>

lemma sync_emit: "emit_all (rm_sink (syncMode ag) sid) evs w = (None, fold (dispatch sid) evs w)"
  by (induction evs arbitrary: w) (simp_all add: syncMode_def)

lemma fold_dispatch_ext: "w_ext (fold (dispatch sid) evs w) = w_ext w"
  by (induction evs arbitrary: w) simp_all

lemma sync_finish:
  obtains msgs rs w' where "finish_calls ag sid b (rm_sink (syncMode ag) sid) crs w = (Inr (msgs, rs), w')"
proof -
  have "\<exists>msgs rs w'. finish_calls ag sid b (rm_sink (syncMode ag) sid) crs w = (Inr (msgs, rs), w')"
  proof (induction crs arbitrary: w)
    case (Cons cr crs)
    obtain tc r where [simp]: "cr = (tc, r)" by (rule prod.exhaust)
    let ?w1 = "dispatch sid (EvToolCallEnd (tc_ID tc) (tc_Name tc)) w"
    obtain res ev where g: "runToolResultGuards ag sid tc r (w_ext ?w1) = (res, ev)" by (rule prod.exhaust)
    let ?w2 = "case ev of None \<Rightarrow> ?w1 | Some e \<Rightarrow> dispatch sid e ?w1"
    let ?w3 = "if b then dispatch sid (EvToolResult (tc_ID tc) (tc_Name tc) res) ?w2 else ?w2"
    obtain msgs rs w' where "finish_calls ag sid b (rm_sink (syncMode ag) sid) crs ?w3 = (Inr (msgs, rs), w')"
      using Cons.IH by blast
    then show ?case using g by (auto simp: syncMode_def split: option.splits)
  qed simp
  then show ?thesis using that by blast
qed

text \<open>In the synchronous mode a batch never fails: a failed call is an answer too.\<close>

lemma sync_batch_total:
  obtains msgs rs w' where "executeToolBatch ag ctx sid calls b (rm_sink (syncMode ag) sid) w = (Inr (msgs, rs), w')"
proof -
  let ?w1 = "fold (dispatch sid) (map EvToolCallStart calls) w"
  let ?order = "batch_order ag (w_ext ?w1) (length calls)"
  obtain results w2 where h: "run_handlers ag ctx calls ?order (replicate (length calls) zero_result) ?w1 = (results, w2)"
    by (rule prod.exhaust)
  obtain msgs rs w3 where f: "finish_calls ag sid b (rm_sink (syncMode ag) sid) (zip calls results) w2 = (Inr (msgs, rs), w3)"
    by (rule sync_finish)
  show ?thesis
  proof (cases "calls = []")
    case True
    then show ?thesis using that by (simp add: executeToolBatch_def)
  next
    case False
    then show ?thesis using that f h
      by (simp add: executeToolBatch_def batch_order_def sync_emit Let_def cong: if_cong)
  qed
qed

text \<open>
  A batch of tool calls in the synchronous mode always succeeds: every call is run exactly once, in one of
  the orders that the limit of parallel calls allows, with the approval the context gives it; and there is
  exactly one answer for each call, in the order of the calls, whatever order they ran in.
\<close>

theorem tool_batch_exact:
  assumes "ops_ok (ag_ops ag) answers" and "schedules_ok ag" and "ag_toolRegistry ag = Some rg"
  shows "\<exists>msgs rs w' order. executeToolBatch ag ctx sid calls b (rm_sink (syncMode ag) sid) w = (Inr (msgs, rs), w') \<and>
     schedule_ok (max 1 (parallel_cap ag)) (length calls) order \<and>
     w_ran w' = w_ran w @ map (\<lambda>i. (calls ! i, IsApprovedCall (Some ctx) (tc_ID (calls ! i)))) order \<and>
     map tr_ToolCallID rs = map tc_ID calls \<and> map answers msgs = map (\<lambda>tc. Some (tc_ID tc)) calls"
proof -
  obtain msgs rs w' where b: "executeToolBatch ag ctx sid calls b (rm_sink (syncMode ag) sid) w = (Inr (msgs, rs), w')"
    by (rule sync_batch_total)
  show ?thesis
    using b sync.batch_ran [OF assms(2) _ b] batch_results [OF assms(1,2) b] batch_answers [OF assms(1,2) b] assms(3)
    unfolding ran_as_def by fastforce
qed

section \<open>The goroutines of a batch\<close>

text \<open>
  The part of \<open>executeToolBatch\<close> that runs several calls at once: the loop that takes a slot of the
  semaphore and starts the goroutine of the next call, the goroutines, which run their handler, write its
  result into their place and give the slot back, and the wait for all of them. A handler takes effect in one
  step; a goroutine that has run it still holds its slot until it leaves. \<open>bs_order\<close> records the order in
  which the handlers took effect.
\<close>

record ('x, 'k, 'i, 'm) calls_state =
  bs_next :: nat
  bs_running :: "nat list"
  bs_leaving :: nat
  bs_order :: "nat list"
  bs_results :: "tool_result list"
  bs_world :: "('x, 'k, 'i, 'm) world"

definition calls_start :: "nat \<Rightarrow> ('x, 'k, 'i, 'm) world \<Rightarrow> ('x, 'k, 'i, 'm) calls_state" where
  "calls_start n w = \<lparr>bs_next = 0, bs_running = [], bs_leaving = 0, bs_order = [],
     bs_results = replicate n zero_result, bs_world = w\<rparr>"

definition slots_taken :: "('x, 'k, 'i, 'm) calls_state \<Rightarrow> nat" where
  "slots_taken s = length (bs_running s) + bs_leaving s"

inductive calls_step :: "('x, 'k, 'i, 'm, 'u) agent \<Rightarrow> call_ctx \<Rightarrow> toolcall list \<Rightarrow> nat
      \<Rightarrow> ('x, 'k, 'i, 'm) calls_state \<Rightarrow> ('x, 'k, 'i, 'm) calls_state \<Rightarrow> bool"
  for ag ctx calls parallelCap where
  spawn: "bs_next s < length calls \<Longrightarrow> slots_taken s < parallelCap \<Longrightarrow>
    calls_step ag ctx calls parallelCap s (s\<lparr>bs_next := Suc (bs_next s), bs_running := bs_running s @ [bs_next s]\<rparr>)"
| handle: "bs_running s = is @ i # js \<Longrightarrow> executeToolCall ag ctx (calls ! i) (bs_world s) = (r, w') \<Longrightarrow>
    calls_step ag ctx calls parallelCap s
      (s\<lparr>bs_running := is @ js, bs_leaving := Suc (bs_leaving s), bs_order := bs_order s @ [i],
         bs_results := (bs_results s)[i := r], bs_world := w'\<rparr>)"
| leave: "bs_leaving s = Suc k \<Longrightarrow> calls_step ag ctx calls parallelCap s (s\<lparr>bs_leaving := k\<rparr>)"

definition calls_done :: "toolcall list \<Rightarrow> ('x, 'k, 'i, 'm) calls_state \<Rightarrow> bool" where
  "calls_done calls s \<longleftrightarrow> bs_next s = length calls \<and> bs_running s = [] \<and> bs_leaving s = 0"

lemma run_handlers_snoc:
  "run_handlers ag ctx calls (is @ [i]) rs w =
     (case run_handlers ag ctx calls is rs w of (rs1, w1) \<Rightarrow>
      case executeToolCall ag ctx (calls ! i) w1 of (r, w2) \<Rightarrow> (rs1[i := r], w2))"
  by (induction "is" arbitrary: rs w) (simp_all split: prod.splits)

definition calls_inv :: "('x, 'k, 'i, 'm, 'u) agent \<Rightarrow> call_ctx \<Rightarrow> toolcall list \<Rightarrow> nat \<Rightarrow> ('x, 'k, 'i, 'm) world
      \<Rightarrow> ('x, 'k, 'i, 'm) calls_state \<Rightarrow> bool" where
  "calls_inv ag ctx calls parallelCap w s \<longleftrightarrow>
     bs_next s \<le> length calls \<and> slots_taken s \<le> parallelCap \<and>
     mset (bs_order s) + mset (bs_running s) = mset [0..<bs_next s] \<and>
     run_handlers ag ctx calls (bs_order s) (replicate (length calls) zero_result) w = (bs_results s, bs_world s) \<and>
     (\<forall>k < length (bs_order s). bs_order s ! k < k + parallelCap)"

lemma calls_step_inv:
  assumes "calls_step ag ctx calls parallelCap s s'" and "calls_inv ag ctx calls parallelCap w s"
  shows "calls_inv ag ctx calls parallelCap w s'"
  using assms(1)
proof cases
  case spawn
  then show ?thesis using assms(2) by (auto simp: calls_inv_def slots_taken_def)
next
  case (handle "is" i js r w')
  have m: "mset (bs_order s) + mset (bs_running s) = mset [0..<bs_next s]" using assms(2) by (simp add: calls_inv_def)
  then have "i \<in># mset [0..<bs_next s]" using handle(2) by (metis in_multiset_in_set in_set_conv_decomp union_iff)
  then have i: "i < bs_next s" by simp
  have "bs_next s = length (bs_order s) + length (bs_running s)" using arg_cong [OF m, of size] by simp
  moreover have "length (bs_running s) \<le> parallelCap" using assms(2) by (simp add: calls_inv_def slots_taken_def)
  ultimately have "i < length (bs_order s) + parallelCap" using i by linarith
  then have "\<forall>k < length (bs_order s @ [i]). (bs_order s @ [i]) ! k < k + parallelCap"
    using assms(2) by (auto simp: calls_inv_def nth_append less_Suc_eq)
  moreover have "mset (bs_order s @ [i]) + mset (is @ js) = mset [0..<bs_next s]" using m handle(2) by simp
  moreover have "run_handlers ag ctx calls (bs_order s @ [i]) (replicate (length calls) zero_result) w = ((bs_results s)[i := r], w')"
    using assms(2) handle(3) by (simp add: calls_inv_def run_handlers_snoc)
  moreover have "slots_taken s' = slots_taken s" using handle by (simp add: slots_taken_def)
  ultimately show ?thesis using assms(2) by (simp add: calls_inv_def handle(1))
next
  case (leave k)
  then show ?thesis using assms(2) by (auto simp: calls_inv_def slots_taken_def)
qed

lemma calls_run_inv:
  "(calls_step ag ctx calls parallelCap)\<^sup>*\<^sup>* (calls_start (length calls) w) s \<Longrightarrow> calls_inv ag ctx calls parallelCap w s"
proof (induction rule: rtranclp_induct)
  case base
  show ?case by (simp add: calls_inv_def calls_start_def slots_taken_def)
next
  case (step s s')
  then show ?case by (metis calls_step_inv)
qed

text \<open>Every step brings the batch nearer to its end, and one that is not done has a step.\<close>

definition calls_left :: "toolcall list \<Rightarrow> ('x, 'k, 'i, 'm) calls_state \<Rightarrow> nat" where
  "calls_left calls s = 3 * (length calls - bs_next s) + 2 * length (bs_running s) + bs_leaving s"

lemma calls_step_left: "calls_step ag ctx calls parallelCap s s' \<Longrightarrow> calls_left calls s' < calls_left calls s"
  by (induction rule: calls_step.induct) (auto simp: calls_left_def)

lemma calls_progress:
  assumes "0 < parallelCap" and "bs_next s \<le> length calls" and "\<not> calls_done calls s"
  shows "\<exists>s'. calls_step ag ctx calls parallelCap s s'"
proof (cases "bs_running s")
  case (Cons i js)
  obtain r w' where "executeToolCall ag ctx (calls ! i) (bs_world s) = (r, w')" by (rule prod.exhaust)
  then show ?thesis using calls_step.handle [of s "[]" i js] Cons by (metis append_Nil)
next
  case Nil
  show ?thesis
  proof (cases "bs_leaving s")
    case 0
    then have "bs_next s < length calls" using assms(2,3) Nil by (simp add: calls_done_def)
    moreover have "slots_taken s < parallelCap" using assms(1) Nil 0 by (simp add: slots_taken_def)
    ultimately show ?thesis by (metis calls_step.spawn)
  next
    case (Suc k)
    then show ?thesis by (metis calls_step.leave)
  qed
qed

text \<open>
  Every order that the semaphore allows is taken by some run: before the \<open>k\<close>-th handler takes effect all calls
  that may have been started have been.
\<close>

lemma batch_fill:
  assumes "bs_leaving s = 0" and "length (bs_running s) + (m - bs_next s) \<le> parallelCap" and "bs_next s \<le> m" and "m \<le> length calls"
  shows "(calls_step ag ctx calls parallelCap)\<^sup>*\<^sup>* s (s\<lparr>bs_next := m, bs_running := bs_running s @ [bs_next s..<m]\<rparr>)"
  using assms
proof (induction "m - bs_next s" arbitrary: s)
  case 0
  then have "s\<lparr>bs_next := m, bs_running := bs_running s @ [bs_next s..<m]\<rparr> = s" by simp
  then show ?case by simp
next
  case (Suc d)
  let ?s1 = "s\<lparr>bs_next := Suc (bs_next s), bs_running := bs_running s @ [bs_next s]\<rparr>"
  have "calls_step ag ctx calls parallelCap s ?s1"
    using Suc by (intro calls_step.spawn) (auto simp: slots_taken_def)
  moreover have "(calls_step ag ctx calls parallelCap)\<^sup>*\<^sup>* ?s1 (?s1\<lparr>bs_next := m, bs_running := bs_running ?s1 @ [bs_next ?s1..<m]\<rparr>)"
    using Suc by (intro Suc(1)) auto
  moreover have "[bs_next s..<m] = bs_next s # [Suc (bs_next s)..<m]" using Suc(2) by (simp add: upt_conv_Cons)
  ultimately show ?case by (simp add: converse_rtranclp_into_rtranclp)
qed

lemma schedule_ok_iff:
  "schedule_ok cap n order \<longleftrightarrow> mset order = mset [0..<n] \<and> (\<forall>k < length order. order ! k < k + cap)"
proof -
  have "mset order = mset [0..<n] \<Longrightarrow> sort order = [0..<n]" by (rule properties_for_sort) simp_all
  moreover have "sort order = [0..<n] \<Longrightarrow> mset order = mset [0..<n]" by (metis mset_sort)
  ultimately show ?thesis unfolding schedule_ok_def list_all_length by (simp, blast)
qed

lemma schedule_taken:
  assumes cap: "0 < parallelCap" and ok: "schedule_ok parallelCap (length calls) order" and k: "k \<le> length calls"
  shows "\<exists>s. (calls_step ag ctx calls parallelCap)\<^sup>*\<^sup>* (calls_start (length calls) w) s \<and> bs_leaving s = 0 \<and>
    bs_order s = take k order \<and> bs_next s = min (length calls) (k + parallelCap)"
  using k
proof (induction k)
  case 0
  let ?s = "calls_start (length calls) w" and ?m = "min (length calls) parallelCap"
  have "(calls_step ag ctx calls parallelCap)\<^sup>*\<^sup>* ?s (?s\<lparr>bs_next := ?m, bs_running := bs_running ?s @ [bs_next ?s..<?m]\<rparr>)"
    by (rule batch_fill) (simp_all add: calls_start_def)
  then show ?case by (intro exI [of _ "?s\<lparr>bs_next := ?m, bs_running := bs_running ?s @ [bs_next ?s..<?m]\<rparr>"]) (simp add: calls_start_def)
next
  case (Suc k)
  then obtain s where run: "(calls_step ag ctx calls parallelCap)\<^sup>*\<^sup>* (calls_start (length calls) w) s"
    and s: "bs_leaving s = 0" "bs_order s = take k order" "bs_next s = min (length calls) (k + parallelCap)" by auto
  note inv = calls_run_inv [OF run]
  have ms: "mset order = mset [0..<length calls]" and lim: "\<forall>j < length order. order ! j < j + parallelCap"
    using ok by (simp_all add: schedule_ok_iff)
  have len: "length order = length calls" using mset_eq_length [OF ms] by simp
  have dist: "distinct order" using mset_eq_imp_distinct_iff [OF ms] by simp
  have kn: "k < length order" using Suc(2) len by simp
  have "order ! k \<in> set order" using kn by simp
  then have "order ! k < length calls" using mset_eq_setD [OF ms] by auto
  then have below: "order ! k < bs_next s" using lim kn s(3) by simp
  have m: "mset (bs_order s) + mset (bs_running s) = mset [0..<bs_next s]" using inv by (simp add: calls_inv_def)
  have fresh: "order ! k \<notin> set (take k order)" using dist kn by (simp add: distinct_conv_nth in_set_conv_nth)
  have "order ! k \<in># mset (bs_order s) + mset (bs_running s)" using below m by simp
  then have "order ! k \<in> set (bs_running s)" using fresh s(2) by simp
  then obtain xs ys where split: "bs_running s = xs @ order ! k # ys" by (meson split_list)
  obtain r w' where e: "executeToolCall ag ctx (calls ! (order ! k)) (bs_world s) = (r, w')" by (rule prod.exhaust)
  let ?s1 = "s\<lparr>bs_running := xs @ ys, bs_leaving := Suc (bs_leaving s), bs_order := bs_order s @ [order ! k],
    bs_results := (bs_results s)[order ! k := r], bs_world := w'\<rparr>"
  have "calls_step ag ctx calls parallelCap s ?s1" by (rule calls_step.handle [OF split e])
  moreover have "calls_step ag ctx calls parallelCap ?s1 (?s1\<lparr>bs_leaving := bs_leaving s\<rparr>)" by (rule calls_step.leave) simp
  ultimately have r1: "(calls_step ag ctx calls parallelCap)\<^sup>*\<^sup>* (calls_start (length calls) w) (?s1\<lparr>bs_leaving := bs_leaving s\<rparr>)"
    using run by (meson rtranclp.rtrancl_into_rtrancl)
  let ?s2 = "?s1\<lparr>bs_leaving := bs_leaving s\<rparr>" and ?m = "min (length calls) (Suc k + parallelCap)"
  have "length (bs_order s) + length (bs_running s) = bs_next s" using arg_cong [OF m, of size] by simp
  then have lr: "length (bs_running ?s2) + Suc k = bs_next s" using split s(2) kn by simp
  have "(calls_step ag ctx calls parallelCap)\<^sup>*\<^sup>* ?s2 (?s2\<lparr>bs_next := ?m, bs_running := bs_running ?s2 @ [bs_next ?s2..<?m]\<rparr>)"
    by (rule batch_fill) (use lr s(1,3) in auto)
  with r1 have "(calls_step ag ctx calls parallelCap)\<^sup>*\<^sup>* (calls_start (length calls) w)
      (?s2\<lparr>bs_next := ?m, bs_running := bs_running ?s2 @ [bs_next ?s2..<?m]\<rparr>)" by (rule rtranclp_trans)
  moreover have "bs_order s @ [order ! k] = take (Suc k) order" using s(2) kn by (simp add: take_Suc_conv_app_nth)
  ultimately show ?case using s(1) by (intro exI conjI) (assumption | simp)+
qed

text \<open>
  C29. The calls of a batch that run at once, whatever the interleaving of the loop and the goroutines: never
  more of them hold a slot than the limit, and none is started twice. A batch that is not done always has a
  step, and each step uses up some of at most three per call, so all calls are run. A batch can be done with a
  given order, results and world if and only if the order is one of those the limit allows, where the
  \<open>k\<close>-th handler to take effect is among the first \<open>k\<close> plus limit calls, and the results and the world are
  those of running the handlers in that order: each once, its result in the place of its call.
\<close>

theorem batch_goroutines_exact:
  fixes ag :: "('x, 'k, 'i, 'm, 'u) agent" and ctx :: call_ctx and calls :: "toolcall list" and w :: "('x, 'k, 'i, 'm) world"
  assumes cap: "0 < parallelCap"
  defines "runs \<equiv> (calls_step ag ctx calls parallelCap)\<^sup>*\<^sup>* (calls_start (length calls) w)"
  shows "(\<forall>s. runs s \<longrightarrow> slots_taken s \<le> parallelCap \<and> distinct (bs_order s @ bs_running s) \<and>
       (calls_done calls s \<or> (\<exists>s'. calls_step ag ctx calls parallelCap s s'))) \<and>
     (\<forall>n s. (calls_step ag ctx calls parallelCap ^^ n) (calls_start (length calls) w) s \<longrightarrow> n \<le> 3 * length calls) \<and>
     ((\<exists>s. runs s \<and> calls_done calls s \<and> bs_order s = order \<and> bs_results s = results \<and> bs_world s = w') \<longleftrightarrow>
        mset order = mset [0..<length calls] \<and> (\<forall>k < length order. order ! k < k + parallelCap) \<and>
        run_handlers ag ctx calls order (replicate (length calls) zero_result) w = (results, w'))"
proof (intro conjI allI impI)
  fix s assume "runs s"
  then have run: "(calls_step ag ctx calls parallelCap)\<^sup>*\<^sup>* (calls_start (length calls) w) s" by (simp add: runs_def)
  note inv = calls_run_inv [OF run]
  show "slots_taken s \<le> parallelCap" using inv by (simp add: calls_inv_def)
  have "mset (bs_order s @ bs_running s) = mset [0..<bs_next s]" using inv by (simp add: calls_inv_def)
  then show "distinct (bs_order s @ bs_running s)" by (metis mset_eq_imp_distinct_iff distinct_upt)
  show "calls_done calls s \<or> (\<exists>s'. calls_step ag ctx calls parallelCap s s')"
    using calls_progress [OF cap] inv by (fastforce simp: calls_inv_def)
next
  fix n s assume "(calls_step ag ctx calls parallelCap ^^ n) (calls_start (length calls) w) s"
  then have "n + calls_left calls s \<le> calls_left calls (calls_start (length calls) w)"
  proof (induction n arbitrary: s)
    case (Suc n)
    then obtain s1 where "(calls_step ag ctx calls parallelCap ^^ n) (calls_start (length calls) w) s1"
      "calls_step ag ctx calls parallelCap s1 s" by auto
    then show ?case using Suc.IH [of s1] calls_step_left by fastforce
  qed simp
  then show "n \<le> 3 * length calls" by (simp add: calls_left_def calls_start_def)
next
  show "(\<exists>s. runs s \<and> calls_done calls s \<and> bs_order s = order \<and> bs_results s = results \<and> bs_world s = w') \<longleftrightarrow>
        mset order = mset [0..<length calls] \<and> (\<forall>k < length order. order ! k < k + parallelCap) \<and>
        run_handlers ag ctx calls order (replicate (length calls) zero_result) w = (results, w')" (is "?run \<longleftrightarrow> ?spec")
  proof
    assume ?run
    then obtain s where run: "(calls_step ag ctx calls parallelCap)\<^sup>*\<^sup>* (calls_start (length calls) w) s"
      and s: "calls_done calls s" "bs_order s = order" "bs_results s = results" "bs_world s = w'" by (auto simp: runs_def)
    then show ?spec using calls_run_inv [OF run] by (auto simp: calls_inv_def calls_done_def)
  next
    assume spec: ?spec
    then obtain s where run: "(calls_step ag ctx calls parallelCap)\<^sup>*\<^sup>* (calls_start (length calls) w) s"
      and s: "bs_leaving s = 0" "bs_order s = take (length calls) order" "bs_next s = length calls"
      using schedule_taken [OF cap, of calls order "length calls"] schedule_ok_iff by force
    have len: "length order = length calls" using spec by (metis mset_eq_length length_upt diff_zero)
    then have order: "bs_order s = order" using s(2) by simp
    note inv = calls_run_inv [OF run]
    have "mset order + mset (bs_running s) = mset order" using inv s(3) spec order by (simp add: calls_inv_def)
    then have "bs_running s = []" by simp
    moreover have "run_handlers ag ctx calls order (replicate (length calls) zero_result) w = (bs_results s, bs_world s)"
      using inv order by (simp add: calls_inv_def)
    ultimately show ?run using run s order spec by (auto simp: calls_done_def runs_def)
  qed
qed

theorem batch_goroutines_exact_witness:
  "(\<exists>s. (calls_step s_agent background [(''a'', ''read'', ''x''), (''b'', ''read'', ''y''), (''c'', ''read'', ''z'')] 2)\<^sup>*\<^sup>*
       (calls_start 3 (s_world [])) s \<and> bs_order s = [1, 2, 0] \<and> map tr_ToolCallID (bs_results s) = [''a'', ''b'', ''c'']) \<and>
   \<not> (\<exists>s. (calls_step s_agent background [(''a'', ''read'', ''x''), (''b'', ''read'', ''y''), (''c'', ''read'', ''z'')] 2)\<^sup>*\<^sup>*
       (calls_start 3 (s_world [])) s \<and> calls_done [(''a'', ''read'', ''x''), (''b'', ''read'', ''y''), (''c'', ''read'', ''z'')] s \<and>
       bs_order s = [2, 0, 1])"
proof -
  let ?calls = "[(''a'', ''read'', ''x''), (''b'', ''read'', ''y''), (''c'', ''read'', ''z'')] :: toolcall list"
  let ?out = "run_handlers s_agent background ?calls [1, 2, 0] (replicate 3 zero_result) (s_world [])"
  have ids: "map tr_ToolCallID (fst ?out) = [''a'', ''b'', ''c'']" by code_simp
  have "2 > (0 :: nat)" and n: "length ?calls = 3" by simp_all
  note x = batch_goroutines_exact [OF this(1), of s_agent background ?calls "s_world []", unfolded n, THEN conjunct2, THEN conjunct2]
  have "mset [1, 2, 0] = mset [0..<3 :: nat]" "\<forall>k < length [1, 2, 0 :: nat]. [1, 2, 0] ! k < k + 2"
    by (simp_all add: upt_rec All_less_Suc numeral_3_eq_3 numeral_2_eq_2)
  then have "\<exists>s. (calls_step s_agent background ?calls 2)\<^sup>*\<^sup>* (calls_start 3 (s_world [])) s \<and> calls_done ?calls s \<and>
      bs_order s = [1, 2, 0] \<and> bs_results s = fst ?out \<and> bs_world s = snd ?out"
    using x [of "[1, 2, 0]" "fst ?out" "snd ?out"] by simp
  moreover have "\<not> (\<forall>k < length [2, 0, 1 :: nat]. [2, 0, 1] ! k < k + (2 :: nat))" by auto
  then have "\<not> (\<exists>s. (calls_step s_agent background ?calls 2)\<^sup>*\<^sup>* (calls_start 3 (s_world [])) s \<and> calls_done ?calls s \<and>
      bs_order s = [2, 0, 1])"
    using x [of "[2, 0, 1]"] by blast
  ultimately show ?thesis using ids by metis
qed

section \<open>Parallel and sequential\<close>

text \<open>The answer of a tool whose handler only reads.\<close>

definition tool_answer :: "('x, 'k, 'i, 'm, 'u) agent \<Rightarrow> (string \<Rightarrow> string \<Rightarrow> go_error + tool_result) \<Rightarrow> toolcall \<Rightarrow> tool_result" where
  "tool_answer ag h tc =
     (case h (tc_Name tc) (tc_Arguments tc) of
        Inl e \<Rightarrow> mo_ErrorResult (ag_ops ag) (tc_ID tc) (mo_Error (ag_ops ag) e)
      | Inr tr \<Rightarrow> tr\<lparr>tr_ToolCallID := tc_ID tc\<rparr>)"

definition reads_only :: "('x, 'k, 'i, 'm, 'u) agent \<Rightarrow> 'x \<Rightarrow> (string \<Rightarrow> string \<Rightarrow> go_error + tool_result) \<Rightarrow> bool" where
  "reads_only ag x h \<longleftrightarrow>
     (case ag_toolRegistry ag of None \<Rightarrow> False | Some rg \<Rightarrow> \<forall>ctx name args. rg_Execute rg ctx name args x = (h name args, x))"

lemma run_handlers_pure:
  assumes "reads_only ag x h"
  shows "w_ext w = x \<Longrightarrow> run_handlers ag ctx calls order rs w = (rs', w') \<Longrightarrow>
     w_ext w' = x \<and> (\<forall>j < length rs. rs' ! j = (if j \<in> set order then tool_answer ag h (calls ! j) else rs ! j))"
proof (induction order arbitrary: rs w)
  case (Cons i js)
  obtain rg where rg: "ag_toolRegistry ag = Some rg" "\<And>ctx name args. rg_Execute rg ctx name args x = (h name args, x)"
    using assms by (auto simp: reads_only_def split: option.splits)
  obtain w1 where e: "executeToolCall ag ctx (calls ! i) w = (tool_answer ag h (calls ! i), w1)" "w_ext w1 = x"
    using rg Cons.prems(1) by (auto simp: executeToolCall_def tool_answer_def Let_def split: sum.splits)
  have "run_handlers ag ctx calls js (rs[i := tool_answer ag h (calls ! i)]) w1 = (rs', w')" using Cons.prems(2) e(1) by simp
  from Cons.IH [OF e(2) this] show ?case by (auto simp: nth_list_update split: if_splits)
qed simp

lemma finish_calls_pure:
  "finish_calls ag sid b (rm_sink (syncMode ag) sid) crs w = (Inr (msgs, rs), w') \<Longrightarrow>
     rs = map (\<lambda>(tc, r). fst (runToolResultGuards ag sid tc r (w_ext w))) crs \<and> msgs = map (result_message ag) rs"
proof (induction crs arbitrary: w msgs rs)
  case (Cons cr crs)
  obtain tc r where [simp]: "cr = (tc, r)" by (rule prod.exhaust)
  let ?w1 = "dispatch sid (EvToolCallEnd (tc_ID tc) (tc_Name tc)) w"
  obtain res ev where g: "runToolResultGuards ag sid tc r (w_ext w) = (res, ev)" by (rule prod.exhaust)
  let ?w2 = "case ev of None \<Rightarrow> ?w1 | Some e \<Rightarrow> dispatch sid e ?w1"
  let ?w3 = "if b then dispatch sid (EvToolResult (tc_ID tc) (tc_Name tc) res) ?w2 else ?w2"
  have x: "w_ext ?w3 = w_ext w" by (simp split: option.splits)
  obtain msgs' rs' where rest: "finish_calls ag sid b (rm_sink (syncMode ag) sid) crs ?w3 = (Inr (msgs', rs'), w')"
    and eq: "msgs = result_message ag res # msgs'" "rs = res # rs'"
    using Cons.prems g by (auto simp: syncMode_def result_message_def split: option.splits prod.splits sum.splits if_splits)
  show ?case using Cons.IH [OF rest] eq g x by simp
qed simp

text \<open>
  C20. Running tools that only read in parallel is the same as running them one after the other: whatever order
  the schedule takes, the answers are those of the calls taken one by one in the order of the calls, each passed
  through the guards of tool results, and so are the messages.
\<close>

theorem parallel_reads_sequential:
  assumes "schedules_ok ag" and "reads_only ag (w_ext w) h"
    and "executeToolBatch ag ctx sid calls b (rm_sink (syncMode ag) sid) w = (Inr (msgs, rs), w')"
  shows "rs = map (\<lambda>tc. fst (runToolResultGuards ag sid tc (tool_answer ag h tc) (w_ext w))) calls \<and>
     msgs = map (result_message ag) rs"
proof (cases "calls = []")
  case True
  then show ?thesis using assms(3) by (simp add: executeToolBatch_def)
next
  case False
  let ?w1 = "fold (dispatch sid) (map EvToolCallStart calls) w"
  have x: "w_ext ?w1 = w_ext w" by (rule fold_dispatch_ext)
  let ?order = "batch_order ag (w_ext ?w1) (length calls)"
  obtain results w2 where h: "run_handlers ag ctx calls ?order (replicate (length calls) zero_result) ?w1 = (results, w2)"
    by (rule prod.exhaust)
  have f: "finish_calls ag sid b (rm_sink (syncMode ag) sid) (zip calls results) w2 = (Inr (msgs, rs), w')"
    using assms(3) False h by (simp add: executeToolBatch_def batch_order_def sync_emit Let_def cong: if_cong)
  have len: "length results = length calls" using run_handlers_frame [OF h] by simp
  have "results = map (tool_answer ag h) calls"
    using run_handlers_pure [OF assms(2) x h] len by (intro nth_equalityI) (simp_all add: batch_order_set [OF assms(1)])
  moreover have "w_ext w2 = w_ext w" using run_handlers_pure [OF assms(2) x h] by simp
  ultimately show ?thesis using finish_calls_pure [OF f] by (auto simp: zip_map2 zip_same_conv_map)
qed

section \<open>Suspending a batch\<close>

text \<open>The calls whose handlers ran between two worlds.\<close>

definition ran_since :: "('x, 'k, 'i, 'm) world \<Rightarrow> ('x, 'k, 'i, 'm) world \<Rightarrow> toolcall list" where
  "ran_since w w' = map fst (drop (length (w_ran w)) (w_ran w'))"

text \<open>The calls of some messages are what ran since.\<close>

definition ran_calls :: "('x, 'k, 'i, 'm, 'u) agent \<Rightarrow> ('x, 'k, 'i, 'm) world \<Rightarrow> 'm list \<Rightarrow> ('x, 'k, 'i, 'm) world \<Rightarrow> bool" where
  "ran_calls ag w new w' \<longleftrightarrow> (\<exists>ran. w_ran w' = w_ran w @ ran \<and> mset (map fst ran) = mset (concat (map (mo_ToolCalls (ag_ops ag)) new)))"

lemma ran_calls_since: "ran_calls ag w new w' \<Longrightarrow> mset (ran_since w w') = mset (concat (map (mo_ToolCalls (ag_ops ag)) new))"
  by (auto simp: ran_calls_def ran_since_def)

text \<open>
  How a suspended batch was stored: what the policy answered about it when it was asked, in the state \<open>x\<close> of
  the world outside, and the record that the interrupt store was given, field by field. A policy that freezes
  its assessments has its snapshot stored, which agrees with the calls it held back; another has none.
\<close>

definition stored_suspension :: "('x, 'k, 'i, 'm, 'u) agent \<Rightarrow> frozen_params \<Rightarrow> 'm list \<Rightarrow> ('m, 'u) run_context \<Rightarrow> ('x, 'k, 'i, 'm) world \<Rightarrow> bool" where
  "stored_suspension ag p continuation rc w \<longleftrightarrow>
     (\<exists>pol st x i given rec.
        let calls = mo_ToolCalls (ag_ops ag) (rc_lastMsg rc); pending = po_Intercept pol x (rc_sessionID rc) calls in
        ag_interruptPolicy ag = Some pol \<and> ag_interruptStore ag = Some st \<and>
        pending \<noteq> [] \<and> set pending \<subseteq> set (map tc_ID calls) \<and> distinct (map tc_ID calls) \<and>
        ir_SessionID given = rc_sessionID rc \<and> ir_AgentID given = ag_ID ag \<and> ir_ToolCalls given = calls \<and>
        ir_Pending given = pending \<and> ir_Decisions given = Map.empty \<and> ir_Messages given = continuation \<and>
        ir_SessionMsgCount given = rc_sessionMsgCount rc + int (length (rc_reqMsgs rc)) \<and>
        ir_Params given = runParamsToEffective p \<and> ir_Iteration given = rc_iteration rc \<and>
        ir_Usage given = rc_totalUsage rc \<and> ir_TokensConsumed given = bt_consumed (rc_tracker rc) \<and>
        (case po_Witness pol of
           None \<Rightarrow> ir_Policy given = \<lparr>ps_Fingerprint = '''', ps_Calls = []\<rparr>
         | Some witness \<Rightarrow> ir_Policy given = witness x (rc_sessionID rc) calls \<and>
             consistentAssessments calls pending (ir_Policy given) = None) \<and>
        st_Create st given i = (Inr rec, w_ints w) \<and>
        rc_interruptDesc rc = Some (interruptDescriptorFromRecord rec))"

lemma addressable_distinct: "addressable_loop seen tcs = None \<Longrightarrow> distinct (map tc_ID tcs) \<and> set (map tc_ID tcs) \<inter> set seen = {}"
  by (induction seen tcs rule: addressable_loop.induct) (auto split: if_splits)

lemma pending_subset: "check_pending ids seen pending = None \<Longrightarrow> set pending \<subseteq> set ids"
  by (induction ids seen pending rule: check_pending.induct) (auto split: if_splits)

lemma maybeInterrupt_suspends:
  assumes "maybeInterrupt ag pol rc p ms calls w = (Inr (Some desc), w1)"
  obtains st snap rec where "ag_interruptStore ag = Some st" "po_Intercept pol (w_ext w) (rc_sessionID rc) calls \<noteq> []"
    "validateBatchAddressable calls = None" "validatePendingSubset calls (po_Intercept pol (w_ext w) (rc_sessionID rc) calls) = None"
    "snap = (case po_Witness pol of None \<Rightarrow> no_snapshot | Some f \<Rightarrow> f (w_ext w) (rc_sessionID rc) calls)"
    "po_Witness pol \<noteq> None \<Longrightarrow> consistentAssessments calls (po_Intercept pol (w_ext w) (rc_sessionID rc) calls) snap = None"
    "st_Create st (suspended_record ag rc p ms calls (po_Intercept pol (w_ext w) (rc_sessionID rc) calls) snap) (w_ints w) = (Inr rec, w_ints w1)"
    "desc = interruptDescriptorFromRecord rec"
  using assms by (auto simp: maybeInterrupt_def Let_def split: option.splits if_splits prod.splits sum.splits)

lemma stored_suspensionI:
  assumes "maybeInterrupt ag pol rc p ms (mo_ToolCalls (ag_ops ag) (rc_lastMsg rc)) w = (Inr (Some desc), w1)"
    and "ag_interruptPolicy ag = Some pol" and "w_ints w' = w_ints w1"
  shows "stored_suspension ag p ms (rc\<lparr>rc_interruptDesc := Some desc\<rparr>) w'"
proof (rule maybeInterrupt_suspends [OF assms(1)])
  let ?calls = "mo_ToolCalls (ag_ops ag) (rc_lastMsg rc)"
  let ?pending = "po_Intercept pol (w_ext w) (rc_sessionID rc) ?calls"
  fix st snap rec
  assume s: "ag_interruptStore ag = Some st" "?pending \<noteq> []"
    "validateBatchAddressable ?calls = None" "validatePendingSubset ?calls ?pending = None"
    "snap = (case po_Witness pol of None \<Rightarrow> no_snapshot | Some f \<Rightarrow> f (w_ext w) (rc_sessionID rc) ?calls)"
    "po_Witness pol \<noteq> None \<Longrightarrow> consistentAssessments ?calls ?pending snap = None"
    "st_Create st (suspended_record ag rc p ms ?calls ?pending snap) (w_ints w) = (Inr rec, w_ints w1)"
    "desc = interruptDescriptorFromRecord rec"
  define given where "given = suspended_record ag rc p ms ?calls ?pending snap"
  have g: "ir_SessionID given = rc_sessionID rc" "ir_AgentID given = ag_ID ag" "ir_ToolCalls given = ?calls"
    "ir_Pending given = ?pending" "ir_Decisions given = Map.empty" "ir_Messages given = ms"
    "ir_SessionMsgCount given = rc_sessionMsgCount rc + int (length (rc_reqMsgs rc))"
    "ir_Params given = runParamsToEffective p" "ir_Iteration given = rc_iteration rc"
    "ir_Usage given = rc_totalUsage rc" "ir_TokensConsumed given = bt_consumed (rc_tracker rc)" "ir_Policy given = snap"
    by (simp_all add: given_def suspended_record_def)
  have create: "st_Create st given (w_ints w) = (Inr rec, w_ints w')" using s(7) assms(3) by (simp add: given_def)
  have sub: "set ?pending \<subseteq> set (map tc_ID ?calls)" "distinct (map tc_ID ?calls)"
    using addressable_distinct [OF s(3) [unfolded validateBatchAddressable_def]]
      pending_subset [OF s(4) [unfolded validatePendingSubset_def]] by blast+
  have policy: "case po_Witness pol of None \<Rightarrow> ir_Policy given = \<lparr>ps_Fingerprint = [], ps_Calls = []\<rparr>
      | Some witness \<Rightarrow> ir_Policy given = witness (w_ext w) (rc_sessionID rc) ?calls \<and>
          consistentAssessments ?calls ?pending (ir_Policy given) = None"
  proof (cases "po_Witness pol")
    case None
    then show ?thesis using s(5) by (simp add: g no_snapshot_def)
  next
    case (Some f)
    then show ?thesis using s(5,6) by (simp add: g)
  qed
  have same: "mo_ToolCalls (ag_ops ag) (rc_lastMsg (rc\<lparr>rc_interruptDesc := Some desc\<rparr>)) = ?calls"
    "rc_sessionID (rc\<lparr>rc_interruptDesc := Some desc\<rparr>) = rc_sessionID rc" by simp_all
  show ?thesis unfolding stored_suspension_def Let_def same
    by (rule exI [of _ pol], rule exI [of _ st], rule exI [of _ "w_ext w"], rule exI [of _ "w_ints w"],
        rule exI [of _ given], rule exI [of _ rec], intro conjI)
      (use assms(2) s(1,2) sub policy create in \<open>simp_all add: g s(8)\<close>)
qed

text \<open>The same in both modes: what a mode sends and how it asks the model are its contract.\<close>

context turn_contract
begin

lemma batch_ran_calls:
  assumes ops: "ops_ok (ag_ops ag) answers" and sched: "schedules_ok ag" and reg: "ag_toolRegistry ag \<noteq> None"
    and before: "ran_calls ag w0 new w"
    and run: "executeToolBatch ag ctx sid (mo_ToolCalls (ag_ops ag) m) b (rm_sink mode sid) w = (Inr (msgs, rs), w')"
  shows "ran_calls ag w0 (new @ [m] @ msgs) w'"
proof -
  let ?calls = "mo_ToolCalls (ag_ops ag) m"
  obtain order where o: "schedule_ok (max 1 (parallel_cap ag)) (length ?calls) order"
    "w_ran w' = w_ran w @ map (\<lambda>i. ran_as ctx (?calls ! i)) order" using batch_ran [OF sched reg run] by blast
  have "msgs = map (result_message ag) rs" using batch_results [OF ops sched run] by simp
  then have none: "mset (concat (map (mo_ToolCalls (ag_ops ag)) msgs)) = {#}" using ops by (auto simp: ops_ok_def result_message_def)
  have "mset (map (\<lambda>i. ?calls ! i) order) = mset ?calls" using schedule_ok_mset [OF o(1), of "\<lambda>i. ?calls ! i"] by (simp add: map_nth)
  then have ran: "mset (map fst (map (\<lambda>i. ran_as ctx (?calls ! i)) order)) = mset ?calls" by (simp add: ran_as_def comp_def)
  obtain ran0 where "w_ran w = w_ran w0 @ ran0" "mset (map fst ran0) = mset (concat (map (mo_ToolCalls (ag_ops ag)) new))"
    using before by (auto simp: ran_calls_def)
  then show ?thesis unfolding ran_calls_def
    by (intro exI [of _ "ran0 @ map (\<lambda>i. ran_as ctx (?calls ! i)) order"])
      (simp only: o(2) map_append mset_append concat_append ran none append_assoc list.map concat.simps append_Nil2 mset.simps add_0_right simp_thms)
qed

lemma turn_ran_calls:
  assumes "ops_ok (ag_ops ag) answers" "schedules_ok ag" "ag_toolRegistry ag \<noteq> None" "ran_calls ag w0 new w"
    and "react_turn ag mode p tools it rc ms w = Inr (ms', rc', w')"
  shows "\<exists>more. ms' = ms @ more \<and> ran_calls ag w0 (new @ more) w'"
  using assms(5)
proof (rule turn_goes_on)
  fix m fr rc1 w1 w2 w3 w4 msgs rs
  assume t: "rm_executeTurn mode (rc\<lparr>rc_iteration := it\<rparr>) (chat_request_of ag p ms tools) w1 = (Inr (m, fr), rc1, w2)"
    and b: "executeToolBatch ag background (rc_sessionID rc') (mo_ToolCalls (ag_ops ag) m) (rm_emitResultEvent mode)
       (rm_sink mode (rc_sessionID rc')) w3 = (Inr (msgs, rs), w4)"
    and x: "ms' = ms @ [m] @ msgs" "quiet w w1" "w' = saveIterationCheckpoint ag rc' ms' False NoStop w4"
    and g: "interrupt_gate ag mode p rc' (ms @ [m]) (mo_ToolCalls (ag_ops ag) m) w2 = Inr w3"
  have "w_ran w3 = w_ran w" using turn_request [OF t] gate_frame(2) [OF g] x(2) by (simp add: quiet_def)
  then have "ran_calls ag w0 new w3" using assms(4) by (simp add: ran_calls_def)
  from batch_ran_calls [OF assms(1-3) this b] show ?thesis using x(1,3) by (auto simp: ran_calls_def)
qed

lemma gate_suspends:
  assumes "interrupt_gate ag mode p rc ms (mo_ToolCalls (ag_ops ag) (rc_lastMsg rc)) w = Inl (Inr stop, rc', w')"
  shows "stored_suspension ag p ms rc' w' \<and> rc_lastMsg rc' = rc_lastMsg rc \<and> w_ran w' = w_ran w"
proof -
  let ?calls = "mo_ToolCalls (ag_ops ag) (rc_lastMsg rc)"
  obtain pol desc w1 where pol: "ag_interruptPolicy ag = Some pol" and d: "maybeInterrupt ag pol rc p ms ?calls w = (Inr (Some desc), w1)"
    and e: "rc' = rc\<lparr>rc_interruptDesc := Some desc\<rparr>"
      "rm_emitInterruptCreated mode (rc_sessionID rc) (rc_iteration rc) (Some desc) w1 = (None, w')"
    using assms by (auto simp: interrupt_gate_def loop_fails_def split: option.splits prod.splits sum.splits)
  have q: "quiet w1 w'" by (rule created_quiet [OF e(2)])
  then have "stored_suspension ag p ms rc' w'" unfolding e(1) by (intro stored_suspensionI [OF d pol]) (simp add: quiet_def)
  then show ?thesis using e(1) q maybeInterrupt_frame [OF d] by (simp add: quiet_def)
qed

lemma batch_not_suspended: "batch_turn ag mode rc ms calls w = Inl (r, rc', w') \<Longrightarrow> r \<noteq> Inr StopInterrupted"
  by (auto simp: batch_turn_def loop_fails_def loop_ends_def Let_def split: prod.splits sum.splits option.splits)

lemma turn_suspends:
  assumes "react_turn ag mode p tools it rc ms w = Inl (Inr StopInterrupted, rc', w')"
  shows "stored_suspension ag p (ms @ [rc_lastMsg rc']) rc' w' \<and> w_ran w' = w_ran w"
proof -
  let ?rc = "rc\<lparr>rc_iteration := it\<rparr>"
  have ne: "\<not> Exhausted (rc_tracker rc)"
  proof
    assume "Exhausted (rc_tracker rc)"
    then show False using assms by (simp add: react_turn_def loop_ends_def Let_def)
  qed
  obtain e w1 where s0: "rm_emitIterationStart mode (rc_sessionID ?rc) it w = (e, w1)" by (rule prod.exhaust)
  then have s: "rm_emitIterationStart mode (rc_sessionID ?rc) it w = (None, w1)"
    using assms ne by (cases e) (simp_all add: react_turn_def loop_fails_def)
  obtain a rc1 w2 where t: "rm_executeTurn mode ?rc (chat_request_of ag p ms tools) w1 = (a, rc1, w2)" by (metis prod_cases3)
  obtain m fr where a: "a = Inr (m, fr)" using assms ne s t by (cases a) (auto simp: react_turn_def loop_fails_def)
  let ?rc2 = "rc1\<lparr>rc_lastMsg := m\<rparr>" and ?calls = "mo_ToolCalls (ag_ops ag) m"
  have rest: "(if fr \<noteq> mo_FinishToolCalls (ag_ops ag) \<or> length ?calls = 0 then Inl (loop_ends ag StopComplete ?rc2 (ms @ [m]) w2)
      else if Exhausted (rc_tracker ?rc2) then Inl (loop_ends ag StopBudgetExhausted ?rc2 (ms @ [m]) w2)
      else case interrupt_gate ag mode p ?rc2 (ms @ [m]) ?calls w2 of Inl res \<Rightarrow> Inl res
      | Inr w3 \<Rightarrow> batch_turn ag mode ?rc2 (ms @ [m]) ?calls w3) = Inl (Inr StopInterrupted, rc', w')"
    using assms ne s t a by (simp add: react_turn_def Let_def)
  have "interrupt_gate ag mode p ?rc2 (ms @ [m]) (mo_ToolCalls (ag_ops ag) (rc_lastMsg ?rc2)) w2 = Inl (Inr StopInterrupted, rc', w')"
    using rest by (auto simp: loop_ends_def split: if_splits sum.splits dest: batch_not_suspended)
  from gate_suspends [OF this] turn_request [OF t] start_quiet [OF s] show ?thesis by (simp add: quiet_def)
qed

lemma loop_suspends:
  assumes "ops_ok (ag_ops ag) answers" and "schedules_ok ag" and "ag_toolRegistry ag \<noteq> None"
    and "runReactLoop ag mode p tools start rc messages w = (Inr StopInterrupted, rc', w')"
  shows "\<exists>new. stored_suspension ag p (messages @ new @ [rc_lastMsg rc']) rc' w' \<and>
     mset (ran_since w w') = mset (concat (map (mo_ToolCalls (ag_ops ag)) new))"
proof -
  define I where "I = (\<lambda>(n :: nat) (it :: int) (rc1 :: ('m, 'u) run_context) (ms :: 'm list) w1.
     \<exists>new. ms = messages @ new \<and> ran_calls ag w new w1)"
  define Q where "Q = (\<lambda>res :: ('x, 'k, 'i, 'm, 'u) loop_result. fst res = Inr StopInterrupted \<longrightarrow>
     (\<exists>new. stored_suspension ag p (messages @ new @ [rc_lastMsg (fst (snd res))]) (fst (snd res)) (snd (snd res)) \<and>
        ran_calls ag w new (snd (snd res))))"
  have "Q (react_loop ag mode p tools (nat (rp_maxIter p - start)) start rc messages w)"
  proof (rule react_loop_rule [where I = I])
    show "I (nat (rp_maxIter p - start)) start rc messages w" by (simp add: I_def ran_calls_def)
  next
    fix n it rc ms w1 res assume i: "I (Suc n) it rc ms w1" and t: "react_turn ag mode p tools it rc ms w1 = Inl res"
    obtain r1 rc1 w2 where [simp]: "res = (r1, rc1, w2)" by (metis prod_cases3)
    obtain new where new: "ms = messages @ new" "ran_calls ag w new w1" using i unfolding I_def by blast
    have "stored_suspension ag p (messages @ new @ [rc_lastMsg rc1]) rc1 w2 \<and> ran_calls ag w new w2" if "r1 = Inr StopInterrupted"
      using turn_suspends [OF t [simplified that \<open>res = (r1, rc1, w2)\<close>]] new by (simp add: ran_calls_def)
    then show "Q res" unfolding Q_def by auto
  next
    fix n it rc ms w1 ms' rc' w' assume "I (Suc n) it rc ms w1" and t: "react_turn ag mode p tools it rc ms w1 = Inr (ms', rc', w')"
    then show "I n (it + 1) rc' ms' w'" using turn_ran_calls [OF assms(1-3) _ t] unfolding I_def by fastforce
  next
    fix it rc ms w1 show "Q (loop_ends ag StopMaxIterations (rc\<lparr>rc_iteration := rp_maxIter p - 1\<rparr>) ms w1)"
      by (simp add: Q_def loop_ends_def)
  qed
  then show ?thesis using assms(4) ran_calls_since unfolding Q_def runReactLoop_def by (auto; blast)
qed

end

text \<open>
  C5. When a run is suspended, in either mode, the batch is on record before anything of it has run: the record
  that the interrupt store was given, and stored, holds exactly this batch, the calls that the policy held back
  when it was asked (at least one, all of them calls of the batch), no decision, the conversation up to and
  including the message that asks for it, the frozen parameters, the tokens and usage charged so far and the
  snapshot with which the policy froze its assessment of this batch, checked against the calls it held back;
  the caller is told of the stored record; and the handlers that ran during the loop are exactly those of the
  batches before, so none of this one.
\<close>

theorem suspension_stored_before_running:
  assumes "ops_ok (ag_ops ag) answers" and "schedules_ok ag" and "ag_toolRegistry ag \<noteq> None"
    and "mode = syncMode ag \<or> mode = streamMode ag (buildSend raw)"
    and "runReactLoop ag mode p tools start rc messages w = (Inr StopInterrupted, rc', w')"
  shows "\<exists>new. stored_suspension ag p (messages @ new @ [rc_lastMsg rc']) rc' w' \<and>
     mset (ran_since w w') = mset (concat (map (mo_ToolCalls (ag_ops ag)) new))"
  using assms(4)
proof
  assume m: "mode = syncMode ag"
  show ?thesis by (rule sync.loop_suspends [OF assms(1-3) assms(5) [unfolded m]])
next
  assume m: "mode = streamMode ag (buildSend raw)"
  show ?thesis by (rule stream.loop_suspends [OF assms(1-3) assms(5) [unfolded m]])
qed

section \<open>Resuming a batch\<close>

text \<open>What a decision makes of a call: whether its handler runs, and whether it runs as approved.\<close>

lemma resumed_flag:
  assumes "tc \<in> set (filter (runs_handler rec) (ir_ToolCalls rec))"
  shows "IsApprovedCall (Some (WithApprovedCalls (Some background)
       (map tc_ID (filter (\<lambda>tc. List.member (ir_Pending rec) (tc_ID tc) \<and> tc_ID tc \<noteq> '''') (filter (runs_handler rec) (ir_ToolCalls rec))))))
     (tc_ID tc) = (tc_ID tc \<in> set (ir_Pending rec) \<and> tc_ID tc \<noteq> '''')"
  using assms by (auto simp: IsApprovedCall_def WithApprovedCalls_def background_def)

lemma inject_frame:
  "inject_loop ag sid rec tcs w = (rs, w') \<Longrightarrow> quiet w w'"
proof (induction tcs arbitrary: w rs)
  case (Cons tc tcs)
  then show ?case by (force simp: Let_def split: if_splits prod.splits option.splits intro: quiet_trans [OF dispatch_quiet])
qed simp

lemma inject_ids:
  assumes "ops_ok (ag_ops ag) answers"
  shows "inject_loop ag sid rec tcs w = (rs, w') \<Longrightarrow> map tr_ToolCallID rs = map tc_ID (filter (\<lambda>tc. \<not> runs_handler rec tc) tcs)"
proof (induction tcs arbitrary: w rs w')
  case (Cons tc tcs)
  show ?case
  proof (cases "runs_handler rec tc")
    case True
    then show ?thesis using Cons by simp
  next
    case False
    let ?res = "case ir_Decisions rec (tc_ID tc) of None \<Rightarrow> mo_TextResult (ag_ops ag) (tc_ID tc) ''''
          | Some d \<Rightarrow> if d_IsError d then mo_ErrorResult (ag_ops ag) (tc_ID tc) (d_Content d)
              else mo_TextResult (ag_ops ag) (tc_ID tc) (d_Content d)"
    obtain g ev where g: "runToolResultGuards ag sid tc ?res (w_ext w) = (g, ev)" by (rule prod.exhaust)
    obtain rs1 w1 where rest: "inject_loop ag sid rec tcs (case ev of None \<Rightarrow> w | Some e \<Rightarrow> dispatch sid e w) = (rs1, w1)"
      by (rule prod.exhaust)
    have "rs = g # rs1" using Cons.prems False g rest by (simp add: Let_def)
    moreover have "tr_ToolCallID g = tc_ID tc"
      using guarded_id [OF assms g] assms by (auto simp: ops_ok_def split: option.splits)
    ultimately show ?thesis using Cons.IH [OF rest] False by simp
  qed
qed simp

lemma interleave_map:
  "map f es = map g (filter runs cs) \<Longrightarrow> map f js = map g (filter (\<lambda>c. \<not> runs c) cs) \<Longrightarrow>
     map f (interleave runs cs es js) = map g cs"
proof (induction cs arbitrary: es js)
  case (Cons c cs)
  then show ?case by (cases "runs c"; cases es; cases js) auto
qed simp

lemma interleave_results: "interleave runs cs (map f es) (map f js) = map f (interleave runs cs es js)"
  by (induction runs cs es js rule: interleave.induct) (auto split: list.splits)




end
