(* ===== verification/TaskLease.thy ===== *)
theory TaskLease
  imports TaskBatch
begin

text \<open>
  When a resumption may act: handlers, requests and session memory are touched only under the lease of a record
  that is ready, is not superseded and whose policy has not moved on. Then two behaviours of resuming from a
  checkpoint that differ from what the comments of the code say, and the witnesses.
\<close>

section \<open>Steps without effect\<close>

definition inert :: "('x, 'k, 'i, 'm) world \<Rightarrow> ('x, 'k, 'i, 'm) world \<Rightarrow> bool" where
  "inert w w' \<longleftrightarrow> w_ran w' = w_ran w \<and> w_requests w' = w_requests w \<and> w_memory w' = w_memory w"

lemma inert_refl [simp]: "inert w w"
  by (simp add: inert_def)

lemma inert_trans: "inert w w1 \<Longrightarrow> inert w1 w2 \<Longrightarrow> inert w w2"
  by (simp add: inert_def)

lemma inert_dispatch [simp]: "inert w (dispatch sid ev w') = inert w w'"
  by (simp add: inert_def)

lemma int_do_inert: "int_do f w = (a, w') \<Longrightarrow> inert w0 w' = inert w0 w"
  by (auto simp: int_do_def inert_def split: prod.splits)

lemma snd_int_do_inert [simp]: "inert w0 (snd (int_do f w)) = inert w0 w"
  by (cases "int_do f w") (simp add: int_do_inert)

lemma owner_inert: "generateLeaseOwner ag w = (o', w') \<Longrightarrow> inert w0 w' = inert w0 w"
  by (auto simp: generateLeaseOwner_def inert_def split: prod.splits)

lemma successor_inert: "earliestSuccessor st sid old w = (r, w') \<Longrightarrow> inert w0 w' = inert w0 w"
  by (auto simp: earliestSuccessor_def inert_def split: prod.splits sum.splits)

lemmas inert_steps = int_do_inert owner_inert successor_inert

lemma complete_superseded_inert: "inert w (completeSuperseded ag st old w)"
  by (auto simp: completeSuperseded_def inert_steps split: prod.splits sum.splits)

lemma finish_superseded_inert: "finishSuperseded ag st old s w = (r, w') \<Longrightarrow> inert w w'"
  using complete_superseded_inert [of w ag st old] by (auto simp: finishSuperseded_def Let_def split: if_splits)

lemma supersede_inert: "supersedeInterrupt ag st old pending snap w = (r, w') \<Longrightarrow> inert w w'"
  by (auto simp: supersedeInterrupt_def Let_def inert_steps split: prod.splits sum.splits option.splits if_splits)

lemma decision_events_inert: "inert w0 (emitInterruptDecisionEvents rec committed w) = inert w0 w"
proof -
  have "w_ran (fold (\<lambda>i. dispatch s (f i)) is w) = w_ran w \<and> w_requests (fold (\<lambda>i. dispatch s (f i)) is w) = w_requests w \<and>
     w_memory (fold (\<lambda>i. dispatch s (f i)) is w) = w_memory w" for s f and "is" :: "string list"
    by (induction "is" arbitrary: w) simp_all
  then show ?thesis by (simp add: emitInterruptDecisionEvents_def inert_def)
qed

section \<open>Acting under the lease\<close>

text \<open>
  A run of the batch of \<open>rec\<close> under its lease, out of the world \<open>w\<close>: the record is decided and not completed,
  nothing has taken its place, and the policy still freezes the same decisions; then a fresh owner acquires the
  lease of this very record, whose tools this agent has; up to there nothing has run. All that happens after is
  the resumed run of the leased record, and its last step gives the lease back under the same owner: completed
  if the run answered, released if it failed.
\<close>

definition leased_run :: "('x, 'k, 'i, 'm, 'u) agent \<Rightarrow> ('i, 'm, 'u) int_store \<Rightarrow> ('m, 'u) suspended \<Rightarrow> ('x, 'k, 'i, 'm) world
      \<Rightarrow> (go_error + ('m, 'u) task_response) \<Rightarrow> ('x, 'k, 'i, 'm) world \<Rightarrow> bool" where
  "leased_run ag st rec w r w' \<longleftrightarrow>
     (\<exists>w0 wa owner w1 leased w2 w3.
        ir_Status rec \<noteq> StatusPending \<and> ir_Status rec \<noteq> StatusCompleted \<and>
        earliestSuccessor st (ir_SessionID rec) (ir_ID rec) w0 = (Inr None, wa) \<and>
        classifyFrozenPolicy ag rec (w_ext wa) = Execute_frozen \<and>
        generateLeaseOwner ag wa = (owner, w1) \<and>
        int_do (st_Acquire st (ir_ID rec) owner (ag_interruptLeaseTTL ag)) w1 = (Inr leased, w2) \<and>
        validateInterruptToolCompatibility ag leased = None \<and> inert w w2 \<and>
        resumeFromInterrupt ag st leased owner w2 = (r, w') \<and>
        w' = snd (int_do ((case r of Inl e \<Rightarrow> st_Release st | Inr resp \<Rightarrow> st_Complete st) (ir_ID leased) owner) w3))"

lemma leased_run_prefix: "inert w0 w \<Longrightarrow> leased_run ag st rec w r w' \<Longrightarrow> leased_run ag st rec w0 r w'"
  unfolding leased_run_def using inert_trans by blast

lemma deliver_completes:
  "deliver ag st i owner stop rc w = (r, w') \<Longrightarrow> \<exists>resp w3. r = Inr resp \<and> w' = snd (int_do (st_Complete st i owner) w3)"
  by (auto simp: deliver_def Let_def split: prod.splits)

lemma resumed_gives_back:
  assumes "resumeFromInterrupt ag st rec owner w = (r, w')"
  shows "\<exists>w3. w' = snd (int_do ((case r of Inl e \<Rightarrow> st_Release st | Inr resp \<Rightarrow> st_Complete st) (ir_ID rec) owner) w3)"
  using assms
  by (auto simp: resumeFromInterrupt_def Let_def split: prod.splits sum.splits option.splits dest!: deliver_completes)

lemma lease_and_resume_acts:
  assumes "ir_Status rec \<noteq> StatusPending" "ir_Status rec \<noteq> StatusCompleted"
    and "earliestSuccessor st (ir_SessionID rec) (ir_ID rec) w0 = (Inr None, wa)"
    and "classifyFrozenPolicy ag rec (w_ext wa) = Execute_frozen" and "lease_and_resume ag st rec wa = (r, w')"
  shows "inert wa w' \<or> leased_run ag st rec wa r w'"
proof -
  obtain owner w1 where o: "generateLeaseOwner ag wa = (owner, w1)" by (rule prod.exhaust)
  obtain a w2 where q: "int_do (st_Acquire st (ir_ID rec) owner (ag_interruptLeaseTTL ag)) w1 = (a, w2)" by (rule prod.exhaust)
  have quiet: "inert wa w2" using o q by (simp add: inert_steps)
  show ?thesis
  proof (cases a)
    case (Inl e)
    then show ?thesis using assms(5) o q quiet by (auto simp: lease_and_resume_def split: if_splits)
  next
    case (Inr leased)
    show ?thesis
    proof (cases "validateInterruptToolCompatibility ag leased")
      case None
      then have run: "resumeFromInterrupt ag st leased owner w2 = (r, w')"
        using assms(5) o q Inr by (simp add: lease_and_resume_def)
      from resumed_gives_back [OF run] obtain w3
        where gave: "w' = snd (int_do ((case r of Inl e \<Rightarrow> st_Release st | Inr resp \<Rightarrow> st_Complete st) (ir_ID leased) owner) w3)" ..
      show ?thesis unfolding leased_run_def
        by (rule disjI2, rule exI [of _ w0], rule exI [of _ wa], rule exI [of _ owner], rule exI [of _ w1],
            rule exI [of _ leased], rule exI [of _ w2], rule exI [of _ w3], intro conjI)
          (use assms(1-4) o q Inr None quiet run gave in blast)+
    next
      case (Some e)
      then show ?thesis using assms(5) o q quiet Inr by (auto simp: lease_and_resume_def)
    qed
  qed
qed

lemma resume_record_acts:
  assumes "resume_record ag st rec w = (r, w')"
  shows "inert w w' \<or> leased_run ag st rec w r w'"
proof (cases "ir_Status rec = StatusPending")
  case True
  then show ?thesis using assms by (simp add: resume_record_def)
next
  case pending: False
  obtain a w1 where e: "earliestSuccessor st (ir_SessionID rec) (ir_ID rec) w = (a, w1)" by (rule prod.exhaust)
  have i1: "inert w w1" using e by (simp add: successor_inert)
  consider (error) e where "a = Inl e" | (succ) s where "a = Inr (Some s)" | (none) "a = Inr None"
    by (metis old.sum.exhaust option.exhaust)
  then show ?thesis
  proof cases
    case error
    then show ?thesis using assms pending e i1 by (simp add: resume_record_def)
  next
    case succ
    then have "finishSuperseded ag st rec s w1 = (r, w')" using assms pending e by (simp add: resume_record_def)
    from inert_trans [OF i1 finish_superseded_inert [OF this]] show ?thesis by blast
  next
    case none
    show ?thesis
    proof (cases "ir_Status rec = StatusCompleted")
      case True
      then show ?thesis using assms pending e i1 none by (simp add: resume_record_def)
    next
      case False
      show ?thesis
      proof (cases "classifyFrozenPolicy ag rec (w_ext w1)")
        case Execute_frozen
        then have "lease_and_resume ag st rec w1 = (r, w')" using assms pending e none False by (simp add: resume_record_def)
        from lease_and_resume_acts [OF pending False e [unfolded none] Execute_frozen this]
        show ?thesis using inert_trans [OF i1] leased_run_prefix [OF i1] by blast
      next
        case (Supersede ids snap)
        then have "supersedeInterrupt ag st rec ids snap w1 = (r, w')" using assms pending e none False by (simp add: resume_record_def)
        from inert_trans [OF i1 supersede_inert [OF this]] show ?thesis by blast
      next
        case (Drift err)
        then show ?thesis using assms pending e none False i1 by (simp add: resume_record_def)
      qed
    qed
  qed
qed

text \<open>The record a request resumes: the one it names, as its decisions left it.\<close>

definition resumes_record :: "('x, 'k, 'i, 'm, 'u) agent \<Rightarrow> ('i, 'm, 'u) int_store \<Rightarrow> resume_request \<Rightarrow> ('x, 'k, 'i, 'm) world
      \<Rightarrow> ('m, 'u) suspended \<Rightarrow> bool" where
  "resumes_record ag st req w rec \<longleftrightarrow> rq_InterruptID req \<noteq> '''' \<and>
     (\<exists>found i. st_Get st (rq_InterruptID req) (w_ints w) = (Inr found, i) \<and>
        ir_AgentID found = ag_ID ag \<and> ir_Protocol found = ag_Protocol ag \<and>
        (if rq_Decisions req = [] then rec = found
         else \<exists>updated committed i'. st_Submit st (ir_ID found) (toStoreDecisions (rq_Decisions req)) i =
              ((updated, committed, None), i') \<and> rec = (case updated of None \<Rightarrow> found | Some u \<Rightarrow> u)))"



section \<open>Resuming from a checkpoint\<close>

text \<open>
  Resuming from a checkpoint forgets what was charged and what was asked: with a budget of 10 tokens and answers
  of 7, a run that crashes after its first batch has used 7; resumed, it is charged 14 more, so that 21 tokens are
  spent on a budget whose bound is less than 17; and session memory gets the answer under the key of the request,
  while the request itself, which the crashed run never handed over, is lost.
\<close>

theorem resume_forgets_budget_and_request:
  "let (r1, w1) = Run s_agent s_request (s_world [ask_tools [(''a'', ''read'', ''x'')] 7]);
       (r2, w2) = Resume s_agent ''s'' (w1\<lparr>w_ext := [ask_tools [(''b'', ''read'', ''y'')] 7, ask_tools [(''c'', ''read'', ''z'')] 7]\<rparr>) in
   (case r1 of Inl e \<Rightarrow> w_memory w1 = [] | Inr resp \<Rightarrow> False) \<and>
   (case r2 of Inl e \<Rightarrow> False | Inr resp \<Rightarrow> te_StopReason resp = StopBudgetExhausted \<and> te_Usage resp = Some 21) \<and>
   map (\<lambda>(sid, i, m). (i, s_user m)) (w_memory w2) = [(0, False)]"
  by code_simp

definition direct_script :: script where
  "direct_script = [ask_tools [(''a'', ''read'', ''x'')] 2, ask_tools [(''b'', ''final'', ''x''), (''c'', ''write'', ''y'')] 2, answer ''again'' 1]"

text \<open>
  A suspended batch that ends the run by a direct return leaves no final checkpoint: after it was resumed and
  answered, resuming the session from its checkpoint does not fail as already final, but asks the model again from
  the iteration before the batch, and delivers a second answer.
\<close>

theorem direct_return_leaves_open_checkpoint:
  "let (r1, w1) = Run s_agent s_request (s_world direct_script);
       (r2, w2) = ResumeInterrupt s_agent \<lparr>rq_InterruptID = ''c'', rq_Decisions = [\<lparr>id_ToolCallID = ''c'', id_Content = ''no'', id_IsError = True\<rparr>]\<rparr> w1;
       (r3, w3) = Resume s_agent ''s'' w2 in
   map (\<lambda>r. case r of Inl e \<Rightarrow> [] | Inr resp \<Rightarrow> map s_text (te_Messages resp)) [r1, r2, r3] = [[''''], [''final x''], [''again'']] \<and>
   map (\<lambda>r. case r of Inl e \<Rightarrow> NoStop | Inr resp \<Rightarrow> te_StopReason resp) [r1, r2, r3] = [StopInterrupted, StopComplete, StopComplete] \<and>
   length (w_requests w3) = 3"
  by code_simp

section \<open>Concrete runs\<close>

definition s_read :: "string \<Rightarrow> string \<Rightarrow> go_error + tool_result" where
  "s_read name args = (if args = ''bad'' then Inl Canceled else Inr (text_result False '''' (name @ '' '' @ args)))"

lemma s_reads_only: "reads_only s_agent x s_read"
  by (auto simp: reads_only_def s_registry_def s_read_def)

lemma s_has_registry: "ag_toolRegistry s_agent \<noteq> None"
  by simp

definition two_reads :: "toolcall list" where
  "two_reads = [(''a'', ''read'', ''x''), (''b'', ''read'', ''bad'')]"

definition s_batch :: "(go_error + smsg list \<times> tool_result list) \<times> sample_world" where
  "s_batch = executeToolBatch s_agent background ''s'' two_reads False (rm_sink (syncMode s_agent) ''s'') (s_world [])"

theorem tool_batch_exact_witness:
  "(\<exists>msgs rs w' order. s_batch = (Inr (msgs, rs), w') \<and> schedule_ok 4 2 order \<and>
     w_ran w' = map (\<lambda>i. (two_reads ! i, False)) order \<and> map tr_ToolCallID rs = [''a'', ''b''] \<and> map s_answers msgs = [Some ''a'', Some ''b'']) \<and>
   w_ran (snd s_batch) = [((''b'', ''read'', ''bad''), False), ((''a'', ''read'', ''x''), False)]"
proof -
  have bg: "IsApprovedCall (Some background) i = False" for i by (simp add: IsApprovedCall_def background_def)
  have "w_ran (snd s_batch) = [((''b'', ''read'', ''bad''), False), ((''a'', ''read'', ''x''), False)]" by code_simp
  moreover have "map tc_ID two_reads = [''a'', ''b'']" "map (\<lambda>tc. Some (tc_ID tc)) two_reads = [Some ''a'', Some ''b'']" by code_simp+
  moreover have "length two_reads = 2" "w_ran (s_world []) = []" by (simp_all add: two_reads_def s_world_def)
  ultimately show ?thesis
    using tool_batch_exact [OF s_ops_ok s_schedules_ok s_agent_facts(7), of background "''s''" two_reads False "s_world []"]
    by (simp add: s_batch_def bg)
qed

theorem parallel_reads_sequential_witness:
  "fst s_batch = Inr (map (result_message s_agent) (map (\<lambda>tc. fst (runToolResultGuards s_agent ''s'' tc (tool_answer s_agent s_read tc) [])) two_reads),
     map (\<lambda>tc. fst (runToolResultGuards s_agent ''s'' tc (tool_answer s_agent s_read tc) [])) two_reads)"
proof -
  obtain msgs rs w' where b: "s_batch = (Inr (msgs, rs), w')"
    by (rule sync_batch_total [of s_agent background "''s''" two_reads False "s_world []"]) (simp add: s_batch_def)
  have "w_ext (s_world []) = []" by (simp add: s_world_def)
  then have "rs = map (\<lambda>tc. fst (runToolResultGuards s_agent ''s'' tc (tool_answer s_agent s_read tc) [])) two_reads \<and>
      msgs = map (result_message s_agent) rs"
    using parallel_reads_sequential [OF s_schedules_ok s_reads_only b [unfolded s_batch_def]] by simp
  then show ?thesis by (simp only: b fst_conv)
qed

text \<open>
  The sample agent with a policy that freezes its assessments, on a batch that only reads and then one with a
  write, which is held back: the first has run, the second is stored with the snapshot.
\<close>

definition s_assess :: "script \<Rightarrow> string \<Rightarrow> toolcall list \<Rightarrow> PolicySnapshot" where
  "s_assess x sid calls = \<lparr>ps_Fingerprint = ''v1'', ps_Calls = map (\<lambda>tc. \<lparr>ca_ToolCallID = tc_ID tc,
     ca_Flagged = (tc_Name tc = ''write''), ca_Classification = tc_Name tc\<rparr>) calls\<rparr>"

definition c_agent :: sample_agent where
  "c_agent = s_agent\<lparr>ag_interruptPolicy := Some (s_policy\<lparr>po_Witness := Some s_assess\<rparr>)\<rparr>"

definition read_then_write :: script where
  "read_then_write = [ask_tools [(''a'', ''read'', ''x'')] 5, ask_tools [(''b'', ''read'', ''y''), (''c'', ''write'', ''z'')] 3]"

definition c_loop :: "(go_error + stop_reason) \<times> (smsg, int) run_context \<times> sample_world" where
  "c_loop = runReactLoop c_agent (syncMode c_agent) s_params [''read''] 0 s_context [SUser ''go''] (s_world read_then_write)"

theorem suspension_stored_before_running_witness:
  "fst c_loop = Inr StopInterrupted \<and> ran_since (s_world read_then_write) (snd (snd c_loop)) = [(''a'', ''read'', ''x'')] \<and>
   map (\<lambda>r. map ca_Flagged (ps_Calls (ir_Policy (snd r)))) (w_ints (snd (snd c_loop))) = [[False, True]] \<and>
   (\<exists>new. stored_suspension c_agent s_params ([SUser ''go''] @ new @ [rc_lastMsg (fst (snd c_loop))])
      (fst (snd c_loop)) (snd (snd c_loop)))"
proof -
  have run: "fst c_loop = Inr StopInterrupted" "ran_since (s_world read_then_write) (snd (snd c_loop)) = [(''a'', ''read'', ''x'')]"
    "map (\<lambda>r. map ca_Flagged (ps_Calls (ir_Policy (snd r)))) (w_ints (snd (snd c_loop))) = [[False, True]]" by code_simp+
  have c: "ops_ok (ag_ops c_agent) s_answers" "schedules_ok c_agent" "ag_toolRegistry c_agent \<noteq> None"
    using s_ops_ok s_schedules_ok by (simp_all add: c_agent_def schedules_ok_def parallel_cap_def cong: if_cong)
  have "runReactLoop c_agent (syncMode c_agent) s_params [''read''] 0 s_context [SUser ''go''] (s_world read_then_write) =
      (Inr StopInterrupted, fst (snd c_loop), snd (snd c_loop))"
    using run(1) by (simp add: prod_eq_iff flip: c_loop_def)
  from suspension_stored_before_running [OF c disjI1 [OF refl] this]
  have "\<exists>new. stored_suspension c_agent s_params ([SUser ''go''] @ new @ [rc_lastMsg (fst (snd c_loop))])
      (fst (snd c_loop)) (snd (snd c_loop))" by blast
  with run show ?thesis by blast
qed

text \<open>A suspended batch of which one call was approved and one declined.\<close>

definition decided_record :: "(smsg, int) suspended" where
  "decided_record = (suspended_record s_agent s_context s_params [] [(''a'', ''read'', ''x''), (''b'', ''write'', ''y''), (''c'', ''write'', ''z'')]
     [''b'', ''c''] no_snapshot)\<lparr>ir_Decisions := [''b'' \<mapsto> \<lparr>d_ToolCallID = ''b'', d_Content = '''', d_IsError = False, d_Execute = True, d_DecidedAt = 1\<rparr>,
       ''c'' \<mapsto> \<lparr>d_ToolCallID = ''c'', d_Content = ''no'', d_IsError = True, d_Execute = False, d_DecidedAt = 1\<rparr>], ir_Status := StatusResuming\<rparr>"


definition s_suspended :: sample_world where
  "s_suspended = snd (Run s_agent s_request (s_world writes))"

definition s_decide :: resume_request where
  "s_decide = \<lparr>rq_InterruptID = ''c'', rq_Decisions = [\<lparr>id_ToolCallID = ''b'', id_Content = ''no'', id_IsError = True\<rparr>]\<rparr>"



end
