(* ===== verification/SessionTree.thy ===== *)
theory SessionTree
  imports Session "HOL-Library.AList" "HOL-Library.Word"
begin

text \<open>
  Trees of goals, one per session (\<open>session/tree\<close>): nodes and trees, their validation, the five changes a
  store makes to a tree, the view without folded nodes, and the two halves of folding children into the
  summary of their parent. Both stores run these same steps, on a map in memory or on a decoded file.
  Times are integers with 0 for Go's zero time; a Go map is an association list with distinct keys.
  The node types and states are strings, because the wire accepts any and the code checks them.
\<close>

unbundle bit_operations_syntax

section \<open>Constants and errors\<close>

definition NodeGoal :: string where "NodeGoal = ''goal''"
definition NodeSubtask :: string where "NodeSubtask = ''subtask''"
definition NodeFact :: string where "NodeFact = ''fact''"
definition NodeObservation :: string where "NodeObservation = ''observation''"
definition NodeArtifactRef :: string where "NodeArtifactRef = ''artifact_ref''"

definition type_Valid :: "string \<Rightarrow> bool" where
  "type_Valid t \<longleftrightarrow> t \<in> set [NodeGoal, NodeSubtask, NodeFact, NodeObservation, NodeArtifactRef]"

definition StatusPending :: string where "StatusPending = ''pending''"
definition StatusActive :: string where "StatusActive = ''active''"
definition StatusDone :: string where "StatusDone = ''done''"
definition StatusBlocked :: string where "StatusBlocked = ''blocked''"
definition StatusSuperseded :: string where "StatusSuperseded = ''superseded''"

definition status_Valid :: "string \<Rightarrow> bool" where
  "status_Valid s \<longleftrightarrow> s \<in> set [StatusPending, StatusActive, StatusDone, StatusBlocked, StatusSuperseded]"

definition TitleMaxBytes :: nat where "TitleMaxBytes = 200"
definition SummaryMaxBytes :: nat where "SummaryMaxBytes = 2 * 1024"
definition MaxNodes :: nat where "MaxNodes = 1024"
definition NodeIDMaxLen :: nat where "NodeIDMaxLen = 128"
definition DefaultPromotionMinChildren :: int where "DefaultPromotionMinChildren = 8"
definition DefaultPromotionMinSubtreeBytes :: int where "DefaultPromotionMinSubtreeBytes = 8 * 1024"
definition nodeIDPrefix :: string where "nodeIDPrefix = ''tn-''"
definition sessionIDMaxLen :: nat where "sessionIDMaxLen = 128"

definition ErrTreeArgument :: go_error where "ErrTreeArgument = ErrNew ''tree: invalid argument''"
definition ErrNodeNotFound :: go_error where "ErrNodeNotFound = ErrNew ''tree: node not found''"
definition ErrTreeMissing :: go_error where "ErrTreeMissing = ErrNew ''tree: tree does not exist''"
definition ErrTreeExists :: go_error where "ErrTreeExists = ErrNew ''tree: tree already exists''"
definition ErrTreeFull :: go_error where "ErrTreeFull = ErrNew ''tree: node count exceeds limit''"
definition ErrHasChildren :: go_error where "ErrHasChildren = ErrNew ''tree: node has children, cannot delete''"
definition ErrImmutableField :: go_error where "ErrImmutableField = ErrNew ''tree: field is immutable''"
definition errPromoterNotConfigured :: go_error where
  "errPromoterNotConfigured = ErrNew ''tree: promoter is not configured''"

section \<open>Nodes and trees\<close>

text \<open>Metadata values are strings, which the stores write themselves, or anything else of type \<open>'v\<close>.\<close>

datatype 'v tree_meta = MetaString string | MetaOther 'v

record 'v tree_node =
  tn_ID :: string
  tn_Type :: string
  tn_Status :: string
  tn_Title :: string
  tn_Summary :: string
  tn_ContentRef :: string
  tn_EmbeddingID :: string
  tn_Evidence :: "string list"
  tn_Supersedes :: "string list"
  tn_Pinned :: bool
  tn_Promoted :: bool
  tn_PromotedAt :: int
  tn_Parent :: string
  tn_Children :: "string list"
  tn_Depth :: int
  tn_CreatedAt :: int
  tn_UpdatedAt :: int
  tn_Metadata :: "(string \<times> 'v tree_meta) list"

record 'v session_tree =
  st_SessionID :: string
  st_RootID :: string
  st_Cursor :: string
  st_Nodes :: "(string \<times> 'v tree_node) list"
  st_UpdatedAt :: int

section \<open>Identifiers\<close>

text \<open>\<open>strconv.FormatInt\<close> to the base ten and \<open>hex.EncodeToString\<close>.\<close>

fun base_ten :: "nat \<Rightarrow> string" where
  "base_ten n = (if n < 10 then [char_of (48 + n)] else base_ten (n div 10) @ [char_of (48 + n mod 10)])"

declare base_ten.simps [simp del]

definition FormatInt :: "int \<Rightarrow> string" where
  "FormatInt i = (if i < 0 then CHR ''-'' # base_ten (nat (- i)) else base_ten (nat i))"

definition hex_digit :: "nat \<Rightarrow> char" where
  "hex_digit d = char_of (if d < 10 then 48 + d else 87 + d)"

definition hex_EncodeToString :: "8 word list \<Rightarrow> string" where
  "hex_EncodeToString bs = concat (map (\<lambda>b. [hex_digit (unat (drop_bit 4 b)), hex_digit (unat (b AND 15))]) bs)"

text \<open>The clock in nanoseconds, and the eight random bytes unless the source of randomness failed.\<close>

definition generateNodeID :: "int \<Rightarrow> 8 word list option \<Rightarrow> string" where
  "generateNodeID now rnd =
     (let prefix = nodeIDPrefix @ FormatInt now in
      case rnd of None \<Rightarrow> prefix | Some buf \<Rightarrow> prefix @ ''-'' @ hex_EncodeToString buf)"

definition nodeIDPattern :: "string \<Rightarrow> bool" where
  "nodeIDPattern i \<longleftrightarrow> take 3 i = ''tn-'' \<and> 4 \<le> length i \<and> length i \<le> 131 \<and> list_all name_char (drop 3 i)"

section \<open>Validation\<close>

definition validateSessionID :: "string \<Rightarrow> go_error option" where
  "validateSessionID i =
     (if i = '''' then Some (Errorf ''%w: session id is empty'' [] (Some ErrTreeArgument))
      else if length i > sessionIDMaxLen
      then Some (Errorf ''%w: session id length %d exceeds %d'' [AInt (int (length i)), AInt (int sessionIDMaxLen)]
        (Some ErrTreeArgument))
      else if i = ''.'' \<or> i = ''..'' then Some (Errorf ''%w: session id %q is reserved'' [AStr i] (Some ErrTreeArgument))
      else if \<not> IDPattern i then Some (Errorf ''%w: session id %q does not match pattern'' [AStr i] (Some ErrTreeArgument))
      else None)"

definition validateNodeID :: "string \<Rightarrow> go_error option" where
  "validateNodeID i =
     (if i = '''' then Some (Errorf ''%w: node id is empty'' [] (Some ErrTreeArgument))
      else if length i > NodeIDMaxLen + length nodeIDPrefix
      then Some (Errorf ''%w: node id length %d exceeds %d''
        [AInt (int (length i)), AInt (int (NodeIDMaxLen + length nodeIDPrefix))] (Some ErrTreeArgument))
      else if \<not> nodeIDPattern i then Some (Errorf ''%w: node id %q does not match pattern'' [AStr i] (Some ErrTreeArgument))
      else None)"

definition validateNodeUpdate :: "'v tree_node \<Rightarrow> go_error option" where
  "validateNodeUpdate n =
     (if tn_Status n \<noteq> '''' \<and> \<not> status_Valid (tn_Status n)
      then Some (Errorf ''%w: node status %q is unknown'' [AStr (tn_Status n)] (Some ErrTreeArgument))
      else if tn_Title n = '''' then Some (Errorf ''%w: title is empty'' [] (Some ErrTreeArgument))
      else if length (tn_Title n) > TitleMaxBytes
      then Some (Errorf ''%w: title length %d exceeds %d'' [AInt (int (length (tn_Title n))), AInt (int TitleMaxBytes)]
        (Some ErrTreeArgument))
      else if length (tn_Summary n) > SummaryMaxBytes
      then Some (Errorf ''%w: summary length %d exceeds %d'' [AInt (int (length (tn_Summary n))), AInt (int SummaryMaxBytes)]
        (Some ErrTreeArgument))
      else None)"

text \<open>The same checks, after that of the type.\<close>

definition validateNodePayload :: "'v tree_node \<Rightarrow> go_error option" where
  "validateNodePayload n =
     (if \<not> type_Valid (tn_Type n)
      then Some (Errorf ''%w: node type %q is unknown'' [AStr (tn_Type n)] (Some ErrTreeArgument))
      else validateNodeUpdate n)"

section \<open>Changes of a tree\<close>

text \<open>What \<open>CreateTree\<close> fills in before it validates the root.\<close>

definition root_defaults :: "'v tree_node \<Rightarrow> 'v tree_node" where
  "root_defaults root =
     (let typed = (if tn_Type root = '''' then root\<lparr>tn_Type := NodeGoal\<rparr> else root) in
      if tn_Status typed = '''' then typed\<lparr>tn_Status := StatusActive\<rparr> else typed)"

definition child_defaults :: "'v tree_node \<Rightarrow> 'v tree_node" where
  "child_defaults n = (if tn_Status n = '''' then n\<lparr>tn_Status := StatusPending\<rparr> else n)"

text \<open>The fields the store assigns; the identifier is the one generated for the call.\<close>

definition materialise :: "'v tree_node \<Rightarrow> string \<Rightarrow> string \<Rightarrow> int \<Rightarrow> int \<Rightarrow> 'v tree_node" where
  "materialise n gid par depth now =
     n\<lparr>tn_ID := gid, tn_Parent := par, tn_Children := [], tn_Depth := depth, tn_CreatedAt := now, tn_UpdatedAt := now\<rparr>"

definition new_tree :: "string \<Rightarrow> 'v tree_node \<Rightarrow> int \<Rightarrow> string \<Rightarrow> 'v tree_node \<times> 'v session_tree" where
  "new_tree sid root now gid =
     (let r = materialise root gid '''' 0 now in
      (r, \<lparr>st_SessionID = sid, st_RootID = gid, st_Cursor = gid, st_Nodes = [(gid, r)], st_UpdatedAt = now\<rparr>))"

text \<open>
  \<open>AddNode\<close> under the lock. The parent is changed in place, so where the generated identifier is that of
  the parent its entry is the new node alone.
\<close>

definition add_node :: "string \<Rightarrow> 'v tree_node \<Rightarrow> int \<Rightarrow> string \<Rightarrow> 'v session_tree
      \<Rightarrow> go_error + 'v tree_node \<times> 'v session_tree" where
  "add_node pid n now gid tr =
     (case map_of (st_Nodes tr) pid of
        None \<Rightarrow> Inl (Errorf ''%w: parent %q'' [AStr pid] (Some ErrNodeNotFound))
      | Some par \<Rightarrow>
          if MaxNodes \<le> length (st_Nodes tr)
          then Inl (Errorf ''%w: %d nodes already present'' [AInt (int (length (st_Nodes tr)))] (Some ErrTreeFull))
          else
            let child = materialise n gid (tn_ID par) (tn_Depth par + 1) now;
                par' = par\<lparr>tn_Children := tn_Children par @ [gid], tn_UpdatedAt := now\<rparr> in
            Inr (child, tr\<lparr>st_Nodes := AList.update gid child (AList.update pid par' (st_Nodes tr)), st_UpdatedAt := now\<rparr>))"

definition applyUpdate :: "'v tree_node \<Rightarrow> 'v tree_node \<Rightarrow> int \<Rightarrow> 'v tree_node" where
  "applyUpdate dst src now =
     dst\<lparr>tn_Title := tn_Title src, tn_Summary := tn_Summary src,
       tn_Status := (if tn_Status src \<noteq> '''' then tn_Status src else tn_Status dst),
       tn_ContentRef := tn_ContentRef src, tn_EmbeddingID := tn_EmbeddingID src,
       tn_Evidence := tn_Evidence src, tn_Supersedes := tn_Supersedes src,
       tn_Pinned := tn_Pinned src, tn_Promoted := tn_Promoted src,
       tn_PromotedAt := (if tn_Promoted src \<and> tn_PromotedAt src = 0 then now else tn_PromotedAt src),
       tn_Metadata := tn_Metadata src, tn_UpdatedAt := now\<rparr>"

definition update_node :: "'v tree_node \<Rightarrow> int \<Rightarrow> 'v session_tree \<Rightarrow> go_error + 'v tree_node \<times> 'v session_tree" where
  "update_node n now tr =
     (case map_of (st_Nodes tr) (tn_ID n) of
        None \<Rightarrow> Inl (Errorf ''%w: %q'' [AStr (tn_ID n)] (Some ErrNodeNotFound))
      | Some cur \<Rightarrow>
          if tn_Type n \<noteq> '''' \<and> tn_Type n \<noteq> tn_Type cur
          then Inl (Errorf ''%w: type %q -> %q'' [AStr (tn_Type cur), AStr (tn_Type n)] (Some ErrImmutableField))
          else if tn_Parent n \<noteq> '''' \<and> tn_Parent n \<noteq> tn_Parent cur
          then Inl (Errorf ''%w: parent %q -> %q'' [AStr (tn_Parent cur), AStr (tn_Parent n)] (Some ErrImmutableField))
          else
            let cur' = SessionTree.applyUpdate cur n now in
            Inr (cur', tr\<lparr>st_Nodes := AList.update (tn_ID n) cur' (st_Nodes tr), st_UpdatedAt := now\<rparr>))"

fun removeID :: "string list \<Rightarrow> string \<Rightarrow> string list" where
  "removeID [] v = []"
| "removeID (i # ids) v = (if i = v then ids else i # removeID ids v)"

definition delete_node :: "string \<Rightarrow> int \<Rightarrow> 'v session_tree \<Rightarrow> go_error + 'v tree_node \<times> 'v session_tree" where
  "delete_node nid now tr =
     (case map_of (st_Nodes tr) nid of
        None \<Rightarrow> Inl (Errorf ''%w: %q'' [AStr nid] (Some ErrNodeNotFound))
      | Some target \<Rightarrow>
          if nid = st_RootID tr then Inl (Errorf ''%w: cannot delete root; use DeleteTree'' [] (Some ErrTreeArgument))
          else if tn_Children target \<noteq> []
          then Inl (Errorf ''%w: %d children'' [AInt (int (length (tn_Children target)))] (Some ErrHasChildren))
          else
            let unlinked = (case map_of (st_Nodes tr) (tn_Parent target) of
                  None \<Rightarrow> st_Nodes tr
                | Some par \<Rightarrow> AList.update (tn_Parent target)
                    (par\<lparr>tn_Children := removeID (tn_Children par) nid, tn_UpdatedAt := now\<rparr>) (st_Nodes tr)) in
            Inr (target, tr\<lparr>st_Nodes := AList.delete nid unlinked,
              st_Cursor := (if st_Cursor tr = nid then st_RootID tr else st_Cursor tr), st_UpdatedAt := now\<rparr>))"

text \<open>Moving the cursor, to no node with the empty identifier; the node is what the event names.\<close>

definition set_cursor :: "string \<Rightarrow> int \<Rightarrow> 'v session_tree \<Rightarrow> go_error + 'v tree_node option \<times> 'v session_tree" where
  "set_cursor nid now tr =
     (let moved = tr\<lparr>st_Cursor := nid, st_UpdatedAt := now\<rparr> in
      if nid = '''' then Inr (None, moved)
      else case map_of (st_Nodes tr) nid of
        None \<Rightarrow> Inl (Errorf ''%w: %q'' [AStr nid] (Some ErrNodeNotFound))
      | Some n \<Rightarrow> Inr (Some n, moved))"

section \<open>Well-formed trees\<close>

text \<open>
  The invariant of a stored tree: keys are the identifiers of their nodes, contents are within the limits,
  parents and children name each other, depths count the steps from the root, every node but the root has
  a parent, and the cursor is a node or empty.
\<close>

definition node_ok :: "'v tree_node \<Rightarrow> bool" where
  "node_ok n \<longleftrightarrow> validateNodeID (tn_ID n) = None \<and> type_Valid (tn_Type n) \<and> status_Valid (tn_Status n) \<and>
     tn_Title n \<noteq> '''' \<and> length (tn_Title n) \<le> TitleMaxBytes \<and> length (tn_Summary n) \<le> SummaryMaxBytes"

definition linked :: "string \<Rightarrow> (string \<Rightarrow> 'v tree_node option) \<Rightarrow> string \<Rightarrow> 'v tree_node \<Rightarrow> bool" where
  "linked root m i n \<longleftrightarrow> tn_ID n = i \<and> 0 \<le> tn_Depth n \<and> distinct (tn_Children n) \<and>
     list_all (\<lambda>c. case m c of None \<Rightarrow> False | Some k \<Rightarrow> tn_Parent k = i) (tn_Children n) \<and>
     (if i = root then tn_Parent n = '''' \<and> tn_Depth n = 0
      else case m (tn_Parent n) of None \<Rightarrow> False
        | Some p \<Rightarrow> i \<in> set (tn_Children p) \<and> tn_Depth n = tn_Depth p + 1)"

definition tree_wf :: "'v session_tree \<Rightarrow> bool" where
  "tree_wf tr \<longleftrightarrow> distinct (map fst (st_Nodes tr)) \<and> length (st_Nodes tr) \<le> MaxNodes \<and>
     st_RootID tr \<in> set (map fst (st_Nodes tr)) \<and>
     (st_Cursor tr = '''' \<or> st_Cursor tr \<in> set (map fst (st_Nodes tr))) \<and>
     list_all (\<lambda>(i, n). node_ok n \<and> linked (st_RootID tr) (map_of (st_Nodes tr)) i n) (st_Nodes tr)"

definition links :: "string \<Rightarrow> (string \<Rightarrow> 'v tree_node option) \<Rightarrow> bool" where
  "links root m \<longleftrightarrow> (\<forall>i n. m i = Some n \<longrightarrow> node_ok n \<and> linked root m i n)"

lemma tree_wf_iff:
  "tree_wf tr \<longleftrightarrow> distinct (map fst (st_Nodes tr)) \<and> length (st_Nodes tr) \<le> MaxNodes \<and>
     st_RootID tr \<in> dom (map_of (st_Nodes tr)) \<and> (st_Cursor tr = '''' \<or> st_Cursor tr \<in> dom (map_of (st_Nodes tr))) \<and>
     links (st_RootID tr) (map_of (st_Nodes tr))"
proof -
  have all: "list_all (\<lambda>(i, n). P i n) xs \<longleftrightarrow> (\<forall>i n. map_of xs i = Some n \<longrightarrow> P i n)"
    if d: "distinct (map fst xs)" for P :: "string \<Rightarrow> 'v tree_node \<Rightarrow> bool" and xs
    using map_of_eq_Some_iff [OF d] by (simp add: list_all_iff Ball_def)
  show ?thesis
    by (cases "distinct (map fst (st_Nodes tr))") (simp_all add: tree_wf_def links_def dom_map_of_conv_image_fst all)
qed

lemma validateNodeID_nonempty: "validateNodeID i = None \<Longrightarrow> i \<noteq> ''''"
  by (auto simp: validateNodeID_def)

lemma linkedD:
  assumes "links root m" and "m i = Some n"
  shows "node_ok n" "tn_ID n = i" "i \<noteq> ''''" "0 \<le> tn_Depth n" "distinct (tn_Children n)"
    and "i = root \<Longrightarrow> tn_Parent n = ''''" and "i = root \<Longrightarrow> tn_Depth n = 0"
proof -
  have l: "node_ok n \<and> linked root m i n" using assms by (simp add: links_def)
  then show "node_ok n" "tn_ID n = i" "0 \<le> tn_Depth n" "distinct (tn_Children n)"
    "i = root \<Longrightarrow> tn_Parent n = ''''" "i = root \<Longrightarrow> tn_Depth n = 0"
    by (simp_all add: linked_def)
  then show "i \<noteq> ''''" using validateNodeID_nonempty [of i] l by (simp add: node_ok_def)
qed

lemma linked_child:
  assumes "links root m" and "m i = Some n" and "c \<in> set (tn_Children n)"
  obtains k where "m c = Some k" "tn_Parent k = i"
proof -
  have "linked root m i n" using assms(1,2) by (simp add: links_def)
  then have "case m c of None \<Rightarrow> False | Some k \<Rightarrow> tn_Parent k = i" using assms(3) by (simp add: linked_def list_all_iff)
  then show thesis using that by (cases "m c") simp_all
qed

lemma linked_parent:
  assumes "links root m" and "m i = Some n" and "i \<noteq> root"
  obtains p where "m (tn_Parent n) = Some p" "i \<in> set (tn_Children p)" "tn_Depth n = tn_Depth p + 1"
proof -
  have "linked root m i n" using assms by (simp add: links_def)
  then show thesis using that assms(3) by (auto simp: linked_def split: option.splits)
qed

lemma child_not_root:
  assumes "links root m" and "m i = Some n" and "c \<in> set (tn_Children n)"
  shows "c \<noteq> root"
proof
  assume "c = root"
  obtain k where "m c = Some k" "tn_Parent k = i" using linked_child [OF assms] .
  with \<open>c = root\<close> show False using linkedD(3) [OF assms(1,2)] linkedD(6) [OF assms(1)] by blast
qed

text \<open>Changing what a node holds, but not its place, keeps the links.\<close>

definition place :: "'v tree_node \<Rightarrow> string \<times> string \<times> string list \<times> int" where
  "place n = (tn_ID n, tn_Parent n, tn_Children n, tn_Depth n)"

lemma links_same_places:
  assumes links: "links root m" and same: "\<And>i. map_option place (m' i) = map_option place (m i)"
    and ok: "\<And>i n. m' i = Some n \<Longrightarrow> node_ok n"
  shows "links root m'"
proof -
  have dom: "m' i = None \<longleftrightarrow> m i = None" for i using same [of i] by (cases "m i"; cases "m' i") auto
  have get: "place n' = place n" if "m' i = Some n'" "m i = Some n" for i n n' using same [of i] that by simp
  have "linked root m' i n'" if i: "m' i = Some n'" for i n'
  proof -
    obtain n where n: "m i = Some n" using dom i by (metis not_None_eq)
    have l: "linked root m i n" using links n by (simp add: links_def)
    have pl: "tn_ID n' = tn_ID n" "tn_Parent n' = tn_Parent n" "tn_Children n' = tn_Children n" "tn_Depth n' = tn_Depth n"
      using get [OF i n] by (simp_all add: place_def)
    have par: "(case m' c of None \<Rightarrow> False | Some k \<Rightarrow> tn_Parent k = i)" if c: "c \<in> set (tn_Children n)" for c
    proof -
      obtain k where k: "m c = Some k" "tn_Parent k = i" using linked_child [OF links n c] .
      then obtain k' where "m' c = Some k'" using dom by (metis not_None_eq option.distinct(1))
      then show ?thesis using get [of c k' k] k by (simp add: place_def)
    qed
    have "(case m' (tn_Parent n) of None \<Rightarrow> False
        | Some p \<Rightarrow> i \<in> set (tn_Children p) \<and> tn_Depth n = tn_Depth p + 1)" if nr: "i \<noteq> root"
    proof -
      obtain p where p: "m (tn_Parent n) = Some p" "i \<in> set (tn_Children p)" "tn_Depth n = tn_Depth p + 1"
        using linked_parent [OF links n nr] .
      then obtain p' where "m' (tn_Parent n) = Some p'" using dom by (metis not_None_eq option.distinct(1))
      then show ?thesis using get [of _ p' p] p by (simp add: place_def)
    qed
    then show ?thesis using l par unfolding linked_def pl list_all_iff by auto
  qed
  then show ?thesis using ok by (simp add: links_def)
qed

section \<open>Every change keeps a tree well-formed\<close>

lemma payload_node_ok:
  assumes "validateNodePayload n = None" and "tn_Status n \<noteq> ''''" and "validateNodeID gid = None"
  shows "node_ok (materialise n gid par d now)"
  using assms by (auto simp: validateNodePayload_def validateNodeUpdate_def node_ok_def materialise_def split: if_splits)

lemma links_add:
  assumes links: "links root m" and par: "m pid = Some par" and fresh: "m gid = None" and root: "root \<in> dom m"
    and ok: "node_ok (materialise n gid pid (tn_Depth par + 1) now)"
  shows "links root (m(pid \<mapsto> par\<lparr>tn_Children := tn_Children par @ [gid], tn_UpdatedAt := now\<rparr>,
    gid \<mapsto> materialise n gid pid (tn_Depth par + 1) now))"
proof -
  define p' where "p' = par\<lparr>tn_Children := tn_Children par @ [gid], tn_UpdatedAt := now\<rparr>"
  define c where "c = materialise n gid pid (tn_Depth par + 1) now"
  define M where "M = m(pid \<mapsto> p', gid \<mapsto> c)"
  have ne: "pid \<noteq> gid" "root \<noteq> gid" using par fresh root by auto
  have p': "tn_ID p' = pid" "tn_Parent p' = tn_Parent par" "tn_Depth p' = tn_Depth par" "tn_Children p' = tn_Children par @ [gid]"
    "node_ok p'" using linkedD(1,2) [OF links par] by (simp_all add: p'_def node_ok_def)
  have c: "tn_ID c = gid" "tn_Parent c = pid" "tn_Depth c = tn_Depth par + 1" "tn_Children c = []" "node_ok c"
    using ok by (simp_all add: c_def materialise_def)
  have M: "M pid = Some p'" "M gid = Some c" "\<And>i. i \<noteq> gid \<Longrightarrow> i \<noteq> pid \<Longrightarrow> M i = m i"
    using ne by (simp_all add: M_def)
  have kept: "\<exists>k'. M j = Some k' \<and> tn_Parent k' = tn_Parent k \<and> tn_Depth k' = tn_Depth k \<and> set (tn_Children k) \<subseteq> set (tn_Children k')"
    if "m j = Some k" for j k
  proof (cases "j = pid")
    case True
    then show ?thesis using that par M(1) p' by auto
  next
    case False
    moreover have "j \<noteq> gid" using that fresh by auto
    ultimately show ?thesis using M(3) [of j] that by auto
  qed
  have kid: "(case M j of None \<Rightarrow> False | Some k \<Rightarrow> tn_Parent k = i)" if i: "m i = Some k" and j: "j \<in> set (tn_Children k)" for i k j
  proof -
    obtain b where b: "m j = Some b" "tn_Parent b = i" using linked_child [OF links i j] .
    with kept [OF b(1)] show ?thesis by auto
  qed
  have new: "gid \<notin> set (tn_Children k)" if i: "m i = Some k" for i k
    using linked_child [OF links i, of gid] fresh by auto
  have up: "(case M (tn_Parent k) of None \<Rightarrow> False | Some p \<Rightarrow> i \<in> set (tn_Children p) \<and> tn_Depth k = tn_Depth p + 1)"
    if i: "m i = Some k" and nr: "i \<noteq> root" for i k
  proof -
    obtain b where b: "m (tn_Parent k) = Some b" "i \<in> set (tn_Children b)" "tn_Depth k = tn_Depth b + 1"
      using linked_parent [OF links i nr] .
    with kept [OF b(1)] obtain b' where "M (tn_Parent k) = Some b'" "i \<in> set (tn_Children b')" "tn_Depth b' = tn_Depth b"
      by blast
    then show ?thesis using b(3) by simp
  qed
  have at_c: "linked root M gid c" using ne c p' M linkedD(4) [OF links par] by (simp add: linked_def)
  have at_p: "linked root M pid p'"
    using linkedD [OF links par] new [OF par] kid [OF par] up [OF par] c M(2)
    unfolding linked_def list_all_iff p' by simp
  have "node_ok k \<and> linked root M i k" if i: "M i = Some k" for i k
  proof (cases "i = gid \<or> i = pid")
    case True
    then show ?thesis using i at_c at_p c p' M by auto
  next
    case False
    then have mi: "m i = Some k" using M(3) i by auto
    then show ?thesis using linkedD [OF links mi] kid [OF mi] up [OF mi] by (simp add: linked_def list_all_iff)
  qed
  then show ?thesis by (simp add: links_def M_def p'_def c_def)
qed

lemma set_removeID: "distinct ids \<Longrightarrow> set (removeID ids v) = set ids - {v}"
  by (induction ids) auto

lemma distinct_removeID: "distinct ids \<Longrightarrow> distinct (removeID ids v)"
  by (induction ids) (auto simp: set_removeID)

lemma links_delete:
  assumes links: "links root m" and target: "m nid = Some n" "tn_Children n = []" and ne: "nid \<noteq> root"
    and par: "m (tn_Parent n) = Some par"
  shows "links root ((m(tn_Parent n \<mapsto> par\<lparr>tn_Children := removeID (tn_Children par) nid, tn_UpdatedAt := now\<rparr>))(nid := None))"
proof -
  define pid where "pid = tn_Parent n"
  define p' where "p' = par\<lparr>tn_Children := removeID (tn_Children par) nid, tn_UpdatedAt := now\<rparr>"
  define M where "M = (m(pid \<mapsto> p'))(nid := None)"
  have mp: "m pid = Some par" using par by (simp add: pid_def)
  have "nid \<in> set (tn_Children par)" using linked_parent [OF links target(1) ne] par by auto
  then have pn: "pid \<noteq> nid" using mp target by auto
  have p': "tn_ID p' = pid" "tn_Parent p' = tn_Parent par" "tn_Depth p' = tn_Depth par" "node_ok p'"
      "set (tn_Children p') = set (tn_Children par) - {nid}" "distinct (tn_Children p')"
    using linkedD(1,2,5) [OF links mp] by (simp_all add: p'_def node_ok_def set_removeID distinct_removeID)
  have M: "M pid = Some p'" "M nid = None" "\<And>i. i \<noteq> nid \<Longrightarrow> i \<noteq> pid \<Longrightarrow> M i = m i"
    using pn by (simp_all add: M_def)
  have only: "i = pid" if i: "m i = Some k" and c: "nid \<in> set (tn_Children k)" for i k
    using linked_child [OF links i c] target(1) by (auto simp: pid_def)
  have kept: "\<exists>k'. M j = Some k' \<and> tn_Parent k' = tn_Parent k \<and> tn_Depth k' = tn_Depth k \<and> set (tn_Children k) - {nid} \<subseteq> set (tn_Children k')"
    if "m j = Some k" "j \<noteq> nid" for j k using that M p' mp by (cases "j = pid") auto
  have kid: "(case M j of None \<Rightarrow> False | Some k \<Rightarrow> tn_Parent k = i)"
    if i: "m i = Some k" and j: "j \<in> set (tn_Children k)" and jn: "j \<noteq> nid" for i k j
  proof -
    obtain b where b: "m j = Some b" "tn_Parent b = i" using linked_child [OF links i j] .
    with kept [OF b(1) jn] show ?thesis by auto
  qed
  have up: "(case M (tn_Parent k) of None \<Rightarrow> False | Some p \<Rightarrow> i \<in> set (tn_Children p) \<and> tn_Depth k = tn_Depth p + 1)"
    if i: "m i = Some k" and nr: "i \<noteq> root" and ni: "i \<noteq> nid" for i k
  proof -
    obtain b where b: "m (tn_Parent k) = Some b" "i \<in> set (tn_Children b)" "tn_Depth k = tn_Depth b + 1"
      using linked_parent [OF links i nr] .
    have "tn_Parent k \<noteq> nid" using b target by auto
    with kept [OF b(1)] obtain b' where "M (tn_Parent k) = Some b'" "i \<in> set (tn_Children b')" "tn_Depth b' = tn_Depth b"
      using b(2) ni by blast
    then show ?thesis using b(3) by simp
  qed
  have at_p: "linked root M pid p'"
    using linkedD [OF links mp] kid [OF mp] up [OF mp] pn p'(5,6) unfolding linked_def list_all_iff p'(1-5) by simp
  have "node_ok k \<and> linked root M i k" if i: "M i = Some k" for i k
  proof (cases "i = pid")
    case True
    then show ?thesis using i at_p p' M(1) by auto
  next
    case False
    have ni: "i \<noteq> nid" using i M(2) by auto
    then have mi: "m i = Some k" using M(3) i False by auto
    have "nid \<notin> set (tn_Children k)" using only [OF mi] False by auto
    then show ?thesis using linkedD [OF links mi] kid [OF mi] up [OF mi _ ni] by (auto simp: linked_def list_all_iff)
  qed
  then show ?thesis by (simp add: links_def M_def p'_def pid_def)
qed

lemma length_keys: "distinct (map fst xs) \<Longrightarrow> length xs = card (dom (map_of xs))"
  by (metis distinct_card dom_map_of_conv_image_fst length_map set_map)

lemma length_update:
  assumes "distinct (map fst xs)"
  shows "length (AList.update k v xs) = (if k \<in> dom (map_of xs) then length xs else Suc (length xs))"
proof -
  have "distinct (map fst (AList.update k v xs))" using assms by (rule distinct_update)
  then show ?thesis using assms by (simp add: length_keys update_conv' finite_dom_map_of card_insert_if)
qed

text \<open>Every change is a new map of nodes; the sizes, the root and the cursor follow.\<close>

lemma new_tree_wf:
  assumes "validateNodePayload (root_defaults root) = None" and "validateNodeID gid = None"
  shows "tree_wf (snd (new_tree sid (root_defaults root) now gid))"
proof -
  have "tn_Status (root_defaults root) \<noteq> ''''"
    by (simp add: root_defaults_def Let_def StatusActive_def)
  then have "node_ok (materialise (root_defaults root) gid '''' 0 now)" using payload_node_ok assms by blast
  then show ?thesis
    by (simp add: tree_wf_def new_tree_def Let_def linked_def MaxNodes_def) (simp add: materialise_def)
qed

lemma add_node_wf:
  assumes wf: "tree_wf tr" and fresh: "gid \<notin> dom (map_of (st_Nodes tr))" and gid: "validateNodeID gid = None"
    and payload: "validateNodePayload n = None" "tn_Status n \<noteq> ''''" and add: "add_node pid n now gid tr = Inr (c, tr')"
  shows "tree_wf tr'"
proof -
  obtain par where par: "map_of (st_Nodes tr) pid = Some par" and room: "length (st_Nodes tr) < MaxNodes"
      and tr': "tr' = tr\<lparr>st_Nodes := AList.update gid (materialise n gid (tn_ID par) (tn_Depth par + 1) now)
        (AList.update pid (par\<lparr>tn_Children := tn_Children par @ [gid], tn_UpdatedAt := now\<rparr>) (st_Nodes tr)), st_UpdatedAt := now\<rparr>"
    using add by (auto simp: add_node_def Let_def split: option.splits if_splits)
  have d: "distinct (map fst (st_Nodes tr))" and root: "st_RootID tr \<in> dom (map_of (st_Nodes tr))"
    and links: "links (st_RootID tr) (map_of (st_Nodes tr))" using wf by (simp_all add: tree_wf_iff)
  have "tn_ID par = pid" using linkedD(2) [OF links par] .
  then have "links (st_RootID tr) (map_of (st_Nodes tr'))"
    using links_add [OF links par _ root payload_node_ok [OF payload gid]] fresh by (auto simp: tr' update_conv')
  moreover have "length (st_Nodes tr') \<le> MaxNodes"
    using room par by (auto simp: tr' length_update d distinct_update)
  ultimately show ?thesis using wf by (auto simp: tree_wf_iff tr' update_conv' distinct_update)
qed

lemma update_node_wf:
  assumes wf: "tree_wf tr" and ok: "validateNodeUpdate n = None" and upd: "update_node n now tr = Inr (c, tr')"
  shows "tree_wf tr'"
proof -
  obtain cur where cur: "map_of (st_Nodes tr) (tn_ID n) = Some cur"
      and tr': "tr' = tr\<lparr>st_Nodes := AList.update (tn_ID n) (SessionTree.applyUpdate cur n now) (st_Nodes tr), st_UpdatedAt := now\<rparr>"
    using upd by (auto simp: update_node_def Let_def split: option.splits if_splits)
  have links: "links (st_RootID tr) (map_of (st_Nodes tr))" and d: "distinct (map fst (st_Nodes tr))"
    using wf by (simp_all add: tree_wf_iff)
  have "node_ok (SessionTree.applyUpdate cur n now)"
    using linkedD(1) [OF links cur] ok by (auto simp: node_ok_def SessionTree.applyUpdate_def validateNodeUpdate_def split: if_splits)
  then have "links (st_RootID tr) (map_of (st_Nodes tr'))"
    using linkedD(1) [OF links] cur
    by (intro links_same_places [OF links]) (auto simp: tr' update_conv' place_def SessionTree.applyUpdate_def split: if_splits)
  moreover have "length (st_Nodes tr') = length (st_Nodes tr)" using cur by (auto simp: tr' length_update d)
  ultimately show ?thesis using wf cur by (auto simp: tree_wf_iff tr' update_conv' distinct_update)
qed

lemma delete_node_wf:
  assumes wf: "tree_wf tr" and del: "delete_node nid now tr = Inr (n, tr')"
  shows "tree_wf tr'"
proof -
  have links: "links (st_RootID tr) (map_of (st_Nodes tr))" and d: "distinct (map fst (st_Nodes tr))"
    using wf by (simp_all add: tree_wf_iff)
  have n: "map_of (st_Nodes tr) nid = Some n" "nid \<noteq> st_RootID tr" "tn_Children n = []"
    using del by (auto simp: delete_node_def Let_def split: option.splits if_splits)
  obtain par where par: "map_of (st_Nodes tr) (tn_Parent n) = Some par" using linked_parent [OF links n(1,2)] by blast
  let ?u = "AList.update (tn_Parent n) (par\<lparr>tn_Children := removeID (tn_Children par) nid, tn_UpdatedAt := now\<rparr>) (st_Nodes tr)"
  have tr': "tr' = tr\<lparr>st_Nodes := AList.delete nid ?u,
      st_Cursor := (if st_Cursor tr = nid then st_RootID tr else st_Cursor tr), st_UpdatedAt := now\<rparr>"
    using del n par by (simp add: delete_node_def Let_def)
  have map: "map_of (st_Nodes tr') = (map_of ?u)(nid := None)" by (simp add: tr' delete_conv')
  have "links (st_RootID tr) (map_of (st_Nodes tr'))"
    unfolding map update_conv' by (rule links_delete [OF links n(1,3,2) par])
  moreover have "length (st_Nodes tr') \<le> length (st_Nodes tr)"
    using length_delete_le [of nid ?u] domI [of "map_of (st_Nodes tr)" "tn_Parent n" par] par by (simp add: tr' length_update d)
  moreover have "dom (map_of (st_Nodes tr')) = dom (map_of (st_Nodes tr)) - {nid}"
    unfolding map using par by (auto simp: update_conv')
  moreover have "distinct (map fst (st_Nodes tr'))" by (simp add: tr' distinct_delete distinct_update d)
  ultimately show ?thesis using wf n(2) by (auto simp: tree_wf_iff tr')
qed

lemma set_cursor_wf: "tree_wf tr \<Longrightarrow> set_cursor nid now tr = Inr (c, tr') \<Longrightarrow> tree_wf tr'"
  by (auto simp: set_cursor_def tree_wf_iff Let_def split: if_splits option.splits)


end
