(* ===== verification/TreeFold.thy ===== *)
theory TreeFold
  imports SessionTree
begin

text \<open>
  Folding children into their parent (\<open>session/tree/promotion.go\<close>, \<open>triggers.go\<close>): which children are eligible,
  when folding is due, marking the children and replacing the summary, and the view that leaves folded
  nodes out together with everything below them.
\<close>

section \<open>Deciding when to fold\<close>

type_synonym 'v decider = "'v tree_node \<Rightarrow> 'v tree_node list \<Rightarrow> bool"

definition eligibleChildren :: "'v session_tree \<Rightarrow> 'v tree_node \<Rightarrow> 'v tree_node list" where
  "eligibleChildren tr par =
     filter (\<lambda>c. \<not> (tn_Promoted c \<or> tn_Pinned c)) (List.map_filter (map_of (st_Nodes tr)) (tn_Children par))"

definition ChildrenCountDecider :: "int \<Rightarrow> 'v decider" where
  "ChildrenCountDecider least par eligible =
     (let threshold = (if least \<le> 0 then DefaultPromotionMinChildren else least) in threshold \<le> int (length eligible))"

definition AllChildrenDoneDecider :: "'v decider" where
  "AllChildrenDoneDecider par eligible \<longleftrightarrow> eligible \<noteq> [] \<and> list_all (\<lambda>c. tn_Status c = StatusDone) eligible"

fun bytes_reach :: "int \<Rightarrow> int \<Rightarrow> 'v tree_node list \<Rightarrow> bool" where
  "bytes_reach threshold sum0 [] = False"
| "bytes_reach threshold sum0 (c # cs) =
     (let sum1 = sum0 + int (length (tn_Title c)) + int (length (tn_Summary c)) in
      if threshold \<le> sum1 then True else bytes_reach threshold sum1 cs)"

definition SubtreeBytesDecider :: "int \<Rightarrow> 'v decider" where
  "SubtreeBytesDecider least par eligible =
     (let threshold = (if least \<le> 0 then DefaultPromotionMinSubtreeBytes else least) in bytes_reach threshold 0 eligible)"

text \<open>The combinators skip \<open>nil\<close> deciders.\<close>

fun AnyOf :: "'v decider option list \<Rightarrow> 'v decider" where
  "AnyOf [] par eligible = False"
| "AnyOf (None # ds) par eligible = AnyOf ds par eligible"
| "AnyOf (Some d # ds) par eligible = (if d par eligible then True else AnyOf ds par eligible)"

fun AllOf :: "'v decider option list \<Rightarrow> 'v decider" where
  "AllOf [] par eligible = True"
| "AllOf (None # ds) par eligible = AllOf ds par eligible"
| "AllOf (Some d # ds) par eligible = (if \<not> d par eligible then False else AllOf ds par eligible)"

lemma bytes_reach_sum:
  "0 < threshold \<Longrightarrow> sum0 < threshold \<Longrightarrow>
   bytes_reach threshold sum0 cs \<longleftrightarrow> threshold \<le> sum0 + (\<Sum>c\<leftarrow>cs. int (length (tn_Title c)) + int (length (tn_Summary c)))"
proof (induction cs arbitrary: sum0)
  case (Cons c cs)
  have "0 \<le> (\<Sum>c\<leftarrow>cs. int (length (tn_Title c)) + int (length (tn_Summary c)))" by (rule sum_list_nonneg) auto
  then show ?case using Cons by (auto simp: Let_def algebra_simps)
qed simp

text \<open>The set of parents with an automatic promotion under way, by a key built from both identifiers.\<close>

definition promotionKey :: "string \<Rightarrow> string \<Rightarrow> string" where
  "promotionKey sid pid = sid @ ''|'' @ pid"

definition reserve :: "string \<Rightarrow> string \<Rightarrow> string list \<Rightarrow> bool \<times> string list" where
  "reserve sid pid keys =
     (let key = promotionKey sid pid in if key \<in> set keys then (False, keys) else (True, key # keys))"

definition release :: "string \<Rightarrow> string \<Rightarrow> string list \<Rightarrow> string list" where
  "release sid pid keys = removeAll (promotionKey sid pid) keys"

lemma name_char_no_bar: "\<not> name_char CHR ''|''"
  by (simp add: name_char_def)

lemma split_at_bar: "CHR ''|'' \<notin> set a \<Longrightarrow> CHR ''|'' \<notin> set c \<Longrightarrow> a @ CHR ''|'' # b = c @ CHR ''|'' # d \<Longrightarrow> a = c \<and> b = d"
proof (induction a arbitrary: c)
  case Nil
  then show ?case by (cases c) auto
next
  case (Cons x a)
  then show ?case by (cases c) auto
qed

lemma promotionKey_inject:
  assumes "validateSessionID sid = None" and "validateSessionID sid' = None"
  shows "promotionKey sid pid = promotionKey sid' pid' \<longleftrightarrow> sid = sid' \<and> pid = pid'"
proof -
  have "CHR ''|'' \<notin> set s" if "validateSessionID s = None" for s
    using that name_char_no_bar by (auto simp: validateSessionID_def IDPattern_def list_all_iff split: if_splits)
  then show ?thesis using assms split_at_bar [of sid sid' pid pid'] by (auto simp: promotionKey_def)
qed

section \<open>Marking the children\<close>

definition summarySourceMetaKey :: string where "summarySourceMetaKey = ''summary_source''"
definition SummarySourcePromotion :: string where "SummarySourcePromotion = ''promotion''"

definition setMetadata :: "'v tree_node \<Rightarrow> string \<Rightarrow> 'v tree_meta \<Rightarrow> 'v tree_node" where
  "setMetadata n key val = n\<lparr>tn_Metadata := AList.update key val (tn_Metadata n)\<rparr>"

definition fold_child :: "int \<Rightarrow> 'v tree_node \<Rightarrow> 'v tree_node" where
  "fold_child now c =
     setMetadata (c\<lparr>tn_Promoted := True, tn_PromotedAt := now, tn_UpdatedAt := now\<rparr>) summarySourceMetaKey
       (MetaString SummarySourcePromotion)"

fun fold_children :: "string list \<Rightarrow> int \<Rightarrow> string list \<Rightarrow> (string \<times> 'v tree_node) list \<Rightarrow> nat \<times> (string \<times> 'v tree_node) list" where
  "fold_children planned now [] nodes = (0, nodes)"
| "fold_children planned now (cid # cids) nodes =
     (if cid \<notin> set planned then fold_children planned now cids nodes
      else case map_of nodes cid of
        None \<Rightarrow> fold_children planned now cids nodes
      | Some c \<Rightarrow>
          if tn_Pinned c \<or> tn_Promoted c then fold_children planned now cids nodes
          else (case fold_children planned now cids (AList.update cid (fold_child now c) nodes) of (k, ns) \<Rightarrow> (Suc k, ns)))"

definition fold_parent :: "string \<Rightarrow> int \<Rightarrow> 'v tree_node \<Rightarrow> 'v tree_node" where
  "fold_parent newSummary now par =
     setMetadata (par\<lparr>tn_Summary := newSummary, tn_UpdatedAt := now\<rparr>) summarySourceMetaKey (MetaString SummarySourcePromotion)"

text \<open>
  The parent is the node \<open>pid\<close>, whose children list is read before they are marked; its summary is replaced
  only when a child was folded.
\<close>

definition applyPromotion :: "string \<Rightarrow> 'v tree_node \<Rightarrow> 'v session_tree \<Rightarrow> string \<Rightarrow> 'v tree_node list \<Rightarrow> int
      \<Rightarrow> nat \<times> 'v session_tree" where
  "applyPromotion pid par tr newSummary eligibleSnap now =
     (case fold_children (map tn_ID eligibleSnap) now (tn_Children par) (st_Nodes tr) of (folded, nodes) \<Rightarrow>
        if folded = 0 then (0, tr)
        else (folded, tr\<lparr>st_Nodes := (case map_of nodes pid of None \<Rightarrow> nodes
          | Some p \<Rightarrow> AList.update pid (fold_parent newSummary now p) nodes)\<rparr>))"

text \<open>The third phase of \<open>PromoteNode\<close>: nothing is written when no child was folded.\<close>

definition commit_promotion :: "string \<Rightarrow> string \<Rightarrow> 'v tree_node list \<Rightarrow> int \<Rightarrow> 'v session_tree
      \<Rightarrow> go_error + nat \<times> 'v tree_node \<times> 'v session_tree" where
  "commit_promotion pid newSummary eligibleSnap now tr =
     (case map_of (st_Nodes tr) pid of
        None \<Rightarrow> Inl (Errorf ''%w: %q'' [AStr pid] (Some ErrNodeNotFound))
      | Some par \<Rightarrow>
          (case applyPromotion pid par tr newSummary eligibleSnap now of (folded, tr') \<Rightarrow>
             let tr'' = (if 0 < folded then tr'\<lparr>st_UpdatedAt := now\<rparr> else tr') in
             Inr (folded, case map_of (st_Nodes tr'') pid of None \<Rightarrow> par | Some p \<Rightarrow> p, tr'')))"

section \<open>Cutting a summary\<close>

text \<open>The cut moves back while it stands before a continuation byte of UTF-8.\<close>

definition continuation :: "char \<Rightarrow> bool" where
  "continuation c \<longleftrightarrow> ((of_char c :: 8 word) AND 0xC0) = 0x80"

fun utf8_cut :: "string \<Rightarrow> nat \<Rightarrow> nat" where
  "utf8_cut s 0 = 0"
| "utf8_cut s (Suc k) = (if continuation (s ! Suc k) then utf8_cut s k else Suc k)"

definition clampSummary :: "string \<Rightarrow> int \<Rightarrow> string" where
  "clampSummary s maxBytes =
     (if maxBytes \<le> 0 \<or> int (length s) \<le> maxBytes then s else take (utf8_cut s (nat maxBytes)) s)"

section \<open>The view without folded nodes\<close>

definition children_of :: "(string \<times> 'v tree_node) list \<Rightarrow> string \<Rightarrow> string list" where
  "children_of nodes i = (case map_of nodes i of None \<Rightarrow> [] | Some n \<Rightarrow> tn_Children n)"

text \<open>The recursive walk over the children, its call stack as a list of nodes still to visit.\<close>

function collectReached :: "(string \<times> 'v tree_node) list \<Rightarrow> string list \<Rightarrow> string list \<Rightarrow> string list" where
  "collectReached nodes [] gone = gone"
| "collectReached nodes (c # todo) gone =
     (if c \<in> set gone then collectReached nodes todo gone else collectReached nodes (children_of nodes c @ todo) (c # gone))"
  by pat_completeness auto
termination
proof (relation "measures [\<lambda>(nodes, todo, gone). card (fst ` set nodes - set gone), \<lambda>(nodes, todo, gone). length todo]", goal_cases)
  case (3 nodes c todo gone)
  show ?case
  proof (cases "c \<in> fst ` set nodes")
    case True
    then have "fst ` set nodes - set (c # gone) \<subset> fst ` set nodes - set gone" using 3 by auto
    then have "card (fst ` set nodes - set (c # gone)) < card (fst ` set nodes - set gone)" by (intro psubset_card_mono) auto
    then show ?thesis by simp
  next
    case False
    then have "map_of nodes c = None" by (simp add: map_of_eq_None_iff)
    then have "children_of nodes c = []" by (simp add: children_of_def)
    moreover have "fst ` set nodes - set (c # gone) = fst ` set nodes - set gone" using False by auto
    ultimately show ?thesis by simp
  qed
qed simp_all

definition collectDescendants :: "(string \<times> 'v tree_node) list \<Rightarrow> string \<Rightarrow> string list \<Rightarrow> string list" where
  "collectDescendants nodes i gone = collectReached nodes (children_of nodes i) gone"

text \<open>
  The order in which Go visits the dropped nodes is not determined, and nodes added meanwhile may be visited
  too; the list order stands for any order, because the set collected is the same (below).
\<close>

definition dropped :: "(string \<times> 'v tree_node) list \<Rightarrow> string list" where
  "dropped nodes = (let marked = map fst (filter (\<lambda>(i, n). tn_Promoted n) nodes) in fold (collectDescendants nodes) marked marked)"

definition filterPromotedFromTree :: "'v session_tree \<Rightarrow> 'v session_tree" where
  "filterPromotedFromTree tr =
     (let gone = dropped (st_Nodes tr) in
      if gone = [] then tr
      else tr\<lparr>st_Nodes := map (\<lambda>(i, n). (i, n\<lparr>tn_Children := filter (\<lambda>c. c \<notin> set gone) (tn_Children n)\<rparr>))
        (filter (\<lambda>(i, n). i \<notin> set gone) (st_Nodes tr))\<rparr>)"

section \<open>What the view leaves out\<close>

lemma collect_extends: "set gone \<union> set todo \<subseteq> set (collectReached nodes todo gone)"
  by (induction nodes todo gone rule: collectReached.induct) auto

lemma collect_least:
  "set gone \<subseteq> D \<Longrightarrow> set todo \<subseteq> D \<Longrightarrow> (\<And>i. i \<in> D \<Longrightarrow> set (children_of nodes i) \<subseteq> D) \<Longrightarrow> set (collectReached nodes todo gone) \<subseteq> D"
  by (induction nodes todo gone rule: collectReached.induct) auto

lemma collect_closed:
  "x \<in> set (collectReached nodes todo gone) \<Longrightarrow> x \<in> set gone \<or> set (children_of nodes x) \<subseteq> set (collectReached nodes todo gone)"
proof (induction nodes todo gone rule: collectReached.induct)
  case (2 nodes c todo gone)
  show ?case
  proof (cases "c \<in> set gone")
    case False
    have "set (children_of nodes c) \<subseteq> set (collectReached nodes (children_of nodes c @ todo) (c # gone))"
      using collect_extends [of "c # gone" "children_of nodes c @ todo" nodes] by auto
    then show ?thesis using 2 False by auto
  qed (use 2 in simp)
qed simp

lemma fold_collect:
  fixes nodes :: "(string \<times> 'v tree_node) list"
  defines "R \<equiv> \<lambda>ids gone. set (fold (collectDescendants nodes) ids gone)"
  shows "set gone \<subseteq> R ids gone \<and>
    (\<forall>x. x \<in> R ids gone \<longrightarrow> x \<in> set gone \<or> set (children_of nodes x) \<subseteq> R ids gone) \<and>
    (\<forall>x\<in>set ids. set (children_of nodes x) \<subseteq> R ids gone)"
proof (induction ids arbitrary: gone)
  case Nil
  then show ?case by (simp add: R_def)
next
  case (Cons i ids)
  define g where "g = collectDescendants nodes i gone"
  have step: "R (i # ids) gone = R ids g" by (simp add: R_def g_def)
  have g: "set gone \<subseteq> set g" "set (children_of nodes i) \<subseteq> set g"
    using collect_extends [of gone "children_of nodes i" nodes] by (auto simp: g_def collectDescendants_def)
  have g': "x \<in> set gone \<or> set (children_of nodes x) \<subseteq> set g" if "x \<in> set g" for x
    using collect_closed [of x nodes "children_of nodes i" gone] that by (simp add: g_def collectDescendants_def)
  note IH = Cons.IH [of g]
  have sub: "set g \<subseteq> R ids g" using IH by blast
  have "x \<in> set gone \<or> set (children_of nodes x) \<subseteq> R ids g" if "x \<in> R ids g" for x
    using IH g' [of x] sub that by blast
  then show ?case unfolding step using IH g sub by auto
qed

text \<open>A node is hidden when it is marked or below a marked node.\<close>

inductive hidden :: "(string \<times> 'v tree_node) list \<Rightarrow> string \<Rightarrow> bool" for nodes where
  hidden_marked: "map_of nodes i = Some n \<Longrightarrow> tn_Promoted n \<Longrightarrow> hidden nodes i"
| hidden_below: "hidden nodes i \<Longrightarrow> c \<in> set (children_of nodes i) \<Longrightarrow> hidden nodes c"

lemma set_dropped:
  assumes "distinct (map fst nodes)"
  shows "set (dropped nodes) = {i. hidden nodes i}"
proof -
  define marked where "marked = map fst (filter (\<lambda>(i, n). tn_Promoted n) nodes)"
  have m: "i \<in> set marked \<longleftrightarrow> (\<exists>n. map_of nodes i = Some n \<and> tn_Promoted n)" for i
    using map_of_eq_Some_iff [OF assms] by (force simp: marked_def)
  have d: "dropped nodes = fold (collectDescendants nodes) marked marked" by (simp only: dropped_def marked_def Let_def)
  note F = fold_collect [of marked nodes marked]
  have closed: "set (children_of nodes x) \<subseteq> set (dropped nodes)" if "x \<in> set (dropped nodes)" for x
    using F that unfolding d by blast
  have "i \<in> set (dropped nodes)" if "hidden nodes i" for i
    using that
  proof induction
    case (hidden_marked i n)
    then show ?case using F m unfolding d by blast
  next
    case (hidden_below i c)
    then show ?case using closed by blast
  qed
  moreover have "set (fold (collectDescendants nodes) ids gone) \<subseteq> Collect (hidden nodes)"
    if "set gone \<subseteq> Collect (hidden nodes)" "set ids \<subseteq> Collect (hidden nodes)" for ids gone
    using that
  proof (induction ids arbitrary: gone)
    case (Cons i ids)
    have "set (collectDescendants nodes i gone) \<subseteq> Collect (hidden nodes)"
      unfolding collectDescendants_def using Cons.prems by (intro collect_least) (auto intro: hidden_below)
    then show ?case using Cons by simp
  qed simp
  moreover have "set marked \<subseteq> Collect (hidden nodes)" using m by (auto intro: hidden_marked)
  ultimately show ?thesis unfolding d by blast
qed

lemma view_lookup:
  assumes "distinct (map fst (st_Nodes tr))"
  shows "map_of (st_Nodes (filterPromotedFromTree tr)) i =
    (if hidden (st_Nodes tr) i then None
     else map_option (\<lambda>n. n\<lparr>tn_Children := filter (\<lambda>c. \<not> hidden (st_Nodes tr) c) (tn_Children n)\<rparr>) (map_of (st_Nodes tr) i))"
proof -
  define gone where "gone = dropped (st_Nodes tr)"
  have g: "i \<in> set gone \<longleftrightarrow> hidden (st_Nodes tr) i" for i using set_dropped [OF assms] by (simp add: gone_def)
  have "map_of (map (\<lambda>(i, n). (i, f n)) (filter (\<lambda>(i, n). P i) xs)) i = (if P i then map_option f (map_of xs i) else None)"
    for f :: "'a tree_node \<Rightarrow> 'a tree_node" and P xs by (induction xs) auto
  note f = this
  show ?thesis
  proof (cases "gone = []")
    case True
    then have "\<not> hidden (st_Nodes tr) c" for c using g by (metis empty_iff empty_set)
    then show ?thesis using True by (cases "map_of (st_Nodes tr) i") (simp_all add: filterPromotedFromTree_def gone_def)
  next
    case False
    then show ?thesis
      by (simp add: filterPromotedFromTree_def gone_def [symmetric] Let_def f g del: set_map)
  qed
qed

text \<open>In a well-formed tree being below a marked node is having a marked node on the way to the root.\<close>

inductive ancestor :: "(string \<Rightarrow> 'v tree_node option) \<Rightarrow> string \<Rightarrow> string \<Rightarrow> bool" for m where
  anc_self: "m i = Some n \<Longrightarrow> ancestor m i i"
| anc_up: "m i = Some n \<Longrightarrow> ancestor m a (tn_Parent n) \<Longrightarrow> ancestor m a i"

lemma ancestor_dom: "ancestor m a i \<Longrightarrow> i \<in> dom m \<and> a \<in> dom m"
  by (induction rule: ancestor.induct) auto

lemma hidden_iff_ancestor:
  assumes "links root (map_of nodes)"
  shows "hidden nodes i \<longleftrightarrow> (\<exists>a n. ancestor (map_of nodes) a i \<and> map_of nodes a = Some n \<and> tn_Promoted n)"
proof
  assume "hidden nodes i"
  then show "\<exists>a n. ancestor (map_of nodes) a i \<and> map_of nodes a = Some n \<and> tn_Promoted n"
  proof induction
    case (hidden_below i c)
    then obtain a n where a: "ancestor (map_of nodes) a i" "map_of nodes a = Some n" "tn_Promoted n" by blast
    then obtain k where k: "map_of nodes i = Some k" using ancestor_dom by blast
    then have "c \<in> set (tn_Children k)" using hidden_below by (simp add: children_of_def)
    from linked_child [OF assms k this] obtain b where "map_of nodes c = Some b" "tn_Parent b = i" .
    then show ?case using a anc_up by metis
  qed (blast intro: anc_self)
next
  assume "\<exists>a n. ancestor (map_of nodes) a i \<and> map_of nodes a = Some n \<and> tn_Promoted n"
  then obtain a n where "ancestor (map_of nodes) a i" "map_of nodes a = Some n" "tn_Promoted n" by blast
  then show "hidden nodes i"
  proof (induction)
    case (anc_up i k a)
    have "i \<noteq> root" using linkedD(6) [OF assms anc_up(1)] ancestor_dom [OF anc_up(2)] linkedD(3) [OF assms] by blast
    from linked_parent [OF assms anc_up(1) this] obtain p where "map_of nodes (tn_Parent k) = Some p" "i \<in> set (tn_Children p)" .
    then show ?case using anc_up hidden_below [of nodes "tn_Parent k" i] by (simp add: children_of_def)
  qed (blast intro: hidden_marked)
qed

section \<open>What folding does\<close>

definition folds :: "string list \<Rightarrow> (string \<Rightarrow> 'v tree_node option) \<Rightarrow> string \<Rightarrow> bool" where
  "folds planned m i \<longleftrightarrow> i \<in> set planned \<and> (case m i of None \<Rightarrow> False | Some c \<Rightarrow> \<not> (tn_Pinned c \<or> tn_Promoted c))"

lemma fold_children_step:
  "fold_children planned now (cid # cids) nodes =
     (if folds planned (map_of nodes) cid
      then map_prod Suc id (fold_children planned now cids (AList.update cid (fold_child now (the (map_of nodes cid))) nodes))
      else fold_children planned now cids nodes)"
  by (simp add: folds_def case_prod_unfold map_prod_def split: option.splits)

lemma fold_children_spec:
  "distinct cids \<Longrightarrow> fold_children planned now cids nodes = (k, ns) \<Longrightarrow>
   k = length (filter (folds planned (map_of nodes)) cids) \<and> map fst ns = map fst nodes \<and>
   map_of ns i = (if i \<in> set cids \<and> folds planned (map_of nodes) i then map_option (fold_child now) (map_of nodes i)
     else map_of nodes i)"
proof (induction cids arbitrary: nodes k ns)
  case (Cons cid cids)
  have d: "cid \<notin> set cids" "distinct cids" using Cons.prems(1) by simp_all
  show ?case
  proof (cases "folds planned (map_of nodes) cid")
    case False
    then have "fold_children planned now cids nodes = (k, ns)" using Cons.prems(2) by (simp only: fold_children_step if_False)
    from Cons.IH [OF d(2) this] show ?thesis using False d by auto
  next
    case True
    then obtain c where c: "map_of nodes cid = Some c" by (auto simp: folds_def split: option.splits)
    define u where "u = AList.update cid (fold_child now c) nodes"
    have "map_prod Suc id (fold_children planned now cids u) = (k, ns)"
      using Cons.prems(2) True by (simp only: fold_children_step if_True c option.sel u_def)
    then obtain k' where k': "fold_children planned now cids u = (k', ns)" "k = Suc k'"
      by (cases "fold_children planned now cids u") auto
    have u: "map_of u = (map_of nodes)(cid \<mapsto> fold_child now c)" by (simp add: u_def update_conv')
    have same: "folds planned (map_of u) j = folds planned (map_of nodes) j" if "j \<in> set cids" for j
      using that d by (auto simp: folds_def u)
    have keys: "map fst u = map fst nodes" using map_of_SomeD [OF c] by (force simp: u_def update_keys)
    have "filter (folds planned (map_of u)) cids = filter (folds planned (map_of nodes)) cids"
      using same by (intro filter_cong) auto
    with Cons.IH [OF d(2) k'(1)] have IH: "k' = length (filter (folds planned (map_of nodes)) cids)" "map fst ns = map fst u"
      "map_of ns i = (if i \<in> set cids \<and> folds planned (map_of u) i then map_option (fold_child now) (map_of u i) else map_of u i)"
      by simp_all
    have "map_of ns i = (if i \<in> set (cid # cids) \<and> folds planned (map_of nodes) i
        then map_option (fold_child now) (map_of nodes i) else map_of nodes i)"
      using IH(3) d True same [of i] c by (cases "i = cid") (auto simp: u)
    then show ?thesis using IH(1,2) keys True k'(2) by simp
  qed
qed simp

lemma fold_marks [simp]:
  "place (fold_child now c) = place c" "place (fold_parent s now c) = place c"
  "tn_Promoted (fold_child now c)" "tn_Summary (fold_parent s now c) = s"
  by (simp_all add: fold_child_def fold_parent_def setMetadata_def place_def)

lemma fold_ok: "node_ok c \<Longrightarrow> node_ok (fold_child now c)"
  "node_ok c \<Longrightarrow> length s \<le> SummaryMaxBytes \<Longrightarrow> node_ok (fold_parent s now c)"
  by (simp_all add: node_ok_def fold_child_def fold_parent_def setMetadata_def)

lemma not_own_child:
  assumes "tree_wf tr" and "map_of (st_Nodes tr) pid = Some par"
  shows "pid \<notin> set (tn_Children par)"
proof
  assume c: "pid \<in> set (tn_Children par)"
  have links: "links (st_RootID tr) (map_of (st_Nodes tr))" using assms(1) by (simp add: tree_wf_iff)
  from linked_child [OF links assms(2) c] assms(2) have "tn_Parent par = pid" by auto
  moreover have "pid \<noteq> st_RootID tr" using child_not_root [OF links assms(2) c] .
  ultimately show False using linked_parent [OF links assms(2)] assms(2) by auto
qed

lemma commit_lookup:
  assumes wf: "tree_wf tr" and par: "map_of (st_Nodes tr) pid = Some par"
    and commit: "commit_promotion pid s snap now tr = Inr (k, p, tr')"
  defines "F \<equiv> filter (folds (map tn_ID snap) (map_of (st_Nodes tr))) (tn_Children par)"
  shows "k = length F \<and> map fst (st_Nodes tr') = map fst (st_Nodes tr) \<and> map_of (st_Nodes tr') pid = Some p \<and>
    map_of (st_Nodes tr') i =
      (if i \<in> set F then map_option (fold_child now) (map_of (st_Nodes tr) i)
       else if i = pid \<and> F \<noteq> [] then Some (fold_parent s now par) else map_of (st_Nodes tr) i) \<and>
    tr' = tr\<lparr>st_Nodes := st_Nodes tr', st_UpdatedAt := (if F = [] then st_UpdatedAt tr else now)\<rparr>"
proof -
  have links: "links (st_RootID tr) (map_of (st_Nodes tr))" using wf by (simp add: tree_wf_iff)
  obtain f ns where f: "fold_children (map tn_ID snap) now (tn_Children par) (st_Nodes tr) = (f, ns)" by fastforce
  note spec = fold_children_spec [OF linkedD(5) [OF links par] f]
  have self: "pid \<notin> set F" using not_own_child [OF wf par] by (simp add: F_def)
  have len: "f = length F" using spec by (simp add: F_def)
  have keys: "map fst ns = map fst (st_Nodes tr)" using spec by simp
  have lookup: "map_of ns j = (if j \<in> set F then map_option (fold_child now) (map_of (st_Nodes tr) j) else map_of (st_Nodes tr) j)" for j
    using fold_children_spec [OF linkedD(5) [OF links par] f, of j] by (auto simp: F_def)
  have at: "map_of ns pid = Some par" using lookup [of pid] self par by simp
  show ?thesis
  proof (cases "F = []")
    case True
    then have "k = 0" "p = par" "tr' = tr" using commit par f len by (simp_all add: commit_promotion_def applyPromotion_def)
    then show ?thesis using True par by simp
  next
    case False
    have pn: "pid \<in> set (map fst ns)" using map_of_SomeD [OF at] by force
    have t: "k = f" "tr' = tr\<lparr>st_Nodes := AList.update pid (fold_parent s now par) ns, st_UpdatedAt := now\<rparr>"
      "p = fold_parent s now par"
      using commit par f len False at by (auto simp: commit_promotion_def applyPromotion_def Let_def update_conv' split: if_splits)
    then show ?thesis using False self len keys pn by (simp add: update_conv' update_keys lookup)
  qed
qed

lemma commit_wf:
  assumes wf: "tree_wf tr" and small: "length s \<le> SummaryMaxBytes"
    and commit: "commit_promotion pid s snap now tr = Inr (k, p, tr')"
  shows "tree_wf tr'"
proof -
  obtain par where par: "map_of (st_Nodes tr) pid = Some par"
    using commit by (auto simp: commit_promotion_def split: option.splits)
  have links: "links (st_RootID tr) (map_of (st_Nodes tr))" using wf by (simp add: tree_wf_iff)
  note L = commit_lookup [OF wf par commit]
  have "links (st_RootID tr) (map_of (st_Nodes tr'))"
  proof (rule links_same_places [OF links])
    show "map_option place (map_of (st_Nodes tr') i) = map_option place (map_of (st_Nodes tr) i)" for i
      using L [of i] par by (cases "map_of (st_Nodes tr) i") (auto split: if_splits)
    show "node_ok n" if "map_of (st_Nodes tr') i = Some n" for i n
    proof -
      have old: "node_ok c" if "map_of (st_Nodes tr) j = Some c" for j c using linkedD(1) [OF links that] .
      have "\<exists>c. map_of (st_Nodes tr) i = Some c \<and> (n = fold_child now c \<or> n = c) \<or> n = fold_parent s now par"
        using L [of i] that by (cases "map_of (st_Nodes tr) i") (simp_all split: if_splits)
      then show ?thesis using fold_ok(1) fold_ok(2) [OF old [OF par] small] old by blast
    qed
  qed
  moreover have keys: "map fst (st_Nodes tr') = map fst (st_Nodes tr)" using L by blast
  moreover have "dom (map_of (st_Nodes tr')) = dom (map_of (st_Nodes tr))"
    by (metis keys dom_map_of_conv_image_fst list.set_map)
  moreover have "length (st_Nodes tr') = length (st_Nodes tr)" using keys by (metis length_map)
  moreover have "st_RootID tr' = st_RootID tr \<and> st_Cursor tr' = st_Cursor tr"
  proof -
    obtain at where t: "tr' = tr\<lparr>st_Nodes := st_Nodes tr', st_UpdatedAt := at\<rparr>" using L [of pid] by blast
    from arg_cong [OF t, of st_RootID] arg_cong [OF t, of st_Cursor] show ?thesis by simp
  qed
  ultimately show ?thesis using wf by (simp add: tree_wf_iff)
qed

section \<open>Cutting between characters\<close>

text \<open>A text of UTF-8 is a sequence of characters, each a first byte and up to three continuation bytes.\<close>

definition utf8_char :: "string \<Rightarrow> bool" where
  "utf8_char c \<longleftrightarrow> c \<noteq> [] \<and> \<not> continuation (hd c) \<and> list_all continuation (tl c) \<and> length c \<le> 4"

lemma utf8_cut_le: "utf8_cut s n \<le> n"
  by (induction s n rule: utf8_cut.induct) auto

lemma utf8_cut_start: "utf8_cut s n = 0 \<or> \<not> continuation (s ! utf8_cut s n)"
  by (induction s n rule: utf8_cut.induct) auto

lemma utf8_cut_greatest: "j \<le> n \<Longrightarrow> \<not> continuation (s ! j) \<Longrightarrow> j \<le> utf8_cut s n"
  by (induction s n rule: utf8_cut.induct) (auto simp: le_Suc_eq)

lemma start_is_boundary:
  "list_all utf8_char cs \<Longrightarrow> j < length (concat cs) \<Longrightarrow> \<not> continuation (concat cs ! j) \<Longrightarrow>
   \<exists>k. j = length (concat (take k cs)) \<and> take j (concat cs) = concat (take k cs)"
proof (induction cs arbitrary: j)
  case (Cons c cs)
  show ?case
  proof (cases "j < length c")
    case True
    have "j = 0"
    proof (rule ccontr)
      assume "j \<noteq> 0"
      then have "c ! j = tl c ! (j - 1)" "j - 1 < length (tl c)" using True by (cases c; cases j; simp)+
      moreover have "\<forall>b\<in>set (tl c). continuation b" using Cons.prems(1) by (simp add: utf8_char_def list_all_iff)
      ultimately have "continuation (c ! j)" by (metis nth_mem)
      then show False using Cons.prems(3) True by (simp add: nth_append)
    qed
    then show ?thesis by (intro exI [of _ 0]) simp
  next
    case False
    then have "\<exists>k. j - length c = length (concat (take k cs)) \<and> take (j - length c) (concat cs) = concat (take k cs)"
      using Cons.prems by (intro Cons.IH) (auto simp: nth_append)
    then obtain k where "j - length c = length (concat (take k cs))" "take (j - length c) (concat cs) = concat (take k cs)" by blast
    then show ?thesis using False by (intro exI [of _ "Suc k"]) simp
  qed
qed simp

lemma start_nearby:
  "list_all utf8_char cs \<Longrightarrow> n < length (concat cs) \<Longrightarrow> \<exists>j\<le>n. n \<le> j + 3 \<and> \<not> continuation (concat cs ! j)"
proof (induction cs arbitrary: n)
  case (Cons c cs)
  have c: "c \<noteq> []" "\<not> continuation (hd c)" "length c \<le> 4" using Cons.prems(1) by (simp_all add: utf8_char_def)
  show ?case
  proof (cases "n < length c")
    case True
    then show ?thesis using c by (intro exI [of _ 0]) (auto simp: nth_append hd_conv_nth)
  next
    case False
    then have "n - length c < length (concat cs)" using Cons.prems(2) by auto
    then obtain j where "j \<le> n - length c" "n - length c \<le> j + 3" "\<not> continuation (concat cs ! j)"
      using Cons.IH [of "n - length c"] Cons.prems(1) by auto
    then show ?thesis using False by (intro exI [of _ "length c + j"]) (auto simp: nth_append)
  qed
qed simp

text \<open>
  A summary is cut between two characters: a text of whole UTF-8 characters becomes its first
  characters, is unchanged when it fits, never exceeds the limit, and otherwise lacks at most three bytes of it.
\<close>
theorem clamp_keeps_characters:
  assumes "list_all utf8_char cs" and "0 < n"
  shows "\<exists>k. clampSummary (concat cs) (int n) = concat (take k cs) \<and> length (concat (take k cs)) \<le> n \<and>
    (if length (concat cs) \<le> n then concat (take k cs) = concat cs else n \<le> length (concat (take k cs)) + 3)"
proof (cases "length (concat cs) \<le> n")
  case True
  then show ?thesis by (intro exI [of _ "length cs"]) (simp add: clampSummary_def)
next
  case False
  define j where "j = utf8_cut (concat cs) n"
  have j: "j \<le> n" using utf8_cut_le by (simp add: j_def)
  have clamp: "clampSummary (concat cs) (int n) = take j (concat cs)" using False assms(2) by (simp add: clampSummary_def j_def)
  obtain k where k: "j = length (concat (take k cs))" "take j (concat cs) = concat (take k cs)"
  proof (cases "j = 0")
    case True
    then show ?thesis using that [of 0] by simp
  next
    case nz: False
    then have "\<not> continuation (concat cs ! j)" using utf8_cut_start [of "concat cs" n] by (simp add: j_def)
    then show ?thesis using start_is_boundary [OF assms(1), of j] j False that by fastforce
  qed
  obtain i where "i \<le> n" "n \<le> i + 3" "\<not> continuation (concat cs ! i)" using start_nearby [OF assms(1), of n] False by auto
  then have "n \<le> j + 3" using utf8_cut_greatest [of i n "concat cs"] by (simp add: j_def)
  then show ?thesis using clamp k j False by (intro exI [of _ k]) simp
qed

definition dash :: "string list" where
  "dash = [''a'', [CHR 0xE2, CHR 0x80, CHR 0x94], ''b'']"

theorem clamp_keeps_characters_witness:
  "\<exists>k. clampSummary (concat dash) (int 3) = concat (take k dash) \<and> length (concat (take k dash)) \<le> 3 \<and>
    (if length (concat dash) \<le> 3 then concat (take k dash) = concat dash else 3 \<le> length (concat (take k dash)) + 3)"
proof -
  have "list_all utf8_char dash" by (simp add: utf8_char_def continuation_def dash_def)
  from clamp_keeps_characters [OF this, of 3] show ?thesis by simp
qed

section \<open>The view is the unfolded part\<close>

definition marked :: "(string \<Rightarrow> 'v tree_node option) \<Rightarrow> string \<Rightarrow> bool" where
  "marked m i = (case m i of None \<Rightarrow> False | Some n \<Rightarrow> tn_Promoted n)"

lemma hidden_marked_ancestor:
  "links root (map_of nodes) \<Longrightarrow> hidden nodes i \<longleftrightarrow> (\<exists>a. ancestor (map_of nodes) a i \<and> marked (map_of nodes) a)"
  using hidden_iff_ancestor [of root nodes i] by (auto simp: marked_def split: option.splits)

lemma children_of_mem: "c \<in> set (children_of nodes i) \<longleftrightarrow> (\<exists>n. map_of nodes i = Some n \<and> c \<in> set (tn_Children n))"
  by (cases "map_of nodes i") (simp_all add: children_of_def)

lemma visible_child:
  assumes links: "links root (map_of nodes)" and n: "map_of nodes i = Some n" and vis: "\<not> hidden nodes i"
    and c: "c \<in> set (tn_Children n)"
  shows "hidden nodes c \<longleftrightarrow> marked (map_of nodes) c"
proof
  assume "hidden nodes c"
  then show "marked (map_of nodes) c"
  proof (cases rule: hidden.cases)
    case (hidden_below j)
    then obtain k where k: "map_of nodes j = Some k" "c \<in> set (tn_Children k)"
      using children_of_mem by blast
    have "j = i" using linked_child [OF links k] linked_child [OF links n c] by (metis option.inject)
    then show ?thesis using hidden_below vis by simp
  qed (simp add: marked_def)
next
  assume "marked (map_of nodes) c"
  then show "hidden nodes c" by (auto simp: marked_def split: option.splits intro: hidden_marked)
qed

lemma view_shape:
  assumes "tree_wf tr"
  shows "map_of (st_Nodes (filterPromotedFromTree tr)) i =
    (if hidden (st_Nodes tr) i then None
     else map_option (\<lambda>n. n\<lparr>tn_Children := filter (\<lambda>c. \<not> marked (map_of (st_Nodes tr)) c) (tn_Children n)\<rparr>) (map_of (st_Nodes tr) i))"
proof (cases "hidden (st_Nodes tr) i \<or> map_of (st_Nodes tr) i = None")
  case True
  then show ?thesis using assms by (auto simp: view_lookup tree_wf_iff)
next
  case False
  then obtain n where n: "map_of (st_Nodes tr) i = Some n" "\<not> hidden (st_Nodes tr) i" by auto
  have "filter (\<lambda>c. \<not> hidden (st_Nodes tr) c) (tn_Children n) = filter (\<lambda>c. \<not> marked (map_of (st_Nodes tr)) c) (tn_Children n)"
    using visible_child [OF _ n] assms by (intro filter_cong) (auto simp: tree_wf_iff)
  then show ?thesis using n assms by (simp add: view_lookup tree_wf_iff)
qed

lemma view_links:
  assumes wf: "tree_wf tr" and root: "\<not> marked (map_of (st_Nodes tr)) (st_RootID tr)"
  shows "links (st_RootID tr) (map_of (st_Nodes (filterPromotedFromTree tr)))"
proof -
  define m where "m = map_of (st_Nodes tr)"
  define v where "v = map_of (st_Nodes (filterPromotedFromTree tr))"
  define cut where "cut n = n\<lparr>tn_Children := filter (\<lambda>c. \<not> marked m c) (tn_Children n)\<rparr>" for n :: "'a tree_node"
  have links: "links (st_RootID tr) m" using wf by (simp add: tree_wf_iff m_def)
  have v: "v i = (if hidden (st_Nodes tr) i then None else map_option cut (m i))" for i
    using view_shape [OF wf, of i] by (simp add: v_def m_def cut_def [abs_def])
  have "node_ok k \<and> linked (st_RootID tr) v i k" if i: "v i = Some k" for i k
  proof -
    have vis: "\<not> hidden (st_Nodes tr) i" using i v [of i] by (auto split: if_splits)
    then obtain n where n: "m i = Some n" "k = cut n" using i v [of i] by auto
    note L = linkedD [OF links n(1)]
    have kids: "(case v c of None \<Rightarrow> False | Some b \<Rightarrow> tn_Parent b = i)" if c: "c \<in> set (tn_Children n)" "\<not> marked m c" for c
    proof -
      obtain b where b: "m c = Some b" "tn_Parent b = i" using linked_child [OF links n(1) c(1)] .
      moreover have "\<not> hidden (st_Nodes tr) c"
        using visible_child [OF links [unfolded m_def] n(1) [unfolded m_def] vis c(1)] c(2) by (simp add: m_def)
      ultimately show ?thesis using v [of c] by (simp add: cut_def)
    qed
    have up: "(case v (tn_Parent n) of None \<Rightarrow> False | Some p \<Rightarrow> i \<in> set (tn_Children p) \<and> tn_Depth n = tn_Depth p + 1)"
      if nr: "i \<noteq> st_RootID tr"
    proof -
      obtain p where p: "m (tn_Parent n) = Some p" "i \<in> set (tn_Children p)" "tn_Depth n = tn_Depth p + 1"
        using linked_parent [OF links n(1) nr] .
      have "\<not> hidden (st_Nodes tr) (tn_Parent n)"
        using hidden_below [of "st_Nodes tr" "tn_Parent n" i] p vis by (auto simp: children_of_def m_def)
      moreover have "\<not> marked m i" using vis n(1) by (auto simp: marked_def m_def dest: hidden_marked)
      ultimately show ?thesis using p v [of "tn_Parent n"] by (simp add: cut_def)
    qed
    have cut: "tn_ID k = tn_ID n" "tn_Depth k = tn_Depth n" "tn_Parent k = tn_Parent n"
      "tn_Children k = filter (\<lambda>c. \<not> marked m c) (tn_Children n)" "node_ok k = node_ok n"
      using n(2) by (simp_all add: cut_def node_ok_def)
    show ?thesis using L kids up unfolding linked_def list_all_iff cut by simp
  qed
  then show ?thesis by (simp add: links_def v_def)
qed

lemma view_wf:
  assumes wf: "tree_wf tr" and root: "\<not> marked (map_of (st_Nodes tr)) (st_RootID tr)"
  shows "tree_wf ((filterPromotedFromTree tr)\<lparr>st_Cursor := ''''\<rparr>)"
proof -
  let ?v = "filterPromotedFromTree tr"
  have same: "st_RootID ?v = st_RootID tr" by (simp add: filterPromotedFromTree_def Let_def)
  have "distinct (map fst (st_Nodes ?v)) \<and> length (st_Nodes ?v) \<le> length (st_Nodes tr)"
  proof -
    have "map fst (map (\<lambda>(i, n). (i, f n)) (filter (\<lambda>(i, n). P i) xs)) = filter P (map fst xs)"
      for f :: "'a tree_node \<Rightarrow> 'a tree_node" and P and xs :: "(string \<times> 'a tree_node) list" by (induction xs) auto
    then show ?thesis using wf by (simp add: filterPromotedFromTree_def Let_def tree_wf_iff del: map_map)
  qed
  moreover have "\<not> hidden (st_Nodes tr) (st_RootID tr)"
  proof
    assume "hidden (st_Nodes tr) (st_RootID tr)"
    then show False
    proof (cases rule: hidden.cases)
      case (hidden_below j)
      then obtain k where "map_of (st_Nodes tr) j = Some k" "st_RootID tr \<in> set (tn_Children k)"
        using children_of_mem by blast
      moreover have "links (st_RootID tr) (map_of (st_Nodes tr))" using wf by (simp add: tree_wf_iff)
      ultimately show False using child_not_root by blast
    qed (use root in \<open>simp add: marked_def\<close>)
  qed
  ultimately show ?thesis
    using view_links [OF wf root] wf view_shape [OF wf, of "st_RootID tr"] by (auto simp: tree_wf_iff same)
qed

text \<open>A tree with a folded branch, for the concrete instances below.\<close>

definition sample_node :: "string \<Rightarrow> string \<Rightarrow> string list \<Rightarrow> int \<Rightarrow> bool \<Rightarrow> unit tree_node" where
  "sample_node i par children depth promoted =
     \<lparr>tn_ID = i, tn_Type = NodeSubtask, tn_Status = StatusActive, tn_Title = ''t'', tn_Summary = ''s'', tn_ContentRef = '''',
      tn_EmbeddingID = '''', tn_Evidence = [], tn_Supersedes = [], tn_Pinned = False, tn_Promoted = promoted, tn_PromotedAt = 0,
      tn_Parent = par, tn_Children = children, tn_Depth = depth, tn_CreatedAt = 1, tn_UpdatedAt = 1, tn_Metadata = []\<rparr>"

definition sample_tree :: "unit session_tree" where
  "sample_tree =
     \<lparr>st_SessionID = ''s'', st_RootID = ''tn-r'', st_Cursor = ''tn-c'',
      st_Nodes = [(''tn-r'', sample_node ''tn-r'' '''' [''tn-a'', ''tn-b''] 0 False),
        (''tn-a'', sample_node ''tn-a'' ''tn-r'' [''tn-c''] 1 True), (''tn-b'', sample_node ''tn-b'' ''tn-r'' [] 1 False),
        (''tn-c'', sample_node ''tn-c'' ''tn-a'' [] 2 False)],
      st_UpdatedAt = 1\<rparr>"

lemma sample_wf: "tree_wf sample_tree"
  by code_simp

text \<open>
  C25. The view without folded nodes is exactly the unfolded part of the tree, whatever order the nodes are
  visited in: a node is shown if and only if neither it nor any node on its way to the root is folded, with
  its contents unchanged and the folded ones left out of its children; and unless the root itself is folded
  the view is a well-formed tree again, but for the cursor, which may point to a node left out.
\<close>
theorem view_exact:
  assumes "tree_wf tr"
  shows "map_of (st_Nodes (filterPromotedFromTree tr)) i =
    (if \<exists>a. ancestor (map_of (st_Nodes tr)) a i \<and> marked (map_of (st_Nodes tr)) a then None
     else map_option (\<lambda>n. n\<lparr>tn_Children := filter (\<lambda>c. \<not> marked (map_of (st_Nodes tr)) c) (tn_Children n)\<rparr>) (map_of (st_Nodes tr) i)) \<and>
    (if marked (map_of (st_Nodes tr)) (st_RootID tr) then True else tree_wf ((filterPromotedFromTree tr)\<lparr>st_Cursor := ''''\<rparr>))"
proof -
  have "links (st_RootID tr) (map_of (st_Nodes tr))" using assms by (simp add: tree_wf_iff)
  then show ?thesis using view_wf [OF assms] by (simp add: view_shape [OF assms] hidden_marked_ancestor)
qed

theorem view_exact_witness:
  "map_of (st_Nodes (filterPromotedFromTree sample_tree)) ''tn-b'' =
    (if \<exists>a. ancestor (map_of (st_Nodes sample_tree)) a ''tn-b'' \<and> marked (map_of (st_Nodes sample_tree)) a then None
     else map_option (\<lambda>n. n\<lparr>tn_Children := filter (\<lambda>c. \<not> marked (map_of (st_Nodes sample_tree)) c) (tn_Children n)\<rparr>)
       (map_of (st_Nodes sample_tree) ''tn-b''))"
  using view_exact [OF sample_wf] by blast

text \<open>
  C21. Committing a promotion folds exactly the children that were in the snapshot and still are children,
  unpinned and unfolded. Each of them gets \<open>Promoted\<close>, the time of the commit as \<open>PromotedAt\<close> and
  \<open>UpdatedAt\<close>, and the note that its summary comes from a promotion; nothing else of it changes. If and
  only if at least one child was folded the parent gets the new summary, even an empty one, the time and the
  note, and the tree its new time, without a look at what the parent or the children have become since the
  snapshot. No other node and nothing else of the tree changes.
\<close>
theorem promotion_exact:
  assumes "tree_wf tr" and "map_of (st_Nodes tr) pid = Some par"
    and "commit_promotion pid s snap now tr = Inr (k, p, tr')"
  shows "let F = filter (\<lambda>c. c \<in> tn_ID ` set snap \<and>
        (\<exists>n. map_of (st_Nodes tr) c = Some n \<and> \<not> tn_Pinned n \<and> \<not> tn_Promoted n)) (tn_Children par);
      note = (\<lambda>m. AList.update ''summary_source'' (MetaString ''promotion'') m) in
    k = length F \<and> map_of (st_Nodes tr') pid = Some p \<and>
    p = (if F = [] then par
         else par\<lparr>tn_Summary := s, tn_UpdatedAt := now, tn_Metadata := note (tn_Metadata par)\<rparr>) \<and>
    map_of (st_Nodes tr') i =
      (if i \<in> set F then map_option (\<lambda>n. n\<lparr>tn_Promoted := True, tn_PromotedAt := now, tn_UpdatedAt := now,
                                            tn_Metadata := note (tn_Metadata n)\<rparr>) (map_of (st_Nodes tr) i)
       else if i = pid then Some p else map_of (st_Nodes tr) i) \<and>
    tr' = tr\<lparr>st_Nodes := st_Nodes tr', st_UpdatedAt := (if F = [] then st_UpdatedAt tr else now)\<rparr>"
proof -
  have child: "fold_child now = (\<lambda>n. n\<lparr>tn_Promoted := True, tn_PromotedAt := now, tn_UpdatedAt := now,
      tn_Metadata := AList.update ''summary_source'' (MetaString ''promotion'') (tn_Metadata n)\<rparr>)"
    by (rule ext) (simp add: fold_child_def setMetadata_def summarySourceMetaKey_def SummarySourcePromotion_def)
  have parent: "fold_parent s now par = par\<lparr>tn_Summary := s, tn_UpdatedAt := now,
      tn_Metadata := AList.update ''summary_source'' (MetaString ''promotion'') (tn_Metadata par)\<rparr>"
    by (simp add: fold_parent_def setMetadata_def summarySourceMetaKey_def SummarySourcePromotion_def)
  have which: "folds (map tn_ID snap) (map_of (st_Nodes tr)) = (\<lambda>c. c \<in> tn_ID ` set snap \<and>
      (\<exists>n. map_of (st_Nodes tr) c = Some n \<and> \<not> tn_Pinned n \<and> \<not> tn_Promoted n))"
    by (auto simp: folds_def split: option.splits)
  define F where "F = filter (folds (map tn_ID snap) (map_of (st_Nodes tr))) (tn_Children par)"
  note at = commit_lookup [OF assms, folded F_def]
  have n: "pid \<notin> set F" using not_own_child [OF assms(1,2)] by (simp add: F_def)
  then have "Some p = (if F \<noteq> [] then Some (fold_parent s now par) else Some par)" using at [of pid] assms(2) by metis
  then have p: "p = (if F = [] then par else fold_parent s now par)" by (auto split: if_splits)
  have i: "map_of (st_Nodes tr') i = (if i \<in> set F then map_option (fold_child now) (map_of (st_Nodes tr) i)
      else if i = pid then Some p else map_of (st_Nodes tr) i)"
    using n at [of pid] at [of i] by (cases "i = pid") metis+
  show ?thesis
    unfolding Let_def which [symmetric] child [symmetric] parent [symmetric] F_def [symmetric]
    using at [of pid] p i by blast
qed

theorem promotion_exact_witness:
  "\<exists>p tr'. commit_promotion ''tn-r'' ''new''
      [sample_node ''tn-a'' ''tn-r'' [''tn-c''] 1 False, sample_node ''tn-b'' ''tn-r'' [] 1 False] 7 sample_tree
      = Inr (1, p, tr') \<and> tn_Summary p = ''new'' \<and>
    map_option tn_Promoted (map_of (st_Nodes tr') ''tn-b'') = Some True \<and> st_UpdatedAt tr' = 7"
proof -
  let ?par = "sample_node ''tn-r'' '''' [''tn-a'', ''tn-b''] 0 False"
  let ?snap = "[sample_node ''tn-a'' ''tn-r'' [''tn-c''] 1 False, sample_node ''tn-b'' ''tn-r'' [] 1 False]"
  have at: "map_of (st_Nodes sample_tree) ''tn-r'' = Some ?par" by (simp add: sample_tree_def)
  obtain p tr' where r: "commit_promotion ''tn-r'' ''new'' ?snap 7 sample_tree = Inr (1, p, tr')"
    by (simp add: commit_promotion_def applyPromotion_def sample_tree_def sample_node_def Let_def)
  have F: "filter (\<lambda>c. c \<in> tn_ID ` set ?snap \<and>
      (\<exists>n. map_of (st_Nodes sample_tree) c = Some n \<and> \<not> tn_Pinned n \<and> \<not> tn_Promoted n)) (tn_Children ?par) = [''tn-b'']"
    by (simp add: sample_tree_def sample_node_def)
  have b: "\<exists>n. map_of (st_Nodes sample_tree) ''tn-b'' = Some n" by (simp add: sample_tree_def)
  note all = promotion_exact [OF sample_wf at r, of "''tn-b''", unfolded F Let_def]
  have "tn_Summary p = ''new''" "map_option tn_Promoted (map_of (st_Nodes tr') ''tn-b'') = Some True"
    using all b by auto
  moreover have "tr' = sample_tree\<lparr>st_Nodes := st_Nodes tr', st_UpdatedAt := 7\<rparr>" using all by simp
  then have "st_UpdatedAt tr' = st_UpdatedAt (sample_tree\<lparr>st_Nodes := st_Nodes tr', st_UpdatedAt := 7\<rparr>)" by (rule arg_cong)
  then have "st_UpdatedAt tr' = 7" by simp
  ultimately show ?thesis using r by blast
qed

end
