(* ===== verification/TreeStore.thy ===== *)
theory TreeStore
  imports TreeFold
begin

text \<open>
  The store of session trees in memory (\<open>session/tree/mapstore.go\<close>). Every call checks its arguments, makes its
  change under the lock, and then tells the hooks; folding releases the lock while the promoter works, so it is
  a snapshot and a commit with anything in between. A call gets the error of its context, the reading of the
  clock and the identifier generated for it. The last part is the store with all its goroutines: calls,
  automatic folds with their reservations, and folds asked for by callers, interleaved in any order.
\<close>

section \<open>Events\<close>

datatype tree_op = SessionTreeOpCreate | SessionTreeOpAdd | SessionTreeOpUpdate | SessionTreeOpDelete
  | SessionTreeOpCursor | SessionTreeOpDeleteTree

datatype tree_event =
    TreeUpdated tree_op string string string string nat
  | PromotionStarted string string nat
  | PromotionCompleted string string nat nat
  | PromotionFailed string string go_error

definition dispatch_updated :: "bool \<Rightarrow> string \<Rightarrow> tree_op \<Rightarrow> 'v tree_node option \<Rightarrow> nat \<Rightarrow> tree_event list" where
  "dispatch_updated hooks sid op n cnt =
     (if \<not> hooks then []
      else [case n of None \<Rightarrow> TreeUpdated op sid '''' '''' '''' cnt
        | Some k \<Rightarrow> TreeUpdated op sid (tn_ID k) (tn_Type k) (tn_Status k) cnt])"

definition dispatchStarted :: "bool \<Rightarrow> string \<Rightarrow> string \<Rightarrow> nat \<Rightarrow> tree_event list" where
  "dispatchStarted hooks sid pid eligible = (if \<not> hooks then [] else [PromotionStarted sid pid eligible])"

definition dispatchCompleted :: "bool \<Rightarrow> string \<Rightarrow> string \<Rightarrow> nat \<Rightarrow> nat \<Rightarrow> tree_event list" where
  "dispatchCompleted hooks sid pid folded bytes = (if \<not> hooks then [] else [PromotionCompleted sid pid folded bytes])"

definition dispatchFailed :: "bool \<Rightarrow> string \<Rightarrow> string \<Rightarrow> go_error \<Rightarrow> tree_event list" where
  "dispatchFailed hooks sid pid e = (if \<not> hooks then [] else [PromotionFailed sid pid e])"

section \<open>Calls\<close>

type_synonym 'v trees = "(string \<times> 'v session_tree) list"

datatype 'v tree_answer = ANode "'v tree_node" | ATree "'v session_tree" | ADone | AFail go_error

text \<open>The checks before the lock, in order: the first error is the answer.\<close>

fun first_error :: "go_error option list \<Rightarrow> go_error option" where
  "first_error [] = None"
| "first_error (None # es) = first_error es"
| "first_error (Some e # es) = Some e"

lemma first_error_None: "first_error es = None \<longleftrightarrow> list_all (\<lambda>e. e = None) es"
  by (induction es rule: first_error.induct) auto

definition mt_CreateTree :: "bool \<Rightarrow> go_error option \<Rightarrow> int \<Rightarrow> string \<Rightarrow> string \<Rightarrow> 'v tree_node \<Rightarrow> 'v trees
      \<Rightarrow> 'v tree_answer \<times> 'v trees \<times> tree_event list" where
  "mt_CreateTree hooks ctx now gid sid root0 trees =
     (let root = root_defaults root0 in
      case first_error [ctx, validateSessionID sid, validateNodePayload root] of
        Some e \<Rightarrow> (AFail e, trees, [])
      | None \<Rightarrow>
          (case map_of trees sid of
             Some tr \<Rightarrow> (AFail ErrTreeExists, trees, [])
           | None \<Rightarrow>
               (case new_tree sid root now gid of (r, tr) \<Rightarrow>
                  (ANode r, AList.update sid tr trees, dispatch_updated hooks sid SessionTreeOpCreate (Some r) 1))))"

definition mt_GetTree :: "go_error option \<Rightarrow> string \<Rightarrow> 'v trees \<Rightarrow> 'v tree_answer" where
  "mt_GetTree ctx sid trees =
     (case first_error [ctx, validateSessionID sid] of
        Some e \<Rightarrow> AFail e
      | None \<Rightarrow> (case map_of trees sid of None \<Rightarrow> AFail ErrTreeMissing | Some tr \<Rightarrow> ATree tr))"

definition mt_AddNode :: "bool \<Rightarrow> go_error option \<Rightarrow> int \<Rightarrow> string \<Rightarrow> string \<Rightarrow> string \<Rightarrow> 'v tree_node \<Rightarrow> 'v trees
      \<Rightarrow> 'v tree_answer \<times> 'v trees \<times> tree_event list" where
  "mt_AddNode hooks ctx now gid sid pid n0 trees =
     (let n = child_defaults n0 in
      case first_error [ctx, validateSessionID sid, validateNodeID pid, validateNodePayload n] of
        Some e \<Rightarrow> (AFail e, trees, [])
      | None \<Rightarrow>
          (case map_of trees sid of
             None \<Rightarrow> (AFail ErrTreeMissing, trees, [])
           | Some tr \<Rightarrow>
               (case add_node pid n now gid tr of
                  Inl e \<Rightarrow> (AFail e, trees, [])
                | Inr (child, tr') \<Rightarrow>
                    (ANode child, AList.update sid tr' trees,
                     dispatch_updated hooks sid SessionTreeOpAdd (Some child) (length (st_Nodes tr'))))))"

definition mt_UpdateNode :: "bool \<Rightarrow> go_error option \<Rightarrow> int \<Rightarrow> string \<Rightarrow> 'v tree_node \<Rightarrow> 'v trees
      \<Rightarrow> 'v tree_answer \<times> 'v trees \<times> tree_event list" where
  "mt_UpdateNode hooks ctx now sid n trees =
     (case first_error [ctx, validateSessionID sid, validateNodeID (tn_ID n), validateNodeUpdate n] of
        Some e \<Rightarrow> (AFail e, trees, [])
      | None \<Rightarrow>
          (case map_of trees sid of
             None \<Rightarrow> (AFail ErrTreeMissing, trees, [])
           | Some tr \<Rightarrow>
               (case update_node n now tr of
                  Inl e \<Rightarrow> (AFail e, trees, [])
                | Inr (updated, tr') \<Rightarrow>
                    (ANode updated, AList.update sid tr' trees,
                     dispatch_updated hooks sid SessionTreeOpUpdate (Some updated) (length (st_Nodes tr'))))))"

definition mt_DeleteNode :: "bool \<Rightarrow> go_error option \<Rightarrow> int \<Rightarrow> string \<Rightarrow> string \<Rightarrow> 'v trees
      \<Rightarrow> 'v tree_answer \<times> 'v trees \<times> tree_event list" where
  "mt_DeleteNode hooks ctx now sid nid trees =
     (case first_error [ctx, validateSessionID sid, validateNodeID nid] of
        Some e \<Rightarrow> (AFail e, trees, [])
      | None \<Rightarrow>
          (case map_of trees sid of
             None \<Rightarrow> (AFail ErrTreeMissing, trees, [])
           | Some tr \<Rightarrow>
               (case delete_node nid now tr of
                  Inl e \<Rightarrow> (AFail e, trees, [])
                | Inr (snapshot, tr') \<Rightarrow>
                    (ADone, AList.update sid tr' trees,
                     dispatch_updated hooks sid SessionTreeOpDelete (Some snapshot) (length (st_Nodes tr'))))))"

definition mt_SetCursor :: "bool \<Rightarrow> go_error option \<Rightarrow> int \<Rightarrow> string \<Rightarrow> string \<Rightarrow> 'v trees
      \<Rightarrow> 'v tree_answer \<times> 'v trees \<times> tree_event list" where
  "mt_SetCursor hooks ctx now sid nid trees =
     (case first_error [ctx, validateSessionID sid, if nid = '''' then None else validateNodeID nid] of
        Some e \<Rightarrow> (AFail e, trees, [])
      | None \<Rightarrow>
          (case map_of trees sid of
             None \<Rightarrow> (AFail ErrTreeMissing, trees, [])
           | Some tr \<Rightarrow>
               (case set_cursor nid now tr of
                  Inl e \<Rightarrow> (AFail e, trees, [])
                | Inr (cursorNode, tr') \<Rightarrow>
                    (ADone, AList.update sid tr' trees,
                     dispatch_updated hooks sid SessionTreeOpCursor cursorNode (length (st_Nodes tr'))))))"

definition mt_DeleteTree :: "bool \<Rightarrow> go_error option \<Rightarrow> string \<Rightarrow> 'v trees
      \<Rightarrow> 'v tree_answer \<times> 'v trees \<times> tree_event list" where
  "mt_DeleteTree hooks ctx sid trees =
     (case first_error [ctx, validateSessionID sid] of
        Some e \<Rightarrow> (AFail e, trees, [])
      | None \<Rightarrow>
          (case map_of trees sid of
             None \<Rightarrow> (ADone, trees, [])
           | Some tr \<Rightarrow>
               (ADone, AList.delete sid trees,
                dispatch_updated hooks sid SessionTreeOpDeleteTree (None :: 'v tree_node option) 0)))"

definition mt_GetTreeView :: "go_error option \<Rightarrow> bool \<Rightarrow> string \<Rightarrow> 'v trees \<Rightarrow> 'v tree_answer" where
  "mt_GetTreeView ctx includePromoted sid trees =
     (case first_error [ctx, validateSessionID sid] of
        Some e \<Rightarrow> AFail e
      | None \<Rightarrow>
          (case map_of trees sid of
             None \<Rightarrow> AFail ErrTreeMissing
           | Some tr \<Rightarrow> ATree (if includePromoted then tr else filterPromotedFromTree tr)))"

section \<open>Folding\<close>

text \<open>Phase one: the parent and its eligible children, under the read lock.\<close>

definition promote_snapshot :: "string \<Rightarrow> 'v session_tree \<Rightarrow> go_error + 'v tree_node \<times> 'v tree_node list" where
  "promote_snapshot pid tr =
     (case map_of (st_Nodes tr) pid of
        None \<Rightarrow> Inl (Errorf ''%w: %q'' [AStr pid] (Some ErrNodeNotFound))
      | Some par \<Rightarrow> Inr (par, eligibleChildren tr par))"

definition mt_snapshot :: "bool \<Rightarrow> go_error option \<Rightarrow> string \<Rightarrow> string \<Rightarrow> 'v trees
      \<Rightarrow> go_error + 'v tree_node \<times> 'v tree_node list" where
  "mt_snapshot promoter ctx sid pid trees =
     (case first_error [ctx, validateSessionID sid, validateNodeID pid, if promoter then None else Some errPromoterNotConfigured] of
        Some e \<Rightarrow> Inl e
      | None \<Rightarrow> (case map_of trees sid of None \<Rightarrow> Inl ErrTreeMissing | Some tr \<Rightarrow> promote_snapshot pid tr))"

text \<open>Phases two and three after the promoter has answered: the commit, on the trees of that moment.\<close>

definition mt_commit :: "bool \<Rightarrow> int \<Rightarrow> string \<Rightarrow> string \<Rightarrow> 'v tree_node list \<Rightarrow> go_error + string \<Rightarrow> 'v trees
      \<Rightarrow> 'v tree_answer \<times> 'v trees \<times> tree_event list" where
  "mt_commit hooks now sid pid eligibleSnap result trees =
     (case result of
        Inl e \<Rightarrow> (AFail e, trees, dispatchFailed hooks sid pid e)
      | Inr summary \<Rightarrow>
          (let newSummary = clampSummary summary (int SummaryMaxBytes) in
           case map_of trees sid of
             None \<Rightarrow> (AFail ErrTreeMissing, trees, dispatchFailed hooks sid pid ErrTreeMissing)
           | Some tr \<Rightarrow>
               (case commit_promotion pid newSummary eligibleSnap now tr of
                  Inl e \<Rightarrow> (AFail e, trees, dispatchFailed hooks sid pid e)
                | Inr (folded, par, tr') \<Rightarrow>
                    (ANode par, AList.update sid tr' trees, dispatchCompleted hooks sid pid folded (length (tn_Summary par))))))"

text \<open>The whole call, with what other goroutines do to the trees while the promoter works.\<close>

definition mt_PromoteNode :: "bool \<Rightarrow> ('v tree_node \<Rightarrow> 'v tree_node list \<Rightarrow> go_error + string) option \<Rightarrow> go_error option \<Rightarrow> int
      \<Rightarrow> ('v trees \<Rightarrow> 'v trees) \<Rightarrow> string \<Rightarrow> string \<Rightarrow> 'v trees \<Rightarrow> 'v tree_answer \<times> 'v trees \<times> tree_event list" where
  "mt_PromoteNode hooks promoter ctx now meanwhile sid pid trees =
     (case mt_snapshot (promoter \<noteq> None) ctx sid pid trees of
        Inl e \<Rightarrow> (AFail e, trees, [])
      | Inr (parentSnap, eligibleSnap) \<Rightarrow>
          if eligibleSnap = [] then (ANode parentSnap, trees, [])
          else
            (case promoter of None \<Rightarrow> (AFail errPromoterNotConfigured, trees, [])
             | Some summarize \<Rightarrow>
                 (case mt_commit hooks now sid pid eligibleSnap (summarize parentSnap eligibleSnap) (meanwhile trees) of
                    (ans, trees', evs) \<Rightarrow> (ans, trees', dispatchStarted hooks sid pid (length eligibleSnap) @ evs))))"

text \<open>Whether a write makes a fold due, and the reservation that keeps a second one for the same parent away.\<close>

definition maybeTriggerPromotion :: "bool \<Rightarrow> 'v decider option \<Rightarrow> string \<Rightarrow> string \<Rightarrow> 'v trees \<Rightarrow> string list \<Rightarrow> bool \<times> string list" where
  "maybeTriggerPromotion promoter decide sid pid trees keys =
     (case decide of
        None \<Rightarrow> (False, keys)
      | Some d \<Rightarrow>
          if \<not> promoter then (False, keys)
          else case map_of trees sid of
            None \<Rightarrow> (False, keys)
          | Some tr \<Rightarrow>
              (case promote_snapshot pid tr of
                 Inl e \<Rightarrow> (False, keys)
               | Inr (parentSnap, eligibleSnap) \<Rightarrow>
                   if \<not> d parentSnap eligibleSnap then (False, keys) else reserve sid pid keys))"

section \<open>Every call keeps the trees well-formed\<close>

datatype 'v tree_call = TCreate string "'v tree_node" | TGet string | TAdd string string "'v tree_node" | TUpdate string "'v tree_node"
  | TDelete string string | TCursor string string | TDeleteTree string | TView string bool

fun mt_call :: "bool \<Rightarrow> go_error option \<Rightarrow> int \<Rightarrow> string \<Rightarrow> 'v tree_call \<Rightarrow> 'v trees \<Rightarrow> 'v tree_answer \<times> 'v trees \<times> tree_event list" where
  "mt_call hooks ctx now gid (TCreate sid root) trees = mt_CreateTree hooks ctx now gid sid root trees"
| "mt_call hooks ctx now gid (TGet sid) trees = (mt_GetTree ctx sid trees, trees, [])"
| "mt_call hooks ctx now gid (TAdd sid pid n) trees = mt_AddNode hooks ctx now gid sid pid n trees"
| "mt_call hooks ctx now gid (TUpdate sid n) trees = mt_UpdateNode hooks ctx now sid n trees"
| "mt_call hooks ctx now gid (TDelete sid nid) trees = mt_DeleteNode hooks ctx now sid nid trees"
| "mt_call hooks ctx now gid (TCursor sid nid) trees = mt_SetCursor hooks ctx now sid nid trees"
| "mt_call hooks ctx now gid (TDeleteTree sid) trees = mt_DeleteTree hooks ctx sid trees"
| "mt_call hooks ctx now gid (TView sid inc) trees = (mt_GetTreeView ctx inc sid trees, trees, [])"

definition trees_wf :: "'v trees \<Rightarrow> bool" where
  "trees_wf trees \<longleftrightarrow> distinct (map fst trees) \<and>
     list_all (\<lambda>(sid, tr). st_SessionID tr = sid \<and> validateSessionID sid = None \<and> tree_wf tr) trees"

text \<open>An identifier not in use in any tree, as the clock and the random bytes make it.\<close>

definition fresh_id :: "string \<Rightarrow> 'v trees \<Rightarrow> bool" where
  "fresh_id gid trees \<longleftrightarrow> validateNodeID gid = None \<and> list_all (\<lambda>(sid, tr). gid \<notin> set (map fst (st_Nodes tr))) trees"

definition stored :: "string \<Rightarrow> 'v session_tree \<Rightarrow> bool" where
  "stored sid tr \<longleftrightarrow> st_SessionID tr = sid \<and> validateSessionID sid = None \<and> tree_wf tr"

lemma trees_wf_stored: "trees_wf trees \<Longrightarrow> map_of trees sid = Some tr \<Longrightarrow> stored sid tr"
  by (auto simp: trees_wf_def list_all_iff stored_def dest!: map_of_SomeD)

lemma trees_wf_update: "trees_wf trees \<Longrightarrow> stored sid tr \<Longrightarrow> trees_wf (AList.update sid tr trees)"
proof -
  assume wf: "trees_wf trees" and s: "stored sid tr"
  then have d: "distinct (map fst (AList.update sid tr trees))" by (simp add: trees_wf_def distinct_update)
  have "stored i t" if "(i, t) \<in> set (AList.update sid tr trees)" for i t
  proof -
    have "map_of (AList.update sid tr trees) i = Some t" using d that by (simp add: map_of_eq_Some_iff)
    then show ?thesis using s trees_wf_stored [OF wf] by (auto simp: update_conv' split: if_splits)
  qed
  then show ?thesis using d by (auto simp: trees_wf_def list_all_iff stored_def)
qed

lemma trees_wf_delete: "trees_wf trees \<Longrightarrow> trees_wf (AList.delete sid trees)"
  by (auto simp: trees_wf_def list_all_iff distinct_delete AList.delete_eq distinct_map_filter split_def)

lemma trees_wf_change:
  assumes "trees_wf trees" and "map_of trees sid = Some tr" and "tree_wf tr'" and "st_SessionID tr' = st_SessionID tr"
  shows "trees_wf (AList.update sid tr' trees)"
  using assms trees_wf_stored [OF assms(1,2)] by (intro trees_wf_update) (auto simp: stored_def)

lemma fresh_in_tree: "fresh_id gid trees \<Longrightarrow> map_of trees sid = Some tr \<Longrightarrow> gid \<notin> dom (map_of (st_Nodes tr))"
  by (auto simp: fresh_id_def list_all_iff dom_map_of_conv_image_fst dest!: map_of_SomeD)

text \<open>The session of a tree is never changed.\<close>

lemma same_session:
  "add_node pid n now gid tr = Inr (c, tr') \<Longrightarrow> st_SessionID tr' = st_SessionID tr"
  "update_node n now tr = Inr (c, tr') \<Longrightarrow> st_SessionID tr' = st_SessionID tr"
  "delete_node pid now tr = Inr (c, tr') \<Longrightarrow> st_SessionID tr' = st_SessionID tr"
  "set_cursor pid now tr = Inr (d, tr') \<Longrightarrow> st_SessionID tr' = st_SessionID tr"
  "commit_promotion pid s snap now tr = Inr (k, c, tr') \<Longrightarrow> st_SessionID tr' = st_SessionID tr"
  by (auto simp: add_node_def update_node_def delete_node_def set_cursor_def commit_promotion_def applyPromotion_def Let_def
      split: option.splits if_splits prod.splits)

lemma child_defaults_status: "tn_Status (child_defaults n) \<noteq> ''''"
  by (simp add: child_defaults_def StatusPending_def)

lemma mt_AddNode_wf:
  assumes "mt_AddNode hooks ctx now gid sid pid n trees = (ans, trees', evs)" and "trees_wf trees" and "fresh_id gid trees"
  shows "trees_wf trees'"
proof (cases "trees' = trees")
  case False
  then obtain tr c tr' where payload: "validateNodePayload (child_defaults n) = None"
    and tr: "map_of trees sid = Some tr" "add_node pid (child_defaults n) now gid tr = Inr (c, tr')"
    and t: "trees' = AList.update sid tr' trees"
    using assms(1) by (auto simp: mt_AddNode_def Let_def first_error_None split: option.splits sum.splits prod.splits)
  have wf: "tree_wf tr" using trees_wf_stored [OF assms(2) tr(1)] by (simp add: stored_def)
  have gid: "validateNodeID gid = None" using assms(3) by (simp add: fresh_id_def)
  from add_node_wf [OF wf fresh_in_tree [OF assms(3) tr(1)] gid payload child_defaults_status tr(2)]
  show ?thesis unfolding t by (rule trees_wf_change [OF assms(2) tr(1) _ same_session(1) [OF tr(2)]])
qed (use assms in simp)

lemma mt_CreateTree_wf:
  assumes "mt_CreateTree hooks ctx now gid sid root trees = (ans, trees', evs)" and "trees_wf trees" and "fresh_id gid trees"
  shows "trees_wf trees'"
proof (cases "trees' = trees")
  case False
  then obtain r tr where payload: "validateNodePayload (root_defaults root) = None" and sid: "validateSessionID sid = None"
    and tr: "new_tree sid (root_defaults root) now gid = (r, tr)" and t: "trees' = AList.update sid tr trees"
    using assms(1) by (auto simp: mt_CreateTree_def Let_def first_error_None split: option.splits prod.splits)
  have "validateNodeID gid = None" using assms(3) by (simp add: fresh_id_def)
  from new_tree_wf [OF payload this, of sid now] have "stored sid tr"
    using tr sid by (auto simp: stored_def) (auto simp: new_tree_def Let_def)
  then show ?thesis unfolding t by (rule trees_wf_update [OF assms(2)])
qed (use assms in simp)

lemma mt_UpdateNode_wf:
  assumes "mt_UpdateNode hooks ctx now sid n trees = (ans, trees', evs)" and "trees_wf trees"
  shows "trees_wf trees'"
proof (cases "trees' = trees")
  case False
  then obtain tr c tr' where ok: "validateNodeUpdate n = None" and tr: "map_of trees sid = Some tr" "update_node n now tr = Inr (c, tr')"
    and t: "trees' = AList.update sid tr' trees"
    using assms(1) by (auto simp: mt_UpdateNode_def first_error_None split: option.splits sum.splits prod.splits)
  have wf: "tree_wf tr" using trees_wf_stored [OF assms(2) tr(1)] by (simp add: stored_def)
  show ?thesis unfolding t by (rule trees_wf_change [OF assms(2) tr(1) update_node_wf [OF wf ok tr(2)] same_session(2) [OF tr(2)]])
qed (use assms in simp)

lemma mt_DeleteNode_wf:
  assumes "mt_DeleteNode hooks ctx now sid nid trees = (ans, trees', evs)" and "trees_wf trees"
  shows "trees_wf trees'"
proof (cases "trees' = trees")
  case False
  then obtain tr c tr' where tr: "map_of trees sid = Some tr" "delete_node nid now tr = Inr (c, tr')"
    and t: "trees' = AList.update sid tr' trees"
    using assms(1) by (auto simp: mt_DeleteNode_def split: option.splits sum.splits prod.splits)
  have wf: "tree_wf tr" using trees_wf_stored [OF assms(2) tr(1)] by (simp add: stored_def)
  show ?thesis unfolding t by (rule trees_wf_change [OF assms(2) tr(1) delete_node_wf [OF wf tr(2)] same_session(3) [OF tr(2)]])
qed (use assms in simp)

lemma mt_SetCursor_wf:
  assumes "mt_SetCursor hooks ctx now sid nid trees = (ans, trees', evs)" and "trees_wf trees"
  shows "trees_wf trees'"
proof (cases "trees' = trees")
  case False
  then obtain tr c tr' where tr: "map_of trees sid = Some tr" "set_cursor nid now tr = Inr (c, tr')"
    and t: "trees' = AList.update sid tr' trees"
    using assms(1) by (auto simp: mt_SetCursor_def split: option.splits sum.splits prod.splits)
  have wf: "tree_wf tr" using trees_wf_stored [OF assms(2) tr(1)] by (simp add: stored_def)
  show ?thesis unfolding t by (rule trees_wf_change [OF assms(2) tr(1) set_cursor_wf [OF wf tr(2)] same_session(4) [OF tr(2)]])
qed (use assms in simp)

lemma clampSummary_length: "0 < n \<Longrightarrow> length (clampSummary s (int n)) \<le> n"
  using utf8_cut_le [of s n] by (auto simp: clampSummary_def)

lemma mt_commit_wf:
  assumes "mt_commit hooks now sid pid snap result trees = (ans, trees', evs)" and "trees_wf trees"
  shows "trees_wf trees'"
proof (cases "trees' = trees")
  case False
  then obtain s tr k c tr' where tr: "map_of trees sid = Some tr"
      "commit_promotion pid (clampSummary s (int SummaryMaxBytes)) snap now tr = Inr (k, c, tr')"
    and t: "trees' = AList.update sid tr' trees"
    using assms(1) by (auto simp: mt_commit_def Let_def split: option.splits sum.splits prod.splits)
  have wf: "tree_wf tr" using trees_wf_stored [OF assms(2) tr(1)] by (simp add: stored_def)
  have small: "length (clampSummary s (int SummaryMaxBytes)) \<le> SummaryMaxBytes"
    by (rule clampSummary_length) (simp add: SummaryMaxBytes_def)
  show ?thesis unfolding t by (rule trees_wf_change [OF assms(2) tr(1) commit_wf [OF wf small tr(2)] same_session(5) [OF tr(2)]])
qed (use assms in simp)

lemma mt_call_wf:
  assumes "mt_call hooks ctx now gid call trees = (ans, trees', evs)" and "trees_wf trees" and "fresh_id gid trees"
  shows "trees_wf trees'"
proof (cases call)
  case (TDeleteTree sid)
  then show ?thesis using assms trees_wf_delete [OF assms(2), of sid]
    by (auto simp: mt_DeleteTree_def split: option.splits)
qed (use assms mt_CreateTree_wf mt_AddNode_wf mt_UpdateNode_wf mt_DeleteNode_wf mt_SetCursor_wf in auto)

section \<open>All goroutines of a store\<close>

text \<open>
  A fold under way: asked for by a caller or by a trigger, before its snapshot (\<open>None\<close>) or with the children
  of the snapshot while the promoter works.
\<close>

record 'v fold_job =
  fj_session :: string
  fj_parent :: string
  fj_auto :: bool
  fj_snap :: "'v tree_node list option"

record 'v tree_system =
  ty_trees :: "'v trees"
  ty_inflight :: "string list"
  ty_jobs :: "'v fold_job list"

definition finish_job :: "'v fold_job \<Rightarrow> string list \<Rightarrow> string list" where
  "finish_job j keys = (if fj_auto j then release (fj_session j) (fj_parent j) keys else keys)"

text \<open>
  The atomic steps. A trigger runs after its write, on the trees of that moment; it is let in at any moment
  for any session and parent, which covers every delay between the two. The promoter answers anything.
\<close>

inductive tree_step :: "bool \<Rightarrow> bool \<Rightarrow> 'v decider option \<Rightarrow> 'v tree_system \<Rightarrow> 'v tree_system \<Rightarrow> bool" for hooks promoter decide where
  step_call: "mt_call hooks ctx now gid call (ty_trees s) = (ans, trees', evs) \<Longrightarrow> fresh_id gid (ty_trees s) \<Longrightarrow>
     tree_step hooks promoter decide s (s\<lparr>ty_trees := trees'\<rparr>)"
| step_trigger: "validateSessionID sid = None \<Longrightarrow>
     maybeTriggerPromotion promoter decide sid pid (ty_trees s) (ty_inflight s) = (True, keys) \<Longrightarrow>
     tree_step hooks promoter decide s
       (s\<lparr>ty_inflight := keys, ty_jobs := \<lparr>fj_session = sid, fj_parent = pid, fj_auto = True, fj_snap = None\<rparr> # ty_jobs s\<rparr>)"
| step_ask: "validateSessionID sid = None \<Longrightarrow>
     tree_step hooks promoter decide s
       (s\<lparr>ty_jobs := \<lparr>fj_session = sid, fj_parent = pid, fj_auto = False, fj_snap = None\<rparr> # ty_jobs s\<rparr>)"
| step_snapshot: "ty_jobs s = js @ j # ks \<Longrightarrow> fj_snap j = None \<Longrightarrow>
     mt_snapshot promoter ctx (fj_session j) (fj_parent j) (ty_trees s) = Inr (par, snap) \<Longrightarrow> snap \<noteq> [] \<Longrightarrow>
     tree_step hooks promoter decide s (s\<lparr>ty_jobs := js @ j\<lparr>fj_snap := Some snap\<rparr> # ks\<rparr>)"
| step_nothing: "ty_jobs s = js @ j # ks \<Longrightarrow> fj_snap j = None \<Longrightarrow>
     (case mt_snapshot promoter ctx (fj_session j) (fj_parent j) (ty_trees s) of Inl e \<Rightarrow> True | Inr (par, snap) \<Rightarrow> snap = []) \<Longrightarrow>
     tree_step hooks promoter decide s (s\<lparr>ty_jobs := js @ ks, ty_inflight := finish_job j (ty_inflight s)\<rparr>)"
| step_commit: "ty_jobs s = js @ j # ks \<Longrightarrow> fj_snap j = Some snap \<Longrightarrow>
     mt_commit hooks now (fj_session j) (fj_parent j) snap result (ty_trees s) = (ans, trees', evs) \<Longrightarrow>
     tree_step hooks promoter decide s
       (s\<lparr>ty_trees := trees', ty_jobs := js @ ks, ty_inflight := finish_job j (ty_inflight s)\<rparr>)"

definition NewMapTreeStore :: "'v tree_system" where
  "NewMapTreeStore = \<lparr>ty_trees = [], ty_inflight = [], ty_jobs = []\<rparr>"

inductive tree_reachable :: "bool \<Rightarrow> bool \<Rightarrow> 'v decider option \<Rightarrow> 'v tree_system \<Rightarrow> bool" for hooks promoter decide where
  reach_new: "tree_reachable hooks promoter decide NewMapTreeStore"
| reach_step: "tree_reachable hooks promoter decide s \<Longrightarrow> tree_step hooks promoter decide s s' \<Longrightarrow>
     tree_reachable hooks promoter decide s'"

lemma reachable_trees_wf: "tree_reachable hooks promoter decide s \<Longrightarrow> trees_wf (ty_trees s)"
proof (induction rule: tree_reachable.induct)
  case reach_new
  then show ?case by (simp add: NewMapTreeStore_def trees_wf_def)
next
  case (reach_step s s')
  from reach_step(2,3) show ?case
    by (cases rule: tree_step.cases) (auto dest: mt_call_wf mt_commit_wf)
qed

text \<open>The keys of the automatic folds are exactly the reserved ones, each once.\<close>

definition auto_keys :: "'v fold_job list \<Rightarrow> string list" where
  "auto_keys js = map (\<lambda>j. promotionKey (fj_session j) (fj_parent j)) (filter fj_auto js)"

definition reservations_ok :: "'v tree_system \<Rightarrow> bool" where
  "reservations_ok s \<longleftrightarrow> distinct (ty_inflight s) \<and> mset (ty_inflight s) = mset (auto_keys (ty_jobs s)) \<and>
     list_all (\<lambda>j. validateSessionID (fj_session j) = None) (ty_jobs s)"

lemma auto_keys_append [simp]: "auto_keys (js @ ks) = auto_keys js @ auto_keys ks"
  by (simp add: auto_keys_def)

lemma auto_keys_Cons [simp]:
  "auto_keys (j # js) = (if fj_auto j then promotionKey (fj_session j) (fj_parent j) # auto_keys js else auto_keys js)"
  by (simp add: auto_keys_def)

lemma finish_reservation:
  assumes "mset keys = mset (auto_keys (js @ j # ks))" and "distinct keys"
  shows "distinct (finish_job j keys) \<and> mset (finish_job j keys) = mset (auto_keys (js @ ks))"
proof (cases "fj_auto j")
  case True
  define key where "key = promotionKey (fj_session j) (fj_parent j)"
  have m: "mset keys = add_mset key (mset (auto_keys (js @ ks)))" using assms(1) True by (simp add: key_def)
  have "distinct (key # auto_keys (js @ ks))" using assms(2) m by (metis mset.simps(2) mset_eq_imp_distinct_iff)
  then have "mset (removeAll key (key # auto_keys (js @ ks))) = mset (auto_keys (js @ ks))" by simp
  moreover have "mset (removeAll key keys) = mset (removeAll key (key # auto_keys (js @ ks)))"
    using m by (simp flip: mset_remove1 add: mset_filter removeAll_filter_not_eq)
  ultimately show ?thesis using assms(2) True by (simp add: finish_job_def release_def key_def distinct_removeAll)
qed (use assms in \<open>simp add: finish_job_def\<close>)

lemma reachable_reservations: "tree_reachable hooks promoter decide s \<Longrightarrow> reservations_ok s"
proof (induction rule: tree_reachable.induct)
  case reach_new
  then show ?case by (simp add: NewMapTreeStore_def reservations_ok_def auto_keys_def)
next
  case (reach_step s s')
  from reach_step(2) show ?case
  proof (cases rule: tree_step.cases)
    case (step_trigger sid pid keys)
    then have "promotionKey sid pid \<notin> set (ty_inflight s)" "keys = promotionKey sid pid # ty_inflight s"
      by (auto simp: maybeTriggerPromotion_def reserve_def Let_def split: option.splits if_splits sum.splits prod.splits)
    then show ?thesis using reach_step(3) step_trigger by (simp add: reservations_ok_def)
  next
    case (step_nothing js j ks ctx)
    then show ?thesis using reach_step(3) finish_reservation [of "ty_inflight s" js j ks] by (auto simp: reservations_ok_def)
  next
    case (step_commit js j ks snap now result ans trees' evs)
    then show ?thesis using reach_step(3) finish_reservation [of "ty_inflight s" js j ks] by (auto simp: reservations_ok_def)
  qed (use reach_step(3) in \<open>auto simp: reservations_ok_def\<close>)
qed

section \<open>Properties\<close>

lemma to_root:
  assumes "links root m" and "m i = Some n"
  shows "ancestor m root i \<and> {0..tn_Depth n} \<subseteq> (\<lambda>j. tn_Depth (the (m j))) ` dom m"
  using assms(2)
proof (induction "nat (tn_Depth n)" arbitrary: i n rule: less_induct)
  case less
  have here: "tn_Depth n \<in> (\<lambda>j. tn_Depth (the (m j))) ` dom m" using less.prems by (intro image_eqI [of _ _ i]) auto
  show ?case
  proof (cases "i = root")
    case True
    then show ?thesis using anc_self [of m i n] less.prems linkedD(7) [OF assms(1) less.prems] here by auto
  next
    case False
    from linked_parent [OF assms(1) less.prems False] obtain p
      where p: "m (tn_Parent n) = Some p" "tn_Depth n = tn_Depth p + 1" .
    then have "nat (tn_Depth p) < nat (tn_Depth n)" using linkedD(4) [OF assms(1) p(1)] by simp
    from less.hyps [OF this p(1)] have "ancestor m root (tn_Parent n)"
      and sub: "{0..tn_Depth p} \<subseteq> (\<lambda>j. tn_Depth (the (m j))) ` dom m" by simp_all
    moreover have "{0..tn_Depth n} = insert (tn_Depth n) {0..tn_Depth p}" using p(2) linkedD(4) [OF assms(1) p(1)] by auto
    ultimately show ?thesis using anc_up [of m i n root] less.prems here by simp
  qed
qed

lemma depth_bound:
  assumes "tree_wf tr" and "map_of (st_Nodes tr) i = Some n"
  shows "tn_Depth n < int MaxNodes"
proof -
  let ?m = "map_of (st_Nodes tr)"
  have links: "links (st_RootID tr) ?m" and len: "length (st_Nodes tr) \<le> MaxNodes" and d: "distinct (map fst (st_Nodes tr))"
    using assms(1) by (simp_all add: tree_wf_iff)
  have "card {0..tn_Depth n} \<le> card (dom ?m)"
    using to_root [OF links assms(2)] by (metis card_image_le card_mono finite_dom_map_of finite_imageI le_trans)
  also have "\<dots> \<le> MaxNodes" using len d by (simp add: length_keys)
  finally show ?thesis using linkedD(4) [OF links assms(2)] by simp
qed

text \<open>
  C17. Whatever calls, automatic and requested folds run at the same time, every stored tree stays
  well-formed: keyed by its session and its nodes by their identifiers, parents and children in agreement,
  every node below the root by a chain of parents, at most 1024 nodes and so at most as many levels,
  titles and summaries within their limits, the cursor on a node or empty.
\<close>
theorem tree_store_invariant:
  assumes "tree_reachable hooks promoter decide s" and "map_of (ty_trees s) sid = Some tr"
  shows "tree_wf tr \<and> st_SessionID tr = sid \<and>
    (case map_of (st_Nodes tr) i of None \<Rightarrow> True
     | Some n \<Rightarrow> ancestor (map_of (st_Nodes tr)) (st_RootID tr) i \<and> tn_Depth n < int MaxNodes)"
proof -
  have st: "stored sid tr" using trees_wf_stored [OF reachable_trees_wf [OF assms(1)] assms(2)] .
  then have wf: "tree_wf tr" and links: "links (st_RootID tr) (map_of (st_Nodes tr))" by (simp_all add: stored_def tree_wf_iff)
  show ?thesis
  proof (cases "map_of (st_Nodes tr) i")
    case (Some n)
    then show ?thesis using to_root [OF links Some] depth_bound [OF wf Some] st by (simp add: stored_def)
  qed (use st in \<open>simp add: stored_def\<close>)
qed

definition first_state :: "unit tree_system" where
  "first_state = NewMapTreeStore\<lparr>ty_trees := [(''s'', snd (new_tree ''s'' (root_defaults (sample_node '''' '''' [] 0 False)) 1 ''tn-r''))]\<rparr>"

lemma first_state_reachable: "tree_reachable True True (Some AllChildrenDoneDecider) first_state"
proof -
  have "mt_call True None 1 ''tn-r'' (TCreate ''s'' (sample_node '''' '''' [] 0 False)) (ty_trees NewMapTreeStore) =
    (ANode (fst (new_tree ''s'' (root_defaults (sample_node '''' '''' [] 0 False)) 1 ''tn-r'')), ty_trees first_state,
     [TreeUpdated SessionTreeOpCreate ''s'' ''tn-r'' NodeSubtask StatusActive 1])"
    by code_simp
  moreover have "fresh_id ''tn-r'' (ty_trees NewMapTreeStore :: unit trees)" by code_simp
  ultimately have "tree_step True True (Some AllChildrenDoneDecider) NewMapTreeStore (NewMapTreeStore\<lparr>ty_trees := ty_trees first_state\<rparr>)"
    by (rule step_call)
  then show ?thesis using reach_step [OF reach_new] by (simp add: first_state_def)
qed

theorem tree_store_invariant_witness:
  "tree_wf (snd (new_tree ''s'' (root_defaults (sample_node '''' '''' [] 0 False)) 1 ''tn-r''))"
  using tree_store_invariant [OF first_state_reachable, of "''s''"] by (simp add: first_state_def)

text \<open>
  C37. At any moment at most one automatic fold per session and parent is reserved or running, whatever
  triggers fire meanwhile; the reservations held are exactly those of the running ones, so each is given
  back when its fold ends.
\<close>
theorem one_automatic_fold:
  assumes "tree_reachable hooks promoter decide s"
  shows "distinct (map (\<lambda>j. (fj_session j, fj_parent j)) (filter fj_auto (ty_jobs s))) \<and>
    set (ty_inflight s) = set (auto_keys (ty_jobs s))"
proof -
  have r: "distinct (ty_inflight s)" "mset (ty_inflight s) = mset (auto_keys (ty_jobs s))"
    using reachable_reservations [OF assms] by (simp_all add: reservations_ok_def)
  then have "distinct (auto_keys (ty_jobs s))" by (metis mset_eq_imp_distinct_iff)
  then have "distinct (map (\<lambda>(a, b). promotionKey a b) (map (\<lambda>j. (fj_session j, fj_parent j)) (filter fj_auto (ty_jobs s))))"
    by (simp add: auto_keys_def comp_def)
  from this [THEN distinct_map [THEN iffD1, THEN conjunct1]] show ?thesis using mset_eq_setD [OF r(2)] by blast
qed

theorem one_automatic_fold_witness:
  "distinct (map (\<lambda>j. (fj_session j, fj_parent j)) (filter fj_auto (ty_jobs first_state))) \<and>
    set (ty_inflight first_state) = set (auto_keys (ty_jobs first_state))"
  by (rule one_automatic_fold [OF first_state_reachable])

text \<open>
  A fold announces itself in pairs and changes nothing when it fails: without eligible children, or
  with arguments refused, no event is sent; otherwise its start is followed by exactly one completion or
  failure. Unless it completes having folded a child, the trees are what the others made of them.
\<close>
theorem promote_paired:
  "case mt_PromoteNode True promoter ctx now meanwhile sid pid trees of (ans, trees', evs) \<Rightarrow>
     evs = [] \<and> trees' = trees \<or>
     (\<exists>n folded bytes. evs = [PromotionStarted sid pid (Suc n), PromotionCompleted sid pid folded bytes] \<and>
        (0 < folded \<or> map_of trees' = map_of (meanwhile trees))) \<or>
     (\<exists>n e. evs = [PromotionStarted sid pid (Suc n), PromotionFailed sid pid e] \<and> ans = AFail e \<and> trees' = meanwhile trees)"
proof (cases "mt_snapshot (promoter \<noteq> None) ctx sid pid trees")
  case (Inr r)
  obtain par snap where r: "r = (par, snap)" by (cases r)
  have p: "promoter \<noteq> None" using Inr by (auto simp: mt_snapshot_def first_error_None split: option.splits if_splits)
  then obtain summarize where s: "promoter = Some summarize" by auto
  have len: "snap \<noteq> [] \<Longrightarrow> \<exists>n. length snap = Suc n" by (cases snap) auto
  show ?thesis
  proof (cases "snap = []")
    case False
    have "case mt_commit True now sid pid snap (summarize par snap) (meanwhile trees) of (ans, trees', evs) \<Rightarrow>
        (\<exists>folded bytes. evs = [PromotionCompleted sid pid folded bytes] \<and>
          (0 < folded \<or> map_of trees' = map_of (meanwhile trees))) \<or>
        (\<exists>e. evs = [PromotionFailed sid pid e] \<and> ans = AFail e \<and> trees' = meanwhile trees)"
      by (auto simp: mt_commit_def Let_def dispatchFailed_def dispatchCompleted_def commit_promotion_def applyPromotion_def update_conv' fun_eq_iff
          split: sum.splits option.splits prod.splits if_splits)
    then show ?thesis using Inr r s False len [OF False]
      by (auto simp: mt_PromoteNode_def dispatchStarted_def split: prod.splits)
  qed (use Inr r in \<open>simp add: mt_PromoteNode_def\<close>)
qed (simp add: mt_PromoteNode_def)

end
