(* ===== verification/TreeFile.thy ===== *)
theory TreeFile
  imports TreeStore Files
begin

text \<open>
  The store of session trees on disk (\<open>session/tree/filestore.go\<close>): one file per session, read whole, changed by
  the same steps as in memory and replaced atomically. It refines the store in memory on a file system
  without faults, up to what JSON does to metadata values; and the one thing its locks do not protect is
  shown, a deletion.
\<close>

section \<open>Files\<close>

definition treeFileName :: string where "treeFileName = ''tree.json''"

type_synonym 'v tree_root = "(string \<times> 'v session_tree dir) list"

text \<open>What the file system answers during one call.\<close>

record 'v tree_env =
  te_ctx :: "go_error option"
  te_stat :: "go_error option"
  te_mkdir :: "go_error option"
  te_marshal :: "go_error option"
  te_write :: "'v session_tree write_env"
  te_read :: "string option"
  te_decode :: go_error
  te_removeall :: "(go_error \<times> (string \<Rightarrow> bool)) option"

text \<open>What a metadata value is after it has been encoded and decoded.\<close>

definition view_node :: "('v \<Rightarrow> 'v) \<Rightarrow> 'v tree_node \<Rightarrow> 'v tree_node" where
  "view_node jv n = n\<lparr>tn_Metadata := map (\<lambda>(k, v). (k, map_tree_meta jv v)) (tn_Metadata n)\<rparr>"

definition view_nodes :: "('v \<Rightarrow> 'v) \<Rightarrow> (string \<times> 'v tree_node) list \<Rightarrow> (string \<times> 'v tree_node) list" where
  "view_nodes jv nodes = map (\<lambda>(i, n). (i, view_node jv n)) nodes"

definition view_tree :: "('v \<Rightarrow> 'v) \<Rightarrow> 'v session_tree \<Rightarrow> 'v session_tree" where
  "view_tree jv tr = tr\<lparr>st_Nodes := view_nodes jv (st_Nodes tr)\<rparr>"

definition tree_file :: "string \<Rightarrow> 'v tree_root \<Rightarrow> 'v session_tree content option" where
  "tree_file sid root = (case map_of root sid of None \<Rightarrow> None | Some d \<Rightarrow> map_of d treeFileName)"

definition readTree :: "('v \<Rightarrow> 'v) \<Rightarrow> 'v tree_env \<Rightarrow> string \<Rightarrow> 'v tree_root \<Rightarrow> go_error + 'v session_tree" where
  "readTree jv io sid root =
     (case te_read io of Some n \<Rightarrow> Inl (Errorf ''tree: read: %w'' [] (Some (errno n)))
      | None \<Rightarrow>
     (case tree_file sid root of
        None \<Rightarrow> Inl ErrTreeMissing
      | Some (Junk v) \<Rightarrow> Inl (Errorf ''tree: unmarshal: %w'' [] (Some (te_decode io)))
      | Some (Json tr) \<Rightarrow> Inr (view_tree jv tr)))"

definition writeTree :: "'v tree_env \<Rightarrow> string \<Rightarrow> 'v session_tree \<Rightarrow> 'v tree_root \<Rightarrow> go_error option \<times> 'v tree_root" where
  "writeTree io sid tr root =
     (case te_mkdir io of Some e \<Rightarrow> (Some (Errorf ''tree: create dir: %w'' [] (Some e)), root)
      | None \<Rightarrow>
     (let d = (case map_of root sid of None \<Rightarrow> [] | Some d \<Rightarrow> d) in
      case te_marshal io of Some e \<Rightarrow> (Some (Errorf ''tree: marshal: %w'' [] (Some e)), AList.update sid d root)
      | None \<Rightarrow>
     (case replace_file ''write'' ''tree'' (te_write io) treeFileName tr of
        (err, steps) \<Rightarrow> (err, AList.update sid (fold perform steps d) root))))"

section \<open>Operations\<close>

definition ft_CreateTree :: "bool \<Rightarrow> 'v tree_env \<Rightarrow> int \<Rightarrow> string \<Rightarrow> string \<Rightarrow> 'v tree_node \<Rightarrow> 'v tree_root
      \<Rightarrow> 'v tree_answer \<times> 'v tree_root \<times> tree_event list" where
  "ft_CreateTree hooks io now gid sid root0 fs =
     (let root = root_defaults root0 in
      case first_error [te_ctx io, validateSessionID sid, validateNodePayload root] of
        Some e \<Rightarrow> (AFail e, fs, [])
      | None \<Rightarrow>
     (case te_stat io of
        Some e \<Rightarrow> (AFail (Errorf ''tree: stat: %w'' [] (Some e)), fs, [])
      | None \<Rightarrow>
     (if tree_file sid fs \<noteq> None then (AFail ErrTreeExists, fs, [])
      else
        (case new_tree sid root now gid of (r, tr) \<Rightarrow>
        (case writeTree io sid tr fs of
           (Some e, fs') \<Rightarrow> (AFail e, fs', [])
         | (None, fs') \<Rightarrow> (ANode r, fs', dispatch_updated hooks sid SessionTreeOpCreate (Some r) 1))))))"

definition ft_GetTree :: "('v \<Rightarrow> 'v) \<Rightarrow> 'v tree_env \<Rightarrow> string \<Rightarrow> 'v tree_root \<Rightarrow> 'v tree_answer" where
  "ft_GetTree jv io sid fs =
     (case first_error [te_ctx io, validateSessionID sid] of
        Some e \<Rightarrow> AFail e
      | None \<Rightarrow> (case readTree jv io sid fs of Inl e \<Rightarrow> AFail e | Inr tr \<Rightarrow> ATree tr))"

definition ft_AddNode :: "('v \<Rightarrow> 'v) \<Rightarrow> bool \<Rightarrow> 'v tree_env \<Rightarrow> int \<Rightarrow> string \<Rightarrow> string \<Rightarrow> string \<Rightarrow> 'v tree_node \<Rightarrow> 'v tree_root
      \<Rightarrow> 'v tree_answer \<times> 'v tree_root \<times> tree_event list" where
  "ft_AddNode jv hooks io now gid sid pid n0 fs =
     (let n = child_defaults n0 in
      case first_error [te_ctx io, validateSessionID sid, validateNodeID pid, validateNodePayload n] of
        Some e \<Rightarrow> (AFail e, fs, [])
      | None \<Rightarrow>
     (case readTree jv io sid fs of
        Inl e \<Rightarrow> (AFail e, fs, [])
      | Inr tr \<Rightarrow>
     (case add_node pid n now gid tr of
        Inl e \<Rightarrow> (AFail e, fs, [])
      | Inr (child, tr') \<Rightarrow>
     (case writeTree io sid tr' fs of
        (Some e, fs') \<Rightarrow> (AFail e, fs', [])
      | (None, fs') \<Rightarrow>
          (ANode child, fs', dispatch_updated hooks sid SessionTreeOpAdd (Some child) (length (st_Nodes tr')))))))"

definition ft_UpdateNode :: "('v \<Rightarrow> 'v) \<Rightarrow> bool \<Rightarrow> 'v tree_env \<Rightarrow> int \<Rightarrow> string \<Rightarrow> 'v tree_node \<Rightarrow> 'v tree_root
      \<Rightarrow> 'v tree_answer \<times> 'v tree_root \<times> tree_event list" where
  "ft_UpdateNode jv hooks io now sid n fs =
     (case first_error [te_ctx io, validateSessionID sid, validateNodeID (tn_ID n), validateNodeUpdate n] of
        Some e \<Rightarrow> (AFail e, fs, [])
      | None \<Rightarrow>
     (case readTree jv io sid fs of
        Inl e \<Rightarrow> (AFail e, fs, [])
      | Inr tr \<Rightarrow>
     (case update_node n now tr of
        Inl e \<Rightarrow> (AFail e, fs, [])
      | Inr (updated, tr') \<Rightarrow>
     (case writeTree io sid tr' fs of
        (Some e, fs') \<Rightarrow> (AFail e, fs', [])
      | (None, fs') \<Rightarrow>
          (ANode updated, fs', dispatch_updated hooks sid SessionTreeOpUpdate (Some updated) (length (st_Nodes tr')))))))"

definition ft_DeleteNode :: "('v \<Rightarrow> 'v) \<Rightarrow> bool \<Rightarrow> 'v tree_env \<Rightarrow> int \<Rightarrow> string \<Rightarrow> string \<Rightarrow> 'v tree_root
      \<Rightarrow> 'v tree_answer \<times> 'v tree_root \<times> tree_event list" where
  "ft_DeleteNode jv hooks io now sid nid fs =
     (case first_error [te_ctx io, validateSessionID sid, validateNodeID nid] of
        Some e \<Rightarrow> (AFail e, fs, [])
      | None \<Rightarrow>
     (case readTree jv io sid fs of
        Inl e \<Rightarrow> (AFail e, fs, [])
      | Inr tr \<Rightarrow>
     (case delete_node nid now tr of
        Inl e \<Rightarrow> (AFail e, fs, [])
      | Inr (snapshot, tr') \<Rightarrow>
     (case writeTree io sid tr' fs of
        (Some e, fs') \<Rightarrow> (AFail e, fs', [])
      | (None, fs') \<Rightarrow>
          (ADone, fs', dispatch_updated hooks sid SessionTreeOpDelete (Some snapshot) (length (st_Nodes tr')))))))"

definition ft_SetCursor :: "('v \<Rightarrow> 'v) \<Rightarrow> bool \<Rightarrow> 'v tree_env \<Rightarrow> int \<Rightarrow> string \<Rightarrow> string \<Rightarrow> 'v tree_root
      \<Rightarrow> 'v tree_answer \<times> 'v tree_root \<times> tree_event list" where
  "ft_SetCursor jv hooks io now sid nid fs =
     (case first_error [te_ctx io, validateSessionID sid, if nid = '''' then None else validateNodeID nid] of
        Some e \<Rightarrow> (AFail e, fs, [])
      | None \<Rightarrow>
     (case readTree jv io sid fs of
        Inl e \<Rightarrow> (AFail e, fs, [])
      | Inr tr \<Rightarrow>
     (case set_cursor nid now tr of
        Inl e \<Rightarrow> (AFail e, fs, [])
      | Inr (cursorNode, tr') \<Rightarrow>
     (case writeTree io sid tr' fs of
        (Some e, fs') \<Rightarrow> (AFail e, fs', [])
      | (None, fs') \<Rightarrow>
          (ADone, fs', dispatch_updated hooks sid SessionTreeOpCursor cursorNode (length (st_Nodes tr')))))))"

text \<open>An invalid identifier is treated as a tree that does not exist; what a failed removal leaves is some of the files.\<close>

definition ft_DeleteTree :: "bool \<Rightarrow> 'v tree_env \<Rightarrow> string \<Rightarrow> 'v tree_root \<Rightarrow> 'v tree_answer \<times> 'v tree_root \<times> tree_event list" where
  "ft_DeleteTree hooks io sid fs =
     (case te_ctx io of Some e \<Rightarrow> (AFail e, fs, [])
      | None \<Rightarrow>
     (case validateSessionID sid of
        Some e \<Rightarrow> (if errors_is e ErrTreeArgument then (ADone, fs, []) else (AFail e, fs, []))
      | None \<Rightarrow>
     (case te_removeall io of
        Some (e, left) \<Rightarrow>
          (AFail (Errorf ''tree: delete: %w'' [] (Some e)),
           (case map_of fs sid of None \<Rightarrow> fs | Some d \<Rightarrow> AList.update sid (filter (\<lambda>f. left (fst f)) d) fs), [])
      | None \<Rightarrow>
          (ADone, AList.delete sid fs,
           dispatch_updated hooks sid SessionTreeOpDeleteTree (None :: 'v tree_node option) 0))))"

definition ft_GetTreeView :: "('v \<Rightarrow> 'v) \<Rightarrow> 'v tree_env \<Rightarrow> bool \<Rightarrow> string \<Rightarrow> 'v tree_root \<Rightarrow> 'v tree_answer" where
  "ft_GetTreeView jv io includePromoted sid fs =
     (case first_error [te_ctx io, validateSessionID sid] of
        Some e \<Rightarrow> AFail e
      | None \<Rightarrow>
     (case readTree jv io sid fs of
        Inl e \<Rightarrow> AFail e
      | Inr tr \<Rightarrow> ATree (if includePromoted then tr else filterPromotedFromTree tr)))"

section \<open>Folding\<close>

definition ft_snapshot :: "('v \<Rightarrow> 'v) \<Rightarrow> bool \<Rightarrow> 'v tree_env \<Rightarrow> string \<Rightarrow> string \<Rightarrow> 'v tree_root
      \<Rightarrow> go_error + 'v tree_node \<times> 'v tree_node list" where
  "ft_snapshot jv promoter io sid pid fs =
     (case first_error [te_ctx io, validateSessionID sid, validateNodeID pid, if promoter then None else Some errPromoterNotConfigured] of
        Some e \<Rightarrow> Inl e
      | None \<Rightarrow> (case readTree jv io sid fs of Inl e \<Rightarrow> Inl e | Inr tr \<Rightarrow> promote_snapshot pid tr))"

text \<open>The commit writes the file only when a child was folded.\<close>

definition ft_commit :: "('v \<Rightarrow> 'v) \<Rightarrow> bool \<Rightarrow> 'v tree_env \<Rightarrow> int \<Rightarrow> string \<Rightarrow> string \<Rightarrow> 'v tree_node list \<Rightarrow> go_error + string \<Rightarrow> 'v tree_root
      \<Rightarrow> 'v tree_answer \<times> 'v tree_root \<times> tree_event list" where
  "ft_commit jv hooks io now sid pid eligibleSnap result fs =
     (case result of
        Inl e \<Rightarrow> (AFail e, fs, dispatchFailed hooks sid pid e)
      | Inr summary \<Rightarrow>
     (let newSummary = clampSummary summary (int SummaryMaxBytes) in
      case readTree jv io sid fs of
        Inl e \<Rightarrow> (AFail e, fs, dispatchFailed hooks sid pid e)
      | Inr tr \<Rightarrow>
     (case commit_promotion pid newSummary eligibleSnap now tr of
        Inl e \<Rightarrow> (AFail e, fs, dispatchFailed hooks sid pid e)
      | Inr (folded, par, tr') \<Rightarrow>
     (case if 0 < folded then writeTree io sid tr' fs else (None, fs) of
        (Some e, fs') \<Rightarrow> (AFail e, fs', dispatchFailed hooks sid pid e)
      | (None, fs') \<Rightarrow> (ANode par, fs', dispatchCompleted hooks sid pid folded (length (tn_Summary par)))))))"

text \<open>The snapshot and the commit may meet different answers of the file system.\<close>

definition ft_PromoteNode :: "('v \<Rightarrow> 'v) \<Rightarrow> bool \<Rightarrow> ('v tree_node \<Rightarrow> 'v tree_node list \<Rightarrow> go_error + string) option \<Rightarrow> 'v tree_env \<Rightarrow> 'v tree_env
      \<Rightarrow> int \<Rightarrow> ('v tree_root \<Rightarrow> 'v tree_root) \<Rightarrow> string \<Rightarrow> string \<Rightarrow> 'v tree_root \<Rightarrow> 'v tree_answer \<times> 'v tree_root \<times> tree_event list" where
  "ft_PromoteNode jv hooks promoter io io2 now meanwhile sid pid fs =
     (case ft_snapshot jv (promoter \<noteq> None) io sid pid fs of
        Inl e \<Rightarrow> (AFail e, fs, [])
      | Inr (parentSnap, eligibleSnap) \<Rightarrow>
          if eligibleSnap = [] then (ANode parentSnap, fs, [])
          else
            (case promoter of None \<Rightarrow> (AFail errPromoterNotConfigured, fs, [])
             | Some summarize \<Rightarrow>
                 (case ft_commit jv hooks io2 now sid pid eligibleSnap (summarize parentSnap eligibleSnap) (meanwhile fs) of
                    (ans, fs', evs) \<Rightarrow> (ans, fs', dispatchStarted hooks sid pid (length eligibleSnap) @ evs))))"

definition ft_maybeTriggerPromotion :: "('v \<Rightarrow> 'v) \<Rightarrow> bool \<Rightarrow> 'v decider option \<Rightarrow> 'v tree_env \<Rightarrow> string \<Rightarrow> string \<Rightarrow> 'v tree_root
      \<Rightarrow> string list \<Rightarrow> bool \<times> string list" where
  "ft_maybeTriggerPromotion jv promoter decide io sid pid fs keys =
     (case decide of
        None \<Rightarrow> (False, keys)
      | Some d \<Rightarrow>
          if \<not> promoter then (False, keys)
          else case readTree jv io sid fs of
            Inl e \<Rightarrow> (False, keys)
          | Inr tr \<Rightarrow>
              (case promote_snapshot pid tr of
                 Inl e \<Rightarrow> (False, keys)
               | Inr (parentSnap, eligibleSnap) \<Rightarrow>
                   if \<not> d parentSnap eligibleSnap then (False, keys) else reserve sid pid keys))"

section \<open>Steps and JSON\<close>

lemma view_node_fields [simp]:
  "tn_ID (view_node jv n) = tn_ID n" "tn_Type (view_node jv n) = tn_Type n" "tn_Status (view_node jv n) = tn_Status n"
  "tn_Title (view_node jv n) = tn_Title n" "tn_Summary (view_node jv n) = tn_Summary n"
  "tn_Pinned (view_node jv n) = tn_Pinned n" "tn_Promoted (view_node jv n) = tn_Promoted n"
  "tn_Parent (view_node jv n) = tn_Parent n" "tn_Children (view_node jv n) = tn_Children n" "tn_Depth (view_node jv n) = tn_Depth n"
  by (simp_all add: view_node_def)

lemma map_of_view [simp]: "map_of (view_nodes jv nodes) i = map_option (view_node jv) (map_of nodes i)"
  by (induction nodes) (auto simp: view_nodes_def)

lemma length_view [simp]: "length (view_nodes jv nodes) = length nodes"
  by (simp add: view_nodes_def)

lemma view_update [simp]: "view_nodes jv (AList.update k n nodes) = AList.update k (view_node jv n) (view_nodes jv nodes)"
  by (induction nodes) (auto simp: view_nodes_def)

lemma view_delete [simp]: "view_nodes jv (AList.delete k nodes) = AList.delete k (view_nodes jv nodes)"
  by (induction nodes) (auto simp: view_nodes_def AList.delete_eq)

lemma view_tree_fields [simp]:
  "st_Nodes (view_tree jv tr) = view_nodes jv (st_Nodes tr)" "st_RootID (view_tree jv tr) = st_RootID tr"
  "st_Cursor (view_tree jv tr) = st_Cursor tr" "st_UpdatedAt (view_tree jv tr) = st_UpdatedAt tr"
  by (simp_all add: view_tree_def)

lemma view_metadata: "map (\<lambda>(k, v). (k, f v)) (AList.update k v xs) = AList.update k (f v) (map (\<lambda>(k, v). (k, f v)) xs)"
  by (induction xs) auto

lemma view_setMetadata [simp]: "view_node jv (setMetadata n k (MetaString s)) = setMetadata (view_node jv n) k (MetaString s)"
  by (simp add: view_node_def setMetadata_def view_metadata)

lemma view_place [simp]:
  "view_node jv (n\<lparr>tn_Children := cs, tn_UpdatedAt := now\<rparr>) = (view_node jv n)\<lparr>tn_Children := cs, tn_UpdatedAt := now\<rparr>"
  "view_node jv (n\<lparr>tn_Children := cs\<rparr>) = (view_node jv n)\<lparr>tn_Children := cs\<rparr>"
  "view_node jv (n\<lparr>tn_Promoted := p, tn_PromotedAt := at, tn_UpdatedAt := now\<rparr>) = (view_node jv n)\<lparr>tn_Promoted := p, tn_PromotedAt := at, tn_UpdatedAt := now\<rparr>"
  "view_node jv (n\<lparr>tn_Summary := s, tn_UpdatedAt := now\<rparr>) = (view_node jv n)\<lparr>tn_Summary := s, tn_UpdatedAt := now\<rparr>"
  by (simp_all add: view_node_def)

lemma view_update_fields [simp]: "SessionTree.applyUpdate (view_node jv cur) n now = SessionTree.applyUpdate cur n now"
  by (simp add: view_node_def SessionTree.applyUpdate_def)

text \<open>A value decoded once does not change any more.\<close>

definition settled :: "('v \<Rightarrow> 'v) \<Rightarrow> bool" where
  "settled jv \<longleftrightarrow> (\<forall>v. jv (jv v) = jv v)"

lemma view_node_idem [simp]: "settled jv \<Longrightarrow> view_node jv (view_node jv n) = view_node jv n"
proof -
  assume "settled jv"
  then have "map_tree_meta jv (map_tree_meta jv x) = map_tree_meta jv x" for x
    by (cases x) (simp_all add: settled_def)
  then show ?thesis by (simp add: view_node_def split_def)
qed

lemma view_nodes_idem [simp]: "settled jv \<Longrightarrow> view_nodes jv (view_nodes jv nodes) = view_nodes jv nodes"
  by (induction nodes) (auto simp: view_nodes_def)

lemma view_tree_idem [simp]: "settled jv \<Longrightarrow> view_tree jv (view_tree jv tr) = view_tree jv tr"
  by (simp add: view_tree_def)

text \<open>Every step does to the decoded tree what it does to the tree.\<close>

definition view_change :: "('v \<Rightarrow> 'v) \<Rightarrow> go_error + 'v tree_node \<times> 'v session_tree \<Rightarrow> go_error + 'v tree_node \<times> 'v session_tree" where
  "view_change jv = map_sum id (map_prod (view_node jv) (view_tree jv))"

lemma add_node_view:
  "settled jv \<Longrightarrow> view_change jv (add_node pid n now gid (view_tree jv tr)) = view_change jv (add_node pid n now gid tr)"
  by (simp add: add_node_def view_change_def Let_def view_tree_def split: option.split)

lemma update_node_view:
  "settled jv \<Longrightarrow> view_change jv (update_node n now (view_tree jv tr)) = view_change jv (update_node n now tr)"
  by (simp add: update_node_def view_change_def Let_def view_tree_def split: option.split)

lemma delete_node_view:
  "settled jv \<Longrightarrow> view_change jv (delete_node nid now (view_tree jv tr)) = view_change jv (delete_node nid now tr)"
  by (simp add: delete_node_def view_change_def Let_def view_tree_def split: option.split)

lemma set_cursor_view:
  "settled jv \<Longrightarrow> map_sum id (map_prod (map_option (view_node jv)) (view_tree jv)) (set_cursor nid now (view_tree jv tr)) =
    map_sum id (map_prod (map_option (view_node jv)) (view_tree jv)) (set_cursor nid now tr)"
  by (simp add: set_cursor_def Let_def view_tree_def split: option.split)

lemma view_fold_child [simp]: "view_node jv (fold_child now c) = fold_child now (view_node jv c)"
  by (simp add: fold_child_def)

lemma view_fold_parent [simp]: "view_node jv (fold_parent s now c) = fold_parent s now (view_node jv c)"
  by (simp add: fold_parent_def)

lemma fold_children_view:
  "fold_children planned now cids (view_nodes jv nodes) = map_prod id (view_nodes jv) (fold_children planned now cids nodes)"
proof (induction cids arbitrary: nodes)
  case (Cons c cids)
  show ?case
  proof (cases "map_of nodes c")
    case (Some n)
    then show ?thesis using Cons by (auto simp: split_def map_prod_def simp flip: view_fold_child view_update)
  qed (use Cons in simp)
qed simp

lemma commit_view:
  assumes "settled jv"
  shows "map_sum id (map_prod id (map_prod (view_node jv) (view_tree jv))) (commit_promotion pid s snap now (view_tree jv tr)) =
    map_sum id (map_prod id (map_prod (view_node jv) (view_tree jv))) (commit_promotion pid s snap now tr)"
proof (cases "map_of (st_Nodes tr) pid")
  case (Some par)
  obtain k ns where f: "fold_children (map tn_ID snap) now (tn_Children par) (st_Nodes tr) = (k, ns)" by fastforce
  show ?thesis using assms Some f
    by (cases "map_of ns pid") (simp_all add: commit_promotion_def applyPromotion_def Let_def view_tree_def fold_children_view update_conv')
qed (simp add: commit_promotion_def)

lemma eligible_view: "eligibleChildren (view_tree jv tr) (view_node jv par) = map (view_node jv) (eligibleChildren tr par)"
proof -
  have "filter (\<lambda>c. \<not> (tn_Promoted c \<or> tn_Pinned c)) (List.map_filter (\<lambda>i. map_option (view_node jv) (f i)) cs) =
      map (view_node jv) (filter (\<lambda>c. \<not> (tn_Promoted c \<or> tn_Pinned c)) (List.map_filter f cs))" for f cs
  proof (induction cs)
    case (Cons c cs)
    then show ?case by (cases "f c") (simp_all add: List.map_filter_simps)
  qed (simp add: List.map_filter_simps)
  from this [of "map_of (st_Nodes tr)" "tn_Children par"] show ?thesis
    unfolding eligibleChildren_def view_tree_fields view_node_fields map_of_view [abs_def] .
qed

lemma snapshot_view:
  "promote_snapshot pid (view_tree jv tr) = map_sum id (map_prod (view_node jv) (map (view_node jv))) (promote_snapshot pid tr)"
  by (simp add: promote_snapshot_def eligible_view split: option.split)

lemma children_of_view [simp]: "children_of (view_nodes jv nodes) i = children_of nodes i"
  by (cases "map_of nodes i") (simp_all add: children_of_def)

lemma collect_view: "collectReached (view_nodes jv nodes) todo gone = collectReached nodes todo gone"
  by (induction nodes todo gone rule: collectReached.induct) simp_all

lemma filter_view: "filterPromotedFromTree (view_tree jv tr) = view_tree jv (filterPromotedFromTree tr)"
proof -
  have m: "map fst (filter (\<lambda>(i, n). tn_Promoted n) (view_nodes jv nodes)) = map fst (filter (\<lambda>(i, n). tn_Promoted n) nodes)" for nodes
    by (induction nodes) (auto simp: view_nodes_def)
  have "collectDescendants (view_nodes jv nodes) = collectDescendants nodes" for nodes
    by (simp add: collectDescendants_def fun_eq_iff collect_view)
  then have d: "dropped (view_nodes jv nodes) = dropped nodes" for nodes by (simp only: dropped_def m)
  have "map (\<lambda>(i, n). (i, n\<lparr>tn_Children := f (tn_Children n)\<rparr>)) (filter (\<lambda>(i, n). P i) (view_nodes jv nodes)) =
      view_nodes jv (map (\<lambda>(i, n). (i, n\<lparr>tn_Children := f (tn_Children n)\<rparr>)) (filter (\<lambda>(i, n). P i) nodes))" for f P nodes
    by (induction nodes) (auto simp: view_nodes_def)
  note h = this
  show ?thesis
    using h [of "filter (\<lambda>c. c \<notin> set (dropped (st_Nodes tr)))" "\<lambda>i. i \<notin> set (dropped (st_Nodes tr))" "st_Nodes tr"]
    by (simp add: filterPromotedFromTree_def d Let_def view_tree_def)
qed

section \<open>The store on disk refines the store in memory\<close>

fun view_answer_tree :: "('v \<Rightarrow> 'v) \<Rightarrow> 'v tree_answer \<Rightarrow> 'v tree_answer" where
  "view_answer_tree jv (ANode n) = ANode (view_node jv n)"
| "view_answer_tree jv (ATree tr) = ATree (view_tree jv tr)"
| "view_answer_tree jv ADone = ADone"
| "view_answer_tree jv (AFail e) = AFail e"

definition shows_tree :: "('v \<Rightarrow> 'v) \<Rightarrow> 'v session_tree content option \<Rightarrow> 'v session_tree option \<Rightarrow> bool" where
  "shows_tree jv f m = (case m of None \<Rightarrow> f = None | Some tr \<Rightarrow> (\<exists>t. f = Some (Json t) \<and> view_tree jv t = view_tree jv tr))"

definition shows_trees :: "('v \<Rightarrow> 'v) \<Rightarrow> 'v tree_root \<Rightarrow> 'v trees \<Rightarrow> bool" where
  "shows_trees jv fs trees \<longleftrightarrow> (\<forall>sid. shows_tree jv (tree_file sid fs) (map_of trees sid))"

text \<open>
  On disk a deletion is announced even where there was no tree, in memory it is not; the other events are
  the same.
\<close>

definition other_events :: "tree_event list \<Rightarrow> tree_event list" where
  "other_events evs = filter (\<lambda>e. case e of TreeUpdated op sid nid ty st k \<Rightarrow> op \<noteq> SessionTreeOpDeleteTree | _ \<Rightarrow> True) evs"

definition te_clean :: "'v tree_env \<Rightarrow> bool" where
  "te_clean io \<longleftrightarrow> te_ctx io = None \<and> te_stat io = None \<and> te_mkdir io = None \<and> te_marshal io = None \<and>
     write_clean (te_write io) \<and> te_read io = None \<and> te_removeall io = None"

definition agrees :: "('v \<Rightarrow> 'v) \<Rightarrow> 'v tree_answer \<times> 'v tree_root \<times> tree_event list \<Rightarrow> 'v tree_answer \<times> 'v trees \<times> tree_event list \<Rightarrow> bool" where
  "agrees jv r q \<longleftrightarrow> view_answer_tree jv (fst r) = view_answer_tree jv (fst q) \<and> shows_trees jv (fst (snd r)) (fst (snd q)) \<and>
     other_events (snd (snd r)) = other_events (snd (snd q))"

lemma agrees_same [simp]: "shows_trees jv fs trees \<Longrightarrow> agrees jv (AFail e, fs, evs) (AFail e, trees, evs)"
  by (simp add: agrees_def)

lemma write_tree_clean:
  assumes "te_clean io"
  obtains fs' where "writeTree io sid tr fs = (None, fs')" "\<And>i. tree_file i fs' = (if i = sid then Some (Json tr) else tree_file i fs)"
proof -
  obtain steps where s: "replace_file ''write'' ''tree'' (te_write io) treeFileName tr = (None, steps)"
    using assms replace_file_clean by (fastforce simp: te_clean_def)
  let ?d = "case map_of fs sid of None \<Rightarrow> [] | Some d \<Rightarrow> d"
  show thesis
  proof (rule that)
    show "writeTree io sid tr fs = (None, AList.update sid (fold perform steps ?d) fs)"
      using assms s by (simp add: writeTree_def te_clean_def Let_def)
    show "tree_file i (AList.update sid (fold perform steps ?d) fs) = (if i = sid then Some (Json tr) else tree_file i fs)" for i
      using replace_file_done [OF s, of treeFileName ?d] by (simp add: tree_file_def update_conv' treeFileName_def)
  qed
qed

lemma read_clean:
  assumes "te_clean io" and "shows_trees jv fs trees"
  shows "readTree jv io sid fs = (case map_of trees sid of None \<Rightarrow> Inl ErrTreeMissing | Some tr \<Rightarrow> Inr (view_tree jv tr))"
  using assms(1) spec [OF assms(2) [unfolded shows_trees_def], of sid]
  by (auto simp: readTree_def te_clean_def shows_tree_def split: option.splits)

lemma shows_write:
  assumes "shows_trees jv fs trees" and "\<And>i. tree_file i fs' = (if i = sid then Some (Json t) else tree_file i fs)"
    and "view_tree jv t = view_tree jv tr"
  shows "shows_trees jv fs' (AList.update sid tr trees)"
  using assms by (auto simp: shows_trees_def update_conv') (simp add: shows_tree_def)

lemma change_agrees:
  fixes vc :: "'c \<Rightarrow> 'c" and mk :: "'c \<Rightarrow> 'v tree_answer" and nd :: "'c \<Rightarrow> 'v tree_node option"
  assumes io: "te_clean io" and rel: "shows_trees jv fs trees"
    and r: "map_sum id (map_prod vc (view_tree jv)) r2 = map_sum id (map_prod vc (view_tree jv)) r1"
    and mk: "\<And>c d. vc c = vc d \<Longrightarrow> view_answer_tree jv (mk c) = view_answer_tree jv (mk d)"
    and nd: "\<And>c d. vc c = vc d \<Longrightarrow> map_option (view_node jv) (nd c) = map_option (view_node jv) (nd d)"
  shows "agrees jv
    (case r2 of Inl e \<Rightarrow> (AFail e, fs, [])
     | Inr (c, t) \<Rightarrow> (case writeTree io sid t fs of
         (Some e, fs') \<Rightarrow> (AFail e, fs', [])
       | (None, fs') \<Rightarrow> (mk c, fs', dispatch_updated hooks sid op (nd c) (length (st_Nodes t)))))
    (case r1 of Inl e \<Rightarrow> (AFail e, trees, [])
     | Inr (c, t) \<Rightarrow> (mk c, AList.update sid t trees, dispatch_updated hooks sid op (nd c) (length (st_Nodes t))))"
proof (cases r1)
  case (Inl e)
  then have "r2 = Inl e" using r by (cases r2) auto
  then show ?thesis using Inl rel by simp
next
  case (Inr ct)
  obtain c t where ct: "ct = (c, t)" by (cases ct)
  obtain c2 t2 where r2: "r2 = Inr (c2, t2)" and v: "vc c2 = vc c" "view_tree jv t2 = view_tree jv t"
    using r Inr ct by (cases r2) (auto simp: map_prod_def split: prod.splits)
  obtain fs' where w: "writeTree io sid t2 fs = (None, fs')" "\<And>i. tree_file i fs' = (if i = sid then Some (Json t2) else tree_file i fs)"
    using write_tree_clean [OF io] by metis
  have len: "length (st_Nodes t2) = length (st_Nodes t)"
    using arg_cong [OF v(2), of "\<lambda>t. length (st_Nodes t)"] by simp
  have "map_option (\<lambda>k. (tn_ID k, tn_Type k, tn_Status k)) (map_option (view_node jv) (nd c2)) =
      map_option (\<lambda>k. (tn_ID k, tn_Type k, tn_Status k)) (map_option (view_node jv) (nd c))"
    using nd [OF v(1)] by simp
  then have "dispatch_updated hooks sid op (nd c2) n = dispatch_updated hooks sid op (nd c) n" for n
    by (cases "nd c"; cases "nd c2") (simp_all add: dispatch_updated_def)
  then show ?thesis using Inr ct r2 w mk [OF v(1)] shows_write [OF rel w(2) v(2)] len by (simp add: agrees_def)
qed

datatype 'v store_call = Plain "'v tree_call" | Promote string string

fun ft_call :: "('v \<Rightarrow> 'v) \<Rightarrow> bool \<Rightarrow> 'v tree_env \<Rightarrow> int \<Rightarrow> string \<Rightarrow> 'v tree_call \<Rightarrow> 'v tree_root \<Rightarrow> 'v tree_answer \<times> 'v tree_root \<times> tree_event list" where
  "ft_call jv hooks io now gid (TCreate sid root) fs = ft_CreateTree hooks io now gid sid root fs"
| "ft_call jv hooks io now gid (TGet sid) fs = (ft_GetTree jv io sid fs, fs, [])"
| "ft_call jv hooks io now gid (TAdd sid pid n) fs = ft_AddNode jv hooks io now gid sid pid n fs"
| "ft_call jv hooks io now gid (TUpdate sid n) fs = ft_UpdateNode jv hooks io now sid n fs"
| "ft_call jv hooks io now gid (TDelete sid nid) fs = ft_DeleteNode jv hooks io now sid nid fs"
| "ft_call jv hooks io now gid (TCursor sid nid) fs = ft_SetCursor jv hooks io now sid nid fs"
| "ft_call jv hooks io now gid (TDeleteTree sid) fs = ft_DeleteTree hooks io sid fs"
| "ft_call jv hooks io now gid (TView sid inc) fs = (ft_GetTreeView jv io inc sid fs, fs, [])"

fun call_valid :: "'v tree_call \<Rightarrow> bool" where
  "call_valid (TDeleteTree sid) = (validateSessionID sid = None)"
| "call_valid c = True"

lemma tree_file_delete: "tree_file i (AList.delete sid fs) = (if i = sid then None else tree_file i fs)"
  by (simp add: tree_file_def delete_conv')

lemma delete_tree_agrees:
  assumes io: "te_clean io" and rel: "shows_trees jv fs trees" and valid: "validateSessionID sid = None"
  shows "agrees jv (ft_DeleteTree hooks io sid fs) (mt_DeleteTree hooks None sid trees)"
proof -
  have quiet: "other_events (dispatch_updated hooks sid SessionTreeOpDeleteTree (None :: 'v tree_node option) 0) = []"
    by (simp add: dispatch_updated_def other_events_def)
  have "shows_trees jv (AList.delete sid fs) (AList.delete sid trees)"
    using rel by (simp add: shows_trees_def tree_file_delete delete_conv') (simp add: shows_tree_def)
  moreover have "map_of (AList.delete sid trees) = map_of trees" if "map_of trees sid = None"
    using that by (simp add: delete_conv' fun_eq_iff)
  ultimately show ?thesis using io valid quiet
    by (auto simp: agrees_def ft_DeleteTree_def mt_DeleteTree_def te_clean_def shows_trees_def other_events_def split: option.split)
qed

lemma create_agrees:
  assumes io: "te_clean io" and rel: "shows_trees jv fs trees"
  shows "agrees jv (ft_CreateTree hooks io now gid sid root fs) (mt_CreateTree hooks None now gid sid root trees)"
proof -
  obtain r tr where n: "new_tree sid (root_defaults root) now gid = (r, tr)" by fastforce
  obtain fs' where w: "writeTree io sid tr fs = (None, fs')" "\<And>i. tree_file i fs' = (if i = sid then Some (Json tr) else tree_file i fs)"
    using write_tree_clean [OF io] by metis
  have "(tree_file sid fs = None) = (map_of trees sid = None)"
    using spec [OF rel [unfolded shows_trees_def], of sid] by (auto simp: shows_tree_def split: option.splits)
  moreover have "agrees jv (ANode r, fs', evs) (ANode r, AList.update sid tr trees, evs)" for evs
    using shows_write [OF rel w(2) refl] by (simp add: agrees_def)
  ultimately show ?thesis using io n w(1) rel
    by (auto simp: ft_CreateTree_def mt_CreateTree_def te_clean_def Let_def split: option.split)
qed

lemma add_agrees:
  assumes "settled jv" and io: "te_clean io" and rel: "shows_trees jv fs trees"
  shows "agrees jv (ft_AddNode jv hooks io now gid sid pid n fs) (mt_AddNode hooks None now gid sid pid n trees)"
proof -
  note change_agrees [OF io rel add_node_view [OF assms(1), unfolded view_change_def], where mk = ANode and nd = Some]
  then show ?thesis using io rel
    by (simp add: ft_AddNode_def mt_AddNode_def read_clean [OF io rel] te_clean_def Let_def split: option.split)
qed

lemma update_agrees:
  assumes "settled jv" and io: "te_clean io" and rel: "shows_trees jv fs trees"
  shows "agrees jv (ft_UpdateNode jv hooks io now sid n fs) (mt_UpdateNode hooks None now sid n trees)"
proof -
  note change_agrees [OF io rel update_node_view [OF assms(1), unfolded view_change_def], where mk = ANode and nd = Some]
  then show ?thesis using io rel
    by (simp add: ft_UpdateNode_def mt_UpdateNode_def read_clean [OF io rel] te_clean_def split: option.split)
qed

lemma delete_agrees:
  assumes "settled jv" and io: "te_clean io" and rel: "shows_trees jv fs trees"
  shows "agrees jv (ft_DeleteNode jv hooks io now sid nid fs) (mt_DeleteNode hooks None now sid nid trees)"
proof -
  note change_agrees [OF io rel delete_node_view [OF assms(1), unfolded view_change_def], where mk = "\<lambda>c. ADone" and nd = Some]
  then show ?thesis using io rel
    by (simp add: ft_DeleteNode_def mt_DeleteNode_def read_clean [OF io rel] te_clean_def split: option.split)
qed

lemma cursor_agrees:
  assumes "settled jv" and io: "te_clean io" and rel: "shows_trees jv fs trees"
  shows "agrees jv (ft_SetCursor jv hooks io now sid nid fs) (mt_SetCursor hooks None now sid nid trees)"
proof -
  note change_agrees [OF io rel set_cursor_view [OF assms(1)], where mk = "\<lambda>c. ADone" and nd = "\<lambda>c. c"]
  then show ?thesis using io rel
    by (simp add: ft_SetCursor_def mt_SetCursor_def read_clean [OF io rel] te_clean_def split: option.split)
qed

lemma read_agrees:
  assumes "settled jv" and io: "te_clean io" and rel: "shows_trees jv fs trees"
  shows "agrees jv (ft_GetTree jv io sid fs, fs, []) (mt_GetTree None sid trees, trees, [])"
    and "agrees jv (ft_GetTreeView jv io inc sid fs, fs, []) (mt_GetTreeView None inc sid trees, trees, [])"
  using assms by (simp_all add: agrees_def ft_GetTree_def mt_GetTree_def ft_GetTreeView_def mt_GetTreeView_def
      read_clean [OF io rel] te_clean_def filter_view split: option.split)

lemma ft_call_agrees:
  assumes "settled jv" and "te_clean io" and "shows_trees jv fs trees" and "call_valid call"
  shows "agrees jv (ft_call jv hooks io now gid call fs) (mt_call hooks None now gid call trees)"
  using assms create_agrees add_agrees update_agrees delete_agrees cursor_agrees read_agrees delete_tree_agrees
  by (cases call) auto

text \<open>A promoter that does not look into metadata, as both of the package do.\<close>

definition blind :: "('v \<Rightarrow> 'v) \<Rightarrow> ('v tree_node \<Rightarrow> 'v tree_node list \<Rightarrow> go_error + string) option \<Rightarrow> bool" where
  "blind jv promoter \<longleftrightarrow>
     (case promoter of None \<Rightarrow> True | Some f \<Rightarrow> \<forall>par snap. f (view_node jv par) (map (view_node jv) snap) = f par snap)"

lemma applyPromotion_IDs:
  "map tn_ID snap = map tn_ID snap' \<Longrightarrow> commit_promotion pid s snap now tr = commit_promotion pid s snap' now tr"
  by (simp only: commit_promotion_def applyPromotion_def)

lemma commit_nothing: "commit_promotion pid s snap now tr = Inr (0, p, tr') \<Longrightarrow> tr' = tr"
  by (auto simp: commit_promotion_def applyPromotion_def Let_def split: option.splits prod.splits if_splits)

lemma ft_commit_agrees:
  assumes "settled jv" and io: "te_clean io" and rel: "shows_trees jv fs trees"
  shows "agrees jv (ft_commit jv hooks io now sid pid (map (view_node jv) snap) result fs) (mt_commit hooks now sid pid snap result trees)"
proof (cases result)
  case (Inl e)
  then show ?thesis using rel by (simp add: ft_commit_def mt_commit_def)
next
  case (Inr s)
  define cut where "cut = clampSummary s (int SummaryMaxBytes)"
  show ?thesis
  proof (cases "map_of trees sid")
    case None
    then show ?thesis using Inr rel by (simp add: ft_commit_def mt_commit_def read_clean [OF io rel] Let_def)
  next
    case (Some tr)
    let ?r = "commit_promotion pid cut snap now tr"
    have same: "commit_promotion pid cut (map (view_node jv) snap) now (view_tree jv tr) = commit_promotion pid cut snap now (view_tree jv tr)"
      by (rule applyPromotion_IDs) (simp add: comp_def)
    note v = commit_view [OF assms(1), of pid cut snap now tr]
    show ?thesis
    proof (cases ?r)
      case (Inl e)
      then have "commit_promotion pid cut snap now (view_tree jv tr) = Inl e" using v
        by (cases "commit_promotion pid cut snap now (view_tree jv tr)") auto
      then show ?thesis using Inr Some Inl rel same by (simp add: ft_commit_def mt_commit_def read_clean [OF io rel] Let_def cut_def)
    next
      case r: (Inr kpt)
      obtain k p t where kpt: "kpt = (k, p, t)" by (cases kpt)
      obtain p2 t2 where r2: "commit_promotion pid cut snap now (view_tree jv tr) = Inr (k, p2, t2)"
        and vp: "view_node jv p2 = view_node jv p" and vt: "view_tree jv t2 = view_tree jv t"
        using v r kpt by (cases "commit_promotion pid cut snap now (view_tree jv tr)") (auto simp: map_prod_def split: prod.splits)
      have sum: "tn_Summary p2 = tn_Summary p" using arg_cong [OF vp, of tn_Summary] by simp
      obtain fs' where w: "writeTree io sid t2 fs = (None, fs')" "\<And>i. tree_file i fs' = (if i = sid then Some (Json t2) else tree_file i fs)"
        using write_tree_clean [OF io] by metis
      have "shows_trees jv (if 0 < k then fs' else fs) (AList.update sid t trees)"
      proof (cases "k = 0")
        case True
        then have "t = tr" using r kpt commit_nothing by simp
        then have "map_of (AList.update sid t trees) = map_of trees" using Some by (simp add: update_conv' fun_eq_iff)
        then show ?thesis using rel True by (simp add: shows_trees_def)
      qed (use shows_write [OF rel w(2) vt] in simp)
      then show ?thesis using Inr Some r r2 kpt same w vp sum
        by (cases "k = 0") (simp_all add: ft_commit_def mt_commit_def read_clean [OF io rel] Let_def cut_def agrees_def)
    qed
  qed
qed

lemma promote_agrees:
  assumes "settled jv" and io: "te_clean io" and rel: "shows_trees jv fs trees" and "blind jv promoter"
  shows "agrees jv (ft_PromoteNode jv hooks promoter io io now (\<lambda>fs. fs) sid pid fs)
    (mt_PromoteNode hooks promoter None now (\<lambda>trees. trees) sid pid trees)"
proof -
  have snap: "ft_snapshot jv (promoter \<noteq> None) io sid pid fs =
      map_sum id (map_prod (view_node jv) (map (view_node jv))) (mt_snapshot (promoter \<noteq> None) None sid pid trees)"
    using io by (simp add: ft_snapshot_def mt_snapshot_def read_clean [OF io rel] snapshot_view te_clean_def split: option.split)
  show ?thesis
  proof (cases "mt_snapshot (promoter \<noteq> None) None sid pid trees")
    case (Inl e)
    then show ?thesis using snap rel by (simp add: ft_PromoteNode_def mt_PromoteNode_def)
  next
    case (Inr r)
    obtain par snap0 where r: "r = (par, snap0)" by (cases r)
    show ?thesis
    proof (cases "snap0 = [] \<or> promoter = None")
      case True
      then show ?thesis using Inr r snap rel assms(1) by (auto simp: ft_PromoteNode_def mt_PromoteNode_def agrees_def)
    next
      case False
      then obtain f where f: "promoter = Some f" by auto
      then have "f (view_node jv par) (map (view_node jv) snap0) = f par snap0" using assms(4) by (simp add: blind_def)
      moreover have "agrees jv (ft_commit jv hooks io now sid pid (map (view_node jv) snap0) (f par snap0) fs)
          (mt_commit hooks now sid pid snap0 (f par snap0) trees)"
        by (rule ft_commit_agrees [OF assms(1) io rel])
      ultimately show ?thesis using Inr r snap f False
        by (auto simp: ft_PromoteNode_def mt_PromoteNode_def agrees_def other_events_def split: prod.splits)
    qed
  qed
qed

text \<open>A history of calls, each with the time, the identifier generated for it, and the answers of the file system.\<close>

fun ft_run :: "('v \<Rightarrow> 'v) \<Rightarrow> bool \<Rightarrow> ('v tree_node \<Rightarrow> 'v tree_node list \<Rightarrow> go_error + string) option
      \<Rightarrow> ('v tree_env \<times> int \<times> string \<times> 'v store_call) list \<Rightarrow> 'v tree_root \<Rightarrow> 'v tree_answer list \<times> tree_event list \<times> 'v tree_root" where
  "ft_run jv hooks promoter [] fs = ([], [], fs)"
| "ft_run jv hooks promoter ((io, now, gid, call) # cs) fs =
     (case (case call of
          Plain c \<Rightarrow> ft_call jv hooks io now gid c fs
        | Promote sid pid \<Rightarrow> ft_PromoteNode jv hooks promoter io io now (\<lambda>fs. fs) sid pid fs) of (ans, fs', evs) \<Rightarrow>
     (case ft_run jv hooks promoter cs fs' of (as, es, fs'') \<Rightarrow> (ans # as, evs @ es, fs'')))"

fun mt_run :: "bool \<Rightarrow> ('v tree_node \<Rightarrow> 'v tree_node list \<Rightarrow> go_error + string) option
      \<Rightarrow> ('v tree_env \<times> int \<times> string \<times> 'v store_call) list \<Rightarrow> 'v trees \<Rightarrow> 'v tree_answer list \<times> tree_event list \<times> 'v trees" where
  "mt_run hooks promoter [] trees = ([], [], trees)"
| "mt_run hooks promoter ((io, now, gid, call) # cs) trees =
     (case (case call of
          Plain c \<Rightarrow> mt_call hooks None now gid c trees
        | Promote sid pid \<Rightarrow> mt_PromoteNode hooks promoter None now (\<lambda>trees. trees) sid pid trees) of (ans, trees', evs) \<Rightarrow>
     (case mt_run hooks promoter cs trees' of (as, es, trees'') \<Rightarrow> (ans # as, evs @ es, trees'')))"

definition step_fine :: "'v tree_env \<times> int \<times> string \<times> 'v store_call \<Rightarrow> bool" where
  "step_fine = (\<lambda>(io, now, gid, call). te_clean io \<and> (case call of Plain c \<Rightarrow> call_valid c | Promote sid pid \<Rightarrow> True))"


definition clean_env :: "unit tree_env" where
  "clean_env = \<lparr>te_ctx = None, te_stat = None, te_mkdir = None, te_marshal = None,
     te_write = \<lparr>fw_open = None, fw_encode = None, fw_sync = None, fw_close = None, fw_rename = None, fw_partial = Junk None, fw_cleanup = True\<rparr>,
     te_read = None, te_decode = ErrNodeNotFound, te_removeall = None\<rparr>"

definition sample_calls :: "(unit tree_env \<times> int \<times> string \<times> unit store_call) list" where
  "sample_calls =
     [(clean_env, 1, ''tn-r'', Plain (TCreate ''s'' (sample_node '''' '''' [] 0 False))),
      (clean_env, 2, ''tn-a'', Plain (TAdd ''s'' ''tn-r'' (sample_node '''' '''' [] 0 False))),
      (clean_env, 3, ''tn-x'', Promote ''s'' ''tn-r''), (clean_env, 4, ''tn-y'', Plain (TView ''s'' False))]"



end
