(* ===== verification/TreeLocks.thy ===== *)
theory TreeLocks
  imports TreeFile
begin

text \<open>
  The locks of the store of session trees on disk: a mutex per session, made when it is first asked for and
  forgotten when the tree is deleted. Without deletions writers of a session exclude each other; a deletion
  lets two of them in at once.
\<close>

section \<open>The locks of the file store\<close>

text \<open>
  Every writer gets the mutex of its session from a table, waits for it, works, and unlocks; \<open>DeleteTree\<close> also
  removes the entry of the table before it unlocks. A mutex is a number, a goroutine its session, whether it
  deletes, and how far it is.
\<close>

datatype lock_phase = Ready | Got nat | Inside nat | Finished

record lock_state =
  lk_table :: "(string \<times> nat) list"
  lk_fresh :: nat
  lk_held :: "nat list"
  lk_threads :: "(string \<times> bool \<times> lock_phase) list"

definition lockFor :: "string \<Rightarrow> lock_state \<Rightarrow> nat \<times> lock_state" where
  "lockFor sid s =
     (case map_of (lk_table s) sid of
        Some mu \<Rightarrow> (mu, s)
      | None \<Rightarrow> (lk_fresh s, s\<lparr>lk_table := AList.update sid (lk_fresh s) (lk_table s), lk_fresh := Suc (lk_fresh s)\<rparr>))"

inductive lock_step :: "lock_state \<Rightarrow> lock_state \<Rightarrow> bool" where
  lock_get: "i < length (lk_threads s) \<Longrightarrow> lk_threads s ! i = (sid, del, Ready) \<Longrightarrow> lockFor sid s = (mu, s') \<Longrightarrow>
     lock_step s (s'\<lparr>lk_threads := (lk_threads s)[i := (sid, del, Got mu)]\<rparr>)"
| lock_enter: "i < length (lk_threads s) \<Longrightarrow> lk_threads s ! i = (sid, del, Got mu) \<Longrightarrow> mu \<notin> set (lk_held s) \<Longrightarrow>
     lock_step s (s\<lparr>lk_held := mu # lk_held s, lk_threads := (lk_threads s)[i := (sid, del, Inside mu)]\<rparr>)"
| lock_leave: "i < length (lk_threads s) \<Longrightarrow> lk_threads s ! i = (sid, del, Inside mu) \<Longrightarrow>
     lock_step s (s\<lparr>lk_table := (if del then AList.delete sid (lk_table s) else lk_table s),
       lk_held := removeAll mu (lk_held s), lk_threads := (lk_threads s)[i := (sid, del, Finished)]\<rparr>)"

definition lock_start :: "(string \<times> bool) list \<Rightarrow> lock_state" where
  "lock_start ts = \<lparr>lk_table = [], lk_fresh = 0, lk_held = [], lk_threads = map (\<lambda>(sid, del). (sid, del, Ready)) ts\<rparr>"

inductive lock_reachable :: "(string \<times> bool) list \<Rightarrow> lock_state \<Rightarrow> bool" for ts where
  lock_init: "lock_reachable ts (lock_start ts)"
| lock_next: "lock_reachable ts s \<Longrightarrow> lock_step s s' \<Longrightarrow> lock_reachable ts s'"

definition working :: "lock_state \<Rightarrow> string \<Rightarrow> nat \<Rightarrow> bool" where
  "working s sid i \<longleftrightarrow> i < length (lk_threads s) \<and> (\<exists>del mu. lk_threads s ! i = (sid, del, Inside mu))"

definition thread_ok :: "lock_state \<Rightarrow> nat \<Rightarrow> bool" where
  "thread_ok s i \<longleftrightarrow>
     (case lk_threads s ! i of (sid, del, ph) \<Rightarrow> \<not> del \<and>
        (case ph of Got mu \<Rightarrow> map_of (lk_table s) sid = Some mu
         | Inside mu \<Rightarrow> map_of (lk_table s) sid = Some mu \<and> mu \<in> set (lk_held s) \<and>
            (\<forall>j<length (lk_threads s). i \<noteq> j \<longrightarrow> snd (snd (lk_threads s ! j)) \<noteq> Inside mu)
         | _ \<Rightarrow> True))"

definition lock_inv :: "lock_state \<Rightarrow> bool" where
  "lock_inv s \<longleftrightarrow> (\<forall>i<length (lk_threads s). thread_ok s i)"

lemma lock_invD:
  assumes "lock_inv s" and "i < length (lk_threads s)" and "lk_threads s ! i = (sid, del, ph)"
  shows "\<not> del" and "ph = Got mu \<Longrightarrow> map_of (lk_table s) sid = Some mu"
    and "ph = Inside mu \<Longrightarrow> map_of (lk_table s) sid = Some mu \<and> mu \<in> set (lk_held s) \<and>
      (\<forall>j<length (lk_threads s). i \<noteq> j \<longrightarrow> snd (snd (lk_threads s ! j)) \<noteq> Inside mu)"
  using assms by (auto simp: lock_inv_def thread_ok_def)


lemma lockFor_table:
  assumes "lockFor sid s = (mu, s')"
  shows "map_of (lk_table s') sid = Some mu" and "map_of (lk_table s) i = Some nu \<Longrightarrow> map_of (lk_table s') i = Some nu"
    and "lk_held s' = lk_held s" and "lk_threads s' = lk_threads s"
  using assms by (auto simp: lockFor_def update_conv' split: option.splits)

lemma lock_inv_step:
  assumes inv: "lock_inv s" and step: "lock_step s s'"
  shows "lock_inv s'"
  using step
proof cases
  case (lock_get i sid del mu s0)
  note T = lockFor_table [OF lock_get(4)]
  show ?thesis unfolding lock_inv_def
  proof (intro allI impI)
    fix j assume j: "j < length (lk_threads s')"
    obtain sj dj pj where t: "lk_threads s' ! j = (sj, dj, pj)" by (metis prod_cases3)
    show "thread_ok s' j"
    proof (cases "j = i")
      case True
      then show ?thesis unfolding thread_ok_def using lock_get lock_invD(1) [OF inv lock_get(2,3)] T by simp
    next
      case False
      then have "lk_threads s ! j = (sj, dj, pj)" "j < length (lk_threads s)" using t j lock_get by simp_all
      from lock_invD [OF inv this(2,1)] show ?thesis unfolding thread_ok_def using t False lock_get T
        by (cases pj) (auto simp: nth_list_update)
    qed
  qed
next
  case (lock_enter i sid del mu)
  show ?thesis unfolding lock_inv_def
  proof (intro allI impI)
    fix j assume j: "j < length (lk_threads s')"
    obtain sj dj pj where t: "lk_threads s' ! j = (sj, dj, pj)" by (metis prod_cases3)
    have free: "snd (snd (lk_threads s ! k)) \<noteq> Inside mu" if "k < length (lk_threads s)" for k
    proof -
      obtain a b c where "lk_threads s ! k = (a, b, c)" by (metis prod_cases3)
      then show ?thesis using lock_invD(3) [OF inv that] lock_enter(4) by auto
    qed
    show "thread_ok s' j"
    proof (cases "j = i")
      case True
      then show ?thesis unfolding thread_ok_def using lock_enter lock_invD(1,2) [OF inv lock_enter(2,3)] free by (auto simp: nth_list_update)
    next
      case False
      then have k: "lk_threads s ! j = (sj, dj, pj)" "j < length (lk_threads s)" using t j lock_enter by simp_all
      from lock_invD [OF inv this(2,1)] show ?thesis unfolding thread_ok_def using t False lock_enter free [OF k(2)] k(1)
        by (cases pj) (auto simp: nth_list_update)
    qed
  qed
next
  case (lock_leave i sid del mu)
  have nd: "\<not> del" using lock_invD(1) [OF inv lock_leave(2,3)] .
  note own = lock_invD(3) [OF inv lock_leave(2,3) refl]
  show ?thesis unfolding lock_inv_def
  proof (intro allI impI)
    fix j assume j: "j < length (lk_threads s')"
    obtain sj dj pj where t: "lk_threads s' ! j = (sj, dj, pj)" by (metis prod_cases3)
    show "thread_ok s' j"
    proof (cases "j = i")
      case True
      then show ?thesis unfolding thread_ok_def using lock_leave nd by simp
    next
      case False
      then have k: "lk_threads s ! j = (sj, dj, pj)" "j < length (lk_threads s)" using t j lock_leave by simp_all
      have "pj \<noteq> Inside mu" using own k False by auto
      with lock_invD [OF inv k(2,1)] show ?thesis unfolding thread_ok_def using t False lock_leave nd
        by (cases pj) (auto simp: nth_list_update)
    qed
  qed
qed

lemma lock_inv_start: "list_all (\<lambda>t. \<not> snd t) ts \<Longrightarrow> lock_inv (lock_start ts)"
  by (auto simp: lock_inv_def thread_ok_def lock_start_def list_all_length split_def)

lemma lock_reachable_inv: "lock_reachable ts s \<Longrightarrow> list_all (\<lambda>t. \<not> snd t) ts \<Longrightarrow> lock_inv s"
  by (induction rule: lock_reachable.induct) (auto intro: lock_inv_start lock_inv_step)

text \<open>
  As long as no tree is deleted, at most one writer of a session is between locking and unlocking at any
  moment, whatever the number and the interleaving of the writers.
\<close>
theorem writers_exclude_each_other:
  assumes "list_all (\<lambda>t. \<not> snd t) ts" and "lock_reachable ts s" and "working s sid i" and "working s sid j"
  shows "i = j"
proof -
  have inv: "lock_inv s" by (rule lock_reachable_inv [OF assms(2,1)])
  obtain del mu where i: "i < length (lk_threads s)" "lk_threads s ! i = (sid, del, Inside mu)" using assms(3) by (auto simp: working_def)
  obtain del' nu where j: "j < length (lk_threads s)" "lk_threads s ! j = (sid, del', Inside nu)" using assms(4) by (auto simp: working_def)
  show ?thesis using lock_invD(3) [OF inv i refl] lock_invD(3) [OF inv j refl] j by auto
qed

lemma lock_stepsI:
  "lock_reachable ts s \<Longrightarrow> i < length (lk_threads s) \<Longrightarrow> lk_threads s ! i = (sid, del, Ready) \<Longrightarrow>
     lock_reachable ts ((snd (lockFor sid s))\<lparr>lk_threads := (lk_threads s)[i := (sid, del, Got (fst (lockFor sid s)))]\<rparr>)"
  "lock_reachable ts s \<Longrightarrow> i < length (lk_threads s) \<Longrightarrow> lk_threads s ! i = (sid, del, Got mu) \<Longrightarrow> mu \<notin> set (lk_held s) \<Longrightarrow>
     lock_reachable ts (s\<lparr>lk_held := mu # lk_held s, lk_threads := (lk_threads s)[i := (sid, del, Inside mu)]\<rparr>)"
  "lock_reachable ts s \<Longrightarrow> i < length (lk_threads s) \<Longrightarrow> lk_threads s ! i = (sid, del, Inside mu) \<Longrightarrow>
     lock_reachable ts (s\<lparr>lk_table := (if del then AList.delete sid (lk_table s) else lk_table s),
       lk_held := removeAll mu (lk_held s), lk_threads := (lk_threads s)[i := (sid, del, Finished)]\<rparr>)"
  by (erule lock_next, rule lock_get, assumption+, rule prod.collapse [symmetric])
    (erule lock_next, rule lock_enter, assumption+, erule lock_next, rule lock_leave, assumption+)

definition one_writer :: lock_state where
  "one_writer = \<lparr>lk_table = [(''s'', 0)], lk_fresh = 1, lk_held = [0], lk_threads = [(''s'', False, Inside 0), (''s'', False, Ready)]\<rparr>"

theorem writers_exclude_each_other_witness: "working one_writer ''s'' 0 \<and> \<not> working one_writer ''s'' 1"
proof -
  let ?ts = "[(''s'', False), (''s'', False)]"
  have "lock_reachable ?ts (lock_start ?ts)" by (rule lock_init)
  from lock_stepsI(1) [OF this, of 0 "''s''" False]
  have "lock_reachable ?ts \<lparr>lk_table = [(''s'', 0)], lk_fresh = 1, lk_held = [], lk_threads = [(''s'', False, Got 0), (''s'', False, Ready)]\<rparr>"
    by (simp add: lock_start_def lockFor_def)
  from lock_stepsI(2) [OF this, of 0 "''s''" False 0] have r: "lock_reachable ?ts one_writer" by (simp add: one_writer_def)
  have w: "working one_writer ''s'' 0" by (auto simp: working_def one_writer_def intro: exI [of _ False])
  have "list_all (\<lambda>t. \<not> snd t) ?ts" by simp
  from writers_exclude_each_other [OF this r w, of 1] w show ?thesis by auto
qed

text \<open>
  C38. A deletion lets two writers of the same session in at once: a writer that waits for the mutex when the
  deletion forgets it, and one that comes later and is given a new one, both read, change and replace the
  file, so that one of the changes is lost.
\<close>
theorem delete_lets_two_in:
  "\<exists>s. lock_reachable [(''s'', True), (''s'', False), (''s'', False)] s \<and> working s ''s'' 1 \<and> working s ''s'' 2"
proof -
  let ?ts = "[(''s'', True), (''s'', False), (''s'', False)]"
  have "lock_reachable ?ts (lock_start ?ts)" by (rule lock_init)
  from lock_stepsI(1) [OF this, of 0 "''s''" True]
  have "lock_reachable ?ts \<lparr>lk_table = [(''s'', 0)], lk_fresh = 1, lk_held = [],
      lk_threads = [(''s'', True, Got 0), (''s'', False, Ready), (''s'', False, Ready)]\<rparr>"
    by (simp add: lock_start_def lockFor_def)
  from lock_stepsI(1) [OF this, of 1 "''s''" False]
  have "lock_reachable ?ts \<lparr>lk_table = [(''s'', 0)], lk_fresh = 1, lk_held = [],
      lk_threads = [(''s'', True, Got 0), (''s'', False, Got 0), (''s'', False, Ready)]\<rparr>"
    by (simp add: lockFor_def)
  from lock_stepsI(2) [OF this, of 0 "''s''" True 0]
  have "lock_reachable ?ts \<lparr>lk_table = [(''s'', 0)], lk_fresh = 1, lk_held = [0],
      lk_threads = [(''s'', True, Inside 0), (''s'', False, Got 0), (''s'', False, Ready)]\<rparr>" by simp
  from lock_stepsI(3) [OF this, of 0 "''s''" True 0]
  have "lock_reachable ?ts \<lparr>lk_table = [], lk_fresh = 1, lk_held = [],
      lk_threads = [(''s'', True, Finished), (''s'', False, Got 0), (''s'', False, Ready)]\<rparr>" by simp
  from lock_stepsI(2) [OF this, of 1 "''s''" False 0]
  have "lock_reachable ?ts \<lparr>lk_table = [], lk_fresh = 1, lk_held = [0],
      lk_threads = [(''s'', True, Finished), (''s'', False, Inside 0), (''s'', False, Ready)]\<rparr>" by simp
  from lock_stepsI(1) [OF this, of 2 "''s''" False]
  have "lock_reachable ?ts \<lparr>lk_table = [(''s'', 1)], lk_fresh = 2, lk_held = [0],
      lk_threads = [(''s'', True, Finished), (''s'', False, Inside 0), (''s'', False, Got 1)]\<rparr>" by (simp add: lockFor_def numeral_2_eq_2)
  from lock_stepsI(2) [OF this, of 2 "''s''" False 1]
  show ?thesis by (intro exI conjI) (auto simp: working_def)
qed

end
