(* ===== verification/TreePromoter.thy ===== *)
theory TreePromoter
  imports TreeStore
begin

text \<open>
  The promoters of the package (\<open>session/tree/promoter.go\<close>): what they send to a model or a compressor and what
  they make of the answer. The model, the compressor and the removal of white space around a text are
  parameters. Messages are built by the schema package from a role and a text and are just that here.
  The last part is about the identifiers of nodes.
\<close>

section \<open>Promoters\<close>

type_synonym 'v summarizer = "'v tree_node \<Rightarrow> 'v tree_node list \<Rightarrow> go_error + string"

definition NoopPromoter :: "'v summarizer" where
  "NoopPromoter par children = Inr (tn_Summary par)"

datatype prompt_message = SystemMessage string | UserMessage string | AssistantMessage string

record prompt_request =
  pq_Model :: string
  pq_MaxTokens :: int
  pq_Messages :: "prompt_message list"

text \<open>A nil client or compressor is \<open>None\<close>; so is a nil response.\<close>

record llm_promoter =
  lp_Client :: "(prompt_request \<Rightarrow> go_error + string option) option"
  lp_Model :: string
  lp_SystemPrompt :: string
  lp_MaxOutputTokens :: int

definition defaultLLMPromoterSystemPrompt :: string where
  "defaultLLMPromoterSystemPrompt =
     ''You are a senior assistant compressing sub-task notes into a single '' @
     ''paragraph that captures the parent task's progress. '' @
     ''Reply with a single concise paragraph (no headings, no lists, no '' @
     ''prefixes). Aim for at most 200 Chinese characters or roughly 600 bytes.''"

definition defaultLLMPromoterMaxTokens :: int where "defaultLLMPromoterMaxTokens = 512"

definition line_feed :: string where "line_feed = [CHR 0x0A]"

text \<open>A dash between blanks, in UTF-8.\<close>

definition em_dash :: string where "em_dash = '' '' @ [CHR 0xE2, CHR 0x80, CHR 0x94] @ '' ''"

definition childToCompressorBody :: "'v tree_node \<Rightarrow> string" where
  "childToCompressorBody c =
     ''['' @ tn_Type c @ ''] ['' @ tn_Status c @ ''] '' @ tn_Title c @
     (if tn_Summary c = '''' then '''' else em_dash @ tn_Summary c)"

fun numbered_children :: "nat \<Rightarrow> 'v tree_node list \<Rightarrow> string" where
  "numbered_children i [] = ''''"
| "numbered_children i (c # cs) = base_ten (i + 1) @ ''. '' @ childToCompressorBody c @ line_feed @ numbered_children (i + 1) cs"

definition buildLLMPromoterUserText :: "'v tree_node \<Rightarrow> 'v tree_node list \<Rightarrow> string" where
  "buildLLMPromoterUserText par children =
     ''PARENT'' @ line_feed @ ''- Title: '' @ tn_Title par @ line_feed @ ''- Status: '' @ tn_Status par @ line_feed @
     (if tn_Summary par \<noteq> '''' then ''- Existing summary: '' @ tn_Summary par @ line_feed else '''') @
     line_feed @ ''CHILDREN ('' @ base_ten (length children) @ '' total)'' @ line_feed @ numbered_children 0 children"

definition extractFirstChoiceText :: "(string \<Rightarrow> string) \<Rightarrow> string option \<Rightarrow> string" where
  "extractFirstChoiceText trimSpace resp = (case resp of None \<Rightarrow> '''' | Some t \<Rightarrow> trimSpace t)"

definition LLMPromoter :: "(string \<Rightarrow> string) \<Rightarrow> llm_promoter option \<Rightarrow> 'v summarizer" where
  "LLMPromoter trimSpace p par children =
     (case Option.bind p lp_Client of
        None \<Rightarrow> Inl (Errorf ''%w: LLMPromoter requires a non-nil Client'' [] (Some ErrTreeArgument))
      | Some call \<Rightarrow>
          if children = [] then Inr (tn_Summary par)
          else
            let q = the p;
                system = (if lp_SystemPrompt q = '''' then defaultLLMPromoterSystemPrompt else lp_SystemPrompt q);
                maxTok = (if lp_MaxOutputTokens q \<le> 0 then defaultLLMPromoterMaxTokens else lp_MaxOutputTokens q) in
            (case call \<lparr>pq_Model = lp_Model q, pq_MaxTokens = maxTok,
                pq_Messages = [SystemMessage system, UserMessage (buildLLMPromoterUserText par children)]\<rparr> of
               Inl e \<Rightarrow> Inl (Errorf ''tree: LLMPromoter chat: %w'' [] (Some e))
             | Inr resp \<Rightarrow> Inr (extractFirstChoiceText trimSpace resp)))"

record compressor_promoter =
  cp_Compressor :: "(prompt_message list \<Rightarrow> int \<Rightarrow> go_error + string list) option"
  cp_MaxBytes :: int

definition approxBytesPerToken :: int where "approxBytesPerToken = 4"

definition compressorPromoterMessages :: "'v tree_node \<Rightarrow> 'v tree_node list \<Rightarrow> prompt_message list" where
  "compressorPromoterMessages par children =
     SystemMessage (''Parent: '' @ tn_Title par @ (if tn_Summary par \<noteq> '''' then em_dash @ tn_Summary par else ''''))
     # map (\<lambda>c. AssistantMessage (childToCompressorBody c)) children"

text \<open>The texts of the messages, the empty ones left out, one per line.\<close>

fun join_texts :: "string \<Rightarrow> string list \<Rightarrow> string" where
  "join_texts b [] = b"
| "join_texts b (t # ts) = (if t = '''' then join_texts b ts else join_texts ((if b = '''' then b else b @ line_feed) @ t) ts)"

definition joinSchemaMessages :: "string list \<Rightarrow> string" where
  "joinSchemaMessages texts = join_texts '''' texts"

definition CompressorPromoter :: "compressor_promoter option \<Rightarrow> 'v summarizer" where
  "CompressorPromoter p par children =
     (case Option.bind p cp_Compressor of
        None \<Rightarrow> Inl (Errorf ''%w: CompressorPromoter requires a non-nil Compressor'' [] (Some ErrTreeArgument))
      | Some compress \<Rightarrow>
          if children = [] then Inr (tn_Summary par)
          else
            let q = the p;
                maxBytes = (if cp_MaxBytes q \<le> 0 then int SummaryMaxBytes else cp_MaxBytes q);
                tokenBudget = max (maxBytes div approxBytesPerToken) 1 in
            (case compress (compressorPromoterMessages par children) tokenBudget of
               Inl e \<Rightarrow> Inl (Errorf ''tree: CompressorPromoter compress: %w'' [] (Some e))
             | Inr out \<Rightarrow> Inr (joinSchemaMessages out)))"

text \<open>What the store relies on: without children a promoter answers the summary that is there.\<close>

locale promoter =
  fixes summarize :: "'v summarizer"
  assumes no_children: "summarize par [] = Inr (tn_Summary par)"
begin

text \<open>Asked for the children of a node that has none, it never makes the store forget the summary.\<close>

lemma childless_summary_kept:
  assumes "length (tn_Summary par) \<le> SummaryMaxBytes"
  shows "map_sum id (\<lambda>s. clampSummary s (int SummaryMaxBytes)) (summarize par []) = Inr (tn_Summary par)"
  using assms by (simp add: no_children clampSummary_def)

end

interpretation noop: promoter NoopPromoter
  by unfold_locales (simp add: NoopPromoter_def)

interpretation llm: promoter "LLMPromoter trimSpace (Some \<lparr>lp_Client = Some call, lp_Model = m, lp_SystemPrompt = s, lp_MaxOutputTokens = t\<rparr>)"
  for trimSpace call m s t
  by unfold_locales (simp add: LLMPromoter_def)

interpretation compressor: promoter "CompressorPromoter (Some \<lparr>cp_Compressor = Some compress, cp_MaxBytes = b\<rparr>)" for compress b
  by unfold_locales (simp add: CompressorPromoter_def)

section \<open>An empty answer\<close>

lemma eligible_folds:
  assumes links: "links root (map_of (st_Nodes tr))" and c: "c \<in> set (eligibleChildren tr par)"
  shows "tn_ID c \<in> set (filter (folds (map tn_ID (eligibleChildren tr par)) (map_of (st_Nodes tr))) (tn_Children par))"
proof -
  obtain cid where cid: "cid \<in> set (tn_Children par)" "map_of (st_Nodes tr) cid = Some c" "\<not> tn_Promoted c" "\<not> tn_Pinned c"
    using c by (auto simp: eligibleChildren_def List.map_filter_def)
  then have "tn_ID c = cid" using linkedD(2) [OF links] by blast
  then show ?thesis using cid c by (auto simp: folds_def)
qed

text \<open>
  C39. A model that answers with nothing erases the summary of the parent: the promoter reports the empty text
  as a new summary, and folding the children replaces what was there by it, instead of keeping it as the
  comment of the promoter says.
\<close>
theorem empty_answer_erases_summary:
  assumes "trees_wf trees" and "map_of trees sid = Some tr" and "map_of (st_Nodes tr) pid = Some par"
    and "eligibleChildren tr par \<noteq> []" and "lp_Client lp = Some call"
    and "\<And>req. \<exists>resp. call req = Inr resp \<and> extractFirstChoiceText trimSpace resp = ''''"
  shows "\<exists>p trees' evs. mt_PromoteNode hooks (Some (LLMPromoter trimSpace (Some lp))) None now (\<lambda>t. t) sid pid trees =
      (ANode p, trees', evs) \<and> tn_Summary p = '''' \<and> map_option tn_Summary (Option.bind (map_of trees' sid) (\<lambda>t. map_of (st_Nodes t) pid)) = Some ''''"
proof -
  have st: "stored sid tr" using trees_wf_stored [OF assms(1,2)] .
  then have wf: "tree_wf tr" and sid: "validateSessionID sid = None" by (simp_all add: stored_def)
  then have links: "links (st_RootID tr) (map_of (st_Nodes tr))" by (simp add: tree_wf_iff)
  let ?snap = "eligibleChildren tr par"
  let ?F = "filter (folds (map tn_ID ?snap) (map_of (st_Nodes tr))) (tn_Children par)"
  have F: "?F \<noteq> []"
  proof -
    obtain c where "c \<in> set ?snap" using assms(4) by (cases ?snap) auto
    from eligible_folds [OF links this] show ?thesis by (metis empty_iff empty_set)
  qed
  have pid: "validateNodeID pid = None" using linkedD(1,2) [OF links assms(3)] by (auto simp: node_ok_def)
  have snap: "mt_snapshot True None sid pid trees = Inr (par, ?snap)"
    using sid pid assms(2,3) by (simp add: mt_snapshot_def promote_snapshot_def)
  have answer: "LLMPromoter trimSpace (Some lp) par ?snap = Inr ''''"
  proof -
    define req where "req = \<lparr>pq_Model = lp_Model lp,
      pq_MaxTokens = (if lp_MaxOutputTokens lp \<le> 0 then defaultLLMPromoterMaxTokens else lp_MaxOutputTokens lp),
      pq_Messages = [SystemMessage (if lp_SystemPrompt lp = '''' then defaultLLMPromoterSystemPrompt else lp_SystemPrompt lp),
        UserMessage (buildLLMPromoterUserText par ?snap)]\<rparr>"
    obtain resp where "call req = Inr resp" "extractFirstChoiceText trimSpace resp = ''''" using assms(6) by blast
    then show ?thesis using assms(4,5) by (simp add: LLMPromoter_def Let_def req_def)
  qed
  obtain k p tr' where commit: "commit_promotion pid '''' ?snap now tr = Inr (k, p, tr')"
    using assms(3) by (cases "applyPromotion pid par tr '''' ?snap now") (simp add: commit_promotion_def Let_def)
  have "map_of (st_Nodes tr') pid = Some p \<and> p = (if ?F = [] then par else fold_parent '''' now par)"
  proof -
    note L = commit_lookup [OF wf assms(3) commit, of pid]
    have "pid \<notin> set ?F"
    proof
      assume "pid \<in> set ?F"
      then have c: "pid \<in> set (tn_Children par)" by simp
      from linked_child [OF links assms(3) c] assms(3) have "tn_Parent par = pid" by auto
      then show False using linked_parent [OF links assms(3) child_not_root [OF links assms(3) c]] assms(3) by auto
    qed
    then show ?thesis using L assms(3) F by auto
  qed
  then have p: "map_of (st_Nodes tr') pid = Some p" "tn_Summary p = ''''" using F by simp_all
  have "clampSummary '''' (int SummaryMaxBytes) = ''''" by (simp add: clampSummary_def)
  then show ?thesis
    using snap answer commit assms(2,4) p by (simp add: mt_PromoteNode_def mt_commit_def Let_def update_conv')
qed

definition silent_model :: llm_promoter where
  "silent_model = \<lparr>lp_Client = Some (\<lambda>req. Inr None), lp_Model = '''', lp_SystemPrompt = '''', lp_MaxOutputTokens = 0\<rparr>"

theorem empty_answer_erases_summary_witness:
  "tn_Summary (the (map_of (st_Nodes sample_tree) ''tn-r'')) = ''s'' \<and>
   (\<exists>p trees' evs. mt_PromoteNode True (Some (LLMPromoter (\<lambda>t. t) (Some silent_model))) None 7 (\<lambda>t. t) ''s'' ''tn-r'' [(''s'', sample_tree)] =
      (ANode p, trees', evs) \<and> tn_Summary p = '''' \<and>
      map_option tn_Summary (Option.bind (map_of trees' ''s'') (\<lambda>t. map_of (st_Nodes t) ''tn-r'')) = Some '''')"
proof
  show "tn_Summary (the (map_of (st_Nodes sample_tree) ''tn-r'')) = ''s''" by (simp add: sample_tree_def sample_node_def)
  have wf: "trees_wf [(''s'', sample_tree)]" by code_simp
  have par: "map_of (st_Nodes sample_tree) ''tn-r'' = Some (sample_node ''tn-r'' '''' [''tn-a'', ''tn-b''] 0 False)"
    by (simp add: sample_tree_def)
  have el: "eligibleChildren sample_tree (sample_node ''tn-r'' '''' [''tn-a'', ''tn-b''] 0 False) \<noteq> []"
    by (simp add: eligibleChildren_def sample_tree_def sample_node_def List.map_filter_simps)
  show "\<exists>p trees' evs. mt_PromoteNode True (Some (LLMPromoter (\<lambda>t. t) (Some silent_model))) None 7 (\<lambda>t. t) ''s'' ''tn-r'' [(''s'', sample_tree)] =
      (ANode p, trees', evs) \<and> tn_Summary p = '''' \<and>
      map_option tn_Summary (Option.bind (map_of trees' ''s'') (\<lambda>t. map_of (st_Nodes t) ''tn-r'')) = Some ''''"
    by (rule empty_answer_erases_summary [OF wf _ par el, where lp = silent_model and call = "\<lambda>req. Inr None"])
      (simp_all add: silent_model_def extractFirstChoiceText_def)
qed

section \<open>Identifiers\<close>

text \<open>What a number reads as, its digits apart.\<close>

definition digit :: "char \<Rightarrow> bool" where
  "digit c \<longleftrightarrow> c \<in> set ''0123456789''"

lemma digit_of: "d < 10 \<Longrightarrow> digit (char_of (48 + d :: nat)) \<and> (of_char (char_of (48 + d :: nat)) :: nat) = 48 + d"
proof -
  assume "d < 10"
  then have "d \<in> set [0..<10]" by simp
  moreover have "\<forall>d\<in>set [0..<10]. digit (char_of (48 + d :: nat)) \<and> (of_char (char_of (48 + d :: nat)) :: nat) = 48 + d"
    by code_simp
  ultimately show ?thesis by blast
qed

definition reads :: "string \<Rightarrow> nat" where
  "reads ds = foldl (\<lambda>a c. a * 10 + (of_char c - 48)) 0 ds"

lemma base_ten_digits: "list_all digit (base_ten n) \<and> base_ten n \<noteq> []"
  by (induction n rule: base_ten.induct) (subst (1 2) base_ten.simps, use digit_of in auto)

lemma reads_base_ten: "reads (base_ten n) = n"
proof (induction n rule: base_ten.induct)
  case (1 n)
  show ?case
  proof (cases "n < 10")
    case True
    then show ?thesis using digit_of [of n] by (subst base_ten.simps) (simp add: reads_def)
  next
    case False
    then have "reads (base_ten (n div 10)) = n div 10" using 1 by simp
    then have "reads (base_ten (n div 10) @ [char_of (48 + n mod 10)]) = n div 10 * 10 + n mod 10"
      using digit_of [of "n mod 10"] by (simp add: reads_def)
    then show ?thesis using False by (subst base_ten.simps) simp
  qed
qed

lemma length_base_ten: "n < 10 ^ Suc k \<Longrightarrow> length (base_ten n) \<le> Suc k"
proof (induction k arbitrary: n)
  case 0
  then show ?case by (subst base_ten.simps) simp
next
  case (Suc k)
  show ?case
  proof (cases "n < 10")
    case False
    have "n div 10 < 10 ^ Suc k" using Suc.prems by (simp add: less_mult_imp_div_less)
    then show ?thesis using Suc.IH [of "n div 10"] False by (subst base_ten.simps) simp
  qed (subst base_ten.simps, simp)
qed

lemma hex_code: "a < 16 \<Longrightarrow> (of_char (hex_digit a) :: nat) = (if a < 10 then 48 + a else 87 + a)"
  by (simp add: hex_digit_def)

lemma hex_inj: "a < 16 \<Longrightarrow> b < 16 \<Longrightarrow> hex_digit a = hex_digit b \<Longrightarrow> a = b"
proof -
  assume "a < 16" "b < 16" and e: "hex_digit a = hex_digit b"
  then have "(if a < 10 then 48 + a else 87 + a) = (if b < 10 then 48 + b else 87 + b)"
    by (simp only: hex_code [symmetric])
  then show ?thesis using \<open>a < 16\<close> \<open>b < 16\<close> by (simp split: if_splits)
qed

lemma hex_name: "a < 16 \<Longrightarrow> name_char (hex_digit a)"
proof -
  assume a: "a < 16"
  have n: "name_char c" if "48 \<le> (of_char c :: nat) \<and> (of_char c :: nat) \<le> 57 \<or> 97 \<le> (of_char c :: nat) \<and> (of_char c :: nat) \<le> 122" for c
    unfolding name_char_def list_ex_iff fst_conv snd_conv less_eq_char_def using that by (elim disjE) simp_all
  show ?thesis by (rule n) (use hex_code [OF a] a in simp)
qed

lemma digit_name: "digit c \<Longrightarrow> name_char c \<and> c \<noteq> CHR ''-''"
proof -
  have "\<forall>c\<in>set ''0123456789''. name_char c \<and> c \<noteq> CHR ''-''" by code_simp
  then show "digit c \<Longrightarrow> name_char c \<and> c \<noteq> CHR ''-''" unfolding digit_def by blast
qed

lemma nibbles: "unat (drop_bit 4 b) < 16" "unat (b AND 15) < 16"
  "unat (drop_bit 4 b) = unat (drop_bit 4 c) \<Longrightarrow> unat (b AND 15) = unat (c AND 15) \<Longrightarrow> b = c" for b c :: "8 word"
proof -
  have hi: "unat (drop_bit 4 x) = unat x div 16" for x :: "8 word"
    by (simp only: unat_drop_bit_eq) (simp add: drop_bit_eq_div)
  have lo: "unat (x AND 15) = unat x mod 16" for x :: "8 word"
  proof -
    have "x AND 15 = take_bit 4 x" by (simp add: take_bit_eq_mask mask_eq_exp_minus_1)
    then have "unat (x AND 15) = take_bit 4 (unat x)" by (simp only: unsigned_take_bit_eq)
    then show ?thesis by (simp only: take_bit_eq_mod) simp
  qed
  have "unat x < 256" for x :: "8 word" using unsigned_less [of x] by simp
  then show "unat (drop_bit 4 b) < 16" by (simp add: hi less_mult_imp_div_less)
  show "unat (b AND 15) < 16" by (simp add: lo)
  show "unat (drop_bit 4 b) = unat (drop_bit 4 c) \<Longrightarrow> unat (b AND 15) = unat (c AND 15) \<Longrightarrow> b = c"
    unfolding hi lo by (metis div_mult_mod_eq unsigned_word_eqI)
qed

lemma hex_string: "list_all name_char (hex_EncodeToString bs) \<and> length (hex_EncodeToString bs) = 2 * length bs"
  by (induction bs) (auto simp: hex_EncodeToString_def hex_name nibbles)

lemma hex_string_inj: "length as = length bs \<Longrightarrow> hex_EncodeToString as = hex_EncodeToString bs \<Longrightarrow> as = bs"
proof (induction as bs rule: list_induct2)
  case (Cons a as b bs)
  then have "hex_digit (unat (drop_bit 4 a)) = hex_digit (unat (drop_bit 4 b))" "hex_digit (unat (a AND 15)) = hex_digit (unat (b AND 15))"
    "hex_EncodeToString as = hex_EncodeToString bs" by (simp_all add: hex_EncodeToString_def)
  then show ?case using Cons.IH hex_inj nibbles by (metis (no_types))
qed simp

lemma id_valid:
  assumes "list_all name_char s" and "s \<noteq> []" and "length s \<le> 128"
  shows "validateNodeID (''tn-'' @ s) = None"
proof -
  have "1 \<le> length s" using assms(2) by (cases s) auto
  then have "nodeIDPattern (''tn-'' @ s)" using assms(1,3) by (simp add: nodeIDPattern_def numeral_3_eq_3)
  then show ?thesis using assms(3) by (simp add: validateNodeID_def NodeIDMaxLen_def nodeIDPrefix_def)
qed

text \<open>
  Generated identifiers are accepted by the validation of node identifiers, and they differ whenever the
  clock or the eight random bytes differ; when the source of randomness fails only the clock tells them
  apart. The clock is taken to be past 1970.
\<close>
theorem generated_ids_valid_and_distinct:
  assumes "0 \<le> now" and "now < 2 ^ 63" and "0 \<le> now'" and "now' < 2 ^ 63"
    and "rnd = None \<or> length (the rnd) = 8" and "rnd' = None \<or> length (the rnd') = 8"
  shows "validateNodeID (generateNodeID now rnd) = None \<and> (generateNodeID now rnd = generateNodeID now' rnd' \<longleftrightarrow> now = now' \<and> rnd = rnd')"
proof -
  have short: "length (base_ten (nat t)) \<le> 19" if "t < 2 ^ 63" for t :: int
    using that by (intro length_base_ten [of _ 18, simplified]) simp
  define body where "body r = (case r of None \<Rightarrow> '''' | Some bs \<Rightarrow> ''-'' @ hex_EncodeToString bs)" for r
  have gen: "generateNodeID t r = ''tn-'' @ base_ten (nat t) @ body r" if "0 \<le> t" for t r
    using that by (simp add: generateNodeID_def nodeIDPrefix_def FormatInt_def body_def split: option.split)
  have body: "list_all name_char (body r) \<and> length (body r) \<le> 17" if "r = None \<or> length (the r) = 8" for r
    using that hex_string by (cases r) (auto simp: body_def name_char_def)
  have digits: "list_all name_char (base_ten n)" "CHR ''-'' \<notin> set (base_ten n)" for n
    using base_ten_digits [of n] digit_name by (auto simp: list_all_iff)
  have ne: "base_ten (nat now) \<noteq> []" using base_ten_digits by blast
  have "length (base_ten (nat now) @ body rnd) \<le> 128" using short [OF assms(2)] body [OF assms(5)] by simp
  then have valid: "validateNodeID (generateNodeID now rnd) = None"
    unfolding gen [OF assms(1)] using body [OF assms(5)] digits(1) ne by (intro id_valid) simp_all
  have "base_ten (nat now) = base_ten (nat now') \<and> rnd = rnd'" if e: "base_ten (nat now) @ body rnd = base_ten (nat now') @ body rnd'"
  proof -
    have none: "body r = '''' \<or> (\<exists>bs. r = Some bs \<and> body r = CHR ''-'' # hex_EncodeToString bs)" for r
      by (cases r) (simp_all add: body_def)
    have take: "takeWhile (\<lambda>c. c \<noteq> CHR ''-'') (base_ten n @ body r) = base_ten n" for n r
    proof -
      have "takeWhile (\<lambda>c. c \<noteq> CHR ''-'') (base_ten n @ body r) = base_ten n @ takeWhile (\<lambda>c. c \<noteq> CHR ''-'') (body r)"
        using digits(2) [of n] by (intro takeWhile_append2) auto
      then show ?thesis using none [of r] by (elim disjE exE conjE) simp_all
    qed
    have "base_ten (nat now) = base_ten (nat now')"
      using arg_cong [OF e, of "takeWhile (\<lambda>c. c \<noteq> CHR ''-'')"] by (simp only: take)
    moreover from this have "body rnd = body rnd'" using e by simp
    then have "rnd = rnd'" using assms(5,6) hex_string_inj by (cases rnd; cases rnd') (auto simp: body_def)
    ultimately show ?thesis by simp
  qed
  moreover have "base_ten (nat now) = base_ten (nat now') \<Longrightarrow> now = now'" using reads_base_ten assms(1,3) by (metis eq_nat_nat_iff)
  ultimately show ?thesis using valid gen assms(1,3) by auto
qed

theorem generated_ids_valid_and_distinct_witness:
  "validateNodeID (generateNodeID 1700000000000000000 None) = None \<and>
   generateNodeID 1700000000000000000 None \<noteq> generateNodeID 1700000000000000000 (Some (replicate 8 7))"
  using generated_ids_valid_and_distinct [of 1700000000000000000 1700000000000000000 None "Some (replicate 8 7)"] by simp

end
