(* ===== verification/Spec2Isabelle.thy ===== *)
theory Spec2Isabelle
  imports DagProps DagOutcome Composites Resources Backpressure CriticalPath WorkflowProps InterruptFile DagResume CheckpointFile SessionHooks TaskLease TreeLocks TreePromoter
begin

text \<open>
  A model of the core of the Go module vage, an agent framework, and the theorems that make it correct.

  \<^bold>\<open>The program.\<close> Agents are run by two schedulers: \<open>orchestrate\<close> executes a graph of runners with retries,
  compensation, priorities, resource limits and dynamic spawning, and \<open>workflow\<close> executes a typed graph level
  by level over a shared state. The runner of most nodes is the task agent (\<open>agent/taskagent\<close>), a loop over a
  language model and tools under a token budget, whose input, output and tool results pass content guards
  (\<open>guard\<close>) and which can be suspended before a batch of tools and resumed. What an agent run leaves behind goes to stores, each with an in-memory and a
  file-backed implementation: \<open>checkpoint\<close> keeps the iterations of a run so that it can be resumed, \<open>interrupt\<close>
  keeps tool batches that wait for a human decision, \<open>session\<close> keeps the metadata, the event log, the state
  and the metrics of a session, \<open>session/tree\<close> keeps
  its tree of goals, whose finished branches are folded into summaries. \<open>hook\<close> hands the events of a run to observers, among them the session hook,
  which writes them into the session store, and the metrics hook, which counts them.

  \<^bold>\<open>Conventions.\<close> A Go error is a value of \<open>go_error\<close> with its wrapping chain (\<open>errors_is\<close> is \<open>errors.Is\<close>); a
  function with an error result returns a sum, or an error option beside the new state. A panic is \<open>None\<close>.
  A Go map is an association list or a HOL map; clones are the identity, because HOL values are immutable.
  Time is an integer, 0 the zero time. Integers are \<open>64 word\<close> where the code can overflow. Everything the
  environment decides (the schedule, the clock, the answers of runners, of the context and of the operating
  system) is an argument: a record of faults for file operations, a step relation for goroutines.

  \<^bold>\<open>Prelude\<close> holds the error values and the facts on lists, folds and maps that the components share;
  \<^bold>\<open>Schema\<close> names the values of the external message package, which are parameters.

  \<^bold>\<open>The DAG engine\<close> (\<open>src/orchestrate\<close>). \<open>Graph\<close>: cycle detection, topological order and reachability
  (\<open>dag.go\<close>, \<open>topo.go\<close>, \<open>graph.go\<close>), equivalent to acyclicity. \<open>Orchestrate\<close>: nodes, \<open>ValidateDAG\<close> and the
  construction of the executor. \<open>ReadyQueue\<close>: the heap of \<open>priority.go\<close>, a refinement of a list from which
  the least item is taken. \<open>CriticalPath\<close>: the forward and backward pass, exact against longest paths.
  \<open>Aggregate\<close>: the aggregators. \<open>Attempts\<close>: retries, backoff and compensation (\<open>compensate.go\<close>). \<open>DagExec\<close>
  translates the handlers of \<open>dag.go\<close>; \<open>DagSteps\<close> is the step relation of the main goroutine and the node
  goroutines; \<open>DagInv\<close> its invariant; \<open>DagProps\<close> the theorems on every execution (dependencies first, no
  deadlock, termination, concurrency limit, aborts); \<open>DagOutcome\<close> shows that the result does not depend on
  the schedule. \<open>DagResume\<close>: checkpoints of an execution and resuming from them (\<open>checkpoint.go\<close>).
  \<open>Composites\<close>: loop, conditional, spawn and timeline. \<open>Resources\<close>: semaphores and the token bucket
  (\<open>resource.go\<close>). \<open>Backpressure\<close>: the adaptive limit (\<open>backpressure.go\<close>).

  \<^bold>\<open>The workflow engine\<close> (\<open>src/workflow\<close>). \<open>Workflow\<close>: fields, patches, validation, batches as a step relation
  and the loop. \<open>WorkflowMerge\<close>: merging patches. \<open>WorkflowProps\<close>: determinism, termination and progress.

  \<^bold>\<open>The task agent\<close> (\<open>src/agent/taskagent\<close>, \<open>src/guard\<close>). \<open>Guards\<close>: the chain of guards and the content guards.
  \<open>TaskParams\<close>: parameters and the frozen tool set (\<open>params.go\<close>, \<open>skill_inject.go\<close>). \<open>TaskAgent\<close>: the token
  budget, the tool batch, checkpoints, suspension, the loop with its two modes and the entry points (\<open>budget.go\<close>,
  \<open>tool_batch.go\<close>, \<open>guards.go\<close>, \<open>loop.go\<close>, \<open>task.go\<close>); the world is a log of requests, handlers, events and
  memory, and the model, tools, stores and policies are functions on it. \<open>TaskResume\<close>: resuming from a
  checkpoint and from a suspended batch (\<open>checkpoint.go\<close>, \<open>interrupt.go\<close>). \<open>TaskProps\<close>: the contract of a mode
  as a locale, and what is sent to the model; \<open>TaskBudget\<close>: tokens and stop reasons; \<open>TaskBatch\<close>: batches run,
  suspended and resumed; \<open>TaskLease\<close>: a resumption acts only under its lease; \<open>TaskSample\<close>: a concrete agent on
  the in-memory stores, on which the witnesses run the code end to end.

  \<^bold>\<open>Stores.\<close> \<open>Files\<close>: directories of JSON files and the atomic write as a list of steps with faults.
  \<open>Interrupt\<close>, \<open>InterruptStore\<close>, \<open>InterruptFile\<close> (\<open>src/interrupt\<close>): the record and its state machine, the
  contract of a store as a locale, the in-memory and the file store, across processes. \<open>Checkpoint\<close> and
  \<open>CheckpointFile\<close> (\<open>src/checkpoint\<close>): the same for iteration checkpoints. \<open>Session\<close>, \<open>SessionFile\<close>
  (\<open>src/session\<close>): the operations of both session stores; \<open>SessionRefine\<close>: they answer alike without faults;
  \<open>SessionLog\<close>: what the event log holds under faults, and how it becomes unreadable; \<open>SessionMetrics\<close>:
  metrics and the hook that counts events; \<open>SessionHooks\<close>: the hook manager (\<open>src/hook\<close>) and the hook that
  stores events.

  \<^bold>\<open>Session trees\<close> (\<open>src/session/tree\<close>). \<open>SessionTree\<close>: nodes, validation, the changes of a tree and its
  well-formedness, kept by each (\<open>tree.go\<close>). \<open>TreeFold\<close>: which children are folded into their parent, what that does,
  the view without folded nodes and the cut of a summary (\<open>promotion.go\<close>, \<open>triggers.go\<close>). \<open>TreeStore\<close>: the calls of
  the in-memory store, and all its goroutines as a step relation, where a fold is a snapshot and a later
  commit (\<open>mapstore.go\<close>). \<open>TreeFile\<close>: the file store and that it refines the in-memory one (\<open>filestore.go\<close>);
  \<open>TreeLocks\<close>: its table of mutexes, and the deletion that lets two writers in. \<open>TreePromoter\<close>: the promoters
  that ask a model or a compressor (\<open>promoter.go\<close>), and the generated identifiers.

  \<^bold>\<open>Interfaces.\<close> What one component relies on in another is a locale, interpreted on the model of every
  implementation: \<open>ready_queue\<close>, \<open>aggregator\<close>, \<open>reliable_store\<close>, \<open>interrupt_store\<close>, \<open>iteration_store\<close>,
  \<open>metrics_store\<close>, \<open>event_writer\<close>, \<open>turn_contract\<close>, \<open>promoter\<close>.

  \<^bold>\<open>Bounds and fuel.\<close> Loops of the code are structural recursions or recursions with a measure. Step relations
  have no fuel: termination is a measure on states, and liveness that a state without a step is a final one.
  A history of calls is a list, so statements on histories are inductions. The ReAct loop recurses on the number
  of iterations left, which is the bound of the loop in the code.

  \<^bold>\<open>Not modelled.\<close> The built-in tools, memory tiers, prompt sources and HTTP packages: they are clients of models
  and services whose answers are outside the repository, or plain input and output; the task agent sees them as
  parameters. The other agents, which delegate to a model or to the engines. Within the modelled packages: logging, the random generation of identifiers, the cloning
  of values, the advisory file locks of the operating system (a parameter), and lock-free readers that run
  during a write, which see the file before or after its rename. The manifest names every file.
\<close>

end
